(* ===== verification/Prelude.thy ===== *)
theory Prelude
  imports Main "HOL-Library.Monad_Syntax"
begin

text \<open>
  Shared vocabulary of the development.

  Machine conventions. A \<open>size_t\<close> of the object store is a \<open>nat\<close>: the indices the code
  keeps are positions of vectors that are in memory, so the additions it makes on them stay
  far below \<open>2 ^ 64\<close>, and the lemmas that characterise each operation show that none of its
  subtractions goes below zero. The sentinel \<open>IndexSet::npos\<close> keeps its value. A
  \<open>ptrdiff_t\<close> is an \<open>int\<close>.

  A \<open>REALM_ASSERT\<close> that fails terminates the process, so it is \<open>None\<close> in the option monad;
  a loop over iterators is a \<open>partial_function (option)\<close>, so that a loop which does not end
  is \<open>None\<close> as well. A theorem that an operation returns \<open>Some\<close> therefore shows that no
  assertion of it fires and that it terminates.
\<close>

type_synonym range = "nat \<times> nat"

named_theorems cursor_simps \<open>how the cursor operations act on what lies before and after them\<close>
named_theorems set_specs \<open>the operations of an index set as operations on sets of indices\<close>

section \<open>Assertions and sentinels\<close>

definition realm_assert :: "bool \<Rightarrow> unit option" where
  "realm_assert b = (if b then Some () else None)"

lemma realm_assert_simps [simp]:
  "realm_assert True = Some ()" "realm_assert False = None"
  by (simp_all add: realm_assert_def)

lemma realm_assert_eq_Some [simp]: "realm_assert b = Some u \<longleftrightarrow> b"
  by (simp add: realm_assert_def)

definition npos :: nat where
  "npos = 2 ^ 64 - 1"

section \<open>Lists split at a position\<close>

lemma take_Suc_nth: "i < length xs \<Longrightarrow> take (Suc i) xs = take i xs @ [xs ! i]"
  by (rule take_Suc_conv_app_nth)

lemma drop_eq_nth_Cons: "i < length xs \<Longrightarrow> drop i xs = xs ! i # drop (Suc i) xs"
  by (rule Cons_nth_drop_Suc [symmetric])

lemma take_update_same [simp]: "take i (xs[i := x]) = take i xs"
  by (simp add: take_update_cancel)

lemma drop_Suc_update_same [simp]: "drop (Suc i) (xs[i := x]) = drop (Suc i) xs"
  by (simp add: drop_update_cancel)

lemma takeWhile_all: "(\<And>x. x \<in> set xs \<Longrightarrow> P x) \<Longrightarrow> takeWhile P xs = xs"
  by (induction xs) auto

lemma takeWhile_split:
  "(\<And>x. x \<in> set xs \<Longrightarrow> P x) \<Longrightarrow> (ys \<noteq> [] \<Longrightarrow> \<not> P (hd ys)) \<Longrightarrow> takeWhile P (xs @ ys) = xs"
  by (induction xs) (auto simp: neq_Nil_conv, cases ys, auto)

lemma take_length_takeWhile: "take (length (takeWhile P xs)) xs = takeWhile P xs"
  by (metis takeWhile_eq_take)

lemma drop_length_takeWhile: "drop (length (takeWhile P xs)) xs = dropWhile P xs"
  by (metis dropWhile_eq_drop)

lemma length_takeWhile_less: "x \<in> set xs \<Longrightarrow> \<not> P x \<Longrightarrow> length (takeWhile P xs) < length xs"
  by (induction xs) auto

section \<open>Lists of half-open ranges\<close>

text \<open>
  What an index set stores is a list of ranges \<open>[a, b)\<close>: none is empty, and each one begins
  strictly after the end of the one before (adjacent ranges are always merged).
\<close>

definition ranges_ok :: "range list \<Rightarrow> bool" where
  "ranges_ok rs \<longleftrightarrow> sorted_wrt (\<lambda>r s. snd r < fst s) rs \<and> (\<forall>r \<in> set rs. fst r < snd r)"

definition range_set :: "range \<Rightarrow> nat set" where
  "range_set r = {fst r..<snd r}"

definition ranges_set :: "range list \<Rightarrow> nat set" where
  "ranges_set rs = (\<Union>r \<in> set rs. range_set r)"

definition range_size :: "range \<Rightarrow> nat" where
  "range_size r = snd r - fst r"

definition range_total :: "range list \<Rightarrow> nat" where
  "range_total rs = sum_list (map range_size rs)"

lemma ranges_ok_Nil [simp]: "ranges_ok []"
  by (simp add: ranges_ok_def)

lemma ranges_ok_Cons [simp]:
  "ranges_ok (r # rs) \<longleftrightarrow> fst r < snd r \<and> (\<forall>s \<in> set rs. snd r < fst s) \<and> ranges_ok rs"
  by (auto simp: ranges_ok_def)

lemma ranges_ok_append [simp]:
  "ranges_ok (rs @ ss) \<longleftrightarrow>
     ranges_ok rs \<and> ranges_ok ss \<and> (\<forall>r \<in> set rs. \<forall>s \<in> set ss. snd r < fst s)"
  by (auto simp: ranges_ok_def sorted_wrt_append)

lemma ranges_okD: "ranges_ok rs \<Longrightarrow> r \<in> set rs \<Longrightarrow> fst r < snd r"
  by (simp add: ranges_ok_def)

lemma ranges_set_simps [simp]:
  "ranges_set [] = {}"
  "ranges_set (r # rs) = range_set r \<union> ranges_set rs"
  "ranges_set (rs @ ss) = ranges_set rs \<union> ranges_set ss"
  by (auto simp: ranges_set_def)

lemma mem_range_set [simp]: "x \<in> range_set r \<longleftrightarrow> fst r \<le> x \<and> x < snd r"
  by (auto simp: range_set_def)

lemma mem_ranges_set: "x \<in> ranges_set rs \<longleftrightarrow> (\<exists>r \<in> set rs. fst r \<le> x \<and> x < snd r)"
  by (auto simp: ranges_set_def)

lemma finite_ranges_set [simp]: "finite (ranges_set rs)"
  by (simp add: ranges_set_def range_set_def)

lemma range_total_simps [simp]:
  "range_total [] = 0" "range_total (r # rs) = range_size r + range_total rs" "range_total (rs @ ss) = range_total rs + range_total ss"
  by (simp_all add: range_total_def)

lemma card_range_set [simp]: "card (range_set r) = range_size r"
  by (simp add: range_set_def range_size_def)

text \<open>The ranges are disjoint, so their sizes add up to the number of indices.\<close>

lemma card_ranges_set: "ranges_ok rs \<Longrightarrow> card (ranges_set rs) = range_total rs"
proof (induction rs)
  case (Cons r rs)
  then have "range_set r \<inter> ranges_set rs = {}"
    by (fastforce simp: mem_ranges_set)
  with Cons show ?case
    by (simp add: card_Un_disjoint range_set_def range_size_def)
qed simp

text \<open>Ranges before a bound and ranges after it.\<close>

lemma ranges_set_below: "(\<And>r. r \<in> set rs \<Longrightarrow> snd r \<le> k) \<Longrightarrow> x \<in> ranges_set rs \<Longrightarrow> x < k"
  by (fastforce simp: mem_ranges_set)

lemma ranges_set_above: "(\<And>r. r \<in> set rs \<Longrightarrow> k \<le> fst r) \<Longrightarrow> x \<in> ranges_set rs \<Longrightarrow> k \<le> x"
  by (fastforce simp: mem_ranges_set)

lemma ranges_ok_sorted_snd:
  "ranges_ok (rs @ ss) \<Longrightarrow> r \<in> set rs \<Longrightarrow> s \<in> set ss \<Longrightarrow> snd r < fst s \<and> snd r < snd s"
  by (force simp: ranges_okD dest: ranges_okD)

lemma range_total_update:
  "i < length rs \<Longrightarrow> range_total (rs[i := r]) + range_size (rs ! i) = range_total rs + range_size r"
proof (induction rs arbitrary: i)
  case (Cons s rs)
  then show ?case by (cases i) auto
qed simp

lemma range_total_nth: "i < length rs \<Longrightarrow> range_size (rs ! i) \<le> range_total rs"
  by (induction rs arbitrary: i) (auto simp: nth_Cons' trans_le_add2 split: if_splits)

lemma range_total_sum: "sum_list (map (\<lambda>r. snd r - fst r) rs) = range_total rs"
  by (induction rs) (auto simp: range_size_def)

lemma hd_list_update: "xs \<noteq> [] \<Longrightarrow> hd (xs[i := x]) = (if i = 0 then x else hd xs)"
  by (cases xs; cases i) auto

end
