(* ===== verification/RangeVector.thy ===== *)
theory RangeVector
  imports Prelude
begin

text \<open>
  The chunked vector of ranges under \<open>IndexSet\<close> (\<open>ChunkedRangeVector\<close> and its iterators in
  \<open>include/index_set.hpp\<close> and \<open>ObjectStore/src/index_set.cpp\<close>): chunks with the cached
  begin, end and number of indices, iterators as a chunk number and an offset in it, and the
  operations that move an iterator, change the range under it, insert and erase. The chunk
  size \<open>ChunkedRangeVector::max_size\<close> (4 in debug builds, 256 in release builds) is the
  parameter \<open>mx\<close>.

  What a position in the vector is to its clients is the pair of the ranges before it and
  the ranges from it on. The lemmas give every operation in those terms; the locale
  \<open>range_cursor\<close> is that interface, and its interpretation shows that the chunked vector
  implements it.
\<close>

section \<open>Chunks and iterators\<close>

record chunk =
  cdata :: "range list"
  cbegin :: nat
  cend :: nat
  ccount :: nat

type_synonym chunks = "chunk list"

text \<open>An iterator: the position of its chunk and its offset there; the end has offset 0.\<close>

type_synonym iter = "nat \<times> nat"

definition crv_end :: "chunks \<Rightarrow> iter" where
  "crv_end cs = (length cs, 0)"

definition crv_begin :: "chunks \<Rightarrow> iter" where
  "crv_begin cs = (if cs = [] then crv_end cs else (0, 0))"

definition crv_empty :: "chunks \<Rightarrow> bool" where
  "crv_empty cs \<longleftrightarrow> cs = []"

definition deref :: "chunks \<Rightarrow> iter \<Rightarrow> range" where
  "deref cs it = cdata (cs ! fst it) ! snd it"

definition next_chunk :: "iter \<Rightarrow> iter" where
  "next_chunk it = (Suc (fst it), 0)"

definition it_next :: "chunks \<Rightarrow> iter \<Rightarrow> iter" where
  "it_next cs it =
     (let it' = (fst it, Suc (snd it))
      in if snd it' = length (cdata (cs ! fst it')) then next_chunk it' else it')"

definition it_prev :: "chunks \<Rightarrow> iter \<Rightarrow> iter" where
  "it_prev cs it =
     (if it = crv_end cs \<or> snd it = 0
      then (fst it - 1, length (cdata (cs ! (fst it - 1))) - 1)
      else (fst it, snd it - 1))"

section \<open>Changing the range under an iterator\<close>

definition sz :: "nat \<Rightarrow> int \<Rightarrow> nat" where
  "sz n d = nat (int n + d)"

text \<open>The three mutations act on the chunk \<open>m_outer\<close> of the iterator, at its offset.\<close>

definition set_in_chunk :: "chunk \<Rightarrow> nat \<Rightarrow> nat \<Rightarrow> nat \<Rightarrow> chunk" where
  "set_in_chunk c i front back =
     (let r = cdata c ! i;
          c1 = c\<lparr>ccount := ccount c - (snd r - fst r)\<rparr>;
          c2 = (if i = 0 then c1\<lparr>cbegin := front\<rparr> else c1);
          c3 = (if Suc i = length (cdata c) then c2\<lparr>cend := back\<rparr> else c2);
          c4 = c3\<lparr>ccount := ccount c3 + (back - front)\<rparr>
      in c4\<lparr>cdata := (cdata c)[i := (front, back)]\<rparr>)"

definition it_set :: "chunks \<Rightarrow> iter \<Rightarrow> nat \<Rightarrow> nat \<Rightarrow> chunks" where
  "it_set cs it front back = cs[fst it := set_in_chunk (cs ! fst it) (snd it) front back]"

definition adjust_in_chunk :: "chunk \<Rightarrow> nat \<Rightarrow> int \<Rightarrow> int \<Rightarrow> chunk" where
  "adjust_in_chunk c i front back =
     (let r = cdata c ! i;
          c1 = (if i = 0 then c\<lparr>cbegin := sz (cbegin c) front\<rparr> else c);
          c2 = (if Suc i = length (cdata c) then c1\<lparr>cend := sz (cend c1) back\<rparr> else c1);
          c3 = c2\<lparr>ccount := sz (ccount c2) (- front + back)\<rparr>
      in c3\<lparr>cdata := (cdata c)[i := (sz (fst r) front, sz (snd r) back)]\<rparr>)"

definition it_adjust :: "chunks \<Rightarrow> iter \<Rightarrow> int \<Rightarrow> int \<Rightarrow> chunks" where
  "it_adjust cs it front back = cs[fst it := adjust_in_chunk (cs ! fst it) (snd it) front back]"

definition shift_in_chunk :: "chunk \<Rightarrow> nat \<Rightarrow> int \<Rightarrow> chunk" where
  "shift_in_chunk c i distance =
     (let r = cdata c ! i;
          c1 = (if i = 0 then c\<lparr>cbegin := sz (cbegin c) distance\<rparr> else c);
          c2 = (if Suc i = length (cdata c) then c1\<lparr>cend := sz (cend c1) distance\<rparr> else c1)
      in c2\<lparr>cdata := (cdata c)[i := (sz (fst r) distance, sz (snd r) distance)]\<rparr>)"

definition it_shift :: "chunks \<Rightarrow> iter \<Rightarrow> int \<Rightarrow> chunks" where
  "it_shift cs it distance = cs[fst it := shift_in_chunk (cs ! fst it) (snd it) distance]"

section \<open>Growing and shrinking\<close>

definition push_back :: "nat \<Rightarrow> chunks \<Rightarrow> range \<Rightarrow> chunks option" where
  "push_back mx cs value =
     (if \<not> crv_empty cs \<and> length (cdata (last cs)) < mx
      then do {
        realm_assert (cend (last cs) \<le> fst value);
        Some (butlast cs @
          [(last cs)\<lparr>cdata := cdata (last cs) @ [value],
                     ccount := ccount (last cs) + (snd value - fst value),
                     cend := snd value\<rparr>])
      }
      else Some (cs @ [\<lparr>cdata = [value], cbegin = fst value, cend = snd value,
                        ccount = snd value - fst value\<rparr>]))"

text \<open>
  The chunk is split in half when it is full. The source moves the last \<open>max_size / 2\<close>
  ranges to the new chunk.
\<close>

definition ensure_space :: "nat \<Rightarrow> chunks \<Rightarrow> iter \<Rightarrow> chunks \<times> iter" where
  "ensure_space mx cs pos =
     (let prev = cs ! fst pos in
      if length (cdata prev) + 1 \<le> mx then (cs, pos)
      else
        let offset = snd pos;
            to_move = mx div 2;
            keep = length (cdata prev) - to_move;
            moved = drop keep (cdata prev);
            kept = take keep (cdata prev);
            moved_count = sum_list (map (\<lambda>r. snd r - fst r) moved);
            prev' = prev\<lparr>cdata := kept, cend := snd (last kept),
                         ccount := ccount prev - moved_count\<rparr>;
            new_pos = \<lparr>cdata = moved, cbegin = fst (hd moved), cend = snd (last moved),
                       ccount = moved_count\<rparr>;
            cs' = take (fst pos) cs @ [prev', new_pos] @ drop (Suc (fst pos)) cs
        in (cs', if to_move \<le> offset then (Suc (fst pos), offset - to_move) else (fst pos, offset)))"

definition insert_in_chunk :: "chunk \<Rightarrow> nat \<Rightarrow> range \<Rightarrow> chunk" where
  "insert_in_chunk c offset value =
     c\<lparr>cdata := take offset (cdata c) @ [value] @ drop offset (cdata c),
       ccount := ccount c + (snd value - fst value),
       cbegin := min (cbegin c) (fst value),
       cend := max (cend c) (snd value)\<rparr>"

definition crv_insert :: "nat \<Rightarrow> chunks \<Rightarrow> iter \<Rightarrow> range \<Rightarrow> (chunks \<times> iter) option" where
  "crv_insert mx cs pos value =
     (if fst pos = length cs
      then do {
        cs' \<leftarrow> push_back mx cs value;
        Some (cs', it_prev cs' (crv_end cs'))
      }
      else
        let (cs', pos') = ensure_space mx cs pos
        in Some (cs'[fst pos' := insert_in_chunk (cs' ! fst pos') (snd pos') value], pos'))"

definition crv_erase :: "chunks \<Rightarrow> iter \<Rightarrow> chunks \<times> iter" where
  "crv_erase cs pos =
     (let offset = snd pos;
          c = cs ! fst pos;
          r = cdata c ! offset;
          data' = take offset (cdata c) @ drop (Suc offset) (cdata c);
          c' = c\<lparr>ccount := ccount c - (snd r - fst r), cdata := data'\<rparr>
      in if data' = [] then (take (fst pos) cs @ drop (Suc (fst pos)) cs, (fst pos, 0))
         else (cs[fst pos := c'\<lparr>cbegin := fst (hd data'), cend := snd (last data')\<rparr>],
               if offset < length data' then pos else (Suc (fst pos), 0)))"

text \<open>The checks of \<open>verify()\<close>, which debug builds run after every change.\<close>

fun verify_ranges :: "nat option \<Rightarrow> range list \<Rightarrow> bool" where
  "verify_ranges prev_end [] = True"
| "verify_ranges prev_end (r # rs) =
     (fst r < snd r \<and> (case prev_end of None \<Rightarrow> True | Some e \<Rightarrow> e < fst r) \<and>
      verify_ranges (Some (snd r)) rs)"

definition verify_chunk :: "chunk \<Rightarrow> bool" where
  "verify_chunk c \<longleftrightarrow>
     cdata c \<noteq> [] \<and> fst (hd (cdata c)) = cbegin c \<and> snd (last (cdata c)) = cend c \<and>
     ccount c \<le> cend c - cbegin c \<and> sum_list (map (\<lambda>r. snd r - fst r) (cdata c)) = ccount c"

definition flat :: "chunks \<Rightarrow> range list" where
  "flat cs = concat (map cdata cs)"

definition verify :: "chunks \<Rightarrow> bool" where
  "verify cs \<longleftrightarrow> verify_ranges None (flat cs) \<and> (\<forall>c \<in> set cs. verify_chunk c)"

section \<open>Positions as the ranges before and after them\<close>

definition chunk_ok :: "nat \<Rightarrow> chunk \<Rightarrow> bool" where
  "chunk_ok mx c \<longleftrightarrow> cdata c \<noteq> [] \<and> length (cdata c) \<le> mx \<and> cbegin c = fst (hd (cdata c)) \<and>
     cend c = snd (last (cdata c)) \<and> ccount c = range_total (cdata c)"

definition crv_ok :: "nat \<Rightarrow> chunks \<Rightarrow> bool" where
  "crv_ok mx cs \<longleftrightarrow> (\<forall>c \<in> set cs. chunk_ok mx c)"

definition valid_it :: "chunks \<Rightarrow> iter \<Rightarrow> bool" where
  "valid_it cs it \<longleftrightarrow> it = crv_end cs \<or> fst it < length cs \<and> snd it < length (cdata (cs ! fst it))"

definition before :: "chunks \<Rightarrow> iter \<Rightarrow> range list" where
  "before cs it = flat (take (fst it) cs) @
     (if fst it < length cs then take (snd it) (cdata (cs ! fst it)) else [])"

definition after :: "chunks \<Rightarrow> iter \<Rightarrow> range list" where
  "after cs it = (if fst it < length cs
     then drop (snd it) (cdata (cs ! fst it)) @ flat (drop (Suc (fst it)) cs) else [])"

lemma flat_simps [simp]:
  "flat [] = []" "flat (c # cs) = cdata c @ flat cs" "flat (cs @ ds) = flat cs @ flat ds"
  by (simp_all add: flat_def)

lemma crv_ok_simps [simp]:
  "crv_ok mx []" "crv_ok mx (c # cs) \<longleftrightarrow> chunk_ok mx c \<and> crv_ok mx cs"
  "crv_ok mx (cs @ ds) \<longleftrightarrow> crv_ok mx cs \<and> crv_ok mx ds"
  by (auto simp: crv_ok_def)

lemma crv_ok_take_drop: "crv_ok mx cs \<Longrightarrow> crv_ok mx (take k cs) \<and> crv_ok mx (drop k cs)"
  by (metis append_take_drop_id crv_ok_simps(3))

lemma crv_ok_nth: "crv_ok mx cs \<Longrightarrow> k < length cs \<Longrightarrow> chunk_ok mx (cs ! k)"
  by (simp add: crv_ok_def)

lemma crv_ok_update: "crv_ok mx cs \<Longrightarrow> chunk_ok mx c \<Longrightarrow> crv_ok mx (cs[k := c])"
  by (auto simp: crv_ok_def dest!: subsetD [OF set_update_subset_insert])

lemma flat_eq_Nil: "crv_ok mx cs \<Longrightarrow> flat cs = [] \<longleftrightarrow> cs = []"
  by (cases cs) (auto simp: chunk_ok_def)

lemma before_after:
  assumes "valid_it cs it"
  shows "before cs it @ after cs it = flat cs"
proof (cases "fst it < length cs")
  case True
  have "flat cs = flat (take (fst it) cs @ cs ! fst it # drop (Suc (fst it)) cs)"
    using True by (simp add: id_take_nth_drop [symmetric])
  then show ?thesis
    using True by (simp add: before_def after_def)
next
  case False
  with assms show ?thesis
    by (auto simp: valid_it_def crv_end_def before_def after_def)
qed

lemma valid_itD:
  "valid_it cs it \<Longrightarrow> it \<noteq> crv_end cs \<Longrightarrow> fst it < length cs \<and> snd it < length (cdata (cs ! fst it))"
  by (auto simp: valid_it_def)

lemma crv_end_simps [simp]:
  "valid_it cs (crv_end cs)" "before cs (crv_end cs) = flat cs" "after cs (crv_end cs) = []"
  by (simp_all add: valid_it_def crv_end_def before_def after_def)

lemma after_eq_Nil: "valid_it cs it \<Longrightarrow> after cs it = [] \<longleftrightarrow> it = crv_end cs"
  by (auto simp: valid_it_def after_def crv_end_def)

lemma after_Cons_deref:
  "valid_it cs it \<Longrightarrow> it \<noteq> crv_end cs \<Longrightarrow> after cs it = deref cs it # tl (after cs it)"
  using valid_itD [of cs it] by (simp add: after_def deref_def drop_eq_nth_Cons)

lemma deref_hd: "valid_it cs it \<Longrightarrow> after cs it = r # rs \<Longrightarrow> deref cs it = r"
  by (metis after_Cons_deref crv_end_simps(3) list.distinct(1) list.inject)

lemma valid_begin: "crv_ok mx cs \<Longrightarrow> valid_it cs (crv_begin cs)"
  by (cases cs) (auto simp: crv_begin_def valid_it_def chunk_ok_def)

lemma crv_begin_simps [simp]: "before cs (crv_begin cs) = []" "after cs (crv_begin cs) = flat cs"
  by (cases cs; simp add: crv_begin_def before_def after_def crv_end_def)+

lemma before_eq_Nil:
  assumes "crv_ok mx cs" "valid_it cs it"
  shows "before cs it = [] \<longleftrightarrow> it = crv_begin cs"
proof (cases cs)
  case Nil
  with assms show ?thesis
    by (auto simp: valid_it_def before_def crv_begin_def)
next
  case (Cons c cs')
  have "fst it = 0" if "flat (take (fst it) cs) = []"
    using that flat_eq_Nil [of mx "take (fst it) cs"] crv_ok_take_drop [OF assms(1), of "fst it"] Cons
    by (cases "fst it") auto
  then show ?thesis
    using assms Cons
    by (cases it) (auto simp: before_def crv_begin_def valid_it_def crv_end_def chunk_ok_def)
qed

section \<open>Moving\<close>

lemma it_next_cursor:
  assumes "crv_ok mx cs" "valid_it cs it" "it \<noteq> crv_end cs"
  shows "valid_it cs (it_next cs it)"
    and "before cs (it_next cs it) = before cs it @ [deref cs it]"
    and "after cs (it_next cs it) = tl (after cs it)"
proof -
  let ?k = "fst it" let ?i = "snd it"
  have k: "?k < length cs" and i: "?i < length (cdata (cs ! ?k))"
    using valid_itD [OF assms(2,3)] by auto
  have "valid_it cs (it_next cs it) \<and> before cs (it_next cs it) = before cs it @ [deref cs it] \<and>
      after cs (it_next cs it) = tl (after cs it)"
  proof (cases "Suc ?i = length (cdata (cs ! ?k))")
    case True
    then have last: "drop ?i (cdata (cs ! ?k)) = [cdata (cs ! ?k) ! ?i]"
      and all: "take ?i (cdata (cs ! ?k)) @ [cdata (cs ! ?k) ! ?i] = cdata (cs ! ?k)"
      using i by (auto simp: drop_eq_nth_Cons) (metis lessI order_refl take_Suc_nth take_all)
    have nxt: "it_next cs it = (Suc ?k, 0)"
      using True by (simp add: it_next_def next_chunk_def)
    show ?thesis
    proof (cases "Suc ?k < length cs")
      case more: True
      then have "cdata (cs ! Suc ?k) \<noteq> []"
        using crv_ok_nth [OF assms(1) more] by (simp add: chunk_ok_def)
      then show ?thesis
        using more k all last
        by (simp add: nxt valid_it_def before_def after_def deref_def take_Suc_nth
            drop_eq_nth_Cons [OF more])
    next
      case False
      then have k_last: "Suc ?k = length cs" using k by simp
      have "flat cs = flat (take ?k cs) @ cdata (cs ! ?k)"
        using take_Suc_nth [OF k] k_last
        by (metis append_Nil2 flat_simps order_refl take_all)
      then show ?thesis
        using k k_last all last
        by (simp add: nxt valid_it_def crv_end_def before_def after_def deref_def)
    qed
  next
    case False
    then show ?thesis
      using k i by (simp add: it_next_def Let_def valid_it_def before_def after_def deref_def
          take_Suc_nth drop_eq_nth_Cons)
  qed
  then show "valid_it cs (it_next cs it)"
    and "before cs (it_next cs it) = before cs it @ [deref cs it]"
    and "after cs (it_next cs it) = tl (after cs it)" by auto
qed

lemma it_prev_cursor:
  assumes "crv_ok mx cs" "valid_it cs it" "it \<noteq> crv_begin cs"
  shows "valid_it cs (it_prev cs it)"
    and "before cs (it_prev cs it) = butlast (before cs it)"
    and "after cs (it_prev cs it) = last (before cs it) # after cs it"
proof -
  let ?k = "fst it" let ?i = "snd it"
  have "valid_it cs (it_prev cs it) \<and> before cs (it_prev cs it) = butlast (before cs it) \<and>
      after cs (it_prev cs it) = last (before cs it) # after cs it"
  proof (cases "it = crv_end cs \<or> ?i = 0")
    case True
    then have i0: "?i = 0" and k: "?k \<le> length cs" and k0: "?k \<noteq> 0"
      using assms by (cases it; auto simp: crv_end_def valid_it_def crv_begin_def split: if_splits)+
    then obtain m where it: "it = (Suc m, 0)" and m: "m < length cs"
      by (metis Suc_le_lessD not0_implies_Suc prod.collapse)
    have ne: "cdata (cs ! m) \<noteq> []"
      using crv_ok_nth [OF assms(1) m] by (simp add: chunk_ok_def)
    let ?l = "length (cdata (cs ! m)) - 1"
    have prv: "it_prev cs it = (m, ?l)" using True it by (simp add: it_prev_def)
    have split: "butlast (cdata (cs ! m)) = take ?l (cdata (cs ! m))"
      "drop ?l (cdata (cs ! m)) = [last (cdata (cs ! m))]"
      using ne by (auto simp: butlast_conv_take drop_eq_nth_Cons last_conv_nth)
    have bef: "before cs it = flat (take m cs) @ cdata (cs ! m)"
    proof -
      have "before cs it = flat (take (Suc m) cs)"
        by (simp add: before_def it)
      then show ?thesis by (simp add: take_Suc_nth [OF m])
    qed
    have aft: "after cs it = flat (drop (Suc m) cs)"
      using m by (cases "Suc m < length cs") (auto simp: it after_def drop_eq_nth_Cons)
    have "valid_it cs (m, ?l)" using m ne by (simp add: valid_it_def)
    moreover have "before cs (m, ?l) = flat (take m cs) @ butlast (cdata (cs ! m))"
      using m split by (simp add: before_def)
    moreover have "after cs (m, ?l) = last (cdata (cs ! m)) # flat (drop (Suc m) cs)"
      using m split by (simp add: after_def)
    ultimately show ?thesis
      using ne by (simp add: prv bef aft butlast_append)
  next
    case False
    then obtain m where m: "?i = Suc m" by (cases "?i") auto
    have k: "?k < length cs" and i: "?i < length (cdata (cs ! ?k))"
      using valid_itD assms False by auto
    have prv: "it_prev cs it = (?k, m)" using False m by (simp add: it_prev_def)
    show ?thesis
      using k i m by (simp add: prv valid_it_def before_def after_def take_Suc_nth drop_eq_nth_Cons
          butlast_append)
  qed
  then show "valid_it cs (it_prev cs it)"
    and "before cs (it_prev cs it) = butlast (before cs it)"
    and "after cs (it_prev cs it) = last (before cs it) # after cs it" by auto
qed

section \<open>Replacing the range under an iterator\<close>

lemma cursor_replace:
  assumes "valid_it cs it" "it \<noteq> crv_end cs" "cdata c = (cdata (cs ! fst it))[snd it := r]"
  shows "valid_it (cs[fst it := c]) it" "it \<noteq> crv_end (cs[fst it := c])"
    and "before (cs[fst it := c]) it = before cs it"
    and "after (cs[fst it := c]) it = r # tl (after cs it)"
  using assms valid_itD [OF assms(1,2)]
  by (auto simp: valid_it_def crv_end_def before_def after_def drop_eq_nth_Cons)

lemma chunk_ok_replace:
  assumes "chunk_ok mx c" "i < length (cdata c)"
    and "cdata c' = (cdata c)[i := r]" "cbegin c' = (if i = 0 then fst r else cbegin c)"
    and "cend c' = (if Suc i = length (cdata c) then snd r else cend c)"
    and "ccount c' + range_size (cdata c ! i) = ccount c + range_size r"
  shows "chunk_ok mx c'"
  using assms range_total_update [OF assms(2), of r]
  by (auto simp: chunk_ok_def hd_list_update last_list_update)

lemma it_set_cursor:
  assumes "crv_ok mx cs" "valid_it cs it" "it \<noteq> crv_end cs"
  shows "crv_ok mx (it_set cs it a b)" "valid_it (it_set cs it a b) it"
    and "it \<noteq> crv_end (it_set cs it a b)" "before (it_set cs it a b) it = before cs it"
    and "after (it_set cs it a b) it = (a, b) # tl (after cs it)"
proof -
  let ?c = "cs ! fst it" let ?i = "snd it"
  have k: "fst it < length cs" and i: "?i < length (cdata ?c)"
    using valid_itD [OF assms(2,3)] by auto
  have ok: "chunk_ok mx ?c" using crv_ok_nth [OF assms(1) k] .
  then have "range_size (cdata ?c ! ?i) \<le> ccount ?c"
    using range_total_nth [OF i] by (simp add: chunk_ok_def)
  then have "chunk_ok mx (set_in_chunk ?c ?i a b)"
    by (intro chunk_ok_replace [OF ok i, where r = "(a, b)"])
      (auto simp: set_in_chunk_def Let_def range_size_def)
  then show "crv_ok mx (it_set cs it a b)"
    unfolding it_set_def using assms(1) by (rule crv_ok_update [rotated])
  have "cdata (set_in_chunk ?c ?i a b) = (cdata ?c)[?i := (a, b)]"
    by (simp add: set_in_chunk_def Let_def)
  note rep = cursor_replace [OF assms(2,3) this, folded it_set_def]
  show "valid_it (it_set cs it a b) it" "it \<noteq> crv_end (it_set cs it a b)"
    "before (it_set cs it a b) it = before cs it"
    "after (it_set cs it a b) it = (a, b) # tl (after cs it)"
    by (fact rep)+
qed

text \<open>
  \<open>adjust\<close> and \<open>shift\<close> are relative: under the bounds that keep the range a range they are
  the same as setting it.
\<close>

lemma adjust_eq_set_in_chunk:
  assumes "chunk_ok mx c" "i < length (cdata c)" "cdata c ! i = (a, b)" "a \<le> b"
    and "0 \<le> int a + front" "int a + front \<le> int b + back"
  shows "adjust_in_chunk c i front back = set_in_chunk c i (sz a front) (sz b back)"
proof -
  have "b - a \<le> ccount c"
    using range_total_nth [OF assms(2)] assms(1,3) by (simp add: chunk_ok_def range_size_def)
  then have cnt: "sz (ccount c) (- front + back) = ccount c - (b - a) + (sz b back - sz a front)"
    using assms(4-) by (simp add: sz_def)
  have beg: "i = 0 \<Longrightarrow> cbegin c = a"
    using assms(1-3) by (simp add: chunk_ok_def hd_conv_nth)
  have lst: "cend c = b" if "Suc i = length (cdata c)"
  proof -
    have "last (cdata c) = cdata c ! i"
      using that by (metis diff_Suc_1 last_conv_nth list.size(3) nat.distinct(1))
    then show ?thesis using assms(1,3) by (simp add: chunk_ok_def)
  qed
  show ?thesis
    by (rule chunk.equality)
      (use assms(3) beg lst cnt in \<open>simp_all add: adjust_in_chunk_def set_in_chunk_def Let_def\<close>)
qed

lemma it_adjust_eq_set:
  assumes "crv_ok mx cs" "valid_it cs it" "it \<noteq> crv_end cs" "deref cs it = (a, b)" "a \<le> b"
    and "0 \<le> int a + front" "int a + front \<le> int b + back"
  shows "it_adjust cs it front back = it_set cs it (sz a front) (sz b back)"
  using assms valid_itD [OF assms(2,3)]
    adjust_eq_set_in_chunk [OF crv_ok_nth [OF assms(1)], of "fst it" "snd it" a b front "back"]
  by (simp add: it_adjust_def it_set_def deref_def)

lemma it_shift_eq_set:
  assumes "crv_ok mx cs" "valid_it cs it" "it \<noteq> crv_end cs" "deref cs it = (a, b)" "a \<le> b"
    and "0 \<le> int a + d"
  shows "it_shift cs it d = it_set cs it (sz a d) (sz b d)"
proof -
  have "shift_in_chunk c i d = adjust_in_chunk c i d d" for c i
    by (rule chunk.equality) (simp_all add: shift_in_chunk_def adjust_in_chunk_def Let_def sz_def)
  then have "it_shift cs it d = it_adjust cs it d d"
    by (simp add: it_shift_def it_adjust_def)
  also have "\<dots> = it_set cs it (sz a d) (sz b d)"
    using assms by (intro it_adjust_eq_set) auto
  finally show ?thesis .
qed

section \<open>Inserting and erasing\<close>

lemma chunk_ok_insert:
  assumes "chunk_ok mx c" "length (cdata c) < mx" "i \<le> length (cdata c)"
    and "ranges_ok (take i (cdata c) @ v # drop i (cdata c))"
  shows "chunk_ok mx (insert_in_chunk c i v)"
proof -
  let ?p = "take i (cdata c)" let ?q = "drop i (cdata c)"
  have pq: "cdata c = ?p @ ?q" by simp
  have v: "fst v < snd v" "\<forall>r \<in> set ?p. fst r < snd r \<and> snd r < fst v"
    "\<forall>r \<in> set ?q. snd v < fst r \<and> fst r < snd r"
    using assms(4) by (auto dest: ranges_okD)
  have ne: "cdata c \<noteq> []" using assms(1) by (simp add: chunk_ok_def)
  have "min (fst (hd (cdata c))) (fst v) = fst (hd (?p @ v # ?q))"
  proof (cases "?p = []")
    case True
    then have "hd (cdata c) \<in> set ?q" using pq ne by (metis append_Nil hd_in_set)
    with v have "fst v < fst (hd (cdata c))" by fastforce
    then show ?thesis unfolding True by simp
  next
    case False
    then have "hd (cdata c) \<in> set ?p" and hd: "hd (?p @ v # ?q) = hd (cdata c)"
      using pq by (metis hd_append2 hd_in_set)+
    with v have "fst (hd (cdata c)) < fst v" by fastforce
    then show ?thesis unfolding hd by simp
  qed
  moreover have "max (snd (last (cdata c))) (snd v) = snd (last (?p @ v # ?q))"
  proof (cases "?q = []")
    case True
    then have "last (cdata c) \<in> set ?p" using ne by simp
    with v have "snd (last (cdata c)) < snd v" by fastforce
    with True show ?thesis by simp
  next
    case False
    then have "last (cdata c) \<in> set ?q" and lst: "last (?p @ v # ?q) = last (cdata c)"
      using pq by (metis last_appendR last_in_set) (use False pq in \<open>metis last.simps last_appendR list.distinct(1)\<close>)
    with v have "snd v < snd (last (cdata c))" by fastforce
    then show ?thesis unfolding lst by simp
  qed
  moreover have "range_total (?p @ v # ?q) = range_total (cdata c) + (snd v - fst v)"
    by (subst (2) pq, simp only: range_total_simps) (simp add: range_size_def)
  ultimately show ?thesis
    using assms(1,2) by (simp add: chunk_ok_def insert_in_chunk_def)
qed

lemma ensure_space_cursor:
  assumes "crv_ok mx cs" "valid_it cs it" "it \<noteq> crv_end cs" "even mx" "2 \<le> mx"
    and "ensure_space mx cs it = (cs', it')"
  shows "crv_ok mx cs'" "fst it' < length cs'" "snd it' < length (cdata (cs' ! fst it'))"
    and "length (cdata (cs' ! fst it')) < mx"
    and "before cs' it' = before cs it" "after cs' it' = after cs it"
proof -
  let ?k = "fst it" let ?i = "snd it" let ?c = "cs ! ?k" let ?h = "mx div 2"
  have k: "?k < length cs" and i: "?i < length (cdata ?c)"
    using valid_itD [OF assms(2,3)] by auto
  have ok: "chunk_ok mx ?c" using crv_ok_nth [OF assms(1) k] .
  have "crv_ok mx cs' \<and> fst it' < length cs' \<and> snd it' < length (cdata (cs' ! fst it')) \<and>
     length (cdata (cs' ! fst it')) < mx \<and> before cs' it' = before cs it \<and> after cs' it' = after cs it"
  proof (cases "length (cdata ?c) + 1 \<le> mx")
    case True
    then show ?thesis using assms k i by (simp add: ensure_space_def)
  next
    case False
    then have len: "length (cdata ?c) = ?h + ?h" and h: "0 < ?h"
      using ok assms(4,5) by (auto simp: chunk_ok_def elim!: evenE)
    let ?u = "take ?h (cdata ?c)" let ?v = "drop ?h (cdata ?c)"
    let ?p = "?c\<lparr>cdata := ?u, cend := snd (last ?u), ccount := ccount ?c - range_total ?v\<rparr>"
    let ?q = "\<lparr>cdata = ?v, cbegin = fst (hd ?v), cend = snd (last ?v), ccount = range_total ?v\<rparr>"
    let ?A = "take ?k cs" let ?B = "drop (Suc ?k) cs"
    have uv: "cdata ?c = ?u @ ?v" by simp
    have tot: "range_total (cdata ?c) - range_total ?v = range_total ?u"
      by (subst (1) uv, subst range_total_simps(3)) simp
    have hu: "hd ?u = hd (cdata ?c)" using h uv len by (metis hd_take)
    have p: "chunk_ok mx ?p" and q: "chunk_ok mx ?q"
      using ok h len tot hu by (auto simp: chunk_ok_def)
    have cs': "cs' = ?A @ [?p, ?q] @ ?B"
      and it': "it' = (if ?h \<le> ?i then (Suc ?k, ?i - ?h) else it)"
      using assms(6) False len
      by (auto simp: ensure_space_def Let_def range_total_sum split: if_splits)
    have "crv_ok mx cs'"
      using p q crv_ok_take_drop [OF assms(1)] by (simp add: cs')
    moreover have "cs' ! ?k = ?p" "cs' ! Suc ?k = ?q" "take ?k cs' = ?A" "take (Suc ?k) cs' = ?A @ [?p]"
      "drop (Suc ?k) cs' = ?q # ?B" "drop (Suc (Suc ?k)) cs' = ?B" "Suc ?k < length cs'"
      using k by (auto simp: cs' nth_append take_Suc_nth min_def)
    moreover have "drop ?i ?u @ ?v = drop ?i (cdata ?c)" if "?i < ?h"
    proof -
      have "drop ?i (?u @ ?v) = drop ?i ?u @ drop (?i - length ?u) ?v" by (rule drop_append)
      then show ?thesis using that len by simp
    qed
    moreover have "?u @ take (?i - ?h) ?v = take ?i (cdata ?c)" if "?h \<le> ?i"
      using that by (metis le_add_diff_inverse take_add)
    ultimately show ?thesis
      using k i len h by (auto simp: it' before_def after_def)
  qed
  then show "crv_ok mx cs'" "fst it' < length cs'" "snd it' < length (cdata (cs' ! fst it'))"
    "length (cdata (cs' ! fst it')) < mx"
    "before cs' it' = before cs it" "after cs' it' = after cs it" by auto
qed

lemma push_back_cursor:
  assumes "crv_ok mx cs" "0 < mx" "ranges_ok (flat cs @ [v])"
  shows "\<exists>cs'. push_back mx cs v = Some cs' \<and> crv_ok mx cs' \<and> flat cs' = flat cs @ [v]"
proof (cases "cs \<noteq> [] \<and> length (cdata (last cs)) < mx")
  case True
  let ?c = "last cs"
  have split: "cs = butlast cs @ [?c]" using True by simp
  then have bl: "crv_ok mx (butlast cs)" and ok: "chunk_ok mx ?c" and fl: "flat cs = flat (butlast cs) @ cdata ?c"
    using assms(1) by (metis crv_ok_simps(2,3), metis crv_ok_simps(2,3), metis append_Nil2 flat_simps)
  have ne: "cdata ?c \<noteq> []" and ce: "cend ?c = snd (last (cdata ?c))"
    using ok by (auto simp: chunk_ok_def)
  have "last (cdata ?c) \<in> set (flat cs)" unfolding fl using ne by simp
  then have "cend ?c \<le> fst v" using assms(3) ce by fastforce
  then show ?thesis
    using True bl ok ne by (simp add: push_back_def crv_empty_def fl chunk_ok_def range_size_def)
next
  case False
  have v: "chunk_ok mx \<lparr>cdata = [v], cbegin = fst v, cend = snd v, ccount = snd v - fst v\<rparr>"
    using assms(2) by (simp add: chunk_ok_def range_size_def)
  show ?thesis
    using False v assms(1) by (auto simp: push_back_def crv_empty_def)
qed

lemma crv_insert_cursor:
  assumes "crv_ok mx cs" "valid_it cs it" "even mx" "2 \<le> mx"
    and ok: "ranges_ok (before cs it @ v # after cs it)"
  shows "\<exists>cs' it'. crv_insert mx cs it v = Some (cs', it') \<and> crv_ok mx cs' \<and> valid_it cs' it' \<and>
    before cs' it' = before cs it \<and> after cs' it' = v # after cs it"
proof (cases "it = crv_end cs")
  case True
  then have fl: "before cs it = flat cs" "after cs it = []" by simp_all
  obtain cs' where cs': "push_back mx cs v = Some cs'" "crv_ok mx cs'" "flat cs' = flat cs @ [v]"
    using push_back_cursor [of mx cs v] assms fl by auto
  then have "crv_end cs' \<noteq> crv_begin cs'"
    using flat_eq_Nil [OF cs'(2)] by (auto simp: crv_begin_def crv_end_def)
  note prv = it_prev_cursor [OF cs'(2) crv_end_simps(1) this, unfolded crv_end_simps cs'(3)]
  have "fst it = length cs" using True by (simp add: crv_end_def)
  then show ?thesis
    using cs' prv fl by (simp add: crv_insert_def)
next
  case False
  obtain ds jt where es: "ensure_space mx cs it = (ds, jt)" by (rule prod.exhaust)
  note sp = ensure_space_cursor [OF assms(1,2) False assms(3,4) es]
  let ?c = "ds ! fst jt" let ?j = "snd jt"
  have neq: "fst it \<noteq> length cs" using valid_itD [OF assms(2) False] by simp
  let ?es = "ds[fst jt := insert_in_chunk ?c ?j v]"
  have "ranges_ok (take ?j (cdata ?c) @ v # drop ?j (cdata ?c))"
  proof -
    have "before ds jt = flat (take (fst jt) ds) @ take ?j (cdata ?c)"
      "after ds jt = drop ?j (cdata ?c) @ flat (drop (Suc (fst jt)) ds)"
      using sp(2) by (simp_all add: before_def after_def)
    moreover have "ranges_ok (before ds jt @ v # after ds jt)" using ok sp(5,6) by simp
    ultimately show ?thesis by auto
  qed
  then have "chunk_ok mx (insert_in_chunk ?c ?j v)"
    using sp crv_ok_nth by (intro chunk_ok_insert) auto
  then have "crv_ok mx ?es" using sp(1) by (intro crv_ok_update)
  moreover have "valid_it ?es jt" "before ?es jt = before ds jt" "after ?es jt = v # after ds jt"
    using sp(2,3) by (auto simp: valid_it_def before_def after_def insert_in_chunk_def)
  ultimately show ?thesis
    using neq es sp(5,6) by (simp add: crv_insert_def)
qed

lemma crv_erase_cursor:
  assumes "crv_ok mx cs" "valid_it cs it" "it \<noteq> crv_end cs" "crv_erase cs it = (cs', it')"
  shows "crv_ok mx cs'" "valid_it cs' it'" "before cs' it' = before cs it"
    and "after cs' it' = tl (after cs it)"
proof -
  let ?k = "fst it" let ?i = "snd it" let ?c = "cs ! ?k"
  let ?d = "take ?i (cdata ?c) @ drop (Suc ?i) (cdata ?c)"
  have k: "?k < length cs" and i: "?i < length (cdata ?c)"
    using valid_itD [OF assms(2,3)] by auto
  have ok: "chunk_ok mx ?c" using crv_ok_nth [OF assms(1) k] .
  have "crv_ok mx cs' \<and> valid_it cs' it' \<and> before cs' it' = before cs it \<and> after cs' it' = tl (after cs it)"
  proof (cases "?d = []")
    case True
    then have i0: "?i = 0" and len: "tl (cdata ?c) = []" using i by (cases "cdata ?c"; auto)+
    have it': "it' = (?k, 0)" and cs': "cs' = take ?k cs @ drop (Suc ?k) cs"
      using assms(4) True by (auto simp: crv_erase_def Let_def)
    have "crv_ok mx cs'" using crv_ok_take_drop [OF assms(1)] by (simp add: cs')
    moreover have "valid_it cs' it'"
    proof (cases "Suc ?k < length cs")
      case more: True
      then have "cdata (cs ! Suc ?k) \<noteq> []"
        using crv_ok_nth [OF assms(1) more] by (simp add: chunk_ok_def)
      then show ?thesis using more k by (auto simp: cs' it' valid_it_def nth_append less_diff_conv)
    qed (use k in \<open>auto simp: cs' it' valid_it_def crv_end_def\<close>)
    moreover have "before cs' it' = before cs it"
      using k i0 by (simp add: cs' it' before_def)
    moreover have "after cs' it' = tl (after cs it)"
      using k i i0 len by (cases "Suc ?k < length cs")
        (auto simp: cs' it' after_def nth_append drop_eq_nth_Cons)
    ultimately show ?thesis by blast
  next
    case False
    let ?e = "?c\<lparr>ccount := ccount ?c - (snd (cdata ?c ! ?i) - fst (cdata ?c ! ?i)), cdata := ?d,
      cbegin := fst (hd ?d), cend := snd (last ?d)\<rparr>"
    have it': "it' = (if ?i < length ?d then it else (Suc ?k, 0))" and cs': "cs' = cs[?k := ?e]"
      using assms(4) False by (auto simp: crv_erase_def Let_def)
    define e where "e = ?e"
    have de: "cdata e = ?d" by (simp add: e_def)
    have cse: "cs' = cs[?k := e]" unfolding cs' e_def ..
    have "range_total (cdata ?c) = range_total ?d + range_size (cdata ?c ! ?i)"
      by (subst id_take_nth_drop [OF i]) simp
    then have "chunk_ok mx e"
      using ok False i by (auto simp: e_def chunk_ok_def range_size_def)
    then have "crv_ok mx cs'" using assms(1) by (simp add: cs' crv_ok_update e_def)
    moreover have "valid_it cs' it' \<and> before cs' it' = before cs it \<and> after cs' it' = tl (after cs it)"
    proof (cases "?i < length ?d")
      case True
      then have "it' = it" by (simp only: it' if_True)
      with True show ?thesis
        using k i by (simp add: cse de valid_it_def before_def after_def drop_eq_nth_Cons [OF i])
    next
      case False
      then have lst: "length (cdata ?c) = Suc ?i" and d: "?d = take ?i (cdata ?c)"
        and nxt: "it' = (Suc ?k, 0)"
        using i by (simp_all add: it')
      have bef: "flat (take (Suc ?k) (cs[?k := e])) = flat (take ?k cs) @ take ?i (cdata ?c)"
        using k by (subst take_Suc_nth) (simp_all add: de d)
      show ?thesis
      proof (cases "Suc ?k < length cs")
        case more: True
        then have "cdata (cs ! Suc ?k) \<noteq> []"
          using crv_ok_nth [OF assms(1) more] by (simp add: chunk_ok_def)
        then show ?thesis
          using more k i lst bef
          by (simp add: nxt cse valid_it_def before_def after_def drop_eq_nth_Cons)
      next
        case no: False
        then have "Suc ?k = length cs" using k by simp
        then show ?thesis
          using k i lst bef
          by (simp add: nxt cse valid_it_def crv_end_def before_def after_def drop_eq_nth_Cons [OF i])
      qed
    qed
    ultimately show ?thesis by blast
  qed
  then show "crv_ok mx cs'" "valid_it cs' it'" "before cs' it' = before cs it"
    "after cs' it' = tl (after cs it)" by auto
qed

section \<open>The cursor interface\<close>

text \<open>
  \<open>cur s it L R\<close>: in a well-formed vector \<open>s\<close> the iterator \<open>it\<close> stands between the ranges
  \<open>L\<close> and \<open>R\<close>. Everything \<open>IndexSet\<close> does with positions follows from these laws; the
  derived lemmas are the steps its operations take.
\<close>

locale range_cursor =
  fixes cur :: "'s \<Rightarrow> 'i \<Rightarrow> range list \<Rightarrow> range list \<Rightarrow> bool"
    and first_it last_it :: "'s \<Rightarrow> 'i"
    and next_it prev_it :: "'s \<Rightarrow> 'i \<Rightarrow> 'i"
    and get_rng :: "'s \<Rightarrow> 'i \<Rightarrow> range"
    and set_rng :: "'s \<Rightarrow> 'i \<Rightarrow> nat \<Rightarrow> nat \<Rightarrow> 's"
    and adjust_rng :: "'s \<Rightarrow> 'i \<Rightarrow> int \<Rightarrow> int \<Rightarrow> 's"
    and shift_rng :: "'s \<Rightarrow> 'i \<Rightarrow> int \<Rightarrow> 's"
    and insert_rng :: "'s \<Rightarrow> 'i \<Rightarrow> range \<Rightarrow> ('s \<times> 'i) option"
    and erase_rng :: "'s \<Rightarrow> 'i \<Rightarrow> 's \<times> 'i"
  assumes at_last: "cur s it L R \<Longrightarrow> it = last_it s \<longleftrightarrow> R = []"
    and at_first: "cur s it L R \<Longrightarrow> it = first_it s \<longleftrightarrow> L = []"
    and cur_get: "cur s it L (r # R) \<Longrightarrow> get_rng s it = r"
    and cur_next: "cur s it L (r # R) \<Longrightarrow> cur s (next_it s it) (L @ [r]) R"
    and cur_prev: "cur s it (L @ [r]) R \<Longrightarrow> cur s (prev_it s it) L (r # R)"
    and next_prev: "cur s it (L @ [r]) R \<Longrightarrow> next_it s (prev_it s it) = it"
    and cur_set: "cur s it L (r # R) \<Longrightarrow> cur (set_rng s it a b) it L ((a, b) # R)"
    and next_set: "cur s it L (r # R) \<Longrightarrow> next_it (set_rng s it a b) jt = next_it s jt"
    and prev_set: "cur s it L (r # R) \<Longrightarrow> prev_it (set_rng s it a b) jt = prev_it s jt"
    and cur_set_later: "cur s it L (A @ r # R) \<Longrightarrow> cur s jt (L @ A) (r # R) \<Longrightarrow>
          cur (set_rng s jt a b) it L (A @ (a, b) # R)"
    and adjust_eq: "cur s it L ((a, b) # R) \<Longrightarrow> a \<le> b \<Longrightarrow> 0 \<le> int a + f \<Longrightarrow>
          int a + f \<le> int b + k \<Longrightarrow> adjust_rng s it f k = set_rng s it (sz a f) (sz b k)"
    and shift_eq: "cur s it L ((a, b) # R) \<Longrightarrow> a \<le> b \<Longrightarrow> 0 \<le> int a + d \<Longrightarrow>
          shift_rng s it d = set_rng s it (sz a d) (sz b d)"
    and cur_insert: "cur s it L R \<Longrightarrow> ranges_ok (L @ v # R) \<Longrightarrow>
          \<exists>s' it'. insert_rng s it v = Some (s', it') \<and> cur s' it' L (v # R)"
    and cur_erase: "cur s it L (r # R) \<Longrightarrow> erase_rng s it = (s', it') \<Longrightarrow> cur s' it' L R"
begin

lemma cur_adjust:
  "cur s it L ((a, b) # R) \<Longrightarrow> a \<le> b \<Longrightarrow> 0 \<le> int a + f \<Longrightarrow> int a + f \<le> int b + k \<Longrightarrow>
     cur (adjust_rng s it f k) it L ((sz a f, sz b k) # R)"
  by (simp add: adjust_eq cur_set)

lemma cur_shift:
  "cur s it L ((a, b) # R) \<Longrightarrow> a \<le> b \<Longrightarrow> 0 \<le> int a + d \<Longrightarrow>
     cur (shift_rng s it d) it L ((sz a d, sz b d) # R)"
  by (simp add: shift_eq cur_set)

lemma prev_adjust:
  "cur s it L ((a, b) # R) \<Longrightarrow> a \<le> b \<Longrightarrow> 0 \<le> int a + f \<Longrightarrow> int a + f \<le> int b + k \<Longrightarrow>
     prev_it (adjust_rng s it f k) jt = prev_it s jt"
  by (simp add: adjust_eq prev_set)

lemma next_adjust:
  "cur s it L ((a, b) # R) \<Longrightarrow> a \<le> b \<Longrightarrow> 0 \<le> int a + f \<Longrightarrow> int a + f \<le> int b + k \<Longrightarrow>
     next_it (adjust_rng s it f k) jt = next_it s jt"
  by (simp add: adjust_eq next_set)

text \<open>Changing the range before an iterator leaves the iterator where it was.\<close>

lemma cur_set_prev:
  assumes "cur s it (L @ [r]) R"
  shows "cur (set_rng s (prev_it s it) a b) it (L @ [(a, b)]) R"
proof -
  note prv = cur_prev [OF assms]
  have "cur (set_rng s (prev_it s it) a b) (next_it (set_rng s (prev_it s it) a b) (prev_it s it))
      (L @ [(a, b)]) R"
    by (rule cur_next [OF cur_set [OF prv]])
  then show ?thesis
    by (simp add: next_set [OF prv] next_prev [OF assms])
qed

lemma cur_adjust_prev:
  assumes "cur s it (L @ [(a, b)]) R" "a \<le> b" "0 \<le> int a + f" "int a + f \<le> int b + k"
  shows "cur (adjust_rng s (prev_it s it) f k) it (L @ [(sz a f, sz b k)]) R"
  using cur_set_prev [OF assms(1)] adjust_eq [OF cur_prev [OF assms(1)] assms(2-4)] by simp

lemma get_prev: "cur s it (L @ [r]) R \<Longrightarrow> get_rng s (prev_it s it) = r"
  by (rule cur_get [OF cur_prev])

lemma insert_then_prev:
  assumes "cur s it (L @ [r]) R" "ranges_ok (L @ [r] @ v # R)"
  shows "\<exists>s' it'. insert_rng s it v = Some (s', it') \<and> cur s' (prev_it s' it') L (r # v # R)"
proof -
  obtain s' it' where "insert_rng s it v = Some (s', it')" and i: "cur s' it' (L @ [r]) (v # R)"
    using cur_insert [OF assms(1), of v] assms(2) by auto
  with cur_prev [OF i] show ?thesis by blast
qed

end

definition cur :: "nat \<Rightarrow> chunks \<Rightarrow> iter \<Rightarrow> range list \<Rightarrow> range list \<Rightarrow> bool" where
  "cur mx cs it L R \<longleftrightarrow> even mx \<and> 2 \<le> mx \<and> crv_ok mx cs \<and> valid_it cs it \<and>
     before cs it = L \<and> after cs it = R"

lemma cur_not_end: "cur mx cs it L (r # R) \<Longrightarrow> it \<noteq> crv_end cs"
  by (auto simp: cur_def)

lemma cur_not_begin: "cur mx cs it (L @ [r]) R \<Longrightarrow> it \<noteq> crv_begin cs"
  by (auto simp: cur_def)

lemma cur_flat: "cur mx cs it L R \<Longrightarrow> flat cs = L @ R \<and> crv_ok mx cs"
  by (auto simp: cur_def before_after)

lemma cur_crv_begin: "even mx \<Longrightarrow> 2 \<le> mx \<Longrightarrow> crv_ok mx cs \<Longrightarrow> cur mx cs (crv_begin cs) [] (flat cs)"
  by (simp add: cur_def valid_begin)

lemma cur_crv_end: "even mx \<Longrightarrow> 2 \<le> mx \<Longrightarrow> crv_ok mx cs \<Longrightarrow> cur mx cs (crv_end cs) (flat cs) []"
  by (simp add: cur_def)

lemma it_next_prev:
  assumes "crv_ok mx cs" "valid_it cs it" "it \<noteq> crv_begin cs"
  shows "it_next cs (it_prev cs it) = it"
proof (cases "snd it")
  case 0
  with assms obtain m where it: "it = (Suc m, 0)" and "m < length cs"
    by (cases it; cases "fst it") (auto simp: crv_begin_def crv_end_def valid_it_def split: if_splits)
  then have "cdata (cs ! m) \<noteq> []" using crv_ok_nth [OF assms(1)] by (simp add: chunk_ok_def)
  then show ?thesis by (simp add: it it_next_def it_prev_def next_chunk_def Let_def)
next
  case (Suc m)
  then show ?thesis
    using assms(2) by (cases it) (auto simp: it_next_def it_prev_def crv_end_def valid_it_def)
qed

lemma it_next_set:
  assumes "valid_it cs it" "it \<noteq> crv_end cs"
  shows "it_next (it_set cs it a b) jt = it_next cs jt"
  using valid_itD [OF assms]
  by (simp add: it_next_def it_set_def set_in_chunk_def Let_def nth_list_update)

lemma it_prev_set:
  assumes "valid_it cs it" "it \<noteq> crv_end cs"
  shows "it_prev (it_set cs it a b) jt = it_prev cs jt"
  using valid_itD [OF assms]
  by (simp add: it_prev_def it_set_def set_in_chunk_def crv_end_def Let_def nth_list_update)

text \<open>
  Setting a range keeps every iterator: its position depends on the lengths of the chunks only.
\<close>

lemma map_length_set: "map (\<lambda>c. length (cdata c)) (it_set cs jt a b) = map (\<lambda>c. length (cdata c)) cs"
proof (cases "fst jt < length cs")
  case True
  then show ?thesis
    by (auto simp: it_set_def set_in_chunk_def Let_def map_update intro: list_update_same_conv [THEN iffD2])
qed (simp add: it_set_def list_update_beyond)

lemma length_before:
  "length (before cs it) = sum_list (take (fst it) (map (\<lambda>c. length (cdata c)) cs)) +
     (if fst it < length cs then min (snd it) (map (\<lambda>c. length (cdata c)) cs ! fst it) else 0)"
  by (simp add: before_def flat_def length_concat take_map comp_def min.commute)

lemma before_take: "valid_it cs it \<Longrightarrow> before cs it = take (length (before cs it)) (flat cs)"
  by (metis append_eq_conv_conj before_after)

lemma after_drop: "valid_it cs it \<Longrightarrow> after cs it = drop (length (before cs it)) (flat cs)"
  by (metis append_eq_conv_conj before_after)

lemma it_set_later:
  assumes "cur mx cs it L (A @ r # R)" "cur mx cs jt (L @ A) (r # R)"
  shows "cur mx (it_set cs jt a b) it L (A @ (a, b) # R)"
proof -
  let ?cs = "it_set cs jt a b"
  have lens: "length ?cs = length cs" by (simp add: it_set_def)
  have jt: "valid_it cs jt" "jt \<noteq> crv_end cs" "crv_ok mx cs" "valid_it cs it"
    using assms cur_not_end [OF assms(2)] by (auto simp: cur_def)
  note st = it_set_cursor [OF jt(3,1,2), of a b]
  have fl: "flat ?cs = L @ A @ (a, b) # R"
    using before_after [OF st(2)] st(4,5) assms(2) by (auto simp: cur_def)
  have v: "valid_it ?cs it"
  proof (cases "it = crv_end cs")
    case False
    then have "fst it < length cs" "snd it < map (\<lambda>c. length (cdata c)) cs ! fst it"
      using valid_itD [OF jt(4)] by auto
    then have "snd it < map (\<lambda>c. length (cdata c)) ?cs ! fst it" "fst it < length ?cs"
      by (simp_all only: map_length_set lens)
    then show ?thesis by (simp add: valid_it_def)
  qed (simp add: valid_it_def crv_end_def lens)
  have "length (before ?cs it) = length (before cs it)"
    by (simp only: length_before map_length_set lens)
  also have "\<dots> = length L" using assms(1) by (simp add: cur_def)
  finally have len: "length (before ?cs it) = length L" .
  have "before ?cs it = L" "after ?cs it = A @ (a, b) # R"
    by (subst before_take [OF v], simp add: len fl) (subst after_drop [OF v], simp add: len fl)
  then show ?thesis
    using assms(1) st(1) v by (simp add: cur_def)
qed

interpretation crv: range_cursor "cur mx" crv_begin crv_end it_next it_prev deref it_set it_adjust
    it_shift "crv_insert mx" crv_erase
proof (unfold_locales, goal_cases)
  case (3 s it L r R)
  then show ?case using deref_hd by (auto simp: cur_def)
next
  case (4 s it L r R)
  then show ?case
    using it_next_cursor [of mx s it] cur_not_end [OF 4] deref_hd by (auto simp: cur_def)
next
  case (5 s it L r R)
  then show ?case
    using it_prev_cursor [of mx s it] cur_not_begin [OF 5] by (auto simp: cur_def)
next
  case (6 s it L r R)
  then show ?case
    using it_next_prev [of mx s it] cur_not_begin [OF 6] by (auto simp: cur_def)
next
  case (7 s it L r R a b)
  then show ?case
    using it_set_cursor [of mx s it] cur_not_end [OF 7] by (auto simp: cur_def)
next
  case (8 s it L r R a b jt)
  then show ?case
    using it_next_set cur_not_end [OF 8] by (auto simp: cur_def)
next
  case (9 s it L r R a b jt)
  then show ?case
    using it_prev_set cur_not_end [OF 9] by (auto simp: cur_def)
next
  case (10 s it L A r R jt a b)
  then show ?case by (rule it_set_later)
next
  case (11 s it L a b R f k)
  then show ?case
    using it_adjust_eq_set [of mx s it a b] cur_not_end [OF 11(1)] deref_hd by (auto simp: cur_def)
next
  case (12 s it L a b R d)
  then show ?case
    using it_shift_eq_set [of mx s it a b] cur_not_end [OF 12(1)] deref_hd by (auto simp: cur_def)
next
  case (13 s it L R v)
  then show ?case
    using crv_insert_cursor [of mx s it v] by (auto simp: cur_def)
next
  case (14 s it L r R s' it')
  then show ?case
    using crv_erase_cursor [of mx s it] cur_not_end [OF 14(1)] by (auto simp: cur_def)
qed (auto simp: cur_def after_eq_Nil before_eq_Nil)

section \<open>What \<open>verify()\<close> checks\<close>

lemma verify_ranges_Some: "verify_ranges (Some e) rs \<longleftrightarrow> ranges_ok rs \<and> (\<forall>r \<in> set rs. e < fst r)"
proof (induction rs arbitrary: e)
  case (Cons r rs)
  then show ?case by (cases rs) auto
qed simp

lemma verify_ranges_None: "verify_ranges None rs \<longleftrightarrow> ranges_ok rs"
  by (cases rs) (auto simp: verify_ranges_Some)

lemma range_total_le: "ranges_ok rs \<Longrightarrow> rs \<noteq> [] \<Longrightarrow> range_total rs \<le> snd (last rs) - fst (hd rs)"
proof (induction rs)
  case (Cons r rs)
  then show ?case
    by (cases rs) (auto simp: range_size_def)
qed simp

text \<open>The invariant of the development is \<open>verify()\<close> together with the bound on a chunk.\<close>

lemma verify_iff:
  assumes "\<forall>c \<in> set cs. length (cdata c) \<le> mx"
  shows "verify cs \<longleftrightarrow> crv_ok mx cs \<and> ranges_ok (flat cs)"
proof -
  have "ranges_ok (cdata c)" if "ranges_ok (flat cs)" "c \<in> set cs" for c
    using that by (metis flat_simps(2,3) ranges_ok_append split_list)
  then show ?thesis
    using assms range_total_le
    by (auto simp: verify_def verify_ranges_None verify_chunk_def crv_ok_def chunk_ok_def range_total_sum)
qed

end
