(* ===== verification/IndexSet.thy ===== *)
theory IndexSet
  imports RangeVector
begin

text \<open>
  \<open>IndexSet\<close> (\<open>include/index_set.hpp\<close>, \<open>ObjectStore/src/index_set.cpp\<close>): a set of indices
  over the chunked range vector, with the operations that shift the indices it holds when rows
  are inserted into or erased from a collection. The state is the list of chunks; operations
  that change it return it, those that can fail an assertion in the option monad. The set an
  index set stands for is \<open>elems\<close>; \<open>is_ok\<close> is the invariant. Every operation is characterised by
  its effect on \<open>elems\<close>.
\<close>

section \<open>Lookup\<close>

definition find_from :: "chunks \<Rightarrow> nat \<Rightarrow> iter \<Rightarrow> iter" where
  "find_from cs index begin =
     (let k = fst begin + length (takeWhile (\<lambda>c. \<not> index < cend c) (drop (fst begin) cs)) in
      if k = length cs then crv_end cs
      else if index < cbegin (cs ! k) then (k, 0)
      else
        let inner_begin = (if k = fst begin then snd begin else 0)
        in (k, inner_begin +
               length (takeWhile (\<lambda>r. snd r \<le> index) (drop inner_begin (cdata (cs ! k))))))"

definition find_it :: "chunks \<Rightarrow> nat \<Rightarrow> iter" where
  "find_it cs index = find_from cs index (crv_begin cs)"

definition contains :: "chunks \<Rightarrow> nat \<Rightarrow> bool" where
  "contains cs index =
     (let it = find_it cs index in it \<noteq> crv_end cs \<and> fst (deref cs it) \<le> index)"

section \<open>Adding indices\<close>

definition do_add :: "nat \<Rightarrow> chunks \<Rightarrow> iter \<Rightarrow> nat \<Rightarrow> (chunks \<times> iter) option" where
  "do_add mx cs it index =
     (let more_before = (it \<noteq> crv_begin cs); valid = (it \<noteq> crv_end cs) in
      do {
        realm_assert (\<not> more_before \<or> snd (deref cs (it_prev cs it)) \<le> index);
        if valid \<and> fst (deref cs it) \<le> index \<and> index < snd (deref cs it) then Some (cs, it)
        else if more_before \<and> snd (deref cs (it_prev cs it)) = index then
          let prev = it_prev cs it; cs1 = it_adjust cs prev 0 1 in
          if valid \<and> snd (deref cs1 prev) = fst (deref cs1 it) then
            let cs2 = it_adjust cs1 prev 0 (int (snd (deref cs1 it)) - int (fst (deref cs1 it)));
                (cs3, it3) = crv_erase cs2 it
            in Some (cs3, it_prev cs3 it3)
          else Some (cs1, prev)
        else if valid \<and> fst (deref cs it) = index + 1 then Some (it_adjust cs it (-1) 0, it)
        else crv_insert mx cs it (index, index + 1)
      })"

definition add :: "nat \<Rightarrow> chunks \<Rightarrow> nat \<Rightarrow> chunks option" where
  "add mx cs index = map_option fst (do_add mx cs (find_it cs index) index)"

text \<open>The indices of a set in the order \<open>IndexIterator\<close> enumerates them.\<close>

definition as_indexes :: "chunks \<Rightarrow> nat list" where
  "as_indexes cs = concat (map (\<lambda>r. [fst r..<snd r]) (flat cs))"

fun add_all_from :: "nat \<Rightarrow> chunks \<Rightarrow> iter \<Rightarrow> nat list \<Rightarrow> chunks option" where
  "add_all_from mx cs it [] = Some cs"
| "add_all_from mx cs it (index # rest) = do {
     (cs', it') \<leftarrow> do_add mx cs (find_from cs index it) index;
     add_all_from mx cs' it' rest
   }"

definition add_all :: "nat \<Rightarrow> chunks \<Rightarrow> chunks \<Rightarrow> chunks option" where
  "add_all mx cs other = add_all_from mx cs (crv_begin cs) (as_indexes other)"

fun of_indices :: "nat \<Rightarrow> chunks \<Rightarrow> nat list \<Rightarrow> chunks option" where
  "of_indices mx cs [] = Some cs"
| "of_indices mx cs (v # values) = do { cs' \<leftarrow> add mx cs v; of_indices mx cs' values }"

definition clear :: "chunks \<Rightarrow> chunks" where
  "clear cs = []"

definition set_len :: "nat \<Rightarrow> chunks \<Rightarrow> nat \<Rightarrow> chunks option" where
  "set_len mx cs len =
     (let cs = clear cs in if len \<noteq> 0 then push_back mx cs (0, len) else Some cs)"

section \<open>Inserting and erasing positions\<close>

text \<open>The loop \<open>for (; it != end; ++it) it.shift(distance)\<close>.\<close>

partial_function (option) shift_to_end :: "chunks \<Rightarrow> iter \<Rightarrow> int \<Rightarrow> chunks option" where
  "shift_to_end cs it distance =
     (if it \<noteq> crv_end cs
      then let cs' = it_shift cs it distance in shift_to_end cs' (it_next cs' it) distance
      else Some cs)"

declare shift_to_end.simps [code]

text \<open>The loop \<open>pos = next(do_add(pos, index + i))\<close>; the first argument counts what is left.\<close>

fun add_run :: "nat \<Rightarrow> nat \<Rightarrow> chunks \<Rightarrow> iter \<Rightarrow> nat \<Rightarrow> chunks option" where
  "add_run mx 0 cs pos index = Some cs"
| "add_run mx (Suc n) cs pos index = do {
     (cs', it) \<leftarrow> do_add mx cs pos index;
     add_run mx n cs' (it_next cs' it) (index + 1)
   }"

definition insert_at :: "nat \<Rightarrow> chunks \<Rightarrow> nat \<Rightarrow> nat \<Rightarrow> chunks option" where
  "insert_at mx cs index count = do {
     realm_assert (0 < count);
     let pos = find_it cs index;
     if pos \<noteq> crv_end cs then
       if fst (deref cs pos) \<le> index then
         let cs1 = it_adjust cs pos 0 (int count)
         in shift_to_end cs1 (it_next cs1 pos) (int count)
       else do {
         let cs1 = it_shift cs pos (int count);
         cs2 \<leftarrow> shift_to_end cs1 (it_next cs1 pos) (int count);
         add_run mx count cs2 pos index
       }
     else add_run mx count cs pos index
   }"

definition shift_for_insert_at :: "nat \<Rightarrow> chunks \<Rightarrow> nat \<Rightarrow> nat \<Rightarrow> chunks option" where
  "shift_for_insert_at mx cs index count = do {
     realm_assert (0 < count);
     let it = find_it cs index;
     if it = crv_end cs then Some cs
     else do {
       cs1 \<leftarrow> shift_to_end cs it (int count);
       if fst (deref cs1 it) < index + count then
         let old_second = snd (deref cs1 it);
             cs2 = it_set cs1 it (fst (deref cs1 it) - count) index
         in map_option fst (crv_insert mx cs2 (it_next cs2 it) (index + count, old_second))
       else Some cs1
     }
   }"

definition do_erase :: "chunks \<Rightarrow> iter \<Rightarrow> nat \<Rightarrow> chunks option" where
  "do_erase cs it index =
     (let (cs1, it1) =
        (if fst (deref cs it) \<le> index then
           if fst (deref cs it) + 1 = snd (deref cs it) then crv_erase cs it
           else let cs1 = it_adjust cs it 0 (-1) in (cs1, it_next cs1 it)
         else if it \<noteq> crv_begin cs \<and> snd (deref cs (it_prev cs it)) + 1 = fst (deref cs it) then
           crv_erase (it_adjust cs (it_prev cs it) 0
             (int (snd (deref cs it)) - int (fst (deref cs it)))) it
         else (cs, it))
      in shift_to_end cs1 it1 (-1))"

definition erase_at :: "chunks \<Rightarrow> nat \<Rightarrow> chunks option" where
  "erase_at cs index =
     (let it = find_it cs index in if it \<noteq> crv_end cs then do_erase cs it index else Some cs)"

section \<open>Invariant and abstraction\<close>

lemma sz_simps [simp]:
  "sz n (int k) = n + k" "sz n 0 = n" "sz n 1 = Suc n" "sz n (- 1) = n - 1"
  by (simp_all add: sz_def)

definition is_ok :: "nat \<Rightarrow> chunks \<Rightarrow> bool" where
  "is_ok mx cs \<longleftrightarrow> even mx \<and> 2 \<le> mx \<and> crv_ok mx cs \<and> ranges_ok (flat cs)"

definition elems :: "chunks \<Rightarrow> nat set" where
  "elems cs = ranges_set (flat cs)"

lemma is_ok_empty: "even mx \<Longrightarrow> 2 \<le> mx \<Longrightarrow> is_ok mx []"
  by (simp add: is_ok_def)

lemma elems_empty [simp]: "elems [] = {}"
  by (simp add: elems_def)

lemma finite_elems [simp]: "finite (elems cs)"
  by (simp add: elems_def)

text \<open>A position in a well-formed index set.\<close>

definition at :: "nat \<Rightarrow> chunks \<Rightarrow> iter \<Rightarrow> range list \<Rightarrow> range list \<Rightarrow> bool" where
  "at mx cs it L R \<longleftrightarrow> cur mx cs it L R \<and> ranges_ok (L @ R)"

lemma at_is_ok: "at mx cs it L R \<Longrightarrow> is_ok mx cs \<and> flat cs = L @ R"
  using cur_flat [of mx cs it L R] by (auto simp: at_def is_ok_def cur_def)

lemma at_elems: "at mx cs it L R \<Longrightarrow> elems cs = ranges_set L \<union> ranges_set R"
  using at_is_ok by (auto simp: elems_def)

lemma at_begin: "is_ok mx cs \<Longrightarrow> at mx cs (crv_begin cs) [] (flat cs)"
  by (simp add: at_def is_ok_def cur_crv_begin)

lemma cur_is_ok: "cur mx cs it L R \<Longrightarrow> ranges_ok (L @ R) \<Longrightarrow> is_ok mx cs \<and> elems cs = ranges_set (L @ R)"
  using at_is_ok [of mx cs it L R] by (simp add: at_def elems_def)

lemma cdata_ranges_ok: "ranges_ok (flat cs) \<Longrightarrow> c \<in> set cs \<Longrightarrow> ranges_ok (cdata c)"
  by (metis flat_simps(2,3) ranges_ok_append split_list)

lemma chunk_bounds:
  assumes "crv_ok mx cs" "ranges_ok (flat cs)" "c \<in> set cs" "r \<in> set (cdata c)"
  shows "cbegin c \<le> fst r" "snd r \<le> cend c"
proof -
  obtain A B where "cs = A @ c # B" using assms(3) by (meson split_list)
  with assms have ok: "chunk_ok mx c" "ranges_ok (cdata c)" by auto
  then obtain x xs where d: "cdata c = x # xs" by (auto simp: chunk_ok_def neq_Nil_conv)
  have "fst x \<le> fst r" using ok(2) assms(4) d by (auto dest: ranges_okD)
  then show "cbegin c \<le> fst r" using ok(1) d by (simp add: chunk_ok_def)
  obtain y ys where d': "cdata c = ys @ [y]" using d by (metis rev_exhaust list.distinct(1))
  have "snd r \<le> snd y"
    using ok(2) assms(4) d' by (auto dest: ranges_okD)
  then show "snd r \<le> cend c" using ok(1) d' by (simp add: chunk_ok_def)
qed

section \<open>Lookup\<close>

lemma find_fromI:
  assumes "cur mx cs it L R" "ranges_ok (L @ R)" "valid_it cs jt"
    and "\<And>r. r \<in> set (before cs jt) \<Longrightarrow> snd r \<le> index"
    and "after cs jt \<noteq> [] \<Longrightarrow> index < snd (hd (after cs jt))"
    and "\<forall>r \<in> set L. snd r \<le> index"
  shows "at mx cs jt (L @ takeWhile (\<lambda>r. snd r \<le> index) R) (dropWhile (\<lambda>r. snd r \<le> index) R)"
proof -
  let ?P = "\<lambda>r::range. snd r \<le> index"
  have fl: "before cs jt @ after cs jt = L @ R"
    using before_after [OF assms(3)] cur_flat [OF assms(1)] by simp
  have "takeWhile ?P (before cs jt @ after cs jt) = before cs jt"
    using assms(4,5) by (intro takeWhile_split) auto
  then have b: "before cs jt = L @ takeWhile ?P R"
    using assms(6) unfolding fl by (simp add: takeWhile_append2)
  with fl have "after cs jt = dropWhile ?P R"
    by (metis append.assoc same_append_eq takeWhile_dropWhile_id)
  with b show ?thesis
    using assms(1-3) by (simp add: at_def cur_def del: ranges_ok_append)
qed

lemma find_from_at:
  assumes c: "cur mx cs it L R" and ok: "ranges_ok (L @ R)" and L: "\<forall>r \<in> set L. snd r \<le> index"
  shows "at mx cs (find_from cs index it)
           (L @ takeWhile (\<lambda>r. snd r \<le> index) R) (dropWhile (\<lambda>r. snd r \<le> index) R)"
proof (rule find_fromI [OF c ok _ _ _ L])
  let ?P = "\<lambda>r::range. snd r \<le> index"
  let ?n = "length (takeWhile (\<lambda>c. \<not> index < cend c) (drop (fst it) cs))"
  let ?k = "fst it + ?n"
  have crv: "crv_ok mx cs" and it: "valid_it cs it" and bef: "before cs it = L"
    using c by (auto simp: cur_def)
  have fok: "ranges_ok (flat cs)" using ok cur_flat [OF c] by simp
  note bnds = chunk_bounds [OF crv fok]
  have fk: "fst it \<le> length cs" using it by (auto simp: valid_it_def crv_end_def)
  then have k: "?k \<le> length cs"
    using length_takeWhile_le [of "\<lambda>c. \<not> index < cend c" "drop (fst it) cs"] by simp
  have low: "snd r \<le> index" if "r \<in> set (flat (take ?k cs))" for r
  proof -
    from that have "r \<in> set (flat (take (fst it) cs)) \<or> r \<in> set (flat (take ?n (drop (fst it) cs)))"
      by (simp add: take_add)
    then show ?thesis
    proof
      assume "r \<in> set (flat (take (fst it) cs))"
      then show ?thesis using L bef by (auto simp: before_def)
    next
      assume "r \<in> set (flat (take ?n (drop (fst it) cs)))"
      then obtain d where "d \<in> set (takeWhile (\<lambda>c. \<not> index < cend c) (drop (fst it) cs))"
          and r: "r \<in> set (cdata d)"
        by (auto simp: flat_def take_length_takeWhile)
      then have "d \<in> set cs" "cend d \<le> index" by (auto dest: set_takeWhileD in_set_dropD)
      with bnds(2) r show ?thesis by fastforce
    qed
  qed
  let ?c = "cs ! ?k"
  have top: "index < cend ?c" if "?k < length cs"
  proof -
    have "?n < length (drop (fst it) cs)" using that by simp
    from nth_length_takeWhile [OF this] that fk show ?thesis by (simp add: add.commute)
  qed
  let ?ib = "if ?k = fst it then snd it else 0"
  let ?m = "length (takeWhile ?P (drop ?ib (cdata ?c)))"
  consider (fin) "?k = length cs" | (gap) "?k < length cs" "index < cbegin ?c"
    | (mid) "?k < length cs" "cbegin ?c \<le> index" using k by linarith
  then have "valid_it cs (find_from cs index it) \<and>
    (\<forall>r \<in> set (before cs (find_from cs index it)). snd r \<le> index) \<and>
    (after cs (find_from cs index it) \<noteq> [] \<longrightarrow> index < snd (hd (after cs (find_from cs index it))))"
  proof cases
    case fin
    then have "find_from cs index it = crv_end cs" by (simp add: find_from_def)
    with low fin show ?thesis by simp
  next
    case gap
    have ne: "cdata ?c \<noteq> []" "cbegin ?c = fst (hd (cdata ?c))"
      using crv_ok_nth [OF crv gap(1)] by (auto simp: chunk_ok_def)
    then have "fst (hd (cdata ?c)) < snd (hd (cdata ?c))"
      using cdata_ranges_ok [OF fok nth_mem [OF gap(1)]] by (simp add: ranges_okD)
    moreover have "find_from cs index it = (?k, 0)" using gap by (simp add: find_from_def)
    ultimately show ?thesis
      using low gap ne by (simp add: valid_it_def before_def after_def)
  next
    case mid
    have ck: "?c \<in> set cs" using mid by simp
    have ff: "find_from cs index it = (?k, ?ib + ?m)" using mid by (simp add: find_from_def Let_def)
    have ne: "cdata ?c \<noteq> []" "cend ?c = snd (last (cdata ?c))"
      using crv_ok_nth [OF crv mid(1)] by (auto simp: chunk_ok_def)
    have ib: "?ib < length (cdata ?c)" using it mid ne by (auto simp: valid_it_def crv_end_def)
    then have lst: "last (cdata ?c) \<in> set (drop ?ib (cdata ?c))" "\<not> ?P (last (cdata ?c))"
      using top mid ne by (metis drop_eq_Nil last_drop last_in_set linorder_not_le, simp)
    then have m: "?m < length (drop ?ib (cdata ?c))"
      by (rule length_takeWhile_less)
    have "\<not> ?P (drop ?ib (cdata ?c) ! ?m)" using nth_length_takeWhile [OF m] .
    moreover have "\<forall>r \<in> set (take ?ib (cdata ?c)). ?P r"
      using L bef mid by (auto simp: before_def)
    moreover have "take (?ib + ?m) (cdata ?c) = take ?ib (cdata ?c) @ takeWhile ?P (drop ?ib (cdata ?c))"
      by (simp add: take_add take_length_takeWhile)
    ultimately show ?thesis
      using mid m ib low unfolding ff
      by (auto simp: valid_it_def before_def after_def hd_append hd_drop_conv_nth dest: set_takeWhileD)
  qed
  then show "valid_it cs (find_from cs index it)"
    "\<And>r. r \<in> set (before cs (find_from cs index it)) \<Longrightarrow> snd r \<le> index"
    "after cs (find_from cs index it) \<noteq> [] \<Longrightarrow> index < snd (hd (after cs (find_from cs index it)))"
    by blast+
qed

lemma find_it_at:
  assumes "is_ok mx cs"
  shows "at mx cs (find_it cs index)
           (takeWhile (\<lambda>r. snd r \<le> index) (flat cs)) (dropWhile (\<lambda>r. snd r \<le> index) (flat cs))"
  using find_from_at [of mx cs "crv_begin cs" "[]" "flat cs" index] at_begin [OF assms] assms
  by (simp add: find_it_def at_def is_ok_def)

text \<open>Where \<open>find\<close> stops: what is before ends at or before the index, what follows after it.\<close>

definition splits :: "nat \<Rightarrow> range list \<Rightarrow> range list \<Rightarrow> bool" where
  "splits index L R \<longleftrightarrow> (\<forall>r \<in> set L. snd r \<le> index) \<and> (\<forall>r \<in> set R. index < snd r)"

lemma dropWhile_splits: "ranges_ok R \<Longrightarrow> r \<in> set (dropWhile (\<lambda>r. snd r \<le> index) R) \<Longrightarrow> index < snd r"
  by (induction R) (fastforce split: if_splits dest: ranges_okD)+

lemma find_from_splits:
  assumes "at mx cs it L R" "\<forall>r \<in> set L. snd r \<le> index"
  obtains A B where "R = A @ B" "at mx cs (find_from cs index it) (L @ A) B" "splits index (L @ A) B"
proof
  let ?A = "takeWhile (\<lambda>r. snd r \<le> index) R" let ?B = "dropWhile (\<lambda>r. snd r \<le> index) R"
  show "R = ?A @ ?B" by simp
  show "at mx cs (find_from cs index it) (L @ ?A) ?B"
    using find_from_at [of mx cs it L R index] assms by (simp add: at_def)
  have "ranges_ok R" using assms(1) by (simp add: at_def)
  then show "splits index (L @ ?A) ?B"
    using assms(2) dropWhile_splits by (auto simp: splits_def dest: set_takeWhileD)
qed

lemma find_it_splits:
  assumes "is_ok mx cs"
  obtains L R where "flat cs = L @ R" "at mx cs (find_it cs index) L R" "splits index L R"
  using find_from_splits [OF at_begin [OF assms], of index] unfolding find_it_def by auto

lemma at_end_iff: "at mx cs it L R \<Longrightarrow> it = crv_end cs \<longleftrightarrow> R = []"
  using crv.at_last [of mx cs it L R] by (simp add: at_def)

lemma at_begin_iff: "at mx cs it L R \<Longrightarrow> it = crv_begin cs \<longleftrightarrow> L = []"
  using crv.at_first [of mx cs it L R] by (simp add: at_def)

lemma at_deref: "at mx cs it L (r # R) \<Longrightarrow> deref cs it = r"
  using crv.cur_get [of mx cs it L r R] by (simp add: at_def)

lemma at_next: "at mx cs it L (r # R) \<Longrightarrow> at mx cs (it_next cs it) (L @ [r]) R"
  using crv.cur_next [of mx cs it L r R] by (simp add: at_def)

lemma at_prev: "at mx cs it (L @ [r]) R \<Longrightarrow> at mx cs (it_prev cs it) L (r # R)"
  using crv.cur_prev [of mx cs it L r R] by (simp add: at_def)

lemma at_deref_prev: "at mx cs it (L @ [r]) R \<Longrightarrow> deref cs (it_prev cs it) = r"
  using at_prev at_deref by blast

lemma splits_first:
  assumes "splits index L (r # R)" "ranges_ok (L @ r # R)"
  shows "index \<in> ranges_set (L @ r # R) \<longleftrightarrow> fst r \<le> index"
  using assms ranges_set_above [of R "snd r" index]
  by (fastforce simp: splits_def mem_ranges_set)

lemma splits_mem:
  assumes "splits index L R" "ranges_ok (L @ R)"
  shows "index \<in> ranges_set (L @ R) \<longleftrightarrow> R \<noteq> [] \<and> fst (hd R) \<le> index"
  using assms splits_first [of index L "hd R" "tl R"] by (cases R) (force simp: splits_def mem_ranges_set)+

theorem contains_elems [set_specs]:
  assumes "is_ok mx cs"
  shows "contains cs index \<longleftrightarrow> index \<in> elems cs"
proof -
  obtain L R where fl: "flat cs = L @ R" and a: "at mx cs (find_it cs index) L R" and sp: "splits index L R"
    using find_it_splits [OF assms] .
  then have "ranges_ok (L @ R)" by (simp add: at_def)
  then show ?thesis
    using splits_mem [OF sp] at_end_iff [OF a] at_deref [of mx cs "find_it cs index" L "hd R" "tl R"] a
    by (cases R) (auto simp: contains_def elems_def fl)
qed

section \<open>Adding\<close>

text \<open>What \<open>do_add\<close> does at a position that splits at the index, on the ranges.\<close>

definition add_zip :: "range list \<Rightarrow> range list \<Rightarrow> nat \<Rightarrow> range list \<times> range list" where
  "add_zip L R index =
     (if R \<noteq> [] \<and> fst (hd R) \<le> index then (L, R)
      else if L \<noteq> [] \<and> snd (last L) = index then
        if R \<noteq> [] \<and> fst (hd R) = index + 1
        then (butlast L, (fst (last L), snd (hd R)) # tl R)
        else (butlast L, (fst (last L), index + 1) # R)
      else if R \<noteq> [] \<and> fst (hd R) = index + 1 then (L, (index, snd (hd R)) # tl R)
      else (L, (index, index + 1) # R))"

lemma add_zip_ok:
  assumes "splits index L R" "ranges_ok (L @ R)" "add_zip L R index = (L', R')"
  shows "ranges_ok (L' @ R')" "ranges_set (L' @ R') = insert index (ranges_set (L @ R))"
    and "R' \<noteq> [] \<and> fst (hd R') \<le> index" "splits index L' R'"
    and "(R = [] \<or> index + 1 < fst (hd R)) \<Longrightarrow> snd (hd R') = index + 1 \<and> tl R' = R"
proof -
  have *: "ranges_ok (L' @ R') \<and> ranges_set (L' @ R') = insert index (ranges_set (L @ R)) \<and>
    (R' \<noteq> [] \<and> fst (hd R') \<le> index) \<and> splits index L' R' \<and>
    ((R = [] \<or> index + 1 < fst (hd R)) \<longrightarrow> snd (hd R') = index + 1 \<and> tl R' = R)"
  proof (cases "R \<noteq> [] \<and> fst (hd R) \<le> index")
    case True
    then show ?thesis
      using assms splits_mem [OF assms(1,2)] by (auto simp: add_zip_def)
  next
    case False
    then have out: "R = [] \<or> index < fst (hd R)" by auto
    show ?thesis
    proof (cases L rule: rev_cases)
      case Nil
      then show ?thesis
        using assms out by (cases R) (fastforce simp: add_zip_def splits_def range_set_def split: if_splits)+
    next
      case (snoc L0 p)
      then show ?thesis
        using assms out by (cases R) (fastforce simp: add_zip_def splits_def range_set_def split: if_splits)+
    qed
  qed
  then show "ranges_ok (L' @ R')" "ranges_set (L' @ R') = insert index (ranges_set (L @ R))"
    "R' \<noteq> [] \<and> fst (hd R') \<le> index" "splits index L' R'"
    "(R = [] \<or> index + 1 < fst (hd R)) \<Longrightarrow> snd (hd R') = index + 1 \<and> tl R' = R"
    by blast+
qed

lemma do_add_cur:
  assumes c: "cur mx cs it L R" and ok: "ranges_ok (L @ R)" and sp: "splits index L R"
  shows "\<exists>cs' it'. do_add mx cs it index = Some (cs', it') \<and>
    cur mx cs' it' (fst (add_zip L R index)) (snd (add_zip L R index))"
proof -
  have fin: "it = crv_end cs \<longleftrightarrow> R = []" and start: "it = crv_begin cs \<longleftrightarrow> L = []"
    using crv.at_last [OF c] crv.at_first [OF c] by auto
  have get: "deref cs it = hd R" if "R \<noteq> []"
    using that c crv.cur_get [of mx cs it L "hd R" "tl R"] by simp
  have getp: "deref cs (it_prev cs it) = last L" if "L \<noteq> []"
    using that c crv.get_prev [of mx cs it "butlast L" "last L" R] by simp
  have asrt: "it = crv_begin cs \<or> snd (deref cs (it_prev cs it)) \<le> index"
    using sp start getp by (auto simp: splits_def)
  show ?thesis
  proof (cases "R \<noteq> [] \<and> fst (hd R) \<le> index")
    case True
    then have "index < snd (hd R)" using sp by (simp add: splits_def)
    with True have "do_add mx cs it index = Some (cs, it)"
      using fin get asrt by (auto simp: do_add_def)
    with True c show ?thesis by (auto simp: add_zip_def)
  next
    case out: False
    have out': "\<not> (it \<noteq> crv_end cs \<and> fst (deref cs it) \<le> index \<and> index < snd (deref cs it))"
      using out fin get by auto
    show ?thesis
    proof (cases "L \<noteq> [] \<and> snd (last L) = index")
      case True
      then obtain L0 a where L: "L = L0 @ [(a, index)]"
        by (metis append_butlast_last_id prod.collapse)
      have a: "a < index" using ok L by auto
      let ?p = "it_prev cs it" let ?cs1 = "it_adjust cs ?p 0 1"
      have cp: "cur mx cs ?p L0 ((a, index) # R)" using crv.cur_prev c L by blast
      have c1: "cur mx ?cs1 it (L0 @ [(a, index + 1)]) R"
        using crv.cur_adjust_prev [of mx cs it L0 a index R 0 1] c L a by simp
      have p1: "cur mx ?cs1 ?p L0 ((a, index + 1) # R)"
        using crv.cur_adjust [OF cp, of 0 1] a by simp
      have pp: "it_prev ?cs1 it = ?p"
        using crv.prev_adjust [OF cp, of 0 1] a by simp
      show ?thesis
      proof (cases "R \<noteq> [] \<and> fst (hd R) = index + 1")
        case join: True
        then obtain b R0 where R: "R = (index + 1, b) # R0"
          by (metis list.collapse prod.collapse)
        then have b: "index + 1 < b" using ok by auto
        let ?cs2 = "it_adjust ?cs1 ?p 0 (int b - int (index + 1))"
        have c2: "cur mx ?cs2 it (L0 @ [(a, b)]) ((index + 1, b) # R0)"
          using crv.cur_adjust_prev [of mx ?cs1 it L0 a "index + 1" R 0 "int b - int (index + 1)"] c1 a b R pp
          by (simp add: sz_def)
        obtain cs3 it3 where e: "crv_erase ?cs2 it = (cs3, it3)" by (rule prod.exhaust)
        have "cur mx cs3 it3 (L0 @ [(a, b)]) R0" using crv.cur_erase [OF c2 e] .
        then have "cur mx cs3 (it_prev cs3 it3) L0 ((a, b) # R0)" by (rule crv.cur_prev)
        moreover have "do_add mx cs it index = Some (cs3, it_prev cs3 it3)"
          using asrt out' fin start get getp L R crv.cur_get [OF p1] crv.cur_get [OF c1 [unfolded R]] e
          by (simp add: do_add_def Let_def)
        ultimately show ?thesis using out L R by (simp add: add_zip_def)
      next
        case False
        have "do_add mx cs it index = Some (?cs1, ?p)"
          using asrt out' fin start getp L False crv.cur_get [OF p1] c1
            crv.cur_get [of mx ?cs1 it "L0 @ [(a, index + 1)]" "hd R" "tl R"]
          by (cases "R = []") (auto simp: do_add_def Let_def)
        with p1 show ?thesis using out L False by (auto simp: add_zip_def)
      qed
    next
      case notprev: False
      have np: "\<not> (it \<noteq> crv_begin cs \<and> snd (deref cs (it_prev cs it)) = index)"
        using notprev start getp by auto
      show ?thesis
      proof (cases "R \<noteq> [] \<and> fst (hd R) = index + 1")
        case True
        then obtain b R0 where R: "R = (index + 1, b) # R0"
          by (metis list.collapse prod.collapse)
        then have b: "index + 1 < b" using ok by auto
        have "cur mx (it_adjust cs it (- 1) 0) it L ((index, b) # R0)"
          using crv.cur_adjust [OF c [unfolded R], of "-1" 0] b by (simp add: sz_def)
        moreover have "do_add mx cs it index = Some (it_adjust cs it (- 1) 0, it)"
          using asrt out' np fin get R by (auto simp: do_add_def Let_def)
        ultimately show ?thesis using out notprev R by (auto simp: add_zip_def)
      next
        case False
        then have z: "add_zip L R index = (L, (index, index + 1) # R)"
          using out notprev by (auto simp: add_zip_def)
        have "ranges_ok (L @ (index, index + 1) # R)"
          using add_zip_ok(1) [OF sp ok z] .
        from crv.cur_insert [OF c this] obtain cs' it'
          where "crv_insert mx cs it (index, index + 1) = Some (cs', it')"
            "cur mx cs' it' L ((index, index + 1) # R)" by blast
        moreover have "do_add mx cs it index = crv_insert mx cs it (index, index + 1)"
          using asrt out' np fin get False by (auto simp: do_add_def Let_def)
        ultimately show ?thesis by (simp add: z)
      qed
    qed
  qed
qed

lemma do_add_at:
  assumes "at mx cs it L R" "splits index L R"
  obtains cs' it' L' R' where "do_add mx cs it index = Some (cs', it')" "at mx cs' it' L' R'"
    "add_zip L R index = (L', R')" "splits index L' R'" "elems cs' = insert index (elems cs)"
proof -
  obtain L' R' where z: "add_zip L R index = (L', R')" by (rule prod.exhaust)
  have c: "cur mx cs it L R" and ok: "ranges_ok (L @ R)" using assms(1) by (auto simp: at_def)
  obtain cs' it' where d: "do_add mx cs it index = Some (cs', it')" "cur mx cs' it' L' R'"
    using do_add_cur [OF c ok assms(2)] z by auto
  note zok = add_zip_ok [OF assms(2) ok z]
  have a: "at mx cs' it' L' R'" using d(2) zok(1) by (simp add: at_def)
  have "elems cs' = insert index (elems cs)"
    using zok(2) at_elems [OF a] at_elems [OF assms(1)] by simp
  with that d(1) a z zok(4) show thesis by blast
qed

lemma add_ok [set_specs]:
  assumes "is_ok mx cs"
  shows "\<exists>cs'. add mx cs index = Some cs' \<and> is_ok mx cs' \<and> elems cs' = insert index (elems cs)"
proof -
  obtain L R where "at mx cs (find_it cs index) L R" "splits index L R"
    using find_it_splits [OF assms, of index] .
  from do_add_at [OF this] show ?thesis
    using at_is_ok by (auto simp: add_def) metis
qed

lemma set_as_indexes: "set (as_indexes cs) = elems cs"
  by (auto simp: as_indexes_def elems_def ranges_set_def range_set_def)

lemma sorted_as_indexes: "ranges_ok rs \<Longrightarrow> sorted_wrt (<) (concat (map (\<lambda>r. [fst r..<snd r]) rs))"
  by (induction rs) (auto simp: sorted_wrt_append dest: ranges_okD)

text \<open>Adding a whole set visits its indices in order, so that the position moves forward.\<close>

lemma add_all_from_ok:
  assumes "at mx cs it L R" "\<forall>r \<in> set L. \<forall>i \<in> set is. snd r \<le> i" "sorted_wrt (<) is"
  shows "\<exists>cs'. add_all_from mx cs it is = Some cs' \<and> is_ok mx cs' \<and> elems cs' = elems cs \<union> set is"
  using assms
proof (induction "is" arbitrary: cs it L R)
  case Nil
  then show ?case using at_is_ok by auto
next
  case (Cons i "is")
  obtain A B where RAB: "R = A @ B" and f: "at mx cs (find_from cs i it) (L @ A) B"
    and sp: "splits i (L @ A) B"
    using find_from_splits [OF Cons.prems(1), of i] Cons.prems(2) by auto
  obtain cs' it' L' R' where d: "do_add mx cs (find_from cs i it) i = Some (cs', it')"
      "at mx cs' it' L' R'" "splits i L' R'" "elems cs' = insert i (elems cs)"
    using do_add_at [OF f sp] by metis
  have "\<forall>r \<in> set L'. \<forall>j \<in> set is. snd r \<le> j"
    using d(3) Cons.prems(3) by (auto simp: splits_def) (metis dual_order.trans less_imp_le snd_conv)
  from Cons.IH [OF d(2) this] Cons.prems(3) d show ?case
    by auto
qed

lemma add_all_ok [set_specs]:
  assumes "is_ok mx cs" "is_ok mx other"
  shows "\<exists>cs'. add_all mx cs other = Some cs' \<and> is_ok mx cs' \<and> elems cs' = elems cs \<union> elems other"
  using add_all_from_ok [OF at_begin [OF assms(1)], of "as_indexes other"] assms(2)
    sorted_as_indexes [of "flat other"]
  by (simp add: add_all_def set_as_indexes) (simp add: as_indexes_def is_ok_def)

lemma of_indices_ok:
  "is_ok mx cs \<Longrightarrow> \<exists>cs'. of_indices mx cs vs = Some cs' \<and> is_ok mx cs' \<and> elems cs' = elems cs \<union> set vs"
proof (induction vs arbitrary: cs)
  case (Cons v vs)
  obtain cs' where "add mx cs v = Some cs'" "is_ok mx cs'" "elems cs' = insert v (elems cs)"
    using add_ok [OF Cons.prems] by blast
  with Cons.IH [of cs'] show ?case by auto
qed auto

lemma set_len_ok [set_specs]:
  assumes "even mx" "2 \<le> mx"
  shows "\<exists>cs'. set_len mx cs len = Some cs' \<and> is_ok mx cs' \<and> elems cs' = {0..<len}"
  using assms push_back_cursor [of mx "[]" "(0, len)"]
  by (auto simp: set_len_def clear_def is_ok_def elems_def range_set_def)

section \<open>Shifting the rest of the set\<close>

definition shift_range :: "int \<Rightarrow> range \<Rightarrow> range" where
  "shift_range d r = (sz (fst r) d, sz (snd r) d)"

lemma shift_range_simps [simp]: "fst (shift_range d r) = sz (fst r) d" "snd (shift_range d r) = sz (snd r) d"
  by (simp_all add: shift_range_def)

lemma shift_to_end_cur:
  assumes "cur mx cs jt (L @ A) R" "cur mx cs it L (A @ R)"
    and "\<forall>r \<in> set R. fst r \<le> snd r \<and> 0 \<le> int (fst r) + d"
  shows "\<exists>cs'. shift_to_end cs jt d = Some cs' \<and> cur mx cs' it L (A @ map (shift_range d) R)"
  using assms
proof (induction R arbitrary: cs jt A)
  case Nil
  then have "jt = crv_end cs" using crv.at_last by blast
  with Nil show ?case by (auto simp: shift_to_end.simps)
next
  case (Cons r R)
  obtain a b where r: "r = (a, b)" by (rule prod.exhaust)
  have ab: "a \<le> b" "0 \<le> int a + d" using Cons.prems(3) by (auto simp: r)
  let ?cs = "it_shift cs jt d" let ?s = "(sz a d, sz b d)"
  have eq: "?cs = it_set cs jt (sz a d) (sz b d)"
    using crv.shift_eq Cons.prems(1) ab unfolding r by blast
  have "cur mx ?cs jt (L @ A) (?s # R)"
    using crv.cur_shift Cons.prems(1) ab unfolding r by blast
  from crv.cur_next [OF this] have n: "cur mx ?cs (it_next ?cs jt) (L @ (A @ [?s])) R"
    by simp
  have "cur mx ?cs it L (A @ ?s # R)"
    unfolding eq using crv.cur_set_later Cons.prems(1,2) by blast
  then have i: "cur mx ?cs it L ((A @ [?s]) @ R)" by simp
  have "jt \<noteq> crv_end cs" using Cons.prems(1) by (rule cur_not_end)
  then have "shift_to_end cs jt d = shift_to_end ?cs (it_next ?cs jt) d"
    by (subst shift_to_end.simps) (simp add: Let_def)
  moreover have "shift_range d r = ?s" by (simp add: r shift_range_def)
  ultimately show ?case
    using Cons.IH [OF n i] Cons.prems(3) by simp
qed

lemma shift_to_end_here:
  assumes "cur mx cs it L R" "\<forall>r \<in> set R. fst r \<le> snd r \<and> 0 \<le> int (fst r) + d"
  shows "\<exists>cs'. shift_to_end cs it d = Some cs' \<and> cur mx cs' it L (map (shift_range d) R)"
  using shift_to_end_cur [of mx cs it L "[]" R it d] assms by simp

lemma shift_to_end_next:
  assumes "cur mx cs it L (r # R)" "\<forall>r \<in> set R. fst r \<le> snd r \<and> 0 \<le> int (fst r) + d"
  shows "\<exists>cs'. shift_to_end cs (it_next cs it) d = Some cs' \<and> cur mx cs' it L (r # map (shift_range d) R)"
  using shift_to_end_cur [of mx cs "it_next cs it" L "[r]" R it d] crv.cur_next [OF assms(1)] assms by simp

lemma ranges_ok_shift:
  "ranges_ok R \<Longrightarrow> ranges_ok (map (shift_range (int n)) R)"
  by (induction R) auto

lemma ranges_set_shift: "ranges_set (map (shift_range (int n)) R) = (\<lambda>x. x + n) ` ranges_set R"
proof -
  have "range_set (shift_range (int n) r) = (\<lambda>x. x + n) ` range_set r" for r
    by (simp add: range_set_def image_add_atLeastLessThan')
  then show ?thesis by (simp add: ranges_set_def image_UN)
qed

section \<open>insert_at and shift_for_insert_at\<close>

text \<open>The indices from a point on move back by the number of inserted positions.\<close>

definition spread :: "nat \<Rightarrow> nat \<Rightarrow> nat set \<Rightarrow> nat set" where
  "spread index count S = {x \<in> S. x < index} \<union> (\<lambda>x. x + count) ` {x \<in> S. index \<le> x}"

lemma spread_Un [simp]: "spread i n (S \<union> T) = spread i n S \<union> spread i n T"
  by (auto simp: spread_def)

lemma spread_low: "(\<And>x. x \<in> S \<Longrightarrow> x < i) \<Longrightarrow> spread i n S = S"
  by (fastforce simp: spread_def)

lemma spread_high: "(\<And>x. x \<in> S \<Longrightarrow> i \<le> x) \<Longrightarrow> spread i n S = (\<lambda>x. x + n) ` S"
  by (auto simp: spread_def) (metis linorder_not_le)

lemma spread_range: "a \<le> i \<Longrightarrow> i < b \<Longrightarrow> spread i n (range_set (a, b)) = {a..<i} \<union> {i + n..<b + n}"
proof -
  assume "a \<le> i" "i < b"
  then have "{x \<in> {a..<b}. x < i} = {a..<i}" "{x \<in> {a..<b}. i \<le> x} = {i..<b}" by auto
  then show ?thesis by (simp add: spread_def range_set_def image_add_atLeastLessThan')
qed

lemma splits_low: "splits i L R \<Longrightarrow> x \<in> ranges_set L \<Longrightarrow> x < i"
  by (auto simp: splits_def intro: ranges_set_below)

lemma add_run_ok:
  assumes "cur mx cs it L R" "ranges_ok (L @ R)" "\<forall>r \<in> set L. snd r \<le> index"
    and "\<forall>r \<in> set R. index + n < fst r"
  shows "\<exists>cs'. add_run mx n cs it index = Some cs' \<and> is_ok mx cs' \<and>
    elems cs' = ranges_set L \<union> {index..<index + n} \<union> ranges_set R"
  using assms
proof (induction n arbitrary: cs it L index)
  case 0
  then show ?case using cur_is_ok by auto
next
  case (Suc n)
  have sp: "splits index L R"
    using Suc.prems by (fastforce simp: splits_def dest: ranges_okD)
  have a: "at mx cs it L R" using Suc.prems by (simp add: at_def)
  obtain cs' it' L' R' where d: "do_add mx cs it index = Some (cs', it')" "at mx cs' it' L' R'"
      "add_zip L R index = (L', R')" "splits index L' R'" "elems cs' = insert index (elems cs)"
    using do_add_at [OF a sp] .
  note z = add_zip_ok [OF sp Suc.prems(2) d(3)]
  have "R = [] \<or> index + 1 < fst (hd R)" using Suc.prems(4) by (cases R) auto
  then obtain r where R': "R' = r # R" "snd r = index + 1" using z(3,5) by (metis list.collapse)
  have "cur mx cs' (it_next cs' it') (L' @ [r]) R" "ranges_ok ((L' @ [r]) @ R)"
    using at_next d(2) R' by (simp_all add: at_def crv.cur_next)
  moreover have "\<forall>x \<in> set (L' @ [r]). snd x \<le> index + 1"
    using d(4) R' by (auto simp: splits_def)
  moreover have "ranges_set (L' @ [r]) \<union> ranges_set R = insert index (ranges_set L \<union> ranges_set R)"
    using z(2) R' by auto
  moreover have "\<forall>r \<in> set R. (index + 1) + n < fst r" using Suc.prems(4) by simp
  ultimately obtain cs'' where r: "add_run mx n cs' (it_next cs' it') (index + 1) = Some cs''"
      "is_ok mx cs''"
      "elems cs'' = ranges_set (L' @ [r]) \<union> {index + 1..<index + 1 + n} \<union> ranges_set R"
    using Suc.IH [of cs' "it_next cs' it'" "L' @ [r]" "index + 1"] by blast
  have "{index..<index + Suc n} = insert index {index + 1..<index + 1 + n}" by auto
  moreover have "ranges_set (L' @ [r]) \<union> ranges_set R = insert index (ranges_set L \<union> ranges_set R)"
    using z(2) R' by auto
  ultimately have "elems cs'' = ranges_set L \<union> {index..<index + Suc n} \<union> ranges_set R"
    unfolding r(3) by blast
  with r d(1) show ?case by simp
qed

lemma insert_at_ok [set_specs]:
  assumes ok: "is_ok mx cs" and n: "0 < count"
  shows "\<exists>cs'. insert_at mx cs index count = Some cs' \<and> is_ok mx cs' \<and>
    elems cs' = spread index count (elems cs) \<union> {index..<index + count}"
proof -
  obtain L R where fl: "flat cs = L @ R" and a: "at mx cs (find_it cs index) L R" and sp: "splits index L R"
    using find_it_splits [OF ok] .
  let ?pos = "find_it cs index"
  have c: "cur mx cs ?pos L R" and ok': "ranges_ok (L @ R)" using a by (auto simp: at_def)
  have low: "spread index count (ranges_set L) = ranges_set L"
    by (rule spread_low) (rule splits_low [OF sp])
  show ?thesis
  proof (cases R)
    case Nil
    then have "insert_at mx cs index count = add_run mx count cs ?pos index"
      using n at_end_iff [OF a] by (simp add: insert_at_def)
    moreover have "\<forall>r \<in> set L. snd r \<le> index" using sp by (simp add: splits_def)
    ultimately show ?thesis
      using add_run_ok [OF c ok', of index count] Nil low at_elems [OF a] by auto
  next
    case (Cons r R')
    obtain x y where r: "r = (x, y)" by (rule prod.exhaust)
    have xy: "x < y" "index < y" using ok' sp Cons r by (auto simp: splits_def)
    have R': "\<forall>s \<in> set R'. y < fst s" "ranges_ok R'" using ok' Cons r by auto
    have high: "spread index count (ranges_set R') = (\<lambda>x. x + count) ` ranges_set R'"
      using xy R' ranges_set_above [of R' y] by (intro spread_high) (meson less_imp_le order_trans)
    have ne: "?pos \<noteq> crv_end cs" using at_end_iff [OF a] Cons by simp
    have get: "deref cs ?pos = (x, y)" using at_deref a Cons r by blast
    have fwd: "\<forall>s \<in> set R'. fst s \<le> snd s \<and> 0 \<le> int (fst s) + int count"
      using R'(2) by (auto dest: ranges_okD less_imp_le)
    show ?thesis
    proof (cases "x \<le> index")
      case True
      let ?cs1 = "it_adjust cs ?pos 0 (int count)"
      have c1: "cur mx ?cs1 ?pos L ((x, y + count) # R')"
        using crv.cur_adjust [of mx cs ?pos L x y R' 0 "int count"] c Cons r xy by simp
      from shift_to_end_next [OF c1 fwd] obtain cs' where
        s: "shift_to_end ?cs1 (it_next ?cs1 ?pos) (int count) = Some cs'"
        "cur mx cs' ?pos L ((x, y + count) # map (shift_range (int count)) R')" by blast
      have "ranges_ok (L @ (x, y + count) # map (shift_range (int count)) R')"
        using ok' Cons r xy R' by (fastforce simp: ranges_ok_shift)
      note fin = cur_is_ok [OF s(2) this]
      have "spread index count (range_set (x, y)) \<union> {index..<index + count} = range_set (x, y + count)"
        using True xy by (subst spread_range) (auto simp: range_set_def)
      then have "elems cs' = spread index count (elems cs) \<union> {index..<index + count}"
        using fin at_elems [OF a] low high Cons r by (auto simp: ranges_set_shift)
      then show ?thesis
        using n ne get True s(1) fin by (simp add: insert_at_def Let_def)
    next
      case False
      let ?cs1 = "it_shift cs ?pos (int count)"
      have c1: "cur mx ?cs1 ?pos L ((x + count, y + count) # R')"
        using crv.cur_shift [of mx cs ?pos L x y R' "int count"] c Cons r xy by simp
      from shift_to_end_next [OF c1 fwd] obtain cs2 where
        s: "shift_to_end ?cs1 (it_next ?cs1 ?pos) (int count) = Some cs2"
        "cur mx cs2 ?pos L ((x + count, y + count) # map (shift_range (int count)) R')" by blast
      let ?R2 = "(x + count, y + count) # map (shift_range (int count)) R'"
      have "ranges_ok (L @ ?R2)"
        using ok' Cons r xy R' by (fastforce simp: ranges_ok_shift)
      moreover have "\<forall>r \<in> set ?R2. index + count < fst r"
      proof -
        have "\<forall>s \<in> set R'. index < fst s" using R'(1) xy(2) by (meson less_trans)
        then show ?thesis using False by simp
      qed
      moreover have "\<forall>r \<in> set L. snd r \<le> index" using sp by (simp add: splits_def)
      ultimately obtain cs' where f: "add_run mx count cs2 ?pos index = Some cs'" "is_ok mx cs'"
          "elems cs' = ranges_set L \<union> {index..<index + count} \<union> ranges_set ?R2"
        using add_run_ok [OF s(2)] by blast
      have "spread index count (range_set (x, y)) = range_set (x + count, y + count)"
        using False by (subst spread_high) (auto simp: range_set_def image_add_atLeastLessThan')
      then have "elems cs' = spread index count (elems cs) \<union> {index..<index + count}"
        using f(3) at_elems [OF a] low high Cons r by (auto simp: ranges_set_shift)
      then show ?thesis
        using n ne get False s(1) f by (simp add: insert_at_def Let_def)
    qed
  qed
qed

lemma shift_for_insert_at_ok [set_specs]:
  assumes ok: "is_ok mx cs" and n: "0 < count"
  shows "\<exists>cs'. shift_for_insert_at mx cs index count = Some cs' \<and> is_ok mx cs' \<and>
    elems cs' = spread index count (elems cs)"
proof -
  obtain L R where fl: "flat cs = L @ R" and a: "at mx cs (find_it cs index) L R" and sp: "splits index L R"
    using find_it_splits [OF ok] .
  let ?it = "find_it cs index"
  have c: "cur mx cs ?it L R" and ok': "ranges_ok (L @ R)" using a by (auto simp: at_def)
  have low: "spread index count (ranges_set L) = ranges_set L"
    by (rule spread_low) (rule splits_low [OF sp])
  show ?thesis
  proof (cases R)
    case Nil
    then show ?thesis
      using n at_end_iff [OF a] at_elems [OF a] low ok by (simp add: shift_for_insert_at_def)
  next
    case (Cons r R')
    obtain x y where r: "r = (x, y)" by (rule prod.exhaust)
    have xy: "x < y" "index < y" using ok' sp Cons r by (auto simp: splits_def)
    have R': "\<forall>s \<in> set R'. y < fst s" "ranges_ok R'" using ok' Cons r by auto
    have high: "spread index count (ranges_set R') = (\<lambda>x. x + count) ` ranges_set R'"
      using xy R' ranges_set_above [of R' y] by (intro spread_high) (meson less_imp_le order_trans)
    have ne: "?it \<noteq> crv_end cs" using at_end_iff [OF a] Cons by simp
    have fwd: "\<forall>s \<in> set R. fst s \<le> snd s \<and> 0 \<le> int (fst s) + int count"
      using ok' by (auto dest: ranges_okD less_imp_le)
    let ?S = "map (shift_range (int count)) R'"
    obtain cs1 where s: "shift_to_end cs ?it (int count) = Some cs1"
        and c1: "cur mx cs1 ?it L ((x + count, y + count) # ?S)"
      using shift_to_end_here [OF c fwd] Cons r by (auto simp: shift_range_def)
    have get: "deref cs1 ?it = (x + count, y + count)" using crv.cur_get [OF c1] .
    show ?thesis
    proof (cases "x < index")
      case True
      let ?cs2 = "it_set cs1 ?it x index"
      have c2: "cur mx ?cs2 (it_next ?cs2 ?it) (L @ [(x, index)]) ?S"
        using crv.cur_next [OF crv.cur_set [OF c1, of x index]] .
      have ok2: "ranges_ok ((L @ [(x, index)]) @ (index + count, y + count) # ?S)"
        using ok' Cons r True xy R' n by (fastforce simp: ranges_ok_shift)
      from crv.cur_insert [OF c2 ok2] obtain cs3 it3 where
        i: "crv_insert mx ?cs2 (it_next ?cs2 ?it) (index + count, y + count) = Some (cs3, it3)"
        and c3: "cur mx cs3 it3 (L @ [(x, index)]) ((index + count, y + count) # ?S)" by blast
      note fin = cur_is_ok [OF c3 ok2]
      have "spread index count (range_set (x, y)) = range_set (x, index) \<union> range_set (index + count, y + count)"
        using True xy by (subst spread_range) (auto simp: range_set_def)
      then have "elems cs3 = spread index count (elems cs)"
        using fin at_elems [OF a] low high Cons r by (auto simp: ranges_set_shift)
      then show ?thesis
        using n ne get s i fin True by (simp add: shift_for_insert_at_def Let_def)
    next
      case False
      have ok1: "ranges_ok (L @ (x + count, y + count) # ?S)"
        using ok' Cons r xy R' by (fastforce simp: ranges_ok_shift)
      note fin = cur_is_ok [OF c1 ok1]
      have "spread index count (range_set (x, y)) = range_set (x + count, y + count)"
        using False by (subst spread_high) (auto simp: range_set_def image_add_atLeastLessThan')
      then have "elems cs1 = spread index count (elems cs)"
        using fin at_elems [OF a] low high Cons r by (auto simp: ranges_set_shift)
      then show ?thesis
        using n ne get s fin False by (simp add: shift_for_insert_at_def Let_def)
    qed
  qed
qed

section \<open>erase_at\<close>

text \<open>The indices after an erased position move forward by one.\<close>

definition close :: "nat \<Rightarrow> nat set \<Rightarrow> nat set" where
  "close index S = {x \<in> S. x < index} \<union> (\<lambda>x. x - 1) ` {x \<in> S. index < x}"

lemma mem_close: "x \<in> close i S \<longleftrightarrow> x \<in> S \<and> x < i \<or> i \<le> x \<and> x + 1 \<in> S"
proof -
  have "x \<in> (\<lambda>x. x - 1) ` {x \<in> S. i < x} \<longleftrightarrow> i \<le> x \<and> x + 1 \<in> S"
  proof
    assume "i \<le> x \<and> x + 1 \<in> S"
    then show "x \<in> (\<lambda>x. x - 1) ` {x \<in> S. i < x}" by (intro image_eqI [of _ _ "x + 1"]) auto
  qed auto
  then show ?thesis by (auto simp: close_def)
qed

lemma close_Un [simp]: "close i (S \<union> T) = close i S \<union> close i T"
  by (auto simp: mem_close)

lemma close_low: "(\<And>x. x \<in> S \<Longrightarrow> x < i) \<Longrightarrow> close i S = S"
  by (fastforce simp: mem_close)

lemma close_above: "i < a \<Longrightarrow> close i (range_set (a, b)) = range_set (a - 1, b - 1)"
  by (auto simp: mem_close)

lemma close_in: "a \<le> i \<Longrightarrow> i < b \<Longrightarrow> close i (range_set (a, b)) = range_set (a, b - 1)"
  by (auto simp: mem_close)

lemma close_ranges_above:
  assumes "\<forall>r \<in> set R. i < fst r"
  shows "close i (ranges_set R) = ranges_set (map (shift_range (- 1)) R)"
  using assms
proof (induction R)
  case (Cons r R)
  then show ?case by (cases r) (simp add: close_above shift_range_def)
qed (simp add: close_def)

lemma ranges_ok_pred:
  "ranges_ok R \<Longrightarrow> \<forall>r \<in> set R. 0 < fst r \<Longrightarrow> ranges_ok (map (shift_range (- 1)) R)"
  by (induction R) (auto simp: diff_less_mono)

lemma shift_back_ok:
  assumes "ranges_ok (L @ [(a, b)] @ R)"
  shows "ranges_ok (L @ map (shift_range (- 1)) R)" "b - 1 = a \<or> ranges_ok (L @ (a, b - 1) # map (shift_range (- 1)) R)"
proof -
  have R: "\<forall>r \<in> set R. b < fst r" "ranges_ok R" and ab: "a < b" and L: "\<forall>l \<in> set L. snd l < a"
    using assms by auto
  have "\<forall>r \<in> set R. 0 < fst r" using R(1) by fastforce
  with R(2) have sh: "ranges_ok (map (shift_range (- 1)) R)" by (rule ranges_ok_pred)
  have "\<forall>r \<in> set R. b - 1 < fst r - 1" "\<forall>l \<in> set L. \<forall>r \<in> set R. snd l < fst r - 1"
    using R(1) ab L by fastforce+
  with sh ab L assms show "ranges_ok (L @ map (shift_range (- 1)) R)"
    "b - 1 = a \<or> ranges_ok (L @ (a, b - 1) # map (shift_range (- 1)) R)"
    by auto
qed

lemma do_erase_ok:
  assumes a: "at mx cs it L (r # R)" and sp: "splits index L (r # R)"
  shows "\<exists>cs'. do_erase cs it index = Some cs' \<and> is_ok mx cs' \<and> elems cs' = close index (elems cs)"
proof -
  obtain x y where r: "r = (x, y)" by (rule prod.exhaust)
  have c: "cur mx cs it L ((x, y) # R)" and ok: "ranges_ok (L @ (x, y) # R)"
    using a by (auto simp: at_def r)
  have get: "deref cs it = (x, y)" using crv.cur_get [OF c] .
  have start: "it = crv_begin cs \<longleftrightarrow> L = []" using crv.at_first [OF c] .
  have xy: "x < y" "index < y" using ok sp by (auto simp: splits_def r)
  have low: "close index (ranges_set L) = ranges_set L"
    by (rule close_low) (rule splits_low [OF sp])
  let ?S = "map (shift_range (- 1)) R"
  have Rpos: "\<forall>s \<in> set R. index < fst s" using ok xy by fastforce
  have high: "close index (ranges_set R) = ranges_set ?S"
    using Rpos by (rule close_ranges_above)
  have fwd: "\<forall>s \<in> set R. fst s \<le> snd s \<and> 0 \<le> int (fst s) + - 1"
    using ok Rpos by (fastforce dest: ranges_okD)
  have el: "elems cs = ranges_set L \<union> range_set (x, y) \<union> ranges_set R"
    using at_elems [OF a] by (auto simp: r)
  note bk = shift_back_ok [of L x y R] ok
  consider (one) "x \<le> index" "x + 1 = y" | (shrink) "x \<le> index" "x + 1 \<noteq> y"
    | (join) "index < x" "L \<noteq> []" "snd (last L) + 1 = x"
    | (move) "index < x" "L = [] \<or> snd (last L) + 1 \<noteq> x" by linarith
  then show ?thesis
  proof cases
    case one
    obtain cs1 it1 where e: "crv_erase cs it = (cs1, it1)" by (rule prod.exhaust)
    obtain cs' where s: "shift_to_end cs1 it1 (- 1) = Some cs'" "cur mx cs' it1 L ?S"
      using shift_to_end_here [OF crv.cur_erase [OF c e] fwd] by blast
    have "ranges_ok (L @ ?S)" using bk by simp
    note fin = cur_is_ok [OF s(2) this]
    have "close index (range_set (x, y)) = {}" using one xy by (simp add: close_in) (simp add: range_set_def)
    then have "elems cs' = close index (elems cs)" using fin el low high by simp
    then show ?thesis using one get e s(1) fin by (simp add: do_erase_def)
  next
    case shrink
    let ?cs1 = "it_adjust cs it 0 (- 1)"
    have c1: "cur mx ?cs1 it L ((x, y - 1) # R)"
      using crv.cur_adjust [OF c, of 0 "-1"] xy by simp
    obtain cs' where s: "shift_to_end ?cs1 (it_next ?cs1 it) (- 1) = Some cs'"
        "cur mx cs' it L ((x, y - 1) # ?S)"
      using shift_to_end_next [OF c1 fwd] by blast
    have "ranges_ok (L @ (x, y - 1) # ?S)" using bk shrink xy by auto
    note fin = cur_is_ok [OF s(2) this]
    have "elems cs' = close index (elems cs)"
      using fin el low high shrink xy by (auto simp: close_in)
    then show ?thesis using shrink get s(1) fin by (simp add: do_erase_def Let_def)
  next
    case join
    then obtain L0 b where L: "L = L0 @ [(b, index)]" and x: "x = index + 1"
    proof -
      have "snd (last L) \<le> index" using sp join(2) by (simp add: splits_def)
      then have "snd (last L) = index" using join by linarith
      with that join show thesis by (metis append_butlast_last_id prod.collapse)
    qed
    have b: "b < index" using ok L by auto
    have getp: "deref cs (it_prev cs it) = (b, index)" using crv.get_prev c L by blast
    let ?cs1 = "it_adjust cs (it_prev cs it) 0 (int y - int x)"
    have "cur mx ?cs1 it (L0 @ [(b, sz index (int y - int x))]) ((x, y) # R)"
      using crv.cur_adjust_prev [of mx cs it L0 b index "(x, y) # R" 0 "int y - int x"] c L b xy
      by simp
    moreover have "sz index (int y - int x) = y - 1" using x xy by (simp add: sz_def)
    ultimately have c1: "cur mx ?cs1 it (L0 @ [(b, y - 1)]) ((x, y) # R)" by simp
    obtain cs2 it2 where e: "crv_erase ?cs1 it = (cs2, it2)" by (rule prod.exhaust)
    obtain cs' where s: "shift_to_end cs2 it2 (- 1) = Some cs'" "cur mx cs' it2 (L0 @ [(b, y - 1)]) ?S"
      using shift_to_end_here [OF crv.cur_erase [OF c1 e] fwd] by blast
    have "ranges_ok (L0 @ [(b, y)] @ R)" using ok L b xy by auto
    from shift_back_ok(2) [OF this] have "ranges_ok ((L0 @ [(b, y - 1)]) @ ?S)" using b xy x by auto
    note fin = cur_is_ok [OF s(2) this]
    have "range_set (b, y - 1) = range_set (b, index) \<union> close index (range_set (x, y))"
      using b x xy by (auto simp: close_above)
    then have "elems cs' = ranges_set L \<union> close index (range_set (x, y)) \<union> ranges_set ?S"
      using fin L by auto
    then have "elems cs' = close index (elems cs)"
      using el low high by simp
    moreover have "do_erase cs it index = Some cs'"
      using join get start getp x e s(1) by (simp add: do_erase_def)
    ultimately show ?thesis using fin by blast
  next
    case move
    have fwd': "\<forall>s \<in> set ((x, y) # R). fst s \<le> snd s \<and> 0 \<le> int (fst s) + - 1"
      using fwd move xy by simp
    obtain cs' where s: "shift_to_end cs it (- 1) = Some cs'" "cur mx cs' it L (map (shift_range (- 1)) ((x, y) # R))"
      using shift_to_end_here [OF c fwd'] by blast
    have L: "\<forall>l \<in> set L. snd l < x - 1"
    proof (cases L rule: rev_cases)
      case (snoc L0 p)
      then have "snd p < x - 1" using ok move by auto
      moreover have "\<forall>l \<in> set L0. snd l < snd p" using ok snoc by (fastforce dest: ranges_okD)
      ultimately show ?thesis using snoc by (auto intro: less_trans)
    qed simp
    have "ranges_ok (map (shift_range (- 1)) ((x, y) # R))"
      using ok Rpos move by (intro ranges_ok_pred) auto
    then have "ranges_ok (L @ map (shift_range (- 1)) ((x, y) # R))"
      using L ok shift_back_ok(1) [of L x y R] by auto
    note fin = cur_is_ok [OF s(2) this]
    have "elems cs' = close index (elems cs)"
      using fin el low high move by (simp add: close_above shift_range_def Un_assoc)
    moreover have "do_erase cs it index = Some cs'"
      using move get start crv.get_prev [of mx cs it "butlast L" "last L"] c s(1)
      by (cases "L = []") (auto simp: do_erase_def)
    ultimately show ?thesis using fin by blast
  qed
qed

lemma erase_at_ok [set_specs]:
  assumes "is_ok mx cs"
  shows "\<exists>cs'. erase_at cs index = Some cs' \<and> is_ok mx cs' \<and> elems cs' = close index (elems cs)"
proof -
  obtain L R where a: "at mx cs (find_it cs index) L R" and sp: "splits index L R"
    using find_it_splits [OF assms] .
  show ?thesis
  proof (cases R)
    case Nil
    then have "close index (elems cs) = elems cs"
      using at_elems [OF a] splits_low [OF sp] by (intro close_low) auto
    with Nil show ?thesis using at_end_iff [OF a] assms by (simp add: erase_at_def)
  next
    case (Cons r R')
    then show ?thesis
      using do_erase_ok [of mx cs "find_it cs index" L r R'] a sp at_end_iff [OF a]
      by (simp add: erase_at_def)
  qed
qed

end
