(* ===== verification/IndexSetCount.thy ===== *)
theory IndexSetCount
  imports IndexSet
begin

text \<open>
  The operations of \<open>IndexSet\<close> that go through whole chunks by their cached counts
  (\<open>ObjectStore/src/index_set.cpp\<close>): \<open>count\<close>, \<open>shift\<close> and \<open>unshift\<close>, \<open>erase_or_unshift\<close>
  and \<open>add_shifted\<close>.
\<close>

section \<open>Counting and shifting\<close>

partial_function (option) count_chunk_rest ::
    "chunks \<Rightarrow> iter \<Rightarrow> nat \<Rightarrow> nat \<Rightarrow> (iter \<times> nat) option" where
  "count_chunk_rest cs it end_index ret =
     (if it \<noteq> crv_end cs \<and> snd (deref cs it) < end_index \<and> snd it \<noteq> 0
      then count_chunk_rest cs (it_next cs it) end_index (ret + (snd (deref cs it) - fst (deref cs it)))
      else Some (it, ret))"

declare count_chunk_rest.simps [code]

partial_function (option) count_chunks ::
    "chunks \<Rightarrow> iter \<Rightarrow> nat \<Rightarrow> nat \<Rightarrow> (iter \<times> nat) option" where
  "count_chunks cs it end_index ret =
     (if it \<noteq> crv_end cs \<and> cend (cs ! fst it) \<le> end_index
      then count_chunks cs (next_chunk it) end_index (ret + ccount (cs ! fst it))
      else Some (it, ret))"

declare count_chunks.simps [code]

partial_function (option) count_ranges ::
    "chunks \<Rightarrow> iter \<Rightarrow> nat \<Rightarrow> nat \<Rightarrow> (iter \<times> nat) option" where
  "count_ranges cs it end_index ret =
     (if it \<noteq> crv_end cs \<and> snd (deref cs it) \<le> end_index
      then count_ranges cs (it_next cs it) end_index (ret + (snd (deref cs it) - fst (deref cs it)))
      else Some (it, ret))"

declare count_ranges.simps [code]

definition count_tail :: "chunks \<Rightarrow> iter \<Rightarrow> nat \<Rightarrow> nat \<Rightarrow> nat option" where
  "count_tail cs it end_index ret = do {
     (it, ret) \<leftarrow> count_chunks cs it end_index ret;
     (it, ret) \<leftarrow> count_ranges cs it end_index ret;
     Some (if it \<noteq> crv_end cs \<and> fst (deref cs it) < end_index
           then ret + (end_index - fst (deref cs it)) else ret)
   }"

definition count_in :: "chunks \<Rightarrow> nat \<Rightarrow> nat \<Rightarrow> nat option" where
  "count_in cs start_index end_index =
     (let it = find_it cs start_index in
      if it = crv_end cs \<or> end_index \<le> fst (deref cs it) then Some 0
      else if end_index \<le> snd (deref cs it)
      then Some (min (snd (deref cs it)) end_index - max (fst (deref cs it)) start_index)
      else if fst (deref cs it) < start_index \<or> snd it \<noteq> 0 then do {
        let ret = snd (deref cs it) - max (fst (deref cs it)) start_index;
        (it, ret) \<leftarrow> count_chunk_rest cs (it_next cs it) end_index ret;
        let ret = (if it \<noteq> crv_end cs \<and> fst (deref cs it) < end_index \<and> snd it \<noteq> 0
                   then ret + (end_index - fst (deref cs it)) else ret);
        if it = crv_end cs \<or> end_index \<le> snd (deref cs it) then Some ret
        else count_tail cs it end_index ret
      }
      else count_tail cs it end_index 0)"

fun shift_by_ranges :: "range list \<Rightarrow> nat \<Rightarrow> nat" where
  "shift_by_ranges [] index = index"
| "shift_by_ranges (r # rs) index =
     (if index < fst r then index else shift_by_ranges rs (index + (snd r - fst r)))"

definition shift_index :: "chunks \<Rightarrow> nat \<Rightarrow> nat" where
  "shift_index cs index = shift_by_ranges (flat cs) index"

definition unshift_index :: "chunks \<Rightarrow> nat \<Rightarrow> nat option" where
  "unshift_index cs index = map_option (\<lambda>n. index - n) (count_in cs 0 index)"

section \<open>erase_or_unshift and add_shifted\<close>

partial_function (option) unshift_chunks ::
    "chunks \<Rightarrow> iter \<Rightarrow> nat \<Rightarrow> nat \<Rightarrow> (iter \<times> nat) option" where
  "unshift_chunks cs it index shifted =
     (if it \<noteq> crv_end cs \<and> cend (cs ! fst it) \<le> index
      then unshift_chunks cs (next_chunk it) index (shifted - ccount (cs ! fst it))
      else Some (it, shifted))"

declare unshift_chunks.simps [code]

partial_function (option) unshift_ranges ::
    "chunks \<Rightarrow> iter \<Rightarrow> nat \<Rightarrow> nat \<Rightarrow> (iter \<times> nat) option" where
  "unshift_ranges cs it index shifted =
     (if it \<noteq> crv_end cs \<and> snd (deref cs it) \<le> index
      then unshift_ranges cs (it_next cs it) index (shifted - (snd (deref cs it) - fst (deref cs it)))
      else Some (it, shifted))"

declare unshift_ranges.simps [code]

definition erase_or_unshift :: "chunks \<Rightarrow> nat \<Rightarrow> (chunks \<times> nat) option" where
  "erase_or_unshift cs index = do {
     (it, shifted) \<leftarrow> unshift_chunks cs (crv_begin cs) index index;
     (it, shifted) \<leftarrow> unshift_ranges cs it index shifted;
     if it = crv_end cs then Some (cs, shifted)
     else do {
       let shifted = (if fst (deref cs it) \<le> index then npos else shifted);
       cs' \<leftarrow> do_erase cs it index;
       Some (cs', shifted)
     }
   }"

text \<open>The loops of \<open>add_shifted\<close>: over whole chunks, then over ranges.\<close>

partial_function (option) add_shift_chunks :: "chunks \<Rightarrow> iter \<Rightarrow> nat \<Rightarrow> (iter \<times> nat) option" where
  "add_shift_chunks cs it index =
     (if it \<noteq> crv_end cs \<and> cend (cs ! fst it) \<le> index
      then add_shift_chunks cs (next_chunk it) (index + ccount (cs ! fst it))
      else Some (it, index))"

declare add_shift_chunks.simps [code]

partial_function (option) add_shift_ranges :: "chunks \<Rightarrow> iter \<Rightarrow> nat \<Rightarrow> (iter \<times> nat) option" where
  "add_shift_ranges cs it index =
     (if it \<noteq> crv_end cs \<and> fst (deref cs it) \<le> index
      then add_shift_ranges cs (it_next cs it) (index + (snd (deref cs it) - fst (deref cs it)))
      else Some (it, index))"

declare add_shift_ranges.simps [code]

definition add_shifted :: "nat \<Rightarrow> chunks \<Rightarrow> nat \<Rightarrow> (chunks \<times> nat) option" where
  "add_shifted mx cs index = do {
     (it, index) \<leftarrow> add_shift_chunks cs (crv_begin cs) index;
     (it, index) \<leftarrow> add_shift_ranges cs it index;
     (cs', _) \<leftarrow> do_add mx cs it index;
     Some (cs', index)
   }"

section \<open>Going through whole chunks\<close>

lemma cur_chunk:
  assumes "cur mx cs it L R" "snd it = 0" "R \<noteq> []"
  obtains R' where "R = cdata (cs ! fst it) @ R'"
    "cur mx cs (next_chunk it) (L @ cdata (cs ! fst it)) R'" "chunk_ok mx (cs ! fst it)"
    "snd (next_chunk it) = 0"
proof -
  have v: "valid_it cs it" and crv: "crv_ok mx cs" and ne: "it \<noteq> crv_end cs"
    and L: "before cs it = L" and R: "after cs it = R" and mx: "even mx" "2 \<le> mx"
    using assms crv.at_last [OF assms(1)] by (auto simp: cur_def)
  have k: "fst it < length cs" using valid_itD [OF v ne] by simp
  let ?R = "flat (drop (Suc (fst it)) cs)"
  have R': "R = cdata (cs ! fst it) @ ?R" using R k assms(2) by (simp add: after_def)
  have bef: "before cs (next_chunk it) = L @ cdata (cs ! fst it)"
    using L k assms(2) by (simp add: next_chunk_def before_def take_Suc_nth)
  have "valid_it cs (next_chunk it) \<and> after cs (next_chunk it) = ?R"
  proof (cases "Suc (fst it) < length cs")
    case True
    then have "cdata (cs ! Suc (fst it)) \<noteq> []"
      using crv_ok_nth [OF crv True] by (simp add: chunk_ok_def)
    with True show ?thesis by (simp add: next_chunk_def valid_it_def after_def drop_eq_nth_Cons [OF True])
  next
    case False
    then have "Suc (fst it) = length cs" using k by simp
    then show ?thesis by (simp add: next_chunk_def valid_it_def crv_end_def after_def)
  qed
  with bef crv mx have "cur mx cs (next_chunk it) (L @ cdata (cs ! fst it)) ?R" by (simp add: cur_def)
  with R' show thesis using that crv_ok_nth [OF crv k] by (simp add: next_chunk_def)
qed

lemma chunk_cend_le:
  assumes "chunk_ok mx c" "ranges_ok (cdata c)"
  shows "cend c \<le> i \<longleftrightarrow> (\<forall>r \<in> set (cdata c). snd r \<le> i)"
proof -
  obtain ds d where d: "cdata c = ds @ [d]" using assms(1) by (cases "cdata c" rule: rev_cases) (auto simp: chunk_ok_def)
  have "\<forall>r \<in> set ds. snd r \<le> snd d" using assms(2) d by (fastforce dest: ranges_okD)
  then show ?thesis using assms(1) d by (auto simp: chunk_ok_def)
qed

text \<open>The indices of a well-formed list of ranges below a bound.\<close>

definition below :: "range list \<Rightarrow> nat \<Rightarrow> nat" where
  "below R i = card (ranges_set R \<inter> {..<i})"

lemma below_all: "ranges_ok R \<Longrightarrow> \<forall>r \<in> set R. snd r \<le> i \<Longrightarrow> below R i = range_total R"
proof -
  assume "ranges_ok R" "\<forall>r \<in> set R. snd r \<le> i"
  then have "ranges_set R \<inter> {..<i} = ranges_set R" by (fastforce simp: mem_ranges_set)
  then show ?thesis using card_ranges_set [OF \<open>ranges_ok R\<close>] by (simp add: below_def)
qed

lemma below_none: "\<forall>r \<in> set R. i \<le> fst r \<Longrightarrow> below R i = 0"
proof -
  assume "\<forall>r \<in> set R. i \<le> fst r"
  then have "ranges_set R \<inter> {..<i} = {}" by (fastforce simp: mem_ranges_set)
  then show ?thesis by (simp add: below_def)
qed

lemma below_append: "ranges_ok (A @ B) \<Longrightarrow> below (A @ B) i = below A i + below B i"
proof -
  assume ok: "ranges_ok (A @ B)"
  then have "(ranges_set A \<inter> {..<i}) \<inter> (ranges_set B \<inter> {..<i}) = {}"
    by (fastforce simp: mem_ranges_set dest: ranges_okD)
  then show ?thesis
    by (simp add: below_def Int_Un_distrib2 card_Un_disjoint)
qed

lemma below_single: "below [r] i = min (snd r) i - fst r"
proof -
  have "ranges_set [r] \<inter> {..<i} = {fst r..<min (snd r) i}" by (auto simp: range_set_def)
  then show ?thesis by (simp add: below_def)
qed

lemma below_Cons: "ranges_ok (r # R) \<Longrightarrow> below (r # R) i = (min (snd r) i - fst r) + below R i"
  using below_append [of "[r]" R i] below_single [of r i] by simp

lemma below_le: "below R i \<le> i"
proof -
  have "below R i \<le> card {..<i}" unfolding below_def by (intro card_mono) auto
  then show ?thesis by simp
qed

section \<open>count\<close>

lemma count_ranges_ok:
  assumes "at mx cs it L R"
  shows "\<exists>it' ret'. count_ranges cs it e ret = Some (it', ret') \<and>
    (if it' \<noteq> crv_end cs \<and> fst (deref cs it') < e then ret' + (e - fst (deref cs it')) else ret') = ret + below R e"
  using assms
proof (induction R arbitrary: it L ret)
  case Nil
  then have "it = crv_end cs" using at_end_iff by blast
  then show ?case by (subst count_ranges.simps) (simp add: below_def)
next
  case (Cons r R)
  have ne: "it \<noteq> crv_end cs" and get: "deref cs it = r"
    using at_end_iff [OF Cons.prems] at_deref [OF Cons.prems] by auto
  have ok: "ranges_ok (r # R)" using Cons.prems by (simp add: at_def)
  show ?case
  proof (cases "snd r \<le> e")
    case True
    then have "count_ranges cs it e ret = count_ranges cs (it_next cs it) e (ret + (snd r - fst r))"
      using ne get by (subst count_ranges.simps) simp
    then show ?thesis
      using Cons.IH [OF at_next [OF Cons.prems], of "ret + (snd r - fst r)"] True ok
      by (simp add: below_Cons add.assoc)
  next
    case False
    then have "below R e = 0" using ok by (intro below_none) fastforce
    then show ?thesis
      using False ne get ok by (subst count_ranges.simps) (simp add: below_Cons)
  qed
qed

lemma count_chunks_ok:
  assumes "at mx cs it L R" "snd it = 0"
  shows "\<exists>it' ret' L' R'. count_chunks cs it e ret = Some (it', ret') \<and> at mx cs it' L' R' \<and>
    ret' + below R' e = ret + below R e"
  using assms
proof (induction "length R" arbitrary: it L R ret rule: less_induct)
  case less
  have c: "cur mx cs it L R" and ok: "ranges_ok (L @ R)" using less.prems by (auto simp: at_def)
  show ?case
  proof (cases "it \<noteq> crv_end cs \<and> cend (cs ! fst it) \<le> e")
    case False
    then have "count_chunks cs it e ret = Some (it, ret)" by (subst count_chunks.simps) auto
    then show ?thesis using less.prems by auto
  next
    case True
    let ?c = "cs ! fst it"
    have "R \<noteq> []" using True at_end_iff [OF less.prems(1)] by simp
    from cur_chunk [OF c less.prems(2) this] obtain R' where
      R: "R = cdata ?c @ R'" and n: "cur mx cs (next_chunk it) (L @ cdata ?c) R'"
      and ck: "chunk_ok mx ?c" and n0: "snd (next_chunk it) = 0" .
    have okc: "ranges_ok (cdata ?c @ R')" using ok R by simp
    have a: "at mx cs (next_chunk it) (L @ cdata ?c) R'" using n ok R by (simp add: at_def)
    have "below R e = ccount ?c + below R' e"
      using below_append [OF okc, of e] R True ck okc below_all [of "cdata ?c" e] chunk_cend_le [OF ck, of e]
      by (simp add: chunk_ok_def)
    moreover have "length R' < length R" using R ck by (simp add: chunk_ok_def)
    moreover have "count_chunks cs it e ret = count_chunks cs (next_chunk it) e (ret + ccount ?c)"
      using True by (subst count_chunks.simps) simp
    ultimately show ?thesis using less.hyps [OF _ a n0, of "ret + ccount ?c"] by (simp add: add.assoc)
  qed
qed

lemma count_tail_ok:
  assumes "at mx cs it L R" "snd it = 0"
  shows "count_tail cs it e ret = Some (ret + below R e)"
proof -
  obtain it1 ret1 L1 R1 where c: "count_chunks cs it e ret = Some (it1, ret1)" "at mx cs it1 L1 R1"
      "ret1 + below R1 e = ret + below R e"
    using count_chunks_ok [OF assms] by blast
  from count_ranges_ok [OF c(2), of e ret1] c show ?thesis
    by (auto simp: count_tail_def)
qed

lemma count_chunk_rest_ok:
  assumes "at mx cs it L R"
  shows "\<exists>it' ret' L' R'. count_chunk_rest cs it e ret = Some (it', ret') \<and> at mx cs it' L' R' \<and>
    ret' + below R' e = ret + below R e \<and> (R' = [] \<or> e \<le> snd (hd R') \<or> snd it' = 0) \<and>
    (\<forall>i. (\<forall>r \<in> set R. i < fst r) \<longrightarrow> (\<forall>r \<in> set R'. i < fst r))"
  using assms
proof (induction R arbitrary: it L ret)
  case Nil
  then have "it = crv_end cs" using at_end_iff by blast
  then have "count_chunk_rest cs it e ret = Some (it, ret)" by (subst count_chunk_rest.simps) simp
  moreover have "[] = [] \<or> e \<le> snd (hd ([] :: range list)) \<or> snd it = 0" by simp
  ultimately show ?case using Nil by fastforce
next
  case (Cons r R)
  have ne: "it \<noteq> crv_end cs" and get: "deref cs it = r"
    using at_end_iff [OF Cons.prems] at_deref [OF Cons.prems] by auto
  have ok: "ranges_ok (r # R)" using Cons.prems by (simp add: at_def)
  show ?case
  proof (cases "snd r < e \<and> snd it \<noteq> 0")
    case True
    then have "count_chunk_rest cs it e ret = count_chunk_rest cs (it_next cs it) e (ret + (snd r - fst r))"
      using ne get by (subst count_chunk_rest.simps) simp
    then show ?thesis
      using Cons.IH [OF at_next [OF Cons.prems], of "ret + (snd r - fst r)"] True ok
      by (fastforce simp: below_Cons add.assoc)
  next
    case False
    then have "count_chunk_rest cs it e ret = Some (it, ret)"
      using get by (subst count_chunk_rest.simps) auto
    moreover have "r # R = [] \<or> e \<le> snd (hd (r # R)) \<or> snd it = 0" using False by auto
    ultimately show ?thesis using Cons.prems by blast
  qed
qed

text \<open>The number of indices of the set in a window.\<close>

definition between :: "nat set \<Rightarrow> nat \<Rightarrow> nat \<Rightarrow> nat" where
  "between S s e = card (S \<inter> {s..<e})"

lemma between_split:
  assumes "ranges_ok (L @ R)" "splits s L R" "s \<le> e"
  shows "between (ranges_set (L @ R)) s e =
    (case R of [] \<Rightarrow> 0 | r # R' \<Rightarrow> (min (snd r) e - max (fst r) s) + below R' e)"
proof (cases R)
  case Nil
  then have "ranges_set (L @ R) \<inter> {s..<e} = {}" using splits_low [OF assms(2)] by fastforce
  with Nil show ?thesis by (simp add: between_def)
next
  case (Cons r R')
  have "s < snd r" using assms(2) Cons by (simp add: splits_def)
  moreover have above: "snd r < x" if "x \<in> ranges_set R'" for x
    using assms(1) Cons that by (fastforce simp: mem_ranges_set)
  moreover have "x < s" if "x \<in> ranges_set L" for x using splits_low [OF assms(2)] that .
  ultimately have "ranges_set L \<inter> {s..<e} = {}" "ranges_set R' \<inter> {s..<e} = ranges_set R' \<inter> {..<e}"
    "range_set r \<inter> {s..<e} = {max (fst r) s..<min (snd r) e}"
    by (auto simp: range_set_def) force+
  then have "ranges_set (L @ R) \<inter> {s..<e} =
      {max (fst r) s..<min (snd r) e} \<union> (ranges_set R' \<inter> {..<e})"
    using Cons by (simp add: Int_Un_distrib2)
  moreover have "{max (fst r) s..<min (snd r) e} \<inter> (ranges_set R' \<inter> {..<e}) = {}"
    using above by fastforce
  ultimately show ?thesis
    using Cons by (simp add: between_def below_def card_Un_disjoint)
qed

text \<open>
  The case \<open>count\<close> gets wrong: the walk over the rest of the first chunk stops at the first
  range of a later chunk, and that range straddles the end of the window.
\<close>

definition straddled :: "chunks \<Rightarrow> nat \<Rightarrow> nat \<Rightarrow> bool" where
  "straddled cs s e \<longleftrightarrow> (\<exists>c \<in> set cs. s < cbegin c \<and> cbegin c < e \<and> e \<le> snd (hd (cdata c)))"

lemma at_chunk_start:
  assumes "at mx cs it L (r # R)" "snd it = 0"
  shows "\<exists>c \<in> set cs. cbegin c = fst r \<and> hd (cdata c) = r"
proof -
  have c: "cur mx cs it L (r # R)" using assms by (simp add: at_def)
  then have "crv_ok mx cs" "valid_it cs it" by (auto simp: cur_def)
  then have k: "fst it < length cs" and ok: "chunk_ok mx (cs ! fst it)"
    using valid_itD crv_ok_nth cur_not_end [OF c] by auto
  have "cdata (cs ! fst it) \<noteq> []" "deref cs it = r" using ok crv.cur_get [OF c] by (auto simp: chunk_ok_def)
  then have "hd (cdata (cs ! fst it)) = r" using assms(2) by (simp add: deref_def hd_conv_nth)
  with ok k show ?thesis by (intro bexI [of _ "cs ! fst it"]) (auto simp: chunk_ok_def)
qed

theorem count_in_ok [set_specs]:
  assumes ok: "is_ok mx cs" and se: "s \<le> e" and str: "s = 0 \<or> \<not> straddled cs s e"
  shows "count_in cs s e = Some (between (elems cs) s e)"
proof -
  obtain L R where fl: "flat cs = L @ R" and a: "at mx cs (find_it cs s) L R" and sp: "splits s L R"
    using find_it_splits [OF ok] .
  let ?it = "find_it cs s"
  have okr: "ranges_ok (L @ R)" using a by (simp add: at_def)
  note bt = between_split [OF okr sp se, folded fl, folded elems_def]
  show ?thesis
  proof (cases R)
    case Nil
    then show ?thesis using bt at_end_iff [OF a] by (simp add: count_in_def)
  next
    case (Cons r R')
    have ne: "?it \<noteq> crv_end cs" and get: "deref cs ?it = r"
      using at_end_iff [OF a] at_deref [of mx cs ?it L r R'] a Cons by auto
    have r: "fst r < snd r" "s < snd r" and R': "\<forall>x \<in> set R'. snd r < fst x" "ranges_ok R'"
      using okr sp Cons by (auto simp: splits_def)
    note bt' = bt [unfolded Cons list.case]
    consider (out) "e \<le> fst r" | (in_first) "fst r < e" "e \<le> snd r"
      | (rest) "snd r < e" "fst r < s \<or> snd ?it \<noteq> 0" | (whole) "snd r < e" "\<not> (fst r < s \<or> snd ?it \<noteq> 0)"
      by linarith
    then show ?thesis
    proof cases
      case out
      moreover have "below R' e = 0" using out r R' by (intro below_none) fastforce
      ultimately show ?thesis using bt' get by (simp add: count_in_def)
    next
      case in_first
      moreover have "below R' e = 0" using in_first R' by (intro below_none) fastforce
      ultimately show ?thesis using bt' ne get by (simp add: count_in_def Let_def)
    next
      case whole
      then have "count_in cs s e = Some (0 + below (r # R') e)"
        using ne get r count_tail_ok [of mx cs ?it L R e 0] a Cons by (simp add: count_in_def Let_def)
      also have "0 + below (r # R') e = between (elems cs) s e"
      proof -
        have "max (fst r) s = fst r" using whole by simp
        then show ?thesis using bt' whole R' r by (simp add: below_Cons)
      qed
      finally show ?thesis .
    next
      case rest
      have s0: "s \<noteq> 0"
      proof
        assume "s = 0"
        then have "?it = crv_begin cs"
          using okr sp at_begin_iff [OF a] by (cases L) (auto simp: splits_def)
        then show False using rest \<open>s = 0\<close> by (simp add: crv_begin_def crv_end_def split: if_splits)
      qed
      let ?ret = "snd r - max (fst r) s"
      have n: "at mx cs (it_next cs ?it) (L @ [r]) R'" using at_next a Cons by blast
      obtain it1 ret1 L1 R1 where w: "count_chunk_rest cs (it_next cs ?it) e ?ret = Some (it1, ret1)"
          "at mx cs it1 L1 R1" "ret1 + below R1 e = ?ret + below R' e"
          "R1 = [] \<or> e \<le> snd (hd R1) \<or> snd it1 = 0"
          and abv: "\<forall>i. (\<forall>r \<in> set R'. i < fst r) \<longrightarrow> (\<forall>r \<in> set R1. i < fst r)"
        using count_chunk_rest_ok [OF n, of e ?ret] by blast
      have "\<forall>x \<in> set R'. s < fst x" using R' r by (meson less_trans)
      with abv have above: "\<forall>x \<in> set R1. s < fst x" by blast
      have bt2: "between (elems cs) s e = ret1 + below R1 e"
        using bt' rest w(3) r by simp
      let ?ret2 = "if it1 \<noteq> crv_end cs \<and> fst (deref cs it1) < e \<and> snd it1 \<noteq> 0
                   then ret1 + (e - fst (deref cs it1)) else ret1"
      have step: "count_in cs s e =
          (if it1 = crv_end cs \<or> e \<le> snd (deref cs it1) then Some ?ret2 else count_tail cs it1 e ?ret2)"
        using ne get rest r w(1) by (simp add: count_in_def Let_def)
      show ?thesis
      proof (cases R1)
        case Nil
        then show ?thesis using step bt2 at_end_iff [OF w(2)] by (simp add: below_def)
      next
        case (Cons x R2)
        have ne1: "it1 \<noteq> crv_end cs" and get1: "deref cs it1 = x"
          using at_end_iff [OF w(2)] at_deref w(2) Cons by auto
        have okx: "ranges_ok (x # R2)" using w(2) Cons by (simp add: at_def)
        show ?thesis
        proof (cases "e \<le> snd x")
          case True
          then have "below R2 e = 0" using okx by (intro below_none) fastforce
          then have bx: "below R1 e = e - fst x" using True okx Cons by (simp add: below_Cons)
          show ?thesis
          proof (cases "snd it1 = 0")
            case False
            then show ?thesis using step bt2 bx ne1 get1 True by auto
          next
            case start: True
            then obtain c where "c \<in> set cs" "cbegin c = fst x" "hd (cdata c) = x"
              using at_chunk_start w(2) Cons by blast
            then have "\<not> fst x < e"
              using str s0 above Cons True by (auto simp: straddled_def)
            then show ?thesis using step bt2 bx ne1 get1 True by auto
          qed
        next
          case False
          then have "snd it1 = 0" using w(4) Cons by simp
          then show ?thesis using step bt2 ne1 get1 False count_tail_ok [OF w(2)] by simp
        qed
      qed
    qed
  qed
qed

text \<open>Whatever the window is, \<open>count\<close> returns.\<close>

lemma count_in_total:
  assumes "is_ok mx cs"
  shows "\<exists>n. count_in cs s e = Some n"
proof -
  obtain L R where a: "at mx cs (find_it cs s) L R" using find_it_splits [OF assms] by blast
  let ?it = "find_it cs s"
  show ?thesis
  proof (cases "?it = crv_end cs \<or> e \<le> fst (deref cs ?it) \<or> e \<le> snd (deref cs ?it)")
    case True
    then show ?thesis by (auto simp: count_in_def Let_def)
  next
    case False
    then obtain r R' where R: "R = r # R'" using at_end_iff [OF a] by (cases R) auto
    show ?thesis
    proof (cases "fst (deref cs ?it) < s \<or> snd ?it \<noteq> 0")
      case True
      let ?ret = "snd (deref cs ?it) - max (fst (deref cs ?it)) s"
      have n: "at mx cs (it_next cs ?it) (L @ [r]) R'" using at_next a R by blast
      obtain it1 ret1 L1 R1 where w: "count_chunk_rest cs (it_next cs ?it) e ?ret = Some (it1, ret1)"
          "at mx cs it1 L1 R1" "R1 = [] \<or> e \<le> snd (hd R1) \<or> snd it1 = 0"
        using count_chunk_rest_ok [OF n, of e ?ret] by blast
      have "it1 = crv_end cs \<or> e \<le> snd (deref cs it1) \<or> snd it1 = 0"
        using w(2,3) at_end_iff [OF w(2)] at_deref by (cases R1) auto
      then show ?thesis
        using False True w(1) count_tail_ok [OF w(2), of e] by (auto simp: count_in_def Let_def)
    next
      case whole: False
      then show ?thesis using False count_tail_ok [OF a, of e 0] by (simp add: count_in_def Let_def)
    qed
  qed
qed

section \<open>Shifting past the set\<close>

text \<open>
  The number of indices below \<open>i\<close> that are not in \<open>S\<close>. For \<open>i \<notin> S\<close> it is where the row at \<open>i\<close>
  stands once the rows of \<open>S\<close> are erased.
\<close>

definition unshifted :: "nat set \<Rightarrow> nat \<Rightarrow> nat" where
  "unshifted S i = i - card (S \<inter> {..<i})"

lemma unshifted_card: "unshifted S i = card ({..<i} - S)"
  unfolding unshifted_def by (subst card_Diff_subset_Int) (auto simp: Int_commute)

lemma unshifted_strict_mono:
  assumes "i \<notin> S" "i < j"
  shows "unshifted S i < unshifted S j"
proof -
  have "{..<i} - S \<subset> {..<j} - S" using assms by auto
  then show ?thesis unfolding unshifted_card by (intro psubset_card_mono) auto
qed

lemma unshifted_inj: "i \<notin> S \<Longrightarrow> j \<notin> S \<Longrightarrow> unshifted S i = unshifted S j \<Longrightarrow> i = j"
  using unshifted_strict_mono [of i S j] unshifted_strict_mono [of j S i] by (cases i j rule: linorder_cases) auto

lemma unshifted_mono: "i \<le> j \<Longrightarrow> unshifted S i \<le> unshifted S j"
  unfolding unshifted_card by (intro card_mono) auto

lemma unshifted_zip:
  assumes "ranges_ok (L @ R)" "\<forall>r \<in> set L. snd r \<le> i" "R = [] \<or> i \<le> fst (hd R)"
  shows "unshifted (ranges_set (L @ R)) i = i - range_total L" "range_total L \<le> i"
proof -
  have "\<forall>r \<in> set R. i \<le> fst r" using assms(1,3) by (cases R) (fastforce dest: ranges_okD)+
  then have "below (L @ R) i = range_total L"
    using below_append [OF assms(1), of i] below_all [of L i] below_none [of R i] assms(1,2) by simp
  then show "unshifted (ranges_set (L @ R)) i = i - range_total L" "range_total L \<le> i"
    using below_le [of "L @ R" i] by (simp_all add: unshifted_def below_def)
qed

lemma unshift_index_ok [set_specs]:
  "is_ok mx cs \<Longrightarrow> unshift_index cs i = Some (unshifted (elems cs) i)"
  using count_in_ok [of mx cs 0 i]
  by (simp add: unshift_index_def unshifted_def between_def atLeast0LessThan)

lemma shift_by_ranges_ok:
  assumes "ranges_ok (L @ R)" "\<forall>r \<in> set L. snd r \<le> i + range_total L"
  shows "shift_by_ranges R (i + range_total L) \<notin> ranges_set (L @ R) \<and>
     unshifted (ranges_set (L @ R)) (shift_by_ranges R (i + range_total L)) = i"
  using assms
proof (induction R arbitrary: L)
  case Nil
  then have "i + range_total L \<notin> ranges_set L"
    using ranges_set_below [of L] by fastforce
  then show ?case using unshifted_zip [of L "[]" "i + range_total L"] Nil by simp
next
  case (Cons r R)
  show ?case
  proof (cases "i + range_total L < fst r")
    case True
    have "i + range_total L \<notin> ranges_set (L @ r # R)"
      using True Cons.prems ranges_set_below [of L "i + range_total L"]
      by (fastforce simp: mem_ranges_set dest: ranges_okD)
    then show ?thesis
      using True unshifted_zip [of L "r # R" "i + range_total L"] Cons.prems by simp
  next
    case False
    have "\<forall>x \<in> set (L @ [r]). snd x \<le> i + range_total (L @ [r])"
      using False Cons.prems by (auto simp: range_size_def intro: trans_le_add1)
    moreover have "ranges_ok ((L @ [r]) @ R)" using Cons.prems by simp
    ultimately show ?thesis
      using Cons.IH [of "L @ [r]"] False by (simp add: range_size_def add.assoc)
  qed
qed

lemma shift_index_ok [set_specs]:
  assumes "is_ok mx cs"
  shows "shift_index cs i \<notin> elems cs" "unshifted (elems cs) (shift_index cs i) = i"
  using shift_by_ranges_ok [of "[]" "flat cs" i] assms
  by (simp_all add: is_ok_def shift_index_def elems_def)

section \<open>erase_or_unshift\<close>

lemma unshift_chunks_ok:
  assumes "at mx cs it L R" "snd it = 0" "\<forall>r \<in> set L. snd r \<le> i"
  shows "\<exists>it' L' R'. unshift_chunks cs it i (i - range_total L) = Some (it', i - range_total L') \<and>
     at mx cs it' L' R' \<and> (\<forall>r \<in> set L'. snd r \<le> i)"
  using assms
proof (induction "length R" arbitrary: it L R rule: less_induct)
  case less
  have c: "cur mx cs it L R" and ok: "ranges_ok (L @ R)" using less.prems by (auto simp: at_def)
  show ?case
  proof (cases "it \<noteq> crv_end cs \<and> cend (cs ! fst it) \<le> i")
    case False
    then have "unshift_chunks cs it i (i - range_total L) = Some (it, i - range_total L)"
      by (subst unshift_chunks.simps) auto
    then show ?thesis using less.prems by blast
  next
    case True
    let ?c = "cs ! fst it"
    have "R \<noteq> []" using True at_end_iff [OF less.prems(1)] by simp
    from cur_chunk [OF c less.prems(2) this] obtain R' where
      R: "R = cdata ?c @ R'" and n: "cur mx cs (next_chunk it) (L @ cdata ?c) R'"
      and ck: "chunk_ok mx ?c" and n0: "snd (next_chunk it) = 0" .
    have okc: "ranges_ok (cdata ?c)" using ok R by simp
    have a: "at mx cs (next_chunk it) (L @ cdata ?c) R'" using n ok R by (simp add: at_def)
    have low: "\<forall>r \<in> set (L @ cdata ?c). snd r \<le> i"
      using less.prems(3) True chunk_cend_le [OF ck okc] by auto
    have "length R' < length R" using R ck by (simp add: chunk_ok_def)
    moreover have "unshift_chunks cs it i (i - range_total L) =
        unshift_chunks cs (next_chunk it) i (i - range_total (L @ cdata ?c))"
      using True ck by (subst unshift_chunks.simps) (simp add: chunk_ok_def)
    ultimately show ?thesis using less.hyps [OF _ a n0 low] by simp
  qed
qed

lemma unshift_ranges_ok:
  assumes "at mx cs it L R" "\<forall>r \<in> set L. snd r \<le> i"
  shows "\<exists>it' L' R'. unshift_ranges cs it i (i - range_total L) = Some (it', i - range_total L') \<and>
     at mx cs it' L' R' \<and> splits i L' R'"
  using assms
proof (induction R arbitrary: it L)
  case Nil
  then have "it = crv_end cs" using at_end_iff by blast
  then have "unshift_ranges cs it i (i - range_total L) = Some (it, i - range_total L)"
    by (subst unshift_ranges.simps) simp
  moreover have "splits i L []" using Nil.prems by (simp add: splits_def)
  ultimately show ?case using Nil.prems by blast
next
  case (Cons r R)
  have ne: "it \<noteq> crv_end cs" and get: "deref cs it = r"
    using at_end_iff [OF Cons.prems(1)] at_deref [OF Cons.prems(1)] by auto
  have ok: "ranges_ok (r # R)" using Cons.prems by (simp add: at_def)
  show ?case
  proof (cases "snd r \<le> i")
    case True
    then have "unshift_ranges cs it i (i - range_total L) =
        unshift_ranges cs (it_next cs it) i (i - range_total (L @ [r]))"
      using ne get by (subst unshift_ranges.simps) (simp add: range_size_def)
    then show ?thesis
      using Cons.IH [OF at_next [OF Cons.prems(1)]] Cons.prems(2) True by simp
  next
    case False
    then have "unshift_ranges cs it i (i - range_total L) = Some (it, i - range_total L)"
      using ne get by (subst unshift_ranges.simps) simp
    moreover have "splits i L (r # R)"
      using ok Cons.prems(2) False by (fastforce simp: splits_def dest: ranges_okD)
    ultimately show ?thesis using Cons.prems by blast
  qed
qed

lemma begin_offset [simp]: "snd (crv_begin cs) = 0"
  by (simp add: crv_begin_def crv_end_def)

lemma erase_or_unshift_ok [set_specs]:
  assumes "is_ok mx cs"
  shows "\<exists>cs'. erase_or_unshift cs i =
     Some (cs', if i \<in> elems cs then npos else unshifted (elems cs) i) \<and>
     is_ok mx cs' \<and> elems cs' = close i (elems cs)"
proof -
  obtain it1 L1 R1 where 1: "unshift_chunks cs (crv_begin cs) i i = Some (it1, i - range_total L1)"
      "at mx cs it1 L1 R1" "\<forall>r \<in> set L1. snd r \<le> i"
    using unshift_chunks_ok [OF at_begin [OF assms] begin_offset, of i] by auto
  obtain it L R where 2: "unshift_ranges cs it1 i (i - range_total L1) = Some (it, i - range_total L)"
      and a: "at mx cs it L R" and sp: "splits i L R"
    using unshift_ranges_ok [OF 1(2,3)] by blast
  have ok: "ranges_ok (L @ R)" using a by (simp add: at_def)
  have fl: "flat cs = L @ R" using at_is_ok [OF a] by simp
  note mem = splits_mem [OF sp ok, folded fl, folded elems_def]
  have un: "unshifted (elems cs) i = i - range_total L" if "i \<notin> elems cs"
    using unshifted_zip(1) [OF ok, of i] sp that mem unfolding elems_def fl
    by (auto simp: splits_def)
  show ?thesis
  proof (cases R)
    case Nil
    then have "close i (elems cs) = elems cs"
      using at_elems [OF a] splits_low [OF sp] by (intro close_low) auto
    moreover have "it = crv_end cs" using at_end_iff [OF a] Nil by simp
    ultimately show ?thesis
      using 1(1) 2 assms un mem Nil by (simp add: erase_or_unshift_def)
  next
    case (Cons r R')
    have get: "deref cs it = r" and ne: "it \<noteq> crv_end cs"
      using at_deref at_end_iff [OF a] a Cons by auto
    obtain cs' where e: "do_erase cs it i = Some cs'" "is_ok mx cs'" "elems cs' = close i (elems cs)"
      using do_erase_ok a sp Cons by blast
    have "(if fst r \<le> i then npos else i - range_total L) =
        (if i \<in> elems cs then npos else unshifted (elems cs) i)"
      using mem un Cons by auto
    then show ?thesis
      using 1(1) 2 e get ne by (simp add: erase_or_unshift_def)
  qed
qed

section \<open>add_shifted\<close>

lemma add_shift_chunks_ok:
  assumes "at mx cs it L R" "snd it = 0" "\<forall>r \<in> set L. snd r \<le> i + range_total L"
  shows "\<exists>it' L' R'. add_shift_chunks cs it (i + range_total L) = Some (it', i + range_total L') \<and>
     at mx cs it' L' R' \<and> (\<forall>r \<in> set L'. snd r \<le> i + range_total L')"
  using assms
proof (induction "length R" arbitrary: it L R rule: less_induct)
  case less
  have c: "cur mx cs it L R" and ok: "ranges_ok (L @ R)" using less.prems by (auto simp: at_def)
  show ?case
  proof (cases "it \<noteq> crv_end cs \<and> cend (cs ! fst it) \<le> i + range_total L")
    case False
    then have "add_shift_chunks cs it (i + range_total L) = Some (it, i + range_total L)"
      by (subst add_shift_chunks.simps) auto
    then show ?thesis using less.prems by blast
  next
    case True
    let ?c = "cs ! fst it"
    have "R \<noteq> []" using True at_end_iff [OF less.prems(1)] by simp
    from cur_chunk [OF c less.prems(2) this] obtain R' where
      R: "R = cdata ?c @ R'" and n: "cur mx cs (next_chunk it) (L @ cdata ?c) R'"
      and ck: "chunk_ok mx ?c" and n0: "snd (next_chunk it) = 0" .
    have okc: "ranges_ok (cdata ?c)" using ok R by simp
    have a: "at mx cs (next_chunk it) (L @ cdata ?c) R'" using n ok R by (simp add: at_def)
    have low: "\<forall>r \<in> set (L @ cdata ?c). snd r \<le> i + range_total (L @ cdata ?c)"
      using less.prems(3) True chunk_cend_le [OF ck okc, of "i + range_total L"] by (fastforce intro: trans_le_add1)
    have "length R' < length R" using R ck by (simp add: chunk_ok_def)
    moreover have "add_shift_chunks cs it (i + range_total L) =
        add_shift_chunks cs (next_chunk it) (i + range_total (L @ cdata ?c))"
      using True ck by (subst add_shift_chunks.simps) (simp add: chunk_ok_def add.assoc)
    ultimately show ?thesis using less.hyps [OF _ a n0 low] by simp
  qed
qed

lemma add_shift_ranges_ok:
  assumes "at mx cs it L R" "\<forall>r \<in> set L. snd r \<le> i + range_total L"
  shows "\<exists>it' L' R'. add_shift_ranges cs it (i + range_total L) = Some (it', i + range_total L') \<and>
     at mx cs it' L' R' \<and> splits (i + range_total L') L' R' \<and> (R' = [] \<or> i + range_total L' < fst (hd R'))"
  using assms
proof (induction R arbitrary: it L)
  case Nil
  then have "it = crv_end cs" using at_end_iff by blast
  then have "add_shift_ranges cs it (i + range_total L) = Some (it, i + range_total L)"
    by (subst add_shift_ranges.simps) simp
  moreover have "splits (i + range_total L) L []" using Nil.prems by (simp add: splits_def)
  ultimately show ?case using Nil.prems by blast
next
  case (Cons r R)
  have ne: "it \<noteq> crv_end cs" and get: "deref cs it = r"
    using at_end_iff [OF Cons.prems(1)] at_deref [OF Cons.prems(1)] by auto
  have ok: "ranges_ok (r # R)" using Cons.prems by (simp add: at_def)
  show ?case
  proof (cases "fst r \<le> i + range_total L")
    case True
    then have "add_shift_ranges cs it (i + range_total L) =
        add_shift_ranges cs (it_next cs it) (i + range_total (L @ [r]))"
      using ne get by (subst add_shift_ranges.simps) (simp add: range_size_def add.assoc)
    moreover have "\<forall>x \<in> set (L @ [r]). snd x \<le> i + range_total (L @ [r])"
      using Cons.prems(2) True ok by (auto simp: range_size_def intro: trans_le_add1)
    ultimately show ?thesis
      using Cons.IH [OF at_next [OF Cons.prems(1)]] by simp
  next
    case False
    then have "add_shift_ranges cs it (i + range_total L) = Some (it, i + range_total L)"
      using ne get by (subst add_shift_ranges.simps) simp
    moreover have "splits (i + range_total L) L (r # R)"
      using ok Cons.prems(2) False by (fastforce simp: splits_def dest: ranges_okD)
    moreover have "i + range_total L < fst (hd (r # R))" using False by simp
    ultimately show ?thesis using Cons.prems by blast
  qed
qed

lemma add_shifted_ok [set_specs]:
  assumes "is_ok mx cs"
  shows "\<exists>cs' j. add_shifted mx cs i = Some (cs', j) \<and> is_ok mx cs' \<and> elems cs' = insert j (elems cs) \<and>
     j \<notin> elems cs \<and> unshifted (elems cs) j = i"
proof -
  obtain it1 L1 R1 where 1: "add_shift_chunks cs (crv_begin cs) i = Some (it1, i + range_total L1)"
      "at mx cs it1 L1 R1" "\<forall>r \<in> set L1. snd r \<le> i + range_total L1"
    using add_shift_chunks_ok [OF at_begin [OF assms] begin_offset, of i] by auto
  obtain it L R where 2: "add_shift_ranges cs it1 (i + range_total L1) = Some (it, i + range_total L)"
      and a: "at mx cs it L R" and sp: "splits (i + range_total L) L R"
      and gap: "R = [] \<or> i + range_total L < fst (hd R)"
    using add_shift_ranges_ok [OF 1(2,3)] by blast
  have ok: "ranges_ok (L @ R)" using a by (simp add: at_def)
  have fl: "flat cs = L @ R" using at_is_ok [OF a] by simp
  obtain cs' it' L' R' where d: "do_add mx cs it (i + range_total L) = Some (cs', it')"
      "at mx cs' it' L' R'" "elems cs' = insert (i + range_total L) (elems cs)"
    using do_add_at [OF a sp] .
  have "i + range_total L \<notin> elems cs"
    using splits_mem [OF sp ok] gap unfolding elems_def fl by auto
  moreover have "unshifted (elems cs) (i + range_total L) = i"
    using unshifted_zip(1) [OF ok, of "i + range_total L"] sp gap unfolding elems_def fl
    by (auto simp: splits_def)
  ultimately show ?thesis
    using 1(1) 2 d at_is_ok [OF d(2)] by (simp add: add_shifted_def)
qed

section \<open>A window that ends in the first range of a later chunk\<close>

definition straddle_example :: chunks where
  "straddle_example =
     [\<lparr>cdata = [(0, 2), (4, 6)], cbegin = 0, cend = 6, ccount = 4\<rparr>,
      \<lparr>cdata = [(8, 12)], cbegin = 8, cend = 12, ccount = 4\<rparr>]"

lemma straddle_example_ok: "even mx \<Longrightarrow> 2 \<le> mx \<Longrightarrow> is_ok mx straddle_example"
  by (simp add: is_ok_def straddle_example_def chunk_ok_def range_size_def)

lemma straddle_example_count: "count_in straddle_example 1 10 = Some 3"
  by (simp add: count_in_def straddle_example_def find_it_def find_from_def crv_begin_def crv_end_def
      deref_def it_next_def next_chunk_def count_chunk_rest.simps Let_def)

lemma straddle_example_between: "between (elems straddle_example) 1 10 = 5"
proof -
  have "elems straddle_example \<inter> {1..<10} = {1, 4, 5, 8, 9}"
    by (auto simp: elems_def straddle_example_def)
  then show ?thesis by (simp add: between_def)
qed

end
