(* ===== verification/IndexSetMerge.thy ===== *)
theory IndexSetMerge
  imports IndexSetCount
begin

text \<open>
  The operations of \<open>IndexSet\<close> that merge two whole sets
  (\<open>ObjectStore/src/index_set.cpp\<close>): \<open>ChunkedRangeVectorBuilder\<close>, the iterator
  \<open>IndexIterator\<close> over single indices, and \<open>insert_at\<close>, \<open>shift_for_insert_at\<close> and \<open>erase_at\<close>
  of a set of positions, and \<open>add_shifted_by\<close>.
\<close>

section \<open>The builder\<close>

record builder =
  bdata :: chunks
  outer_pos :: nat

definition empty_chunk :: chunk where
  "empty_chunk = \<lparr>cdata = [], cbegin = 0, cend = 0, ccount = 0\<rparr>"

definition builder_new :: "nat \<Rightarrow> chunks \<Rightarrow> builder" where
  "builder_new mx expected =
     (let size = sum_list (map (\<lambda>chunk. length (cdata chunk)) expected)
      in \<lparr>bdata = replicate (size div mx + 1) empty_chunk, outer_pos = 0\<rparr>)"

definition push_range :: "nat \<Rightarrow> builder \<Rightarrow> range \<Rightarrow> builder" where
  "push_range mx b r =
     (let pos = outer_pos b; chunk = bdata b ! pos in
      if cdata chunk = [] then
        b\<lparr>bdata := (bdata b)[pos := chunk\<lparr>cdata := [r], ccount := snd r - fst r,
          cbegin := fst r\<rparr>]\<rparr>
      else if fst r = snd (last (cdata chunk)) then
        b\<lparr>bdata := (bdata b)[pos := chunk\<lparr>
          cdata := butlast (cdata chunk) @ [(fst (last (cdata chunk)), snd r)],
          ccount := ccount chunk + (snd r - fst r)\<rparr>]\<rparr>
      else if length (cdata chunk) < mx then
        b\<lparr>bdata := (bdata b)[pos := chunk\<lparr>cdata := cdata chunk @ [r],
          ccount := ccount chunk + (snd r - fst r)\<rparr>]\<rparr>
      else
        let data = (bdata b)[pos := chunk\<lparr>cend := snd (last (cdata chunk))\<rparr>]; pos = pos + 1 in
        if length data \<le> pos then
          \<lparr>bdata = data @ [\<lparr>cdata = [r], cbegin = fst r, cend = 0, ccount = 1\<rparr>],
            outer_pos = pos\<rparr>
        else
          \<lparr>bdata = data[pos := (data ! pos)\<lparr>cdata := cdata (data ! pos) @ [r], cbegin := fst r,
            ccount := snd r - fst r\<rparr>], outer_pos = pos\<rparr>)"

definition push_index :: "nat \<Rightarrow> builder \<Rightarrow> nat \<Rightarrow> builder" where
  "push_index mx b index = push_range mx b (index, index + 1)"

definition finalize :: "builder \<Rightarrow> chunks" where
  "finalize b =
     (if bdata b = [] then []
      else
        let data = take (outer_pos b + 1) (bdata b) @
          replicate (outer_pos b + 1 - length (bdata b)) empty_chunk in
        if cdata (last data) = [] then butlast data
        else butlast data @ [(last data)\<lparr>cend := snd (last (cdata (last data)))\<rparr>])"

section \<open>Iterating over single indices\<close>

text \<open>An \<open>IndexIterator\<close> is a range iterator and an offset into the range under it.\<close>

type_synonym index_iter = "iter \<times> nat"

definition ii_get :: "chunks \<Rightarrow> index_iter \<Rightarrow> nat" where
  "ii_get cs p = fst (deref cs (fst p)) + snd p"

definition ii_eq :: "index_iter \<Rightarrow> index_iter \<Rightarrow> bool" where
  "ii_eq p q \<longleftrightarrow> fst p = fst q"

definition ii_next :: "chunks \<Rightarrow> index_iter \<Rightarrow> index_iter" where
  "ii_next cs p =
     (let off = snd p + 1 in
      if fst (deref cs (fst p)) + off = snd (deref cs (fst p)) then (it_next cs (fst p), 0)
      else (fst p, off))"

definition ii_begin :: "chunks \<Rightarrow> index_iter" where
  "ii_begin cs = (crv_begin cs, 0)"

definition ii_end :: "chunks \<Rightarrow> index_iter" where
  "ii_end cs = (crv_end cs, 0)"

section \<open>Merging two sets\<close>

text \<open>The loops that copy what is left of one set, every index moved by \<open>f\<close>.\<close>

partial_function (option) copy_rest ::
    "nat \<Rightarrow> (nat \<Rightarrow> nat) \<Rightarrow> chunks \<Rightarrow> index_iter \<Rightarrow> builder \<Rightarrow> builder option" where
  "copy_rest mx f cs p b =
     (if \<not> ii_eq p (ii_end cs)
      then copy_rest mx f cs (ii_next cs p) (push_index mx b (f (ii_get cs p)))
      else Some b)"

declare copy_rest.simps [code]

partial_function (option) insert_loop ::
    "nat \<Rightarrow> chunks \<Rightarrow> chunks \<Rightarrow> index_iter \<Rightarrow> index_iter \<Rightarrow> nat \<Rightarrow> builder \<Rightarrow>
     (index_iter \<times> index_iter \<times> nat \<times> builder) option" where
  "insert_loop mx cs1 cs2 begin1 begin2 shift b =
     (if \<not> ii_eq begin1 (ii_end cs1) \<and> \<not> ii_eq begin2 (ii_end cs2) then
        if ii_get cs1 begin1 + shift < ii_get cs2 begin2
        then insert_loop mx cs1 cs2 (ii_next cs1 begin1) begin2 shift
          (push_index mx b (ii_get cs1 begin1 + shift))
        else insert_loop mx cs1 cs2 begin1 (ii_next cs2 begin2) (shift + 1)
          (push_index mx b (ii_get cs2 begin2))
      else Some (begin1, begin2, shift, b))"

declare insert_loop.simps [code]

definition insert_at_all :: "nat \<Rightarrow> chunks \<Rightarrow> chunks \<Rightarrow> chunks option" where
  "insert_at_all mx cs positions =
     (if crv_empty positions then Some cs
      else if crv_empty cs then Some positions
      else do {
        (begin1, begin2, shift, b) \<leftarrow>
          insert_loop mx cs positions (ii_begin cs) (ii_begin positions) 0 (builder_new mx cs);
        b \<leftarrow> copy_rest mx (\<lambda>i. i + shift) cs begin1 b;
        b \<leftarrow> copy_rest mx (\<lambda>i. i) positions begin2 b;
        Some (finalize b)
      })"

partial_function (option) shift_loop ::
    "nat \<Rightarrow> chunks \<Rightarrow> chunks \<Rightarrow> index_iter \<Rightarrow> index_iter \<Rightarrow> nat \<Rightarrow> builder \<Rightarrow>
     (index_iter \<times> index_iter \<times> nat \<times> builder) option" where
  "shift_loop mx cs1 cs2 begin1 begin2 shift b =
     (if \<not> ii_eq begin1 (ii_end cs1) \<and> \<not> ii_eq begin2 (ii_end cs2) then
        if ii_get cs1 begin1 + shift < ii_get cs2 begin2
        then shift_loop mx cs1 cs2 (ii_next cs1 begin1) begin2 shift
          (push_index mx b (ii_get cs1 begin1 + shift))
        else shift_loop mx cs1 cs2 begin1 (ii_next cs2 begin2) (shift + 1) b
      else Some (begin1, begin2, shift, b))"

declare shift_loop.simps [code]

definition shift_for_insert_at_all :: "nat \<Rightarrow> chunks \<Rightarrow> chunks \<Rightarrow> chunks option" where
  "shift_for_insert_at_all mx cs values =
     (if crv_empty cs \<or> crv_empty values then Some cs
      else if cend (last cs) \<le> cbegin (hd values) then Some cs
      else do {
        (begin1, begin2, shift, b) \<leftarrow>
          shift_loop mx cs values (ii_begin cs) (ii_begin values) 0 (builder_new mx cs);
        b \<leftarrow> copy_rest mx (\<lambda>i. i + shift) cs begin1 b;
        Some (finalize b)
      })"

partial_function (option) erase_loop ::
    "nat \<Rightarrow> chunks \<Rightarrow> chunks \<Rightarrow> index_iter \<Rightarrow> index_iter \<Rightarrow> nat \<Rightarrow> builder \<Rightarrow>
     (index_iter \<times> index_iter \<times> nat \<times> builder) option" where
  "erase_loop mx cs1 cs2 begin1 begin2 shift b =
     (if \<not> ii_eq begin1 (ii_end cs1) \<and> \<not> ii_eq begin2 (ii_end cs2) then
        if ii_get cs1 begin1 < ii_get cs2 begin2
        then erase_loop mx cs1 cs2 (ii_next cs1 begin1) begin2 shift
          (push_index mx b (ii_get cs1 begin1 - shift))
        else if ii_get cs1 begin1 = ii_get cs2 begin2
        then erase_loop mx cs1 cs2 (ii_next cs1 begin1) (ii_next cs2 begin2) (shift + 1) b
        else erase_loop mx cs1 cs2 begin1 (ii_next cs2 begin2) (shift + 1) b
      else Some (begin1, begin2, shift, b))"

declare erase_loop.simps [code]

definition erase_at_all :: "nat \<Rightarrow> chunks \<Rightarrow> chunks \<Rightarrow> chunks option" where
  "erase_at_all mx cs positions =
     (if crv_empty cs \<or> crv_empty positions then Some cs
      else do {
        (begin1, begin2, shift, b) \<leftarrow>
          erase_loop mx cs positions (ii_begin cs) (ii_begin positions) 0 (builder_new mx cs);
        b \<leftarrow> copy_rest mx (\<lambda>i. i - shift) cs begin1 b;
        Some (finalize b)
      })"

section \<open>add_shifted_by\<close>

text \<open>
  \<open>skip_shifted\<close> is the loop over \<open>shift_it\<close>, \<open>copy_old\<close> the one over \<open>old_it\<close>, and
  \<open>add_shifted_loop\<close> the outer loop over the indices of \<open>values\<close>.
\<close>

partial_function (option) skip_shifted ::
    "chunks \<Rightarrow> iter \<Rightarrow> nat \<Rightarrow> nat \<Rightarrow> nat \<Rightarrow> (iter \<times> nat \<times> nat) option" where
  "skip_shifted cs it index new_shift skip_until =
     (if it \<noteq> crv_end cs \<and> fst (deref cs it) \<le> index
      then skip_shifted cs (it_next cs it) index
        (new_shift + (snd (deref cs it) - fst (deref cs it))) (snd (deref cs it))
      else Some (it, new_shift, skip_until))"

declare skip_shifted.simps [code]

partial_function (option) copy_old ::
    "nat \<Rightarrow> chunks \<Rightarrow> iter \<Rightarrow> nat \<Rightarrow> nat \<Rightarrow> builder \<Rightarrow> (iter \<times> nat \<times> builder) option" where
  "copy_old mx cs it index old_shift b =
     (if it \<noteq> crv_end cs \<and> fst (deref cs it) \<le> index + old_shift
      then copy_old mx cs (it_next cs it) index
        (old_shift + (snd (deref cs it) - fst (deref cs it)))
        (foldl (push_index mx) b [fst (deref cs it)..<snd (deref cs it)])
      else Some (it, old_shift, b))"

declare copy_old.simps [code]

fun add_shifted_loop ::
    "nat \<Rightarrow> chunks \<Rightarrow> chunks \<Rightarrow> iter \<Rightarrow> iter \<Rightarrow> nat \<Rightarrow> nat \<Rightarrow> nat \<Rightarrow> builder \<Rightarrow> nat list \<Rightarrow>
     (iter \<times> builder) option" where
  "add_shifted_loop mx cs by old_it shift_it skip_until old_shift new_shift b [] = Some (old_it, b)"
| "add_shifted_loop mx cs by old_it shift_it skip_until old_shift new_shift b (index # rest) = do {
     (shift_it, new_shift, skip_until) \<leftarrow> skip_shifted by shift_it index new_shift skip_until;
     if index < skip_until
     then add_shifted_loop mx cs by old_it shift_it skip_until old_shift new_shift b rest
     else do {
       (old_it, old_shift, b) \<leftarrow> copy_old mx cs old_it (index - new_shift) old_shift b;
       realm_assert (new_shift \<le> index);
       add_shifted_loop mx cs by old_it shift_it skip_until old_shift new_shift
         (push_index mx b (index - new_shift + old_shift)) rest
     }
   }"

partial_function (option) copy_ranges :: "nat \<Rightarrow> chunks \<Rightarrow> iter \<Rightarrow> builder \<Rightarrow> builder option" where
  "copy_ranges mx cs it b =
     (if it \<noteq> crv_end cs then copy_ranges mx cs (it_next cs it) (push_range mx b (deref cs it))
      else Some b)"

declare copy_ranges.simps [code]

definition add_shifted_by :: "nat \<Rightarrow> chunks \<Rightarrow> chunks \<Rightarrow> chunks \<Rightarrow> chunks option" where
  "add_shifted_by mx cs shifted_by values =
     (if crv_empty values then Some cs
      else do {
        (old_it, b) \<leftarrow> add_shifted_loop mx cs shifted_by (crv_begin cs) (crv_begin shifted_by)
          0 0 0 (builder_new mx cs) (as_indexes values);
        b \<leftarrow> copy_ranges mx cs old_it b;
        Some (finalize b)
      })"

section \<open>What the builder builds\<close>

definition push_norm :: "range list \<Rightarrow> range \<Rightarrow> range list" where
  "push_norm rs r =
     (if rs \<noteq> [] \<and> fst r = snd (last rs) then butlast rs @ [(fst (last rs), snd r)] else rs @ [r])"

lemma push_norm_ok:
  assumes "ranges_ok rs" "fst r < snd r" "\<forall>s \<in> set rs. snd s \<le> fst r"
  shows "ranges_ok (push_norm rs r)" "ranges_set (push_norm rs r) = ranges_set rs \<union> range_set r"
    "\<forall>s \<in> set (push_norm rs r). snd s \<le> snd r"
proof -
  consider "rs = []" | ss l where "rs = ss @ [l]" by (cases rs rule: rev_cases) auto
  then have "ranges_ok (push_norm rs r) \<and> ranges_set (push_norm rs r) = ranges_set rs \<union> range_set r \<and>
      (\<forall>s \<in> set (push_norm rs r). snd s \<le> snd r)"
  proof cases
    case 2
    show ?thesis
    proof (cases "fst r = snd l")
      case True
      then have "range_set l \<union> range_set r = range_set (fst l, snd r)"
        using assms 2 by auto
      then show ?thesis using True assms 2 by (auto simp: push_norm_def)
    next
      case False
      then have "\<forall>s \<in> set rs. snd s < fst r" using assms 2 by fastforce
      then show ?thesis using False assms 2 by (auto simp: push_norm_def)
    qed
  qed (use assms in \<open>simp add: push_norm_def\<close>)
  then show "ranges_ok (push_norm rs r)" "ranges_set (push_norm rs r) = ranges_set rs \<union> range_set r"
    "\<forall>s \<in> set (push_norm rs r). snd s \<le> snd r" by auto
qed

text \<open>
  The chunk that is being filled has no \<open>end\<close> yet. The flag \<open>g\<close> says that the cached counts
  are right: \<open>push_range\<close> gives a chunk it appends the count 1 whatever the range is.
\<close>

definition closed_chunk :: "bool \<Rightarrow> nat \<Rightarrow> chunk \<Rightarrow> bool" where
  "closed_chunk g mx c \<longleftrightarrow> cdata c \<noteq> [] \<and> length (cdata c) \<le> mx \<and> cbegin c = fst (hd (cdata c)) \<and>
     cend c = snd (last (cdata c)) \<and> (g \<longrightarrow> ccount c = range_total (cdata c))"

definition open_chunk :: "bool \<Rightarrow> nat \<Rightarrow> chunk \<Rightarrow> bool" where
  "open_chunk g mx c \<longleftrightarrow> length (cdata c) \<le> mx \<and>
     (cdata c \<noteq> [] \<longrightarrow> cbegin c = fst (hd (cdata c)) \<and> (g \<longrightarrow> ccount c = range_total (cdata c)))"

definition building :: "bool \<Rightarrow> nat \<Rightarrow> nat \<Rightarrow> builder \<Rightarrow> range list \<Rightarrow> bool" where
  "building g mx n b rs \<longleftrightarrow> (\<exists>A c E. bdata b = A @ c # E \<and> length A = outer_pos b \<and> n \<le> length (bdata b) \<and>
     (\<forall>a \<in> set A. closed_chunk g mx a \<and> length (cdata a) = mx) \<and> (\<forall>e \<in> set E. cdata e = []) \<and>
     open_chunk g mx c \<and> (cdata c = [] \<longrightarrow> A = []) \<and> rs = flat A @ cdata c)"

lemma buildingI:
  assumes "bdata b = A @ c # E" "length A = outer_pos b" "n \<le> length (bdata b)" 
    "\<forall>a \<in> set A. closed_chunk g mx a \<and> length (cdata a) = mx" "\<forall>e \<in> set E. cdata e = []" "open_chunk g mx c"
    "cdata c = [] \<longrightarrow> A = []" "rs = flat A @ cdata c"
  shows "building g mx n b rs"
  using assms unfolding building_def by blast

lemma building_new: "building g mx (bdata_len div mx + 1)
    \<lparr>bdata = replicate (bdata_len div mx + 1) empty_chunk, outer_pos = 0\<rparr> []"
  by (rule buildingI [of _ "[]" empty_chunk "replicate (bdata_len div mx) empty_chunk"])
    (simp_all add: open_chunk_def empty_chunk_def)

lemma length_flat_full: "\<forall>a \<in> set A. P a \<and> length (cdata a) = mx \<Longrightarrow> length (flat A) = length A * mx"
  by (induction A) auto

lemma building_push:
  assumes b: "building g mx n b rs" and ok: "ranges_ok rs" and r: "fst r < snd r" and mx: "2 \<le> mx"
    and fits: "g \<longrightarrow> range_size r = 1 \<or> length (push_norm rs r) \<le> mx * n"
  shows "building g mx n (push_range mx b r) (push_norm rs r)"
proof -
  obtain A c E where B: "bdata b = A @ c # E" and p: "outer_pos b = length A" and n: "n \<le> length (bdata b)"
    and A: "\<forall>a \<in> set A. closed_chunk g mx a \<and> length (cdata a) = mx" and E: "\<forall>e \<in> set E. cdata e = []"
    and c: "open_chunk g mx c" "cdata c = [] \<longrightarrow> A = []" and rs: "rs = flat A @ cdata c"
    using b by (auto simp: building_def)
  note d = push_range_def push_norm_def open_chunk_def Let_def
  show ?thesis
  proof (cases "cdata c = []")
    case True
    show ?thesis
      by (rule buildingI [of _ A "c\<lparr>cdata := [r], ccount := snd r - fst r, cbegin := fst r\<rparr>" E])
        (use True B p n A E c rs mx in \<open>simp_all add: d range_size_def\<close>)
  next
    case False
    then obtain ds l where l: "cdata c = ds @ [l]" by (cases "cdata c" rule: rev_cases) auto
    have tot: "range_total (ds @ [(fst l, snd r)]) = range_total (ds @ [l]) + (snd r - fst r)"
      if "fst r = snd l" using ok rs l r that by (simp add: range_size_def)
    consider (join) "fst r = snd l" | (room) "fst r \<noteq> snd l" "length (cdata c) < mx"
      | (full) "fst r \<noteq> snd l" "length (cdata c) = mx"
      using c(1) by (cases "length (cdata c) < mx"; cases "fst r = snd l") (simp_all add: open_chunk_def)
    then show ?thesis
    proof cases
      case join
      show ?thesis
        by (rule buildingI [of _ A "c\<lparr>cdata := ds @ [(fst l, snd r)], ccount := ccount c + (snd r - fst r)\<rparr>" E])
          (use join B p n A E c rs mx l tot in \<open>simp_all add: d hd_append butlast_append\<close>)
    next
      case room
      show ?thesis
        by (rule buildingI [of _ A "c\<lparr>cdata := cdata c @ [r], ccount := ccount c + (snd r - fst r)\<rparr>" E])
          (use room B p n A E c rs mx l in \<open>simp_all add: d range_size_def hd_append\<close>)
    next
      case full
      let ?c = "c\<lparr>cend := snd (last (cdata c))\<rparr>"
      have c': "closed_chunk g mx ?c" "length (cdata ?c) = mx"
        using c l full by (auto simp: closed_chunk_def open_chunk_def)
      have len: "length (push_norm rs r) = mx * length (A @ [c]) + 1"
        using full rs l length_flat_full [OF A] by (simp add: push_norm_def algebra_simps)
      show ?thesis
      proof (cases E)
        case Nil
        then have "mx * n \<le> mx * length (A @ [c])" using n B by (intro mult_le_mono2) simp
        then have one: "g \<longrightarrow> snd r - fst r = 1" using fits len by (simp add: range_size_def)
        show ?thesis
          by (rule buildingI [of _ "A @ [?c]" "\<lparr>cdata = [r], cbegin = fst r, cend = 0, ccount = 1\<rparr>" "[]"])
            (use Nil B p n A E c c' rs mx l full one in \<open>simp_all add: d range_size_def\<close>)
      next
        case (Cons e E')
        show ?thesis
          by (rule buildingI [of _ "A @ [?c]" "e\<lparr>cdata := [r], cbegin := fst r, ccount := snd r - fst r\<rparr>" E'])
            (use Cons B p n A E c c' rs mx l full in \<open>simp_all add: d range_size_def nth_append list_update_append\<close>)
      qed
    qed
  qed
qed

lemma building_finalize:
  assumes "building g mx n b rs" "ranges_ok rs"
  shows "flat (finalize b) = rs" "\<forall>c \<in> set (finalize b). closed_chunk g mx c"
proof -
  obtain A c E where B: "bdata b = A @ c # E" and p: "outer_pos b = length A"
    and A: "\<forall>a \<in> set A. closed_chunk g mx a \<and> length (cdata a) = mx"
    and c: "open_chunk g mx c" "cdata c = [] \<longrightarrow> A = []" and rs: "rs = flat A @ cdata c"
    using assms(1) by (auto simp: building_def)
  have t: "take (outer_pos b + 1) (bdata b) @ replicate (outer_pos b + 1 - length (bdata b)) empty_chunk = A @ [c]"
    using B p by simp
  show "flat (finalize b) = rs"
    using c rs unfolding finalize_def t Let_def by (simp add: B)
  show "\<forall>c \<in> set (finalize b). closed_chunk g mx c"
    using A c unfolding finalize_def t Let_def by (auto simp: B open_chunk_def closed_chunk_def)
qed

text \<open>The builder after a set of indices has gone through it.\<close>

definition built :: "nat \<Rightarrow> nat \<Rightarrow> builder \<Rightarrow> nat set \<Rightarrow> bool" where
  "built mx n b S \<longleftrightarrow> (\<exists>rs. building True mx n b rs \<and> ranges_ok rs \<and> ranges_set rs = S)"

lemma ranges_end_le: "ranges_ok rs \<Longrightarrow> \<forall>x \<in> ranges_set rs. x < i \<Longrightarrow> r \<in> set rs \<Longrightarrow> snd r \<le> i"
  by (drule bspec [where x = "snd r - 1"]) (auto simp: mem_ranges_set intro!: bexI [of _ r] dest: ranges_okD)

lemma built_push:
  assumes "built mx n b S" "\<forall>x \<in> S. x < i" "2 \<le> mx"
  shows "built mx n (push_index mx b i) (insert i S)"
proof -
  obtain rs where rs: "building True mx n b rs" "ranges_ok rs" "ranges_set rs = S"
    using assms(1) by (auto simp: built_def)
  have "\<forall>r \<in> set rs. snd r \<le> fst (i, i + 1)"
    using ranges_end_le [OF rs(2)] rs(3) assms(2) by simp
  from push_norm_ok(1,2) [OF rs(2) _ this]
  have "ranges_ok (push_norm rs (i, i + 1))" "ranges_set (push_norm rs (i, i + 1)) = insert i S"
    using rs(3) by (auto simp: range_set_def)
  moreover have "building True mx n (push_index mx b i) (push_norm rs (i, i + 1))"
    using building_push [OF rs(1,2)] assms(3) by (simp add: push_index_def range_size_def)
  ultimately show ?thesis by (auto simp: built_def)
qed

lemma built_new: "is_ok mx cs \<Longrightarrow> built mx (length (flat cs) div mx + 1) (builder_new mx cs) {}"
  using building_new [of True mx "length (flat cs)"]
  by (auto simp: built_def builder_new_def Let_def flat_def length_concat comp_def intro!: exI [of _ "[]"])

lemma closed_chunk_True: "closed_chunk True mx c = chunk_ok mx c"
  by (simp add: closed_chunk_def chunk_ok_def)

lemma built_finalize:
  assumes "built mx n b S" "is_ok mx cs"
  shows "is_ok mx (finalize b) \<and> elems (finalize b) = S"
proof -
  obtain rs where "building True mx n b rs" "ranges_ok rs" "ranges_set rs = S"
    using assms(1) by (auto simp: built_def)
  with building_finalize [of True mx n b rs] assms(2) show ?thesis
    by (simp add: is_ok_def elems_def crv_ok_def closed_chunk_True)
qed

section \<open>Positions of an index iterator\<close>

definition ii_at :: "nat \<Rightarrow> chunks \<Rightarrow> index_iter \<Rightarrow> nat list \<Rightarrow> bool" where
  "ii_at mx cs p xs \<longleftrightarrow> (\<exists>L R. at mx cs (fst p) L R \<and>
     (case R of [] \<Rightarrow> xs = []
      | r # R' \<Rightarrow> snd p < range_size r \<and>
          xs = [fst r + snd p..<snd r] @ concat (map (\<lambda>r. [fst r..<snd r]) R')))"

lemma ii_atE:
  assumes "ii_at mx cs p xs"
  obtains (last) L where "at mx cs (fst p) L []" "xs = []"
    | (more) L r R where "at mx cs (fst p) L (r # R)" "snd p < range_size r"
        "xs = (fst r + snd p) # [fst r + snd p + 1..<snd r] @ concat (map (\<lambda>r. [fst r..<snd r]) R)"
proof -
  obtain L R where a: "at mx cs (fst p) L R" and c: "case R of [] \<Rightarrow> xs = []
      | r # R' \<Rightarrow> snd p < range_size r \<and>
          xs = [fst r + snd p..<snd r] @ concat (map (\<lambda>r. [fst r..<snd r]) R')"
    using assms by (auto simp: ii_at_def)
  show thesis
  proof (cases R)
    case Nil
    with a c last show thesis by simp
  next
    case (Cons r R')
    with c have "snd p < range_size r" by simp
    moreover then have "[fst r + snd p..<snd r] = (fst r + snd p) # [fst r + snd p + 1..<snd r]"
      by (simp add: range_size_def upt_conv_Cons)
    ultimately show thesis using more [of L r R'] a c Cons by simp
  qed
qed

lemma ii_at_next_range: "at mx cs it L R \<Longrightarrow> ii_at mx cs (it, 0) (concat (map (\<lambda>r. [fst r..<snd r]) R))"
proof (cases R)
  case (Cons r R')
  assume a: "at mx cs it L R"
  then have "0 < range_size r" using Cons by (simp add: at_def range_size_def)
  with a Cons show ?thesis unfolding ii_at_def by (intro exI [of _ L] exI [of _ "r # R'"]) simp
next
  case Nil
  assume "at mx cs it L R"
  with Nil show ?thesis unfolding ii_at_def by (intro exI [of _ L] exI [of _ "[]"]) simp
qed

lemma ii_at_begin: "is_ok mx cs \<Longrightarrow> ii_at mx cs (ii_begin cs) (as_indexes cs)"
  using ii_at_next_range [OF at_begin] by (simp add: ii_begin_def as_indexes_def)

lemma ii_at_end [simp]: "ii_at mx cs p xs \<Longrightarrow> ii_eq p (ii_end cs) \<longleftrightarrow> xs = []"
  by (elim ii_atE) (simp_all add: ii_eq_def ii_end_def at_end_iff)

lemma ii_at_get [simp]: "ii_at mx cs p (x # xs) \<Longrightarrow> ii_get cs p = x"
  by (auto simp: ii_get_def at_deref elim!: ii_atE)

lemma ii_at_next: "ii_at mx cs p (x # xs) \<Longrightarrow> ii_at mx cs (ii_next cs p) xs"
proof (elim ii_atE)
  fix L r R
  assume a: "at mx cs (fst p) L (r # R)" and p: "snd p < range_size r"
    and xs: "x # xs = (fst r + snd p) # [fst r + snd p + 1..<snd r] @ concat (map (\<lambda>r. [fst r..<snd r]) R)"
  show "ii_at mx cs (ii_next cs p) xs"
  proof (cases "fst r + (snd p + 1) = snd r")
    case True
    then show ?thesis
      using ii_at_next_range [OF at_next [OF a]] xs by (simp add: ii_next_def Let_def at_deref [OF a])
  next
    case False
    then have "snd p + 1 < range_size r" using p by (simp add: range_size_def)
    with False a xs show ?thesis
      unfolding ii_at_def
      by (intro exI [of _ L] exI [of _ "r # R"]) (simp add: ii_next_def Let_def at_deref)
  qed
qed simp

section \<open>The merge loops as functions on lists\<close>

definition push_all :: "nat \<Rightarrow> builder \<Rightarrow> nat list \<Rightarrow> builder" where
  "push_all mx b js = foldl (push_index mx) b js"

lemma push_all_simps [simp]:
  "push_all mx b [] = b" "push_all mx b (j # js) = push_all mx (push_index mx b j) js"
  "push_all mx b (js @ ks) = push_all mx (push_all mx b js) ks"
  by (simp_all add: push_all_def)

lemma built_push_all:
  assumes "built mx n b S" "2 \<le> mx" "\<forall>x \<in> S. \<forall>j \<in> set js. x < j" "sorted_wrt (<) js"
  shows "built mx n (push_all mx b js) (S \<union> set js)"
  using assms
proof (induction js arbitrary: b S)
  case (Cons j js)
  from Cons.IH [OF built_push [OF Cons.prems(1), of j]] Cons.prems show ?case by simp
qed simp

lemma copy_rest_ok: "ii_at mx cs p xs \<Longrightarrow> copy_rest mx f cs p b = Some (push_all mx b (map f xs))"
proof (induction xs arbitrary: p b)
  case Nil
  then show ?case by (subst copy_rest.simps) simp
next
  case (Cons x xs)
  from Cons.IH [OF ii_at_next [OF Cons.prems]] Cons.prems show ?case
    by (subst copy_rest.simps) simp
qed

text \<open>
  The indices \<open>insert_loop\<close> (with \<open>e\<close>) and \<open>shift_loop\<close> (without) put out, together with what
  the loops after them copy.
\<close>

fun ins_seq :: "bool \<Rightarrow> nat list \<Rightarrow> nat list \<Rightarrow> nat \<Rightarrow> nat list" where
  "ins_seq e [] ys s = (if e then ys else [])"
| "ins_seq e (x # xs) [] s = map (\<lambda>i. i + s) (x # xs)"
| "ins_seq e (x # xs) (y # ys) s =
     (if x + s < y then (x + s) # ins_seq e xs (y # ys) s
      else (if e then [y] else []) @ ins_seq e (x # xs) ys (s + 1))"

fun del_seq :: "nat list \<Rightarrow> nat list \<Rightarrow> nat \<Rightarrow> nat list" where
  "del_seq [] ys s = []"
| "del_seq (x # xs) [] s = map (\<lambda>i. i - s) (x # xs)"
| "del_seq (x # xs) (y # ys) s =
     (if x < y then (x - s) # del_seq xs (y # ys) s
      else if x = y then del_seq xs ys (s + 1)
      else del_seq (x # xs) ys (s + 1))"

lemma insert_loop_ok:
  assumes "ii_at mx cs p xs" "ii_at mx cs2 q ys"
  shows "\<exists>p' q' s' out xs' ys'. insert_loop mx cs cs2 p q s b = Some (p', q', s', push_all mx b out) \<and>
     ii_at mx cs p' xs' \<and> ii_at mx cs2 q' ys' \<and> out @ map (\<lambda>i. i + s') xs' @ ys' = ins_seq True xs ys s"
  using assms
proof (induction "True" xs ys s arbitrary: p q b rule: ins_seq.induct)
  case (3 x xs y ys s)
  note n1 = ii_at_next [OF 3(3)] and n2 = ii_at_next [OF 3(4)]
  show ?case
  proof (cases "x + s < y")
    case True
    obtain p' q' s' out xs' ys' where
      "insert_loop mx cs cs2 (ii_next cs p) q s (push_index mx b (x + s)) =
         Some (p', q', s', push_all mx (push_index mx b (x + s)) out)"
      and r: "ii_at mx cs p' xs'" "ii_at mx cs2 q' ys'"
        "out @ map (\<lambda>i. i + s') xs' @ ys' = ins_seq True xs (y # ys) s"
      using 3(1) [OF True n1 3(4)] by blast
    then have "insert_loop mx cs cs2 p q s b = Some (p', q', s', push_all mx b ((x + s) # out))"
      using True 3(3,4) by (subst insert_loop.simps) simp
    moreover have "((x + s) # out) @ map (\<lambda>i. i + s') xs' @ ys' = ins_seq True (x # xs) (y # ys) s"
      using True r(3) by simp
    ultimately show ?thesis using r(1,2) by blast
  next
    case False
    obtain p' q' s' out xs' ys' where
      "insert_loop mx cs cs2 p (ii_next cs2 q) (s + 1) (push_index mx b y) =
         Some (p', q', s', push_all mx (push_index mx b y) out)"
      and r: "ii_at mx cs p' xs'" "ii_at mx cs2 q' ys'"
        "out @ map (\<lambda>i. i + s') xs' @ ys' = ins_seq True (x # xs) ys (s + 1)"
      using 3(2) [OF False 3(3) n2] by blast
    then have "insert_loop mx cs cs2 p q s b = Some (p', q', s', push_all mx b (y # out))"
      using False 3(3,4) by (subst insert_loop.simps) simp
    moreover have "(y # out) @ map (\<lambda>i. i + s') xs' @ ys' = ins_seq True (x # xs) (y # ys) s"
      using False r(3) by simp
    ultimately show ?thesis using r(1,2) by blast
  qed
next
  case (1 ys s)
  then have "insert_loop mx cs cs2 p q s b = Some (p, q, s, push_all mx b [])"
    by (subst insert_loop.simps) simp
  moreover have "[] @ map (\<lambda>i. i + s) [] @ ys = ins_seq True [] ys s" by simp
  ultimately show ?case using 1 by blast
next
  case (2 x xs s)
  then have "insert_loop mx cs cs2 p q s b = Some (p, q, s, push_all mx b [])"
    by (subst insert_loop.simps) simp
  moreover have "[] @ map (\<lambda>i. i + s) (x # xs) @ [] = ins_seq True (x # xs) [] s" by simp
  ultimately show ?case using 2 by blast
qed

lemma shift_loop_ok:
  assumes "ii_at mx cs p xs" "ii_at mx cs2 q ys"
  shows "\<exists>p' q' s' out xs'. shift_loop mx cs cs2 p q s b = Some (p', q', s', push_all mx b out) \<and>
     ii_at mx cs p' xs' \<and> out @ map (\<lambda>i. i + s') xs' = ins_seq False xs ys s"
  using assms
proof (induction "False" xs ys s arbitrary: p q b rule: ins_seq.induct)
  case (3 x xs y ys s)
  note n1 = ii_at_next [OF 3(3)] and n2 = ii_at_next [OF 3(4)]
  show ?case
  proof (cases "x + s < y")
    case True
    obtain p' q' s' out xs' where
      "shift_loop mx cs cs2 (ii_next cs p) q s (push_index mx b (x + s)) =
         Some (p', q', s', push_all mx (push_index mx b (x + s)) out)"
      and r: "ii_at mx cs p' xs'" "out @ map (\<lambda>i. i + s') xs' = ins_seq False xs (y # ys) s"
      using 3(1) [OF True n1 3(4)] by blast
    then have "shift_loop mx cs cs2 p q s b = Some (p', q', s', push_all mx b ((x + s) # out))"
      using True 3(3,4) by (subst shift_loop.simps) simp
    moreover have "((x + s) # out) @ map (\<lambda>i. i + s') xs' = ins_seq False (x # xs) (y # ys) s"
      using True r(2) by simp
    ultimately show ?thesis using r(1) by blast
  next
    case False
    have "shift_loop mx cs cs2 p q s b = shift_loop mx cs cs2 p (ii_next cs2 q) (s + 1) b"
      using False 3(3,4) by (subst shift_loop.simps) simp
    moreover have "ins_seq False (x # xs) ys (s + 1) = ins_seq False (x # xs) (y # ys) s"
      using False by simp
    ultimately show ?thesis using 3(2) [OF False 3(3) n2, of b] by metis
  qed
next
  case (1 ys s)
  then have "shift_loop mx cs cs2 p q s b = Some (p, q, s, push_all mx b [])"
    by (subst shift_loop.simps) simp
  moreover have "[] @ map (\<lambda>i. i + s) [] = ins_seq False [] ys s" by simp
  ultimately show ?case using 1 by blast
next
  case (2 x xs s)
  then have "shift_loop mx cs cs2 p q s b = Some (p, q, s, push_all mx b [])"
    by (subst shift_loop.simps) simp
  moreover have "[] @ map (\<lambda>i. i + s) (x # xs) = ins_seq False (x # xs) [] s" by simp
  ultimately show ?case using 2 by blast
qed

lemma erase_loop_ok:
  assumes "ii_at mx cs p xs" "ii_at mx cs2 q ys"
  shows "\<exists>p' q' s' out xs'. erase_loop mx cs cs2 p q s b = Some (p', q', s', push_all mx b out) \<and>
     ii_at mx cs p' xs' \<and> out @ map (\<lambda>i. i - s') xs' = del_seq xs ys s"
  using assms
proof (induction xs ys s arbitrary: p q b rule: del_seq.induct)
  case (3 x xs y ys s)
  note n1 = ii_at_next [OF "3.prems"(1)] and n2 = ii_at_next [OF "3.prems"(2)]
  consider (less) "x < y" | (same) "\<not> x < y" "x = y" | (more) "\<not> x < y" "x \<noteq> y" by blast
  then show ?case
  proof cases
    case less
    obtain p' q' s' out xs' where
      "erase_loop mx cs cs2 (ii_next cs p) q s (push_index mx b (x - s)) =
         Some (p', q', s', push_all mx (push_index mx b (x - s)) out)"
      and r: "ii_at mx cs p' xs'" "out @ map (\<lambda>i. i - s') xs' = del_seq xs (y # ys) s"
      using "3.IH"(1) [OF less n1 "3.prems"(2)] by blast
    then have "erase_loop mx cs cs2 p q s b = Some (p', q', s', push_all mx b ((x - s) # out))"
      using less "3.prems" by (subst erase_loop.simps) simp
    moreover have "((x - s) # out) @ map (\<lambda>i. i - s') xs' = del_seq (x # xs) (y # ys) s"
      using less r(2) by simp
    ultimately show ?thesis using r(1) by blast
  next
    case same
    have "erase_loop mx cs cs2 p q s b = erase_loop mx cs cs2 (ii_next cs p) (ii_next cs2 q) (s + 1) b"
      using same "3.prems" by (subst erase_loop.simps) simp
    moreover have "del_seq xs ys (s + 1) = del_seq (x # xs) (y # ys) s" using same by simp
    ultimately show ?thesis using "3.IH"(2) [OF same n1 n2, of b] by metis
  next
    case more
    have "erase_loop mx cs cs2 p q s b = erase_loop mx cs cs2 p (ii_next cs2 q) (s + 1) b"
      using more "3.prems" by (subst erase_loop.simps) simp
    moreover have "del_seq (x # xs) ys (s + 1) = del_seq (x # xs) (y # ys) s" using more by simp
    ultimately show ?thesis using "3.IH"(3) [OF more "3.prems"(1) n2, of b] by metis
  qed
next
  case (1 ys s)
  then have "erase_loop mx cs cs2 p q s b = Some (p, q, s, push_all mx b [])"
    by (subst erase_loop.simps) simp
  moreover have "[] @ map (\<lambda>i. i - s) [] = del_seq [] ys s" by simp
  ultimately show ?case using 1 by blast
next
  case (2 x xs s)
  then have "erase_loop mx cs cs2 p q s b = Some (p, q, s, push_all mx b [])"
    by (subst erase_loop.simps) simp
  moreover have "[] @ map (\<lambda>i. i - s) (x # xs) = del_seq (x # xs) [] s" by simp
  ultimately show ?case using 2 by blast
qed

section \<open>What the loops compute\<close>

text \<open>
  \<open>placed P X\<close>: where the indices \<open>X\<close> end up when the positions \<open>P\<close> are inserted one after
  the other in ascending order, that is the indices outside \<open>P\<close> which go back to an index of
  \<open>X\<close> when \<open>P\<close> is erased again.
\<close>

definition placed :: "nat set \<Rightarrow> nat set \<Rightarrow> nat set" where
  "placed P X = {r. r \<notin> P \<and> unshifted P r \<in> X}"

lemma placed_empty [simp]: "placed P {} = {}"
  by (simp add: placed_def)

lemma placed_insert: "r \<notin> P \<Longrightarrow> unshifted P r = x \<Longrightarrow> placed P (insert x X) = insert r (placed P X)"
  unfolding placed_def using unshifted_inj by blast

lemma sorted_map: "sorted_wrt (<) xs \<Longrightarrow> (\<And>x y. x \<in> set xs \<Longrightarrow> x < y \<Longrightarrow> f x < f y) \<Longrightarrow>
    sorted_wrt (<) (map f xs)" for xs :: "nat list" and f :: "nat \<Rightarrow> nat"
  by (induction xs) auto

lemma unshifted_at:
  assumes "finite A" "\<forall>a \<in> A. a < i" "\<forall>y \<in> Y. i \<le> y"
  shows "unshifted (A \<union> Y) i = i - card A"
proof -
  have "(A \<union> Y) \<inter> {..<i} = A" using assms by auto
  then show ?thesis by (simp add: unshifted_def)
qed

lemma ins_seq_ok:
  assumes "sorted_wrt (<) xs" "sorted_wrt (<) ys" "finite A"
    "\<forall>a \<in> A. \<forall>x \<in> set xs. a < x + card A" "\<forall>a \<in> A. \<forall>y \<in> set ys. a < y"
  shows "set (ins_seq e xs ys (card A)) = (if e then set ys else {}) \<union> placed (A \<union> set ys) (set xs) \<and>
     sorted_wrt (<) (ins_seq e xs ys (card A))"
  using assms
proof (induction e xs ys "card A" arbitrary: A rule: ins_seq.induct)
  case (2 e x xs)
  have "placed A (set zs) = (\<lambda>i. i + card A) ` set zs" if "set zs \<subseteq> set (x # xs)" for zs
    using that
  proof (induction zs)
    case (Cons z zs)
    then have "\<forall>a \<in> A. a < z + card A" using 2(4) by auto
    then show ?case
      using unshifted_at [of A "z + card A" "{}"] 2(3) Cons by (auto simp: placed_insert)
  qed simp
  from this [of "x # xs"] 2(1) show ?case by (simp add: sorted_map)
next
  case (3 e x xs y ys)
  let ?P = "A \<union> set (y # ys)"
  show ?case
  proof (cases "x + card A < y")
    case True
    let ?r = "x + card A"
    have above: "\<forall>j \<in> set (y # ys). ?r < j" using 3(4) True by auto
    then have r: "?r \<notin> ?P" "unshifted ?P ?r = x"
      using unshifted_at [of A ?r "set (y # ys)"] 3(5,6) by (auto simp: less_imp_le)
    note IH = 3(1) [OF True refl _ "3.prems"(2,3)]
    have set: "set (ins_seq e xs (y # ys) (card A)) =
        (if e then set (y # ys) else {}) \<union> placed ?P (set xs)"
      and srt: "sorted_wrt (<) (ins_seq e xs (y # ys) (card A))"
      using IH 3(3-7) by auto
    have "?r < j" if "j \<in> placed ?P (set xs)" for j
      using that r 3(3) unshifted_mono [of j ?r ?P] by (fastforce simp: placed_def not_less [symmetric])
    then have "\<forall>j \<in> set (ins_seq e xs (y # ys) (card A)). ?r < j"
      using set True 3(4) by (auto split: if_splits)
    then show ?thesis
      using True set srt placed_insert [OF r, of "set xs"] by auto
  next
    case False
    have y: "y \<notin> A" and yA: "card (insert y A) = card A + 1" "finite (insert y A)"
      using 3(5,7) by auto
    have P: "insert y A \<union> set ys = ?P" by auto
    have IH: "set (ins_seq e (x # xs) ys (card A + 1)) = (if e then set ys else {}) \<union> placed ?P (set (x # xs)) \<and>
        sorted_wrt (<) (ins_seq e (x # xs) ys (card A + 1))"
      using 3(2) [OF False, of "insert y A"] 3(3-7) yA False unfolding P by fastforce
    have uy: "unshifted ?P y = y - card A" using unshifted_at [of A y "set (y # ys)"] 3(4,5,7) by (auto simp: less_imp_le)
    have "y < j" if "j \<in> placed ?P (set (x # xs))" for j
    proof (rule ccontr)
      assume "\<not> y < j"
      with that have "j < y" by (auto simp: placed_def)
      with that have "unshifted ?P j < y - card A"
        using unshifted_strict_mono [of j ?P y] uy by (simp add: placed_def)
      moreover have "x \<le> unshifted ?P j" using that 3(3) by (auto simp: placed_def)
      ultimately show False using False by simp
    qed
    then show ?thesis using IH False 3(4) by auto
  qed
qed simp

lemma del_seq_ok:
  assumes "sorted_wrt (<) xs" "sorted_wrt (<) ys" "finite A"
    "\<forall>a \<in> A. \<forall>x \<in> set xs. a < x" "\<forall>a \<in> A. \<forall>y \<in> set ys. a < y"
  shows "set (del_seq xs ys (card A)) = unshifted (A \<union> set ys) ` (set xs - set ys) \<and>
     sorted_wrt (<) (del_seq xs ys (card A))"
  using assms
proof (induction xs ys "card A" arbitrary: A rule: del_seq.induct)
  case (2 x xs)
  have u: "\<forall>z \<in> set (x # xs). z - card A = unshifted A z"
    using unshifted_at [of A _ "{}"] 2(3,4) by simp
  have "\<forall>z \<in> set (x # xs). z \<notin> A" using 2(4) by blast
  then have srt: "sorted_wrt (<) (map (unshifted A) (x # xs))"
    using unshifted_strict_mono by (intro sorted_map [OF 2(1)]) blast
  have eq: "del_seq (x # xs) [] (card A) = map (unshifted A) (x # xs)" using u by simp
  show ?case unfolding eq by (intro conjI srt) simp
next
  case (3 x xs y ys)
  let ?P = "A \<union> set (y # ys)"
  have yA: "y \<notin> A" "card (insert y A) = card A + 1" "finite (insert y A)" using 3(6,8) by auto
  have P: "insert y A \<union> set ys = ?P" by auto
  consider (less) "x < y" | (same) "\<not> x < y" "x = y" | (more) "\<not> x < y" "x \<noteq> y" by blast
  then show ?case
  proof cases
    case less
    have above: "\<forall>j \<in> set (y # ys). x < j" using 3(5) less by auto
    then have x: "x \<notin> ?P" "unshifted ?P x = x - card A"
      using unshifted_at [of A x "set (y # ys)"] 3(6,7) by (auto simp: less_imp_le)
    have IH: "set (del_seq xs (y # ys) (card A)) = unshifted ?P ` (set xs - set (y # ys)) \<and>
        sorted_wrt (<) (del_seq xs (y # ys) (card A))"
      using 3(1) [OF less refl] 3(4-8) by simp
    have "x - card A < j" if "j \<in> unshifted ?P ` (set xs - set (y # ys))" for j
      using that unshifted_strict_mono [OF x(1)] x(2) 3(4) by auto
    moreover have "set (x # xs) - set (y # ys) = insert x (set xs - set (y # ys))" using x(1) by auto
    ultimately show ?thesis using IH less x(2) by (simp del: set_simps) simp
  next
    case same
    have "set (del_seq xs ys (card A + 1)) = unshifted ?P ` (set xs - set ys) \<and>
        sorted_wrt (<) (del_seq xs ys (card A + 1))"
      using 3(2) [OF same, of "insert y A"] 3(4-8) yA same unfolding P by simp
    moreover have "set (x # xs) - set (y # ys) = set xs - set ys" using same 3(4,5) by auto
    ultimately show ?thesis using same by simp
  next
    case more
    have "set (del_seq (x # xs) ys (card A + 1)) = unshifted ?P ` (set (x # xs) - set ys) \<and>
        sorted_wrt (<) (del_seq (x # xs) ys (card A + 1))"
      using 3(3) [OF more, of "insert y A"] 3(4-8) yA more unfolding P by fastforce
    moreover have "set (x # xs) - set (y # ys) = set (x # xs) - set ys" using more 3(4) by auto
    ultimately show ?thesis using more by simp
  qed
qed simp

section \<open>The operations\<close>

lemma ranges_ok_first: "ranges_ok (r # R) \<Longrightarrow> s \<in> set (r # R) \<Longrightarrow> fst r \<le> fst s"
  by (auto intro: less_imp_le less_trans)

lemma ranges_ok_last: "ranges_ok (R @ [r]) \<Longrightarrow> s \<in> set (R @ [r]) \<Longrightarrow> snd s \<le> snd r"
  by (auto intro: less_imp_le less_trans)

lemma ranges_set_eq_empty: "ranges_ok rs \<Longrightarrow> ranges_set rs = {} \<longleftrightarrow> rs = []"
  by (cases rs) (auto simp: range_set_def)

lemma crv_empty_elems: "is_ok mx cs \<Longrightarrow> crv_empty cs \<longleftrightarrow> elems cs = {}"
  using ranges_set_eq_empty [of "flat cs"] flat_eq_Nil [of mx cs]
  by (simp add: is_ok_def elems_def crv_empty_def)

lemma as_indexes_sorted: "is_ok mx cs \<Longrightarrow> sorted_wrt (<) (as_indexes cs)"
  using sorted_as_indexes by (simp add: as_indexes_def is_ok_def)

lemma built_all:
  assumes "is_ok mx cs" "sorted_wrt (<) js"
  shows "is_ok mx (finalize (push_all mx (builder_new mx cs) js)) \<and>
     elems (finalize (push_all mx (builder_new mx cs) js)) = set js"
  using built_finalize [OF built_push_all [OF built_new [OF assms(1)] _ _ assms(2)] assms(1)] assms(1)
  by (simp add: is_ok_def)

lemma unshifted_Nil [simp]: "unshifted {} i = i"
  by (simp add: unshifted_def)

lemma insert_at_all_ok [set_specs]:
  assumes "is_ok mx cs" "is_ok mx ps"
  shows "\<exists>cs'. insert_at_all mx cs ps = Some cs' \<and> is_ok mx cs' \<and>
     elems cs' = elems ps \<union> placed (elems ps) (elems cs)"
proof (cases "crv_empty ps \<or> crv_empty cs")
  case True
  then show ?thesis
    using assms crv_empty_elems [OF assms(1)] crv_empty_elems [OF assms(2)]
    by (auto simp: insert_at_all_def placed_def)
next
  case False
  obtain p q s out xs ys where
    l: "insert_loop mx cs ps (ii_begin cs) (ii_begin ps) 0 (builder_new mx cs) =
        Some (p, q, s, push_all mx (builder_new mx cs) out)"
    and r: "ii_at mx cs p xs" "ii_at mx ps q ys"
      "out @ map (\<lambda>i. i + s) xs @ ys = ins_seq True (as_indexes cs) (as_indexes ps) 0"
    using insert_loop_ok [OF ii_at_begin [OF assms(1)] ii_at_begin [OF assms(2)]] by blast
  have "insert_at_all mx cs ps =
      Some (finalize (push_all mx (builder_new mx cs) (out @ map (\<lambda>i. i + s) xs @ ys)))"
    using False l copy_rest_ok [OF r(1)] copy_rest_ok [OF r(2)] by (simp add: insert_at_all_def)
  moreover have "set (ins_seq True (as_indexes cs) (as_indexes ps) 0) =
        elems ps \<union> placed (elems ps) (elems cs)"
      "sorted_wrt (<) (ins_seq True (as_indexes cs) (as_indexes ps) 0)"
    using ins_seq_ok [of "as_indexes cs" "as_indexes ps" "{}" True] as_indexes_sorted assms
    by (simp_all add: set_as_indexes)
  ultimately show ?thesis using built_all [OF assms(1)] r(3) by simp
qed

lemma placed_low:
  assumes "\<forall>x \<in> X. \<forall>p \<in> P. x < p"
  shows "placed P X = X"
proof -
  have u: "x \<notin> P \<and> unshifted P x = x" if "x \<in> X" for x
    using that assms unshifted_at [of "{}" x P] by (auto simp: less_imp_le)
  have "r \<in> X" if r: "r \<in> placed P X" for r
  proof -
    have "unshifted P r \<in> X" "r \<notin> P" using r by (auto simp: placed_def)
    with u [of "unshifted P r"] unshifted_inj [of r P "unshifted P r"] show ?thesis by simp
  qed
  moreover have "r \<in> placed P X" if "r \<in> X" for r
    using u [OF that] that by (simp add: placed_def)
  ultimately show ?thesis by blast
qed

lemma last_index_less:
  assumes "is_ok mx cs" "x \<in> elems cs"
  shows "x < cend (last cs)"
proof -
  obtain r where r: "r \<in> set (flat cs)" "x < snd r" using assms(2) by (auto simp: elems_def mem_ranges_set)
  then obtain ds c where cs: "cs = ds @ [c]" by (cases cs rule: rev_cases) auto
  then obtain rs l where c: "cdata c = rs @ [l]" "cend c = snd l"
    using assms(1) by (cases "cdata c" rule: rev_cases) (auto simp: is_ok_def chunk_ok_def)
  have "snd r \<le> snd l"
    using ranges_ok_last [of "flat ds @ rs" l r] assms(1) r(1) cs c by (simp add: is_ok_def)
  then show ?thesis using r(2) c cs by simp
qed

lemma first_index_le:
  assumes "is_ok mx cs" "x \<in> elems cs"
  shows "cbegin (hd cs) \<le> x"
proof -
  obtain s where s: "s \<in> set (flat cs)" "fst s \<le> x" using assms(2) by (auto simp: elems_def mem_ranges_set)
  then obtain c ds where cs: "cs = c # ds" by (cases cs) auto
  then obtain r R where c: "cdata c = r # R" "cbegin c = fst r"
    using assms(1) by (auto simp: is_ok_def chunk_ok_def neq_Nil_conv)
  have "fst r \<le> fst s"
    using ranges_ok_first [of r "R @ flat ds" s] assms(1) s(1) cs c by (simp add: is_ok_def)
  then show ?thesis using s(2) c cs by simp
qed

lemma shift_for_insert_at_all_ok [set_specs]:
  assumes "is_ok mx cs" "is_ok mx vs"
  shows "\<exists>cs'. shift_for_insert_at_all mx cs vs = Some cs' \<and> is_ok mx cs' \<and>
     elems cs' = placed (elems vs) (elems cs)"
proof (cases "crv_empty cs \<or> crv_empty vs \<or> cend (last cs) \<le> cbegin (hd vs)")
  case True
  moreover have "placed (elems vs) (elems cs) = elems cs" if "cend (last cs) \<le> cbegin (hd vs)"
    using that last_index_less [OF assms(1)] first_index_le [OF assms(2)]
    by (intro placed_low) (meson le_trans less_le_trans)
  ultimately show ?thesis
    using assms crv_empty_elems [OF assms(1)] crv_empty_elems [OF assms(2)]
    by (auto simp: shift_for_insert_at_all_def placed_def)
next
  case False
  obtain p q s out xs where
    l: "shift_loop mx cs vs (ii_begin cs) (ii_begin vs) 0 (builder_new mx cs) =
        Some (p, q, s, push_all mx (builder_new mx cs) out)"
    and r: "ii_at mx cs p xs" "out @ map (\<lambda>i. i + s) xs = ins_seq False (as_indexes cs) (as_indexes vs) 0"
    using shift_loop_ok [OF ii_at_begin [OF assms(1)] ii_at_begin [OF assms(2)]] by blast
  have "shift_for_insert_at_all mx cs vs =
      Some (finalize (push_all mx (builder_new mx cs) (out @ map (\<lambda>i. i + s) xs)))"
    using False l copy_rest_ok [OF r(1)] by (simp add: shift_for_insert_at_all_def)
  moreover have "set (ins_seq False (as_indexes cs) (as_indexes vs) 0) = placed (elems vs) (elems cs)"
      "sorted_wrt (<) (ins_seq False (as_indexes cs) (as_indexes vs) 0)"
    using ins_seq_ok [of "as_indexes cs" "as_indexes vs" "{}" False] as_indexes_sorted assms
    by (simp_all add: set_as_indexes)
  ultimately show ?thesis using built_all [OF assms(1)] r(2) by simp
qed

lemma erase_at_all_ok [set_specs]:
  assumes "is_ok mx cs" "is_ok mx ps"
  shows "\<exists>cs'. erase_at_all mx cs ps = Some cs' \<and> is_ok mx cs' \<and>
     elems cs' = unshifted (elems ps) ` (elems cs - elems ps)"
proof (cases "crv_empty ps \<or> crv_empty cs")
  case True
  then show ?thesis
    using assms crv_empty_elems [OF assms(1)] crv_empty_elems [OF assms(2)]
    by (auto simp: erase_at_all_def)
next
  case False
  obtain p q s out xs where
    l: "erase_loop mx cs ps (ii_begin cs) (ii_begin ps) 0 (builder_new mx cs) =
        Some (p, q, s, push_all mx (builder_new mx cs) out)"
    and r: "ii_at mx cs p xs" "out @ map (\<lambda>i. i - s) xs = del_seq (as_indexes cs) (as_indexes ps) 0"
    using erase_loop_ok [OF ii_at_begin [OF assms(1)] ii_at_begin [OF assms(2)]] by blast
  have "erase_at_all mx cs ps =
      Some (finalize (push_all mx (builder_new mx cs) (out @ map (\<lambda>i. i - s) xs)))"
    using False l copy_rest_ok [OF r(1)] by (simp add: erase_at_all_def)
  moreover have "set (del_seq (as_indexes cs) (as_indexes ps) 0) = unshifted (elems ps) ` (elems cs - elems ps)"
      "sorted_wrt (<) (del_seq (as_indexes cs) (as_indexes ps) 0)"
    using del_seq_ok [of "as_indexes cs" "as_indexes ps" "{}"] as_indexes_sorted assms
    by (simp_all add: set_as_indexes)
  ultimately show ?thesis using built_all [OF assms(1)] r(2) by simp
qed

section \<open>add_shifted_by\<close>

text \<open>The end of the ranges of the shifting set that have been passed.\<close>

definition last_end :: "range list \<Rightarrow> nat" where
  "last_end L = (if L = [] then 0 else snd (last L))"

lemma skip_shifted_ok:
  assumes "at mx cs it L R" "\<forall>r \<in> set L. fst r \<le> v"
  shows "\<exists>it' L' R'. skip_shifted cs it v (range_total L) (last_end L) =
       Some (it', range_total L', last_end L') \<and>
     at mx cs it' L' R' \<and> (\<forall>r \<in> set L'. fst r \<le> v) \<and> (\<forall>r \<in> set R'. v < fst r)"
  using assms
proof (induction R arbitrary: it L)
  case Nil
  then have "skip_shifted cs it v (range_total L) (last_end L) = Some (it, range_total L, last_end L)"
    using at_end_iff by (subst skip_shifted.simps) simp
  with Nil show ?case by fastforce
next
  case (Cons r R)
  have ne: "it \<noteq> crv_end cs" and get: "deref cs it = r"
    using at_end_iff [OF Cons.prems(1)] at_deref [OF Cons.prems(1)] by auto
  show ?case
  proof (cases "fst r \<le> v")
    case True
    then have "skip_shifted cs it v (range_total L) (last_end L) =
        skip_shifted cs (it_next cs it) v (range_total (L @ [r])) (last_end (L @ [r]))"
      using ne get by (subst skip_shifted.simps) (simp add: range_size_def last_end_def)
    then show ?thesis using Cons.IH [OF at_next [OF Cons.prems(1)]] Cons.prems(2) True by simp
  next
    case False
    then have "skip_shifted cs it v (range_total L) (last_end L) = Some (it, range_total L, last_end L)"
      using ne get by (subst skip_shifted.simps) simp
    moreover have "\<forall>x \<in> set (r # R). v < fst x"
      using False Cons.prems(1) ranges_ok_first [of r R] by (fastforce simp: at_def)
    ultimately show ?thesis using Cons.prems by blast
  qed
qed

text \<open>Where the walk stops, \<open>v\<close> is skipped exactly if the shifting set contains it.\<close>

lemma skip_shifted_stop:
  assumes "ranges_ok (L @ R)" "\<forall>r \<in> set L. fst r \<le> v" "\<forall>r \<in> set R. v < fst r"
  shows "v < last_end L \<longleftrightarrow> v \<in> ranges_set (L @ R)"
    "v \<notin> ranges_set (L @ R) \<Longrightarrow> range_total L \<le> v \<and> unshifted (ranges_set (L @ R)) v = v - range_total L"
proof -
  have R: "v \<notin> ranges_set R" using assms(3) by (auto simp: mem_ranges_set)
  have L: "v \<in> ranges_set L \<longleftrightarrow> (\<exists>r \<in> set L. v < snd r)" using assms(2) by (auto simp: mem_ranges_set)
  show *: "v < last_end L \<longleftrightarrow> v \<in> ranges_set (L @ R)"
  proof (cases L rule: rev_cases)
    case (snoc K l)
    then have "\<forall>r \<in> set L. snd r \<le> snd l" using assms(1) ranges_ok_last [of K l] by simp
    with snoc R L show ?thesis by (auto simp: last_end_def)
  qed (use R in \<open>simp add: last_end_def\<close>)
  assume "v \<notin> ranges_set (L @ R)"
  then have "\<forall>r \<in> set L. snd r \<le> v" using L by (auto simp: not_less)
  moreover have "R = [] \<or> v \<le> fst (hd R)" using assms(3) by (cases R) auto
  ultimately show "range_total L \<le> v \<and> unshifted (ranges_set (L @ R)) v = v - range_total L"
    using unshifted_zip [OF assms(1)] by blast
qed

lemma copy_old_ok:
  assumes "at mx cs it L R" "\<forall>r \<in> set L. snd r \<le> w + range_total L" "built mx n b (ranges_set L \<union> N)"
    "\<forall>d \<in> N. \<forall>r \<in> set R. d < fst r"
  shows "\<exists>it' L' R' b'. copy_old mx cs it w (range_total L) b = Some (it', range_total L', b') \<and>
     at mx cs it' L' R' \<and> splits (w + range_total L') L' R' \<and> (\<forall>r \<in> set R'. w + range_total L' < fst r) \<and>
     set R' \<subseteq> set R \<and> built mx n b' (ranges_set L' \<union> N)"
  using assms
proof (induction R arbitrary: it L b)
  case Nil
  then have "copy_old mx cs it w (range_total L) b = Some (it, range_total L, b)"
    using at_end_iff by (subst copy_old.simps) simp
  moreover have "splits (w + range_total L) L []" using Nil.prems by (simp add: splits_def)
  ultimately show ?case using Nil.prems by fastforce
next
  case (Cons r R)
  have ne: "it \<noteq> crv_end cs" and get: "deref cs it = r"
    using at_end_iff [OF Cons.prems(1)] at_deref [OF Cons.prems(1)] by auto
  have ok: "ranges_ok (L @ r # R)" using Cons.prems by (simp add: at_def)
  show ?case
  proof (cases "fst r \<le> w + range_total L")
    case True
    let ?b = "push_all mx b [fst r..<snd r]"
    have step: "copy_old mx cs it w (range_total L) b = copy_old mx cs (it_next cs it) w (range_total (L @ [r])) ?b"
      using ne get True by (subst copy_old.simps) (simp add: range_size_def push_all_def)
    have low: "\<forall>x \<in> set (L @ [r]). snd x \<le> w + range_total (L @ [r])"
      using Cons.prems(2) True ok by (auto simp: range_size_def intro: trans_le_add1)
    have "2 \<le> mx" using Cons.prems(1) by (simp add: at_def cur_def)
    moreover have "\<forall>d \<in> ranges_set L \<union> N. \<forall>j \<in> set [fst r..<snd r]. d < j"
      using Cons.prems(4) ok by (fastforce simp: mem_ranges_set)
    ultimately have "built mx n ?b (ranges_set (L @ [r]) \<union> N)"
      using built_push_all [OF Cons.prems(3), of "[fst r..<snd r]"]
      by (simp add: range_set_def Un_ac)
    from Cons.IH [OF at_next [OF Cons.prems(1)] low this] Cons.prems(4) step show ?thesis
      by (simp, meson subset_insertI2)
  next
    case False
    then have "copy_old mx cs it w (range_total L) b = Some (it, range_total L, b)"
      using ne get by (subst copy_old.simps) simp
    moreover have "splits (w + range_total L) L (r # R)"
      using ok Cons.prems(2) False by (fastforce simp: splits_def dest: ranges_okD)
    moreover have "\<forall>x \<in> set (r # R). w + range_total L < fst x"
      using False ok ranges_ok_first [of r R] by fastforce
    ultimately show ?thesis using Cons.prems by blast
  qed
qed

lemma add_shifted_loop_ok:
  assumes "at mx cs it L R" "at mx by sit LT RT" "sorted_wrt (<) vs"
    "\<forall>v \<in> set vs. \<forall>r \<in> set LT. fst r \<le> v"
    "\<forall>v \<in> set vs - elems by. \<forall>r \<in> set L. snd r \<le> unshifted (elems by) v + range_total L"
    "built mx n b (ranges_set L \<union> N)" "\<forall>d \<in> N. \<forall>r \<in> set R. d < fst r"
    "\<forall>d \<in> N. d \<notin> elems cs \<and> (\<forall>v \<in> set vs - elems by. unshifted (elems cs) d < unshifted (elems by) v)"
  shows "\<exists>it' L' R' b'. add_shifted_loop mx cs by it sit (last_end LT) (range_total L) (range_total LT) b vs =
       Some (it', b') \<and> at mx cs it' L' R' \<and>
     built mx n b' (ranges_set L' \<union> (N \<union> placed (elems cs) (unshifted (elems by) ` (set vs - elems by)))) \<and>
     (\<forall>d \<in> N \<union> placed (elems cs) (unshifted (elems by) ` (set vs - elems by)). \<forall>r \<in> set R'. d < fst r)"
  using assms
proof (induction vs arbitrary: it L R sit LT RT b N)
  case Nil
  then show ?case by fastforce
next
  case (Cons v vs)
  let ?S = "elems cs" and ?T = "elems by"
  obtain sit' LT' RT' where
    sk: "skip_shifted by sit v (range_total LT) (last_end LT) = Some (sit', range_total LT', last_end LT')"
    and sa: "at mx by sit' LT' RT'" and lt: "\<forall>r \<in> set LT'. fst r \<le> v" and rt: "\<forall>r \<in> set RT'. v < fst r"
    using skip_shifted_ok [OF Cons.prems(2), of v] Cons.prems(4) by auto
  have T: "?T = ranges_set (LT' @ RT')" "ranges_ok (LT' @ RT')"
    using at_is_ok [OF sa] sa by (auto simp: elems_def at_def)
  note stop = skip_shifted_stop [OF T(2) lt rt, folded T(1)]
  have lt': "\<forall>v \<in> set vs. \<forall>r \<in> set LT'. fst r \<le> v"
    using lt Cons.prems(3) by (fastforce intro: less_imp_le le_less_trans)
  show ?case
  proof (cases "v \<in> ?T")
    case True
    then have "set (v # vs) - ?T = set vs - ?T" by auto
    moreover have "add_shifted_loop mx cs by it sit (last_end LT) (range_total L) (range_total LT) b (v # vs) =
        add_shifted_loop mx cs by it sit' (last_end LT') (range_total L) (range_total LT') b vs"
      using sk stop(1) True by simp
    ultimately show ?thesis
      using Cons.IH [OF Cons.prems(1) sa _ lt' _ Cons.prems(6,7)] Cons.prems(3,5,8) by simp
  next
    case False
    let ?w = "unshifted ?T v"
    have w: "range_total LT' \<le> v" "v - range_total LT' = ?w" using stop(2) [OF False] by auto
    obtain it' L' R' b' where
      cp: "copy_old mx cs it ?w (range_total L) b = Some (it', range_total L', b')"
      and a: "at mx cs it' L' R'" and sp: "splits (?w + range_total L') L' R'"
      and gap: "\<forall>r \<in> set R'. ?w + range_total L' < fst r" and R': "set R' \<subseteq> set R"
      and bu: "built mx n b' (ranges_set L' \<union> N)"
      using copy_old_ok [OF Cons.prems(1) _ Cons.prems(6,7), of ?w] Cons.prems(5) False by auto
    let ?j = "?w + range_total L'" and ?vs = "set vs - ?T"
    have S: "?S = ranges_set (L' @ R')" "ranges_ok (L' @ R')"
      using at_is_ok [OF a] a by (auto simp: elems_def at_def)
    have hdgap: "R' = [] \<or> ?j < fst (hd R')" using gap by (cases R') auto
    then have j: "?j \<notin> ?S" "unshifted ?S ?j = ?w"
      using splits_mem [OF sp S(2)] unshifted_zip(1) [OF S(2), of ?j] sp
      unfolding S(1) by (auto simp: splits_def)
    have "d < ?j" if "d \<in> N" for d
      using Cons.prems(8) that False j(2) unshifted_mono [of ?j d ?S] by (fastforce simp: not_less [symmetric])
    then have low: "\<forall>d \<in> ranges_set L' \<union> N. d < ?j" using splits_low [OF sp] by blast
    have mx: "2 \<le> mx" using a by (simp add: at_def cur_def)
    have bu': "built mx n (push_index mx b' ?j) (ranges_set L' \<union> insert ?j N)"
      using built_push [OF bu low mx] by simp
    have p5: "\<forall>u \<in> ?vs. \<forall>r \<in> set L'. snd r \<le> unshifted ?T u + range_total L'"
    proof (intro ballI)
      fix u r assume "u \<in> ?vs" "r \<in> set L'"
      then have "?w \<le> unshifted ?T u" "snd r \<le> ?j"
        using Cons.prems(3) sp by (auto simp: splits_def less_imp_le intro: unshifted_mono)
      then show "snd r \<le> unshifted ?T u + range_total L'" by simp
    qed
    have p7: "\<forall>d \<in> insert ?j N. \<forall>r \<in> set R'. d < fst r" using Cons.prems(7) R' gap by blast
    have p8: "\<forall>d \<in> insert ?j N. d \<notin> ?S \<and> (\<forall>u \<in> ?vs. unshifted ?S d < unshifted ?T u)"
      using Cons.prems(3,8) j unshifted_strict_mono [OF False] by auto
    have V: "set (v # vs) - ?T = insert v ?vs" using False by auto
    have P: "N \<union> placed ?S (unshifted ?T ` (set (v # vs) - ?T)) =
        insert ?j N \<union> placed ?S (unshifted ?T ` ?vs)"
      unfolding V by (simp add: placed_insert [OF j])
    have step: "add_shifted_loop mx cs by it sit (last_end LT) (range_total L) (range_total LT) b (v # vs) =
        add_shifted_loop mx cs by it' sit' (last_end LT') (range_total L') (range_total LT')
          (push_index mx b' ?j) vs"
      using sk stop(1) False cp w by simp
    show ?thesis
      unfolding step P
      by (rule Cons.IH [OF a sa _ lt' p5 bu' p7 p8]) (use Cons.prems(3) in simp)
  qed
qed

lemma length_push_norm: "length rs \<le> length (push_norm rs r)"
  by (auto simp: push_norm_def)

lemma length_foldl_push_norm: "length rs \<le> length (foldl push_norm rs R)"
  by (induction R arbitrary: rs) (auto intro: le_trans [OF length_push_norm])

lemma copy_ranges_ok:
  assumes "at mx cs it L R" "building g mx n b rs" "ranges_ok rs" "\<forall>s \<in> set rs. \<forall>r \<in> set R. snd s \<le> fst r"
    "g \<longrightarrow> length (foldl push_norm rs R) \<le> mx * n"
  shows "\<exists>b'. copy_ranges mx cs it b = Some b' \<and> building g mx n b' (foldl push_norm rs R) \<and>
     ranges_ok (foldl push_norm rs R) \<and> ranges_set (foldl push_norm rs R) = ranges_set rs \<union> ranges_set R"
  using assms
proof (induction R arbitrary: it L b rs)
  case Nil
  then show ?case using at_end_iff by (subst copy_ranges.simps) simp
next
  case (Cons r R)
  have step: "copy_ranges mx cs it b = copy_ranges mx cs (it_next cs it) (push_range mx b r)"
    using at_end_iff [OF Cons.prems(1)] at_deref [OF Cons.prems(1)] by (subst copy_ranges.simps) simp
  have r: "fst r < snd r" "\<forall>s \<in> set R. snd r \<le> fst s" and mx: "2 \<le> mx"
    using Cons.prems(1) by (auto simp: at_def cur_def less_imp_le)
  note p = push_norm_ok [OF Cons.prems(3) r(1)]
  have b: "building g mx n (push_range mx b r) (push_norm rs r)"
    using building_push [OF Cons.prems(2,3) r(1) mx] Cons.prems(5)
      length_foldl_push_norm [of "push_norm rs r" R] by fastforce
  have lo: "\<forall>s \<in> set (push_norm rs r). \<forall>q \<in> set R. snd s \<le> fst q"
    using p(3) Cons.prems(4) r(2) by (auto intro: le_trans)
  show ?case
    using Cons.IH [OF at_next [OF Cons.prems(1)] b p(1) lo] Cons.prems(4,5) p(2) step
    by (simp add: Un_assoc)
qed

lemma building_weaken: "building True mx n b rs \<Longrightarrow> building g mx n b rs"
  unfolding building_def closed_chunk_def open_chunk_def by blast

text \<open>
  \<open>add_shifted_by\<close> adds the indices of \<open>values\<close> outside \<open>shifted_by\<close>, moved to where they were
  before the indices of the set itself were removed. The cached counts of the result are right
  if it fits into the chunks the builder reserves at the start.
\<close>

lemma add_shifted_by_ok:
  assumes "is_ok mx cs" "is_ok mx by" "is_ok mx vs"
  shows "\<exists>cs'. add_shifted_by mx cs by vs = Some cs' \<and> ranges_ok (flat cs') \<and>
     elems cs' = elems cs \<union> placed (elems cs) (unshifted (elems by) ` (elems vs - elems by)) \<and>
     (length (flat cs') \<le> mx * (length (flat cs) div mx + 1) \<longrightarrow> is_ok mx cs')"
proof (cases "crv_empty vs")
  case True
  then have "elems vs = {}" using crv_empty_elems [OF assms(3)] by simp
  then show ?thesis using True assms(1) by (simp add: add_shifted_by_def is_ok_def)
next
  case False
  let ?n = "length (flat cs) div mx + 1"
  let ?N = "placed (elems cs) (unshifted (elems by) ` (elems vs - elems by))"
  obtain it L R b where
    l: "add_shifted_loop mx cs by (crv_begin cs) (crv_begin by) 0 0 0 (builder_new mx cs) (as_indexes vs) =
        Some (it, b)"
    and a: "at mx cs it L R" and bu: "built mx ?n b (ranges_set L \<union> ?N)"
    and gap: "\<forall>d \<in> ?N. \<forall>r \<in> set R. d < fst r"
    using add_shifted_loop_ok [OF at_begin [OF assms(1)] at_begin [OF assms(2)] as_indexes_sorted [OF assms(3)],
        where n = ?n and b = "builder_new mx cs" and N = "{}"]
      built_new [OF assms(1)] by (auto simp: last_end_def set_as_indexes)
  obtain rs where rs: "building True mx ?n b rs" "ranges_ok rs" "ranges_set rs = ranges_set L \<union> ?N"
    using bu by (auto simp: built_def)
  have "\<forall>d \<in> ranges_set rs. d < fst r" if "r \<in> set R" for r
    using that gap a ranges_set_below [of L "fst r"] rs(3) by (auto simp: at_def less_imp_le)
  then have lo: "\<forall>s \<in> set rs. \<forall>r \<in> set R. snd s \<le> fst r" using ranges_end_le [OF rs(2)] by blast
  let ?rs = "foldl push_norm rs R"
  obtain b' where cp: "copy_ranges mx cs it b = Some b'" and b': "building False mx ?n b' ?rs"
    and ok: "ranges_ok ?rs" and set: "ranges_set ?rs = ranges_set rs \<union> ranges_set R"
    using copy_ranges_ok [OF a building_weaken [OF rs(1), of False] rs(2) lo] by auto
  have fl: "flat (finalize b') = ?rs" using building_finalize [OF b' ok] by simp
  have "is_ok mx (finalize b')" if "length ?rs \<le> mx * ?n"
  proof -
    have "building True mx ?n b' ?rs" using copy_ranges_ok [OF a rs(1,2) lo] that cp by auto
    then show ?thesis
      using building_finalize [of True mx ?n b' ?rs] ok fl assms(1)
      by (simp add: is_ok_def crv_ok_def closed_chunk_True)
  qed
  moreover have "elems (finalize b') = elems cs \<union> ?N"
    using at_elems [OF a] rs(3) set fl by (auto simp: elems_def)
  ultimately show ?thesis using l cp fl ok False by (simp add: add_shifted_by_def)
qed

section \<open>A range copied into a chunk beyond the reserved ones\<close>

definition overflow_example :: chunks where
  "overflow_example = [\<lparr>cdata = [(5, 7)], cbegin = 5, cend = 7, ccount = 2\<rparr>]"

definition overflow_values :: chunks where
  "overflow_values = [\<lparr>cdata = [(0, 1), (2, 3)], cbegin = 0, cend = 3, ccount = 2\<rparr>]"

lemma overflow_example_ok: "is_ok 2 overflow_example" "is_ok 2 overflow_values"
  by (simp_all add: is_ok_def overflow_example_def overflow_values_def chunk_ok_def range_size_def)

lemma overflow_example_result: "add_shifted_by 2 overflow_example [] overflow_values = Some
  [\<lparr>cdata = [(0, 1), (2, 3)], cbegin = 0, cend = 3, ccount = 2\<rparr>,
   \<lparr>cdata = [(5, 7)], cbegin = 5, cend = 7, ccount = 1\<rparr>]"
  by code_simp

end
