(* ===== verification/IndexSetRemove.thy ===== *)
theory IndexSetRemove
  imports IndexSet
begin

text \<open>
  Removing indices from an index set without shifting the others: \<open>do_remove\<close>, \<open>remove\<close> of a
  run of indices and of another index set (\<open>ObjectStore/src/index_set.cpp\<close>).
\<close>

section \<open>Removing indices\<close>

text \<open>The body of the loop: \<open>b\<close> is \<open>begin\<close> after it has been trimmed to the range that was found.\<close>

definition remove_step :: "nat \<Rightarrow> chunks \<Rightarrow> iter \<Rightarrow> nat \<Rightarrow> nat \<Rightarrow> (chunks \<times> iter) option" where
  "remove_step mx cs it b e =
     (let r = deref cs it in
      if fst r < b \<and> e < snd r then
        let cs1 = it_set cs it (fst r) b
        in do {
          (cs2, it2) \<leftarrow> crv_insert mx cs1 (it_next cs1 it) (e, snd r);
          Some (cs2, it_prev cs2 it2)
        }
      else if b = fst r \<and> snd r \<le> e then Some (crv_erase cs it)
      else if b = fst r then Some (it_set cs it e (snd r), it)
      else Some (it_set cs it (fst r) b, it))"

partial_function (option) do_remove_loop ::
    "nat \<Rightarrow> chunks \<Rightarrow> iter \<Rightarrow> nat \<Rightarrow> nat \<Rightarrow> (chunks \<times> iter) option" where
  "do_remove_loop mx cs it b e =
     (if it \<noteq> crv_end cs \<and> fst (deref cs it) < e then
        let b' = max (fst (deref cs it)) b in
        do {
          (cs', it') \<leftarrow> remove_step mx cs it b' e;
          do_remove_loop mx cs' (find_from cs' b' it') b' e
        }
      else Some (cs, it))"

declare do_remove_loop.simps [code]

definition do_remove :: "nat \<Rightarrow> chunks \<Rightarrow> iter \<Rightarrow> nat \<Rightarrow> nat \<Rightarrow> (chunks \<times> iter) option" where
  "do_remove mx cs it b e = do_remove_loop mx cs (find_from cs b it) b e"

definition remove_range :: "nat \<Rightarrow> chunks \<Rightarrow> nat \<Rightarrow> nat \<Rightarrow> chunks option" where
  "remove_range mx cs index count =
     map_option fst (do_remove mx cs (find_it cs index) index (index + count))"

fun remove_all_from :: "nat \<Rightarrow> chunks \<Rightarrow> iter \<Rightarrow> range list \<Rightarrow> chunks option" where
  "remove_all_from mx cs it [] = Some cs"
| "remove_all_from mx cs it (r # rs) = do {
     (cs', it') \<leftarrow> do_remove mx cs it (fst r) (snd r);
     if it' = crv_end cs' then Some cs' else remove_all_from mx cs' it' rs
   }"

definition remove_all :: "nat \<Rightarrow> chunks \<Rightarrow> chunks \<Rightarrow> chunks option" where
  "remove_all mx cs values = remove_all_from mx cs (crv_begin cs) (flat values)"

text \<open>What one round of the loop leaves of the range it found, and how many rounds are left.\<close>

definition trimmed :: "range \<Rightarrow> nat \<Rightarrow> nat \<Rightarrow> range list" where
  "trimmed r b e =
     (if fst r < b \<and> e < snd r then [(fst r, b), (e, snd r)]
      else if b = fst r \<and> snd r \<le> e then []
      else if b = fst r then [(e, snd r)]
      else [(fst r, b)])"

definition todo :: "nat \<Rightarrow> nat \<Rightarrow> range list \<Rightarrow> nat" where
  "todo b e R = length (filter (\<lambda>r. fst r < e \<and> b < snd r) R)"

lemma todo_mono: "b \<le> b' \<Longrightarrow> todo b' e R \<le> todo b e R"
  unfolding todo_def by (induction R) auto

lemma trimmed_ok:
  assumes "ranges_ok (L @ r # R)" "splits b L (r # R)" "fst r < e" "b < e" "b' = max (fst r) b"
  shows "ranges_ok (L @ trimmed r b' e @ R)"
    and "ranges_set (trimmed r b' e) = range_set r - {b..<e}"
    and "todo b' e (trimmed r b' e @ R) < todo b e (r # R)"
    and "\<forall>x \<in> ranges_set (L @ r # R). b \<le> x \<longrightarrow> b' \<le> x"
proof -
  obtain x y where r: "r = (x, y)" by (rule prod.exhaust)
  have xy: "x < y" "b < y" "x < e" using assms by (auto simp: r splits_def)
  show "ranges_ok (L @ trimmed r b' e @ R)"
    using assms xy by (auto simp: trimmed_def r max_def)
  show "ranges_set (trimmed r b' e) = range_set r - {b..<e}"
    using assms xy by (auto simp: trimmed_def r max_def)
  have "todo b' e (trimmed r b' e) = 0"
    using assms xy by (auto simp: todo_def trimmed_def r max_def)
  moreover have "todo b e (r # R) = Suc (todo b e R)"
    using assms xy by (simp add: todo_def r)
  moreover have "todo b' e (trimmed r b' e @ R) = todo b' e (trimmed r b' e) + todo b' e R"
    by (simp add: todo_def)
  ultimately show "todo b' e (trimmed r b' e @ R) < todo b e (r # R)"
    using todo_mono [of b b' e R] assms(5) by simp
  show "\<forall>x \<in> ranges_set (L @ r # R). b \<le> x \<longrightarrow> b' \<le> x"
    using assms(1,2,5) splits_low [OF assms(2)] ranges_set_above [of R x]
    by (fastforce simp: r max_def mem_ranges_set)
qed

lemma remove_step_cur:
  assumes c: "cur mx cs it L (r # R)" and ok: "ranges_ok (L @ trimmed r b e @ R)"
  shows "\<exists>cs1 it1. remove_step mx cs it b e = Some (cs1, it1) \<and> cur mx cs1 it1 L (trimmed r b e @ R)"
proof -
  have get: "deref cs it = r" using crv.cur_get [OF c] .
  consider (split) "fst r < b" "e < snd r" | (all) "b = fst r" "snd r \<le> e"
    | (front) "b = fst r" "e < snd r" | (rear) "\<not> (fst r < b \<and> e < snd r)" "b \<noteq> fst r"
    by linarith
  then show ?thesis
  proof cases
    case split
    let ?cs1 = "it_set cs it (fst r) b"
    have c1: "cur mx ?cs1 (it_next ?cs1 it) (L @ [(fst r, b)]) R"
      using crv.cur_next [OF crv.cur_set [OF c]] .
    have "ranges_ok (L @ [(fst r, b)] @ (e, snd r) # R)"
      using ok split by (simp add: trimmed_def)
    from crv.insert_then_prev [OF c1 this] obtain cs2 it2 where
      "crv_insert mx ?cs1 (it_next ?cs1 it) (e, snd r) = Some (cs2, it2)"
      "cur mx cs2 (it_prev cs2 it2) L ((fst r, b) # (e, snd r) # R)" by blast
    then show ?thesis using split get by (simp add: trimmed_def remove_step_def Let_def)
  next
    case all
    obtain cs1 it1 where e: "crv_erase cs it = (cs1, it1)" by (rule prod.exhaust)
    have "remove_step mx cs it b e = Some (cs1, it1)" "trimmed r b e = []"
      using all get e by (simp_all add: remove_step_def trimmed_def)
    then show ?thesis using crv.cur_erase [OF c e] by (metis append_Nil)
  next
    case front
    then have "remove_step mx cs it b e = Some (it_set cs it e (snd r), it)" "trimmed r b e = [(e, snd r)]"
      using get by (simp_all add: remove_step_def trimmed_def)
    then show ?thesis using crv.cur_set [OF c] by (metis append_Cons append_Nil)
  next
    case rear
    then have "remove_step mx cs it b e = Some (it_set cs it (fst r) b, it)" "trimmed r b e = [(fst r, b)]"
      using get by (auto simp: remove_step_def trimmed_def)
    then show ?thesis using crv.cur_set [OF c] by (metis append_Cons append_Nil)
  qed
qed

lemma do_remove_loop_ok:
  assumes "at mx cs it L R" "splits b L R" "b < e"
  shows "\<exists>cs' it' L' R'. do_remove_loop mx cs it b e = Some (cs', it') \<and> at mx cs' it' L' R' \<and>
    (\<forall>r \<in> set L'. snd r \<le> e) \<and> elems cs' = elems cs - {b..<e}"
  using assms
proof (induction "todo b e R" arbitrary: b cs it L R rule: less_induct)
  case less
  note a = less.prems(1) and sp = less.prems(2)
  have c: "cur mx cs it L R" and ok: "ranges_ok (L @ R)" using a by (auto simp: at_def)
  show ?case
  proof (cases "R \<noteq> [] \<and> fst (hd R) < e")
    case False
    then have stop: "do_remove_loop mx cs it b e = Some (cs, it)"
      using at_end_iff [OF a] at_deref [of mx cs it L "hd R" "tl R"] a
      by (subst do_remove_loop.simps) auto
    have "\<forall>x \<in> ranges_set R. e \<le> x"
      using False ok by (cases R) (fastforce simp: mem_ranges_set)+
    then have "elems cs = elems cs - {b..<e}"
      using at_elems [OF a] splits_low [OF sp] by fastforce
    then show ?thesis
      using stop a sp less.prems(3) by (fastforce simp: splits_def)
  next
    case True
    then obtain r R' where R: "R = r # R'" and re: "fst r < e" by (cases R) auto
    let ?b = "max (fst r) b"
    note tr = trimmed_ok [OF ok [unfolded R] sp [unfolded R] re less.prems(3) refl]
    have ne: "it \<noteq> crv_end cs" using at_end_iff [OF a] R by simp
    have get: "deref cs it = r" using at_deref a R by blast
    have sb: "b < snd r" using sp R by (simp add: splits_def)
    obtain cs1 it1 where body: "remove_step mx cs it ?b e = Some (cs1, it1)"
        and c1: "cur mx cs1 it1 L (trimmed r ?b e @ R')"
      using remove_step_cur [OF c [unfolded R] tr(1)] by blast
    have a1: "at mx cs1 it1 L (trimmed r ?b e @ R')" using c1 tr(1) by (simp add: at_def)
    have L1: "\<forall>r \<in> set L. snd r \<le> ?b" using sp by (auto simp: splits_def)
    obtain A B where AB: "trimmed r ?b e @ R' = A @ B" and a2: "at mx cs1 (find_from cs1 ?b it1) (L @ A) B"
        and sp2: "splits ?b (L @ A) B"
      using find_from_splits [OF a1 L1] .
    have "todo ?b e B \<le> todo ?b e (trimmed r ?b e @ R')" unfolding AB by (simp add: todo_def)
    then have "todo ?b e B < todo b e R" using tr(3) R by simp
    from less.hyps [OF this a2 sp2] re less.prems(3) obtain cs' it' L' Rx where
      fin: "do_remove_loop mx cs1 (find_from cs1 ?b it1) ?b e = Some (cs', it')"
      "at mx cs' it' L' Rx" "\<forall>r \<in> set L'. snd r \<le> e" "elems cs' = elems cs1 - {?b..<e}" by auto
    have "do_remove_loop mx cs it b e = Some (cs', it')"
      using ne get re body fin(1) by (subst do_remove_loop.simps) (simp add: Let_def)
    moreover have "elems cs' = elems cs - {b..<e}"
    proof -
      have "elems cs1 = ranges_set L \<union> (range_set r - {b..<e}) \<union> ranges_set R'"
        using at_elems [OF a1] tr(2) by auto
      moreover have "elems cs = ranges_set (L @ r # R')" using at_elems [OF a] R by simp
      moreover have "x \<notin> ranges_set L" if "b \<le> x" for x
        using that splits_low [OF sp] by fastforce
      ultimately show ?thesis unfolding fin(4) using tr(4) by auto
    qed
    ultimately show ?thesis using fin by blast
  qed
qed

lemma do_remove_ok:
  assumes "at mx cs it L R" "\<forall>r \<in> set L. snd r \<le> b" "b < e"
  shows "\<exists>cs' it' L' R'. do_remove mx cs it b e = Some (cs', it') \<and> at mx cs' it' L' R' \<and>
    (\<forall>r \<in> set L'. snd r \<le> e) \<and> elems cs' = elems cs - {b..<e}"
proof -
  obtain A B where "at mx cs (find_from cs b it) (L @ A) B" "splits b (L @ A) B"
    using find_from_splits [OF assms(1,2)] .
  from do_remove_loop_ok [OF this assms(3)] show ?thesis by (simp add: do_remove_def)
qed

lemma remove_range_ok [set_specs]:
  assumes "is_ok mx cs" "0 < count"
  shows "\<exists>cs'. remove_range mx cs index count = Some cs' \<and> is_ok mx cs' \<and>
    elems cs' = elems cs - {index..<index + count}"
proof -
  obtain L R where "at mx cs (find_it cs index) L R" "splits index L R"
    using find_it_splits [OF assms(1), of index] .
  then have "at mx cs (find_it cs index) L R" "\<forall>r \<in> set L. snd r \<le> index"
    by (auto simp: splits_def)
  from do_remove_ok [OF this, of "index + count"] assms(2) show ?thesis
    using at_is_ok by (fastforce simp: remove_range_def)
qed

lemma remove_all_from_ok:
  assumes "at mx cs it L R" "ranges_ok rs" "\<forall>r \<in> set L. \<forall>s \<in> set rs. snd r \<le> fst s"
  shows "\<exists>cs'. remove_all_from mx cs it rs = Some cs' \<and> is_ok mx cs' \<and> elems cs' = elems cs - ranges_set rs"
  using assms
proof (induction rs arbitrary: cs it L R)
  case Nil
  then show ?case using at_is_ok by auto
next
  case (Cons r rs)
  have "\<forall>x \<in> set L. snd x \<le> fst r" "fst r < snd r" using Cons.prems by auto
  from do_remove_ok [OF Cons.prems(1) this] obtain cs' it' L' R' where
    d: "do_remove mx cs it (fst r) (snd r) = Some (cs', it')" "at mx cs' it' L' R'"
    "\<forall>x \<in> set L'. snd x \<le> snd r" "elems cs' = elems cs - {fst r..<snd r}" by blast
  have low: "\<forall>x \<in> set L'. \<forall>s \<in> set rs. snd x \<le> fst s"
    using d(3) Cons.prems(2) by (meson less_imp_le order_trans ranges_ok_Cons)
  show ?case
  proof (cases "it' = crv_end cs'")
    case True
    then have "elems cs' = ranges_set L'" using at_end_iff [OF d(2)] at_elems [OF d(2)] by simp
    moreover have "x < snd r" if "x \<in> ranges_set L'" for x
      using d(3) ranges_set_below that by blast
    moreover have "snd r < x" if "x \<in> ranges_set rs" for x
      using Cons.prems(2) that by (fastforce simp: mem_ranges_set)
    ultimately have "elems cs' = elems cs - ranges_set (r # rs)"
      using d(4) by (fastforce simp: range_set_def)
    then show ?thesis using d True at_is_ok [OF d(2)] by simp
  next
    case False
    from Cons.IH [OF d(2) _ low] Cons.prems(2) obtain cs'' where
      "remove_all_from mx cs' it' rs = Some cs''" "is_ok mx cs''" "elems cs'' = elems cs' - ranges_set rs"
      by auto
    with d False show ?thesis by (auto simp: range_set_def)
  qed
qed

lemma remove_all_ok [set_specs]:
  assumes "is_ok mx cs" "ranges_ok (flat values)"
  shows "\<exists>cs'. remove_all mx cs values = Some cs' \<and> is_ok mx cs' \<and> elems cs' = elems cs - elems values"
  using remove_all_from_ok [OF at_begin [OF assms(1)] assms(2)] by (simp add: remove_all_def elems_def)

end
