(* ===== verification/IndexSetOps.thy ===== *)
theory IndexSetOps
  imports IndexSetMerge IndexSetRemove
begin

text \<open>
  The interface of \<open>IndexSet\<close> that \<open>CollectionChangeBuilder\<close> is a client of, as the locale
  \<open>index_set\<close> with the model as its interpretation, and the correspondence between the
  positions of a collection before and after a set of deletions and insertions, which gives the
  operations on pairs of index sets their meaning.
\<close>

section \<open>Positions before and after a change\<close>

text \<open>
  Deleting the positions \<open>D\<close> of the old collection and then inserting the positions \<open>I\<close> of the
  new one takes the element at \<open>r\<close> to \<open>j\<close>.
\<close>

definition corr :: "nat set \<Rightarrow> nat set \<Rightarrow> nat \<Rightarrow> nat \<Rightarrow> bool" where
  "corr D I r j \<longleftrightarrow> r \<notin> D \<and> j \<notin> I \<and> unshifted D r = unshifted I j"

lemma corr_commute: "corr D I r j \<longleftrightarrow> corr I D j r"
  by (auto simp: corr_def)

lemma corr_inj: "corr D I r j \<Longrightarrow> corr D I r' j \<Longrightarrow> r = r'"
  using unshifted_inj by (fastforce simp: corr_def)

lemma corr_fun: "corr D I r j \<Longrightarrow> corr D I r j' \<Longrightarrow> j = j'"
  using unshifted_inj [of j I j'] by (simp add: corr_def)

lemma unshifted_less_iff: "i \<notin> S \<Longrightarrow> j \<notin> S \<Longrightarrow> unshifted S i < unshifted S j \<longleftrightarrow> i < j"
  using unshifted_strict_mono [of i S j] unshifted_mono [of j i S] by (auto simp: not_less [symmetric])

lemma ex_shifted:
  assumes "finite S"
  obtains j where "j \<notin> S" "unshifted S j = i"
proof -
  obtain cs where "is_ok 4 cs" "elems cs = S"
    using of_indices_ok [of 4 "[]" "sorted_list_of_set S"] is_ok_empty [of 4] assms by auto
  with shift_index_ok [of 4 cs i] that show thesis by blast
qed

lemma placed_Un: "placed P (X \<union> Y) = placed P X \<union> placed P Y"
  by (auto simp: placed_def)

lemma finite_placed:
  assumes "finite P" "finite X"
  shows "finite (placed P X)"
proof -
  have "placed P X \<subseteq> (\<Union>x \<in> X. {..x + card P})"
  proof
    fix r assume "r \<in> placed P X"
    moreover have "r \<le> unshifted P r + card P"
      using card_mono [of P "P \<inter> {..<r}"] assms(1) by (simp add: unshifted_def)
    ultimately show "r \<in> (\<Union>x \<in> X. {..x + card P})" by (auto simp: placed_def)
  qed
  then show ?thesis by (rule finite_subset) (simp add: assms(2))
qed

lemma card_placed_below:
  assumes "finite A" "r \<notin> A" "finite C" "j \<notin> B" "unshifted A r = unshifted B j" "C \<inter> B = {}"
  shows "card (placed A (unshifted B ` C) \<inter> {..<r}) = card (C \<inter> {..<j})"
proof -
  have "\<exists>x. x \<notin> A \<and> unshifted A x = unshifted B c" for c using ex_shifted [OF assms(1)] by metis
  then obtain f where f: "f c \<notin> A" "unshifted A (f c) = unshifted B c" for c by metis
  have "placed A (unshifted B ` C) = f ` C"
  proof (intro set_eqI iffI)
    fix x assume "x \<in> placed A (unshifted B ` C)"
    then obtain c where "c \<in> C" "x \<notin> A" "unshifted A x = unshifted A (f c)" using f by (auto simp: placed_def)
    then show "x \<in> f ` C" using f(1) unshifted_inj [of x A "f c"] by blast
  qed (use f in \<open>auto simp: placed_def\<close>)
  moreover have "f c < r \<longleftrightarrow> c < j" if "c \<in> C" for c
  proof -
    have "c \<notin> B" using that assms(6) by blast
    then show ?thesis
      using unshifted_less_iff [OF f(1) assms(2), of c] unshifted_less_iff [of c B j] f(2) [of c] assms(4,5)
      by simp
  qed
  ultimately have "placed A (unshifted B ` C) \<inter> {..<r} = f ` (C \<inter> {..<j})" by auto
  moreover have "inj_on f C"
  proof (rule inj_onI)
    fix c d assume "c \<in> C" "d \<in> C" "f c = f d"
    then have "unshifted B c = unshifted B d" "c \<notin> B" "d \<notin> B" using f(2) assms(6) by (metis, blast+)
    then show "c = d" using unshifted_inj by blast
  qed
  ultimately show ?thesis by (simp add: card_image inj_on_Int)
qed

lemma unshifted_Un: "finite A \<Longrightarrow> finite B \<Longrightarrow> A \<inter> B = {} \<Longrightarrow>
    unshifted (A \<union> B) i = i - card (A \<inter> {..<i}) - card (B \<inter> {..<i})"
proof -
  assume a: "finite A" "finite B" "A \<inter> B = {}"
  then have "card ((A \<union> B) \<inter> {..<i}) = card (A \<inter> {..<i}) + card (B \<inter> {..<i})"
    unfolding Int_Un_distrib2 by (intro card_Un_disjoint) auto
  then show ?thesis by (simp add: unshifted_def)
qed

lemma unshifted_compose:
  assumes "finite A" "finite B" "finite C" "r \<notin> A" "j \<notin> B" "unshifted A r = unshifted B j"
  shows "unshifted (A \<union> placed A (unshifted B ` (C - B))) r = unshifted (B \<union> C) j"
proof -
  have disj: "A \<inter> placed A (unshifted B ` (C - B)) = {}" by (auto simp: placed_def)
  have fin: "finite (placed A (unshifted B ` (C - B)))" using assms(1,3) by (simp add: finite_placed)
  have "unshifted (A \<union> placed A (unshifted B ` (C - B))) r =
      unshifted A r - card (placed A (unshifted B ` (C - B)) \<inter> {..<r})"
    unfolding unshifted_Un [OF assms(1) fin disj] by (simp only: unshifted_def [of A r])
  also have "\<dots> = unshifted B j - card ((C - B) \<inter> {..<j})"
  proof -
    have "(C - B) \<inter> B = {}" by auto
    with card_placed_below [OF assms(1,4) _ assms(5,6), of "C - B"] assms(3,6) show ?thesis by simp
  qed
  also have "\<dots> = unshifted (B \<union> (C - B)) j"
    using unshifted_Un [of B "C - B" j] assms(2,3) by (simp add: unshifted_def [of B j])
  finally show ?thesis by simp
qed

text \<open>
  Two changes after each other are one change: the new deletions go back through the first
  insertions, and the first insertions go forward through the second change.
\<close>

definition comp_del :: "nat set \<Rightarrow> nat set \<Rightarrow> nat set \<Rightarrow> nat set" where
  "comp_del D1 I1 D2 = D1 \<union> placed D1 (unshifted I1 ` (D2 - I1))"

definition comp_ins :: "nat set \<Rightarrow> nat set \<Rightarrow> nat set \<Rightarrow> nat set" where
  "comp_ins I1 D2 I2 = I2 \<union> placed I2 (unshifted D2 ` (I1 - D2))"

lemma not_unshifted_image: "j \<notin> B \<Longrightarrow> j \<notin> C \<Longrightarrow> unshifted B j \<notin> unshifted B ` (C - B)"
proof
  assume j: "j \<notin> B" "j \<notin> C" and "unshifted B j \<in> unshifted B ` (C - B)"
  then obtain d where "d \<in> C" "d \<notin> B" "unshifted B j = unshifted B d" by blast
  with j show False using unshifted_inj [of j B d] by blast
qed

theorem corr_compose:
  assumes "finite D1" "finite I1" "finite D2" "finite I2"
  shows "corr (comp_del D1 I1 D2) (comp_ins I1 D2 I2) r k \<longleftrightarrow> (\<exists>j. corr D1 I1 r j \<and> corr D2 I2 j k)"
proof
  assume "\<exists>j. corr D1 I1 r j \<and> corr D2 I2 j k"
  then obtain j where 1: "r \<notin> D1" "j \<notin> I1" "unshifted D1 r = unshifted I1 j"
    and 2: "j \<notin> D2" "k \<notin> I2" "unshifted D2 j = unshifted I2 k" by (auto simp: corr_def)
  have "r \<notin> comp_del D1 I1 D2"
    using 1 not_unshifted_image [OF 1(2) 2(1)] by (simp add: comp_del_def placed_def)
  moreover have "k \<notin> comp_ins I1 D2 I2"
    using 2 not_unshifted_image [OF 2(1) 1(2)] by (simp add: comp_ins_def placed_def)
  moreover have "unshifted (comp_del D1 I1 D2) r = unshifted (I1 \<union> D2) j"
    unfolding comp_del_def by (rule unshifted_compose) (use assms 1 in auto)
  moreover have "unshifted (comp_ins I1 D2 I2) k = unshifted (D2 \<union> I1) j"
    unfolding comp_ins_def by (rule unshifted_compose) (use assms 2 in auto)
  ultimately show "corr (comp_del D1 I1 D2) (comp_ins I1 D2 I2) r k" by (simp add: corr_def Un_commute)
next
  assume c: "corr (comp_del D1 I1 D2) (comp_ins I1 D2 I2) r k"
  then have r: "r \<notin> D1" and k: "k \<notin> I2"
    and rp: "unshifted D1 r \<notin> unshifted I1 ` (D2 - I1)" and kp: "unshifted I2 k \<notin> unshifted D2 ` (I1 - D2)"
    by (auto simp: corr_def comp_del_def comp_ins_def placed_def)
  obtain j where j: "j \<notin> I1" "unshifted I1 j = unshifted D1 r" using ex_shifted [OF assms(2)] .
  obtain j' where j': "j' \<notin> D2" "unshifted D2 j' = unshifted I2 k" using ex_shifted [OF assms(3)] .
  have jj: "j \<notin> D2" "j' \<notin> I1" using rp kp j j' by (metis DiffI imageI)+
  have "unshifted (comp_del D1 I1 D2) r = unshifted (I1 \<union> D2) j"
    unfolding comp_del_def by (rule unshifted_compose) (use assms r j in auto)
  moreover have "unshifted (comp_ins I1 D2 I2) k = unshifted (D2 \<union> I1) j'"
    unfolding comp_ins_def by (rule unshifted_compose) (use assms k j' in auto)
  ultimately have "unshifted (I1 \<union> D2) j = unshifted (I1 \<union> D2) j'"
    using c by (simp add: corr_def Un_commute)
  then have "j = j'" using j j' jj unshifted_inj [of j "I1 \<union> D2" j'] by simp
  then show "\<exists>j. corr D1 I1 r j \<and> corr D2 I2 j k" using r k j j' jj by (auto simp: corr_def)
qed

text \<open>Single positions as changes.\<close>

lemma unshifted_single: "unshifted {i} x = (if i < x then x - 1 else x)"
  by (auto simp: unshifted_def)

lemma unshifted_run: "unshifted {i..<i + n} x = (if x < i then x else if x < i + n then i else x - n)"
proof -
  have "{i..<i + n} \<inter> {..<x} = (if x < i then {} else if x < i + n then {i..<x} else {i..<i + n})" by auto
  then show ?thesis by (auto simp: unshifted_def)
qed

lemma close_eq_unshifted: "close i S = unshifted {i} ` (S - {i})"
proof (intro set_eqI iffI)
  fix x assume "x \<in> close i S"
  then consider "x \<in> S" "x < i" | "i \<le> x" "x + 1 \<in> S" by (auto simp: mem_close)
  then show "x \<in> unshifted {i} ` (S - {i})"
  proof cases
    case 1
    then show ?thesis by (intro image_eqI [of _ _ x]) (auto simp: unshifted_single)
  next
    case 2
    then show ?thesis by (intro image_eqI [of _ _ "x + 1"]) (auto simp: unshifted_single)
  qed
qed (auto simp: mem_close unshifted_single split: if_splits)

lemma spread_eq_placed:
  assumes "0 < n"
  shows "spread i n S = placed {i..<i + n} S"
proof (intro set_eqI iffI)
  fix x assume x: "x \<in> placed {i..<i + n} S"
  show "x \<in> spread i n S"
  proof (cases "x < i")
    case False
    then have "x - n \<in> S" "i \<le> x - n" "x = x - n + n" using x by (auto simp: placed_def unshifted_run)
    then show ?thesis unfolding spread_def by blast
  qed (use x in \<open>simp add: placed_def spread_def unshifted_run\<close>)
qed (auto simp: placed_def spread_def unshifted_run)

lemma placed_no_position [simp]: "placed {} X = X"
  by (auto simp: placed_def)

lemma unshifted_no_position [simp]: "unshifted {} = (\<lambda>x. x)"
  by (simp add: unshifted_def fun_eq_iff)

lemma comp_simps:
  "comp_del D I {} = D" "comp_ins I {} J = J \<union> placed J I" "comp_ins I {i} {} = close i I"
  by (auto simp: comp_del_def comp_ins_def close_eq_unshifted)

section \<open>The interface\<close>

text \<open>
  What \<open>CollectionChangeBuilder\<close> calls: \<open>ok\<close> is the invariant of an index set and \<open>els\<close> the
  set it stands for. Every law says that the operation returns, keeps the invariant, and has
  its effect on the set. The derived lemmas are the steps of \<open>insert\<close>, \<open>erase\<close>, \<open>move\<close> and
  \<open>merge\<close> on the pair of deletions and insertions.
\<close>

locale index_set =
  fixes ok :: "'s \<Rightarrow> bool"
    and els :: "'s \<Rightarrow> nat set"
    and mem :: "'s \<Rightarrow> nat \<Rightarrow> bool"
    and add_ix :: "'s \<Rightarrow> nat \<Rightarrow> 's option"
    and ins_at :: "'s \<Rightarrow> nat \<Rightarrow> nat \<Rightarrow> 's option"
    and ers_at :: "'s \<Rightarrow> nat \<Rightarrow> 's option"
    and ers_all ins_all shift_all :: "'s \<Rightarrow> 's \<Rightarrow> 's option"
    and shift_ix :: "'s \<Rightarrow> nat \<Rightarrow> nat"
    and unshift_ix :: "'s \<Rightarrow> nat \<Rightarrow> nat option"
    and ers_unshift :: "'s \<Rightarrow> nat \<Rightarrow> ('s \<times> nat) option"
    and add_sh :: "'s \<Rightarrow> nat \<Rightarrow> ('s \<times> nat) option"
  assumes fin_els: "finite (els s)"
    and mem_els: "ok s \<Longrightarrow> mem s i \<longleftrightarrow> i \<in> els s"
    and add_law: "ok s \<Longrightarrow> \<exists>s'. add_ix s i = Some s' \<and> ok s' \<and> els s' = insert i (els s)"
    and ins_law: "ok s \<Longrightarrow> 0 < n \<Longrightarrow>
          \<exists>s'. ins_at s i n = Some s' \<and> ok s' \<and> els s' = spread i n (els s) \<union> {i..<i + n}"
    and ers_law: "ok s \<Longrightarrow> \<exists>s'. ers_at s i = Some s' \<and> ok s' \<and> els s' = close i (els s)"
    and ers_all_law: "ok s \<Longrightarrow> ok t \<Longrightarrow>
          \<exists>s'. ers_all s t = Some s' \<and> ok s' \<and> els s' = unshifted (els t) ` (els s - els t)"
    and ins_all_law: "ok s \<Longrightarrow> ok t \<Longrightarrow>
          \<exists>s'. ins_all s t = Some s' \<and> ok s' \<and> els s' = els t \<union> placed (els t) (els s)"
    and shift_all_law: "ok s \<Longrightarrow> ok t \<Longrightarrow>
          \<exists>s'. shift_all s t = Some s' \<and> ok s' \<and> els s' = placed (els t) (els s)"
    and shift_law: "ok s \<Longrightarrow> shift_ix s i \<notin> els s \<and> unshifted (els s) (shift_ix s i) = i"
    and unshift_law: "ok s \<Longrightarrow> unshift_ix s i = Some (unshifted (els s) i)"
    and ers_unshift_law: "ok s \<Longrightarrow> \<exists>s'. ers_unshift s i =
          Some (s', if i \<in> els s then npos else unshifted (els s) i) \<and> ok s' \<and> els s' = close i (els s)"
    and add_sh_law: "ok s \<Longrightarrow> \<exists>s' j. add_sh s i = Some (s', j) \<and> ok s' \<and> els s' = insert j (els s) \<and>
          j \<notin> els s \<and> unshifted (els s) j = i"
begin

lemma shift_unshift: "ok s \<Longrightarrow> i \<notin> els s \<Longrightarrow> map_option (shift_ix s) (unshift_ix s i) = Some i"
  using shift_law [of s "unshifted (els s) i"] unshifted_inj by (auto simp: unshift_law)

lemma unshift_shift: "ok s \<Longrightarrow> unshift_ix s (shift_ix s i) = Some i"
  using shift_law [of s i] by (simp add: unshift_law)

lemma shift_mono: "ok s \<Longrightarrow> i < j \<Longrightarrow> shift_ix s i < shift_ix s j"
  using shift_law [of s i] shift_law [of s j] unshifted_mono [of "shift_ix s j" "shift_ix s i" "els s"]
  by (auto simp: not_less [symmetric])

lemma insert_then_erase:
  assumes "ok s"
  shows "\<exists>s1 s2. ins_at s i 1 = Some s1 \<and> ers_at s1 i = Some s2 \<and> els s2 = els s"
proof -
  obtain s1 where 1: "ins_at s i 1 = Some s1" "ok s1" "els s1 = spread i 1 (els s) \<union> {i..<i + 1}"
    using ins_law [OF assms, of 1 i] by auto
  obtain s2 where 2: "ers_at s1 i = Some s2" "els s2 = close i (els s1)" using ers_law [OF 1(2)] by blast
  have "els s2 = els s" unfolding 2(2) 1(3) by (auto simp: mem_close spread_def)
  with 1(1) 2(1) show ?thesis by blast
qed

text \<open>The position a row of the new collection had in the old one.\<close>

lemma old_position:
  "ok d \<Longrightarrow> ok i \<Longrightarrow> \<not> mem i j \<Longrightarrow>
     \<exists>r. map_option (shift_ix d) (unshift_ix i j) = Some r \<and> corr (els d) (els i) r j"
  using shift_law [of d "unshifted (els i) j"] by (auto simp: mem_els unshift_law corr_def)

lemma erase_step:
  assumes "ok d" "ok i" "x < npos"
  shows "\<exists>i' u. ers_unshift i x = Some (i', u) \<and> ok i' \<and> els i' = comp_ins (els i) {x} {} \<and>
    (u = npos \<longleftrightarrow> x \<in> els i) \<and> (u = npos \<longrightarrow> els d = comp_del (els d) (els i) {x}) \<and>
    (u \<noteq> npos \<longrightarrow> (\<exists>d' r. add_sh d u = Some (d', r) \<and> ok d' \<and> els d' = comp_del (els d) (els i) {x} \<and>
       corr (els d) (els i) r x))"
proof -
  obtain i' where i': "ers_unshift i x = Some (i', if x \<in> els i then npos else unshifted (els i) x)"
    "ok i'" "els i' = close x (els i)" using ers_unshift_law [OF assms(2)] by blast
  show ?thesis
  proof (cases "x \<in> els i")
    case True
    then show ?thesis using i' by (auto simp: comp_simps comp_del_def placed_def)
  next
    case False
    have "unshifted (els i) x \<noteq> npos" using assms(3) by (simp add: unshifted_def)
    moreover obtain d' r where "add_sh d (unshifted (els i) x) = Some (d', r)" "ok d'"
      "els d' = insert r (els d)" "r \<notin> els d" "unshifted (els d) r = unshifted (els i) x"
      using add_sh_law [OF assms(1)] by metis
    moreover then have "els d' = comp_del (els d) (els i) {x}"
      using False placed_insert [of r "els d" "unshifted (els i) x" "{}"]
      by (simp add: comp_del_def insert_Diff_if)
    ultimately show ?thesis using i' False by (auto simp: comp_simps corr_def)
  qed
qed

lemma insert_step:
  assumes "ok i" "0 < n"
  shows "\<exists>i'. ins_at i x n = Some i' \<and> ok i' \<and> els i' = comp_ins (els i) {} {x..<x + n}"
  using ins_law [OF assms, of x] spread_eq_placed [OF assms(2), of x "els i"]
  by (auto simp: comp_simps Un_commute)

lemma merge_step:
  assumes "ok i" "ok d2" "ok i2"
  shows "\<exists>j i'. ers_all i d2 = Some j \<and> ins_all j i2 = Some i' \<and> ok i' \<and>
    els i' = comp_ins (els i) (els d2) (els i2)"
  using ers_all_law [OF assms(1,2)] ins_all_law [OF _ assms(3)] by (fastforce simp: comp_ins_def)

end

interpretation ixs: index_set "is_ok mx" elems contains "add mx" "insert_at mx" erase_at
    "erase_at_all mx" "insert_at_all mx" "shift_for_insert_at_all mx"
    shift_index unshift_index erase_or_unshift "add_shifted mx"
  for mx
  by unfold_locales
    (rule finite_elems, erule contains_elems, erule add_ok, erule (1) insert_at_ok, erule erase_at_ok,
      erule (1) erase_at_all_ok, erule (1) insert_at_all_ok, erule (1) shift_for_insert_at_all_ok,
      intro conjI shift_index_ok, assumption+, erule unshift_index_ok, erule erase_or_unshift_ok,
      erule add_shifted_ok)

end
