(* ===== verification/ChangeBuilder.thy ===== *)
theory ChangeBuilder
  imports IndexSetOps "HOL-Library.AList"
begin

text \<open>
  \<open>CollectionChangeSet\<close> (\<open>include/collection_notifications.hpp\<close>) and
  \<open>CollectionChangeBuilder\<close> (\<open>ObjectStore/src/impl/collection_change_builder.cpp\<close>): the changes
  between two versions of a collection, recorded one at a time and merged. The column keys of
  the \<open>unordered_map\<close> are an association list.
\<close>

section \<open>State\<close>

record move =
  mfrom :: nat
  mto :: nat

type_synonym columns = "(int \<times> chunks) list"

record change_set =
  deletions :: chunks
  insertions :: chunks
  modifications :: chunks
  modifications_new :: chunks
  moves :: "move list"
  columns :: columns

record change_builder = change_set +
  track_columns :: bool

definition cs_empty :: "'a change_set_scheme \<Rightarrow> bool" where
  "cs_empty c \<longleftrightarrow> crv_empty (deletions c) \<and> crv_empty (insertions c) \<and> crv_empty (modifications c) \<and>
     crv_empty (modifications_new c) \<and> moves c = []"

definition empty_builder :: change_builder where
  "empty_builder = \<lparr>deletions = [], insertions = [], modifications = [], modifications_new = [],
     moves = [], columns = [], track_columns = True\<rparr>"

fun add_moves :: "nat \<Rightarrow> change_builder \<Rightarrow> move list \<Rightarrow> change_builder option" where
  "add_moves mx c [] = Some c"
| "add_moves mx c (m # ms) = do {
     d \<leftarrow> add mx (deletions c) (mfrom m);
     i \<leftarrow> add mx (insertions c) (mto m);
     add_moves mx (c\<lparr>deletions := d, insertions := i\<rparr>) ms
   }"

definition new_builder ::
    "nat \<Rightarrow> chunks \<Rightarrow> chunks \<Rightarrow> chunks \<Rightarrow> move list \<Rightarrow> change_builder option" where
  "new_builder mx del ins mods ms =
     add_moves mx (empty_builder\<lparr>deletions := del, insertions := ins, modifications := mods,
       moves := ms\<rparr>) ms"

section \<open>Columns\<close>

definition col_of :: "columns \<Rightarrow> int \<Rightarrow> chunks" where
  "col_of cols k = (case map_of cols k of None \<Rightarrow> [] | Some s \<Rightarrow> s)"

fun map_cols :: "(chunks \<Rightarrow> chunks option) \<Rightarrow> columns \<Rightarrow> columns option" where
  "map_cols f [] = Some []"
| "map_cols f ((k, s) # cols) = do {
     s' \<leftarrow> f s;
     cols' \<leftarrow> map_cols f cols;
     Some ((k, s') # cols')
   }"

definition for_each_col :: "(chunks \<Rightarrow> chunks option) \<Rightarrow> change_builder \<Rightarrow> change_builder option" where
  "for_each_col f c = do {
     m \<leftarrow> f (modifications c);
     cols \<leftarrow> (if track_columns c then map_cols f (columns c) else Some (columns c));
     Some (c\<lparr>modifications := m, columns := cols\<rparr>)
   }"

section \<open>Recording single changes\<close>

definition modify :: "nat \<Rightarrow> change_builder \<Rightarrow> nat \<Rightarrow> int option \<Rightarrow> change_builder option" where
  "modify mx c ndx col = do {
     m \<leftarrow> add mx (modifications c) ndx;
     let c = c\<lparr>modifications := m\<rparr>;
     case col of
       None \<Rightarrow> Some c
     | Some k \<Rightarrow>
         if \<not> track_columns c then Some c
         else do {
           s \<leftarrow> add mx (col_of (columns c) k) ndx;
           Some (c\<lparr>columns := AList.update k s (columns c)\<rparr>)
         }
   }"

definition insert_rows :: "nat \<Rightarrow> change_builder \<Rightarrow> nat \<Rightarrow> nat \<Rightarrow> bool \<Rightarrow> change_builder option" where
  "insert_rows mx c index count track_moves = do {
     realm_assert (count \<noteq> 0);
     c \<leftarrow> for_each_col (\<lambda>col. shift_for_insert_at mx col index count) c;
     if \<not> track_moves then Some c
     else do {
       i \<leftarrow> insert_at mx (insertions c) index count;
       Some (c\<lparr>insertions := i,
         moves := map (\<lambda>m. if index \<le> mto m then m\<lparr>mto := mto m + count\<rparr> else m) (moves c)\<rparr>)
     }
   }"

fun erase_moves :: "nat \<Rightarrow> move list \<Rightarrow> move list" where
  "erase_moves index [] = []"
| "erase_moves index (m # ms) =
     (if mto m = index then erase_moves index ms
      else (if index < mto m then m\<lparr>mto := mto m - 1\<rparr> else m) # erase_moves index ms)"

definition erase_row :: "nat \<Rightarrow> change_builder \<Rightarrow> nat \<Rightarrow> change_builder option" where
  "erase_row mx c index = do {
     c \<leftarrow> for_each_col (\<lambda>col. erase_at col index) c;
     (i, unshifted) \<leftarrow> erase_or_unshift (insertions c) index;
     d \<leftarrow> (if unshifted \<noteq> npos then map_option fst (add_shifted mx (deletions c) unshifted)
           else Some (deletions c));
     Some (c\<lparr>insertions := i, deletions := d, moves := erase_moves index (moves c)\<rparr>)
   }"

definition clear_rows :: "nat \<Rightarrow> change_builder \<Rightarrow> nat \<Rightarrow> change_builder option" where
  "clear_rows mx c old_size =
     (let old_size = foldl (\<lambda>n r. n + (snd r - fst r)) old_size (flat (deletions c));
          old_size = foldl (\<lambda>n r. n - (snd r - fst r)) old_size (flat (insertions c)) in do {
        d \<leftarrow> set_len mx (deletions c) old_size;
        Some (c\<lparr>modifications := clear (modifications c), insertions := clear (insertions c),
          moves := [], columns := [], deletions := d\<rparr>)
      })"

text \<open>The loop of \<open>move\<close> over the moves so far: it returns whether it updated one of them.\<close>

fun move_moves ::
    "nat \<Rightarrow> nat \<Rightarrow> nat \<Rightarrow> move list \<Rightarrow> chunks \<Rightarrow> bool \<Rightarrow> (move list \<times> chunks \<times> bool) option" where
  "move_moves mx src to [] ins updated = Some ([], ins, updated)"
| "move_moves mx src to (m # ms) ins updated =
     (if mto m \<noteq> src then do {
        let m' = (if to \<le> mto m \<and> mto m < src then m\<lparr>mto := mto m + 1\<rparr>
                  else if mto m \<le> to \<and> src < mto m then m\<lparr>mto := mto m - 1\<rparr> else m);
        (ms', ins', updated') \<leftarrow> move_moves mx src to ms ins updated;
        Some (m' # ms', ins', updated')
      }
      else do {
        realm_assert (\<not> updated);
        ins1 \<leftarrow> erase_at ins src;
        ins2 \<leftarrow> insert_at mx ins1 to 1;
        (ms', ins', updated') \<leftarrow> move_moves mx src to ms ins2 True;
        Some (m\<lparr>mto := to\<rparr> # ms', ins', updated')
      })"

definition move_col :: "nat \<Rightarrow> nat \<Rightarrow> nat \<Rightarrow> chunks \<Rightarrow> chunks option" where
  "move_col mx src to col = do {
     col' \<leftarrow> erase_at col src;
     if contains col src then insert_at mx col' to 1 else shift_for_insert_at mx col' to 1
   }"

definition move_row :: "nat \<Rightarrow> change_builder \<Rightarrow> nat \<Rightarrow> nat \<Rightarrow> change_builder option" where
  "move_row mx c src to = do {
     realm_assert (src \<noteq> to);
     (ms, i, updated) \<leftarrow> move_moves mx src to (moves c) (insertions c) False;
     c \<leftarrow> (if updated then Some (c\<lparr>moves := ms, insertions := i\<rparr>)
           else do {
             (i, shifted_from) \<leftarrow> erase_or_unshift i src;
             i \<leftarrow> insert_at mx i to 1;
             if shifted_from \<noteq> npos then do {
               (d, shifted_from) \<leftarrow> add_shifted mx (deletions c) shifted_from;
               Some (c\<lparr>insertions := i, deletions := d,
                 moves := ms @ [\<lparr>mfrom = shifted_from, mto = to\<rparr>]\<rparr>)
             }
             else Some (c\<lparr>insertions := i, moves := ms\<rparr>)
           });
     for_each_col (move_col mx src to) c
   }"

section \<open>Merging\<close>

definition col_keys :: "change_builder \<Rightarrow> change_builder \<Rightarrow> int list" where
  "col_keys c other =
     (if track_columns c then remdups (map fst (columns c) @ map fst (columns other)) else [])"

fun each_col2 :: "(chunks \<Rightarrow> chunks \<Rightarrow> (chunks \<times> chunks) option) \<Rightarrow> int list \<Rightarrow>
    columns \<times> columns \<Rightarrow> (columns \<times> columns) option" where
  "each_col2 f [] p = Some p"
| "each_col2 f (k # ks) p = do {
     (s, t) \<leftarrow> f (col_of (fst p) k) (col_of (snd p) k);
     each_col2 f ks (AList.update k s (fst p), AList.update k t (snd p))
   }"

definition for_each_col2 :: "(chunks \<Rightarrow> chunks \<Rightarrow> (chunks \<times> chunks) option) \<Rightarrow> int list \<Rightarrow>
    change_builder \<times> change_builder \<Rightarrow> (change_builder \<times> change_builder) option" where
  "for_each_col2 f ks p = do {
     (m, n) \<leftarrow> f (modifications (fst p)) (modifications (snd p));
     (cols, ocols) \<leftarrow> each_col2 f ks (columns (fst p), columns (snd p));
     Some ((fst p)\<lparr>modifications := m, columns := cols\<rparr>, (snd p)\<lparr>modifications := n, columns := ocols\<rparr>)
   }"

definition mark_moved :: "nat \<Rightarrow> move \<Rightarrow> chunks \<Rightarrow> chunks \<Rightarrow> (chunks \<times> chunks) option" where
  "mark_moved mx m col other =
     (if contains col (mfrom m) then map_option (Pair col) (add mx other (mto m)) else Some (col, other))"

text \<open>The position of the first move whose source is \<open>index\<close>.\<close>

fun find_move :: "nat \<Rightarrow> move list \<Rightarrow> nat option" where
  "find_move index [] = None"
| "find_move index (m # ms) =
     (if index = mfrom m then Some 0 else map_option Suc (find_move index ms))"

text \<open>
  The predicate that \<open>merge\<close> gives to \<open>remove_if\<close> over the old moves. It may change the old
  move, drop a new move by replacing it with the last one, and mark the moved row as modified.
\<close>

fun update_moves :: "nat \<Rightarrow> int list \<Rightarrow> move list \<Rightarrow> change_builder \<times> change_builder \<Rightarrow>
    (move list \<times> change_builder \<times> change_builder) option" where
  "update_moves mx ks [] p = Some ([], p)"
| "update_moves mx ks (m # ms) p =
     (let other = snd p in
      case find_move (mto m) (moves other) of
        Some i \<Rightarrow> do {
          let it = moves other ! i;
          p \<leftarrow> for_each_col2 (mark_moved mx it) ks p;
          let other = snd p;
          let p = (fst p, other\<lparr>moves := butlast ((moves other)[i := last (moves other)])\<rparr>);
          (ms', p') \<leftarrow> update_moves mx ks ms p;
          Some (m\<lparr>mto := mto it\<rparr> # ms', p')
        }
      | None \<Rightarrow>
          if contains (deletions other) (mto m) then update_moves mx ks ms p
          else do {
            u \<leftarrow> unshift_index (deletions other) (mto m);
            (ms', p') \<leftarrow> update_moves mx ks ms p;
            Some (m\<lparr>mto := shift_index (insertions other) u\<rparr> # ms', p')
          })"

fun mark_all_moved :: "nat \<Rightarrow> int list \<Rightarrow> move list \<Rightarrow> change_builder \<times> change_builder \<Rightarrow>
    (change_builder \<times> change_builder) option" where
  "mark_all_moved mx ks [] p = Some p"
| "mark_all_moved mx ks (m # ms) p = do {
     p \<leftarrow> for_each_col2 (mark_moved mx m) ks p;
     mark_all_moved mx ks ms p
   }"

fun unshift_sources :: "chunks \<Rightarrow> chunks \<Rightarrow> move list \<Rightarrow> move list option" where
  "unshift_sources del ins [] = Some []"
| "unshift_sources del ins (m # ms) = do {
     u \<leftarrow> unshift_index ins (mfrom m);
     ms' \<leftarrow> unshift_sources del ins ms;
     Some (m\<lparr>mfrom := shift_index del u\<rparr> # ms')
   }"

fun stale_moves :: "nat \<Rightarrow> move list \<Rightarrow> chunks \<Rightarrow> chunks \<Rightarrow> (move list \<times> chunks \<times> chunks) option" where
  "stale_moves mx [] del ins = Some ([], del, ins)"
| "stale_moves mx (m # ms) del ins = do {
     nd \<leftarrow> count_in del 0 (mfrom m);
     ni \<leftarrow> count_in ins 0 (mto m);
     if mfrom m - nd \<noteq> mto m - ni then do {
       (ms', del', ins') \<leftarrow> stale_moves mx ms del ins;
       Some (m # ms', del', ins')
     }
     else do {
       del \<leftarrow> remove_range mx del (mfrom m) 1;
       ins \<leftarrow> remove_range mx ins (mto m) 1;
       stale_moves mx ms del ins
     }
   }"

definition clean_up_stale_moves :: "nat \<Rightarrow> change_builder \<Rightarrow> change_builder option" where
  "clean_up_stale_moves mx c = do {
     (ms, d, i) \<leftarrow> stale_moves mx (moves c) (deletions c) (insertions c);
     Some (c\<lparr>moves := ms, deletions := d, insertions := i\<rparr>)
   }"

definition merge_col :: "nat \<Rightarrow> chunks \<Rightarrow> chunks \<Rightarrow> chunks \<Rightarrow> chunks \<Rightarrow> (chunks \<times> chunks) option" where
  "merge_col mx del ins col other = do {
     col \<leftarrow> erase_at_all mx col del;
     col \<leftarrow> shift_for_insert_at_all mx col ins;
     col \<leftarrow> add_all mx col other;
     Some (col, other)
   }"

text \<open>The four steps of \<open>merge\<close> that deal with the moves of both changes.\<close>

definition merge_old_moves :: "nat \<Rightarrow> int list \<Rightarrow> change_builder \<times> change_builder \<Rightarrow>
    (change_builder \<times> change_builder) option" where
  "merge_old_moves mx ks p =
     (if moves (snd p) \<noteq> [] \<or> \<not> crv_empty (deletions (snd p)) \<or> \<not> crv_empty (insertions (snd p)) then do {
        (ms, q) \<leftarrow> update_moves mx ks (moves (fst p)) p;
        Some ((fst q)\<lparr>moves := ms\<rparr>, snd q)
      } else Some p)"

definition drop_inserted :: "change_builder \<times> change_builder \<Rightarrow> change_builder \<times> change_builder" where
  "drop_inserted p =
     (let (c, other) = p in
      if \<not> crv_empty (insertions c) \<and> moves other \<noteq> []
      then (c, other\<lparr>moves := filter (\<lambda>m. \<not> contains (insertions c) (mfrom m)) (moves other)\<rparr>)
      else (c, other))"

definition mark_modified :: "nat \<Rightarrow> int list \<Rightarrow> change_builder \<times> change_builder \<Rightarrow>
    (change_builder \<times> change_builder) option" where
  "mark_modified mx ks p =
     (if \<not> crv_empty (modifications (fst p)) \<and> moves (snd p) \<noteq> []
      then mark_all_moved mx ks (moves (snd p)) p else Some p)"

definition new_sources :: "change_builder \<times> change_builder \<Rightarrow> move list option" where
  "new_sources p =
     (let (c, other) = p in
      if \<not> crv_empty (deletions c) \<or> \<not> crv_empty (insertions c)
      then unshift_sources (deletions c) (insertions c) (moves other)
      else Some (moves other))"

definition merge_moves :: "nat \<Rightarrow> int list \<Rightarrow> change_builder \<times> change_builder \<Rightarrow>
    (change_builder \<times> change_builder) option" where
  "merge_moves mx ks p = do {
     p \<leftarrow> merge_old_moves mx ks p;
     p \<leftarrow> mark_modified mx ks (drop_inserted p);
     new_moves \<leftarrow> new_sources p;
     Some ((fst p)\<lparr>moves := moves (fst p) @ new_moves\<rparr>, snd p)
   }"

definition merge :: "nat \<Rightarrow> change_builder \<Rightarrow> change_builder \<Rightarrow> change_builder option" where
  "merge mx c other =
     (if cs_empty other then Some c
      else if cs_empty c then Some other
      else do {
        let ks = col_keys c other;
        (c, other) \<leftarrow> merge_moves mx ks (c, other);
        d \<leftarrow> add_shifted_by mx (deletions c) (insertions c) (deletions other);
        i \<leftarrow> erase_at_all mx (insertions c) (deletions other);
        i \<leftarrow> insert_at_all mx i (insertions other);
        c \<leftarrow> clean_up_stale_moves mx (c\<lparr>deletions := d, insertions := i\<rparr>);
        (c, other) \<leftarrow> for_each_col2 (merge_col mx (deletions other) (insertions other)) ks (c, other);
        Some c
      })"

section \<open>The finished change set\<close>

definition finalize_changes :: "nat \<Rightarrow> change_builder \<Rightarrow> change_set option" where
  "finalize_changes mx c = do {
     old \<leftarrow> erase_at_all mx (modifications c) (insertions c);
     old \<leftarrow> shift_for_insert_at_all mx old (deletions c);
     new \<leftarrow> remove_all mx (modifications c) (insertions c);
     Some \<lparr>deletions = deletions c, insertions = insertions c, modifications = old,
       modifications_new = new, moves = moves c, columns = columns c\<rparr>
   }"

text \<open>What \<open>verify\<close> checks in debug builds.\<close>

definition verify_changes :: "change_builder \<Rightarrow> bool" where
  "verify_changes c \<longleftrightarrow>
     (\<forall>m \<in> set (moves c). contains (deletions c) (mfrom m) \<and> contains (insertions c) (mto m))"

section \<open>Invariants\<close>

definition cols_ok :: "nat \<Rightarrow> columns \<Rightarrow> bool" where
  "cols_ok mx cols \<longleftrightarrow> (\<forall>p \<in> set cols. is_ok mx (snd p))"

definition sets_ok :: "nat \<Rightarrow> change_builder \<Rightarrow> bool" where
  "sets_ok mx c \<longleftrightarrow> is_ok mx (deletions c) \<and> is_ok mx (insertions c) \<and> is_ok mx (modifications c) \<and>
     cols_ok mx (columns c)"

text \<open>
  Every move goes from a deleted position to an inserted one (what \<open>verify\<close> asserts), and no
  two moves share a source or a destination.
\<close>

definition moves_ok :: "nat set \<Rightarrow> nat set \<Rightarrow> move list \<Rightarrow> bool" where
  "moves_ok D I ms \<longleftrightarrow> distinct (map mfrom ms) \<and> distinct (map mto ms) \<and>
     mfrom ` set ms \<subseteq> D \<and> mto ` set ms \<subseteq> I"

lemma move_eq_iff: "m = \<lparr>mfrom = a, mto = b\<rparr> \<longleftrightarrow> mfrom m = a \<and> mto m = b"
  by (cases m) simp

lemma moves_ok_snoc: "moves_ok D I (ms @ [m]) \<longleftrightarrow> moves_ok D I ms \<and> mfrom m \<in> D \<and> mto m \<in> I \<and>
    mfrom m \<notin> mfrom ` set ms \<and> mto m \<notin> mto ` set ms"
  unfolding moves_ok_def by (simp add: image_iff) blast

lemma moves_ok_map:
  assumes "moves_ok D I ms" "inj_on g (mto ` set ms)" "\<And>x. x \<in> I \<Longrightarrow> g x \<in> J" "D \<subseteq> E"
    "\<And>m. m \<in> set ms \<Longrightarrow> mfrom (f m) = mfrom m" "\<And>m. m \<in> set ms \<Longrightarrow> mto (f m) = g (mto m)"
  shows "moves_ok E J (map f ms)"
proof -
  have mm: "map mfrom (map f ms) = map mfrom ms" "map mto (map f ms) = map g (map mto ms)"
    using assms(5,6) by auto
  have "distinct (map g (map mto ms))" using assms(1,2) by (simp add: moves_ok_def distinct_map comp_inj_on)
  then have "distinct (map mfrom (map f ms))" "distinct (map mto (map f ms))"
    using assms(1) unfolding mm by (simp_all add: moves_ok_def)
  moreover have "set (map mfrom (map f ms)) \<subseteq> E" "set (map mto (map f ms)) \<subseteq> J"
    using assms(1,3,4) unfolding mm by (auto simp: moves_ok_def)
  then have "mfrom ` set (map f ms) \<subseteq> E" "mto ` set (map f ms) \<subseteq> J" by (simp_all only: set_map)
  ultimately show ?thesis by (simp add: moves_ok_def)
qed

definition builder_ok :: "nat \<Rightarrow> change_builder \<Rightarrow> bool" where
  "builder_ok mx c \<longleftrightarrow> sets_ok mx c \<and> moves_ok (elems (deletions c)) (elems (insertions c)) (moves c)"

definition carried :: "change_builder \<Rightarrow> nat \<Rightarrow> nat \<Rightarrow> bool" where
  "carried c = corr (elems (deletions c)) (elems (insertions c))"

lemma builder_ok_verify: "builder_ok mx c \<Longrightarrow> verify_changes c"
  by (auto simp: builder_ok_def sets_ok_def moves_ok_def verify_changes_def contains_elems)

lemma map_cols_ok:
  assumes "\<And>s. is_ok mx s \<Longrightarrow> \<exists>s'. f s = Some s' \<and> is_ok mx s' \<and> elems s' = g (elems s)" "cols_ok mx cols"
  shows "\<exists>cols'. map_cols f cols = Some cols' \<and> cols_ok mx cols' \<and> map fst cols' = map fst cols \<and>
     (\<forall>k s. map_of cols k = Some s \<longrightarrow> elems (col_of cols' k) = g (elems s))"
  using assms(2)
proof (induction cols)
  case (Cons p cols)
  obtain k s where p: "p = (k, s)" by (cases p)
  obtain s' where s': "f s = Some s'" "is_ok mx s'" "elems s' = g (elems s)"
    using assms(1) [of s] Cons.prems p by (auto simp: cols_ok_def)
  obtain cols' where c: "map_cols f cols = Some cols'" "cols_ok mx cols'" "map fst cols' = map fst cols"
    "\<forall>k s. map_of cols k = Some s \<longrightarrow> elems (col_of cols' k) = g (elems s)"
    using Cons by (auto simp: cols_ok_def)
  then show ?case using s' p by (auto simp: cols_ok_def col_of_def)
qed (simp add: cols_ok_def)

lemma for_each_col_ok:
  assumes f: "\<And>s. is_ok mx s \<Longrightarrow> \<exists>s'. f s = Some s' \<and> is_ok mx s' \<and> elems s' = g (elems s)"
    and "sets_ok mx c"
  shows "\<exists>m cols. for_each_col f c = Some (c\<lparr>modifications := m, columns := cols\<rparr>) \<and>
    is_ok mx m \<and> elems m = g (elems (modifications c)) \<and> cols_ok mx cols"
proof -
  obtain m where m: "f (modifications c) = Some m" "is_ok mx m" "elems m = g (elems (modifications c))"
    using f assms(2) by (auto simp: sets_ok_def)
  obtain cols where "(if track_columns c then map_cols f (columns c) else Some (columns c)) = Some cols"
      "cols_ok mx cols"
    using map_cols_ok [of mx f g "columns c", OF f] assms(2) by (cases "track_columns c") (auto simp: sets_ok_def)
  with m have "for_each_col f c = Some (c\<lparr>modifications := m, columns := cols\<rparr>)" "cols_ok mx cols"
    by (simp_all add: for_each_col_def)
  with m show ?thesis by blast
qed

section \<open>Single positions\<close>

lemma corr_delete_one: "corr {x} {} j k \<longleftrightarrow> j = (if k < x then k else k + 1)"
  by (auto simp: corr_def unshifted_single)

lemma corr_insert_run: "corr {} {i..<i + n} j k \<longleftrightarrow> k < i \<and> j = k \<or> i + n \<le> k \<and> j = k - n"
  by (auto simp: corr_def unshifted_run)

lemma corr_move_one:
  "corr {s} {t} j k \<longleftrightarrow> k \<noteq> t \<and> j = (let k1 = (if k < t then k else k - 1) in if k1 < s then k1 else k1 + 1)"
  by (auto simp: corr_def unshifted_single Let_def)

lemma finite_dels [simp]: "finite (elems (deletions c))" "finite (elems (insertions c))"
  by simp_all

section \<open>insert\<close>

lemma insert_rows_ok:
  assumes ok: "builder_ok mx c" and n: "0 < n"
  shows "\<exists>c'. insert_rows mx c i n True = Some c' \<and> builder_ok mx c' \<and>
     elems (deletions c') = elems (deletions c) \<and>
     elems (insertions c') = comp_ins (elems (insertions c)) {} {i..<i + n} \<and>
     elems (modifications c') = spread i n (elems (modifications c)) \<and>
     moves c' = map (\<lambda>m. m\<lparr>mto := if i \<le> mto m then mto m + n else mto m\<rparr>) (moves c)"
proof -
  have so: "sets_ok mx c" using ok by (simp add: builder_ok_def)
  obtain m cols where f: "for_each_col (\<lambda>col. shift_for_insert_at mx col i n) c =
        Some (c\<lparr>modifications := m, columns := cols\<rparr>)"
    and m: "is_ok mx m" "elems m = spread i n (elems (modifications c))" "cols_ok mx cols"
    using for_each_col_ok [where f = "\<lambda>col. shift_for_insert_at mx col i n", OF shift_for_insert_at_ok so] n
    by blast
  obtain i' where i': "insert_at mx (insertions c) i n = Some i'" "is_ok mx i'"
      "elems i' = comp_ins (elems (insertions c)) {} {i..<i + n}"
    using ixs.insert_step [of mx "insertions c" n i] so n by (auto simp: sets_ok_def)
  let ?f = "\<lambda>m. if i \<le> mto m then m\<lparr>mto := mto m + n\<rparr> else m"
  let ?g = "\<lambda>x. if i \<le> x then x + n else x"
  have inj: "inj_on ?g X" for X by (rule inj_onI) (auto split: if_splits)
  have img: "?g x \<in> elems i'" if "x \<in> elems (insertions c)" for x
    using that spread_eq_placed [OF n, of i "elems (insertions c)"] unfolding i'(3) comp_simps
    by (auto simp: spread_def)
  have "moves_ok (elems (deletions c)) (elems (insertions c)) (moves c)"
    using ok by (simp add: builder_ok_def)
  then have mo: "moves_ok (elems (deletions c)) (elems i') (map ?f (moves c))"
    by (rule moves_ok_map [OF _ inj img order.refl]) simp_all
  let ?c = "c\<lparr>modifications := m, columns := cols, insertions := i', moves := map ?f (moves c)\<rparr>"
  have "insert_rows mx c i n True = Some ?c" using f i'(1) n by (simp add: insert_rows_def)
  moreover have "builder_ok mx ?c" using i'(2) m so mo by (simp add: builder_ok_def sets_ok_def)
  moreover have "moves ?c = map (\<lambda>m. m\<lparr>mto := if i \<le> mto m then mto m + n else mto m\<rparr>) (moves c)"
    by simp
  ultimately show ?thesis using i'(3) m(2) by (intro exI [of _ ?c]) simp
qed

section \<open>erase\<close>

lemma erase_moves_eq:
  "erase_moves x ms = map (\<lambda>m. if x < mto m then m\<lparr>mto := mto m - 1\<rparr> else m) (filter (\<lambda>m. mto m \<noteq> x) ms)"
  by (induction ms) auto

lemma moves_ok_filter: "moves_ok D I ms \<Longrightarrow> moves_ok D (I - {x}) (filter (\<lambda>m. mto m \<noteq> x) ms)"
  by (auto simp: moves_ok_def distinct_map inj_on_def)

lemma moves_ok_filter': "moves_ok D I ms \<Longrightarrow> moves_ok D I (filter P ms)"
  by (auto simp: moves_ok_def distinct_map inj_on_def)

lemma erase_moves_ok:
  assumes "moves_ok D I ms" "D \<subseteq> E"
  shows "moves_ok E (close x I) (erase_moves x ms)"
proof -
  let ?g = "\<lambda>y. if x < y then y - 1 else y"
  have inj: "inj_on ?g (mto ` set (filter (\<lambda>m. mto m \<noteq> x) ms))"
    by (rule inj_onI) (auto split: if_splits)
  have img: "?g y \<in> close x I" if "y \<in> I - {x}" for y using that by (auto simp: mem_close)
  show ?thesis
    unfolding erase_moves_eq
    by (rule moves_ok_map [OF moves_ok_filter [OF assms(1)] inj img assms(2)]) simp_all
qed

lemma erase_row_ok:
  assumes ok: "builder_ok mx c" and x: "x < npos"
  shows "\<exists>c'. erase_row mx c x = Some c' \<and> builder_ok mx c' \<and>
     elems (deletions c') = comp_del (elems (deletions c)) (elems (insertions c)) {x} \<and>
     elems (insertions c') = comp_ins (elems (insertions c)) {x} {} \<and>
     elems (modifications c') = close x (elems (modifications c)) \<and>
     moves c' = map (\<lambda>m. m\<lparr>mto := if x < mto m then mto m - 1 else mto m\<rparr>)
       (filter (\<lambda>m. mto m \<noteq> x) (moves c))"
proof -
  have so: "sets_ok mx c" using ok by (simp add: builder_ok_def)
  obtain m cols where f: "for_each_col (\<lambda>col. erase_at col x) c =
        Some (c\<lparr>modifications := m, columns := cols\<rparr>)"
    and m: "is_ok mx m" "elems m = close x (elems (modifications c))" "cols_ok mx cols"
    using for_each_col_ok [where f = "\<lambda>col. erase_at col x", OF erase_at_ok so] by blast
  obtain i' u where i': "erase_or_unshift (insertions c) x = Some (i', u)" "is_ok mx i'"
      "elems i' = comp_ins (elems (insertions c)) {x} {}"
    and same: "u = npos \<longrightarrow> elems (deletions c) = comp_del (elems (deletions c)) (elems (insertions c)) {x}"
    and del: "u \<noteq> npos \<longrightarrow> (\<exists>d' r. add_shifted mx (deletions c) u = Some (d', r) \<and> is_ok mx d' \<and>
       elems d' = comp_del (elems (deletions c)) (elems (insertions c)) {x})"
    using ixs.erase_step [of mx "deletions c" "insertions c" x] so x by (auto simp: sets_ok_def)
  obtain d' where d': "(if u \<noteq> npos then map_option fst (add_shifted mx (deletions c) u) else Some (deletions c)) = Some d'"
      "is_ok mx d'" "elems d' = comp_del (elems (deletions c)) (elems (insertions c)) {x}"
    using same del so by (cases "u = npos") (auto simp: sets_ok_def)
  have "moves_ok (elems d') (elems i') (erase_moves x (moves c))"
    using ok erase_moves_ok [of "elems (deletions c)" "elems (insertions c)" "moves c" "elems d'" x]
    unfolding d'(3) i'(3) comp_simps by (simp add: builder_ok_def comp_del_def)
  moreover let ?c = "c\<lparr>modifications := m, columns := cols, insertions := i', deletions := d',
    moves := erase_moves x (moves c)\<rparr>"
  have "erase_row mx c x = Some ?c" using f i'(1) d'(1)
    by (cases "u = npos") (auto simp: erase_row_def)
  moreover have "erase_moves x (moves c) = map (\<lambda>m. m\<lparr>mto := if x < mto m then mto m - 1 else mto m\<rparr>)
      (filter (\<lambda>m. mto m \<noteq> x) (moves c))"
    unfolding erase_moves_eq by simp
  ultimately show ?thesis
    using m i' d' so by (intro exI [of _ ?c]) (simp add: builder_ok_def sets_ok_def)
qed

section \<open>modify and clear\<close>

lemma cols_ok_update: "cols_ok mx cols \<Longrightarrow> is_ok mx s \<Longrightarrow> cols_ok mx (AList.update k s cols)"
  by (induction cols) (auto simp: cols_ok_def)

lemma cols_ok_col_of: "even mx \<Longrightarrow> 2 \<le> mx \<Longrightarrow> cols_ok mx cols \<Longrightarrow> is_ok mx (col_of cols k)"
  by (cases "map_of cols k") (auto simp: col_of_def cols_ok_def is_ok_empty dest!: map_of_SomeD)

lemma is_ok_mx: "is_ok mx s \<Longrightarrow> even mx \<and> 2 \<le> mx"
  by (simp add: is_ok_def)

lemma col_of_update: "col_of (AList.update k s cols) l = (if l = k then s else col_of cols l)"
  by (simp add: col_of_def update_conv')

lemma modify_ok:
  assumes ok: "builder_ok mx c"
  shows "\<exists>c'. modify mx c x col = Some c' \<and> builder_ok mx c' \<and>
     deletions c' = deletions c \<and> insertions c' = insertions c \<and> moves c' = moves c \<and>
     elems (modifications c') = insert x (elems (modifications c)) \<and>
     (\<forall>k. elems (col_of (columns c') k) =
        (if col = Some k \<and> track_columns c then insert x (elems (col_of (columns c) k))
         else elems (col_of (columns c) k)))"
proof -
  have so: "sets_ok mx c" using ok by (simp add: builder_ok_def)
  obtain m where m: "add mx (modifications c) x = Some m" "is_ok mx m" "elems m = insert x (elems (modifications c))"
    using add_ok so by (meson sets_ok_def)
  show ?thesis
  proof (cases "\<exists>k. col = Some k \<and> track_columns c")
    case True
    then obtain k where k: "col = Some k" "track_columns c" by blast
    obtain s where s: "add mx (col_of (columns c) k) x = Some s" "is_ok mx s"
        "elems s = insert x (elems (col_of (columns c) k))"
      using add_ok [of mx "col_of (columns c) k" x] cols_ok_col_of is_ok_mx so unfolding sets_ok_def by blast
    let ?c = "c\<lparr>modifications := m, columns := AList.update k s (columns c)\<rparr>"
    have "modify mx c x col = Some ?c" using m k s by (simp add: modify_def)
    moreover have "builder_ok mx ?c"
      using ok m s cols_ok_update by (simp add: builder_ok_def sets_ok_def)
    ultimately show ?thesis using m s k by (intro exI [of _ ?c]) (simp add: col_of_update)
  next
    case False
    then have "modify mx c x col = Some (c\<lparr>modifications := m\<rparr>)"
      using m by (cases col) (auto simp: modify_def)
    moreover have "builder_ok mx (c\<lparr>modifications := m\<rparr>)" using ok m by (simp add: builder_ok_def sets_ok_def)
    ultimately show ?thesis using m False by (intro exI [of _ "c\<lparr>modifications := m\<rparr>"]) auto
  qed
qed

lemma foldl_range_add: "foldl (\<lambda>n r. n + (snd r - fst r)) n rs = n + range_total rs"
  by (induction rs arbitrary: n) (simp_all add: range_size_def)

lemma foldl_range_diff: "foldl (\<lambda>n r. n - (snd r - fst r)) n rs = n - range_total rs"
  by (induction rs arbitrary: n) (simp_all add: range_size_def)

lemma range_total_card: "is_ok mx s \<Longrightarrow> range_total (flat s) = card (elems s)"
  by (simp add: is_ok_def elems_def card_ranges_set)

lemma clear_rows_ok:
  assumes ok: "builder_ok mx c"
  shows "\<exists>c'. clear_rows mx c n = Some c' \<and> builder_ok mx c' \<and>
     elems (deletions c') = {0..<n + card (elems (deletions c)) - card (elems (insertions c))} \<and>
     elems (insertions c') = {} \<and> elems (modifications c') = {} \<and> moves c' = [] \<and> columns c' = []"
proof -
  have so: "sets_ok mx c" using ok by (simp add: builder_ok_def)
  then have mx: "even mx" "2 \<le> mx" using is_ok_mx by (auto simp: sets_ok_def)
  let ?n = "n + card (elems (deletions c)) - card (elems (insertions c))"
  obtain d where d: "set_len mx (deletions c) ?n = Some d" "is_ok mx d" "elems d = {0..<?n}"
    using set_len_ok [OF mx, of "deletions c"] by blast
  let ?c = "c\<lparr>modifications := [], insertions := [], moves := [], columns := [], deletions := d\<rparr>"
  have "clear_rows mx c n = Some ?c"
    using d(1) so by (simp add: clear_rows_def foldl_range_add foldl_range_diff clear_def
      range_total_card [of mx "deletions c"] range_total_card [of mx "insertions c"] sets_ok_def)
  then show ?thesis
    using d mx by (intro exI [of _ ?c]) (simp add: builder_ok_def sets_ok_def moves_ok_def cols_ok_def is_ok_empty)
qed

section \<open>move\<close>

definition moved :: "nat \<Rightarrow> nat \<Rightarrow> nat \<Rightarrow> nat" where
  "moved s t p = (if p = s then t else if t \<le> p \<and> p < s then p + 1 else if p \<le> t \<and> s < p then p - 1 else p)"

lemma inj_moved: "inj_on (moved s t) X"
  by (rule inj_onI) (auto simp: moved_def split: if_splits)

lemma moved_eq_target: "moved s t p = t \<longleftrightarrow> p = s"
  by (auto simp: moved_def)

lemma moved_in: "p \<in> I \<Longrightarrow> moved s t p \<in> comp_ins I {s} {t}"
  by (auto simp: comp_ins_def moved_def placed_def unshifted_single close_eq_unshifted [symmetric] mem_close)

lemma insert_one: "comp_ins I {s} {t} = spread t 1 (close s I) \<union> {t..<t + 1}"
  using spread_eq_placed [of 1 t "close s I"] by (simp add: comp_ins_def close_eq_unshifted Un_commute)

lemma move_moves_none:
  "s \<notin> mto ` set ms \<Longrightarrow>
     move_moves mx s t ms ins u = Some (map (\<lambda>m. m\<lparr>mto := moved s t (mto m)\<rparr>) ms, ins, u)"
  by (induction ms) (auto simp: moved_def)

lemma move_moves_one:
  assumes "s \<in> mto ` set ms" "distinct (map mto ms)" "erase_at ins s = Some i1" "insert_at mx i1 t 1 = Some i2"
  shows "move_moves mx s t ms ins False = Some (map (\<lambda>m. m\<lparr>mto := moved s t (mto m)\<rparr>) ms, i2, True)"
  using assms(1,2)
proof (induction ms)
  case (Cons m ms)
  show ?case
  proof (cases "mto m = s")
    case True
    then have "s \<notin> mto ` set ms" using Cons.prems by auto
    from move_moves_none [OF this] show ?thesis using True assms(3,4) by (simp add: moved_def)
  next
    case False
    with Cons show ?thesis by (auto simp: moved_def)
  qed
qed simp

lemma move_col_ok:
  assumes "is_ok mx col"
  shows "\<exists>col'. move_col mx s t col = Some col' \<and> is_ok mx col' \<and>
     elems col' = spread t 1 (close s (elems col)) \<union> (if s \<in> elems col then {t} else {})"
proof -
  obtain c1 where c1: "erase_at col s = Some c1" "is_ok mx c1" "elems c1 = close s (elems col)"
    using erase_at_ok [OF assms] by blast
  show ?thesis
    using c1 insert_at_ok [OF c1(2), of 1 t] shift_for_insert_at_ok [OF c1(2), of 1 t] contains_elems [OF assms, of s]
    by (cases "s \<in> elems col") (auto simp: move_col_def)
qed

lemma move_row_ok:
  assumes ok: "builder_ok mx c" and st: "s \<noteq> t" and s: "s < npos"
  shows "\<exists>c'. move_row mx c s t = Some c' \<and> builder_ok mx c' \<and>
     elems (deletions c') = comp_del (elems (deletions c)) (elems (insertions c)) {s} \<and>
     elems (insertions c') = comp_ins (elems (insertions c)) {s} {t} \<and>
     elems (modifications c') = spread t 1 (close s (elems (modifications c))) \<union>
       (if s \<in> elems (modifications c) then {t} else {}) \<and>
     set (moves c') = (\<lambda>m. m\<lparr>mto := moved s t (mto m)\<rparr>) ` set (moves c) \<union>
       {m. carried c (mfrom m) s \<and> mto m = t}"
proof -
  let ?D = "elems (deletions c)" and ?I = "elems (insertions c)"
  have so: "sets_ok mx c" and mo: "moves_ok ?D ?I (moves c)" using ok by (auto simp: builder_ok_def)
  let ?ms = "map (\<lambda>m. m\<lparr>mto := moved s t (mto m)\<rparr>) (moves c)"
  have mo': "moves_ok E (comp_ins ?I {s} {t}) ?ms" if "?D \<subseteq> E" for E
    by (rule moves_ok_map [OF mo inj_moved moved_in that]) simp_all
  obtain i u where i: "erase_or_unshift (insertions c) s = Some (i, u)" "is_ok mx i"
      "elems i = comp_ins ?I {s} {}" and u: "u = npos \<longleftrightarrow> s \<in> ?I"
    and same: "u = npos \<longrightarrow> ?D = comp_del ?D ?I {s}"
    and del: "u \<noteq> npos \<longrightarrow> (\<exists>d r. add_shifted mx (deletions c) u = Some (d, r) \<and> is_ok mx d \<and>
        elems d = comp_del ?D ?I {s} \<and> corr ?D ?I r s)"
    using ixs.erase_step [of mx "deletions c" "insertions c" s] so s by (auto simp: sets_ok_def)
  obtain i1 where i1: "erase_at (insertions c) s = Some i1" "is_ok mx i1" "elems i1 = close s ?I"
    using erase_at_ok so by (metis sets_ok_def)
  obtain i2 where i2: "insert_at mx i1 t 1 = Some i2" "is_ok mx i2" "elems i2 = comp_ins ?I {s} {t}"
    using insert_at_ok [OF i1(2), of 1 t] i1(3) insert_one [of ?I s t] by auto
  obtain i3 where i3: "insert_at mx i t 1 = Some i3" "is_ok mx i3" "elems i3 = comp_ins ?I {s} {t}"
    using insert_at_ok [OF i(2), of 1 t] i(3) insert_one [of ?I s t] by (auto simp: comp_simps)
  obtain c1 where c1: "move_row mx c s t = for_each_col (move_col mx s t) c1"
    and b: "builder_ok mx c1" and d: "elems (deletions c1) = comp_del ?D ?I {s}"
    and ins: "elems (insertions c1) = comp_ins ?I {s} {t}" and mods: "modifications c1 = modifications c"
    and ms: "set (moves c1) = set ?ms \<union> {m. corr ?D ?I (mfrom m) s \<and> mto m = t}"
  proof (cases "s \<in> mto ` set (moves c)")
    case True
    then have sI: "s \<in> ?I" using mo by (auto simp: moves_ok_def)
    have mv: "move_moves mx s t (moves c) (insertions c) False = Some (?ms, i2, True)"
      using move_moves_one [OF True _ i1(1) i2(1)] mo by (simp add: moves_ok_def)
    have D: "comp_del ?D ?I {s} = ?D" using same u sI by simp
    show thesis
    proof (rule that [of "c\<lparr>moves := ?ms, insertions := i2\<rparr>"])
      show "builder_ok mx (c\<lparr>moves := ?ms, insertions := i2\<rparr>)"
        using so i2 mo' [of ?D] by (simp add: builder_ok_def sets_ok_def)
    qed (use st mv D i2 sI in \<open>auto simp: move_row_def corr_def\<close>)
  next
    case False
    then have mv: "move_moves mx s t (moves c) (insertions c) False = Some (?ms, insertions c, False)"
      by (rule move_moves_none)
    show thesis
    proof (cases "s \<in> ?I")
      case True
      then have D: "comp_del ?D ?I {s} = ?D" using same u by simp
      show thesis
      proof (rule that [of "c\<lparr>insertions := i3, moves := ?ms\<rparr>"])
        show "builder_ok mx (c\<lparr>insertions := i3, moves := ?ms\<rparr>)"
          using so i3 mo' [of ?D] by (simp add: builder_ok_def sets_ok_def)
      qed (use st mv i i3 True u D in \<open>auto simp: move_row_def corr_def\<close>)
    next
      case sI: False
      then obtain d r where d: "add_shifted mx (deletions c) u = Some (d, r)" "is_ok mx d"
        "elems d = comp_del ?D ?I {s}" "corr ?D ?I r s" using del u by blast
      let ?new = "?ms @ [\<lparr>mfrom = r, mto = t\<rparr>]"
      have r: "r \<in> elems d" "r \<notin> ?D" using d(3,4) sI by (auto simp: comp_del_def placed_def corr_def)
      have "mfrom ` set ?ms \<subseteq> ?D" using mo by (auto simp: moves_ok_def)
      with r(2) have "r \<notin> mfrom ` set ?ms" by blast
      moreover have "mto ` set ?ms = moved s t ` (mto ` set (moves c))" by (simp add: image_image)
      moreover have "t \<notin> moved s t ` (mto ` set (moves c))"
        using False moved_eq_target [of s t] by (auto dest!: sym [of t])
      moreover have "moves_ok (elems d) (comp_ins ?I {s} {t}) ?ms" using d(3) by (intro mo') (simp add: comp_del_def)
      ultimately have mn: "moves_ok (elems d) (comp_ins ?I {s} {t}) ?new"
        unfolding moves_ok_snoc using r(1) by (simp add: comp_ins_def)
      have uniq: "r' = r" if "corr ?D ?I r' s" for r' using corr_inj d(4) that by blast
      show thesis
      proof (rule that [of "c\<lparr>insertions := i3, deletions := d, moves := ?new\<rparr>"])
        show "builder_ok mx (c\<lparr>insertions := i3, deletions := d, moves := ?new\<rparr>)"
          using so i3 d mn by (simp add: builder_ok_def sets_ok_def)
        show "move_row mx c s t = for_each_col (move_col mx s t) (c\<lparr>insertions := i3, deletions := d, moves := ?new\<rparr>)"
          using st mv i(1) i3(1) sI u d(1) by (simp add: move_row_def)
        have "corr ?D ?I (mfrom m) s \<and> mto m = t \<longleftrightarrow> m = \<lparr>mfrom = r, mto = t\<rparr>" for m
          unfolding move_eq_iff using uniq [of "mfrom m"] d(4) by blast
        then have "{m. corr ?D ?I (mfrom m) s \<and> mto m = t} = {\<lparr>mfrom = r, mto = t\<rparr>}"
          by (simp only: singleton_conv)
        then show "set (moves (c\<lparr>insertions := i3, deletions := d, moves := ?new\<rparr>)) =
            set ?ms \<union> {m. corr ?D ?I (mfrom m) s \<and> mto m = t}" by simp
      qed (use i3(3) d(3) in simp_all)
    qed
  qed
  obtain m cols where f: "for_each_col (move_col mx s t) c1 = Some (c1\<lparr>modifications := m, columns := cols\<rparr>)"
    "is_ok mx m" "elems m = spread t 1 (close s (elems (modifications c1))) \<union>
       (if s \<in> elems (modifications c1) then {t} else {})" "cols_ok mx cols"
    using for_each_col_ok [where f = "move_col mx s t", OF move_col_ok] b unfolding builder_ok_def by blast
  let ?c = "c1\<lparr>modifications := m, columns := cols\<rparr>"
  have "move_row mx c s t = Some ?c" using c1 f(1) by simp
  moreover have "builder_ok mx ?c" using b f by (simp add: builder_ok_def sets_ok_def)
  ultimately show ?thesis
    using f(3) d ins mods ms by (intro exI [of _ ?c]) (simp add: carried_def)
qed

section \<open>Following a row\<close>

text \<open>
  A row at position \<open>r\<close> of the old collection is at \<open>j\<close> in the new one: it was carried along by
  the deletions and insertions, or a move is recorded for it.
\<close>

definition follows :: "change_builder \<Rightarrow> nat \<Rightarrow> nat \<Rightarrow> bool" where
  "follows c r j \<longleftrightarrow> carried c r j \<or> \<lparr>mfrom = r, mto = j\<rparr> \<in> set (moves c)"

lemma mem_moves_map: "\<lparr>mfrom = r, mto = k\<rparr> \<in> set (map (\<lambda>m. m\<lparr>mto := g (mto m)\<rparr>) ms) \<longleftrightarrow>
    (\<exists>j. \<lparr>mfrom = r, mto = j\<rparr> \<in> set ms \<and> k = g j)"
proof
  assume "\<lparr>mfrom = r, mto = k\<rparr> \<in> set (map (\<lambda>m. m\<lparr>mto := g (mto m)\<rparr>) ms)"
  then obtain m where m: "m \<in> set ms" "\<lparr>mfrom = r, mto = k\<rparr> = m\<lparr>mto := g (mto m)\<rparr>" by auto
  from arg_cong [OF m(2), of mfrom] arg_cong [OF m(2), of mto]
  have "mfrom m = r" "k = g (mto m)" by simp_all
  moreover then have "m = \<lparr>mfrom = r, mto = mto m\<rparr>" by (simp add: move_eq_iff)
  ultimately show "\<exists>j. \<lparr>mfrom = r, mto = j\<rparr> \<in> set ms \<and> k = g j" using m(1) by metis
qed force

lemma carried_compose:
  assumes "elems (deletions c') = comp_del (elems (deletions c)) (elems (insertions c)) D"
    "elems (insertions c') = comp_ins (elems (insertions c)) D I" "finite D" "finite I"
  shows "carried c' r k \<longleftrightarrow> (\<exists>j. carried c r j \<and> corr D I j k)"
  unfolding carried_def assms(1,2) by (rule corr_compose) (use assms(3,4) in simp_all)

lemma corr_move_moved: "corr {s} {t} j k \<longleftrightarrow> j \<noteq> s \<and> k = moved s t j"
  unfolding corr_move_one moved_def by (auto simp: Let_def split: if_splits)

text \<open>Each recorded change moves the row that is followed the way it moves the collection.\<close>

lemma follows_step:
  assumes "carried c' r k \<longleftrightarrow> (\<exists>j. carried c r j \<and> P j)"
    "\<lparr>mfrom = r, mto = k\<rparr> \<in> set (moves c') \<longleftrightarrow> (\<exists>j. \<lparr>mfrom = r, mto = j\<rparr> \<in> set (moves c) \<and> P j)"
  shows "follows c' r k \<longleftrightarrow> (\<exists>j. follows c r j \<and> P j)"
  unfolding follows_def assms by blast

lemma insert_rows_follows:
  assumes "builder_ok mx c" "0 < n" "insert_rows mx c i n True = Some c'"
  shows "follows c' r k \<longleftrightarrow> (\<exists>j. follows c r j \<and> k = (if i \<le> j then j + n else j))"
proof (rule follows_step)
  have spec: "elems (deletions c') = elems (deletions c)"
      "elems (insertions c') = comp_ins (elems (insertions c)) {} {i..<i + n}"
      "moves c' = map (\<lambda>m. m\<lparr>mto := if i \<le> mto m then mto m + n else mto m\<rparr>) (moves c)"
    using insert_rows_ok [OF assms(1,2), of i] assms(3) by auto
  have "carried c' r k \<longleftrightarrow> (\<exists>j. carried c r j \<and> corr {} {i..<i + n} j k)"
    by (rule carried_compose) (simp_all add: spec comp_del_def)
  moreover have "corr {} {i..<i + n} j k \<longleftrightarrow> k = (if i \<le> j then j + n else j)" for j
    unfolding corr_insert_run using assms(2) by auto
  ultimately show "carried c' r k \<longleftrightarrow> (\<exists>j. carried c r j \<and> k = (if i \<le> j then j + n else j))" by simp
  show "\<lparr>mfrom = r, mto = k\<rparr> \<in> set (moves c') \<longleftrightarrow>
      (\<exists>j. \<lparr>mfrom = r, mto = j\<rparr> \<in> set (moves c) \<and> k = (if i \<le> j then j + n else j))"
    unfolding spec(3) by (rule mem_moves_map)
qed

lemma erase_row_follows:
  assumes "builder_ok mx c" "x < npos" "erase_row mx c x = Some c'"
  shows "follows c' r k \<longleftrightarrow> (\<exists>j. follows c r j \<and> j \<noteq> x \<and> k = (if x < j then j - 1 else j))"
proof (rule follows_step)
  have spec: "elems (deletions c') = comp_del (elems (deletions c)) (elems (insertions c)) {x}"
      "elems (insertions c') = comp_ins (elems (insertions c)) {x} {}"
      "moves c' = map (\<lambda>m. m\<lparr>mto := if x < mto m then mto m - 1 else mto m\<rparr>)
         (filter (\<lambda>m. mto m \<noteq> x) (moves c))"
    using erase_row_ok [OF assms(1,2)] assms(3) by auto
  have "carried c' r k \<longleftrightarrow> (\<exists>j. carried c r j \<and> corr {x} {} j k)"
    by (rule carried_compose) (simp_all add: spec)
  moreover have "corr {x} {} j k \<longleftrightarrow> j \<noteq> x \<and> k = (if x < j then j - 1 else j)" for j
    unfolding corr_delete_one by auto
  ultimately show "carried c' r k \<longleftrightarrow> (\<exists>j. carried c r j \<and> j \<noteq> x \<and> k = (if x < j then j - 1 else j))"
    by simp
  have "\<lparr>mfrom = r, mto = k\<rparr> \<in> set (moves c') \<longleftrightarrow>
      (\<exists>j. \<lparr>mfrom = r, mto = j\<rparr> \<in> set (filter (\<lambda>m. mto m \<noteq> x) (moves c)) \<and> k = (if x < j then j - 1 else j))"
    unfolding spec(3) by (rule mem_moves_map)
  then show "\<lparr>mfrom = r, mto = k\<rparr> \<in> set (moves c') \<longleftrightarrow>
      (\<exists>j. \<lparr>mfrom = r, mto = j\<rparr> \<in> set (moves c) \<and> j \<noteq> x \<and> k = (if x < j then j - 1 else j))"
    by auto
qed

lemma move_row_follows:
  assumes "builder_ok mx c" "s \<noteq> t" "s < npos" "move_row mx c s t = Some c'"
  shows "follows c' r k \<longleftrightarrow> (\<exists>j. follows c r j \<and> k = moved s t j)"
proof -
  have spec: "elems (deletions c') = comp_del (elems (deletions c)) (elems (insertions c)) {s}"
      "elems (insertions c') = comp_ins (elems (insertions c)) {s} {t}"
      "set (moves c') = (\<lambda>m. m\<lparr>mto := moved s t (mto m)\<rparr>) ` set (moves c) \<union>
         {m. carried c (mfrom m) s \<and> mto m = t}"
    using move_row_ok [OF assms(1,2,3)] assms(4) by auto
  have "carried c' r k \<longleftrightarrow> (\<exists>j. carried c r j \<and> corr {s} {t} j k)"
    by (rule carried_compose) (simp_all add: spec)
  moreover have "\<lparr>mfrom = r, mto = k\<rparr> \<in> set (moves c') \<longleftrightarrow>
      (\<exists>j. \<lparr>mfrom = r, mto = j\<rparr> \<in> set (moves c) \<and> k = moved s t j) \<or> carried c r s \<and> k = t"
    unfolding spec(3) using mem_moves_map [of r k "moved s t" "moves c"] by simp
  moreover have "moved s t s = t" by (simp add: moved_def)
  ultimately show ?thesis
    unfolding follows_def corr_move_moved by metis
qed

end
