(* ===== verification/ChangeMerge.thy ===== *)
theory ChangeMerge
  imports ChangeBuilder "HOL-Library.Multiset"
begin

text \<open>
  What \<open>CollectionChangeBuilder::merge\<close>, \<open>clean_up_stale_moves\<close> and \<open>finalize\<close> compute: the
  merged change follows a row exactly if the two changes follow it one after the other.
\<close>

section \<open>Columns of two changes\<close>

lemma each_col2_ok:
  assumes f: "\<And>s t. is_ok mx s \<Longrightarrow> is_ok mx t \<Longrightarrow> \<exists>s' t'. f s t = Some (s', t') \<and> is_ok mx s' \<and> is_ok mx t'"
    and "even mx" "2 \<le> mx" "cols_ok mx cols" "cols_ok mx ocols"
  shows "\<exists>cols' ocols'. each_col2 f ks (cols, ocols) = Some (cols', ocols') \<and>
     cols_ok mx cols' \<and> cols_ok mx ocols'"
  using assms(4,5)
proof (induction ks arbitrary: cols ocols)
  case (Cons k ks)
  obtain s t where st: "f (col_of cols k) (col_of ocols k) = Some (s, t)" "is_ok mx s" "is_ok mx t"
    using f cols_ok_col_of [OF assms(2,3)] Cons.prems by meson
  have "cols_ok mx (AList.update k s cols)" "cols_ok mx (AList.update k t ocols)"
    using st Cons.prems by (auto intro: cols_ok_update)
  from Cons.IH [OF this] st(1) show ?case by simp
qed simp

lemma mark_moved_ok:
  assumes "is_ok mx s" "is_ok mx t"
  shows "\<exists>t'. mark_moved mx m s t = Some (s, t') \<and> is_ok mx t' \<and>
     elems t' = elems t \<union> (if mfrom m \<in> elems s then {mto m} else {})"
  using add_ok [OF assms(2), of "mto m"] contains_elems [OF assms(1)] assms(2)
  by (cases "mfrom m \<in> elems s") (auto simp: mark_moved_def)

lemma mark_all_cols:
  assumes "sets_ok mx c" "sets_ok mx u"
  shows "\<exists>cols n ocols. for_each_col2 (mark_moved mx m) ks (c, u) =
       Some (c\<lparr>columns := cols\<rparr>, u\<lparr>modifications := n, columns := ocols\<rparr>) \<and>
     cols_ok mx cols \<and> cols_ok mx ocols \<and> is_ok mx n \<and>
     elems n = elems (modifications u) \<union> (if mfrom m \<in> elems (modifications c) then {mto m} else {})"
proof -
  have ok: "is_ok mx (modifications c)" "is_ok mx (modifications u)"
    and co: "cols_ok mx (columns c)" "cols_ok mx (columns u)" using assms by (auto simp: sets_ok_def)
  obtain n where n: "mark_moved mx m (modifications c) (modifications u) = Some (modifications c, n)" "is_ok mx n"
      "elems n = elems (modifications u) \<union> (if mfrom m \<in> elems (modifications c) then {mto m} else {})"
    using mark_moved_ok [OF ok] by blast
  obtain cols ocols where e: "each_col2 (mark_moved mx m) ks (columns c, columns u) = Some (cols, ocols)"
      "cols_ok mx cols" "cols_ok mx ocols"
    using each_col2_ok [of mx "mark_moved mx m" "columns c" "columns u" ks] mark_moved_ok co is_ok_mx [OF ok(1)]
    by blast
  have "for_each_col2 (mark_moved mx m) ks (c, u) =
      Some (c\<lparr>columns := cols\<rparr>, u\<lparr>modifications := n, columns := ocols\<rparr>)"
    using n(1) e(1) by (simp add: for_each_col2_def)
  with n(2,3) e(2,3) show ?thesis by blast
qed

section \<open>The old moves\<close>

text \<open>Where the new change takes a row: it may have moved it again.\<close>

definition goes :: "change_builder \<Rightarrow> move set \<Rightarrow> nat \<Rightarrow> nat \<Rightarrow> bool" where
  "goes u ms p q \<longleftrightarrow> \<lparr>mfrom = p, mto = q\<rparr> \<in> ms \<or> p \<notin> mfrom ` ms \<and> carried u p q"

lemma find_move_Some:
  "find_move p ms = Some i \<Longrightarrow> i < length ms \<and> mfrom (ms ! i) = p"
  by (induction ms arbitrary: i) (auto split: if_splits)

lemma find_move_None: "find_move p ms = None \<longleftrightarrow> p \<notin> mfrom ` set ms"
  by (induction ms) auto

text \<open>Dropping an element by overwriting it with the last one.\<close>

lemma butlast_update_last:
  assumes "i < length xs"
  obtains A B where "xs = A @ xs ! i # B" "mset (butlast (xs[i := last xs])) = mset (A @ B)"
proof
  let ?A = "take i xs" and ?B = "drop (Suc i) xs"
  show *: "xs = ?A @ xs ! i # ?B" using assms by (rule id_take_nth_drop)
  have u: "xs[i := last xs] = ?A @ last xs # ?B" using assms by (rule upd_conv_take_nth_drop)
  show "mset (butlast (xs[i := last xs])) = mset (?A @ ?B)"
  proof (cases ?B rule: rev_cases)
    case Nil
    then show ?thesis unfolding u by simp
  next
    case (snoc C y)
    then have "last xs = y" by (subst *) simp
    then show ?thesis unfolding u using snoc by (simp add: butlast_append)
  qed
qed

lemma moves_ok_mset: "mset ms = mset ns \<Longrightarrow> moves_ok D I ms \<Longrightarrow> moves_ok D I ns"
  unfolding moves_ok_def by (metis mset_eq_imp_distinct_iff mset_map mset_eq_setD)

lemma moves_ok_drop:
  assumes "moves_ok D I ms" "i < length ms"
  shows "moves_ok D I (butlast (ms[i := last ms]))" "set (butlast (ms[i := last ms])) = set ms - {ms ! i}"
proof -
  obtain A B where m: "ms = A @ ms ! i # B" and e: "mset (butlast (ms[i := last ms])) = mset (A @ B)"
    using butlast_update_last [OF assms(2)] .
  have "moves_ok D I (A @ B)" using assms(1) by (subst (asm) m) (auto simp: moves_ok_def)
  then show "moves_ok D I (butlast (ms[i := last ms]))" using moves_ok_mset [OF e [symmetric]] by blast
  have "distinct (map mfrom (A @ ms ! i # B))" using assms(1) m by (simp add: moves_ok_def)
  then have "ms ! i \<notin> set (A @ B)" by auto
  moreover have "set ms = insert (ms ! i) (set (A @ B))" by (subst m) auto
  ultimately show "set (butlast (ms[i := last ms])) = set ms - {ms ! i}"
    using mset_eq_setD [OF e] by auto
qed

lemma moves_unique:
  "moves_ok D I ms \<Longrightarrow> x \<in> set ms \<Longrightarrow> y \<in> set ms \<Longrightarrow> mfrom x = mfrom y \<Longrightarrow> x = y"
  "moves_ok D I ms \<Longrightarrow> x \<in> set ms \<Longrightarrow> y \<in> set ms \<Longrightarrow> mto x = mto y \<Longrightarrow> x = y"
  by (auto simp: moves_ok_def distinct_map dest: inj_onD)

text \<open>
  What \<open>remove_if\<close> with the predicate of \<open>merge\<close> leaves of the old moves \<open>ms\<close>: the moves of
  rows that are still there, ending where the new change takes them, and the new moves that did
  not continue an old one.
\<close>

definition updated :: "nat \<Rightarrow> change_builder \<Rightarrow> change_builder \<Rightarrow> move list \<Rightarrow>
    move list \<times> change_builder \<times> change_builder \<Rightarrow> bool" where
  "updated mx c u ms res \<longleftrightarrow> (\<exists>ms' cols n ocols oms.
     res = (ms', c\<lparr>columns := cols\<rparr>, u\<lparr>modifications := n, columns := ocols, moves := oms\<rparr>) \<and>
     cols_ok mx cols \<and> cols_ok mx ocols \<and> is_ok mx n \<and>
     elems n = elems (modifications u) \<union>
       mto ` {x \<in> set (moves u). mfrom x \<in> elems (modifications c) \<and> mfrom x \<in> mto ` set ms} \<and>
     moves_ok (elems (deletions u)) (elems (insertions u)) oms \<and>
     set oms = {x \<in> set (moves u). mfrom x \<notin> mto ` set ms} \<and>
     distinct (map mfrom ms') \<and> mfrom ` set ms' \<subseteq> mfrom ` set ms \<and>
     (\<forall>r q. \<lparr>mfrom = r, mto = q\<rparr> \<in> set ms' \<longleftrightarrow>
        (\<exists>p. \<lparr>mfrom = r, mto = p\<rparr> \<in> set ms \<and> goes u (set (moves u)) p q)))"

lemma updatedI:
  assumes "res = (ms', c\<lparr>columns := cols\<rparr>, u\<lparr>modifications := n, columns := ocols, moves := oms\<rparr>)"
    "cols_ok mx cols" "cols_ok mx ocols" "is_ok mx n"
    "elems n = elems (modifications u) \<union>
       mto ` {x \<in> set (moves u). mfrom x \<in> elems (modifications c) \<and> mfrom x \<in> mto ` set ms}"
    "moves_ok (elems (deletions u)) (elems (insertions u)) oms"
    "set oms = {x \<in> set (moves u). mfrom x \<notin> mto ` set ms}"
    "distinct (map mfrom ms')" "mfrom ` set ms' \<subseteq> mfrom ` set ms"
    "\<And>r q. \<lparr>mfrom = r, mto = q\<rparr> \<in> set ms' \<longleftrightarrow>
        (\<exists>p. \<lparr>mfrom = r, mto = p\<rparr> \<in> set ms \<and> goes u (set (moves u)) p q)"
  shows "updated mx c u ms res"
  unfolding updated_def using assms by blast

lemma updated_Nil:
  assumes "sets_ok mx c" "sets_ok mx u" "moves_ok (elems (deletions u)) (elems (insertions u)) (moves u)"
  shows "updated mx c u [] ([], c, u)"
  unfolding updated_def
  by (rule exI [of _ "[]"], rule exI [of _ "columns c"], rule exI [of _ "modifications u"],
      rule exI [of _ "columns u"], rule exI [of _ "moves u"])
    (use assms in \<open>simp add: sets_ok_def\<close>)

lemma goes_take:
  assumes "moves_ok D I ms" "x \<in> set ms"
  shows "goes u (set ms) (mfrom x) q \<longleftrightarrow> q = mto x"
    "p \<noteq> mfrom x \<Longrightarrow> goes u (set ms - {x}) p q \<longleftrightarrow> goes u (set ms) p q"
proof -
  have "\<lparr>mfrom = mfrom x, mto = q\<rparr> = x" if "\<lparr>mfrom = mfrom x, mto = q\<rparr> \<in> set ms"
    using moves_unique(1) [OF assms(1) that assms(2)] by simp
  moreover have "x = \<lparr>mfrom = mfrom x, mto = mto x\<rparr>" by simp
  ultimately show "goes u (set ms) (mfrom x) q \<longleftrightarrow> q = mto x"
    unfolding goes_def using assms(2) by (metis image_eqI move.select_convs(2))
  assume p: "p \<noteq> mfrom x"
  then have "\<lparr>mfrom = p, mto = q\<rparr> \<noteq> x" by (metis move.select_convs(1))
  moreover have "p \<in> mfrom ` (set ms - {x}) \<longleftrightarrow> p \<in> mfrom ` set ms" using p by auto
  ultimately show "goes u (set ms - {x}) p q \<longleftrightarrow> goes u (set ms) p q" by (simp add: goes_def)
qed

lemma updated_Cons_moves:
  assumes "m \<notin> set ms" "\<forall>r q. \<lparr>mfrom = r, mto = q\<rparr> \<in> set ms' \<longleftrightarrow> (\<exists>p. \<lparr>mfrom = r, mto = p\<rparr> \<in> set ms \<and> P p q)"
    "\<forall>q. P (mto m) q \<longleftrightarrow> q = t"
  shows "\<lparr>mfrom = r, mto = q\<rparr> \<in> set (m\<lparr>mto := t\<rparr> # ms') \<longleftrightarrow>
     (\<exists>p. \<lparr>mfrom = r, mto = p\<rparr> \<in> set (m # ms) \<and> P p q)"
proof -
  have "\<lparr>mfrom = r, mto = q\<rparr> = m\<lparr>mto := t\<rparr> \<longleftrightarrow> mfrom m = r \<and> q = t" by (cases m) auto
  moreover have "\<lparr>mfrom = r, mto = p\<rparr> = m \<longleftrightarrow> mfrom m = r \<and> p = mto m" for p by (cases m) auto
  ultimately show ?thesis using assms(2,3) by auto
qed

lemma updated_take:
  assumes m: "moves_ok (elems (deletions u)) (elems (insertions u)) (moves u)" "mto m \<notin> mto ` set ms"
      "mfrom m \<notin> mfrom ` set ms"
    and x: "x \<in> set (moves u)" "mfrom x = mto m"
    and c1: "c1 = c\<lparr>columns := cols1\<rparr>"
    and u1: "u1 = u\<lparr>modifications := n1, columns := ocols1, moves := oms1\<rparr>"
      "elems n1 = elems (modifications u) \<union> (if mfrom x \<in> elems (modifications c) then {mto x} else {})"
      "set oms1 = set (moves u) - {x}"
    and r: "updated mx c1 u1 ms (ms', p)"
  shows "updated mx c u (m # ms) (m\<lparr>mto := mto x\<rparr> # ms', p)"
proof -
  obtain cols n ocols oms where p: "p = (c1\<lparr>columns := cols\<rparr>, u1\<lparr>modifications := n, columns := ocols, moves := oms\<rparr>)"
    and ok: "cols_ok mx cols" "cols_ok mx ocols" "is_ok mx n"
    and n: "elems n = elems n1 \<union>
       mto ` {y \<in> set (moves u) - {x}. mfrom y \<in> elems (modifications c) \<and> mfrom y \<in> mto ` set ms}"
    and oms: "moves_ok (elems (deletions u)) (elems (insertions u)) oms"
      "set oms = {y \<in> set (moves u) - {x}. mfrom y \<notin> mto ` set ms}"
    and ms': "distinct (map mfrom ms')" "mfrom ` set ms' \<subseteq> mfrom ` set ms"
    and mem: "\<forall>r q. \<lparr>mfrom = r, mto = q\<rparr> \<in> set ms' \<longleftrightarrow>
        (\<exists>p. \<lparr>mfrom = r, mto = p\<rparr> \<in> set ms \<and> goes u1 (set (moves u) - {x}) p q)"
    using r c1 u1 by (auto simp: updated_def)
  have uniq: "y = x" if "y \<in> set (moves u)" "mfrom y = mto m" for y
    using moves_unique(1) [OF m(1) that(1) x(1)] that(2) x(2) by simp
  have "goes u1 s = goes u s" for s by (simp add: goes_def fun_eq_iff carried_def u1(1))
  moreover have "p \<noteq> mfrom x" if "\<lparr>mfrom = r, mto = p\<rparr> \<in> set ms" for r p
    using that m(2) x(2) by (metis image_eqI move.select_convs(2))
  ultimately have mem': "\<forall>r q. \<lparr>mfrom = r, mto = q\<rparr> \<in> set ms' \<longleftrightarrow>
      (\<exists>p. \<lparr>mfrom = r, mto = p\<rparr> \<in> set ms \<and> goes u (set (moves u)) p q)"
    using mem goes_take(2) [OF m(1) x(1)] by metis
  have m_ms: "m \<notin> set ms" using m(2) by auto
  show ?thesis
  proof (rule updatedI)
    show "(m\<lparr>mto := mto x\<rparr> # ms', p) = (m\<lparr>mto := mto x\<rparr> # ms', c\<lparr>columns := cols\<rparr>,
        u\<lparr>modifications := n, columns := ocols, moves := oms\<rparr>)" unfolding p c1 u1(1) by simp
    have "{y \<in> set (moves u). mfrom y \<in> elems (modifications c) \<and> mfrom y \<in> mto ` set (m # ms)} =
        (if mfrom x \<in> elems (modifications c) then {x} else {}) \<union>
        {y \<in> set (moves u) - {x}. mfrom y \<in> elems (modifications c) \<and> mfrom y \<in> mto ` set ms}"
    proof -
      have "mfrom y \<in> mto ` set (m # ms) \<longleftrightarrow> y = x \<or> y \<noteq> x \<and> mfrom y \<in> mto ` set ms" if "y \<in> set (moves u)" for y
        using uniq [OF that] x(2) m(2) by (cases "y = x") auto
      then have "{y \<in> set (moves u). mfrom y \<in> elems (modifications c) \<and> mfrom y \<in> mto ` set (m # ms)} =
        {y \<in> set (moves u). mfrom y \<in> elems (modifications c) \<and> (y = x \<or> y \<noteq> x \<and> mfrom y \<in> mto ` set ms)}"
        by (intro Collect_cong) blast
      also have "\<dots> = (if mfrom x \<in> elems (modifications c) then {x} else {}) \<union>
          {y \<in> set (moves u) - {x}. mfrom y \<in> elems (modifications c) \<and> mfrom y \<in> mto ` set ms}"
        using x(1) by (simp split: if_splits) blast
      finally show ?thesis .
    qed
    then show "elems n = elems (modifications u) \<union>
        mto ` {y \<in> set (moves u). mfrom y \<in> elems (modifications c) \<and> mfrom y \<in> mto ` set (m # ms)}"
      unfolding n u1(2) image_Un Un_assoc [symmetric] by simp
    show "set oms = {y \<in> set (moves u). mfrom y \<notin> mto ` set (m # ms)}"
      unfolding oms(2) using uniq x(2) by auto
    show "\<lparr>mfrom = r, mto = q\<rparr> \<in> set (m\<lparr>mto := mto x\<rparr> # ms') \<longleftrightarrow>
        (\<exists>p. \<lparr>mfrom = r, mto = p\<rparr> \<in> set (m # ms) \<and> goes u (set (moves u)) p q)" for r q
      by (rule updated_Cons_moves [OF m_ms mem']) (use goes_take(1) [OF m(1) x(1)] x(2) in simp)
  qed (use ok oms(1) ms' m(3) in auto)
qed

lemma updated_drop:
  assumes r: "updated mx c u ms res" and m: "mto m \<notin> mfrom ` set (moves u)" "mto m \<in> elems (deletions u)"
  shows "updated mx c u (m # ms) res"
proof -
  obtain ms' cols n ocols oms where *:
    "res = (ms', c\<lparr>columns := cols\<rparr>, u\<lparr>modifications := n, columns := ocols, moves := oms\<rparr>)"
    "cols_ok mx cols" "cols_ok mx ocols" "is_ok mx n"
    "elems n = elems (modifications u) \<union>
       mto ` {x \<in> set (moves u). mfrom x \<in> elems (modifications c) \<and> mfrom x \<in> mto ` set ms}"
    "moves_ok (elems (deletions u)) (elems (insertions u)) oms"
    "set oms = {x \<in> set (moves u). mfrom x \<notin> mto ` set ms}"
    "distinct (map mfrom ms')" "mfrom ` set ms' \<subseteq> mfrom ` set ms"
    "\<forall>r q. \<lparr>mfrom = r, mto = q\<rparr> \<in> set ms' \<longleftrightarrow>
        (\<exists>p. \<lparr>mfrom = r, mto = p\<rparr> \<in> set ms \<and> goes u (set (moves u)) p q)"
    using r by (auto simp: updated_def)
  have m': "mfrom x \<in> mto ` set (m # ms) \<longleftrightarrow> mfrom x \<in> mto ` set ms" if "x \<in> set (moves u)" for x
  proof -
    have "mfrom x \<noteq> mto m" using m(1) that by (metis image_eqI)
    then show ?thesis by auto
  qed
  have eqs: "{x \<in> set (moves u). mfrom x \<in> elems (modifications c) \<and> mfrom x \<in> mto ` set (m # ms)} =
      {x \<in> set (moves u). mfrom x \<in> elems (modifications c) \<and> mfrom x \<in> mto ` set ms}"
    "{x \<in> set (moves u). mfrom x \<notin> mto ` set (m # ms)} = {x \<in> set (moves u). mfrom x \<notin> mto ` set ms}"
    using m' by (intro Collect_cong; blast)+
  have "\<not> goes u (set (moves u)) (mto m) q" for q
    using m by (auto simp: goes_def carried_def corr_def) (metis image_eqI move.select_convs(1))
  then have mem: "\<lparr>mfrom = r, mto = q\<rparr> \<in> set ms' \<longleftrightarrow>
        (\<exists>p. \<lparr>mfrom = r, mto = p\<rparr> \<in> set (m # ms) \<and> goes u (set (moves u)) p q)" for r q
    using *(10) by auto
  show ?thesis
    by (rule updatedI [OF *(1-4) _ *(6) _ *(8) _ mem]) (use *(5,7,9) eqs in \<open>simp_all only: subset_insertI2 list.simps image_insert\<close>)
qed

lemma updated_carry:
  assumes r: "updated mx c u ms (ms', p)" and m: "mto m \<notin> mfrom ` set (moves u)" "mto m \<notin> mto ` set ms"
      "mfrom m \<notin> mfrom ` set ms" and t: "carried u (mto m) t"
  shows "updated mx c u (m # ms) (m\<lparr>mto := t\<rparr> # ms', p)"
proof -
  obtain cols n ocols oms where *:
    "p = (c\<lparr>columns := cols\<rparr>, u\<lparr>modifications := n, columns := ocols, moves := oms\<rparr>)"
    "cols_ok mx cols" "cols_ok mx ocols" "is_ok mx n"
    "elems n = elems (modifications u) \<union>
       mto ` {x \<in> set (moves u). mfrom x \<in> elems (modifications c) \<and> mfrom x \<in> mto ` set ms}"
    "moves_ok (elems (deletions u)) (elems (insertions u)) oms"
    "set oms = {x \<in> set (moves u). mfrom x \<notin> mto ` set ms}"
    "distinct (map mfrom ms')" "mfrom ` set ms' \<subseteq> mfrom ` set ms"
    and mem: "\<forall>r q. \<lparr>mfrom = r, mto = q\<rparr> \<in> set ms' \<longleftrightarrow>
        (\<exists>p. \<lparr>mfrom = r, mto = p\<rparr> \<in> set ms \<and> goes u (set (moves u)) p q)"
    using r by (auto simp: updated_def)
  have m': "mfrom x \<in> mto ` set (m # ms) \<longleftrightarrow> mfrom x \<in> mto ` set ms" if "x \<in> set (moves u)" for x
  proof -
    have "mfrom x \<noteq> mto m" using m(1) that by (metis image_eqI)
    then show ?thesis by auto
  qed
  have eqs: "{x \<in> set (moves u). mfrom x \<in> elems (modifications c) \<and> mfrom x \<in> mto ` set (m # ms)} =
      {x \<in> set (moves u). mfrom x \<in> elems (modifications c) \<and> mfrom x \<in> mto ` set ms}"
    "{x \<in> set (moves u). mfrom x \<notin> mto ` set (m # ms)} = {x \<in> set (moves u). mfrom x \<notin> mto ` set ms}"
    using m' by (intro Collect_cong; blast)+
  have "goes u (set (moves u)) (mto m) q \<longleftrightarrow> q = t" for q
    using m(1) t corr_fun unfolding goes_def carried_def by (metis image_eqI move.select_convs(1))
  then have g: "\<forall>q. goes u (set (moves u)) (mto m) q \<longleftrightarrow> q = t" by blast
  have m_ms: "m \<notin> set ms" using m(2) by auto
  show ?thesis
  proof (rule updatedI)
    show "(m\<lparr>mto := t\<rparr> # ms', p) = (m\<lparr>mto := t\<rparr> # ms', c\<lparr>columns := cols\<rparr>,
        u\<lparr>modifications := n, columns := ocols, moves := oms\<rparr>)" using *(1) by simp
    show "elems n = elems (modifications u) \<union>
        mto ` {y \<in> set (moves u). mfrom y \<in> elems (modifications c) \<and> mfrom y \<in> mto ` set (m # ms)}"
      unfolding eqs(1) by (rule *(5))
    show "set oms = {y \<in> set (moves u). mfrom y \<notin> mto ` set (m # ms)}" unfolding eqs(2) by (rule *(7))
    show "\<lparr>mfrom = r, mto = q\<rparr> \<in> set (m\<lparr>mto := t\<rparr> # ms') \<longleftrightarrow>
        (\<exists>p. \<lparr>mfrom = r, mto = p\<rparr> \<in> set (m # ms) \<and> goes u (set (moves u)) p q)" for r q
      by (rule updated_Cons_moves [OF m_ms mem g])
  qed (use * m(3) in auto)
qed

lemma update_moves_ok:
  assumes "sets_ok mx c" "sets_ok mx u" "moves_ok (elems (deletions u)) (elems (insertions u)) (moves u)"
    "distinct (map mfrom ms)" "distinct (map mto ms)"
  shows "\<exists>res. update_moves mx ks ms (c, u) = Some res \<and> updated mx c u ms res"
  using assms
proof (induction ms arbitrary: c u)
  case Nil
  then show ?case using updated_Nil by simp
next
  case (Cons m ms)
  have d: "mto m \<notin> mto ` set ms" "mfrom m \<notin> mfrom ` set ms"
    and dd: "distinct (map mfrom ms)" "distinct (map mto ms)" using Cons.prems by auto
  show ?case
  proof (cases "find_move (mto m) (moves u)")
    case (Some i)
    let ?x = "moves u ! i"
    have x: "i < length (moves u)" "mfrom ?x = mto m" using find_move_Some [OF Some] by auto
    obtain cols n ocols where e: "for_each_col2 (mark_moved mx ?x) ks (c, u) =
         Some (c\<lparr>columns := cols\<rparr>, u\<lparr>modifications := n, columns := ocols\<rparr>)"
      and ok: "cols_ok mx cols" "cols_ok mx ocols" "is_ok mx n"
      and n: "elems n = elems (modifications u) \<union> (if mfrom ?x \<in> elems (modifications c) then {mto ?x} else {})"
      using mark_all_cols [OF Cons.prems(1,2), of ?x ks] by blast
    let ?ms = "butlast ((moves u)[i := last (moves u)])"
    let ?u = "u\<lparr>modifications := n, columns := ocols, moves := ?ms\<rparr>"
    note drop = moves_ok_drop [OF Cons.prems(3) x(1)]
    have "sets_ok mx (c\<lparr>columns := cols\<rparr>)" "sets_ok mx ?u"
      using Cons.prems(1,2) ok by (auto simp: sets_ok_def)
    from Cons.IH [OF this _ dd] drop(1) obtain ms' p where
      r: "update_moves mx ks ms (c\<lparr>columns := cols\<rparr>, ?u) = Some (ms', p)"
        "updated mx (c\<lparr>columns := cols\<rparr>) ?u ms (ms', p)" by auto
    have "updated mx c u (m # ms) (m\<lparr>mto := mto ?x\<rparr> # ms', p)"
      by (rule updated_take [OF Cons.prems(3) d _ x(2) refl refl n drop(2) r(2)]) (use x(1) in simp)
    moreover have "update_moves mx ks (m # ms) (c, u) = Some (m\<lparr>mto := mto ?x\<rparr> # ms', p)"
      using Some e r(1) by (simp add: Let_def)
    ultimately show ?thesis by blast
  next
    case None
    then have nf: "mto m \<notin> mfrom ` set (moves u)" by (simp add: find_move_None)
    obtain ms' p where r: "update_moves mx ks ms (c, u) = Some (ms', p)" "updated mx c u ms (ms', p)"
      using Cons.IH [OF Cons.prems(1-3) dd] by auto
    have okd: "is_ok mx (deletions u)" "is_ok mx (insertions u)" using Cons.prems(2) by (auto simp: sets_ok_def)
    show ?thesis
    proof (cases "mto m \<in> elems (deletions u)")
      case True
      then have "update_moves mx ks (m # ms) (c, u) = Some (ms', p)"
        using None r(1) okd by (simp add: contains_elems)
      then show ?thesis using updated_drop [OF r(2) nf True] by blast
    next
      case False
      let ?t = "shift_index (insertions u) (unshifted (elems (deletions u)) (mto m))"
      have "carried u (mto m) ?t"
        using False shift_index_ok [OF okd(2), of "unshifted (elems (deletions u)) (mto m)"]
        by (simp add: carried_def corr_def)
      note upd = updated_carry [OF r(2) nf d this]
      have "update_moves mx ks (m # ms) (c, u) = Some (m\<lparr>mto := ?t\<rparr> # ms', p)"
        using None False r(1) okd by (simp add: contains_elems unshift_index_ok)
      with upd show ?thesis by blast
    qed
  qed
qed

section \<open>Stale moves\<close>

text \<open>Taking a deletion and an insertion at the same place back carries that row along.\<close>

lemma unshifted_remove: "a \<in> S \<Longrightarrow> finite S \<Longrightarrow> unshifted (S - {a}) i = unshifted S i + (if a < i then 1 else 0)"
proof -
  assume a: "a \<in> S" "finite S"
  show ?thesis
  proof (cases "a < i")
    case True
    have "(S - {a}) \<inter> {..<i} = S \<inter> {..<i} - {a}" by auto
    moreover have "a \<in> S \<inter> {..<i}" using a True by simp
    moreover have "card (S \<inter> {..<i}) \<le> i" using card_mono [of "{..<i}" "S \<inter> {..<i}"] by simp
    moreover have "0 < card (S \<inter> {..<i})" using a True by (auto simp: card_gt_0_iff)
    ultimately show ?thesis using True a(2) by (simp add: unshifted_def card_Diff_singleton)
  next
    case False
    then have "(S - {a}) \<inter> {..<i} = S \<inter> {..<i}" by auto
    then show ?thesis using False by (simp add: unshifted_def)
  qed
qed

lemma unshifted_eq_less:
  assumes "unshifted D a = unshifted I b" "r \<notin> D" "j \<notin> I" "unshifted D r = unshifted I j" "r \<noteq> a" "j \<noteq> b"
  shows "a < r \<longleftrightarrow> b < j"
  using assms unshifted_strict_mono [of r D a] unshifted_mono [of a r D]
    unshifted_strict_mono [of j I b] unshifted_mono [of b j I]
  by (cases a r rule: linorder_cases; cases b j rule: linorder_cases) auto

lemma unshifted_near:
  assumes "unshifted D a = unshifted I b" "j \<notin> I" "j \<noteq> b"
  shows "unshifted I j + (if b < j then 1 else 0) \<noteq> unshifted D a"
  using assms unshifted_strict_mono [of j I b] unshifted_mono [of b j I]
  by (cases b j rule: linorder_cases) auto

lemma corr_remove:
  assumes "a \<in> D" "b \<in> I" "finite D" "finite I" "unshifted D a = unshifted I b"
  shows "corr (D - {a}) (I - {b}) r j \<longleftrightarrow> corr D I r j \<or> r = a \<and> j = b"
proof -
  note u = unshifted_remove [OF assms(1,3)] unshifted_remove [OF assms(2,4)]
  consider "r = a" "j = b" | "r = a" "j \<noteq> b" | "r \<noteq> a" "j = b" | "r \<noteq> a" "j \<noteq> b" by blast
  then show ?thesis
  proof cases
    case 2
    then have "\<not> corr (D - {a}) (I - {b}) r j"
      using unshifted_near [OF assms(5), of j] by (auto simp: corr_def u)
    then show ?thesis using 2 assms(1) by (auto simp: corr_def)
  next
    case 3
    then have "\<not> corr (D - {a}) (I - {b}) r j"
      using unshifted_near [OF assms(5) [symmetric], of r] by (auto simp: corr_def u)
    then show ?thesis using 3 assms(2) by (auto simp: corr_def)
  next
    case 4
    have "unshifted D r + (if a < r then 1 else 0) = unshifted I j + (if b < j then 1 else 0) \<longleftrightarrow>
        unshifted D r = unshifted I j" if "r \<notin> D" "j \<notin> I"
      using unshifted_eq_less [OF assms(5) that _ 4] assms(5) that 4
        unshifted_strict_mono [of r D a] unshifted_mono [of a r D]
        unshifted_strict_mono [of j I b] unshifted_mono [of b j I]
      by (cases a r rule: linorder_cases; cases b j rule: linorder_cases) auto
    then show ?thesis using 4 by (auto simp: corr_def u)
  qed (use assms in \<open>auto simp: corr_def u\<close>)
qed

lemma stale_moves_ok:
  assumes "is_ok mx d" "is_ok mx i" "moves_ok (elems d) (elems i) ms"
  shows "\<exists>ms' d' i' R. stale_moves mx ms d i = Some (ms', d', i') \<and> is_ok mx d' \<and> is_ok mx i' \<and>
     moves_ok (elems d') (elems i') ms' \<and> R \<subseteq> set ms \<and> set ms' = set ms - R \<and>
     elems d' = elems d - mfrom ` R \<and> elems i' = elems i - mto ` R \<and>
     (\<forall>r j. corr (elems d') (elems i') r j \<longleftrightarrow> corr (elems d) (elems i) r j \<or> \<lparr>mfrom = r, mto = j\<rparr> \<in> R)"
  using assms
proof (induction ms arbitrary: d i)
  case Nil
  then show ?case by (intro exI [of _ "[]"] exI [of _ d] exI [of _ i] exI [of _ "{}"]) simp
next
  case (Cons m ms)
  have D: "mfrom m \<in> elems d" "mto m \<in> elems i" "mfrom m \<notin> mfrom ` set ms" "mto m \<notin> mto ` set ms"
    and mo: "moves_ok (elems d) (elems i) ms" using Cons.prems(3) by (auto simp: moves_ok_def)
  have cnt: "map_option (\<lambda>n. mfrom m - n) (count_in d 0 (mfrom m)) = Some (unshifted (elems d) (mfrom m))"
    "map_option (\<lambda>n. mto m - n) (count_in i 0 (mto m)) = Some (unshifted (elems i) (mto m))"
    using unshift_index_ok Cons.prems(1,2) by (simp_all add: unshift_index_def)
  then obtain nd ni where n: "count_in d 0 (mfrom m) = Some nd" "count_in i 0 (mto m) = Some ni"
    "mfrom m - nd = unshifted (elems d) (mfrom m)" "mto m - ni = unshifted (elems i) (mto m)" by auto
  show ?case
  proof (cases "unshifted (elems d) (mfrom m) = unshifted (elems i) (mto m)")
    case False
    obtain ms' d' i' R where r: "stale_moves mx ms d i = Some (ms', d', i')" "is_ok mx d'" "is_ok mx i'"
      "moves_ok (elems d') (elems i') ms'" "R \<subseteq> set ms" "set ms' = set ms - R"
      "elems d' = elems d - mfrom ` R" "elems i' = elems i - mto ` R"
      "\<forall>r j. corr (elems d') (elems i') r j \<longleftrightarrow> corr (elems d) (elems i) r j \<or> \<lparr>mfrom = r, mto = j\<rparr> \<in> R"
      by (insert Cons.IH [OF Cons.prems(1,2) mo], elim exE conjE) (rule that)
    have st: "stale_moves mx (m # ms) d i = Some (m # ms', d', i')" using n r(1) False by simp
    have "m \<notin> R" using D(3) r(5) by (auto dest: subsetD)
    then have "set (m # ms') = set (m # ms) - R" using r(6) by auto
    moreover have "mfrom m \<notin> mfrom ` R" "mto m \<notin> mto ` R" using D(3,4) r(5) by blast+
    then have in': "mfrom m \<in> elems d'" "mto m \<in> elems i'" using D(1,2) unfolding r(7,8) by blast+
    have "mfrom m \<notin> mfrom ` set ms'" "mto m \<notin> mto ` set ms'" using D(3,4) r(6) by blast+
    then have "moves_ok (elems d') (elems i') (m # ms')"
      using r(4) in' by (simp add: moves_ok_def)
    moreover have "R \<subseteq> set (m # ms)" using r(5) by auto
    ultimately show ?thesis using st r(2,3,7,8,9) by blast
  next
    case True
    obtain d1 where d1: "remove_range mx d (mfrom m) 1 = Some d1" "is_ok mx d1" "elems d1 = elems d - {mfrom m}"
      using remove_range_ok [OF Cons.prems(1), of 1 "mfrom m"] by auto
    obtain i1 where i1: "remove_range mx i (mto m) 1 = Some i1" "is_ok mx i1" "elems i1 = elems i - {mto m}"
      using remove_range_ok [OF Cons.prems(2), of 1 "mto m"] by auto
    have "moves_ok (elems d1) (elems i1) ms" unfolding d1(3) i1(3) using mo D(3,4) unfolding moves_ok_def by blast
    note IH = Cons.IH [OF d1(2) i1(2) this]
    obtain ms' d' i' R where r: "stale_moves mx ms d1 i1 = Some (ms', d', i')" "is_ok mx d'" "is_ok mx i'"
      "moves_ok (elems d') (elems i') ms'" "R \<subseteq> set ms" "set ms' = set ms - R"
      "elems d' = elems d1 - mfrom ` R" "elems i' = elems i1 - mto ` R"
      "\<forall>r j. corr (elems d') (elems i') r j \<longleftrightarrow> corr (elems d1) (elems i1) r j \<or> \<lparr>mfrom = r, mto = j\<rparr> \<in> R"
      by (insert IH, elim exE conjE) (rule that)
    have st: "stale_moves mx (m # ms) d i = Some (ms', d', i')" using n d1(1) i1(1) r(1) True by simp
    have "m \<notin> set ms" using D(3) by blast
    then have "set ms' = set (m # ms) - insert m R" using r(6) by auto
    moreover have "elems d' = elems d - mfrom ` insert m R" "elems i' = elems i - mto ` insert m R"
      using r(7,8) d1(3) i1(3) by auto
    moreover have "corr (elems d') (elems i') r j \<longleftrightarrow>
        corr (elems d) (elems i) r j \<or> \<lparr>mfrom = r, mto = j\<rparr> \<in> insert m R" for r j
      using r(9) corr_remove [OF D(1,2) _ _ True, of r j] d1(3) i1(3) by (cases m) auto
    moreover have "insert m R \<subseteq> set (m # ms)" using r(5) by auto
    ultimately show ?thesis using st r(2-4) by blast
  qed
qed

section \<open>The new moves\<close>

lemma mark_all_moved_ok:
  assumes "sets_ok mx c" "sets_ok mx u"
  shows "\<exists>cols n ocols. mark_all_moved mx ks ms (c, u) =
       Some (c\<lparr>columns := cols\<rparr>, u\<lparr>modifications := n, columns := ocols\<rparr>) \<and>
     cols_ok mx cols \<and> cols_ok mx ocols \<and> is_ok mx n \<and>
     elems n = elems (modifications u) \<union> mto ` {m \<in> set ms. mfrom m \<in> elems (modifications c)}"
  using assms
proof (induction ms arbitrary: c u)
  case Nil
  have "mark_all_moved mx ks [] (c, u) =
      Some (c\<lparr>columns := columns c\<rparr>, u\<lparr>modifications := modifications u, columns := columns u\<rparr>)" by simp
  then show ?case
    using Nil by (intro exI [of _ "columns c"] exI [of _ "modifications u"] exI [of _ "columns u"])
      (simp add: sets_ok_def)
next
  case (Cons m ms)
  obtain cols1 n1 ocols1 where 1: "for_each_col2 (mark_moved mx m) ks (c, u) =
       Some (c\<lparr>columns := cols1\<rparr>, u\<lparr>modifications := n1, columns := ocols1\<rparr>)"
    and ok1: "cols_ok mx cols1" "cols_ok mx ocols1" "is_ok mx n1"
    and n1: "elems n1 = elems (modifications u) \<union> (if mfrom m \<in> elems (modifications c) then {mto m} else {})"
    using mark_all_cols [OF Cons.prems, of m ks] by blast
  let ?c = "c\<lparr>columns := cols1\<rparr>" and ?u = "u\<lparr>modifications := n1, columns := ocols1\<rparr>"
  have "sets_ok mx ?c" "sets_ok mx ?u" using Cons.prems ok1 by (auto simp: sets_ok_def)
  from Cons.IH [OF this] obtain cols n ocols where 2: "mark_all_moved mx ks ms (?c, ?u) =
       Some (?c\<lparr>columns := cols\<rparr>, ?u\<lparr>modifications := n, columns := ocols\<rparr>)"
    and ok: "cols_ok mx cols" "cols_ok mx ocols" "is_ok mx n"
    and n: "elems n = elems n1 \<union> mto ` {x \<in> set ms. mfrom x \<in> elems (modifications c)}" by auto
  have "{x \<in> set (m # ms). mfrom x \<in> elems (modifications c)} =
      (if mfrom m \<in> elems (modifications c) then {m} else {}) \<union> {x \<in> set ms. mfrom x \<in> elems (modifications c)}"
    by auto
  then have "elems n = elems (modifications u) \<union> mto ` {x \<in> set (m # ms). mfrom x \<in> elems (modifications c)}"
    unfolding n n1 by (simp add: image_Un Un_assoc [symmetric])
  moreover have "mark_all_moved mx ks (m # ms) (c, u) =
      Some (c\<lparr>columns := cols\<rparr>, u\<lparr>modifications := n, columns := ocols\<rparr>)" using 1 2 by simp
  ultimately show ?case using ok by blast
qed

lemma unshift_sources_ok:
  assumes "is_ok mx d" "is_ok mx i" "\<forall>m \<in> set ms. mfrom m \<notin> elems i"
  shows "\<exists>ns. unshift_sources d i ms = Some ns \<and> map mto ns = map mto ms \<and>
     list_all2 (\<lambda>n m. corr (elems d) (elems i) (mfrom n) (mfrom m)) ns ms"
  using assms(3)
proof (induction ms)
  case (Cons m ms)
  then obtain ns where "unshift_sources d i ms = Some ns" "map mto ns = map mto ms"
      "list_all2 (\<lambda>n m. corr (elems d) (elems i) (mfrom n) (mfrom m)) ns ms" by auto
  moreover have "corr (elems d) (elems i) (shift_index d (unshifted (elems i) (mfrom m))) (mfrom m)"
    using shift_index_ok [OF assms(1), of "unshifted (elems i) (mfrom m)"] Cons.prems by (simp add: corr_def)
  ultimately show ?case using unshift_index_ok [OF assms(2)] by simp
qed simp

text \<open>The new moves as moves of the merged change.\<close>

lemma sources_mem:
  assumes "map mto ns = map mto ms" "list_all2 (\<lambda>n m. P (mfrom n) (mfrom m)) ns ms"
    "\<And>r r' p. P r p \<Longrightarrow> P r' p \<Longrightarrow> r = r'"
  shows "\<lparr>mfrom = r, mto = q\<rparr> \<in> set ns \<longleftrightarrow> (\<exists>p. P r p \<and> \<lparr>mfrom = p, mto = q\<rparr> \<in> set ms)"
  using assms(2,1)
proof (induction rule: list_all2_induct)
  case (Cons n ns m ms)
  have "\<lparr>mfrom = r, mto = q\<rparr> = n \<longleftrightarrow> (\<exists>p. P r p \<and> \<lparr>mfrom = p, mto = q\<rparr> = m)"
    using Cons.hyps Cons.prems assms(3) by (cases n; cases m) auto
  with Cons show ?case by auto
qed simp

lemma sources_distinct:
  assumes "list_all2 (\<lambda>n m. P (mfrom n) (mfrom m)) ns ms" "\<And>r p p'. P r p \<Longrightarrow> P r p' \<Longrightarrow> p = p'"
    "distinct (map mfrom ms)"
  shows "distinct (map mfrom ns)"
  using assms(1,3)
proof (induction rule: list_all2_induct)
  case (Cons n ns m ms)
  have "mfrom n \<notin> mfrom ` set ns"
  proof
    assume "mfrom n \<in> mfrom ` set ns"
    then obtain i where "i < length ns" "mfrom n = mfrom (ns ! i)" by (auto simp: in_set_conv_nth)
    then have "P (mfrom n) (mfrom (ms ! i))" "ms ! i \<in> set ms"
      using list_all2_nthD [OF Cons.hyps(2)] list_all2_lengthD [OF Cons.hyps(2)] by auto
    then show False using assms(2) [OF Cons.hyps(1)] Cons.prems by auto
  qed
  with Cons show ?case by simp
qed simp

section \<open>Merging the moves\<close>

lemma corr_nothing: "corr {} {} r j \<longleftrightarrow> r = j"
  by (auto simp: corr_def)

text \<open>
  The phases of \<open>merge\<close> that are skipped when there is nothing to do for them would not have
  changed anything.
\<close>

lemma updated_skip:
  assumes "sets_ok mx c" "sets_ok mx u" "moves_ok D I (moves c)" "moves u = []"
    "elems (deletions u) = {}" "elems (insertions u) = {}"
  shows "updated mx c u (moves c) (moves c, c, u)"
proof (rule updatedI)
  show "(moves c, c, u) = (moves c, c\<lparr>columns := columns c\<rparr>,
      u\<lparr>modifications := modifications u, columns := columns u, moves := moves u\<rparr>)" by simp
qed (use assms in \<open>auto simp: sets_ok_def moves_ok_def goes_def carried_def corr_nothing\<close>)

lemma phase_update:
  assumes "builder_ok mx c" "builder_ok mx u"
  shows "\<exists>res. merge_old_moves mx ks (c, u) = Some ((fst (snd res))\<lparr>moves := fst res\<rparr>, snd (snd res)) \<and>
         updated mx c u (moves c) res"
proof -
  have so: "sets_ok mx c" "sets_ok mx u" using assms by (auto simp: builder_ok_def)
  have mo: "moves_ok (elems (deletions c)) (elems (insertions c)) (moves c)"
    "moves_ok (elems (deletions u)) (elems (insertions u)) (moves u)" using assms by (auto simp: builder_ok_def)
  have "distinct (map mfrom (moves c))" "distinct (map mto (moves c))" using mo(1) by (auto simp: moves_ok_def)
  then obtain res where r: "update_moves mx ks (moves c) (c, u) = Some res" "updated mx c u (moves c) res"
    using update_moves_ok [OF so mo(2)] by blast
  show ?thesis
  proof (cases "moves u \<noteq> [] \<or> \<not> crv_empty (deletions u) \<or> \<not> crv_empty (insertions u)")
    case True
    then show ?thesis using r by (intro exI [of _ res]) (simp add: merge_old_moves_def split: prod.splits)
  next
    case False
    then have "elems (deletions u) = {}" "elems (insertions u) = {}"
      using so(2) crv_empty_elems by (auto simp: sets_ok_def)
    then have "updated mx c u (moves c) (moves c, c, u)" using updated_skip [OF so mo(1)] False by blast
    then show ?thesis using False by (intro exI [of _ "(moves c, c, u)"]) (simp add: merge_old_moves_def)
  qed
qed

lemma phase_drop:
  assumes "is_ok mx (insertions c)"
  shows "drop_inserted (c, u) = (c, u\<lparr>moves := filter (\<lambda>m. mfrom m \<notin> elems (insertions c)) (moves u)\<rparr>)"
  using crv_empty_elems [OF assms] contains_elems [OF assms]
  by (cases "crv_empty (insertions c)"; cases "moves u") (simp_all add: drop_inserted_def)

lemma phase_mark:
  assumes "sets_ok mx c" "sets_ok mx u"
  shows "\<exists>cols n ocols. mark_modified mx ks (c, u) =
       Some (c\<lparr>columns := cols\<rparr>, u\<lparr>modifications := n, columns := ocols\<rparr>) \<and>
     cols_ok mx cols \<and> cols_ok mx ocols \<and> is_ok mx n \<and>
     elems n = elems (modifications u) \<union> mto ` {m \<in> set (moves u). mfrom m \<in> elems (modifications c)}"
proof (cases "\<not> crv_empty (modifications c) \<and> moves u \<noteq> []")
  case True
  then show ?thesis using mark_all_moved_ok [OF assms] by (simp add: mark_modified_def)
next
  case False
  then have "{m \<in> set (moves u). mfrom m \<in> elems (modifications c)} = {}"
    using crv_empty_elems assms(1) by (auto simp: sets_ok_def)
  then show ?thesis
    using False assms by (intro exI [of _ "columns c"] exI [of _ "modifications u"] exI [of _ "columns u"])
      (auto simp: sets_ok_def mark_modified_def)
qed

lemma phase_sources:
  assumes "is_ok mx (deletions c)" "is_ok mx (insertions c)" "\<forall>m \<in> set (moves u). mfrom m \<notin> elems (insertions c)"
  shows "\<exists>ns. new_sources (c, u) = Some ns \<and> map mto ns = map mto (moves u) \<and>
     list_all2 (\<lambda>n m. corr (elems (deletions c)) (elems (insertions c)) (mfrom n) (mfrom m)) ns (moves u)"
proof (cases "\<not> crv_empty (deletions c) \<or> \<not> crv_empty (insertions c)")
  case True
  then show ?thesis using unshift_sources_ok [OF assms] by (simp add: new_sources_def)
next
  case False
  then have "elems (deletions c) = {}" "elems (insertions c) = {}" using crv_empty_elems assms by auto
  then show ?thesis using False by (simp add: new_sources_def corr_nothing list_all2_refl)
qed

lemma goes_follows:
  assumes "builder_ok mx u"
  shows "goes u (set (moves u)) p q \<longleftrightarrow> follows u p q"
proof -
  have "p \<notin> mfrom ` set (moves u)" if "carried u p q"
    using that assms by (auto simp: carried_def corr_def builder_ok_def moves_ok_def)
  then show ?thesis by (auto simp: goes_def follows_def)
qed

lemma move_surj [simp]: "\<lparr>mfrom = mfrom m, mto = mto m\<rparr> = m" for m :: move
  by (cases m) simp

lemma mem_mto: "\<lparr>mfrom = r, mto = p\<rparr> \<in> set ms \<Longrightarrow> p \<in> mto ` set ms"
  by (metis image_eqI move.select_convs(2))

lemma goes_inj:
  assumes "moves_ok (elems (deletions u)) (elems (insertions u)) (moves u)"
    "goes u (set (moves u)) p q" "goes u (set (moves u)) p' q"
  shows "p = p'"
proof -
  have in_ins: "q \<in> elems (insertions u)" if "\<lparr>mfrom = a, mto = q\<rparr> \<in> set (moves u)" for a
    using that assms(1) unfolding moves_ok_def by (metis image_subset_iff move.select_convs(2))
  have out: "q \<notin> elems (insertions u)" if "carried u a q" for a using that by (simp add: carried_def corr_def)
  consider "\<lparr>mfrom = p, mto = q\<rparr> \<in> set (moves u)" "\<lparr>mfrom = p', mto = q\<rparr> \<in> set (moves u)"
    | "carried u p q" "carried u p' q"
    using assms(2,3) in_ins out unfolding goes_def by blast
  then show ?thesis
  proof cases
    case 1
    with moves_unique(2) [OF assms(1) 1] show ?thesis by simp
  next
    case 2
    then show ?thesis using corr_inj unfolding carried_def by blast
  qed
qed

lemma goes_in:
  assumes "moves_ok D I (moves u)" "D = elems (deletions u)" "I = elems (insertions u)"
    "goes u (set (moves u)) p q" "p \<in> I1"
  shows "q \<in> comp_ins I1 D I"
  using assms(4)
proof (unfold goes_def, elim disjE conjE)
  assume "\<lparr>mfrom = p, mto = q\<rparr> \<in> set (moves u)"
  then have "q \<in> I" using assms(1) unfolding moves_ok_def by (metis image_subset_iff move.select_convs(2))
  then show ?thesis by (simp add: comp_ins_def)
next
  assume "carried u p q"
  then have c: "p \<notin> D" "q \<notin> I" "unshifted I q = unshifted D p"
    using assms(2,3) by (simp_all add: carried_def corr_def)
  have "unshifted D p \<in> unshifted D ` (I1 - D)" using assms(5) c(1) by (intro imageI) simp
  then show ?thesis using c by (simp add: comp_ins_def placed_def)
qed

lemma old_moves_ok:
  assumes u: "builder_ok mx u" and mo: "moves_ok D1 I1 ms"
    and ms': "distinct (map mfrom ms')" "mfrom ` set ms' \<subseteq> mfrom ` set ms"
    and mem: "\<forall>r q. \<lparr>mfrom = r, mto = q\<rparr> \<in> set ms' \<longleftrightarrow>
        (\<exists>p. \<lparr>mfrom = r, mto = p\<rparr> \<in> set ms \<and> goes u (set (moves u)) p q)"
  shows "moves_ok (comp_del D1 I1 D2) (comp_ins I1 (elems (deletions u)) (elems (insertions u))) ms'"
proof -
  have mo2: "moves_ok (elems (deletions u)) (elems (insertions u)) (moves u)" using u by (simp add: builder_ok_def)
  have from_mem: "\<exists>p. \<lparr>mfrom = mfrom a, mto = p\<rparr> \<in> set ms \<and> goes u (set (moves u)) p (mto a)" if "a \<in> set ms'" for a
    using mem that by (metis move.surjective old.unit.exhaust)
  have "inj_on mto (set ms')"
  proof (rule inj_onI)
    fix a b assume ab: "a \<in> set ms'" "b \<in> set ms'" "mto a = mto b"
    obtain p where p: "\<lparr>mfrom = mfrom a, mto = p\<rparr> \<in> set ms" "goes u (set (moves u)) p (mto a)"
      using from_mem [OF ab(1)] by blast
    obtain p' where p': "\<lparr>mfrom = mfrom b, mto = p'\<rparr> \<in> set ms" "goes u (set (moves u)) p' (mto b)"
      using from_mem [OF ab(2)] by blast
    have "p = p'" using goes_inj [OF mo2] p(2) p'(2) ab(3) by metis
    then have "mfrom a = mfrom b" using moves_unique(2) [OF mo p(1) p'(1)] by simp
    with ab(3) show "a = b" by (simp add: move.equality)
  qed
  then have "distinct (map mto ms')" using ms'(1) by (simp add: distinct_map)
  moreover have "mfrom ` set ms' \<subseteq> D1" using ms'(2) mo unfolding moves_ok_def by blast
  moreover have "mto a \<in> comp_ins I1 (elems (deletions u)) (elems (insertions u))" if a: "a \<in> set ms'" for a
  proof -
    obtain p where p: "\<lparr>mfrom = mfrom a, mto = p\<rparr> \<in> set ms" "goes u (set (moves u)) p (mto a)"
      using from_mem [OF a] by blast
    have "p \<in> I1" using p(1) mo unfolding moves_ok_def by (metis image_subset_iff move.select_convs(2))
    then show ?thesis using goes_in [OF mo2 refl refl p(2)] by simp
  qed
  ultimately show ?thesis using ms'(1) by (auto simp: moves_ok_def comp_del_def)
qed

lemma new_moves_ok:
  assumes u: "moves_ok D2 I2 ms" and out: "\<forall>m \<in> set ms. mfrom m \<notin> I1"
    and ns: "map mto ns = map mto ms" "list_all2 (\<lambda>n m. corr D1 I1 (mfrom n) (mfrom m)) ns ms"
  shows "moves_ok (comp_del D1 I1 D2) (comp_ins I1 D2 I2) ns" "\<forall>n \<in> set ns. mfrom n \<notin> D1"
proof -
  have pair: "\<exists>m \<in> set ms. corr D1 I1 (mfrom n) (mfrom m)" if "n \<in> set ns" for n
    using that ns(2) by (metis in_set_conv_nth list_all2_conv_all_nth)
  show "\<forall>n \<in> set ns. mfrom n \<notin> D1" using pair unfolding corr_def by blast
  have "mfrom n \<in> comp_del D1 I1 D2" if n: "n \<in> set ns" for n
  proof -
    obtain m where m: "m \<in> set ms" "corr D1 I1 (mfrom n) (mfrom m)" using pair [OF n] by blast
    have "mfrom m \<in> D2 - I1" using u out m(1) unfolding moves_ok_def by blast
    then have "unshifted D1 (mfrom n) \<in> unshifted I1 ` (D2 - I1)" using m(2) by (simp add: corr_def)
    with m(2) show ?thesis by (simp add: corr_def comp_del_def placed_def)
  qed
  moreover have dm: "distinct (map mfrom ms)" using u by (simp add: moves_ok_def)
  have "distinct (map mfrom ns)" by (rule sources_distinct [OF ns(2)]) (erule (1) corr_fun, rule dm)
  moreover have "mto ` set ns \<subseteq> I2" using u ns(1) unfolding moves_ok_def by (metis set_map)
  moreover have "distinct (map mto ns)" using u unfolding ns(1) moves_ok_def by blast
  ultimately show "moves_ok (comp_del D1 I1 D2) (comp_ins I1 D2 I2) ns"
    by (auto simp: moves_ok_def comp_ins_def)
qed

lemma moves_ok_append:
  "moves_ok D I (ms @ ns) \<longleftrightarrow> moves_ok D I ms \<and> moves_ok D I ns \<and>
     mfrom ` set ms \<inter> mfrom ` set ns = {} \<and> mto ` set ms \<inter> mto ` set ns = {}"
  unfolding moves_ok_def by auto

lemma merge_moves_ok:
  assumes c: "builder_ok mx c" and u: "builder_ok mx u"
  shows "\<exists>cols ms n ocols oms. merge_moves mx ks (c, u) =
       Some (c\<lparr>columns := cols, moves := ms\<rparr>, u\<lparr>modifications := n, columns := ocols, moves := oms\<rparr>) \<and>
     cols_ok mx cols \<and> cols_ok mx ocols \<and> is_ok mx n \<and>
     moves_ok (comp_del (elems (deletions c)) (elems (insertions c)) (elems (deletions u)))
       (comp_ins (elems (insertions c)) (elems (deletions u)) (elems (insertions u))) ms \<and>
     (\<forall>r k. \<lparr>mfrom = r, mto = k\<rparr> \<in> set ms \<longleftrightarrow>
       (\<exists>p. \<lparr>mfrom = r, mto = p\<rparr> \<in> set (moves c) \<and> follows u p k) \<or>
       (\<exists>p. carried c r p \<and> \<lparr>mfrom = p, mto = k\<rparr> \<in> set (moves u))) \<and>
     elems n = elems (modifications u) \<union> mto ` {x \<in> set (moves u). mfrom x \<in> elems (modifications c) \<and>
       (mfrom x \<in> elems (insertions c) \<longrightarrow> mfrom x \<in> mto ` set (moves c))}"
proof -
  let ?D1 = "elems (deletions c)" and ?I1 = "elems (insertions c)" and ?M1 = "elems (modifications c)"
  let ?D2 = "elems (deletions u)" and ?I2 = "elems (insertions u)"
  have so: "sets_ok mx c" "sets_ok mx u" and mo1: "moves_ok ?D1 ?I1 (moves c)" and mo2: "moves_ok ?D2 ?I2 (moves u)"
    using c u by (auto simp: builder_ok_def)
  obtain res where ph1: "merge_old_moves mx ks (c, u) = Some ((fst (snd res))\<lparr>moves := fst res\<rparr>, snd (snd res))"
    and upd: "updated mx c u (moves c) res" using phase_update [OF c u] by blast
  obtain ms' cols1 n1 ocols1 oms where res: "res = (ms', c\<lparr>columns := cols1\<rparr>,
        u\<lparr>modifications := n1, columns := ocols1, moves := oms\<rparr>)"
    and ok1: "cols_ok mx cols1" "cols_ok mx ocols1" "is_ok mx n1"
    and n1: "elems n1 = elems (modifications u) \<union>
       mto ` {x \<in> set (moves u). mfrom x \<in> ?M1 \<and> mfrom x \<in> mto ` set (moves c)}"
    and oms: "moves_ok ?D2 ?I2 oms" "set oms = {x \<in> set (moves u). mfrom x \<notin> mto ` set (moves c)}"
    and ms': "distinct (map mfrom ms')" "mfrom ` set ms' \<subseteq> mfrom ` set (moves c)"
    and mem: "\<forall>r q. \<lparr>mfrom = r, mto = q\<rparr> \<in> set ms' \<longleftrightarrow>
        (\<exists>p. \<lparr>mfrom = r, mto = p\<rparr> \<in> set (moves c) \<and> goes u (set (moves u)) p q)"
    using upd by (auto simp: updated_def)
  let ?c1 = "c\<lparr>columns := cols1, moves := ms'\<rparr>"
  let ?u1 = "u\<lparr>modifications := n1, columns := ocols1, moves := oms\<rparr>"
  let ?oms2 = "filter (\<lambda>m. mfrom m \<notin> ?I1) oms"
  let ?u2 = "u\<lparr>modifications := n1, columns := ocols1, moves := ?oms2\<rparr>"
  have "is_ok mx (insertions ?c1)" using so(1) by (simp add: sets_ok_def)
  then have ph2: "drop_inserted (?c1, ?u1) = (?c1, ?u2)" by (simp add: phase_drop)
  have so': "sets_ok mx ?c1" "sets_ok mx ?u2" using so ok1 by (auto simp: sets_ok_def)
  obtain cols n ocols where ph3: "mark_modified mx ks (?c1, ?u2) =
       Some (?c1\<lparr>columns := cols\<rparr>, ?u2\<lparr>modifications := n, columns := ocols\<rparr>)"
    and ok: "cols_ok mx cols" "cols_ok mx ocols" "is_ok mx n"
    and n: "elems n = elems n1 \<union> mto ` {m \<in> set ?oms2. mfrom m \<in> ?M1}"
    using phase_mark [OF so', of ks] by auto
  let ?c3 = "?c1\<lparr>columns := cols\<rparr>" and ?u3 = "?u2\<lparr>modifications := n, columns := ocols\<rparr>"
  have "is_ok mx (deletions ?c3)" "is_ok mx (insertions ?c3)" using so(1) by (simp_all add: sets_ok_def)
  then obtain ns where ph4: "new_sources (?c3, ?u3) = Some ns"
    and ns: "map mto ns = map mto ?oms2" "list_all2 (\<lambda>n m. corr ?D1 ?I1 (mfrom n) (mfrom m)) ns ?oms2"
    using phase_sources [of mx ?c3 ?u3] by auto
  have run: "merge_moves mx ks (c, u) = Some (c\<lparr>columns := cols, moves := ms' @ ns\<rparr>,
      u\<lparr>modifications := n, columns := ocols, moves := ?oms2\<rparr>)"
    using ph1 ph2 ph3 ph4 by (simp add: merge_moves_def res)
  have oms2: "moves_ok ?D2 ?I2 ?oms2" using oms(1) by (rule moves_ok_filter')
  note old = old_moves_ok [OF u mo1 ms' mem]
  have out: "\<forall>m \<in> set ?oms2. mfrom m \<notin> ?I1" by simp
  note new = new_moves_ok [OF oms2 out ns]
  have "mfrom ` set (moves c) \<subseteq> ?D1" using mo1 by (simp add: moves_ok_def)
  with ms'(2) have "mfrom ` set ms' \<subseteq> ?D1" by (rule order_trans)
  moreover have "mfrom ` set ns \<inter> ?D1 = {}" using new(2) by auto
  ultimately have from_sep: "mfrom ` set ms' \<inter> mfrom ` set ns = {}" by fast
  have mem': "\<lparr>mfrom = r, mto = k\<rparr> \<in> set ms' \<longleftrightarrow> (\<exists>p. \<lparr>mfrom = r, mto = p\<rparr> \<in> set (moves c) \<and> follows u p k)" for r k
    using mem unfolding goes_follows [OF u] by blast
  have nsmem: "\<lparr>mfrom = r, mto = k\<rparr> \<in> set ns \<longleftrightarrow> (\<exists>p. carried c r p \<and> \<lparr>mfrom = p, mto = k\<rparr> \<in> set (moves u))" for r k
  proof -
    have "p \<notin> mto ` set (moves c) \<and> p \<notin> ?I1" if "carried c r p" for p
      using that mo1 unfolding carried_def corr_def moves_ok_def by blast
    moreover have "\<lparr>mfrom = p, mto = k\<rparr> \<in> set ?oms2 \<longleftrightarrow>
        \<lparr>mfrom = p, mto = k\<rparr> \<in> set (moves u) \<and> p \<notin> mto ` set (moves c) \<and> p \<notin> ?I1" for p
      by (simp add: oms(2) conj_commute conj_left_commute)
    moreover have "\<lparr>mfrom = r, mto = k\<rparr> \<in> set ns \<longleftrightarrow> (\<exists>p. carried c r p \<and> \<lparr>mfrom = p, mto = k\<rparr> \<in> set ?oms2)"
      unfolding carried_def by (rule sources_mem [OF ns]) (erule (1) corr_inj)
    ultimately show ?thesis by blast
  qed
  have to_sep: "mto ` set ms' \<inter> mto ` set ns = {}"
  proof (intro equals0I, elim IntE imageE)
    fix q a n assume a: "q = mto a" "a \<in> set ms'" and n: "q = mto n" "n \<in> set ns"
    then have "\<lparr>mfrom = mfrom a, mto = q\<rparr> \<in> set ms'" by simp
    then obtain p where p: "\<lparr>mfrom = mfrom a, mto = p\<rparr> \<in> set (moves c)" "goes u (set (moves u)) p q"
      using mem by blast
    have "mto n \<in> mto ` set ?oms2" using n(2) ns(1) by (metis image_eqI set_map)
    then obtain x where x: "x \<in> set oms" "mto x = q" using n(1) by auto
    then have "\<lparr>mfrom = mfrom x, mto = q\<rparr> \<in> set (moves u)" and nx: "mfrom x \<notin> mto ` set (moves c)"
      using oms(2) by auto
    then have "goes u (set (moves u)) (mfrom x) q" by (simp add: goes_def)
    with p(2) have "p = mfrom x" by (rule goes_inj [OF mo2])
    then show False using mem_mto [OF p(1)] nx by simp
  qed
  have "moves_ok (comp_del ?D1 ?I1 ?D2) (comp_ins ?I1 ?D2 ?I2) (ms' @ ns)"
    unfolding moves_ok_append using old new(1) from_sep to_sep by blast
  moreover have "\<lparr>mfrom = r, mto = k\<rparr> \<in> set (ms' @ ns) \<longleftrightarrow>
       (\<exists>p. \<lparr>mfrom = r, mto = p\<rparr> \<in> set (moves c) \<and> follows u p k) \<or>
       (\<exists>p. carried c r p \<and> \<lparr>mfrom = p, mto = k\<rparr> \<in> set (moves u))" for r k
    using mem' nsmem by simp
  moreover have "elems n = elems (modifications u) \<union> mto ` {x \<in> set (moves u). mfrom x \<in> ?M1 \<and>
       (mfrom x \<in> ?I1 \<longrightarrow> mfrom x \<in> mto ` set (moves c))}"
    unfolding n n1 using oms(2) by auto
  ultimately show ?thesis using run ok by blast
qed

section \<open>merge\<close>

lemma length_flat_card: "ranges_ok rs \<Longrightarrow> length rs \<le> card (ranges_set rs)"
proof -
  assume ok: "ranges_ok rs"
  have "ranges_ok rs \<Longrightarrow> length rs \<le> range_total rs"
    by (induction rs) (auto simp: range_size_def)
  with ok show ?thesis by (simp add: card_ranges_set)
qed

lemma card_placed_le: "finite X \<Longrightarrow> card (placed P X) \<le> card X"
proof (rule card_inj_on_le [of "unshifted P"])
  show "inj_on (unshifted P) (placed P X)" using unshifted_inj [of _ P] by (auto simp: inj_on_def placed_def)
qed (auto simp: placed_def)

lemma card_comp_del:
  assumes "finite D1" "finite D2"
  shows "card (comp_del D1 I1 D2) \<le> card D1 + card D2"
proof -
  have "card (comp_del D1 I1 D2) \<le> card D1 + card (placed D1 (unshifted I1 ` (D2 - I1)))"
    unfolding comp_del_def by (rule card_Un_le)
  also have "card (placed D1 (unshifted I1 ` (D2 - I1))) \<le> card (unshifted I1 ` (D2 - I1))"
    using assms by (intro card_placed_le) simp
  also have "\<dots> \<le> card D2" using assms by (meson card_image_le card_mono Diff_subset finite_Diff le_trans)
  finally show ?thesis by simp
qed

lemma merge_dels_ok:
  assumes "is_ok mx d" "is_ok mx i" "is_ok mx e"
    "card (elems d) + card (elems e) \<le> mx * (length (flat d) div mx + 1)"
  shows "\<exists>d'. add_shifted_by mx d i e = Some d' \<and> is_ok mx d' \<and>
     elems d' = comp_del (elems d) (elems i) (elems e)"
proof -
  obtain d' where d': "add_shifted_by mx d i e = Some d'" "ranges_ok (flat d')"
    "elems d' = comp_del (elems d) (elems i) (elems e)"
    "length (flat d') \<le> mx * (length (flat d) div mx + 1) \<longrightarrow> is_ok mx d'"
    using add_shifted_by_ok [OF assms(1-3)] by (auto simp: comp_del_def)
  have "length (flat d') \<le> card (elems d')" using length_flat_card [OF d'(2)] by (simp add: elems_def)
  also have "\<dots> \<le> card (elems d) + card (elems e)" unfolding d'(3) by (rule card_comp_del) simp_all
  finally have "is_ok mx d'" using d'(4) assms(4) by simp
  with d' show ?thesis by blast
qed

lemma merge_col_ok:
  assumes "is_ok mx d" "is_ok mx i" "is_ok mx s" "is_ok mx t"
  shows "\<exists>s'. merge_col mx d i s t = Some (s', t) \<and> is_ok mx s' \<and>
     elems s' = placed (elems i) (unshifted (elems d) ` (elems s - elems d)) \<union> elems t"
proof -
  obtain s1 where 1: "erase_at_all mx s d = Some s1" "is_ok mx s1" "elems s1 = unshifted (elems d) ` (elems s - elems d)"
    using erase_at_all_ok [OF assms(3,1)] by blast
  obtain s2 where 2: "shift_for_insert_at_all mx s1 i = Some s2" "is_ok mx s2" "elems s2 = placed (elems i) (elems s1)"
    using shift_for_insert_at_all_ok [OF 1(2) assms(2)] by blast
  obtain s3 where 3: "add_all mx s2 t = Some s3" "is_ok mx s3" "elems s3 = elems s2 \<union> elems t"
    using add_all_ok [OF 2(2) assms(4)] by blast
  show ?thesis using 1 2 3 by (simp add: merge_col_def)
qed

lemma merge_cols_ok:
  assumes "sets_ok mx c" "sets_ok mx u" "is_ok mx d" "is_ok mx i"
  shows "\<exists>m cols ocols. for_each_col2 (merge_col mx d i) ks (c, u) =
       Some (c\<lparr>modifications := m, columns := cols\<rparr>, u\<lparr>columns := ocols\<rparr>) \<and>
     is_ok mx m \<and> cols_ok mx cols \<and>
     elems m = placed (elems i) (unshifted (elems d) ` (elems (modifications c) - elems d)) \<union> elems (modifications u)"
proof -
  have ok: "is_ok mx (modifications c)" "is_ok mx (modifications u)"
    and co: "cols_ok mx (columns c)" "cols_ok mx (columns u)" using assms by (auto simp: sets_ok_def)
  obtain m where m: "merge_col mx d i (modifications c) (modifications u) = Some (m, modifications u)" "is_ok mx m"
    "elems m = placed (elems i) (unshifted (elems d) ` (elems (modifications c) - elems d)) \<union> elems (modifications u)"
    using merge_col_ok [OF assms(3,4) ok] by blast
  obtain cols ocols where e: "each_col2 (merge_col mx d i) ks (columns c, columns u) = Some (cols, ocols)" "cols_ok mx cols"
    using each_col2_ok [of mx "merge_col mx d i" "columns c" "columns u" ks] merge_col_ok [OF assms(3,4)] co
      is_ok_mx [OF ok(1)] by blast
  have "for_each_col2 (merge_col mx d i) ks (c, u) =
      Some (c\<lparr>modifications := m, columns := cols\<rparr>, u\<lparr>columns := ocols\<rparr>)"
    using m(1) e(1) by (simp add: for_each_col2_def)
  with m e show ?thesis by blast
qed

lemma mem_placed_carried: "k \<in> placed (elems (insertions u)) (unshifted (elems (deletions u)) ` (M - elems (deletions u))) \<longleftrightarrow>
    (\<exists>j \<in> M. carried u j k)"
  unfolding placed_def carried_def corr_def image_iff mem_Collect_eq by (metis Diff_iff)

text \<open>The rows the merged change marks as modified.\<close>

definition merged_mods :: "change_builder \<Rightarrow> change_builder \<Rightarrow> nat \<Rightarrow> bool" where
  "merged_mods c u k \<longleftrightarrow> k \<in> elems (modifications u) \<or> (\<exists>j \<in> elems (modifications c). carried u j k) \<or>
     (\<exists>x \<in> set (moves u). mto x = k \<and> mfrom x \<in> elems (modifications c) \<and>
        (mfrom x \<in> elems (insertions c) \<longrightarrow> mfrom x \<in> mto ` set (moves c)))"

definition merges_to :: "change_builder \<Rightarrow> change_builder \<Rightarrow> change_builder \<Rightarrow> bool" where
  "merges_to c u c' \<longleftrightarrow> (\<forall>r k. follows c' r k \<longleftrightarrow> (\<exists>j. follows c r j \<and> follows u j k)) \<and>
     (\<forall>k. k \<in> elems (modifications c') \<longleftrightarrow> merged_mods c u k)"

lemma cs_empty_sets:
  assumes "builder_ok mx c" "cs_empty c"
  shows "elems (deletions c) = {}" "elems (insertions c) = {}" "elems (modifications c) = {}" "moves c = []"
    "carried c r j \<longleftrightarrow> r = j" "follows c r j \<longleftrightarrow> r = j"
  using assms crv_empty_elems
  by (auto simp: cs_empty_def builder_ok_def sets_ok_def carried_def follows_def corr_nothing)

lemma merge_nonempty:
  assumes c: "builder_ok mx c" and u: "builder_ok mx u" and ne: "\<not> cs_empty c" "\<not> cs_empty u"
    and few: "card (elems (deletions c)) + card (elems (deletions u)) \<le>
      mx * (length (flat (deletions c)) div mx + 1)"
  shows "\<exists>c'. merge mx c u = Some c' \<and> builder_ok mx c' \<and> merges_to c u c'"
proof -
  let ?D1 = "elems (deletions c)" and ?I1 = "elems (insertions c)"
  let ?D2 = "elems (deletions u)" and ?I2 = "elems (insertions u)"
  let ?D = "comp_del ?D1 ?I1 ?D2" and ?I = "comp_ins ?I1 ?D2 ?I2" and ?ks = "col_keys c u"
  have so: "sets_ok mx c" "sets_ok mx u" using c u by (auto simp: builder_ok_def)
  obtain cols ms n ocols oms where mm: "merge_moves mx ?ks (c, u) =
       Some (c\<lparr>columns := cols, moves := ms\<rparr>, u\<lparr>modifications := n, columns := ocols, moves := oms\<rparr>)"
    and ok: "cols_ok mx cols" "cols_ok mx ocols" "is_ok mx n" and mo: "moves_ok ?D ?I ms"
    and mem: "\<forall>r k. \<lparr>mfrom = r, mto = k\<rparr> \<in> set ms \<longleftrightarrow>
       (\<exists>p. \<lparr>mfrom = r, mto = p\<rparr> \<in> set (moves c) \<and> follows u p k) \<or>
       (\<exists>p. carried c r p \<and> \<lparr>mfrom = p, mto = k\<rparr> \<in> set (moves u))"
    and n: "elems n = elems (modifications u) \<union> mto ` {x \<in> set (moves u). mfrom x \<in> elems (modifications c) \<and>
       (mfrom x \<in> ?I1 \<longrightarrow> mfrom x \<in> mto ` set (moves c))}"
    by (insert merge_moves_ok [OF c u, of ?ks], elim exE conjE) (rule that)
  have okd: "is_ok mx (deletions c)" "is_ok mx (insertions c)" "is_ok mx (deletions u)" "is_ok mx (insertions u)"
    using so by (auto simp: sets_ok_def)
  obtain d where d: "add_shifted_by mx (deletions c) (insertions c) (deletions u) = Some d" "is_ok mx d" "elems d = ?D"
    using merge_dels_ok [OF okd(1-3) few] by blast
  obtain i1 i where i: "erase_at_all mx (insertions c) (deletions u) = Some i1"
    "insert_at_all mx i1 (insertions u) = Some i" "is_ok mx i" "elems i = ?I"
    using ixs.merge_step [OF okd(2-4)] by blast
  have mo': "moves_ok (elems d) (elems i) ms" using mo d(3) i(4) by simp
  obtain ms' d' i' R where st: "stale_moves mx ms d i = Some (ms', d', i')" "is_ok mx d'" "is_ok mx i'"
    "moves_ok (elems d') (elems i') ms'" "R \<subseteq> set ms" "set ms' = set ms - R"
    and cr: "\<forall>r j. corr (elems d') (elems i') r j \<longleftrightarrow> corr ?D ?I r j \<or> \<lparr>mfrom = r, mto = j\<rparr> \<in> R"
    using stale_moves_ok [OF d(2) i(3) mo'] unfolding d(3) i(4) by (elim exE conjE) (rule that)
  let ?c1 = "c\<lparr>columns := cols, moves := ms', deletions := d', insertions := i'\<rparr>"
  let ?u1 = "u\<lparr>modifications := n, columns := ocols, moves := oms\<rparr>"
  have cl: "clean_up_stale_moves mx (c\<lparr>columns := cols, moves := ms, deletions := d, insertions := i\<rparr>) = Some ?c1"
    using st(1) by (simp add: clean_up_stale_moves_def)
  have so1: "sets_ok mx ?c1" "sets_ok mx ?u1" using so ok st(2,3) by (auto simp: sets_ok_def)
  obtain m cols' ocols' where fc: "for_each_col2 (merge_col mx (deletions u) (insertions u)) ?ks (?c1, ?u1) =
       Some (?c1\<lparr>modifications := m, columns := cols'\<rparr>, ?u1\<lparr>columns := ocols'\<rparr>)"
    and m: "is_ok mx m" "cols_ok mx cols'"
    "elems m = placed ?I2 (unshifted ?D2 ` (elems (modifications c) - ?D2)) \<union> elems n"
    using merge_cols_ok [OF so1 okd(3,4), of ?ks] by auto
  let ?c' = "?c1\<lparr>modifications := m, columns := cols'\<rparr>"
  have run: "merge mx c u = Some ?c'"
    using ne mm d(1) i(1,2) cl fc by (simp add: merge_def Let_def)
  have b: "builder_ok mx ?c'" using st m by (simp add: builder_ok_def sets_ok_def)
  have "follows ?c' r k \<longleftrightarrow> corr ?D ?I r k \<or> \<lparr>mfrom = r, mto = k\<rparr> \<in> set ms" for r k
    using cr st(5,6) by (auto simp: follows_def carried_def)
  moreover have "corr ?D ?I r k \<longleftrightarrow> (\<exists>j. carried c r j \<and> carried u j k)" for r k
    unfolding carried_def by (rule corr_compose) simp_all
  ultimately have "follows ?c' r k \<longleftrightarrow> (\<exists>j. follows c r j \<and> follows u j k)" for r k
    using mem unfolding follows_def [of c] follows_def [of u] by blast
  moreover have "k \<in> elems m \<longleftrightarrow> merged_mods c u k" for k
    unfolding m(3) n Un_iff mem_placed_carried merged_mods_def by blast
  ultimately have "merges_to c u ?c'" by (simp add: merges_to_def)
  with run b show ?thesis by blast
qed

lemma merge_ok:
  assumes c: "builder_ok mx c" and u: "builder_ok mx u"
    and few: "card (elems (deletions c)) + card (elems (deletions u)) \<le>
      mx * (length (flat (deletions c)) div mx + 1)"
  shows "\<exists>c'. merge mx c u = Some c' \<and> builder_ok mx c' \<and> merges_to c u c'"
proof -
  consider "cs_empty u" | "cs_empty c" "\<not> cs_empty u" | "\<not> cs_empty c" "\<not> cs_empty u" by blast
  then show ?thesis
  proof cases
    case 1
    have "merges_to c u c"
      unfolding merges_to_def merged_mods_def using cs_empty_sets [OF u 1] by simp
    with 1 c show ?thesis by (simp add: merge_def)
  next
    case 2
    have "merges_to c u u"
      unfolding merges_to_def merged_mods_def using cs_empty_sets [OF c 2(1)] by simp
    with 2 u show ?thesis by (simp add: merge_def)
  next
    case 3
    then show ?thesis using merge_nonempty [OF c u _ _ few] by blast
  qed
qed

section \<open>finalize\<close>

text \<open>
  The modifications of the old collection are the positions the modified rows of the new one
  come from, so both sets have the same number of indices.
\<close>

lemma finalize_changes_ok:
  assumes "builder_ok mx c"
  shows "\<exists>f. finalize_changes mx c = Some f \<and> deletions f = deletions c \<and> insertions f = insertions c \<and>
     moves f = moves c \<and>
     elems (modifications_new f) = elems (modifications c) - elems (insertions c) \<and>
     elems (modifications f) = {r. \<exists>j \<in> elems (modifications_new f). carried c r j} \<and>
     card (elems (modifications f)) = card (elems (modifications_new f))"
proof -
  let ?M = "elems (modifications c)" and ?I = "elems (insertions c)" and ?D = "elems (deletions c)"
  have ok: "is_ok mx (deletions c)" "is_ok mx (insertions c)" "is_ok mx (modifications c)"
    using assms by (auto simp: builder_ok_def sets_ok_def)
  obtain o1 where 1: "erase_at_all mx (modifications c) (insertions c) = Some o1" "is_ok mx o1"
    "elems o1 = unshifted ?I ` (?M - ?I)" using erase_at_all_ok [OF ok(3,2)] by blast
  obtain o2 where 2: "shift_for_insert_at_all mx o1 (deletions c) = Some o2" "is_ok mx o2" "elems o2 = placed ?D (elems o1)"
    using shift_for_insert_at_all_ok [OF 1(2) ok(1)] by blast
  obtain new where 3: "remove_all mx (modifications c) (insertions c) = Some new" "elems new = ?M - ?I"
    using remove_all_ok [OF ok(3), of "insertions c"] ok(2) by (auto simp: is_ok_def)
  have eq: "elems o2 = {r. \<exists>j \<in> ?M - ?I. carried c r j}"
    unfolding 2(3) 1(3) placed_def carried_def corr_def by (auto simp: image_iff)
  have ex: "\<exists>r. carried c r j" if j: "j \<in> ?M - ?I" for j
  proof -
    obtain r where "r \<notin> ?D" "unshifted ?D r = unshifted ?I j" using ex_shifted [of ?D "unshifted ?I j"] by auto
    then show ?thesis using j by (auto simp: carried_def corr_def)
  qed
  have "bij_betw (\<lambda>j. THE r. carried c r j) (?M - ?I) (elems o2)"
  proof -
    have the: "(THE r. carried c r j) = r" if "carried c r j" for r j
      using that corr_inj unfolding carried_def by blast
    show ?thesis
      unfolding bij_betw_def eq
    proof
      show "inj_on (\<lambda>j. THE r. carried c r j) (?M - ?I)"
        using ex the corr_fun unfolding inj_on_def carried_def by metis
      show "(\<lambda>j. THE r. carried c r j) ` (?M - ?I) = {r. \<exists>j \<in> ?M - ?I. carried c r j}"
        using ex the by (auto simp: image_iff)
    qed
  qed
  then have "card (elems o2) = card (?M - ?I)" using bij_betw_same_card by fastforce
  then show ?thesis using 1(1) 2(1) 3 eq by (simp add: finalize_changes_def)
qed

end
