(* ===== verification/ChangeHistory.thy ===== *)
theory ChangeHistory
  imports ChangeMerge
begin

text \<open>
  A history of changes recorded in a \<open>CollectionChangeBuilder\<close>: what
  \<open>TransactLogObserver\<close> does with the list instructions of a transaction log, one call of
  \<open>insert\<close>, \<open>erase\<close>, \<open>move\<close> or \<open>modify\<close> after another. The specification follows one row through the
  history.
\<close>

datatype change =
  Insert nat nat
| Erase nat
| Move nat nat
| Modify nat

fun record_change :: "nat \<Rightarrow> change_builder \<Rightarrow> change \<Rightarrow> change_builder option" where
  "record_change mx c (Insert i n) = insert_rows mx c i n True"
| "record_change mx c (Erase i) = erase_row mx c i"
| "record_change mx c (Move s t) = move_row mx c s t"
| "record_change mx c (Modify i) = modify mx c i None"

fun record_changes :: "nat \<Rightarrow> change_builder \<Rightarrow> change list \<Rightarrow> change_builder option" where
  "record_changes mx c [] = Some c"
| "record_changes mx c (x # xs) = do { c \<leftarrow> record_change mx c x; record_changes mx c xs }"

text \<open>The arguments the assertions of the code ask for.\<close>

fun valid_change :: "change \<Rightarrow> bool" where
  "valid_change (Insert i n) \<longleftrightarrow> n \<noteq> 0"
| "valid_change (Erase i) \<longleftrightarrow> i < npos"
| "valid_change (Move s t) \<longleftrightarrow> s \<noteq> t \<and> s < npos"
| "valid_change (Modify i) = True"

text \<open>Where a row goes, and \<open>None\<close> once it is erased.\<close>

fun row_after :: "change \<Rightarrow> nat \<Rightarrow> nat option" where
  "row_after (Insert i n) j = Some (if i \<le> j then j + n else j)"
| "row_after (Erase i) j = (if j = i then None else Some (if i < j then j - 1 else j))"
| "row_after (Move s t) j = Some (moved s t j)"
| "row_after (Modify i) j = Some j"

fun row_after_all :: "change list \<Rightarrow> nat \<Rightarrow> nat option" where
  "row_after_all [] j = Some j"
| "row_after_all (x # xs) j = (case row_after x j of None \<Rightarrow> None | Some k \<Rightarrow> row_after_all xs k)"

lemma record_change_ok:
  assumes "builder_ok mx c" "valid_change x"
  shows "\<exists>c'. record_change mx c x = Some c' \<and> builder_ok mx c' \<and>
    (\<forall>r k. follows c' r k \<longleftrightarrow> (\<exists>j. follows c r j \<and> row_after x j = Some k))"
proof (cases x)
  case (Insert i n)
  then obtain c' where c': "insert_rows mx c i n True = Some c'" "builder_ok mx c'"
    using insert_rows_ok [OF assms(1), of n i] assms(2) by auto
  then show ?thesis using insert_rows_follows [OF assms(1) _ c'(1)] assms(2) Insert by auto
next
  case (Erase i)
  then obtain c' where c': "erase_row mx c i = Some c'" "builder_ok mx c'"
    using erase_row_ok [OF assms(1), of i] assms(2) by auto
  then show ?thesis using erase_row_follows [OF assms(1) _ c'(1)] assms(2) Erase by auto
next
  case (Move s t)
  then obtain c' where c': "move_row mx c s t = Some c'" "builder_ok mx c'"
    using move_row_ok [OF assms(1), of s t] assms(2) by auto
  then show ?thesis using move_row_follows [OF assms(1) _ _ c'(1)] assms(2) Move by auto
next
  case (Modify i)
  obtain c' where c': "modify mx c i None = Some c'" "builder_ok mx c'" "deletions c' = deletions c"
    "insertions c' = insertions c" "moves c' = moves c"
    using modify_ok [OF assms(1), of i None] by blast
  then show ?thesis using Modify by (auto simp: follows_def carried_def)
qed

lemma record_changes_ok:
  assumes "builder_ok mx c" "list_all valid_change xs"
  shows "\<exists>c'. record_changes mx c xs = Some c' \<and> builder_ok mx c' \<and>
    (\<forall>r k. follows c' r k \<longleftrightarrow> (\<exists>j. follows c r j \<and> row_after_all xs j = Some k))"
  using assms
proof (induction xs arbitrary: c)
  case (Cons x xs)
  obtain c1 where c1: "record_change mx c x = Some c1" "builder_ok mx c1"
    "\<forall>r k. follows c1 r k \<longleftrightarrow> (\<exists>j. follows c r j \<and> row_after x j = Some k)"
    using record_change_ok [OF Cons.prems(1), of x] Cons.prems(2) by (simp only: list.pred_inject(2)) blast
  obtain c2 where c2: "record_changes mx c1 xs = Some c2" "builder_ok mx c2"
    "\<forall>r k. follows c2 r k \<longleftrightarrow> (\<exists>j. follows c1 r j \<and> row_after_all xs j = Some k)"
    using Cons.IH [OF c1(2)] Cons.prems(2) by (simp only: list.pred_inject(2)) blast
  have "follows c2 r k \<longleftrightarrow> (\<exists>j. follows c r j \<and> row_after_all (x # xs) j = Some k)" for r k
    using c1(3) c2(3) by (auto split: option.splits) blast
  then show ?case using c1(1) c2(1,2) by auto
qed simp

lemma empty_builder_ok: "even mx \<Longrightarrow> 2 \<le> mx \<Longrightarrow> builder_ok mx empty_builder"
  by (simp add: builder_ok_def empty_builder_def sets_ok_def cols_ok_def moves_ok_def is_ok_empty)

lemma empty_builder_follows: "follows empty_builder r j \<longleftrightarrow> r = j"
  by (auto simp: follows_def carried_def empty_builder_def corr_def)

end
