(* ===== verification/ChangeCalculate.thy ===== *)
theory ChangeCalculate
  imports ChangeBuilder "HOL-Library.Product_Lexorder" "HOL-Library.Word"
begin

text \<open>
  \<open>CollectionChangeBuilder::calculate\<close>
  (\<open>ObjectStore/src/impl/collection_change_builder.cpp\<close>): the deletions and insertions that turn
  one list of row keys into another, found with a longest common subsequence calculator, and
  \<open>verify_changeset\<close>, the debug check that they do. \<open>std::sort\<close> by a key is \<open>sort_key\<close>; where
  two rows have the same key the order it leaves them in is not specified, so the theorems ask
  for distinct keys.
\<close>

section \<open>The longest common subsequence calculator\<close>

record row =
  rkey :: int
  rtv :: nat

record match =
  mi :: nat
  mj :: nat
  msize :: nat
  mmodified :: nat

text \<open>Subtraction of \<open>size_t\<close> values.\<close>

definition size_diff :: "nat \<Rightarrow> nat \<Rightarrow> nat" where
  "size_diff a b = (if b \<le> a then a - b else 2 ^ 64 - (b - a))"

type_synonym lengths = "(nat \<times> nat) list"

fun length_at :: "lengths \<Rightarrow> nat \<Rightarrow> nat" where
  "length_at [] j = 1"
| "length_at (p # prev) j = (if fst p + 1 = j then snd p + 1 else length_at prev j)"

text \<open>The positions \<open>j\<close> that \<open>for_each_b_match\<close> visits for a key.\<close>

definition b_matches :: "row list \<Rightarrow> nat \<Rightarrow> nat \<Rightarrow> int \<Rightarrow> nat list option" where
  "b_matches b begin2 end2 ai =
     (let it = dropWhile (\<lambda>r. rkey r < ai) b in do {
        realm_assert (it \<noteq> [] \<and> rkey (hd it) = ai);
        let js = map rtv (takeWhile (\<lambda>r. rkey r = ai) it);
        Some (filter (\<lambda>j. \<not> j < begin2) (takeWhile (\<lambda>j. j < begin2 \<or> j < end2) js))
      })"

definition better_match :: "chunks \<Rightarrow> nat \<Rightarrow> nat \<Rightarrow> nat \<Rightarrow> match \<Rightarrow> match option" where
  "better_match modified i j len best =
     (if msize best < len
      then Some \<lparr>mi = size_diff (i + 1) len, mj = size_diff (j + 1) len, msize = len, mmodified = npos\<rparr>
      else if len = msize best then do {
        m \<leftarrow> (if mmodified best = npos then count_in modified (size_diff (mj best + 1) len) (mj best + 1)
              else Some (mmodified best));
        n \<leftarrow> count_in modified (size_diff (j + 1) len) (j + 1);
        Some (if n < m
              then \<lparr>mi = size_diff (i + 1) len, mj = size_diff (j + 1) len, msize = len, mmodified = n\<rparr>
              else best\<lparr>mmodified := m\<rparr>)
      }
      else Some best)"

fun match_js :: "chunks \<Rightarrow> nat \<Rightarrow> nat \<Rightarrow> nat \<Rightarrow> nat \<Rightarrow> nat \<Rightarrow> lengths \<Rightarrow> nat list \<Rightarrow> lengths \<Rightarrow> match \<Rightarrow>
    (lengths \<times> match) option" where
  "match_js modified begin1 end1 begin2 end2 i prev [] now best = Some (now, best)"
| "match_js modified begin1 end1 begin2 end2 i prev (j # js) now best = do {
     let size = length_at prev j;
     best \<leftarrow> better_match modified i j size best;
     realm_assert (begin1 \<le> mi best \<and> mi best + msize best \<le> end1);
     realm_assert (begin2 \<le> mj best \<and> mj best + msize best \<le> end2);
     match_js modified begin1 end1 begin2 end2 i prev js (now @ [(j, size)]) best
   }"

fun match_rows :: "chunks \<Rightarrow> row list \<Rightarrow> row list \<Rightarrow> nat \<Rightarrow> nat \<Rightarrow> nat \<Rightarrow> nat \<Rightarrow> nat list \<Rightarrow> lengths \<Rightarrow> match \<Rightarrow>
    match option" where
  "match_rows modified a b begin1 end1 begin2 end2 [] now best = Some best"
| "match_rows modified a b begin1 end1 begin2 end2 (i # is) now best = do {
     js \<leftarrow> b_matches b begin2 end2 (rkey (a ! i));
     (now, best) \<leftarrow> match_js modified begin1 end1 begin2 end2 i now js [] best;
     match_rows modified a b begin1 end1 begin2 end2 is now best
   }"

definition find_longest_match ::
    "chunks \<Rightarrow> row list \<Rightarrow> row list \<Rightarrow> nat \<Rightarrow> nat \<Rightarrow> nat \<Rightarrow> nat \<Rightarrow> match option" where
  "find_longest_match modified a b begin1 end1 begin2 end2 =
     match_rows modified a b begin1 end1 begin2 end2 [begin1..<end1] []
       \<lparr>mi = begin1, mj = begin2, msize = 0, mmodified = 0\<rparr>"

partial_function (option) find_longest_matches ::
    "chunks \<Rightarrow> row list \<Rightarrow> row list \<Rightarrow> nat \<Rightarrow> nat \<Rightarrow> nat \<Rightarrow> nat \<Rightarrow> match list \<Rightarrow> match list option" where
  "find_longest_matches modified a b begin1 end1 begin2 end2 acc =
     (find_longest_match modified a b begin1 end1 begin2 end2 \<bind> (\<lambda>m.
        if msize m = 0 then Some acc
        else
          (if begin1 < mi m \<and> begin2 < mj m
           then find_longest_matches modified a b begin1 (mi m) begin2 (mj m) acc else Some acc) \<bind> (\<lambda>acc.
          if mi m + msize m < end2 \<and> mj m + msize m < end2
          then find_longest_matches modified a b (mi m + msize m) end1 (mj m + msize m) end2 (acc @ [m])
          else Some (acc @ [m]))))"

declare find_longest_matches.simps [code]

definition longest_matches :: "chunks \<Rightarrow> row list \<Rightarrow> row list \<Rightarrow> nat \<Rightarrow> match list option" where
  "longest_matches modified a b start_index =
     map_option (\<lambda>ms. ms @ [\<lparr>mi = length a, mj = length b, msize = 0, mmodified = 0\<rparr>])
       (find_longest_matches modified a b start_index (length a) start_index (length b) [])"

section \<open>Calculating a change set\<close>

record row_info =
  key :: int
  prev_tv_index :: nat
  tv_index :: nat

fun add_list :: "nat \<Rightarrow> chunks \<Rightarrow> nat list \<Rightarrow> chunks option" where
  "add_list mx s [] = Some s"
| "add_list mx s (i # is) = do { s \<leftarrow> add mx s i; add_list mx s is }"

fun apply_matches :: "nat \<Rightarrow> row list \<Rightarrow> row_info list \<Rightarrow> nat \<Rightarrow> nat \<Rightarrow> match list \<Rightarrow> change_builder \<Rightarrow>
    change_builder option" where
  "apply_matches mx a rows i j [] c = Some c"
| "apply_matches mx a rows i j (m # ms) c = do {
     d \<leftarrow> add_list mx (deletions c) (map (\<lambda>i. rtv (a ! i)) [i..<mi m]);
     ins \<leftarrow> add_list mx (insertions c) (map (\<lambda>j. tv_index (rows ! j)) [j..<mj m]);
     apply_matches mx a rows (max i (mi m) + msize m) (max j (mj m) + msize m) ms
       (c\<lparr>deletions := d, insertions := ins\<rparr>)
   }"

definition first_difference :: "row list \<Rightarrow> row_info list \<Rightarrow> nat option" where
  "first_difference a rows =
     (let k = length (takeWhile (\<lambda>p. rkey (fst p) = key (snd p)) (zip a rows))
      in if k < length a then Some k else None)"

definition calculate_moves_sorted :: "nat \<Rightarrow> row_info list \<Rightarrow> change_builder \<Rightarrow> change_builder option" where
  "calculate_moves_sorted mx rows c =
     (let a = sort_key (\<lambda>r. (rtv r, rkey r)) (map (\<lambda>r. \<lparr>rkey = key r, rtv = prev_tv_index r\<rparr>) rows) in
      case first_difference a rows of
        None \<Rightarrow> Some c
      | Some start \<Rightarrow>
          let b = sort_key (\<lambda>r. (rkey r, rtv r))
                (map (\<lambda>i. \<lparr>rkey = key (rows ! i), rtv = i\<rparr>) [0..<length rows]) in do {
            matches \<leftarrow> longest_matches (modifications c) a b start;
            apply_matches mx a rows start start matches c
          })"

text \<open>
  The loop over the old and new rows sorted by key; the result has the new rows with their
  previous indices.
\<close>

fun align_rows :: "nat \<Rightarrow> row_info list \<Rightarrow> row_info list \<Rightarrow> change_builder \<Rightarrow> row_info list \<Rightarrow>
    (change_builder \<times> row_info list) option" where
  "align_rows mx [] new c seen = do {
     i \<leftarrow> add_list mx (insertions c) (map tv_index new);
     Some (c\<lparr>insertions := i\<rparr>, seen @ new)
   }"
| "align_rows mx old [] c seen = do {
     d \<leftarrow> add_list mx (deletions c) (map tv_index old);
     Some (c\<lparr>deletions := d\<rparr>, seen)
   }"
| "align_rows mx (old_index # old) (new_index # new) c seen =
     (if key old_index = key new_index
      then align_rows mx old new c (seen @ [new_index\<lparr>prev_tv_index := tv_index old_index\<rparr>])
      else if key old_index < key new_index then do {
        d \<leftarrow> add mx (deletions c) (tv_index old_index);
        align_rows mx old (new_index # new) (c\<lparr>deletions := d\<rparr>) seen
      }
      else do {
        i \<leftarrow> add mx (insertions c) (tv_index new_index);
        align_rows mx (old_index # old) new (c\<lparr>insertions := i\<rparr>) (seen @ [new_index])
      })"

definition calculate_rows :: "nat \<Rightarrow> change_builder \<Rightarrow> row_info list \<Rightarrow> row_info list \<Rightarrow> (int \<Rightarrow> bool) \<Rightarrow>
    bool \<Rightarrow> change_builder option" where
  "calculate_rows mx ret old_rows new_rows key_did_change in_table_order = do {
     (ret, new_rows) \<leftarrow> align_rows mx old_rows new_rows ret [];
     let new_rows = sort_key tv_index (filter (\<lambda>row. prev_tv_index row \<noteq> npos) new_rows);
     m \<leftarrow> add_list mx (modifications ret) (map tv_index (filter (\<lambda>row. key_did_change (key row)) new_rows));
     let ret = ret\<lparr>modifications := m\<rparr>;
     if in_table_order then Some ret else calculate_moves_sorted mx new_rows ret
   }"

definition build_row_info :: "int list \<Rightarrow> row_info list" where
  "build_row_info rows =
     sort_key key (map (\<lambda>i. \<lparr>key = rows ! i, prev_tv_index = npos, tv_index = i\<rparr>) [0..<length rows])"

definition calculate :: "nat \<Rightarrow> int list \<Rightarrow> int list \<Rightarrow> (int \<Rightarrow> bool) \<Rightarrow> bool \<Rightarrow> change_builder option" where
  "calculate mx prev_rows next_rows key_did_change in_table_order =
     calculate_rows mx empty_builder (build_row_info prev_rows) (build_row_info next_rows)
       key_did_change in_table_order"

section \<open>Applying a change set\<close>

definition erase_range :: "range \<Rightarrow> 'a list \<Rightarrow> 'a list" where
  "erase_range r rows = take (fst r) rows @ drop (snd r) rows"

definition insert_row :: "'a list \<Rightarrow> 'a list \<Rightarrow> nat \<Rightarrow> 'a list" where
  "insert_row next_rows rows i = take i rows @ next_rows ! i # drop i rows"

definition apply_changeset :: "'a list \<Rightarrow> 'a list \<Rightarrow> change_builder \<Rightarrow> 'a list" where
  "apply_changeset prev_rows next_rows c =
     foldl (insert_row next_rows) (foldr erase_range (flat (deletions c)) prev_rows)
       (as_indexes (insertions c))"

definition verify_changeset :: "'a list \<Rightarrow> 'a list \<Rightarrow> change_builder \<Rightarrow> bool" where
  "verify_changeset prev_rows next_rows c \<longleftrightarrow> apply_changeset prev_rows next_rows c = next_rows"

section \<open>The two public functions\<close>

text \<open>
  Rows given as \<open>int64_t\<close> keys, and rows given as \<open>size_t\<close> indices, which are cast to
  \<open>int64_t\<close>. The assertions are those of a debug build.
\<close>

definition calculate_keys :: "nat \<Rightarrow> int list \<Rightarrow> int list \<Rightarrow> (int \<Rightarrow> bool) \<Rightarrow> bool \<Rightarrow>
    change_builder option" where
  "calculate_keys mx prev_rows next_rows key_did_change in_table_order = do {
     ret \<leftarrow> calculate mx prev_rows next_rows key_did_change in_table_order;
     realm_assert (verify_changes ret);
     realm_assert (verify_changeset prev_rows next_rows ret);
     Some ret
   }"

definition calculate_indices :: "nat \<Rightarrow> 64 word list \<Rightarrow> 64 word list \<Rightarrow> (int \<Rightarrow> bool) \<Rightarrow>
    change_builder option" where
  "calculate_indices mx prev_rows next_rows key_did_change = do {
     ret \<leftarrow> calculate mx (map sint prev_rows) (map sint next_rows) key_did_change False;
     realm_assert (verify_changes ret);
     realm_assert (verify_changeset prev_rows next_rows ret);
     Some ret
   }"

end
