(* ===== verification/ChangeDiff.thy ===== *)
theory ChangeDiff
  imports ChangeCalculate "HOL-Library.Multiset"
begin

text \<open>
  Correctness of \<open>CollectionChangeBuilder::calculate\<close>: the deletions and insertions it finds turn
  the old rows into the new ones, which is what \<open>verify_changeset\<close> checks in debug builds.
\<close>

section \<open>One longest match\<close>

text \<open>The row list \<open>b\<close> is an index of the keys \<open>Q\<close>: sorted by key, with their positions.\<close>

definition indexes :: "row list \<Rightarrow> int list \<Rightarrow> bool" where
  "indexes b Q \<longleftrightarrow> sorted (map rkey b) \<and>
     set b = (\<lambda>j. \<lparr>rkey = Q ! j, rtv = j\<rparr>) ` {..<length Q}"

lemma sorted_dropWhile_key:
  assumes "sorted (map rkey b)" "k \<in> rkey ` set b"
  shows "dropWhile (\<lambda>r. rkey r < k) b \<noteq> [] \<and> rkey (hd (dropWhile (\<lambda>r. rkey r < k) b)) = k"
  using assms
proof (induction b)
  case (Cons r b)
  show ?case
  proof (cases "rkey r < k")
    case False
    then have "rkey r = k" using Cons.prems by force
    then show ?thesis by simp
  qed (use Cons in auto)
qed simp

lemma b_matches_ok:
  assumes "indexes b Q" "k \<in> set Q"
  shows "\<exists>js. b_matches b begin2 end2 k = Some js \<and>
    (\<forall>j \<in> set js. begin2 \<le> j \<and> j < end2 \<and> j < length Q \<and> Q ! j = k)"
proof -
  let ?it = "dropWhile (\<lambda>r. rkey r < k) b"
  let ?js = "map rtv (takeWhile (\<lambda>r. rkey r = k) ?it)"
  have "k \<in> rkey ` set b" using assms by (auto simp: indexes_def in_set_conv_nth image_image)
  with assms(1) have r: "?it \<noteq> [] \<and> rkey (hd ?it) = k"
    by (intro sorted_dropWhile_key) (simp_all add: indexes_def)
  have "j < length Q \<and> Q ! j = k" if "j \<in> set ?js" for j
  proof -
    obtain x where x: "x \<in> set (takeWhile (\<lambda>r. rkey r = k) ?it)" "j = rtv x" using \<open>j \<in> set ?js\<close> by auto
    then have "x \<in> set b" "rkey x = k" by (auto dest: set_takeWhileD set_dropWhileD)
    then show ?thesis using assms(1) x(2) by (auto simp: indexes_def)
  qed
  then show ?thesis
    using r by (auto simp: b_matches_def dest: set_takeWhileD)
qed

text \<open>A block of equal keys that ends at \<open>i\<close> and \<open>j\<close>.\<close>

definition ends_block :: "int list \<Rightarrow> int list \<Rightarrow> nat \<Rightarrow> nat \<Rightarrow> nat \<Rightarrow> nat \<Rightarrow> nat \<Rightarrow> bool" where
  "ends_block P Q begin1 begin2 i j n \<longleftrightarrow> 1 \<le> n \<and> begin1 + n \<le> i + 1 \<and> begin2 + n \<le> j + 1 \<and>
     (\<forall>k < n. P ! (i - k) = Q ! (j - k))"

definition good_match :: "int list \<Rightarrow> int list \<Rightarrow> nat \<Rightarrow> nat \<Rightarrow> nat \<Rightarrow> nat \<Rightarrow> match \<Rightarrow> bool" where
  "good_match P Q begin1 end1 begin2 end2 m \<longleftrightarrow>
     begin1 \<le> mi m \<and> mi m + msize m \<le> end1 \<and> begin2 \<le> mj m \<and> mj m + msize m \<le> end2 \<and>
     (\<forall>k < msize m. P ! (mi m + k) = Q ! (mj m + k))"

lemma ends_block_length_at:
  assumes prev: "prev = [] \<or> begin1 < i \<and> (\<forall>p \<in> set prev. ends_block P Q begin1 begin2 (i - 1) (fst p) (snd p))"
    and "begin1 \<le> i" "begin2 \<le> j" "P ! i = Q ! j"
  shows "ends_block P Q begin1 begin2 i j (length_at prev j)"
  using prev
proof (induction prev)
  case Nil
  then show ?case using assms by (simp add: ends_block_def)
next
  case (Cons p prev)
  show ?case
  proof (cases "fst p + 1 = j")
    case True
    have i: "begin1 < i" and e: "ends_block P Q begin1 begin2 (i - 1) (fst p) (snd p)" using Cons.prems by auto
    have "P ! (i - k) = Q ! (j - k)" if "k < snd p + 1" for k
    proof (cases k)
      case (Suc l)
      then have "P ! (i - 1 - l) = Q ! (fst p - l)" using e that by (simp add: ends_block_def)
      moreover have "i - k = i - 1 - l" "j - k = fst p - l" using Suc True by auto
      ultimately show ?thesis by simp
    qed (use assms(4) in simp)
    then show ?thesis using e i True by (auto simp: ends_block_def)
  next
    case False
    then show ?thesis using Cons by auto
  qed
qed

lemma good_match_of_block:
  assumes "ends_block P Q begin1 begin2 i j n" "i < end1" "j < end2"
  shows "good_match P Q begin1 end1 begin2 end2
    \<lparr>mi = size_diff (i + 1) n, mj = size_diff (j + 1) n, msize = n, mmodified = x\<rparr>"
proof -
  have n: "1 \<le> n" "begin1 + n \<le> i + 1" "begin2 + n \<le> j + 1" using assms(1) by (auto simp: ends_block_def)
  then have d: "size_diff (i + 1) n = i + 1 - n" "size_diff (j + 1) n = j + 1 - n" by (simp_all add: size_diff_def)
  have "P ! (i + 1 - n + k) = Q ! (j + 1 - n + k)" if "k < n" for k
  proof -
    have "\<forall>k < n. P ! (i - k) = Q ! (j - k)" using assms(1) by (simp add: ends_block_def)
    moreover have "n - 1 - k < n" using that by simp
    ultimately have eq: "P ! (i - (n - 1 - k)) = Q ! (j - (n - 1 - k))" by blast
    have ij: "i - (n - 1 - k) = i + 1 - n + k" "j - (n - 1 - k) = j + 1 - n + k" using n that by auto
    show ?thesis using eq unfolding ij .
  qed
  then show ?thesis using n assms(2,3) unfolding good_match_def d by auto
qed

lemma better_match_ok:
  assumes "is_ok mx md" "ends_block P Q begin1 begin2 i j n" "i < end1" "j < end2"
    "good_match P Q begin1 end1 begin2 end2 best"
  shows "\<exists>best'. better_match md i j n best = Some best' \<and> good_match P Q begin1 end1 begin2 end2 best'"
proof -
  note g = good_match_of_block [OF assms(2-4)]
  have t: "\<exists>x. count_in md s e = Some x" for s e by (rule count_in_total [OF assms(1)])
  consider "msize best < n" | "n = msize best" | "n < msize best" by linarith
  then show ?thesis
  proof cases
    case 2
    obtain m where m: "(if mmodified best = npos then count_in md (size_diff (mj best + 1) n) (mj best + 1)
        else Some (mmodified best)) = Some m" using t by (cases "mmodified best = npos") auto
    obtain x where x: "count_in md (size_diff (j + 1) n) (j + 1) = Some x" using t by blast
    have "good_match P Q begin1 end1 begin2 end2 (best\<lparr>mmodified := m\<rparr>)" using assms(5) by (simp add: good_match_def)
    then show ?thesis using 2 m x g [of x]
      by (cases "mmodified best = npos"; cases "x < m") (simp_all add: better_match_def)
  qed (use g assms(5) in \<open>auto simp: better_match_def\<close>)
qed

lemma match_js_ok:
  assumes "is_ok mx md" "i < end1" "begin1 \<le> i"
    and prev: "prev = [] \<or> begin1 < i \<and> (\<forall>p \<in> set prev. ends_block P Q begin1 begin2 (i - 1) (fst p) (snd p))"
    and "\<forall>j \<in> set js. begin2 \<le> j \<and> j < end2 \<and> Q ! j = P ! i"
    "\<forall>p \<in> set now. ends_block P Q begin1 begin2 i (fst p) (snd p)"
    "good_match P Q begin1 end1 begin2 end2 best"
  shows "\<exists>now' best'. match_js md begin1 end1 begin2 end2 i prev js now best = Some (now', best') \<and>
    (\<forall>p \<in> set now'. ends_block P Q begin1 begin2 i (fst p) (snd p)) \<and>
    good_match P Q begin1 end1 begin2 end2 best'"
  using assms(5-7)
proof (induction js arbitrary: now best)
  case (Cons j js)
  let ?n = "length_at prev j"
  have e: "ends_block P Q begin1 begin2 i j ?n"
    using ends_block_length_at [OF prev] assms(3) Cons.prems(1) by simp
  obtain best' where b: "better_match md i j ?n best = Some best'" "good_match P Q begin1 end1 begin2 end2 best'"
    using better_match_ok [OF assms(1) e assms(2) _ Cons.prems(3)] Cons.prems(1) by auto
  have now: "\<forall>p \<in> set (now @ [(j, ?n)]). ends_block P Q begin1 begin2 i (fst p) (snd p)"
    using Cons.prems(2) e by auto
  show ?case
    using Cons.IH [OF _ now b(2)] Cons.prems(1) b by (simp add: good_match_def)
qed simp

lemma match_rows_ok:
  assumes "is_ok mx md" "indexes b Q" "\<forall>i < end1. begin1 \<le> i \<longrightarrow> rkey (a ! i) \<in> set Q" "length P = length a"
    and P: "\<forall>i < length a. P ! i = rkey (a ! i)" "end1 \<le> length a" "begin1 \<le> i" "i \<le> end1"
    and prev: "prev = [] \<or> begin1 < i \<and> (\<forall>p \<in> set prev. ends_block P Q begin1 begin2 (i - 1) (fst p) (snd p))"
    and best: "good_match P Q begin1 end1 begin2 end2 best"
  shows "\<exists>best'. match_rows md a b begin1 end1 begin2 end2 [i..<end1] prev best = Some best' \<and>
    good_match P Q begin1 end1 begin2 end2 best'"
  using P(3,4) prev best
proof (induction "end1 - i" arbitrary: i prev best)
  case (Suc n)
  then have i: "i < end1" "[i..<end1] = i # [Suc i..<end1]" by (simp_all add: upt_conv_Cons)
  have "rkey (a ! i) \<in> set Q" using assms(3) i(1) Suc.prems(1) by simp
  then obtain js where js: "b_matches b begin2 end2 (rkey (a ! i)) = Some js"
      "\<forall>j \<in> set js. begin2 \<le> j \<and> j < end2 \<and> j < length Q \<and> Q ! j = rkey (a ! i)"
    using b_matches_ok [OF assms(2)] by blast
  have Pi: "P ! i = rkey (a ! i)" using P(1,2) i(1) by simp
  obtain now best' where m: "match_js md begin1 end1 begin2 end2 i prev js [] best = Some (now, best')"
      "\<forall>p \<in> set now. ends_block P Q begin1 begin2 i (fst p) (snd p)" "good_match P Q begin1 end1 begin2 end2 best'"
    using match_js_ok [OF assms(1) i(1) Suc.prems(1,3), of js end2 "[]" best] js(2) Pi Suc.prems(4) by auto
  have prv: "now = [] \<or> begin1 < Suc i \<and> (\<forall>p \<in> set now. ends_block P Q begin1 begin2 (Suc i - 1) (fst p) (snd p))"
    using m(2) Suc.prems(1) by simp
  show ?case
    using Suc.hyps(1) [of "Suc i" now best'] Suc.hyps(2) Suc.prems(1) i js(1) m prv by simp
qed simp

lemma find_longest_match_ok:
  assumes "is_ok mx md" "indexes b Q" "\<forall>i < end1. begin1 \<le> i \<longrightarrow> rkey (a ! i) \<in> set Q"
    "end1 \<le> length a" "begin1 \<le> end1" "begin2 \<le> end2"
  shows "\<exists>m. find_longest_match md a b begin1 end1 begin2 end2 = Some m \<and>
    good_match (map rkey a) Q begin1 end1 begin2 end2 m"
  unfolding find_longest_match_def
  by (rule match_rows_ok [OF assms(1-3)]) (use assms in \<open>auto simp: good_match_def\<close>)

section \<open>All matches\<close>

fun chain :: "int list \<Rightarrow> int list \<Rightarrow> nat \<Rightarrow> nat \<Rightarrow> nat \<Rightarrow> nat \<Rightarrow> match list \<Rightarrow> bool" where
  "chain P Q i j end1 end2 [] \<longleftrightarrow> i \<le> end1 \<and> j \<le> end2"
| "chain P Q i j end1 end2 (m # ms) \<longleftrightarrow> i \<le> mi m \<and> j \<le> mj m \<and>
     (\<forall>k < msize m. P ! (mi m + k) = Q ! (mj m + k)) \<and>
     chain P Q (mi m + msize m) (mj m + msize m) end1 end2 ms"

lemma chain_append:
  "chain P Q i j x y ms \<Longrightarrow> chain P Q x y end1 end2 (m # ns) \<Longrightarrow> chain P Q i j end1 end2 (ms @ m # ns)"
  by (induction ms arbitrary: i j) auto

lemma chain_mono: "chain P Q i j x y ms \<Longrightarrow> x \<le> x' \<Longrightarrow> y \<le> y' \<Longrightarrow> chain P Q i j x' y' ms"
  by (induction ms arbitrary: i j) auto

lemma find_longest_matches_ok:
  assumes "is_ok mx md" "indexes b Q" "\<forall>i < end1. begin1 \<le> i \<longrightarrow> rkey (a ! i) \<in> set Q"
    "end1 \<le> length a" "begin1 \<le> end1" "begin2 \<le> end2"
  shows "\<exists>ms. find_longest_matches md a b begin1 end1 begin2 end2 acc = Some (acc @ ms) \<and>
    chain (map rkey a) Q begin1 begin2 end1 end2 ms"
  using assms(3-)
proof (induction "end1 - begin1" arbitrary: begin1 end1 begin2 end2 acc rule: less_induct)
  case less
  let ?P = "map rkey a"
  obtain m where m: "find_longest_match md a b begin1 end1 begin2 end2 = Some m"
    and g: "good_match ?P Q begin1 end1 begin2 end2 m"
    using find_longest_match_ok [OF assms(1,2) less.prems] by blast
  show ?case
  proof (cases "msize m = 0")
    case True
    then have "find_longest_matches md a b begin1 end1 begin2 end2 acc = Some (acc @ [])"
      using m by (subst find_longest_matches.simps) simp
    then show ?thesis using less.prems(3,4) by (intro exI [of _ "[]"]) simp
  next
    case False
    have lo: "begin1 \<le> mi m" "mi m + msize m \<le> end1" "begin2 \<le> mj m" "mj m + msize m \<le> end2"
      and blk: "\<forall>k < msize m. ?P ! (mi m + k) = Q ! (mj m + k)" using g by (auto simp: good_match_def)
    obtain ms1 where 1: "(if begin1 < mi m \<and> begin2 < mj m
        then find_longest_matches md a b begin1 (mi m) begin2 (mj m) acc else Some acc) = Some (acc @ ms1)"
      "chain ?P Q begin1 begin2 (mi m) (mj m) ms1"
    proof (cases "begin1 < mi m \<and> begin2 < mj m")
      case True
      have "mi m - begin1 < end1 - begin1" "\<forall>i < mi m. begin1 \<le> i \<longrightarrow> rkey (a ! i) \<in> set Q"
        "mi m \<le> length a" "begin1 \<le> mi m" "begin2 \<le> mj m"
        using False lo less.prems True by auto
      from less.hyps [OF this] True show ?thesis using that by auto
    qed (use lo that [of "[]"] in auto)
    obtain ms2 where 2: "(if mi m + msize m < end2 \<and> mj m + msize m < end2
        then find_longest_matches md a b (mi m + msize m) end1 (mj m + msize m) end2 (acc @ ms1 @ [m])
        else Some (acc @ ms1 @ [m])) = Some (acc @ ms1 @ m # ms2)"
      "chain ?P Q (mi m + msize m) (mj m + msize m) end1 end2 ms2"
    proof (cases "mi m + msize m < end2 \<and> mj m + msize m < end2")
      case True
      have "end1 - (mi m + msize m) < end1 - begin1"
        "\<forall>i < end1. mi m + msize m \<le> i \<longrightarrow> rkey (a ! i) \<in> set Q"
        "end1 \<le> length a" "mi m + msize m \<le> end1" "mj m + msize m \<le> end2"
        using False lo less.prems by auto
      from less.hyps [OF this, of "acc @ ms1 @ [m]"] True show ?thesis using that by auto
    qed (use lo that [of "[]"] in auto)
    have "find_longest_matches md a b begin1 end1 begin2 end2 acc = Some (acc @ (ms1 @ m # ms2))"
      using m False 1(1) 2(1) by (subst find_longest_matches.simps)
        (cases "mi m + msize m < end2 \<and> mj m + msize m < end2"; auto)
    moreover have "chain ?P Q begin1 begin2 end1 end2 (ms1 @ m # ms2)"
      using chain_append [OF 1(2)] 2(2) blk by simp
    ultimately show ?thesis by blast
  qed
qed

section \<open>What is left out of the matches\<close>

fun gaps :: "(match \<Rightarrow> nat) \<Rightarrow> nat \<Rightarrow> match list \<Rightarrow> nat list" where
  "gaps f i [] = []"
| "gaps f i (m # ms) = [i..<f m] @ gaps f (f m + msize m) ms"

lemma add_list_ok:
  "is_ok mx s \<Longrightarrow> \<exists>s'. add_list mx s is = Some s' \<and> is_ok mx s' \<and> elems s' = elems s \<union> set is"
proof (induction "is" arbitrary: s)
  case (Cons i "is")
  obtain s' where "add mx s i = Some s'" "is_ok mx s'" "elems s' = insert i (elems s)"
    using add_ok [OF Cons.prems] by blast
  with Cons.IH [of s'] show ?case by auto
qed auto

lemma apply_matches_ok:
  assumes "chain P Q i j end1 end2 ms" "is_ok mx (deletions c)" "is_ok mx (insertions c)"
  shows "\<exists>d n. apply_matches mx a rows i j ms c = Some (c\<lparr>deletions := d, insertions := n\<rparr>) \<and>
    is_ok mx d \<and> is_ok mx n \<and>
    elems d = elems (deletions c) \<union> (\<lambda>i. rtv (a ! i)) ` set (gaps mi i ms) \<and>
    elems n = elems (insertions c) \<union> (\<lambda>j. tv_index (rows ! j)) ` set (gaps mj j ms)"
  using assms
proof (induction ms arbitrary: i j c)
  case Nil
  have "c = c\<lparr>deletions := deletions c, insertions := insertions c\<rparr>" by simp
  then show ?case using Nil by (intro exI [of _ "deletions c"] exI [of _ "insertions c"]) simp
next
  case (Cons m ms)
  obtain d where d: "add_list mx (deletions c) (map (\<lambda>i. rtv (a ! i)) [i..<mi m]) = Some d" "is_ok mx d"
    "elems d = elems (deletions c) \<union> (\<lambda>i. rtv (a ! i)) ` {i..<mi m}"
    using add_list_ok [OF Cons.prems(2), of "map (\<lambda>i. rtv (a ! i)) [i..<mi m]"] by auto
  obtain n where n: "add_list mx (insertions c) (map (\<lambda>j. tv_index (rows ! j)) [j..<mj m]) = Some n" "is_ok mx n"
    "elems n = elems (insertions c) \<union> (\<lambda>j. tv_index (rows ! j)) ` {j..<mj m}"
    using add_list_ok [OF Cons.prems(3), of "map (\<lambda>j. tv_index (rows ! j)) [j..<mj m]"] by auto
  have mx: "max i (mi m) = mi m" "max j (mj m) = mj m" using Cons.prems(1) by auto
  have ch: "chain P Q (mi m + msize m) (mj m + msize m) end1 end2 ms" using Cons.prems(1) by simp
  obtain d' n' where r: "apply_matches mx a rows (mi m + msize m) (mj m + msize m) ms (c\<lparr>deletions := d, insertions := n\<rparr>) =
      Some (c\<lparr>deletions := d', insertions := n'\<rparr>)" "is_ok mx d'" "is_ok mx n'"
    "elems d' = elems d \<union> (\<lambda>i. rtv (a ! i)) ` set (gaps mi (mi m + msize m) ms)"
    "elems n' = elems n \<union> (\<lambda>j. tv_index (rows ! j)) ` set (gaps mj (mj m + msize m) ms)"
    using Cons.IH [OF ch, of "c\<lparr>deletions := d, insertions := n\<rparr>"] d(2) n(2) by auto
  have "apply_matches mx a rows i j (m # ms) c = Some (c\<lparr>deletions := d', insertions := n'\<rparr>)"
    using d(1) n(1) r(1) by (simp add: mx)
  with r d(3) n(3) show ?case
    by (intro exI [of _ d'] exI [of _ n']) (simp add: image_Un Un_assoc)
qed

text \<open>The two lists agree on what the matches cover.\<close>

lemma gaps_ge: "chain P Q i j end1 end2 ms \<Longrightarrow> x \<in> set (gaps mi i ms) \<Longrightarrow> i \<le> x"
  "chain P Q i j end1 end2 ms \<Longrightarrow> x \<in> set (gaps mj j ms) \<Longrightarrow> j \<le> x"
  by (induction ms arbitrary: i j) force+

lemma upt_split: "i \<le> j \<Longrightarrow> j \<le> k \<Longrightarrow> [i..<k] = [i..<j] @ [j..<k]"
  using upt_add_eq_append [of i j "k - j"] by simp

lemma chain_le: "chain P Q i j end1 end2 ms \<Longrightarrow> i \<le> end1 \<and> j \<le> end2"
  by (induction ms arbitrary: i j) force+

lemma gaps_less: "chain P Q i j end1 end2 ms \<Longrightarrow> x \<in> set (gaps mi i ms) \<Longrightarrow> x < end1"
  "chain P Q i j end1 end2 ms \<Longrightarrow> x \<in> set (gaps mj j ms) \<Longrightarrow> x < end2"
  by (induction ms arbitrary: i j) (fastforce dest: chain_le)+

lemma filter_gap:
  assumes "i \<le> s" "s + n \<le> e" "\<forall>x \<in> set xs. s + n \<le> x"
  shows "filter (\<lambda>x. x \<notin> set ([i..<s] @ xs)) [i..<e] =
    [s..<s + n] @ filter (\<lambda>x. x \<notin> set xs) [s + n..<e]"
proof -
  have "[i..<e] = [i..<s] @ [s..<s + n] @ [s + n..<e]"
    using upt_split [of i s e] upt_split [of s "s + n" e] assms(1,2) by simp
  moreover have "filter (\<lambda>x. x \<notin> set ([i..<s] @ xs)) [i..<s] = []" by simp
  moreover have "filter (\<lambda>x. x \<notin> set ([i..<s] @ xs)) [s..<s + n] = [s..<s + n]"
    using assms(3) by (intro filter_True) auto
  moreover have "filter (\<lambda>x. x \<notin> set ([i..<s] @ xs)) [s + n..<e] = filter (\<lambda>x. x \<notin> set xs) [s + n..<e]"
    by (intro filter_cong) auto
  ultimately show ?thesis by simp
qed

lemma chain_agree:
  assumes "chain P Q i j end1 end2 (ms @ [\<lparr>mi = end1, mj = end2, msize = 0, mmodified = z\<rparr>])"
  shows "map ((!) P) (filter (\<lambda>x. x \<notin> set (gaps mi i (ms @ [\<lparr>mi = end1, mj = end2, msize = 0, mmodified = z\<rparr>]))) [i..<end1]) =
    map ((!) Q) (filter (\<lambda>x. x \<notin> set (gaps mj j (ms @ [\<lparr>mi = end1, mj = end2, msize = 0, mmodified = z\<rparr>]))) [j..<end2])"
  using assms
proof (induction ms arbitrary: i j)
  case Nil
  then show ?case by simp
next
  case (Cons m ms)
  let ?e = "[\<lparr>mi = end1, mj = end2, msize = 0, mmodified = z\<rparr>]"
  have c: "chain P Q (mi m + msize m) (mj m + msize m) end1 end2 (ms @ ?e)"
    and b: "\<forall>k < msize m. P ! (mi m + k) = Q ! (mj m + k)" and i: "i \<le> mi m" "j \<le> mj m" using Cons.prems by auto
  note c' = chain_le [OF c]
  have gi: "\<forall>x \<in> set (gaps mi (mi m + msize m) (ms @ ?e)). mi m + msize m \<le> x"
    and gj: "\<forall>x \<in> set (gaps mj (mj m + msize m) (ms @ ?e)). mj m + msize m \<le> x"
    using gaps_ge [OF c] by blast+
  have "map ((!) P) [mi m..<mi m + msize m] = map ((!) Q) [mj m..<mj m + msize m]"
    using b by (intro nth_equalityI) auto
  then show ?case
    using Cons.IH [OF c] filter_gap [OF i(1) _ gi] filter_gap [OF i(2) _ gj] c' by simp
qed

section \<open>Rows that changed their order\<close>

definition old_order :: "row_info list \<Rightarrow> row list" where
  "old_order rows = sort_key (\<lambda>r. (rtv r, rkey r)) (map (\<lambda>r. \<lparr>rkey = key r, rtv = prev_tv_index r\<rparr>) rows)"

lemma old_order_simps [simp]:
  "length (old_order rows) = length rows" "rkey ` set (old_order rows) = key ` set rows"
  by (simp_all add: old_order_def image_image)

lemma indexes_sort: "indexes (sort_key (\<lambda>r. (rkey r, rtv r)) (map (\<lambda>i. \<lparr>rkey = Q ! i, rtv = i\<rparr>) [0..<length Q])) Q"
proof -
  have "sorted (map rkey (sort_key (\<lambda>r. (rkey r, rtv r)) b))" for b
    using sorted_sort_key [of "\<lambda>r. (rkey r, rtv r)" b] unfolding sorted_wrt_map
    by (rule sorted_wrt_mono_rel [rotated]) (auto simp: less_eq_prod_def)
  then show ?thesis by (auto simp: indexes_def)
qed

lemma first_difference_None:
  assumes "length a = length rows" "first_difference a rows = None"
  shows "map rkey a = map key rows"
proof -
  let ?p = "\<lambda>p. rkey (fst p) = key (snd p)"
  have "length (zip a rows) \<le> length (takeWhile ?p (zip a rows))"
    using assms by (simp add: first_difference_def Let_def split: if_splits)
  then have "take (length (takeWhile ?p (zip a rows))) (zip a rows) = zip a rows" by (rule take_all)
  then have e: "takeWhile ?p (zip a rows) = zip a rows" by (simp only: take_length_takeWhile)
  have "?p p" if "p \<in> set (zip a rows)" for p
    using that set_takeWhileD [of p ?p "zip a rows"] unfolding e by blast
  from this [OF nth_mem] have "rkey (a ! i) = key (rows ! i)" if "i < length a" for i
    using that assms(1) by simp
  then show ?thesis using assms(1) by (intro nth_equalityI) simp_all
qed

lemma first_difference_Some:
  assumes "length a = length rows" "first_difference a rows = Some k"
  shows "k < length a" "\<forall>i < k. rkey (a ! i) = key (rows ! i)"
proof -
  let ?p = "\<lambda>p. rkey (fst p) = key (snd p)"
  have k: "k = length (takeWhile ?p (zip a rows))" and l: "k < length a"
    using assms by (auto simp: first_difference_def Let_def split: if_splits)
  show "k < length a" by (rule l)
  show "\<forall>i < k. rkey (a ! i) = key (rows ! i)"
  proof (intro allI impI)
    fix i assume i: "i < k"
    then have "takeWhile ?p (zip a rows) ! i = zip a rows ! i" unfolding k by (rule takeWhile_nth)
    moreover have "?p (takeWhile ?p (zip a rows) ! i)" using i nth_mem [of i "takeWhile ?p (zip a rows)"]
      unfolding k by (blast dest: set_takeWhileD)
    ultimately show "rkey (a ! i) = key (rows ! i)" using i l assms(1) by simp
  qed
qed

lemma filter_from:
  assumes "k \<le> n" "\<forall>x \<in> U. k \<le> x"
  shows "filter (\<lambda>x. x \<notin> U) [0..<n] = [0..<k] @ filter (\<lambda>x. x \<notin> U) [k..<n]"
proof -
  have "filter (\<lambda>x. x \<notin> U) [0..<k] = [0..<k]" using assms(2) by (intro filter_True) auto
  then show ?thesis using upt_split [of 0 k n] assms(1) by simp
qed

lemma calculate_moves_ok:
  assumes ok: "is_ok mx (deletions c)" "is_ok mx (insertions c)" "is_ok mx (modifications c)"
  shows "\<exists>d n U V. calculate_moves_sorted mx rows c = Some (c\<lparr>deletions := d, insertions := n\<rparr>) \<and>
    is_ok mx d \<and> is_ok mx n \<and>
    elems d = elems (deletions c) \<union> (\<lambda>x. rtv (old_order rows ! x)) ` U \<and>
    elems n = elems (insertions c) \<union> (\<lambda>y. tv_index (rows ! y)) ` V \<and>
    U \<subseteq> {..<length rows} \<and> V \<subseteq> {..<length rows} \<and>
    map (\<lambda>x. rkey (old_order rows ! x)) (filter (\<lambda>x. x \<notin> U) [0..<length rows]) =
    map (\<lambda>y. key (rows ! y)) (filter (\<lambda>y. y \<notin> V) [0..<length rows])"
proof (cases "first_difference (old_order rows) rows")
  case None
  then have run: "calculate_moves_sorted mx rows c =
      Some (c\<lparr>deletions := deletions c, insertions := insertions c\<rparr>)"
    by (simp add: calculate_moves_sorted_def old_order_def [symmetric])
  have eq: "map rkey (old_order rows) = map key rows" using first_difference_None [OF _ None] by simp
  have "rkey (old_order rows ! x) = key (rows ! x)" if "x < length rows" for x
    using arg_cong [OF eq, of "\<lambda>xs. xs ! x"] that by simp
  then have "map (\<lambda>x. rkey (old_order rows ! x)) [0..<length rows] = map (\<lambda>y. key (rows ! y)) [0..<length rows]"
    by (intro map_cong) auto
  then show ?thesis
    using run ok by (intro exI [of _ "deletions c"] exI [of _ "insertions c"] exI [of _ "{}"]) simp
next
  case (Some start)
  let ?a = "old_order rows" and ?Q = "map key rows"
  let ?b = "sort_key (\<lambda>r. (rkey r, rtv r)) (map (\<lambda>i. \<lparr>rkey = key (rows ! i), rtv = i\<rparr>) [0..<length rows])"
  have len: "length ?a = length rows" by simp
  note st = first_difference_Some [OF len Some]
  have "map (\<lambda>i. \<lparr>rkey = ?Q ! i, rtv = i\<rparr>) [0..<length ?Q] =
      map (\<lambda>i. \<lparr>rkey = key (rows ! i), rtv = i\<rparr>) [0..<length rows]" by (intro map_cong) auto
  then have b: "indexes ?b ?Q" using indexes_sort [of ?Q] by (simp only:)
  have keys: "\<forall>i < length ?a. start \<le> i \<longrightarrow> rkey (?a ! i) \<in> set ?Q"
  proof (intro allI impI)
    fix i assume "i < length ?a"
    then have "rkey (?a ! i) \<in> rkey ` set ?a" by (intro imageI nth_mem)
    then show "rkey (?a ! i) \<in> set ?Q" by (simp only: old_order_simps set_map)
  qed
  obtain ms where ms: "find_longest_matches (modifications c) ?a ?b start (length ?a) start (length ?b) [] = Some ms"
    and ch: "chain (map rkey ?a) ?Q start start (length ?a) (length ?b) ms"
    using find_longest_matches_ok [OF ok(3) b keys, of start "length ?b" "[]"] st(1) by auto
  let ?fin = "\<lparr>mi = length ?a, mj = length ?b, msize = 0, mmodified = 0\<rparr>"
  have ch': "chain (map rkey ?a) ?Q start start (length ?a) (length ?b) (ms @ [?fin])"
    by (rule chain_append [OF ch]) simp
  let ?U = "set (gaps mi start (ms @ [?fin]))" and ?V = "set (gaps mj start (ms @ [?fin]))"
  obtain d n where r: "apply_matches mx ?a rows start start (ms @ [?fin]) c = Some (c\<lparr>deletions := d, insertions := n\<rparr>)"
    "is_ok mx d" "is_ok mx n" "elems d = elems (deletions c) \<union> (\<lambda>x. rtv (?a ! x)) ` ?U"
    "elems n = elems (insertions c) \<union> (\<lambda>y. tv_index (rows ! y)) ` ?V"
    using apply_matches_ok [OF ch' ok(1,2)] by blast
  have run: "calculate_moves_sorted mx rows c = Some (c\<lparr>deletions := d, insertions := n\<rparr>)"
    using Some ms r(1) by (simp add: calculate_moves_sorted_def old_order_def [symmetric] longest_matches_def)
  have ge: "\<forall>x \<in> ?U. start \<le> x" "\<forall>x \<in> ?V. start \<le> x" using gaps_ge [OF ch'] by blast+
  have lt: "?U \<subseteq> {..<length rows}" "?V \<subseteq> {..<length rows}" using gaps_less [OF ch'] by auto
  have "map ((!) (map rkey ?a)) (filter (\<lambda>x. x \<notin> ?U) [0..<length rows]) =
      map ((!) ?Q) (filter (\<lambda>y. y \<notin> ?V) [0..<length rows])"
  proof -
    have "map ((!) (map rkey ?a)) [0..<start] = map ((!) ?Q) [0..<start]"
      using st by (intro map_cong) auto
    moreover have "start \<le> length rows" using st(1) by simp
    ultimately show ?thesis
      using chain_agree [OF ch'] filter_from [OF _ ge(1)] filter_from [OF _ ge(2)] by simp
  qed
  moreover have "map ((!) (map rkey ?a)) (filter (\<lambda>x. x \<notin> ?U) [0..<length rows]) =
      map (\<lambda>x. rkey (?a ! x)) (filter (\<lambda>x. x \<notin> ?U) [0..<length rows])" by (intro map_cong) auto
  moreover have "map ((!) ?Q) (filter (\<lambda>y. y \<notin> ?V) [0..<length rows]) =
      map (\<lambda>y. key (rows ! y)) (filter (\<lambda>y. y \<notin> ?V) [0..<length rows])" by (intro map_cong) auto
  ultimately have "map (\<lambda>x. rkey (?a ! x)) (filter (\<lambda>x. x \<notin> ?U) [0..<length rows]) =
      map (\<lambda>y. key (rows ! y)) (filter (\<lambda>y. y \<notin> ?V) [0..<length rows])" by simp
  with run r lt show ?thesis by blast
qed

section \<open>Applying deletions and insertions\<close>

lemma nths_filter: "nths xs A = map ((!) xs) (filter (\<lambda>i. i \<in> A) [0..<length xs])"
proof (induction xs rule: rev_induct)
  case (snoc x xs)
  have "map ((!) (xs @ [x])) (filter (\<lambda>i. i \<in> A) [0..<length xs]) =
      map ((!) xs) (filter (\<lambda>i. i \<in> A) [0..<length xs])"
    by (intro map_cong) (auto simp: nth_append)
  then show ?case using snoc by (simp add: nths_append)
qed simp

lemma nths_all_below: "\<forall>i < length xs. i \<in> A \<Longrightarrow> nths xs A = xs"
  by (rule nths_all) auto

lemma nths_none: "\<forall>i < length xs. i \<notin> A \<Longrightarrow> nths xs A = []"
  by (simp add: nths_filter)

text \<open>A list without the range \<open>[a, b)\<close> and without \<open>S\<close>, which lies above it.\<close>

lemma nths_above:
  assumes "b \<le> length xs" "\<forall>x \<in> S. b \<le> x"
  shows "nths xs (- S) = take b xs @ nths (drop b xs) {i. i + b \<notin> S}"
proof -
  have "nths (take b xs @ drop b xs) (- S) = nths (take b xs) (- S) @ nths (drop b xs) {i. i + b \<in> - S}"
    using assms(1) by (simp only: nths_append length_take min_absorb2)
  moreover have "nths (take b xs) (- S) = take b xs" using assms by (intro nths_all_below) auto
  ultimately show ?thesis by simp
qed

lemma nths_erase_range:
  assumes "a \<le> b" "b \<le> length xs" "\<forall>x \<in> S. b \<le> x"
  shows "take a (nths xs (- S)) @ drop b (nths xs (- S)) = nths xs (- ({a..<b} \<union> S))"
proof -
  let ?ys = "nths (drop b xs) {i. i + b \<notin> S}"
  have l: "take a (nths xs (- S)) @ drop b (nths xs (- S)) = take a xs @ ?ys"
    unfolding nths_above [OF assms(2,3)] using assms(1,2) by (simp add: min_absorb1)
  have "nths (take b xs @ drop b xs) (- ({a..<b} \<union> S)) =
      nths (take b xs) (- ({a..<b} \<union> S)) @ nths (drop b xs) {i. i + b \<in> - ({a..<b} \<union> S)}"
    using assms(2) by (simp only: nths_append length_take min_absorb2)
  moreover have "{i. i + b \<in> - ({a..<b} \<union> S)} = {i. i + b \<notin> S}" by auto
  moreover have "nths (take b xs) (- ({a..<b} \<union> S)) = take a xs"
  proof -
    have "nths (take a (take b xs) @ drop a (take b xs)) (- ({a..<b} \<union> S)) =
        nths (take a (take b xs)) (- ({a..<b} \<union> S)) @ nths (drop a (take b xs)) {i. i + a \<in> - ({a..<b} \<union> S)}"
      using assms(1,2) by (simp only: nths_append length_take min_absorb2 min_absorb1 le_trans)
    moreover have "nths (take a (take b xs)) (- ({a..<b} \<union> S)) = take a xs"
      using assms by (subst nths_all_below) (auto simp: min_absorb1)
    moreover have "nths (drop a (take b xs)) {i. i + a \<in> - ({a..<b} \<union> S)} = []"
      using assms by (intro nths_none) auto
    ultimately show ?thesis by (simp only: append_take_drop_id append_Nil2)
  qed
  ultimately show ?thesis using l by simp
qed

lemma foldr_erase_range:
  assumes "ranges_ok rs" "\<forall>r \<in> set rs. snd r \<le> length xs"
  shows "foldr erase_range rs xs = nths xs (- ranges_set rs)"
  using assms
proof (induction rs)
  case (Cons r rs)
  have "\<forall>x \<in> ranges_set rs. snd r \<le> x" using Cons.prems(1) by (fastforce simp: mem_ranges_set)
  then have "erase_range r (nths xs (- ranges_set rs)) = nths xs (- ({fst r..<snd r} \<union> ranges_set rs))"
    unfolding erase_range_def using Cons.prems by (intro nths_erase_range) auto
  then show ?case using Cons by (simp add: range_set_def)
qed (simp add: nths_all_below)

lemma foldl_insert_row:
  assumes "sorted_wrt (<) is" "\<forall>i \<in> set is. i < length xs"
  shows "foldl (insert_row xs) (nths xs (- set is)) is = xs"
  using assms
proof (induction "is")
  case (Cons i "is")
  have i: "i < length xs" using Cons.prems by simp
  have ge: "\<forall>x \<in> set is. Suc i \<le> x" using Cons.prems(1) by (auto simp: Suc_le_eq)
  let ?ys = "nths (drop (Suc i) xs) {k. k + Suc i \<notin> set is}"
  have all: "nths xs (- set is) = take (Suc i) xs @ ?ys" using i ge by (intro nths_above) auto
  have "nths xs (- set (i # is)) = take i (nths xs (- set is)) @ drop (Suc i) (nths xs (- set is))"
    using nths_erase_range [of i "Suc i" xs "set is"] i ge by simp
  then have L: "nths xs (- set (i # is)) = take i xs @ ?ys" using i unfolding all by (simp add: min_absorb1)
  have "insert_row xs (nths xs (- set (i # is))) i = take i xs @ xs ! i # ?ys"
    unfolding insert_row_def L using i by (simp add: min_absorb2 less_imp_le)
  also have "\<dots> = nths xs (- set is)" unfolding all using i by (simp add: take_Suc_nth)
  finally show ?case using Cons by simp
qed (simp add: nths_all_below)

lemma verify_changeset_iff:
  assumes "is_ok mx (deletions c)" "is_ok mx (insertions c)"
    "elems (deletions c) \<subseteq> {..<length prev}" "elems (insertions c) \<subseteq> {..<length nxt}"
    "nths prev (- elems (deletions c)) = nths nxt (- elems (insertions c))"
  shows "verify_changeset prev nxt c"
proof -
  have "snd r \<le> length prev" if "r \<in> set (flat (deletions c))" for r
  proof -
    have "fst r < snd r" using that assms(1) ranges_okD by (auto simp: is_ok_def)
    then have "snd r - 1 \<in> elems (deletions c)" using that by (auto simp: elems_def mem_ranges_set intro!: bexI [of _ r])
    then show ?thesis using assms(3) by auto
  qed
  then have "foldr erase_range (flat (deletions c)) prev = nths nxt (- elems (insertions c))"
    using foldr_erase_range [of "flat (deletions c)" prev] assms(1,5) by (simp add: is_ok_def elems_def)
  moreover have "foldl (insert_row nxt) (nths nxt (- set (as_indexes (insertions c)))) (as_indexes (insertions c)) = nxt"
    using foldl_insert_row [OF as_indexes_sorted [OF assms(2)]] assms(4) by (auto simp: set_as_indexes)
  ultimately show ?thesis by (simp add: verify_changeset_def apply_changeset_def set_as_indexes)
qed

section \<open>Aligning the old rows with the new ones\<close>

text \<open>A new row after the loop: it has the position of the old row with its key.\<close>

definition with_prev :: "row_info list \<Rightarrow> row_info \<Rightarrow> row_info" where
  "with_prev old r = (case find (\<lambda>q. key q = key r) old of
     None \<Rightarrow> r | Some q \<Rightarrow> r\<lparr>prev_tv_index := tv_index q\<rparr>)"

lemma with_prev_other: "key q \<noteq> key r \<Longrightarrow> with_prev (q # old) r = with_prev old r"
  by (simp add: with_prev_def)

lemma with_prev_same: "key q = key r \<Longrightarrow> with_prev (q # old) r = r\<lparr>prev_tv_index := tv_index q\<rparr>"
  by (simp add: with_prev_def)

lemma with_prev_none: "key r \<notin> key ` set old \<Longrightarrow> with_prev old r = r"
  by (induction old) (auto simp: with_prev_def)

abbreviation strict_keys :: "row_info list \<Rightarrow> bool" where
  "strict_keys rows \<equiv> sorted_wrt (\<lambda>x y. key x < key y) rows"

lemma align_rows_ok:
  assumes "strict_keys old" "strict_keys new" "is_ok mx (deletions c)" "is_ok mx (insertions c)"
  shows "\<exists>d i. align_rows mx old new c seen =
       Some (c\<lparr>deletions := d, insertions := i\<rparr>, seen @ map (with_prev old) new) \<and>
     is_ok mx d \<and> is_ok mx i \<and>
     elems d = elems (deletions c) \<union> tv_index ` {q \<in> set old. key q \<notin> key ` set new} \<and>
     elems i = elems (insertions c) \<union> tv_index ` {r \<in> set new. key r \<notin> key ` set old}"
  using assms
proof (induction mx old new c seen rule: align_rows.induct)
  case (1 mx new c seen)
  obtain i where "add_list mx (insertions c) (map tv_index new) = Some i" "is_ok mx i"
    "elems i = elems (insertions c) \<union> set (map tv_index new)" using add_list_ok [OF 1(4)] by blast
  moreover have "map (with_prev []) new = new" by (simp add: with_prev_def map_idI)
  ultimately show ?case using 1 by (intro exI [of _ "deletions c"] exI [of _ i]) simp
next
  case (2 mx q old c seen)
  obtain d where "add_list mx (deletions c) (map tv_index (q # old)) = Some d" "is_ok mx d"
    "elems d = elems (deletions c) \<union> set (map tv_index (q # old))" using add_list_ok [OF 2(3)] by blast
  then show ?case using 2 by (intro exI [of _ d] exI [of _ "insertions c"]) auto
next
  case (3 mx q old r new c seen)
  consider "key q = key r" | "key q < key r" | "key r < key q" by linarith
  then show ?case
  proof cases
    case 1
    have n: "\<forall>x \<in> set new. key q \<noteq> key x" "\<forall>x \<in> set old. key r \<noteq> key x" using 3(4,5) 1 by fastforce+
    have m: "map (with_prev (q # old)) new = map (with_prev old) new"
      using n by (intro map_cong) (auto simp: with_prev_other)
    have "{x \<in> set (q # old). key x \<notin> key ` set (r # new)} = {x \<in> set old. key x \<notin> key ` set new}"
      "{x \<in> set (r # new). key x \<notin> key ` set (q # old)} = {x \<in> set new. key x \<notin> key ` set old}"
      using 1 n by auto
    then show ?thesis using 3(1) [OF 1] 3(4-7) 1 by (simp add: m with_prev_same)
  next
    case 2
    have n: "\<forall>x \<in> set (r # new). key q \<noteq> key x" using 3(5) 2 by fastforce
    have m: "map (with_prev (q # old)) (r # new) = map (with_prev old) (r # new)"
      using n by (intro map_cong) (auto simp: with_prev_other)
    obtain d where d: "add mx (deletions c) (tv_index q) = Some d" "is_ok mx d"
      "elems d = insert (tv_index q) (elems (deletions c))" using add_ok [OF 3(6)] by blast
    have s: "{x \<in> set (q # old). key x \<notin> key ` set (r # new)} = insert q {x \<in> set old. key x \<notin> key ` set (r # new)}"
      "{x \<in> set (r # new). key x \<notin> key ` set (q # old)} = {x \<in> set (r # new). key x \<notin> key ` set old}"
      using n by auto
    have "\<exists>d' i. align_rows mx old (r # new) (c\<lparr>deletions := d\<rparr>) seen =
        Some (c\<lparr>deletions := d', insertions := i\<rparr>, seen @ map (with_prev old) (r # new)) \<and> is_ok mx d' \<and> is_ok mx i \<and>
        elems d' = elems d \<union> tv_index ` {q \<in> set old. key q \<notin> key ` set (r # new)} \<and>
        elems i = elems (insertions c) \<union> tv_index ` {x \<in> set (r # new). key x \<notin> key ` set old}"
      using 3(2) [of d] 2 3(4-7) d(1,2) by simp
    then show ?thesis unfolding m s using 2 d(1,3) by auto
  next
    case r: 3
    have n: "\<forall>x \<in> set (q # old). key x \<noteq> key r" using 3(4) r by fastforce
    obtain i where i: "add mx (insertions c) (tv_index r) = Some i" "is_ok mx i"
      "elems i = insert (tv_index r) (elems (insertions c))" using add_ok [OF 3(7)] by blast
    have s: "{x \<in> set (q # old). key x \<notin> key ` set (r # new)} = {x \<in> set (q # old). key x \<notin> key ` set new}"
      "{x \<in> set (r # new). key x \<notin> key ` set (q # old)} = insert r {x \<in> set new. key x \<notin> key ` set (q # old)}"
      using n by auto
    have w: "with_prev (q # old) r = r" using n by (intro with_prev_none) auto
    have "\<exists>d i'. align_rows mx (q # old) new (c\<lparr>insertions := i\<rparr>) (seen @ [r]) =
        Some (c\<lparr>deletions := d, insertions := i'\<rparr>, (seen @ [r]) @ map (with_prev (q # old)) new) \<and> is_ok mx d \<and> is_ok mx i' \<and>
        elems d = elems (deletions c) \<union> tv_index ` {x \<in> set (q # old). key x \<notin> key ` set new} \<and>
        elems i' = elems i \<union> tv_index ` {x \<in> set new. key x \<notin> key ` set (q # old)}"
      using 3(3) [of i] r 3(4-7) i(1,2) by simp
    then show ?thesis unfolding s using r i(1,3) w by auto
  qed
qed

section \<open>The change set that is calculated\<close>

text \<open>The row of a new collection at \<open>j\<close> before and after the alignment.\<close>

abbreviation (input) info :: "int list \<Rightarrow> nat \<Rightarrow> row_info" where
  "info xs i \<equiv> \<lparr>key = xs ! i, prev_tv_index = npos, tv_index = i\<rparr>"

definition old_position :: "int list \<Rightarrow> int \<Rightarrow> nat" where
  "old_position xs k = length (takeWhile (\<lambda>x. x \<noteq> k) xs)"

lemma old_position_nth: "distinct xs \<Longrightarrow> i < length xs \<Longrightarrow> old_position xs (xs ! i) = i"
proof (induction xs arbitrary: i)
  case (Cons x xs)
  then show ?case by (cases i) (auto simp: old_position_def)
qed simp

lemma nth_old_position: "k \<in> set xs \<Longrightarrow> old_position xs k < length xs \<and> xs ! old_position xs k = k"
  by (induction xs) (auto simp: old_position_def)

lemma set_build_row_info [simp]: "set (build_row_info xs) = info xs ` {..<length xs}"
  by (auto simp: build_row_info_def)

lemma keys_build_row_info [simp]: "key ` set (build_row_info xs) = set xs"
  by (auto simp: image_image in_set_conv_nth)

lemma mset_build_row_info: "mset (build_row_info xs) = mset (map (info xs) [0..<length xs])"
  by (simp add: build_row_info_def)

lemma strict_keys_iff: "strict_keys rows \<longleftrightarrow> sorted (map key rows) \<and> distinct (map key rows)"
proof -
  have "sorted_wrt (<) (map key rows) \<longleftrightarrow> sorted (map key rows) \<and> distinct (map key rows)"
    by (rule strict_sorted_iff)
  then show ?thesis by (simp only: sorted_wrt_map)
qed

lemma strict_build_row_info:
  assumes "distinct xs"
  shows "strict_keys (build_row_info xs)"
proof -
  have "mset (map key (build_row_info xs)) = mset (map key (map (info xs) [0..<length xs]))"
    unfolding mset_map mset_build_row_info [unfolded mset_map] by (rule refl)
  also have "map key (map (info xs) [0..<length xs]) = xs" by (simp add: comp_def map_nth)
  finally have m: "mset (map key (build_row_info xs)) = mset xs" .
  have "distinct (map key (build_row_info xs))" using mset_eq_imp_distinct_iff [OF m] assms by (rule iffD2)
  moreover have "sorted (map key (build_row_info xs))" unfolding build_row_info_def by (rule sorted_sort_key)
  ultimately show ?thesis by (simp only: strict_keys_iff)
qed

lemma find_key:
  assumes "distinct (map key rows)" "q \<in> set rows"
  shows "find (\<lambda>r. key r = key q) rows = Some q"
  using assms by (induction rows) force+

lemma with_prev_build:
  assumes "distinct xs"
  shows "with_prev (build_row_info xs) r =
    (if key r \<in> set xs then r\<lparr>prev_tv_index := old_position xs (key r)\<rparr> else r)"
proof (cases "key r \<in> set xs")
  case True
  let ?i = "old_position xs (key r)"
  have i: "?i < length xs" "xs ! ?i = key r" using nth_old_position [OF True] by auto
  have "distinct (map key (build_row_info xs))"
    using strict_build_row_info [OF assms] by (simp only: strict_keys_iff)
  moreover have "info xs ?i \<in> set (build_row_info xs)"
    using i(1) unfolding set_build_row_info by (intro imageI) simp
  ultimately have "find (\<lambda>r. key r = key (info xs ?i)) (build_row_info xs) = Some (info xs ?i)" by (rule find_key)
  then show ?thesis using True i by (simp add: with_prev_def)
next
  case False
  then have n: "key r \<notin> key ` set (build_row_info xs)" by (simp only: keys_build_row_info not_False_eq_True)
  show ?thesis using False with_prev_none [OF n] by simp
qed

text \<open>The rows that are in both collections, in the order of the new one.\<close>

definition kept_rows :: "int list \<Rightarrow> int list \<Rightarrow> row_info list" where
  "kept_rows prev nxt = map (\<lambda>j. \<lparr>key = nxt ! j, prev_tv_index = old_position prev (nxt ! j), tv_index = j\<rparr>)
     (filter (\<lambda>j. nxt ! j \<in> set prev) [0..<length nxt])"

lemma kept_rows_sorted: "sorted (map tv_index (kept_rows prev nxt))"
  by (simp add: kept_rows_def comp_def sorted_wrt_filter)

lemma aligned_rows:
  assumes "distinct prev" "length prev \<le> npos"
  shows "sort_key tv_index (filter (\<lambda>r. prev_tv_index r \<noteq> npos)
      (map (with_prev (build_row_info prev)) (build_row_info nxt))) = kept_rows prev nxt"
proof -
  let ?w = "with_prev (build_row_info prev)" and ?p = "\<lambda>r. prev_tv_index r \<noteq> npos"
  have w: "?w (info nxt j) = (if nxt ! j \<in> set prev
      then \<lparr>key = nxt ! j, prev_tv_index = old_position prev (nxt ! j), tv_index = j\<rparr> else info nxt j)" for j
    by (simp add: with_prev_build [OF assms(1)])
  have p: "?p (?w (info nxt j)) \<longleftrightarrow> nxt ! j \<in> set prev" for j
    using nth_old_position [of "nxt ! j" prev] assms(2) by (auto simp: w)
  have "mset (filter ?p (map ?w (build_row_info nxt))) = mset (filter ?p (map ?w (map (info nxt) [0..<length nxt])))"
    unfolding mset_filter mset_map mset_build_row_info [unfolded mset_map] by (rule refl)
  also have "filter ?p (map ?w (map (info nxt) [0..<length nxt])) = kept_rows prev nxt"
  proof -
    have "filter ?p (map ?w (map (info nxt) [0..<length nxt])) =
        map (\<lambda>j. ?w (info nxt j)) (filter (\<lambda>j. ?p (?w (info nxt j))) [0..<length nxt])"
      by (simp only: filter_map map_map comp_def)
    also have "\<dots> = kept_rows prev nxt" unfolding p kept_rows_def by (intro map_cong) (auto simp: w)
    finally show ?thesis .
  qed
  finally have m: "mset (filter ?p (map ?w (build_row_info nxt))) = mset (kept_rows prev nxt)" .
  moreover have "inj_on tv_index (set (filter ?p (map ?w (build_row_info nxt))))"
    unfolding mset_eq_setD [OF m] by (auto simp: kept_rows_def inj_on_def)
  ultimately show ?thesis using kept_rows_sorted by (rule sort_key_inj_key_eq)
qed

lemma old_order_kept:
  assumes "distinct prev" "distinct nxt"
  shows "old_order (kept_rows prev nxt) =
    map (\<lambda>i. \<lparr>rkey = prev ! i, rtv = i\<rparr>) (filter (\<lambda>i. prev ! i \<in> set nxt) [0..<length prev])"
    (is "_ = map ?g ?A")
proof -
  let ?rows = "map (\<lambda>r. \<lparr>rkey = key r, rtv = prev_tv_index r\<rparr>) (kept_rows prev nxt)"
  have "distinct ?rows"
    using assms(2) by (auto simp: kept_rows_def distinct_map inj_on_def nth_eq_iff_index_eq)
  moreover have "distinct (map ?g ?A)" by (auto simp: distinct_map inj_on_def)
  moreover have "set ?rows = set (map ?g ?A)"
  proof (intro set_eqI iffI)
    fix r assume "r \<in> set ?rows"
    then obtain j where "j < length nxt" "nxt ! j \<in> set prev" "r = \<lparr>rkey = nxt ! j, rtv = old_position prev (nxt ! j)\<rparr>"
      by (auto simp: kept_rows_def)
    then show "r \<in> set (map ?g ?A)" using nth_old_position [of "nxt ! j" prev] by (auto intro!: image_eqI)
  next
    fix r assume "r \<in> set (map ?g ?A)"
    then obtain i where i: "i < length prev" "prev ! i \<in> set nxt" "r = ?g i" by auto
    then obtain j where j: "j < length nxt" "nxt ! j = prev ! i" by (auto simp: in_set_conv_nth)
    then have "\<lparr>key = nxt ! j, prev_tv_index = old_position prev (nxt ! j), tv_index = j\<rparr> \<in> set (kept_rows prev nxt)"
      using i(1) unfolding kept_rows_def set_map by (intro imageI) simp
    then have "\<lparr>rkey = nxt ! j, rtv = old_position prev (nxt ! j)\<rparr> \<in> set ?rows" by force
    then show "r \<in> set ?rows" using i j old_position_nth [OF assms(1) i(1)] by simp
  qed
  ultimately have "mset ?rows = mset (map ?g ?A)" by (simp only: set_eq_iff_mset_eq_distinct)
  moreover have "inj_on (\<lambda>r. (rtv r, rkey r)) (set ?rows)" by (auto simp: inj_on_def)
  moreover have "sorted (map (\<lambda>r. (rtv r, rkey r)) (map ?g ?A))"
  proof -
    have "sorted_wrt (<) ?A" by (simp add: sorted_wrt_filter)
    then show ?thesis unfolding map_map sorted_wrt_map
      by (rule sorted_wrt_mono_rel [rotated]) (auto simp: less_eq_prod_def)
  qed
  ultimately show ?thesis unfolding old_order_def by (rule sort_key_inj_key_eq)
qed

lemma filter_kept:
  assumes "A = filter P [0..<n]" "U \<subseteq> {..<length A}"
  shows "filter (\<lambda>i. i \<in> - ({i. i < n \<and> \<not> P i} \<union> (!) A ` U)) [0..<n] = map ((!) A) (filter (\<lambda>x. x \<notin> U) [0..<length A])"
proof -
  have d: "distinct A" using assms(1) by simp
  have u: "A ! x \<in> (!) A ` U \<longleftrightarrow> x \<in> U" if "x < length A" for x
    using that assms(2) nth_eq_iff_index_eq [OF d] by (auto simp: subset_eq)
  have "filter (\<lambda>i. i \<in> - ({i. i < n \<and> \<not> P i} \<union> (!) A ` U)) [0..<n] = filter (\<lambda>i. i \<notin> (!) A ` U) (filter P [0..<n])"
    unfolding filter_filter by (intro filter_cong) auto
  also have "\<dots> = filter (\<lambda>i. i \<notin> (!) A ` U) (map ((!) A) [0..<length A])"
    unfolding assms(1) [symmetric] map_nth by (rule refl)
  also have "\<dots> = map ((!) A) (filter (\<lambda>x. x \<notin> U) [0..<length A])"
    unfolding filter_map comp_def by (intro map_cong filter_cong) (auto simp: u)
  finally show ?thesis .
qed

definition changed_rows :: "int list \<Rightarrow> int list \<Rightarrow> (int \<Rightarrow> bool) \<Rightarrow> nat set" where
  "changed_rows prev nxt f = {j. j < length nxt \<and> nxt ! j \<in> set prev \<and> f (nxt ! j)}"

lemma image_filter_image: "g ` {q \<in> f ` A. P q} = (\<lambda>a. g (f a)) ` {a \<in> A. P (f a)}"
  by auto

lemma info_keys:
  "tv_index ` {q \<in> set (build_row_info xs). key q \<notin> key ` set (build_row_info ys)} = {i. i < length xs \<and> xs ! i \<notin> set ys}"
  unfolding keys_build_row_info unfolding set_build_row_info image_filter_image by auto

text \<open>What the loop and the sort leave for the calculation of the moves.\<close>

lemma calculate_aligned:
  assumes "even mx" "2 \<le> mx" "distinct prev" "distinct nxt" "length prev \<le> npos"
  shows "\<exists>d i m. calculate mx prev nxt f in_table_order =
       (let c = empty_builder\<lparr>deletions := d, insertions := i, modifications := m\<rparr>
        in if in_table_order then Some c else calculate_moves_sorted mx (kept_rows prev nxt) c) \<and>
     is_ok mx d \<and> is_ok mx i \<and> is_ok mx m \<and>
     elems d = {i. i < length prev \<and> prev ! i \<notin> set nxt} \<and>
     elems i = {j. j < length nxt \<and> nxt ! j \<notin> set prev} \<and> elems m = changed_rows prev nxt f"
proof -
  have e: "is_ok mx (deletions empty_builder)" "is_ok mx (insertions empty_builder)" "is_ok mx (modifications empty_builder)"
    "elems (deletions empty_builder) = {}" "elems (insertions empty_builder) = {}" "elems (modifications empty_builder) = {}"
    using is_ok_empty [OF assms(1,2)] by (simp_all add: empty_builder_def)
  obtain d i where r: "align_rows mx (build_row_info prev) (build_row_info nxt) empty_builder [] =
      Some (empty_builder\<lparr>deletions := d, insertions := i\<rparr>, map (with_prev (build_row_info prev)) (build_row_info nxt))"
    "is_ok mx d" "is_ok mx i" "elems d = {i. i < length prev \<and> prev ! i \<notin> set nxt}"
    "elems i = {j. j < length nxt \<and> nxt ! j \<notin> set prev}"
    using align_rows_ok [OF strict_build_row_info [OF assms(3)] strict_build_row_info [OF assms(4)] e(1,2), of "[]"]
    unfolding info_keys e by auto
  let ?ks = "map tv_index (filter (\<lambda>r. f (key r)) (kept_rows prev nxt))"
  obtain m where m: "add_list mx (modifications empty_builder) ?ks = Some m" "is_ok mx m"
    "elems m = elems (modifications empty_builder) \<union> set ?ks" using add_list_ok [OF e(3)] by blast
  have "set ?ks = changed_rows prev nxt f"
    unfolding set_map set_filter kept_rows_def changed_rows_def image_filter_image by auto
  then have "calculate mx prev nxt f in_table_order =
       (let c = empty_builder\<lparr>deletions := d, insertions := i, modifications := m\<rparr>
        in if in_table_order then Some c else calculate_moves_sorted mx (kept_rows prev nxt) c)"
    using r(1) m(1) by (simp add: calculate_def calculate_rows_def aligned_rows [OF assms(3,5)] Let_def)
  then show ?thesis using r m e \<open>set ?ks = _\<close> by (intro exI [of _ d] exI [of _ i] exI [of _ m]) simp
qed

text \<open>
  The change set is right: the rows that are not deleted are, in order, the rows that are not
  inserted, so that applying it to the old rows gives the new ones.
\<close>

definition describes :: "int list \<Rightarrow> int list \<Rightarrow> change_builder \<Rightarrow> bool" where
  "describes prev nxt c \<longleftrightarrow>
     elems (deletions c) \<subseteq> {..<length prev} \<and> elems (insertions c) \<subseteq> {..<length nxt} \<and>
     {i. i < length prev \<and> prev ! i \<notin> set nxt} \<subseteq> elems (deletions c) \<and>
     {j. j < length nxt \<and> nxt ! j \<notin> set prev} \<subseteq> elems (insertions c) \<and>
     nths prev (- elems (deletions c)) = nths nxt (- elems (insertions c))"

lemma describesI:
  assumes A: "A = filter (\<lambda>i. prev ! i \<in> set nxt) [0..<length prev]"
    and B: "B = filter (\<lambda>j. nxt ! j \<in> set prev) [0..<length nxt]"
    and d: "elems (deletions c) = {i. i < length prev \<and> prev ! i \<notin> set nxt} \<union> (!) A ` U" "U \<subseteq> {..<length A}"
    and i: "elems (insertions c) = {j. j < length nxt \<and> nxt ! j \<notin> set prev} \<union> (!) B ` V" "V \<subseteq> {..<length B}"
    and eq: "map (\<lambda>x. prev ! (A ! x)) (filter (\<lambda>x. x \<notin> U) [0..<length A]) =
      map (\<lambda>y. nxt ! (B ! y)) (filter (\<lambda>y. y \<notin> V) [0..<length B])"
  shows "describes prev nxt c"
proof -
  have "A ! x < length prev" if "x \<in> U" for x
    using nth_mem [of x A] d(2) that unfolding A by (auto simp: subset_eq)
  moreover have "B ! y < length nxt" if "y \<in> V" for y
    using nth_mem [of y B] i(2) that unfolding B by (auto simp: subset_eq)
  moreover have "nths prev (- elems (deletions c)) = map (\<lambda>x. prev ! (A ! x)) (filter (\<lambda>x. x \<notin> U) [0..<length A])"
    unfolding nths_filter d(1) filter_kept [OF A d(2)] by (simp add: comp_def)
  moreover have "nths nxt (- elems (insertions c)) = map (\<lambda>y. nxt ! (B ! y)) (filter (\<lambda>y. y \<notin> V) [0..<length B])"
    unfolding nths_filter i(1) filter_kept [OF B i(2)] by (simp add: comp_def)
  ultimately show ?thesis unfolding describes_def d(1) i(1) eq by auto
qed

lemma describes_verify:
  "is_ok mx (deletions c) \<Longrightarrow> is_ok mx (insertions c) \<Longrightarrow> describes prev nxt c \<Longrightarrow> verify_changeset prev nxt c"
  by (rule verify_changeset_iff) (simp_all add: describes_def)

lemma calculate_ok:
  assumes "even mx" "2 \<le> mx" "distinct prev" "distinct nxt" "length prev \<le> npos"
    and ord: "in_table_order \<Longrightarrow> filter (\<lambda>k. k \<in> set nxt) prev = filter (\<lambda>k. k \<in> set prev) nxt"
  shows "\<exists>c. calculate mx prev nxt f in_table_order = Some c \<and> describes prev nxt c \<and>
    is_ok mx (deletions c) \<and> is_ok mx (insertions c) \<and> is_ok mx (modifications c) \<and>
    elems (modifications c) = changed_rows prev nxt f \<and> moves c = [] \<and> columns c = []"
proof -
  let ?A = "filter (\<lambda>i. prev ! i \<in> set nxt) [0..<length prev]"
  let ?B = "filter (\<lambda>j. nxt ! j \<in> set prev) [0..<length nxt]"
  obtain d i m where c: "calculate mx prev nxt f in_table_order =
       (let c = empty_builder\<lparr>deletions := d, insertions := i, modifications := m\<rparr>
        in if in_table_order then Some c else calculate_moves_sorted mx (kept_rows prev nxt) c)"
    and ok: "is_ok mx d" "is_ok mx i" "is_ok mx m"
    and e: "elems d = {i. i < length prev \<and> prev ! i \<notin> set nxt}" "elems i = {j. j < length nxt \<and> nxt ! j \<notin> set prev}"
      "elems m = changed_rows prev nxt f"
    using calculate_aligned [OF assms(1-5), of f in_table_order] by blast
  let ?c = "empty_builder\<lparr>deletions := d, insertions := i, modifications := m\<rparr>"
  have mv: "moves ?c = []" "columns ?c = []" by (simp_all add: empty_builder_def)
  show ?thesis
  proof (cases in_table_order)
    case True
    have f: "map ((!) xs) (filter (\<lambda>i. xs ! i \<in> S) [0..<length xs]) = filter (\<lambda>k. k \<in> S) xs" for xs :: "int list" and S
      using filter_map [of "\<lambda>k. k \<in> S" "(!) xs" "[0..<length xs]"] by (simp add: map_nth comp_def)
    have g: "map (\<lambda>x. xs ! (A ! x)) (filter (\<lambda>x. x \<notin> {}) [0..<length A]) = map ((!) xs) A" for xs :: "int list" and A
      using map_map [of "(!) xs" "(!) A" "[0..<length A]"] by (simp add: map_nth comp_def)
    have "describes prev nxt ?c"
      by (rule describesI [OF refl refl, of _ _ _ "{}" "{}"]) (unfold g, simp_all add: e f ord [OF True])
    then show ?thesis using True c ok e mv by (intro exI [of _ ?c]) simp
  next
    case False
    obtain d' i' U V where r: "calculate_moves_sorted mx (kept_rows prev nxt) ?c = Some (?c\<lparr>deletions := d', insertions := i'\<rparr>)"
      "is_ok mx d'" "is_ok mx i'"
      "elems d' = elems d \<union> (\<lambda>x. rtv (old_order (kept_rows prev nxt) ! x)) ` U"
      "elems i' = elems i \<union> (\<lambda>y. tv_index (kept_rows prev nxt ! y)) ` V"
      "U \<subseteq> {..<length (kept_rows prev nxt)}" "V \<subseteq> {..<length (kept_rows prev nxt)}"
      "map (\<lambda>x. rkey (old_order (kept_rows prev nxt) ! x)) (filter (\<lambda>x. x \<notin> U) [0..<length (kept_rows prev nxt)]) =
       map (\<lambda>y. key (kept_rows prev nxt ! y)) (filter (\<lambda>y. y \<notin> V) [0..<length (kept_rows prev nxt)])"
      using calculate_moves_ok [of mx ?c "kept_rows prev nxt"] ok by auto
    have lb: "length (kept_rows prev nxt) = length ?B" by (simp add: kept_rows_def)
    have "length (old_order (kept_rows prev nxt)) = length ?A" by (simp add: old_order_kept [OF assms(3,4)])
    then have la: "length ?A = length ?B" using lb by simp
    have oa: "rtv (old_order (kept_rows prev nxt) ! x) = ?A ! x" "rkey (old_order (kept_rows prev nxt) ! x) = prev ! (?A ! x)"
      if "x < length ?B" for x using that la by (simp_all add: old_order_kept [OF assms(3,4)])
    have ob: "tv_index (kept_rows prev nxt ! y) = ?B ! y" "key (kept_rows prev nxt ! y) = nxt ! (?B ! y)"
      if "y < length ?B" for y using that by (simp_all add: kept_rows_def)
    have U: "(\<lambda>x. rtv (old_order (kept_rows prev nxt) ! x)) ` U = (!) ?A ` U"
      using r(6) oa(1) unfolding lb by (intro image_cong) auto
    have V: "(\<lambda>y. tv_index (kept_rows prev nxt ! y)) ` V = (!) ?B ` V"
      using r(7) ob(1) unfolding lb by (intro image_cong) auto
    have "map (\<lambda>x. rkey (old_order (kept_rows prev nxt) ! x)) (filter (\<lambda>x. x \<notin> U) [0..<length ?B]) =
        map (\<lambda>x. prev ! (?A ! x)) (filter (\<lambda>x. x \<notin> U) [0..<length ?B])"
      using oa(2) by (intro map_cong) auto
    moreover have "map (\<lambda>y. key (kept_rows prev nxt ! y)) (filter (\<lambda>y. y \<notin> V) [0..<length ?B]) =
        map (\<lambda>y. nxt ! (?B ! y)) (filter (\<lambda>y. y \<notin> V) [0..<length ?B])"
      using ob(2) by (intro map_cong) auto
    ultimately have "describes prev nxt (?c\<lparr>deletions := d', insertions := i'\<rparr>)"
      using r(4-8) unfolding lb U V by (intro describesI [OF refl refl, of _ _ _ U V]) (simp_all add: e la)
    then show ?thesis using False c ok e mv r by (intro exI [of _ "?c\<lparr>deletions := d', insertions := i'\<rparr>"]) simp
  qed
qed

lemma describes_builder_ok:
  assumes "is_ok mx (deletions c)" "is_ok mx (insertions c)" "is_ok mx (modifications c)" "moves c = []" "columns c = []"
  shows "verify_changes c"
  by (rule builder_ok_verify) (use assms in \<open>simp add: builder_ok_def sets_ok_def cols_ok_def moves_ok_def\<close>)

lemma calculate_keys_ok:
  assumes "even mx" "2 \<le> mx" "distinct prev" "distinct nxt" "length prev \<le> npos"
    and "in_table_order \<Longrightarrow> filter (\<lambda>k. k \<in> set nxt) prev = filter (\<lambda>k. k \<in> set prev) nxt"
  shows "\<exists>c. calculate_keys mx prev nxt f in_table_order = Some c \<and> describes prev nxt c \<and>
    apply_changeset prev nxt c = nxt \<and> elems (modifications c) = changed_rows prev nxt f"
proof -
  obtain c where c: "calculate mx prev nxt f in_table_order = Some c" "describes prev nxt c"
    "is_ok mx (deletions c)" "is_ok mx (insertions c)" "is_ok mx (modifications c)"
    "elems (modifications c) = changed_rows prev nxt f" "moves c = []" "columns c = []"
    using calculate_ok [OF assms] by blast
  then show ?thesis
    using describes_verify [OF c(3,4,2)] describes_builder_ok [OF c(3-5,7,8)]
    by (simp add: calculate_keys_def verify_changeset_def)
qed

lemma apply_changeset_map:
  fixes g :: "'a \<Rightarrow> 'b"
  assumes "verify_changeset (map g prev) (map g nxt) c" "inj g"
    and "elems (insertions c) \<subseteq> {..<length nxt}"
  shows "verify_changeset prev nxt c"
proof -
  have e: "erase_range r (map g xs) = map g (erase_range r xs)" for r and xs :: "'a list"
    by (simp add: erase_range_def take_map drop_map)
  have er: "foldr erase_range rs (map g xs) = map g (foldr erase_range rs xs)" for rs and xs :: "'a list"
    by (induction rs) (simp_all add: e)
  have ins: "foldl (insert_row (map g nxt)) (map g xs) is = map g (foldl (insert_row nxt) xs is)"
    if "\<forall>i \<in> set is. i < length nxt" for "is" and xs :: "'a list"
    using that by (induction "is" arbitrary: xs) (simp_all add: insert_row_def take_map drop_map flip: map_append list.map(2))
  have "apply_changeset (map g prev) (map g nxt) c = map g (apply_changeset prev nxt c)"
    unfolding apply_changeset_def er by (rule ins) (use assms(3) in \<open>auto simp: set_as_indexes\<close>)
  then show ?thesis using assms(1) unfolding verify_changeset_def by (simp only: inj_map_eq_map [OF assms(2)])
qed

lemma inj_sint: "inj (sint :: 64 word \<Rightarrow> int)"
  by (rule injI) (simp add: signed_word_eqI)

lemma calculate_indices_ok:
  assumes "even mx" "2 \<le> mx" "distinct prev" "distinct nxt" "length prev \<le> npos"
  shows "\<exists>c. calculate_indices mx prev nxt f = Some c \<and> apply_changeset prev nxt c = nxt \<and>
    elems (modifications c) = changed_rows (map sint prev) (map sint nxt) f"
proof -
  have d: "distinct (map sint prev)" "distinct (map sint nxt)"
    using assms(3,4) inj_sint inj_on_subset [OF inj_sint subset_UNIV] by (simp_all add: distinct_map)
  obtain c where c: "calculate mx (map sint prev) (map sint nxt) f False = Some c" "describes (map sint prev) (map sint nxt) c"
    "is_ok mx (deletions c)" "is_ok mx (insertions c)" "is_ok mx (modifications c)"
    "elems (modifications c) = changed_rows (map sint prev) (map sint nxt) f" "moves c = []" "columns c = []"
    using calculate_ok [OF assms(1,2) d, of False f] assms(5) by auto
  have "verify_changeset prev nxt c"
    by (rule apply_changeset_map [OF describes_verify [OF c(3,4,2)] inj_sint]) (use c(2) in \<open>simp add: describes_def\<close>)
  then show ?thesis
    using describes_builder_ok [OF c(3-5,7,8)] c by (simp add: calculate_indices_def verify_changeset_def)
qed

end
