(* ===== verification/SafeInt.thy ===== *)
theory SafeInt
  imports Prelude
begin

text \<open>
  The overflow checking integer operations of \<open>include/core/realm/util/safe_int_ops.hpp\<close>, which
  the decoder of the transaction log, the buffers and the parsers rely on. The templates take
  two integer types; here a type is a value of \<open>int_type\<close> (what \<open>std::numeric_limits\<close> tells of
  it), a machine integer is an \<open>int\<close> in the range of its type, and every conversion is written
  out as \<open>cast\<close>. An operation that assigns through a reference and returns whether it
  overflowed is a function to \<open>int option\<close>, \<open>None\<close> for overflow. The types are those of an LP64
  platform: up to 64 value bits, and 32 bits in \<open>unsigned int\<close>.
\<close>

section \<open>Integer types\<close>

record int_type =
  digits :: nat
  is_signed :: bool

definition max_of :: "int_type \<Rightarrow> int" where
  "max_of t = 2 ^ digits t - 1"

definition min_of :: "int_type \<Rightarrow> int" where
  "min_of t = (if is_signed t then - (2 ^ digits t) else 0)"

definition in_type :: "int_type \<Rightarrow> int \<Rightarrow> bool" where
  "in_type t x \<longleftrightarrow> min_of t \<le> x \<and> x \<le> max_of t"

text \<open>Conversion to a type: reduction modulo two to the number of its bits.\<close>

definition cast :: "int_type \<Rightarrow> int \<Rightarrow> int" where
  "cast t x = (if is_signed t then (x + 2 ^ digits t) mod 2 ^ (digits t + 1) - 2 ^ digits t
     else x mod 2 ^ digits t)"

definition unsigned_type :: "nat \<Rightarrow> int_type" where
  "unsigned_type n = \<lparr>digits = n, is_signed = False\<rparr>"

definition signed_type :: "nat \<Rightarrow> int_type" where
  "signed_type n = \<lparr>digits = n - 1, is_signed = True\<rparr>"

abbreviation int64_t :: int_type where "int64_t \<equiv> \<lparr>digits = 63, is_signed = True\<rparr>"
abbreviation int32_t :: int_type where "int32_t \<equiv> \<lparr>digits = 31, is_signed = True\<rparr>"
abbreviation uint64_t :: int_type where "uint64_t \<equiv> \<lparr>digits = 64, is_signed = False\<rparr>"
abbreviation uint32_t :: int_type where "uint32_t \<equiv> \<lparr>digits = 32, is_signed = False\<rparr>"

text \<open>The types the platform has: \<open>FastestUnsigned\<close> finds one for them.\<close>

definition platform_type :: "int_type \<Rightarrow> bool" where
  "platform_type t \<longleftrightarrow> (if is_signed t then digits t \<le> 63 else digits t \<le> 64)"

definition least_unsigned :: "nat \<Rightarrow> nat" where
  "least_unsigned bits = (if bits \<le> 8 then 8 else if bits \<le> 16 then 16 else if bits \<le> 32 then 32 else 64)"

definition fastest_unsigned :: "nat \<Rightarrow> int_type" where
  "fastest_unsigned bits = unsigned_type (max 32 (least_unsigned bits))"

definition common_unsigned :: "int_type \<Rightarrow> int_type \<Rightarrow> int_type" where
  "common_unsigned l r = fastest_unsigned
     (max (digits l + (if is_signed l then 1 else 0)) (digits r + (if is_signed r then 1 else 0)))"

section \<open>The operations\<close>

definition is_negative :: "int_type \<Rightarrow> int \<Rightarrow> bool" where
  "is_negative t x = (if is_signed t then x < 0 else False)"

text \<open>A cast to \<open>bool\<close>, the type with one digit, keeps the lowest bit.\<close>

definition cast_to_unsigned :: "int_type \<Rightarrow> int \<Rightarrow> int" where
  "cast_to_unsigned t x = (if digits t = 1 then cast (unsigned_type 32) x mod 2 else cast t x)"

definition from_twos_compl :: "int_type \<Rightarrow> int_type \<Rightarrow> int \<Rightarrow> int" where
  "from_twos_compl to src twos_compl =
     (let sign_bit_pos = digits src - 1;
          sign_bit = cast src (2 ^ sign_bit_pos);
          non_negative = (\<not> is_signed to \<or> and twos_compl sign_bit = 0)
      in if non_negative then cast to twos_compl
         else cast to (- 1 - cast to (cast src (cast src (- 1) - twos_compl))))"

text \<open>(unsigned, unsigned)\<close>

definition equal_uu :: "int_type \<Rightarrow> int_type \<Rightarrow> int \<Rightarrow> int \<Rightarrow> bool" where
  "equal_uu L R l r = (let cu = common_unsigned L R in cast cu l = cast cu r)"

definition less_uu :: "int_type \<Rightarrow> int_type \<Rightarrow> int \<Rightarrow> int \<Rightarrow> bool" where
  "less_uu L R l r = (let cu = common_unsigned L R in cast cu l < cast cu r)"

definition add_uu :: "int_type \<Rightarrow> int_type \<Rightarrow> int \<Rightarrow> int \<Rightarrow> int option" where
  "add_uu L R lval rval =
     (let cu = common_unsigned L R; lval_2 = cast_to_unsigned L (lval + rval);
          overflow = (cast cu lval_2 < cast cu rval)
      in if overflow then None else Some lval_2)"

definition sub_uu :: "int_type \<Rightarrow> int_type \<Rightarrow> int \<Rightarrow> int \<Rightarrow> int option" where
  "sub_uu L R lval rval =
     (let cu = common_unsigned L R; lval_2 = cast cu (cast cu lval - cast cu rval);
          overflow = (cast cu lval < lval_2)
      in if overflow then None else Some (cast_to_unsigned L lval_2))"

text \<open>(unsigned, signed)\<close>

definition equal_us :: "int_type \<Rightarrow> int_type \<Rightarrow> int \<Rightarrow> int \<Rightarrow> bool" where
  "equal_us L R l r = (if digits R < digits L then 0 \<le> r \<and> l = cast_to_unsigned L r else cast R l = r)"

definition less_us :: "int_type \<Rightarrow> int_type \<Rightarrow> int \<Rightarrow> int \<Rightarrow> bool" where
  "less_us L R l r = (if digits R < digits L then 0 \<le> r \<and> l < cast_to_unsigned L r else cast R l < r)"

definition add_us :: "int_type \<Rightarrow> int_type \<Rightarrow> int \<Rightarrow> int \<Rightarrow> int option" where
  "add_us L R lval rval =
     (let cu = common_unsigned L R; lval_2 = cast cu (lval + cast cu rval);
          overflow = (if digits L < digits cu then cast cu (max_of L) < lval_2
                      else (lval_2 < cast cu lval) = (0 \<le> rval))
      in if overflow then None else Some (cast_to_unsigned L lval_2))"

definition sub_us :: "int_type \<Rightarrow> int_type \<Rightarrow> int \<Rightarrow> int \<Rightarrow> int option" where
  "sub_us L R lval rval =
     (let cu = common_unsigned L R; lval_2 = cast cu (lval - cast cu rval);
          overflow = (if digits L < digits cu then cast cu (max_of L) < lval_2
                      else (cast cu lval < lval_2) = (0 \<le> rval))
      in if overflow then None else Some (cast_to_unsigned L lval_2))"

text \<open>(signed, unsigned)\<close>

definition equal_su :: "int_type \<Rightarrow> int_type \<Rightarrow> int \<Rightarrow> int \<Rightarrow> bool" where
  "equal_su L R l r = (if digits L < digits R then 0 \<le> l \<and> cast_to_unsigned R l = r else l = cast L r)"

definition less_su :: "int_type \<Rightarrow> int_type \<Rightarrow> int \<Rightarrow> int \<Rightarrow> bool" where
  "less_su L R l r = (if digits L < digits R then l < 0 \<or> cast_to_unsigned R l < r else l < cast L r)"

definition add_su :: "int_type \<Rightarrow> int_type \<Rightarrow> int \<Rightarrow> int \<Rightarrow> int option" where
  "add_su L R lval rval =
     (let cu = common_unsigned L R; max_add = cast cu (cast cu (max_of L) - cast cu lval);
          overflow = (max_add < cast cu rval)
      in if overflow then None else Some (from_twos_compl L cu (cast cu (cast cu lval + rval))))"

definition sub_su :: "int_type \<Rightarrow> int_type \<Rightarrow> int \<Rightarrow> int \<Rightarrow> int option" where
  "sub_su L R lval rval =
     (let cu = common_unsigned L R; max_sub = cast cu (cast cu lval - cast cu (min_of L));
          overflow = (max_sub < cast cu rval)
      in if overflow then None else Some (from_twos_compl L cu (cast cu (cast cu lval - rval))))"

text \<open>(signed, signed)\<close>

definition add_ss :: "int_type \<Rightarrow> int \<Rightarrow> int \<Rightarrow> int option" where
  "add_ss L lval rval =
     (if rval < 0 then (if lval < min_of L - rval then None else Some (cast L (lval + rval)))
      else if max_of L - rval < lval then None else Some (cast L (lval + rval)))"

definition sub_ss :: "int_type \<Rightarrow> int \<Rightarrow> int \<Rightarrow> int option" where
  "sub_ss L lval rval =
     (if rval < 0 then (if max_of L + rval < lval then None else Some (cast L (lval - rval)))
      else if lval < min_of L + rval then None else Some (cast L (lval - rval)))"

text \<open>The dispatch of \<open>SafeIntBinops\<close> on the signedness of the two types.\<close>

definition safe_equal :: "int_type \<Rightarrow> int_type \<Rightarrow> int \<Rightarrow> int \<Rightarrow> bool" where
  "safe_equal L R l r =
     (if is_signed L then (if is_signed R then l = r else equal_su L R l r)
      else if is_signed R then equal_us L R l r else equal_uu L R l r)"

definition safe_less :: "int_type \<Rightarrow> int_type \<Rightarrow> int \<Rightarrow> int \<Rightarrow> bool" where
  "safe_less L R l r =
     (if is_signed L then (if is_signed R then l < r else less_su L R l r)
      else if is_signed R then less_us L R l r else less_uu L R l r)"

definition int_not_equal_to :: "int_type \<Rightarrow> int_type \<Rightarrow> int \<Rightarrow> int \<Rightarrow> bool" where
  "int_not_equal_to A B a b = (\<not> safe_equal A B a b)"

definition int_less_than_or_equal :: "int_type \<Rightarrow> int_type \<Rightarrow> int \<Rightarrow> int \<Rightarrow> bool" where
  "int_less_than_or_equal A B a b = (\<not> safe_less B A b a)"

definition int_greater_than :: "int_type \<Rightarrow> int_type \<Rightarrow> int \<Rightarrow> int \<Rightarrow> bool" where
  "int_greater_than A B a b = safe_less B A b a"

definition int_greater_than_or_equal :: "int_type \<Rightarrow> int_type \<Rightarrow> int \<Rightarrow> int \<Rightarrow> bool" where
  "int_greater_than_or_equal A B a b = (\<not> safe_less A B a b)"

definition int_add_with_overflow_detect :: "int_type \<Rightarrow> int_type \<Rightarrow> int \<Rightarrow> int \<Rightarrow> int option" where
  "int_add_with_overflow_detect L R l r =
     (if is_signed L then (if is_signed R then add_ss L l r else add_su L R l r)
      else if is_signed R then add_us L R l r else add_uu L R l r)"

definition int_subtract_with_overflow_detect :: "int_type \<Rightarrow> int_type \<Rightarrow> int \<Rightarrow> int \<Rightarrow> int option" where
  "int_subtract_with_overflow_detect L R l r =
     (if is_signed L then (if is_signed R then sub_ss L l r else sub_su L R l r)
      else if is_signed R then sub_us L R l r else sub_uu L R l r)"

text \<open>The next two assert their arguments first: the outer option is the assertion.\<close>

definition int_multiply_with_overflow_detect :: "int_type \<Rightarrow> int_type \<Rightarrow> int \<Rightarrow> int \<Rightarrow> int option option" where
  "int_multiply_with_overflow_detect L R lval rval = do {
     realm_assert (int_greater_than_or_equal L int32_t lval 0);
     realm_assert (int_greater_than R int32_t rval 0);
     Some (if max_of L div rval < lval then None else Some (cast L (lval * rval)))
   }"

definition int_shift_left_with_overflow_detect :: "int_type \<Rightarrow> int \<Rightarrow> nat \<Rightarrow> int option option" where
  "int_shift_left_with_overflow_detect T lval i = do {
     realm_assert (int_greater_than_or_equal T int32_t lval 0);
     Some (if drop_bit i (max_of T) < lval then None else Some (cast T (push_bit i lval)))
   }"

definition int_cast_has_overflow :: "int_type \<Rightarrow> int_type \<Rightarrow> int \<Rightarrow> bool" where
  "int_cast_has_overflow to src x \<longleftrightarrow> safe_less src to x (min_of to) \<or> safe_less to src (max_of to) x"

definition int_cast_with_overflow_detect :: "int_type \<Rightarrow> int_type \<Rightarrow> int \<Rightarrow> int option" where
  "int_cast_with_overflow_detect to src x =
     (if \<not> int_cast_has_overflow to src x then Some (cast to x) else None)"

section \<open>Conversions\<close>

lemma mod_below: "0 \<le> x \<Longrightarrow> x < m \<Longrightarrow> x mod m = x" for x m :: int
  by simp

lemma mod_above: "m \<le> x \<Longrightarrow> x < 2 * m \<Longrightarrow> x mod m = x - m" for x m :: int
  using minus_mod_self2 [of x m] by (simp del: minus_mod_self2)

lemma mod_neg: "- m \<le> x \<Longrightarrow> x < 0 \<Longrightarrow> x mod m = x + m" for x m :: int
  using mod_add_self2 [of x m] by (simp del: mod_add_self2)

lemma cast_id [simp]: "in_type t x \<Longrightarrow> cast t x = x"
  by (auto simp: in_type_def cast_def min_of_def max_of_def split: if_splits)

lemma cast_in_type: "in_type t (cast t x)"
  using pos_mod_bound [of "2 ^ (digits t + 1)" "x + 2 ^ digits t"] pos_mod_bound [of "2 ^ digits t" x]
  by (simp add: in_type_def cast_def min_of_def max_of_def)

lemma cast_to_unsigned_eq: "\<not> is_signed t \<Longrightarrow> cast_to_unsigned t x = cast t x"
  by (simp add: cast_to_unsigned_def cast_def unsigned_type_def mod_mod_cancel)

lemma fastest_unsigned_simps [simp]:
  "is_signed (fastest_unsigned n) = False" "n \<le> 64 \<Longrightarrow> n \<le> digits (fastest_unsigned n)"
  by (simp_all add: fastest_unsigned_def least_unsigned_def unsigned_type_def)

lemma common_unsigned_simps [simp]:
  "is_signed (common_unsigned l r) = False"
  by (simp add: common_unsigned_def)

lemma common_unsigned_digits:
  assumes "platform_type l" "platform_type r"
  shows "digits l + (if is_signed l then 1 else 0) \<le> digits (common_unsigned l r)"
    "digits r + (if is_signed r then 1 else 0) \<le> digits (common_unsigned l r)"
proof -
  let ?n = "max (digits l + (if is_signed l then 1 else 0)) (digits r + (if is_signed r then 1 else 0))"
  have "?n \<le> 64" using assms by (auto simp: platform_type_def split: if_splits)
  then have "?n \<le> digits (fastest_unsigned ?n)" by (rule fastest_unsigned_simps(2))
  then show "digits l + (if is_signed l then 1 else 0) \<le> digits (common_unsigned l r)"
    "digits r + (if is_signed r then 1 else 0) \<le> digits (common_unsigned l r)"
    unfolding common_unsigned_def by linarith+
qed

lemma power_le: "m \<le> n \<Longrightarrow> (2::int) ^ m \<le> 2 ^ n"
  by simp

lemma power_double_le: "m + 1 \<le> n \<Longrightarrow> 2 * (2::int) ^ m \<le> 2 ^ n"
  using power_le [of "m + 1" n] by simp

lemma cast_unsigned: "\<not> is_signed t \<Longrightarrow> cast t x = x mod 2 ^ digits t"
  by (simp add: cast_def)

lemma in_unsigned: "\<not> is_signed t \<Longrightarrow> in_type t x \<longleftrightarrow> 0 \<le> x \<and> x < 2 ^ digits t"
  by (auto simp: in_type_def min_of_def max_of_def)

lemma in_signed: "is_signed t \<Longrightarrow> in_type t x \<longleftrightarrow> - (2 ^ digits t) \<le> x \<and> x < 2 ^ digits t"
  by (auto simp: in_type_def min_of_def max_of_def)

section \<open>The operations are exact\<close>

definition exact :: "int_type \<Rightarrow> int \<Rightarrow> int option" where
  "exact t x = (if in_type t x then Some x else None)"

lemma add_uu_exact:
  assumes "\<not> is_signed L" "\<not> is_signed R" "platform_type L" "platform_type R" "in_type L l" "in_type R r"
  shows "add_uu L R l r = exact L (l + r)"
proof -
  obtain M N C :: int where p: "2 ^ digits L = M" "2 ^ digits R = N" "2 ^ digits (common_unsigned L R) = C" by blast
  have C: "M \<le> C" "N \<le> C"
    using common_unsigned_digits [OF assms(3,4)] unfolding p [symmetric] by (simp_all add: assms)
  have l: "0 \<le> l" "l < M" "0 \<le> r" "r < C" using assms(1,2,5,6) C by (auto simp: in_unsigned p)
  have s: "0 \<le> (l + r) mod M" "(l + r) mod M < M" unfolding p [symmetric] by simp_all
  consider "l + r < M" | "M \<le> l + r" "r < M" | "M \<le> r" by linarith
  then have "(l + r) mod M < r \<longleftrightarrow> M \<le> l + r"
  proof cases
    case 2
    then show ?thesis using l mod_above [of M "l + r"] by simp
  next
    case 3
    then show ?thesis using l s by linarith
  qed (use l in auto)
  then show ?thesis
    using assms(1) l s C by (auto simp: add_uu_def exact_def in_unsigned cast_to_unsigned_eq cast_unsigned Let_def mod_below p)
qed

lemma sub_uu_exact:
  assumes "\<not> is_signed L" "\<not> is_signed R" "platform_type L" "platform_type R" "in_type L l" "in_type R r"
  shows "sub_uu L R l r = exact L (l - r)"
proof -
  obtain M N C :: int where p: "2 ^ digits L = M" "2 ^ digits R = N" "2 ^ digits (common_unsigned L R) = C" by blast
  have C: "M \<le> C" "N \<le> C"
    using common_unsigned_digits [OF assms(3,4)] unfolding p [symmetric] by (simp_all add: assms)
  have l: "0 \<le> l" "l < M" "0 \<le> r" "r < C" using assms(1,2,5,6) C by (auto simp: in_unsigned p)
  have m: "(l - r) mod C = (if r \<le> l then l - r else l - r + C)"
    using mod_below [of "l - r" C] mod_neg [of C "l - r"] l C by auto
  show ?thesis
    using assms(1) l C by (auto simp: sub_uu_def exact_def in_unsigned cast_to_unsigned_eq cast_unsigned Let_def mod_below m p)
qed

lemma add_us_exact:
  assumes "\<not> is_signed L" "is_signed R" "platform_type L" "platform_type R" "in_type L l" "in_type R r"
  shows "add_us L R l r = exact L (l + r)"
proof -
  let ?cu = "common_unsigned L R"
  obtain M N C :: int where p: "2 ^ digits L = M" "2 ^ digits R = N" "2 ^ digits ?cu = C" by blast
  have C: "M \<le> C" "2 * N \<le> C" "digits L < digits ?cu \<Longrightarrow> 2 * M \<le> C" "\<not> digits L < digits ?cu \<Longrightarrow> M = C"
    using common_unsigned_digits [OF assms(3,4)] assms(1,2) unfolding p [symmetric]
    by (simp_all add: power_double_le)
  have l: "0 \<le> l" "l < M" "- N \<le> r" "r < N" using assms(1,2,5,6) by (auto simp: in_unsigned in_signed p)
  have N: "0 < N" unfolding p [symmetric] by simp
  have m: "cast ?cu (l + cast ?cu r) = (l + r) mod C" by (simp add: cast_unsigned mod_add_right_eq p)
  have e: "(l + r) mod C = (if l + r < 0 then l + r + C else if C \<le> l + r then l + r - C else l + r)"
    using mod_below [of "l + r" C] mod_neg [of C "l + r"] mod_above [of C "l + r"] l C N by auto
  have c: "cast ?cu (max_of L) = M - 1" "cast ?cu l = l" using C l by (auto simp: cast_unsigned max_of_def mod_below p)
  show ?thesis
  proof (cases "digits L < digits ?cu")
    case True
    then have "M - 1 < (l + r) mod C \<longleftrightarrow> \<not> (0 \<le> l + r \<and> l + r < M)" using C(1-3) l N unfolding e by auto
    then show ?thesis
      using True assms(1) C(1) by (auto simp: add_us_def exact_def in_unsigned cast_to_unsigned_eq cast_unsigned [of L] Let_def m c mod_below p)
  next
    case False
    then have "((l + r) mod C < l) = (0 \<le> r) \<longleftrightarrow> \<not> (0 \<le> l + r \<and> l + r < M)" using C(1,2,4) l N unfolding e by auto
    then show ?thesis
      using False assms(1) C(1) by (auto simp: add_us_def exact_def in_unsigned cast_to_unsigned_eq cast_unsigned [of L] Let_def m c mod_below p)
  qed
qed

lemma sub_us_exact:
  assumes "\<not> is_signed L" "is_signed R" "platform_type L" "platform_type R" "in_type L l" "in_type R r"
  shows "sub_us L R l r = exact L (l - r)"
proof -
  let ?cu = "common_unsigned L R"
  obtain M N C :: int where p: "2 ^ digits L = M" "2 ^ digits R = N" "2 ^ digits ?cu = C" by blast
  have C: "M \<le> C" "2 * N \<le> C" "digits L < digits ?cu \<Longrightarrow> 2 * M \<le> C" "\<not> digits L < digits ?cu \<Longrightarrow> M = C"
    using common_unsigned_digits [OF assms(3,4)] assms(1,2) unfolding p [symmetric]
    by (simp_all add: power_double_le)
  have l: "0 \<le> l" "l < M" "- N \<le> r" "r < N" using assms(1,2,5,6) by (auto simp: in_unsigned in_signed p)
  have N: "0 < N" unfolding p [symmetric] by simp
  have m: "cast ?cu (l - cast ?cu r) = (l - r) mod C" by (simp add: cast_unsigned mod_diff_right_eq p)
  have e: "(l - r) mod C = (if l - r < 0 then l - r + C else if C \<le> l - r then l - r - C else l - r)"
    using mod_below [of "l - r" C] mod_neg [of C "l - r"] mod_above [of C "l - r"] l C N by auto
  have c: "cast ?cu (max_of L) = M - 1" "cast ?cu l = l" using C l by (auto simp: cast_unsigned max_of_def mod_below p)
  show ?thesis
  proof (cases "digits L < digits ?cu")
    case True
    then have "M - 1 < (l - r) mod C \<longleftrightarrow> \<not> (0 \<le> l - r \<and> l - r < M)" using C(1-3) l N unfolding e by auto
    then show ?thesis
      using True assms(1) C(1) by (auto simp: sub_us_def exact_def in_unsigned cast_to_unsigned_eq cast_unsigned [of L] Let_def m c mod_below p)
  next
    case False
    then have "(l < (l - r) mod C) = (0 \<le> r) \<longleftrightarrow> \<not> (0 \<le> l - r \<and> l - r < M)" using C(1,2,4) l N unfolding e by auto
    then show ?thesis
      using False assms(1) C(1) by (auto simp: sub_us_def exact_def in_unsigned cast_to_unsigned_eq cast_unsigned [of L] Let_def m c mod_below p)
  qed
qed

lemma ss_exact:
  assumes "is_signed L" "in_type L l"
  shows "add_ss L l r = exact L (l + r)" "sub_ss L l r = exact L (l - r)"
  using assms by (auto simp: add_ss_def sub_ss_def exact_def in_type_def [of L])

lemma from_twos_compl_ok:
  assumes "is_signed t" "\<not> is_signed src" "2 * 2 ^ digits t \<le> (2::int) ^ digits src" "in_type t x"
  shows "from_twos_compl t src (x mod 2 ^ digits src) = x"
proof -
  obtain n where n: "digits src = Suc n"
  proof (cases "digits src")
    case 0
    have "(1::int) \<le> 2 ^ digits t" by (rule one_le_power) simp
    with assms(3) 0 have False unfolding 0 power_0 by linarith
    then show ?thesis ..
  qed
  let ?y = "x mod 2 ^ digits src"
  have c: "cast src ((2::int) ^ n) = 2 ^ n" "cast src (- 1) = 2 ^ digits src - 1"
    using assms(2) by (simp_all add: cast_unsigned n mod_below zmod_minus1)
  have x: "- (2 ^ digits t) \<le> x" "x < 2 ^ digits t" "(2::int) ^ digits t \<le> 2 ^ n"
    using assms(1,3,4) by (auto simp: in_signed n)
  have bit: "and z (2 ^ n) = 0 \<longleftrightarrow> \<not> bit z n" for z :: int
    by (simp add: and_exp_eq_0_iff_not_bit)
  have y: "?y = (if 0 \<le> x then x else x + 2 ^ digits src)"
  proof -
    have "(0::int) < 2 ^ digits t" by simp
    then have lt: "x < 2 ^ digits src" "- (2 ^ digits src) \<le> x" using x(1,2) assms(3) by linarith+
    show ?thesis
    proof (cases "0 \<le> x")
      case True
      then show ?thesis using mod_below [OF True lt(1)] by (simp only: if_True)
    next
      case False
      then have "x < 0" by (simp only: not_le)
      then show ?thesis using mod_neg [OF lt(2)] False by (simp only: if_False)
    qed
  qed
  have b: "bit ?y n \<longleftrightarrow> x < 0"
  proof (cases "0 \<le> x")
    case True
    then have "x div 2 ^ n = 0" using less_le_trans [OF x(2,3)] by (intro div_pos_pos_trivial)
    then show ?thesis using True y by (simp add: bit_iff_odd)
  next
    case False
    have "(x + 2 ^ digits src) div 2 ^ n = 1"
      using False le_imp_neg_le [OF x(3), THEN order_trans, OF x(1)] by (intro int_div_pos_eq [of _ _ _ "x + 2 ^ n"]) (auto simp: n)
    then show ?thesis using False y by (simp add: bit_iff_odd)
  qed
  show ?thesis
  proof (cases "0 \<le> x")
    case True
    then have "from_twos_compl t src ?y = cast t x" using b c y by (simp add: from_twos_compl_def n bit)
    then show ?thesis using assms(4) by simp
  next
    case False
    have i: "in_type t (- 1 - x)" using False x assms(1) by (simp add: in_signed)
    have "cast src (cast src (- 1) - ?y) = - 1 - x"
    proof -
      have "(0::int) < 2 ^ digits t" by simp
      then have "in_type src (- 1 - x)"
        using False x(1) assms(3) unfolding in_unsigned [OF assms(2)] by linarith
      moreover have "cast src (- 1) - ?y = - 1 - x" using False unfolding c y by simp
      ultimately show ?thesis by (simp only: cast_id)
    qed
    then have "from_twos_compl t src ?y = cast t (- 1 - cast t (- 1 - x))"
      using False b assms(1) c by (simp add: from_twos_compl_def n bit)
    then show ?thesis using i assms(4) by simp
  qed
qed

lemma su_mod:
  assumes "is_signed L" "\<not> is_signed R" "platform_type L" "platform_type R"
  shows "2 * (2::int) ^ digits L \<le> 2 ^ digits (common_unsigned L R)"
    "(2::int) ^ digits R \<le> 2 ^ digits (common_unsigned L R)"
  using common_unsigned_digits [OF assms(3,4)] assms(1,2) by (simp_all add: power_double_le)

lemma add_su_exact:
  assumes "is_signed L" "\<not> is_signed R" "platform_type L" "platform_type R" "in_type L l" "in_type R r"
  shows "add_su L R l r = exact L (l + r)"
proof -
  let ?cu = "common_unsigned L R"
  obtain M N C :: int where p: "2 ^ digits L = M" "2 ^ digits R = N" "2 ^ digits ?cu = C" by blast
  have C: "2 * M \<le> C" "N \<le> C" using su_mod [OF assms(1-4)] by (simp_all only: p)
  have l: "- M \<le> l" "l < M" "0 \<le> r" "r < N" using assms(1,2,5,6) by (auto simp: in_unsigned in_signed p)
  have m: "cast ?cu (cast ?cu (max_of L) - cast ?cu l) = (M - 1 - l) mod C"
    by (simp add: cast_unsigned max_of_def mod_diff_eq p)
  have ov: "cast ?cu (cast ?cu (max_of L) - cast ?cu l) < cast ?cu r \<longleftrightarrow> M - 1 - l < r"
    unfolding m using C l by (simp add: cast_unsigned p mod_below)
  have res: "from_twos_compl L ?cu (cast ?cu (cast ?cu l + r)) = l + r" if "l + r < M"
  proof -
    have "cast ?cu (cast ?cu l + r) = (l + r) mod 2 ^ digits ?cu" by (simp add: cast_unsigned mod_add_left_eq)
    moreover have "in_type L (l + r)" using that l assms(1) by (simp add: in_signed p)
    ultimately show ?thesis using from_twos_compl_ok [OF assms(1) _ su_mod(1) [OF assms(1-4)]] by simp
  qed
  show ?thesis using ov res l assms(1) by (auto simp: add_su_def Let_def exact_def in_signed p)
qed

lemma sub_su_exact:
  assumes "is_signed L" "\<not> is_signed R" "platform_type L" "platform_type R" "in_type L l" "in_type R r"
  shows "sub_su L R l r = exact L (l - r)"
proof -
  let ?cu = "common_unsigned L R"
  obtain M N C :: int where p: "2 ^ digits L = M" "2 ^ digits R = N" "2 ^ digits ?cu = C" by blast
  have C: "2 * M \<le> C" "N \<le> C" using su_mod [OF assms(1-4)] by (simp_all only: p)
  have l: "- M \<le> l" "l < M" "0 \<le> r" "r < N" using assms(1,2,5,6) by (auto simp: in_unsigned in_signed p)
  have m: "cast ?cu (cast ?cu l - cast ?cu (min_of L)) = (l + M) mod C"
    using assms(1) by (simp add: cast_unsigned min_of_def mod_diff_eq p)
  have ov: "cast ?cu (cast ?cu l - cast ?cu (min_of L)) < cast ?cu r \<longleftrightarrow> l + M < r"
    unfolding m using C l by (simp add: cast_unsigned p mod_below)
  have res: "from_twos_compl L ?cu (cast ?cu (cast ?cu l - r)) = l - r" if "- M \<le> l - r"
  proof -
    have "cast ?cu (cast ?cu l - r) = (l - r) mod 2 ^ digits ?cu" by (simp add: cast_unsigned mod_diff_left_eq)
    moreover have "in_type L (l - r)" using that l assms(1) by (simp add: in_signed p)
    ultimately show ?thesis using from_twos_compl_ok [OF assms(1) _ su_mod(1) [OF assms(1-4)]] by simp
  qed
  show ?thesis using ov res l assms(1) by (auto simp: sub_su_def Let_def exact_def in_signed p)
qed

lemma add_exact:
  assumes "platform_type L" "platform_type R" "in_type L l" "in_type R r"
  shows "int_add_with_overflow_detect L R l r = exact L (l + r)"
  using add_uu_exact add_us_exact add_su_exact ss_exact(1) assms
  by (simp add: int_add_with_overflow_detect_def)

lemma sub_exact:
  assumes "platform_type L" "platform_type R" "in_type L l" "in_type R r"
  shows "int_subtract_with_overflow_detect L R l r = exact L (l - r)"
  using sub_uu_exact sub_us_exact sub_su_exact ss_exact(2) assms
  by (simp add: int_subtract_with_overflow_detect_def)

section \<open>Comparisons\<close>

lemma us_casts:
  assumes "\<not> is_signed L" "is_signed R" "in_type L l" "in_type R r"
  shows "digits R < digits L \<Longrightarrow> 0 \<le> r \<Longrightarrow> cast_to_unsigned L r = r" "\<not> digits R < digits L \<Longrightarrow> cast R l = l"
proof -
  show "cast_to_unsigned L r = r" if "digits R < digits L" "0 \<le> r"
  proof -
    have "(2::int) ^ digits R \<le> 2 ^ digits L" using that(1) by simp
    then have "in_type L r" using that(2) assms unfolding in_unsigned [OF assms(1)] in_signed [OF assms(2)] by linarith
    then show ?thesis using cast_to_unsigned_eq [OF assms(1)] by simp
  qed
  show "cast R l = l" if "\<not> digits R < digits L"
  proof -
    have "(2::int) ^ digits L \<le> 2 ^ digits R" using that by simp
    moreover have "(0::int) \<le> 2 ^ digits R" by simp
    ultimately have "in_type R l" using assms unfolding in_unsigned [OF assms(1)] in_signed [OF assms(2)] by linarith
    then show ?thesis by simp
  qed
qed

lemma uu_casts:
  assumes "\<not> is_signed L" "\<not> is_signed R" "platform_type L" "platform_type R" "in_type L l" "in_type R r"
  shows "cast (common_unsigned L R) l = l" "cast (common_unsigned L R) r = r"
proof -
  obtain M N C :: int where p: "2 ^ digits L = M" "2 ^ digits R = N" "2 ^ digits (common_unsigned L R) = C" by blast
  have "M \<le> C" "N \<le> C"
    using common_unsigned_digits [OF assms(3,4)] unfolding p [symmetric] by (simp_all add: assms)
  then show "cast (common_unsigned L R) l = l" "cast (common_unsigned L R) r = r"
    using assms by (auto simp: in_unsigned cast_unsigned p mod_below)
qed

lemma safe_compare:
  assumes "platform_type L" "platform_type R" "in_type L l" "in_type R r"
  shows "safe_equal L R l r \<longleftrightarrow> l = r" "safe_less L R l r \<longleftrightarrow> l < r"
proof -
  consider "is_signed L" "is_signed R" | "is_signed L" "\<not> is_signed R" | "\<not> is_signed L" "is_signed R"
    | "\<not> is_signed L" "\<not> is_signed R" by blast
  then have "(safe_equal L R l r \<longleftrightarrow> l = r) \<and> (safe_less L R l r \<longleftrightarrow> l < r)"
  proof cases
    case 2
    have "0 \<le> r" using 2 assms(4) by (simp add: in_unsigned)
    then show ?thesis using 2 us_casts [OF 2(2,1) assms(4,3)]
      by (cases "digits L < digits R"; cases "0 \<le> l") (auto simp: safe_equal_def safe_less_def equal_su_def less_su_def)
  next
    case 3
    have "0 \<le> l" using 3 assms(3) by (simp add: in_unsigned)
    then show ?thesis using 3 us_casts [OF 3 assms(3,4)]
      by (cases "digits R < digits L"; cases "0 \<le> r") (auto simp: safe_equal_def safe_less_def equal_us_def less_us_def)
  next
    case 4
    then show ?thesis using uu_casts [OF 4 assms]
      by (simp add: safe_equal_def safe_less_def equal_uu_def less_uu_def)
  qed (simp add: safe_equal_def safe_less_def)
  then show "safe_equal L R l r \<longleftrightarrow> l = r" "safe_less L R l r \<longleftrightarrow> l < r" by blast+
qed

lemma in_type_zero: "in_type t 0"
  by (simp add: in_type_def min_of_def max_of_def)

lemma platform_int: "platform_type int32_t"
  by (simp add: platform_type_def)

lemma div_less_mult:
  fixes a r l :: int
  assumes "0 < r"
  shows "a div r < l \<longleftrightarrow> a < l * r"
proof
  assume "a div r < l"
  then have "(a div r + 1) * r \<le> l * r" using assms by (intro mult_right_mono) auto
  moreover have "a < (a div r + 1) * r"
    using div_mult_mod_eq [of a r] pos_mod_bound [OF assms, of a] by (simp only: distrib_right mult_1)
  ultimately show "a < l * r" by linarith
next
  assume a: "a < l * r"
  show "a div r < l"
  proof (rule ccontr)
    assume "\<not> a div r < l"
    then have "l * r \<le> (a div r) * r" using assms by (intro mult_right_mono) auto
    then show False using a div_mult_mod_eq [of a r] pos_mod_sign [OF assms, of a] by linarith
  qed
qed

lemma min_of_le: "0 \<le> x \<Longrightarrow> min_of t \<le> x"
  by (rule order_trans [of _ 0]) (simp_all add: min_of_def)

lemma multiply_exact:
  assumes "platform_type L" "platform_type R" "in_type L l" "in_type R r" "0 \<le> l" "0 < r"
  shows "int_multiply_with_overflow_detect L R l r = Some (exact L (l * r))"
proof -
  have a: "int_greater_than_or_equal L int32_t l 0" "int_greater_than R int32_t r 0"
    using assms safe_compare(2) [OF assms(1) platform_int assms(3) in_type_zero]
      safe_compare(2) [OF platform_int assms(2) in_type_zero assms(4)]
    by (simp_all add: int_greater_than_or_equal_def int_greater_than_def)
  have "max_of L div r < l \<longleftrightarrow> max_of L < l * r" by (rule div_less_mult [OF assms(6)])
  moreover have "min_of L \<le> l * r" using assms(5,6) by (intro min_of_le) simp
  ultimately show ?thesis using a
    by (auto simp: int_multiply_with_overflow_detect_def exact_def in_type_def intro!: cast_id)
qed

lemma shift_left_exact:
  assumes "platform_type T" "in_type T l" "0 \<le> l"
  shows "int_shift_left_with_overflow_detect T l i = Some (exact T (l * 2 ^ i))"
proof -
  have a: "int_greater_than_or_equal T int32_t l 0"
    using assms safe_compare(2) [OF assms(1) platform_int assms(2) in_type_zero]
    by (simp add: int_greater_than_or_equal_def)
  have "drop_bit i (max_of T) < l \<longleftrightarrow> max_of T < l * 2 ^ i" unfolding drop_bit_eq_div by (rule div_less_mult) simp
  moreover have "min_of T \<le> l * 2 ^ i" using assms(3) by (intro min_of_le) simp
  ultimately show ?thesis using a
    by (auto simp: int_shift_left_with_overflow_detect_def exact_def in_type_def push_bit_eq_mult intro!: cast_id)
qed

lemma cast_exact:
  assumes "platform_type to" "platform_type src" "in_type src x"
  shows "int_cast_has_overflow to src x \<longleftrightarrow> \<not> in_type to x"
    "int_cast_with_overflow_detect to src x = exact to x"
proof -
  have "in_type to (min_of to)" "in_type to (max_of to)"
    by (auto simp: in_type_def min_of_def max_of_def)
  then show o: "int_cast_has_overflow to src x \<longleftrightarrow> \<not> in_type to x"
    using safe_compare(2) [OF assms(2,1,3)] safe_compare(2) [OF assms(1,2) _ assms(3)]
    by (auto simp: int_cast_has_overflow_def in_type_def)
  show "int_cast_with_overflow_detect to src x = exact to x"
    by (simp add: int_cast_with_overflow_detect_def o exact_def)
qed

section \<open>Properties\<close>



end
