(* ===== verification/LogCodec.thy ===== *)
theory LogCodec
  imports SafeInt "HOL-Library.Word"
begin

text \<open>
  The integer encoding of the transaction log (\<open>TransactLogEncoder::encode_int\<close> and
  \<open>TransactLogParser::read_int\<close>, \<open>include/core/realm/impl/transact_log.hpp\<close>) and the input streams
  the parser reads its bytes from (\<open>include/core/realm/impl/input_stream.hpp\<close>).

  A stream is its \<open>next_block\<close> function on some state; the parser holds the rest of the current
  block and the stream. The locale \<open>input_stream\<close> is the contract the parser needs of a stream;
  the stream classes are its interpretations.
\<close>

type_synonym byte = "8 word"

datatype log_error = Assertion | Bad_transact_log

type_synonym 'a res = "log_error + 'a"

definition res_bind :: "'a res \<Rightarrow> ('a \<Rightarrow> 'b res) \<Rightarrow> 'b res" where
  "res_bind r f = (case r of Inl e \<Rightarrow> Inl e | Inr x \<Rightarrow> f x)"

lemma res_bind_simps [simp]: "res_bind (Inl e) f = Inl e" "res_bind (Inr x) f = f x"
  by (simp_all add: res_bind_def)

section \<open>Encoding\<close>

definition max_bytes :: "int_type \<Rightarrow> nat" where
  "max_bytes t = (1 + digits t + 6) div 7"

text \<open>The loop, with the number of iterations left, and the last byte.\<close>

fun encode_loop :: "nat \<Rightarrow> bool \<Rightarrow> int \<Rightarrow> byte list" where
  "encode_loop 0 negative v = [word_of_int (if negative then or 64 v else v)]"
| "encode_loop (Suc n) negative v =
     (if drop_bit 6 v = 0 then [word_of_int (if negative then or 64 v else v)]
      else word_of_int (or 128 (and v 127)) # encode_loop n negative (drop_bit 7 v))"

definition encode_int :: "int_type \<Rightarrow> int \<Rightarrow> byte list option" where
  "encode_int t value = do {
     let negative = is_negative t value;
     let value = (if negative then cast t (- (value + 1)) else value);
     realm_assert (\<not> is_negative t value);
     Some (encode_loop (max_bytes t) negative value)
   }"

section \<open>Input\<close>

type_synonym 's input = "byte list \<times> 's"

definition read_char :: "('s \<Rightarrow> (byte list \<times> 's) option) \<Rightarrow> 's input \<Rightarrow> (byte \<times> 's input) option" where
  "read_char next_block st =
     (case fst st of
        c # cs \<Rightarrow> Some (c, (cs, snd st))
      | [] \<Rightarrow> (case next_block (snd st) of
                 None \<Rightarrow> None
               | Some (block, s) \<Rightarrow> (case block of [] \<Rightarrow> None | c # cs \<Rightarrow> Some (c, (cs, s)))))"

definition has_next :: "('s \<Rightarrow> (byte list \<times> 's) option) \<Rightarrow> 's input \<Rightarrow> 's input option" where
  "has_next next_block st = (if fst st \<noteq> [] then Some st else next_block (snd st))"

text \<open>
  The loop of \<open>read_int\<close>: \<open>n\<close> iterations are left, \<open>i\<close> are done. It returns the last byte and the
  value.
\<close>

fun read_loop :: "('s \<Rightarrow> (byte list \<times> 's) option) \<Rightarrow> int_type \<Rightarrow> nat \<Rightarrow> nat \<Rightarrow> int \<Rightarrow> int \<Rightarrow> 's input \<Rightarrow>
    (int \<times> int \<times> 's input) res" where
  "read_loop nb t 0 i part value st = Inr (part, value, st)"
| "read_loop nb t (Suc n) i part value st =
     (case read_char nb st of
        None \<Rightarrow> Inl Bad_transact_log
      | Some (c, st) \<Rightarrow>
          let part = uint c in
          if 255 < part then Inl Bad_transact_log
          else if and part 128 = 0 then
            (case int_shift_left_with_overflow_detect t (cast t (and part 63)) (i * 7) of
               None \<Rightarrow> Inl Assertion
             | Some None \<Rightarrow> Inl Bad_transact_log
             | Some (Some p) \<Rightarrow> Inr (part, or value p, st))
          else if n = 0 then Inl Bad_transact_log
          else read_loop nb t n (i + 1) part (or value (cast t (push_bit (i * 7) (cast t (and part 127))))) st)"

definition read_int :: "('s \<Rightarrow> (byte list \<times> 's) option) \<Rightarrow> int_type \<Rightarrow> 's input \<Rightarrow> (int \<times> 's input) res" where
  "read_int nb t st =
     res_bind (read_loop nb t (max_bytes t) 0 0 0 st) (\<lambda>(part, value, st).
       if and part 64 \<noteq> 0 then
         (case int_subtract_with_overflow_detect t int32_t (cast t (- value)) 1 of
            None \<Rightarrow> Inl Bad_transact_log
          | Some value \<Rightarrow> Inr (value, st))
       else Inr (value, st))"

section \<open>Streams\<close>

text \<open>\<open>SimpleNoCopyInputStream\<close>: one block of memory.\<close>

definition simple_next_block :: "byte list \<Rightarrow> (byte list \<times> byte list) option" where
  "simple_next_block data = (if length data = 0 then None else Some (data, []))"

text \<open>\<open>MultiLogNoCopyInputStream\<close>: a sequence of logs, the empty ones skipped.\<close>

fun multi_next_block :: "byte list list \<Rightarrow> (byte list \<times> byte list list) option" where
  "multi_next_block [] = None"
| "multi_next_block (log # logs) = (if length log = 0 then multi_next_block logs else Some (log, logs))"

text \<open>Its \<open>read\<close> copies bytes instead; the state is the logs and the size that remains of the first.\<close>

fun multi_read :: "byte list list \<Rightarrow> nat \<Rightarrow> nat \<Rightarrow> byte list \<times> byte list list \<times> nat" where
  "multi_read [] remaining count = ([], [], remaining)"
| "multi_read (log # logs) remaining count =
     (if 0 < remaining then
        let offset = length log - remaining; size_2 = min remaining count
        in (take size_2 (drop offset log), log # logs, remaining - size_2)
      else case logs of [] \<Rightarrow> ([], [], remaining) | log' # _ \<Rightarrow> multi_read logs (length log') count)"

text \<open>\<open>SimpleInputStream::read\<close>, and \<open>NoCopyInputStreamAdaptor\<close> over it with a buffer of a given size.\<close>

definition simple_read :: "byte list \<Rightarrow> nat \<Rightarrow> byte list \<times> byte list" where
  "simple_read data count = (let n = min count (length data) in (take n data, drop n data))"

definition adaptor_next_block :: "('s \<Rightarrow> nat \<Rightarrow> byte list \<times> 's) \<Rightarrow> nat \<Rightarrow> 's \<Rightarrow> (byte list \<times> 's) option" where
  "adaptor_next_block read buffer_size s =
     (let (block, s') = read s buffer_size in if length block = 0 then None else Some (block, s'))"

text \<open>
  The contract: the bytes a stream still has come out in blocks that are not empty, and it ends
  only when there are none left.
\<close>

locale input_stream =
  fixes next_block :: "'s \<Rightarrow> (byte list \<times> 's) option"
    and bytes :: "'s \<Rightarrow> byte list"
  assumes at_end: "next_block s = None \<Longrightarrow> bytes s = []"
    and block_nonempty: "next_block s = Some (block, s') \<Longrightarrow> block \<noteq> []"
    and block_bytes: "next_block s = Some (block, s') \<Longrightarrow> bytes s = block @ bytes s'"
begin

definition left :: "'s input \<Rightarrow> byte list" where
  "left st = fst st @ bytes (snd st)"

lemma read_char_Cons:
  "left st = c # cs \<Longrightarrow> \<exists>st'. read_char next_block st = Some (c, st') \<and> left st' = cs"
  using at_end [of "snd st"] block_nonempty [of "snd st"] block_bytes [of "snd st"]
  by (auto simp: left_def read_char_def split: list.splits option.splits)

lemma read_char_Nil: "left st = [] \<Longrightarrow> read_char next_block st = None"
  using block_nonempty [of "snd st"] block_bytes [of "snd st"]
  by (auto simp: left_def read_char_def split: list.splits option.splits)

lemma has_next_left: "left st \<noteq> [] \<Longrightarrow> \<exists>st'. has_next next_block st = Some st' \<and> left st' = left st \<and> fst st' \<noteq> []"
  using at_end [of "snd st"] block_nonempty [of "snd st"] block_bytes [of "snd st"]
  by (cases st; cases "next_block (snd st)"; cases "fst st = []") (auto simp: left_def has_next_def)

lemma has_next_end: "left st = [] \<Longrightarrow> has_next next_block st = None"
  using block_nonempty [of "snd st"] block_bytes [of "snd st"]
  by (cases "next_block (snd st)") (auto simp: left_def has_next_def)

end

interpretation simple: input_stream simple_next_block "\<lambda>data. data"
  by unfold_locales (auto simp: simple_next_block_def split: if_splits)

lemma multi_next_block_ok:
  "multi_next_block logs = None \<Longrightarrow> concat logs = []"
  "multi_next_block logs = Some (block, logs') \<Longrightarrow> block \<noteq> [] \<and> concat logs = block @ concat logs'"
  by (induction logs) (auto split: if_splits)

interpretation multi: input_stream multi_next_block concat
  using multi_next_block_ok by unfold_locales blast+

interpretation adaptor: input_stream "adaptor_next_block simple_read (Suc n)" "\<lambda>data. data"
  for n
  by unfold_locales (auto simp: adaptor_next_block_def simple_read_def Let_def min_def split: if_splits)

lemma multi_read_ok:
  assumes "logs = [] \<or> r \<le> length (hd logs)" "multi_read logs r count = (out, logs', r')"
  shows "out @ drop (length (hd logs') - r') (hd (logs' @ [[]])) @ concat (tl logs') =
      drop (length (hd logs) - r) (hd (logs @ [[]])) @ concat (tl logs) \<and>
    (logs' = [] \<or> r' \<le> length (hd logs')) \<and> length out \<le> count \<and> (0 < count \<longrightarrow> out = [] \<longrightarrow> logs' = [])"
  using assms
proof (induction logs r count rule: multi_read.induct)
  case (2 log logs r count)
  show ?case
  proof (cases "0 < r")
    case True
    then have o: "out = take (min r count) (drop (length log - r) log)" "logs' = log # logs" "r' = r - min r count"
      using 2(3) by (auto simp: Let_def)
    have "length log - (r - min r count) = length log - r + min r count" using 2(2) True by auto
    then have "drop (length log - r') log = drop (min r count) (drop (length log - r) log)" by (simp add: o add.commute)
    then have "out @ drop (length log - r') log = drop (length log - r) log" unfolding o(1) by (simp only: append_take_drop_id)
    then show ?thesis using True 2(2) o by auto
  next
    case False
    show ?thesis
    proof (cases logs)
      case Nil
      then show ?thesis using False 2(3) by auto
    next
      case (Cons log' rest)
      then show ?thesis using 2(1) [OF False, of log' rest] 2(3) False by simp
    qed
  qed
qed auto

section \<open>Reading what was encoded\<close>

lemma and_127: "and x 127 = x mod (128::int)"
  using take_bit_eq_mask [of 7 x] by (simp add: take_bit_eq_mod mask_eq_exp_minus_1)

lemma and_63: "and x 63 = x mod (64::int)"
  using take_bit_eq_mask [of 6 x] by (simp add: take_bit_eq_mod mask_eq_exp_minus_1)

lemma or_disjoint:
  assumes "0 \<le> x" "x < 2 ^ n"
  shows "or x (y * 2 ^ n) = x + y * (2::int) ^ n"
proof -
  have x: "x = take_bit n x" using assms by (simp add: take_bit_int_eq_self)
  have "and (take_bit n x) (push_bit n y) = 0" by (rule bit_eqI) (auto simp: bit_simps)
  then have "and x (y * 2 ^ n) = 0" using x by (simp add: push_bit_eq_mult)
  then show ?thesis by (rule disjunctive_add_eq_or [symmetric])
qed

lemma or_128: "0 \<le> x \<Longrightarrow> x < 128 \<Longrightarrow> or 128 x = 128 + (x::int)"
  using or_disjoint [of x 7 1] by (simp add: or.commute add.commute)

lemma or_64: "0 \<le> x \<Longrightarrow> x < 64 \<Longrightarrow> or 64 x = 64 + (x::int)"
  using or_disjoint [of x 6 1] by (simp add: or.commute add.commute)

lemma and_bits: "and x 128 = 0 \<longleftrightarrow> even (x div (128 :: int))" "and x 64 = 0 \<longleftrightarrow> even (x div (64 :: int))"
  using and_exp_eq_0_iff_not_bit [of x 7] and_exp_eq_0_iff_not_bit [of x 6] by (simp_all add: bit_iff_odd)

lemma uint_byte: "0 \<le> x \<Longrightarrow> x < 256 \<Longrightarrow> uint (word_of_int x :: byte) = x"
  by (simp add: uint_word_of_int)

definition last_part :: "bool \<Rightarrow> int \<Rightarrow> int" where
  "last_part negative v = (if negative then 64 + v else v)"

lemma last_part_bits:
  assumes "0 \<le> v" "v < 64"
  shows "and (last_part neg v) 128 = 0" "and (last_part neg v) 63 = v"
    "and (last_part neg v) 64 \<noteq> 0 \<longleftrightarrow> neg" "uint (word_of_int (if neg then or 64 v else v) :: byte) = last_part neg v"
    "last_part neg v \<le> 255"
proof -
  have "(64 + v) div 128 = 0" "v div 128 = 0" "(64 + v) div 64 = 1" "v div 64 = 0" "v mod 64 = v" "(64 + v) mod 64 = v"
    using assms by auto
  then show "and (last_part neg v) 128 = 0" "and (last_part neg v) 63 = v" "and (last_part neg v) 64 \<noteq> 0 \<longleftrightarrow> neg"
    by (simp_all add: last_part_def and_bits and_63)
  show "uint (word_of_int (if neg then or 64 v else v) :: byte) = last_part neg v" "last_part neg v \<le> 255"
    using assms by (simp_all add: last_part_def or_64 uint_byte)
qed

lemma more_part:
  assumes "0 \<le> v"
  shows "uint (word_of_int (or 128 (and v 127)) :: byte) = 128 + v mod 128"
    "and (128 + v mod 128) 128 \<noteq> 0" "and (128 + v mod 128) 127 = v mod 128" "128 + v mod 128 \<le> 255"
proof -
  have m: "0 \<le> v mod 128" "v mod 128 < 128" by simp_all
  then have "(128 + v mod 128) div 128 = 1" by auto
  then show "and (128 + v mod 128) 128 \<noteq> 0" by (simp add: and_bits)
  show "and (128 + v mod 128) 127 = v mod 128" by (simp add: and_127)
  show "128 + v mod 128 \<le> 255" using m by simp
  show "uint (word_of_int (or 128 (and v 127)) :: byte) = 128 + v mod 128"
    unfolding and_127 or_128 [OF m] using m by (intro uint_byte) auto
qed

lemma in_type_nonneg: "0 \<le> x \<Longrightarrow> in_type t x \<longleftrightarrow> x \<le> max_of t"
  using min_of_le [of x t] by (auto simp: in_type_def)

lemma seven_bits: "a * x + b * (x * 128) = (a + b * 128) * (x::int)"
  by (simp add: algebra_simps)

lemma encode_int_eq:
  assumes "in_type t v"
  shows "encode_int t v = Some (encode_loop (max_bytes t) (v < 0) (if v < 0 then - (v + 1) else v))"
proof (cases "v < 0")
  case True
  then have s: "is_signed t" using assms by (cases "is_signed t") (auto simp: in_type_def min_of_def)
  then have "in_type t (- (v + 1))" using True assms by (auto simp: in_type_def min_of_def max_of_def)
  then show ?thesis using True s by (simp add: encode_int_def is_negative_def Let_def)
qed (simp add: encode_int_def is_negative_def Let_def)

lemma max_bytes_fit: "digits t + 1 \<le> 7 * max_bytes t" "0 < max_bytes t"
  unfolding max_bytes_def by presburger+

lemma max_bytes_encode:
  assumes "0 \<le> v" "v \<le> max_of t"
  shows "v < 64 * 128 ^ max_bytes t"
proof -
  have "v < 2 ^ digits t" using assms by (simp add: max_of_def)
  also have "(2::int) ^ digits t \<le> 2 ^ (7 * max_bytes t)" using max_bytes_fit(1) [of t] by (intro power_increasing) auto
  also have "\<dots> = 128 ^ max_bytes t" by (simp add: power_mult)
  finally have "v < 128 ^ max_bytes t" .
  moreover have "(1::int) \<le> 128 ^ max_bytes t" by (rule one_le_power) simp
  ultimately show ?thesis by linarith
qed

context input_stream
begin

lemma read_loop_last:
  assumes "platform_type t" "0 \<le> v" "0 \<le> acc" "acc < 2 ^ (i * 7)" "v * 2 ^ (i * 7) \<le> max_of t"
    "v < 64" "64 \<le> max_of t" "left st = word_of_int (if neg then or 64 v else v) # rest"
  shows "\<exists>part st'. read_loop next_block t (Suc m) i part0 acc st = Inr (part, acc + v * 2 ^ (i * 7), st') \<and>
    (and part 64 \<noteq> 0 \<longleftrightarrow> neg) \<and> left st' = rest"
proof -
  obtain st' where st': "read_char next_block st = Some (word_of_int (if neg then or 64 v else v), st')" "left st' = rest"
    using read_char_Cons [OF assms(8)] by blast
  have v: "in_type t v" using assms(2,6,7) by (simp add: in_type_nonneg)
  have sh: "int_shift_left_with_overflow_detect t v (i * 7) = Some (Some (v * 2 ^ (i * 7)))"
    using assms(2,5) by (simp add: shift_left_exact [OF assms(1) v] exact_def in_type_nonneg)
  show ?thesis
    using st' last_part_bits [OF assms(2,6), of neg] sh cast_id [OF v] or_disjoint [OF assms(3,4), of v]
    by (simp add: Let_def)
qed

lemma read_loop_more:
  assumes "platform_type t" "0 \<le> v" "0 \<le> acc" "acc < 2 ^ (i * 7)" "v * 2 ^ (i * 7) \<le> max_of t"
    "127 \<le> max_of t" "left st = word_of_int (or 128 (and v 127)) # rest"
  shows "\<exists>st'. read_loop next_block t (Suc (Suc m)) i part0 acc st =
      read_loop next_block t (Suc m) (i + 1) (128 + v mod 128) (acc + v mod 128 * 2 ^ (i * 7)) st' \<and> left st' = rest"
proof -
  obtain st' where st': "read_char next_block st = Some (word_of_int (or 128 (and v 127)), st')" "left st' = rest"
    using read_char_Cons [OF assms(7)] by blast
  have v: "0 \<le> v mod 128" "v mod 128 < 128" "v mod 128 \<le> v" using assms(2) by (simp_all add: zmod_le_nonneg_dividend)
  have "v mod 128 * 2 ^ (i * 7) \<le> v * 2 ^ (i * 7)" using v(3) by (intro mult_right_mono) auto
  then have le: "v mod 128 * 2 ^ (i * 7) \<le> max_of t" "v mod 128 \<le> max_of t" using v(2) assms(5,6) by linarith+
  have "in_type t (v mod 128)" "in_type t (v mod 128 * 2 ^ (i * 7))"
    using le v(1) by (simp_all only: in_type_nonneg mult_nonneg_nonneg zero_le_power zero_le_numeral)
  then have "cast t (v mod 128) = v mod 128" "cast t (push_bit (i * 7) (v mod 128)) = v mod 128 * 2 ^ (i * 7)"
    by (simp_all add: push_bit_eq_mult)
  then show ?thesis
    unfolding read_loop.simps(2) [of next_block t "Suc m"]
    using st' more_part [OF assms(2)] or_disjoint [OF assms(3,4), of "v mod 128"]
    by (intro exI [of _ st']) (simp add: Let_def del: read_loop.simps)
qed

lemma read_loop_encoded:
  assumes "platform_type t" "0 \<le> v" "0 \<le> acc" "acc < 2 ^ (i * 7)" "v * 2 ^ (i * 7) \<le> max_of t"
    "v < 64 * 128 ^ n" "digits t + 1 \<le> 7 * (m + i)" "0 < m" "127 \<le> max_of t"
    "left st = encode_loop n neg v @ rest"
  shows "\<exists>part st'. read_loop next_block t m i part0 acc st = Inr (part, acc + v * 2 ^ (i * 7), st') \<and>
    (and part 64 \<noteq> 0 \<longleftrightarrow> neg) \<and> left st' = rest"
  using assms(2-8,10)
proof (induction n arbitrary: m i v acc st part0)
  case 0
  note prems = 0
  then obtain k where "m = Suc k" by (cases m) auto
  then show ?case using read_loop_last [OF assms(1) prems(1-4)] prems(5,8) assms(9) by simp
next
  case (Suc n)
  then obtain k where k: "m = Suc k" by (cases m) auto
  show ?case
  proof (cases "v < 64")
    case True
    then have "drop_bit 6 v = 0" using Suc(2) by (simp add: drop_bit_eq_div)
    then show ?thesis using read_loop_last [OF assms(1) Suc(2-5) True] Suc(9) assms(9) k by simp
  next
    case False
    have d: "drop_bit 6 v \<noteq> 0" "drop_bit 7 v = v div 128" using False by (simp_all add: drop_bit_eq_div)
    have l: "left st = word_of_int (or 128 (and v 127)) # encode_loop n neg (v div 128) @ rest"
      using Suc(9) d by simp
    have "2 ^ (6 + i * 7) \<le> max_of t"
    proof -
      have "64 * 2 ^ (i * 7) \<le> v * 2 ^ (i * 7)" using False by (intro mult_right_mono) auto
      then have "64 * 2 ^ (i * 7) \<le> max_of t" using Suc(5) by linarith
      then show ?thesis by (simp add: power_add)
    qed
    then have "(2::int) ^ (6 + i * 7) < 2 ^ digits t" by (simp add: max_of_def)
    then have "6 + i * 7 < digits t" by (rule power_less_imp_less_exp [rotated]) simp
    then obtain k' where k': "k = Suc k'" using Suc(7) k by (cases k) auto
    obtain st' where st': "read_loop next_block t (Suc (Suc k')) i part0 acc st =
        read_loop next_block t (Suc k') (i + 1) (128 + v mod 128) (acc + v mod 128 * 2 ^ (i * 7)) st'"
      "left st' = encode_loop n neg (v div 128) @ rest"
      using read_loop_more [OF assms(1) Suc(2-5) assms(9) l] by blast
    have split: "v mod 128 * 2 ^ (i * 7) + v div 128 * 2 ^ ((i + 1) * 7) = v * (2::int) ^ (i * 7)"
    proof -
      have "v mod 128 * 2 ^ (i * 7) + v div 128 * 2 ^ ((i + 1) * 7) = (v mod 128 + v div 128 * 128) * (2::int) ^ (i * 7)"
      proof -
        have "(2::int) ^ ((i + 1) * 7) = 2 ^ (i * 7) * 128" by (simp add: power_add)
        then show ?thesis using seven_bits by (simp only:)
      qed
      then show ?thesis by (simp only: mod_div_mult_eq)
    qed
    have pos: "0 \<le> v mod 128 * (2::int) ^ (i * 7)" by simp
    have lt: "acc + v mod 128 * 2 ^ (i * 7) < 2 ^ ((i + 1) * 7)"
    proof -
      have "(v mod 128 + 1) * (2::int) ^ (i * 7) \<le> 128 * 2 ^ (i * 7)" by (intro mult_right_mono) auto
      moreover have "(v mod 128 + 1) * (2::int) ^ (i * 7) = v mod 128 * 2 ^ (i * 7) + 2 ^ (i * 7)"
        by (simp only: distrib_right mult_1)
      moreover have "(2::int) ^ ((i + 1) * 7) = 128 * 2 ^ (i * 7)" by (simp add: power_add)
      ultimately show ?thesis using Suc(4) by linarith
    qed
    have "\<exists>part st''. read_loop next_block t (Suc k') (i + 1) (128 + v mod 128) (acc + v mod 128 * 2 ^ (i * 7)) st' =
        Inr (part, acc + v mod 128 * 2 ^ (i * 7) + v div 128 * 2 ^ ((i + 1) * 7), st'') \<and>
        (and part 64 \<noteq> 0 \<longleftrightarrow> neg) \<and> left st'' = rest"
    proof (rule Suc.IH [OF _ _ lt])
      show "0 \<le> v div 128" using Suc(2) by (simp add: pos_imp_zdiv_nonneg_iff)
      show "0 \<le> acc + v mod 128 * 2 ^ (i * 7)" using Suc(3) pos by linarith
      show "v div 128 * 2 ^ ((i + 1) * 7) \<le> max_of t" using split pos Suc(5) by linarith
      show "v div 128 < 64 * 128 ^ n" using Suc(6) by (simp add: div_less_mult algebra_simps)
      show "digits t + 1 \<le> 7 * (Suc k' + (i + 1))" using Suc(7) k k' by simp
      show "left st' = encode_loop n neg (v div 128) @ rest" by (rule st'(2))
    qed simp
    then show ?thesis unfolding k k' st'(1) using split by (simp add: add.assoc)
  qed
qed

text \<open>
  The round trip: a value that is encoded from one type is read back as another one, if it is
  in the range of both. The negative values are read through their complement.
\<close>

lemma read_encoded:
  assumes "platform_type t" "7 \<le> digits t" "in_type t v" "in_type src v"
    "encode_int src v = Some bs" "left st = bs @ rest"
  shows "\<exists>st'. read_int next_block t st = Inr (v, st') \<and> left st' = rest"
proof -
  let ?w = "if v < 0 then - (v + 1) else v"
  have w: "0 \<le> ?w" "?w \<le> max_of t" "?w \<le> max_of src"
    using assms(3,4) by (auto simp: in_type_def min_of_def max_of_def split: if_splits)
  have "(128::int) \<le> 2 ^ digits t" using power_increasing [of 7 "digits t" "2 :: int"] assms(2) by simp
  then have big: "127 \<le> max_of t" by (simp add: max_of_def)
  have l: "left st = encode_loop (max_bytes src) (v < 0) ?w @ rest"
    using assms(5,6) encode_int_eq [OF assms(4)] by simp
  obtain part st' where r: "read_loop next_block t (max_bytes t) 0 0 0 st = Inr (part, ?w, st')"
    "and part 64 \<noteq> 0 \<longleftrightarrow> v < 0" "left st' = rest"
    using read_loop_encoded [OF assms(1) w(1) _ _ _ max_bytes_encode [OF w(1,3)] _ _ big l, of 0 0 "max_bytes t" 0]
      max_bytes_fit [of t] w(2) by auto
  show ?thesis
  proof (cases "v < 0")
    case True
    have m: "in_type t (- ?w)" using True assms(3) big by (auto simp: in_type_def)
    have "int_subtract_with_overflow_detect t int32_t (- ?w) 1 = exact t (- ?w - 1)"
      by (rule sub_exact [OF assms(1) _ m]) (auto simp: platform_type_def in_type_def min_of_def max_of_def)
    then have "int_subtract_with_overflow_detect t int32_t (cast t (- ?w)) 1 = Some v"
      using True assms(3) cast_id [OF m] by (simp add: exact_def)
    then show ?thesis using r True by (simp add: read_int_def)
  next
    case False
    then show ?thesis using r by (simp add: read_int_def)
  qed
qed

end

text \<open>An encoded integer has at most ten bytes, so it fits in what the encoder reserves for it.\<close>

lemma length_encode_loop: "length (encode_loop n neg v) \<le> Suc n"
  by (induction n arbitrary: v) auto

lemma length_encode_loop_bound: "0 \<le> v \<Longrightarrow> v < 64 * 128 ^ m \<Longrightarrow> length (encode_loop n neg v) \<le> Suc m"
proof (induction n arbitrary: v m)
  case (Suc n)
  show ?case
  proof (cases m)
    case 0
    then show ?thesis using Suc.prems by (simp add: drop_bit_eq_div)
  next
    case (Suc k)
    have "v div 128 < 64 * 128 ^ k" using Suc.prems Suc by (simp add: div_less_mult algebra_simps)
    then show ?thesis using Suc.IH [of "v div 128" k] Suc.prems Suc
      by (simp add: drop_bit_eq_div pos_imp_zdiv_nonneg_iff)
  qed
qed simp

lemma encode_loop_short: "0 < n \<Longrightarrow> drop_bit 6 v = 0 \<Longrightarrow> encode_loop n neg v = [word_of_int (if neg then or 64 v else v)]"
  by (cases n) auto

section \<open>Properties\<close>

text \<open>
  C10. An integer that is encoded from one type is decoded as any other type whose range it is
  in, wherever the blocks of the stream break, and the decoder consumes exactly the bytes of it.
\<close>

theorem integer_round_trip:
  assumes "platform_type t" "7 \<le> digits t" "in_type t v" "in_type src v"
  shows "\<exists>bs. encode_int src v = Some bs \<and> length bs \<le> Suc (max_bytes src) \<and>
    (\<forall>blocks rest. concat blocks = bs @ rest \<longrightarrow>
      (\<exists>st. read_int multi_next_block t ([], blocks) = Inr (v, st) \<and> fst st @ concat (snd st) = rest))"
proof -
  obtain bs where bs: "encode_int src v = Some bs" "length bs \<le> Suc (max_bytes src)"
    using encode_int_eq [OF assms(4)] length_encode_loop by blast
  moreover have "\<exists>st. read_int multi_next_block t ([], blocks) = Inr (v, st) \<and> fst st @ concat (snd st) = rest"
    if "concat blocks = bs @ rest" for blocks rest
    using multi.read_encoded [OF assms bs(1), of "([], blocks)" rest] that by (simp add: multi.left_def)
  ultimately show ?thesis by blast
qed

theorem integer_round_trip_witness:
  "\<exists>bs. encode_int int64_t (- 300) = Some bs \<and>
    (\<exists>st. read_int multi_next_block int32_t ([], [[], bs, [9]]) = Inr (- 300, st) \<and> fst st @ concat (snd st) = [9])"
proof -
  have h: "platform_type int32_t" "7 \<le> digits int32_t" "in_type int32_t (- 300)" "in_type int64_t (- 300)"
    by (simp_all add: platform_type_def in_type_def min_of_def max_of_def)
  show ?thesis using integer_round_trip [OF h] by fastforce
qed

text \<open>
  Contrary to the comment above \<open>encode_int\<close>, decoding does not fail for every value outside
  the range of the destination type: an encoded negative number is decoded as a large unsigned
  one.
\<close>

theorem negative_decodes_as_unsigned:
  "\<exists>bs. encode_int int64_t (- 2) = Some bs \<and> \<not> in_type uint64_t (- 2) \<and>
    read_int simple_next_block uint64_t ([], bs) = Inr (2 ^ 64 - 2, ([], []))"
proof -
  have "in_type int64_t (- 2)" by (simp add: in_type_def min_of_def max_of_def)
  from encode_int_eq [OF this] have e: "encode_int int64_t (- 2) = Some [65]"
    by (simp add: encode_loop_short drop_bit_eq_div max_bytes_fit)
  have "\<not> in_type uint64_t (- 2)" by (simp add: in_type_def min_of_def max_of_def)
  moreover have "read_int simple_next_block uint64_t ([], [65]) = Inr (2 ^ 64 - 2, ([], []))"
    by code_simp
  ultimately show ?thesis using e by blast
qed

end
