(* ===== verification/Buffer.thy ===== *)
theory Buffer
  imports SafeInt
begin

text \<open>
  \<open>util::Buffer\<close> and \<open>util::AppendBuffer\<close> (\<open>include/core/realm/util/buffer.hpp\<close>): memory that is
  reallocated in steps of growth factor 1.5, with the overflow checks of \<open>SafeInt\<close>. A
  buffer is the list of its elements, its size the length of the list; \<open>d\<close> is the value of new
  memory. \<open>BufferSizeOverflow\<close> is the only error; allocation failure is not modelled.
\<close>

section \<open>Buffer\<close>

datatype buffer_error = BufferSizeOverflow

type_synonym 'a buffer = "'a list"

abbreviation size_max :: nat where
  "size_max \<equiv> 2 ^ 64 - 1"

definition buffer_new :: "'a \<Rightarrow> nat \<Rightarrow> 'a buffer" where
  "buffer_new d initial_size = replicate initial_size d"

definition buffer_resize :: "'a \<Rightarrow> nat \<Rightarrow> nat \<Rightarrow> nat \<Rightarrow> nat \<Rightarrow> 'a buffer \<Rightarrow> 'a buffer" where
  "buffer_resize d new_size copy_begin copy_end copy_to b =
     (let new_data = replicate new_size d;
          copied = take (copy_end - copy_begin) (drop copy_begin b)
      in take copy_to new_data @ copied @ drop (copy_to + (copy_end - copy_begin)) new_data)"

text \<open>The new size that \<open>reserve\<close> allocates.\<close>

definition grown_capacity :: "nat \<Rightarrow> nat \<Rightarrow> nat option" where
  "grown_capacity current min_capacity = do {
     product \<leftarrow> int_multiply_with_overflow_detect uint64_t int32_t (int current) 3;
     let new_capacity = (case product of None \<Rightarrow> size_max | Some n \<Rightarrow> nat n);
     let new_capacity = new_capacity div 2;
     Some (if new_capacity < min_capacity then min_capacity else new_capacity)
   }"

definition buffer_reserve :: "'a \<Rightarrow> nat \<Rightarrow> nat \<Rightarrow> 'a buffer \<Rightarrow> 'a buffer option" where
  "buffer_reserve d used_size min_capacity b =
     (let current_capacity = length b in
      if min_capacity \<le> current_capacity then Some b
      else map_option (\<lambda>n. buffer_resize d n 0 used_size 0 b) (grown_capacity current_capacity min_capacity))"

definition buffer_reserve_extra :: "'a \<Rightarrow> nat \<Rightarrow> nat \<Rightarrow> 'a buffer \<Rightarrow> (buffer_error + 'a buffer) option" where
  "buffer_reserve_extra d used_size min_extra_capacity b =
     (case int_add_with_overflow_detect uint64_t uint64_t (int used_size) (int min_extra_capacity) of
        None \<Rightarrow> Some (Inl BufferSizeOverflow)
      | Some min_capacity \<Rightarrow> map_option Inr (buffer_reserve d used_size (nat min_capacity) b))"

definition safe_copy :: "'a list \<Rightarrow> nat \<Rightarrow> 'a buffer \<Rightarrow> 'a buffer" where
  "safe_copy data at b = take at b @ data @ drop (at + length data) b"

section \<open>AppendBuffer\<close>

record 'a append_buffer =
  ab_buffer :: "'a buffer"
  ab_size :: nat

definition ab_append :: "'a \<Rightarrow> 'a list \<Rightarrow> 'a append_buffer \<Rightarrow> (buffer_error + 'a append_buffer) option" where
  "ab_append d data a = do {
     r \<leftarrow> buffer_reserve_extra d (ab_size a) (length data) (ab_buffer a);
     Some (case r of Inl e \<Rightarrow> Inl e
       | Inr b \<Rightarrow> Inr \<lparr>ab_buffer = safe_copy data (ab_size a) b, ab_size = ab_size a + length data\<rparr>)
   }"

definition ab_reserve :: "'a \<Rightarrow> nat \<Rightarrow> 'a append_buffer \<Rightarrow> 'a append_buffer option" where
  "ab_reserve d min_capacity a =
     map_option (\<lambda>b. a\<lparr>ab_buffer := b\<rparr>) (buffer_reserve d (ab_size a) min_capacity (ab_buffer a))"

definition ab_resize :: "'a \<Rightarrow> nat \<Rightarrow> 'a append_buffer \<Rightarrow> 'a append_buffer option" where
  "ab_resize d new_size a = map_option (\<lambda>a. a\<lparr>ab_size := new_size\<rparr>) (ab_reserve d new_size a)"

definition ab_clear :: "'a append_buffer \<Rightarrow> 'a append_buffer" where
  "ab_clear a = a\<lparr>ab_size := 0\<rparr>"

section \<open>Correctness\<close>

definition ab_ok :: "'a append_buffer \<Rightarrow> bool" where
  "ab_ok a \<longleftrightarrow> ab_size a \<le> length (ab_buffer a) \<and> length (ab_buffer a) \<le> size_max"

definition contents :: "'a append_buffer \<Rightarrow> 'a list" where
  "contents a = take (ab_size a) (ab_buffer a)"

lemma in_uint64 [simp]: "in_type uint64_t (int n) \<longleftrightarrow> n \<le> size_max"
  by (auto simp: in_type_def min_of_def max_of_def)

lemma platform_types [simp]:
  "platform_type uint64_t" "platform_type int64_t" "platform_type int32_t" "platform_type uint32_t"
  by (simp_all add: platform_type_def)

lemma grown_capacity_ok:
  assumes "n \<le> size_max"
  shows "\<exists>k. grown_capacity n m = Some k \<and> m \<le> k \<and> (m \<le> size_max \<longrightarrow> k \<le> size_max)"
proof -
  have "int_multiply_with_overflow_detect uint64_t int32_t (int n) 3 = Some (exact uint64_t (int n * 3))"
    by (rule multiply_exact) (use assms in \<open>auto simp: in_type_def min_of_def max_of_def\<close>)
  then show ?thesis
    using assms in_uint64 [of "n * 3"]
    by (auto simp: grown_capacity_def exact_def Let_def nat_mult_distrib)
qed

lemma buffer_reserve_ok:
  assumes "used \<le> length b" "length b \<le> size_max"
  shows "\<exists>b'. buffer_reserve d used m b = Some b' \<and> m \<le> length b' \<and> length b \<le> length b' \<and>
    (m \<le> size_max \<longrightarrow> length b' \<le> size_max) \<and> take used b' = take used b"
proof (cases "m \<le> length b")
  case False
  obtain k where k: "grown_capacity (length b) m = Some k" "m \<le> k" "m \<le> size_max \<longrightarrow> k \<le> size_max"
    using grown_capacity_ok [OF assms(2), of m] by blast
  then show ?thesis using False assms
    by (auto simp: buffer_reserve_def buffer_resize_def)
qed (use assms in \<open>auto simp: buffer_reserve_def\<close>)

lemma buffer_reserve_extra_ok:
  assumes "used \<le> length b" "length b \<le> size_max" "n \<le> size_max"
  shows "if used + n \<le> size_max
    then \<exists>b'. buffer_reserve_extra d used n b = Some (Inr b') \<and> used + n \<le> length b' \<and>
      length b' \<le> size_max \<and> take used b' = take used b
    else buffer_reserve_extra d used n b = Some (Inl BufferSizeOverflow)"
proof -
  have "int_add_with_overflow_detect uint64_t uint64_t (int used) (int n) = exact uint64_t (int (used + n))"
    using assms by (subst add_exact) auto
  then show ?thesis
    using buffer_reserve_ok [OF assms(1,2), of d "used + n"]
    by (auto simp: buffer_reserve_extra_def exact_def nat_add_distrib simp del: of_nat_add)
qed

lemma ab_append_ok:
  assumes "ab_ok a" "length data \<le> size_max"
  shows "if ab_size a + length data \<le> size_max
    then \<exists>a'. ab_append d data a = Some (Inr a') \<and> ab_ok a' \<and> contents a' = contents a @ data
    else ab_append d data a = Some (Inl BufferSizeOverflow)"
proof (cases "ab_size a + length data \<le> size_max")
  case True
  have a: "ab_size a \<le> length (ab_buffer a)" "length (ab_buffer a) \<le> size_max" using assms(1) by (auto simp: ab_ok_def)
  obtain b where b: "buffer_reserve_extra d (ab_size a) (length data) (ab_buffer a) = Some (Inr b)"
    "ab_size a + length data \<le> length b" "length b \<le> size_max" "take (ab_size a) b = take (ab_size a) (ab_buffer a)"
    using buffer_reserve_extra_ok [OF a assms(2), of d] True by auto
  then show ?thesis using True a(1) by (auto simp: ab_append_def ab_ok_def contents_def safe_copy_def min_absorb2)
next
  case False
  have a: "ab_size a \<le> length (ab_buffer a)" "length (ab_buffer a) \<le> size_max" using assms(1) by (auto simp: ab_ok_def)
  show ?thesis using buffer_reserve_extra_ok [OF a assms(2), of d] False by (simp add: ab_append_def)
qed

lemma ab_resize_ok:
  assumes "ab_ok a" "n \<le> size_max"
  shows "\<exists>a'. ab_resize d n a = Some a' \<and> ab_ok a' \<and> ab_size a' = n \<and>
    take (min n (ab_size a)) (contents a') = take (min n (ab_size a)) (contents a)"
proof -
  have a: "ab_size a \<le> length (ab_buffer a)" "length (ab_buffer a) \<le> size_max" using assms(1) by (auto simp: ab_ok_def)
  obtain b where b: "buffer_reserve d (ab_size a) n (ab_buffer a) = Some b" "n \<le> length b" "length b \<le> size_max"
    "take (ab_size a) b = take (ab_size a) (ab_buffer a)"
    using buffer_reserve_ok [OF a, of d n] assms(2) by auto
  have "take (min n (ab_size a)) b = take (min n (ab_size a)) (ab_buffer a)"
    using arg_cong [OF b(4), of "take (min n (ab_size a))"] by (simp add: min_def split: if_splits)
  then show ?thesis using b by (auto simp: ab_resize_def ab_reserve_def ab_ok_def contents_def)
qed

section \<open>Properties\<close>

text \<open>
  C9. An \<open>AppendBuffer\<close> is a list that grows at its end: appending adds the bytes behind the
  contents however the memory has to be reallocated, resizing keeps the common prefix, clearing
  empties it, and the only failure is a total size that \<open>size_t\<close> cannot hold.
\<close>

theorem append_buffer_refines_list:
  assumes "ab_ok a" "length data \<le> size_max" "n \<le> size_max"
  shows "(if ab_size a + length data \<le> size_max
      then \<exists>a'. ab_append d data a = Some (Inr a') \<and> ab_ok a' \<and> contents a' = contents a @ data
      else ab_append d data a = Some (Inl BufferSizeOverflow)) \<and>
    (\<exists>a'. ab_resize d n a = Some a' \<and> ab_ok a' \<and> length (contents a') = n \<and>
      take (min n (ab_size a)) (contents a') = take n (contents a)) \<and>
    ab_ok (ab_clear a) \<and> contents (ab_clear a) = []"
proof -
  obtain a' where a': "ab_resize d n a = Some a'" "ab_ok a'" "ab_size a' = n"
    "take (min n (ab_size a)) (contents a') = take (min n (ab_size a)) (contents a)"
    using ab_resize_ok [OF assms(1,3), of d] by blast
  have "length (contents a') = n" using a'(2,3) by (auto simp: contents_def ab_ok_def)
  moreover have "take (min n (ab_size a)) (contents a) = take n (contents a)"
    using assms(1) by (auto simp: contents_def ab_ok_def min_def)
  moreover have "ab_ok (ab_clear a)" "contents (ab_clear a) = []"
    using assms(1) by (simp_all add: ab_ok_def ab_clear_def contents_def)
  ultimately show ?thesis using ab_append_ok [OF assms(1,2), of d] a' by auto
qed

theorem append_buffer_refines_list_witness:
  "\<exists>a'. ab_append 0 [7, 8] \<lparr>ab_buffer = [1, 2, 3 :: nat], ab_size = 2\<rparr> = Some (Inr a') \<and> contents a' = [1, 2, 7, 8]"
  using append_buffer_refines_list [of "\<lparr>ab_buffer = [1, 2, 3 :: nat], ab_size = 2\<rparr>" "[7, 8]" 0 0]
  by (auto simp: ab_ok_def contents_def)

end
