(* ===== verification/TransactLog.thy ===== *)
theory TransactLog
  imports LogCodec Buffer
begin

text \<open>
  The transaction log (\<open>include/core/realm/impl/transact_log.hpp\<close>): its instructions, the
  \<open>TransactLogEncoder\<close> that appends them to a buffer, and the \<open>TransactLogParser\<close> that reads them
  from a stream and calls a handler. \<open>TransactLogEncoder::select_table\<close> and \<open>select_list\<close> are
  defined in a file that is not part of the repository, so they are parameters where the model
  needs them; what the parser expects of them is \<open>selects_ok\<close>.

  A \<open>size_t\<close> of an instruction is a \<open>nat\<close>, a key an \<open>int\<close>; \<open>instr_ok\<close> says that they are in the range of
  their types. The encoder's result is \<open>None\<close> when an assertion fails, and \<open>Inl\<close> when the
  buffer cannot grow.
\<close>

section \<open>Instructions\<close>

datatype opcode =
  instr_InsertGroupLevelTable
| instr_EraseGroupLevelTable
| instr_RenameGroupLevelTable
| instr_SelectTable
| instr_CreateObject
| instr_RemoveObject
| instr_Set
| instr_SetDefault
| instr_ClearTable
| instr_InsertColumn
| instr_EraseColumn
| instr_RenameColumn
| instr_SetLinkType
| instr_SelectList
| instr_ListInsert
| instr_ListSet
| instr_ListMove
| instr_ListSwap
| instr_ListErase
| instr_ListClear

fun opcode_value :: "opcode \<Rightarrow> int" where
  "opcode_value instr_InsertGroupLevelTable = 1"
| "opcode_value instr_EraseGroupLevelTable = 2"
| "opcode_value instr_RenameGroupLevelTable = 3"
| "opcode_value instr_SelectTable = 10"
| "opcode_value instr_CreateObject = 11"
| "opcode_value instr_RemoveObject = 12"
| "opcode_value instr_Set = 13"
| "opcode_value instr_SetDefault = 14"
| "opcode_value instr_ClearTable = 15"
| "opcode_value instr_InsertColumn = 20"
| "opcode_value instr_EraseColumn = 21"
| "opcode_value instr_RenameColumn = 22"
| "opcode_value instr_SetLinkType = 23"
| "opcode_value instr_SelectList = 30"
| "opcode_value instr_ListInsert = 31"
| "opcode_value instr_ListSet = 32"
| "opcode_value instr_ListMove = 33"
| "opcode_value instr_ListSwap = 34"
| "opcode_value instr_ListErase = 35"
| "opcode_value instr_ListClear = 36"

text \<open>The instruction of a byte that is read, \<open>None\<close> where the \<open>switch\<close> has no case.\<close>

definition opcode_of :: "byte \<Rightarrow> opcode option" where
  "opcode_of c =
     map_of (map (\<lambda>i. (word_of_int (opcode_value i), i))
       [instr_InsertGroupLevelTable, instr_EraseGroupLevelTable, instr_RenameGroupLevelTable, instr_SelectTable, instr_CreateObject, instr_RemoveObject,
        instr_Set, instr_SetDefault, instr_ClearTable, instr_InsertColumn,
        instr_EraseColumn, instr_RenameColumn, instr_SetLinkType,
        instr_SelectList, instr_ListInsert, instr_ListSet, instr_ListMove, instr_ListSwap, instr_ListErase, instr_ListClear]) c"

datatype instruction =
  Insert_table int
| Erase_table int
| Rename_table int
| Select_table int
| Create_object int
| Remove_object int
| Modify_object int int
| Clear_table nat
| Insert_column int
| Erase_column int
| Rename_column int
| Set_link_type int
| Select_list int int
| List_insert nat
| List_set nat
| List_move nat nat
| List_swap nat nat
| List_erase nat
| List_clear nat

section \<open>The encoder\<close>

text \<open>
  \<open>tl_mem\<close> is the memory of the \<open>TransactLogBufferStream\<close>, \<open>tl_begin\<close> and \<open>tl_end\<close> are the
  positions of \<open>m_transact_log_free_begin\<close> and \<open>m_transact_log_free_end\<close> in it.
\<close>

record tlog =
  tl_mem :: "byte buffer"
  tl_begin :: nat
  tl_end :: nat

type_synonym tlog_result = "(buffer_error + tlog) option"

definition tlog_new :: tlog where
  "tlog_new = \<lparr>tl_mem = [], tl_begin = 0, tl_end = 0\<rparr>"

definition transact_log_reserve :: "nat \<Rightarrow> tlog \<Rightarrow> tlog_result" where
  "transact_log_reserve n t = do {
     realm_assert (tl_begin t \<le> length (tl_mem t));
     let used_size = tl_begin t;
     r \<leftarrow> buffer_reserve_extra 0 used_size n (tl_mem t);
     Some (case r of Inl e \<Rightarrow> Inl e | Inr mem \<Rightarrow> Inr \<lparr>tl_mem = mem, tl_begin = used_size, tl_end = length mem\<rparr>)
   }"

definition transact_log_append :: "byte list \<Rightarrow> tlog \<Rightarrow> tlog_result" where
  "transact_log_append data t = do {
     r \<leftarrow> transact_log_reserve (length data) t;
     Some (case r of Inl e \<Rightarrow> Inl e
       | Inr t \<Rightarrow> Inr (t\<lparr>tl_mem := safe_copy data (tl_begin t) (tl_mem t), tl_begin := tl_begin t + length data\<rparr>))
   }"

definition set_buffer :: "nat \<Rightarrow> nat \<Rightarrow> tlog \<Rightarrow> tlog option" where
  "set_buffer free_begin free_end t = do {
     realm_assert (free_begin \<le> free_end);
     Some (t\<lparr>tl_begin := free_begin, tl_end := free_end\<rparr>)
   }"

definition tl_reserve :: "nat \<Rightarrow> tlog \<Rightarrow> tlog_result" where
  "tl_reserve n t = (if tl_end t - tl_begin t < n then transact_log_reserve n t else Some (Inr t))"

definition tl_advance :: "nat \<Rightarrow> tlog \<Rightarrow> tlog option" where
  "tl_advance ptr t = do {
     realm_assert (tl_begin t \<le> ptr);
     realm_assert (ptr \<le> tl_end t);
     Some (t\<lparr>tl_begin := ptr\<rparr>)
   }"

text \<open>What an instruction is made of, with the type each part is encoded from.\<close>

datatype item =
  Instr opcode
| Size nat
| Table_key int
| Col_key int
| Obj_key int

fun encode_item :: "item \<Rightarrow> byte list option" where
  "encode_item (Instr i) = encode_int int64_t (opcode_value i)"
| "encode_item (Size n) = encode_int uint64_t (int n)"
| "encode_item (Table_key k) = encode_int int64_t k"
| "encode_item (Col_key k) = encode_int int64_t k"
| "encode_item (Obj_key k) = encode_int int64_t k"

fun encode_list :: "item list \<Rightarrow> byte list option" where
  "encode_list [] = Some []"
| "encode_list (i # is) = do { a \<leftarrow> encode_item i; b \<leftarrow> encode_list is; Some (a @ b) }"

definition max_enc_bytes_per_int :: nat where
  "max_enc_bytes_per_int = 10"

fun max_size :: "item \<Rightarrow> nat" where
  "max_size (Instr i) = 1"
| "max_size _ = max_enc_bytes_per_int"

definition max_size_list :: "item list \<Rightarrow> nat" where
  "max_size_list is = sum_list (map max_size is)"

definition append_simple_instr :: "item list \<Rightarrow> tlog \<Rightarrow> tlog_result" where
  "append_simple_instr is t = do {
     let max_required_bytes = max_size_list is;
     r \<leftarrow> tl_reserve max_required_bytes t;
     case r of
       Inl e \<Rightarrow> Some (Inl e)
     | Inr t \<Rightarrow> do {
         bytes \<leftarrow> encode_list is;
         map_option Inr (tl_advance (tl_begin t + length bytes)
           (t\<lparr>tl_mem := safe_copy bytes (tl_begin t) (tl_mem t)\<rparr>))
       }
   }"

definition enc_insert_group_level_table :: "int \<Rightarrow> tlog \<Rightarrow> tlog_result" where
  "enc_insert_group_level_table table_key = append_simple_instr [Instr instr_InsertGroupLevelTable, Table_key table_key]"

definition enc_erase_group_level_table :: "int \<Rightarrow> tlog \<Rightarrow> tlog_result" where
  "enc_erase_group_level_table table_key = append_simple_instr [Instr instr_EraseGroupLevelTable, Table_key table_key]"

definition enc_rename_group_level_table :: "int \<Rightarrow> tlog \<Rightarrow> tlog_result" where
  "enc_rename_group_level_table table_key = append_simple_instr [Instr instr_RenameGroupLevelTable, Table_key table_key]"

definition enc_insert_column :: "int \<Rightarrow> tlog \<Rightarrow> tlog_result" where
  "enc_insert_column col_key = append_simple_instr [Instr instr_InsertColumn, Col_key col_key]"

definition enc_erase_column :: "int \<Rightarrow> tlog \<Rightarrow> tlog_result" where
  "enc_erase_column col_key = append_simple_instr [Instr instr_EraseColumn, Col_key col_key]"

definition enc_rename_column :: "int \<Rightarrow> tlog \<Rightarrow> tlog_result" where
  "enc_rename_column col_key = append_simple_instr [Instr instr_RenameColumn, Col_key col_key]"

definition enc_modify_object :: "int \<Rightarrow> int \<Rightarrow> tlog \<Rightarrow> tlog_result" where
  "enc_modify_object col_key key = append_simple_instr [Instr instr_Set, Col_key col_key, Obj_key key]"

definition enc_list_set :: "nat \<Rightarrow> tlog \<Rightarrow> tlog_result" where
  "enc_list_set list_ndx = append_simple_instr [Instr instr_ListSet, Size list_ndx]"

definition enc_list_insert :: "nat \<Rightarrow> tlog \<Rightarrow> tlog_result" where
  "enc_list_insert list_ndx = append_simple_instr [Instr instr_ListInsert, Size list_ndx]"

definition enc_create_object :: "int \<Rightarrow> tlog \<Rightarrow> tlog_result" where
  "enc_create_object key = append_simple_instr [Instr instr_CreateObject, Obj_key key]"

definition enc_remove_object :: "int \<Rightarrow> tlog \<Rightarrow> tlog_result" where
  "enc_remove_object key = append_simple_instr [Instr instr_RemoveObject, Obj_key key]"

definition enc_set_link_type :: "int \<Rightarrow> tlog \<Rightarrow> tlog_result" where
  "enc_set_link_type col_key = append_simple_instr [Instr instr_SetLinkType, Col_key col_key]"

definition enc_clear_table :: "nat \<Rightarrow> tlog \<Rightarrow> tlog_result" where
  "enc_clear_table old_size = append_simple_instr [Instr instr_ClearTable, Size old_size]"

definition enc_list_move :: "nat \<Rightarrow> nat \<Rightarrow> tlog \<Rightarrow> tlog_result" where
  "enc_list_move from_link_ndx to_link_ndx t = do {
     realm_assert (from_link_ndx \<noteq> to_link_ndx);
     append_simple_instr [Instr instr_ListMove, Size from_link_ndx, Size to_link_ndx] t
   }"

definition enc_list_swap :: "nat \<Rightarrow> nat \<Rightarrow> tlog \<Rightarrow> tlog_result" where
  "enc_list_swap link1_ndx link2_ndx = append_simple_instr [Instr instr_ListSwap, Size link1_ndx, Size link2_ndx]"

definition enc_list_erase :: "nat \<Rightarrow> tlog \<Rightarrow> tlog_result" where
  "enc_list_erase list_ndx = append_simple_instr [Instr instr_ListErase, Size list_ndx]"

definition enc_list_clear :: "nat \<Rightarrow> tlog \<Rightarrow> tlog_result" where
  "enc_list_clear old_list_size = append_simple_instr [Instr instr_ListClear, Size old_list_size]"

text \<open>The handler interface: the encoder is itself a handler of instructions.\<close>

fun encode_instr :: "(int \<Rightarrow> tlog \<Rightarrow> tlog_result) \<Rightarrow> (int \<Rightarrow> int \<Rightarrow> tlog \<Rightarrow> tlog_result) \<Rightarrow> instruction \<Rightarrow>
    tlog \<Rightarrow> tlog_result" where
  "encode_instr sel_table sel_list (Select_table k) = sel_table k"
| "encode_instr sel_table sel_list (Select_list c k) = sel_list c k"
| "encode_instr sel_table sel_list (Insert_table k) = enc_insert_group_level_table k"
| "encode_instr sel_table sel_list (Erase_table k) = enc_erase_group_level_table k"
| "encode_instr sel_table sel_list (Rename_table k) = enc_rename_group_level_table k"
| "encode_instr sel_table sel_list (Create_object k) = enc_create_object k"
| "encode_instr sel_table sel_list (Remove_object k) = enc_remove_object k"
| "encode_instr sel_table sel_list (Modify_object c k) = enc_modify_object c k"
| "encode_instr sel_table sel_list (Clear_table n) = enc_clear_table n"
| "encode_instr sel_table sel_list (Insert_column c) = enc_insert_column c"
| "encode_instr sel_table sel_list (Erase_column c) = enc_erase_column c"
| "encode_instr sel_table sel_list (Rename_column c) = enc_rename_column c"
| "encode_instr sel_table sel_list (Set_link_type c) = enc_set_link_type c"
| "encode_instr sel_table sel_list (List_insert i) = enc_list_insert i"
| "encode_instr sel_table sel_list (List_set i) = enc_list_set i"
| "encode_instr sel_table sel_list (List_move i j) = enc_list_move i j"
| "encode_instr sel_table sel_list (List_swap i j) = enc_list_swap i j"
| "encode_instr sel_table sel_list (List_erase i) = enc_list_erase i"
| "encode_instr sel_table sel_list (List_clear n) = enc_list_clear n"

section \<open>The parser\<close>

type_synonym 'h handler = "instruction \<Rightarrow> 'h \<Rightarrow> 'h option"

text \<open>A handler function that returns false makes the parser throw.\<close>

definition call_handler :: "'h handler \<Rightarrow> instruction \<Rightarrow> 'h \<Rightarrow> 's input \<Rightarrow> ('h \<times> 's input) res" where
  "call_handler handler i h st = (case handler i h of None \<Rightarrow> Inl Bad_transact_log | Some h' \<Rightarrow> Inr (h', st))"

definition parse_one :: "('s \<Rightarrow> (byte list \<times> 's) option) \<Rightarrow> 'h handler \<Rightarrow> 's input \<Rightarrow> 'h \<Rightarrow> ('h \<times> 's input) res" where
  "parse_one nb handler st h =
     (case read_char nb st of
        None \<Rightarrow> Inl Bad_transact_log
      | Some (c, st) \<Rightarrow>
          let key1 = (\<lambda>t mk. res_bind (read_int nb t st) (\<lambda>(k, st). call_handler handler (mk k) h st));
              size1 = (\<lambda>mk. res_bind (read_int nb uint64_t st) (\<lambda>(n, st). call_handler handler (mk (nat n)) h st));
              key2 = (\<lambda>mk. res_bind (read_int nb int64_t st) (\<lambda>(a, st).
                res_bind (read_int nb int64_t st) (\<lambda>(b, st). call_handler handler (mk a b) h st)));
              size2 = (\<lambda>mk. res_bind (read_int nb uint64_t st) (\<lambda>(a, st).
                res_bind (read_int nb uint64_t st) (\<lambda>(b, st). call_handler handler (mk (nat a) (nat b)) h st)))
          in case opcode_of c of
            None \<Rightarrow> Inl Bad_transact_log
          | Some i \<Rightarrow> (case i of
              instr_Set \<Rightarrow> key2 Modify_object
            | instr_SetDefault \<Rightarrow> Inl Bad_transact_log
            | instr_ListSet \<Rightarrow> size1 List_set
            | instr_CreateObject \<Rightarrow> key1 int64_t Create_object
            | instr_RemoveObject \<Rightarrow> key1 int64_t Remove_object
            | instr_SelectTable \<Rightarrow>
                res_bind (read_int nb int32_t st) (\<lambda>(levels, st).
                  if levels \<noteq> 0 then Inl Assertion
                  else res_bind (read_int nb uint32_t st) (\<lambda>(k, st). call_handler handler (Select_table k) h st))
            | instr_ClearTable \<Rightarrow> size1 Clear_table
            | instr_ListInsert \<Rightarrow> size1 List_insert
            | instr_ListMove \<Rightarrow> size2 List_move
            | instr_ListSwap \<Rightarrow> size2 List_swap
            | instr_ListErase \<Rightarrow> size1 List_erase
            | instr_ListClear \<Rightarrow> size1 List_clear
            | instr_SelectList \<Rightarrow> key2 Select_list
            | instr_SetLinkType \<Rightarrow> key1 int64_t Set_link_type
            | instr_InsertColumn \<Rightarrow> key1 int64_t Insert_column
            | instr_EraseColumn \<Rightarrow> key1 int64_t Erase_column
            | instr_RenameColumn \<Rightarrow> key1 int64_t Rename_column
            | instr_InsertGroupLevelTable \<Rightarrow> key1 uint32_t Insert_table
            | instr_EraseGroupLevelTable \<Rightarrow> key1 uint32_t Erase_table
            | instr_RenameGroupLevelTable \<Rightarrow> key1 uint32_t Rename_table))"

partial_function (option) parse_loop :: "('s \<Rightarrow> (byte list \<times> 's) option) \<Rightarrow> 'h handler \<Rightarrow> 's input \<Rightarrow> 'h \<Rightarrow>
    'h res option" where
  "parse_loop nb handler st h =
     (case has_next nb st of
        None \<Rightarrow> Some (Inr h)
      | Some st \<Rightarrow> (case parse_one nb handler st h of
          Inl e \<Rightarrow> Some (Inl e)
        | Inr (h, st) \<Rightarrow> parse_loop nb handler st h))"

declare parse_loop.simps [code]

definition parse :: "('s \<Rightarrow> (byte list \<times> 's) option) \<Rightarrow> 'h handler \<Rightarrow> 's \<Rightarrow> 'h \<Rightarrow> 'h res option" where
  "parse nb handler stream h = parse_loop nb handler ([], stream) h"

text \<open>The overload for an \<open>InputStream\<close>, which is read through a buffer of 1024 bytes.\<close>

definition parse_input :: "('s \<Rightarrow> nat \<Rightarrow> byte list \<times> 's) \<Rightarrow> 'h handler \<Rightarrow> 's \<Rightarrow> 'h \<Rightarrow> 'h res option" where
  "parse_input read handler stream h = parse (adaptor_next_block read 1024) handler stream h"

end
