(* ===== verification/TransactRoundTrip.thy ===== *)
theory TransactRoundTrip
  imports TransactLog
begin

text \<open>
  What the encoder writes is what the parser reads: the bytes of every instruction fit in the
  space reserved for them, and the parser calls its handler with the instructions that were
  encoded, whatever the blocks are in which the stream delivers the bytes.
\<close>

section \<open>Well-formed instructions\<close>

fun item_ok :: "item \<Rightarrow> bool" where
  "item_ok (Instr i) = True"
| "item_ok (Size n) \<longleftrightarrow> n \<le> size_max"
| "item_ok (Table_key k) \<longleftrightarrow> in_type uint32_t k"
| "item_ok (Col_key k) \<longleftrightarrow> in_type int64_t k"
| "item_ok (Obj_key k) \<longleftrightarrow> in_type int64_t k"

text \<open>The parts of each instruction; the two selections as the parser reads them.\<close>

fun instr_items :: "instruction \<Rightarrow> item list" where
  "instr_items (Select_table k) = [Instr instr_SelectTable, Size 0, Table_key k]"
| "instr_items (Select_list c k) = [Instr instr_SelectList, Col_key c, Obj_key k]"
| "instr_items (Insert_table k) = [Instr instr_InsertGroupLevelTable, Table_key k]"
| "instr_items (Erase_table k) = [Instr instr_EraseGroupLevelTable, Table_key k]"
| "instr_items (Rename_table k) = [Instr instr_RenameGroupLevelTable, Table_key k]"
| "instr_items (Create_object k) = [Instr instr_CreateObject, Obj_key k]"
| "instr_items (Remove_object k) = [Instr instr_RemoveObject, Obj_key k]"
| "instr_items (Modify_object c k) = [Instr instr_Set, Col_key c, Obj_key k]"
| "instr_items (Clear_table n) = [Instr instr_ClearTable, Size n]"
| "instr_items (Insert_column c) = [Instr instr_InsertColumn, Col_key c]"
| "instr_items (Erase_column c) = [Instr instr_EraseColumn, Col_key c]"
| "instr_items (Rename_column c) = [Instr instr_RenameColumn, Col_key c]"
| "instr_items (Set_link_type c) = [Instr instr_SetLinkType, Col_key c]"
| "instr_items (List_insert i) = [Instr instr_ListInsert, Size i]"
| "instr_items (List_set i) = [Instr instr_ListSet, Size i]"
| "instr_items (List_move i j) = [Instr instr_ListMove, Size i, Size j]"
| "instr_items (List_swap i j) = [Instr instr_ListSwap, Size i, Size j]"
| "instr_items (List_erase i) = [Instr instr_ListErase, Size i]"
| "instr_items (List_clear n) = [Instr instr_ListClear, Size n]"

fun moves_apart :: "instruction \<Rightarrow> bool" where
  "moves_apart (List_move i j) \<longleftrightarrow> i \<noteq> j"
| "moves_apart _ = True"

definition instr_ok :: "instruction \<Rightarrow> bool" where
  "instr_ok i \<longleftrightarrow> list_all item_ok (instr_items i) \<and> moves_apart i"

definition selects_ok :: "(int \<Rightarrow> tlog \<Rightarrow> tlog_result) \<Rightarrow> (int \<Rightarrow> int \<Rightarrow> tlog \<Rightarrow> tlog_result) \<Rightarrow> bool" where
  "selects_ok sel_table sel_list \<longleftrightarrow>
     (\<forall>k. sel_table k = append_simple_instr [Instr instr_SelectTable, Size 0, Table_key k]) \<and>
     (\<forall>c k. sel_list c k = append_simple_instr [Instr instr_SelectList, Col_key c, Obj_key k])"

lemmas enc_defs = enc_insert_group_level_table_def enc_erase_group_level_table_def
  enc_rename_group_level_table_def enc_insert_column_def enc_erase_column_def enc_rename_column_def
  enc_modify_object_def enc_list_set_def enc_list_insert_def enc_create_object_def enc_remove_object_def
  enc_set_link_type_def enc_clear_table_def enc_list_move_def enc_list_swap_def enc_list_erase_def
  enc_list_clear_def

lemma encode_instr_items:
  assumes "selects_ok sel_table sel_list" "moves_apart i"
  shows "encode_instr sel_table sel_list i t = append_simple_instr (instr_items i) t"
  using assms by (cases i) (simp_all add: enc_defs selects_ok_def)

section \<open>The bytes of an instruction\<close>

lemma platform_keys: "in_type uint32_t k \<Longrightarrow> in_type int64_t k"
  by (auto simp: in_type_def min_of_def max_of_def)

lemma opcode_in_type [simp]: "in_type int64_t (opcode_value i)"
  by (cases i) (simp_all add: in_type_def min_of_def max_of_def)

lemma encode_opcode: "encode_int int64_t (opcode_value i) = Some [word_of_int (opcode_value i)]"
proof -
  have "max_bytes int64_t = Suc 9" by (simp add: max_bytes_def)
  moreover have v: "opcode_value i div 64 = 0" "0 \<le> opcode_value i" by (cases i; simp)+
  moreover have "encode_loop (Suc 9) False (opcode_value i) = [word_of_int (opcode_value i)]"
    by (subst encode_loop.simps(2)) (simp add: drop_bit_eq_div v)
  ultimately show ?thesis using encode_int_eq [OF opcode_in_type [of i]] by simp
qed

lemma opcode_of_value [simp]: "opcode_of (word_of_int (opcode_value i)) = Some i"
  by (cases i) (simp_all add: opcode_of_def)

lemma encode_int_length:
  assumes "in_type t v" "platform_type t"
  shows "\<exists>bs. encode_int t v = Some bs \<and> length bs \<le> max_enc_bytes_per_int"
proof -
  let ?w = "if v < 0 then - (v + 1) else v"
  have w: "0 \<le> ?w" "?w \<le> max_of t" using assms(1) by (auto simp: in_type_def min_of_def max_of_def split: if_splits)
  have "(2::int) ^ digits t \<le> 2 ^ 64" using assms(2) by (intro power_increasing) (auto simp: platform_type_def split: if_splits)
  then have "?w < 64 * 128 ^ 9" using w(2) by (simp add: max_of_def split: if_splits)
  then have "length (encode_loop (max_bytes t) (v < 0) ?w) \<le> 10"
    using length_encode_loop_bound [OF w(1), of 9 "max_bytes t" "v < 0"] by simp
  then show ?thesis by (simp add: encode_int_eq [OF assms(1)] max_enc_bytes_per_int_def)
qed

lemma encode_item_length:
  assumes "item_ok i"
  shows "\<exists>bs. encode_item i = Some bs \<and> length bs \<le> max_size i"
  using assms encode_int_length [of int64_t] encode_int_length [of uint64_t] platform_keys
  by (cases i) (auto simp: encode_opcode)

lemma encode_list_length:
  "list_all item_ok is \<Longrightarrow> \<exists>bs. encode_list is = Some bs \<and> length bs \<le> max_size_list is"
proof (induction "is")
  case (Cons i "is")
  obtain a where "encode_item i = Some a" "length a \<le> max_size i" using encode_item_length Cons.prems by auto
  moreover obtain b where "encode_list is = Some b" "length b \<le> max_size_list is" using Cons by auto
  ultimately show ?case by (simp add: max_size_list_def)
qed (simp add: max_size_list_def)

lemma encode_list_concat:
  "list_all item_ok is \<Longrightarrow> the (encode_list is) = concat (map (\<lambda>i. the (encode_item i)) is)"
proof (induction "is")
  case (Cons i "is")
  then show ?case using encode_item_length [of i] encode_list_length [of "is"] by auto
qed simp

section \<open>Appending\<close>

definition tlog_ok :: "tlog \<Rightarrow> bool" where
  "tlog_ok t \<longleftrightarrow> tl_begin t \<le> tl_end t \<and> tl_end t \<le> length (tl_mem t) \<and> length (tl_mem t) \<le> size_max"

definition written :: "tlog \<Rightarrow> byte list" where
  "written t = take (tl_begin t) (tl_mem t)"

lemma tlog_new_ok: "tlog_ok tlog_new" "written tlog_new = []"
  by (simp_all add: tlog_ok_def tlog_new_def written_def)

lemma tl_reserve_ok:
  assumes "tlog_ok t" "tl_begin t + n \<le> size_max"
  shows "\<exists>t'. tl_reserve n t = Some (Inr t') \<and> tlog_ok t' \<and> tl_begin t' = tl_begin t \<and>
    tl_begin t + n \<le> tl_end t' \<and> written t' = written t"
proof (cases "tl_end t - tl_begin t < n")
  case True
  have l: "tl_begin t \<le> length (tl_mem t)" "length (tl_mem t) \<le> size_max" using assms(1) by (auto simp: tlog_ok_def)
  have n: "n \<le> size_max" using assms(2) by simp
  obtain m where m: "buffer_reserve_extra 0 (tl_begin t) n (tl_mem t) = Some (Inr m)"
    "tl_begin t + n \<le> length m" "length m \<le> size_max" "take (tl_begin t) m = take (tl_begin t) (tl_mem t)"
    using buffer_reserve_extra_ok [OF l n, of 0] assms(2) by auto
  then show ?thesis using True l(1)
    by (auto simp: tl_reserve_def transact_log_reserve_def tlog_ok_def written_def)
next
  case False
  then show ?thesis using assms by (auto simp: tl_reserve_def tlog_ok_def)
qed

lemma append_simple_instr_ok:
  assumes "tlog_ok t" "list_all item_ok is" "tl_begin t + max_size_list is \<le> size_max"
  shows "\<exists>bs t'. encode_list is = Some bs \<and> append_simple_instr is t = Some (Inr t') \<and> tlog_ok t' \<and>
    written t' = written t @ bs \<and> tl_begin t' = tl_begin t + length bs"
proof -
  obtain t1 where t1: "tl_reserve (max_size_list is) t = Some (Inr t1)" "tlog_ok t1" "tl_begin t1 = tl_begin t"
    "tl_begin t + max_size_list is \<le> tl_end t1" "written t1 = written t"
    using tl_reserve_ok [OF assms(1,3)] by blast
  obtain bs where bs: "encode_list is = Some bs" "length bs \<le> max_size_list is" using encode_list_length [OF assms(2)] by blast
  let ?t = "t1\<lparr>tl_mem := safe_copy bs (tl_begin t1) (tl_mem t1), tl_begin := tl_begin t1 + length bs\<rparr>"
  have fit: "tl_begin t1 + length bs \<le> tl_end t1" using t1(3,4) bs(2) by simp
  then have "append_simple_instr is t = Some (Inr ?t)"
    using t1(1) bs by (simp add: append_simple_instr_def tl_advance_def)
  moreover have "tlog_ok ?t" using t1(2) fit by (auto simp: tlog_ok_def safe_copy_def)
  moreover have "written ?t = written t @ bs"
    using assms(1) t1(2,3,5) fit by (auto simp: written_def safe_copy_def tlog_ok_def min_absorb2)
  ultimately show ?thesis using bs(1) t1(3) by fastforce
qed

fun encode_instrs :: "(int \<Rightarrow> tlog \<Rightarrow> tlog_result) \<Rightarrow> (int \<Rightarrow> int \<Rightarrow> tlog \<Rightarrow> tlog_result) \<Rightarrow> instruction list \<Rightarrow>
    tlog \<Rightarrow> tlog_result" where
  "encode_instrs sel_table sel_list [] t = Some (Inr t)"
| "encode_instrs sel_table sel_list (i # is) t = do {
     r \<leftarrow> encode_instr sel_table sel_list i t;
     case r of Inl e \<Rightarrow> Some (Inl e) | Inr t \<Rightarrow> encode_instrs sel_table sel_list is t
   }"

fun bytes_of :: "instruction list \<Rightarrow> byte list" where
  "bytes_of [] = []"
| "bytes_of (i # is) = the (encode_list (instr_items i)) @ bytes_of is"

lemma max_size_instr: "max_size_list (instr_items i) \<le> 21"
  by (cases i) (simp_all add: max_size_list_def max_enc_bytes_per_int_def)

lemma encode_instrs_ok:
  assumes "selects_ok sel_table sel_list" "tlog_ok t" "list_all instr_ok is"
    "tl_begin t + 21 * length is \<le> size_max"
  shows "\<exists>t'. encode_instrs sel_table sel_list is t = Some (Inr t') \<and> tlog_ok t' \<and>
    written t' = written t @ bytes_of is \<and> tl_begin t' \<le> tl_begin t + 21 * length is"
  using assms(2-)
proof (induction "is" arbitrary: t)
  case (Cons i "is")
  have i: "list_all item_ok (instr_items i)" "moves_apart i" using Cons.prems(2) by (auto simp: instr_ok_def)
  obtain bs t1 where 1: "encode_list (instr_items i) = Some bs" "append_simple_instr (instr_items i) t = Some (Inr t1)"
    "tlog_ok t1" "written t1 = written t @ bs" "tl_begin t1 = tl_begin t + length bs"
    using append_simple_instr_ok [OF Cons.prems(1) i(1)] max_size_instr [of i] Cons.prems(3) by auto
  have "length bs \<le> 21" using encode_list_length [OF i(1)] 1(1) max_size_instr [of i] by auto
  then obtain t2 where "encode_instrs sel_table sel_list is t1 = Some (Inr t2)" "tlog_ok t2"
    "written t2 = written t1 @ bytes_of is" "tl_begin t2 \<le> tl_begin t1 + 21 * length is"
    using Cons.IH [OF 1(3)] Cons.prems(2,3) 1(5) by auto
  then show ?case
    using 1 encode_instr_items [OF assms(1) i(2)] \<open>length bs \<le> 21\<close> by auto
qed simp

section \<open>Parsing\<close>

fun run_handler :: "'h handler \<Rightarrow> instruction list \<Rightarrow> 'h \<Rightarrow> 'h option" where
  "run_handler handler [] h = Some h"
| "run_handler handler (i # is) h = do { h \<leftarrow> handler i h; run_handler handler is h }"

lemma bytes_of_Cons:
  assumes "instr_ok i"
  shows "bytes_of (i # is) \<noteq> []"
proof -
  obtain o1 items where i: "instr_items i = Instr o1 # items" by (cases i) auto
  then have "list_all item_ok items" using assms by (simp add: instr_ok_def)
  then show ?thesis using i encode_list_length [of items] by (auto simp: encode_opcode)
qed

definition handled :: "'h option \<Rightarrow> 'h res" where
  "handled r = (case r of None \<Rightarrow> Inl Bad_transact_log | Some h \<Rightarrow> Inr h)"

context input_stream
begin

lemma read_opcode:
  assumes "left st = word_of_int (opcode_value i) # rest"
  obtains st' where "read_char next_block st = Some (word_of_int (opcode_value i), st')" "left st' = rest"
  using read_char_Cons [OF assms] by blast

lemma read_key:
  assumes "in_type int64_t k" "left st = the (encode_int int64_t k) @ rest"
  obtains st' where "read_int next_block int64_t st = Inr (k, st')" "left st' = rest"
proof -
  obtain bs where "encode_int int64_t k = Some bs" using encode_int_eq [OF assms(1)] by blast
  then show thesis using read_encoded [of int64_t k int64_t bs st rest] assms that by auto
qed

lemma read_table_key:
  assumes "in_type uint32_t k" "left st = the (encode_int int64_t k) @ rest"
  obtains st' where "read_int next_block uint32_t st = Inr (k, st')" "left st' = rest"
proof -
  have k: "in_type int64_t k" using assms(1) by (rule platform_keys)
  obtain bs where "encode_int int64_t k = Some bs" using encode_int_eq [OF k] by blast
  then show thesis using read_encoded [of uint32_t k int64_t bs st rest] assms k that by auto
qed

lemma read_size:
  assumes "n \<le> size_max" "left st = the (encode_int uint64_t (int n)) @ rest"
  obtains st' where "read_int next_block uint64_t st = Inr (int n, st')" "left st' = rest"
proof -
  have k: "in_type uint64_t (int n)" using assms(1) by simp
  obtain bs where "encode_int uint64_t (int n) = Some bs" using encode_int_eq [OF k] by blast
  then show thesis using read_encoded [of uint64_t "int n" uint64_t bs st rest] assms k that by auto
qed

lemma read_levels:
  assumes "left st = the (encode_int uint64_t 0) @ rest"
  obtains st' where "read_int next_block int32_t st = Inr (0, st')" "left st' = rest"
proof -
  have k: "in_type uint64_t 0" "in_type int32_t 0" by (rule in_type_zero)+
  obtain bs where "encode_int uint64_t 0 = Some bs" using encode_int_eq [OF k(1)] by blast
  then show thesis using read_encoded [of int32_t 0 uint64_t bs st rest] assms k that by auto
qed

text \<open>One instruction: the handler is called with it, on the input that remains.\<close>

lemma parse_key:
  assumes "in_type int64_t k" "left st = the (encode_int int64_t k) @ rest"
  shows "\<exists>st'. left st' = rest \<and>
    res_bind (read_int next_block int64_t st) (\<lambda>(k, st). call_handler handler (mk k) h st) = call_handler handler (mk k) h st'"
  by (rule read_key [OF assms]) (intro exI conjI, assumption, simp)

lemma parse_table_key:
  assumes "in_type uint32_t k" "left st = the (encode_int int64_t k) @ rest"
  shows "\<exists>st'. left st' = rest \<and>
    res_bind (read_int next_block uint32_t st) (\<lambda>(k, st). call_handler handler (mk k) h st) = call_handler handler (mk k) h st'"
  by (rule read_table_key [OF assms]) (intro exI conjI, assumption, simp)

lemma parse_size:
  assumes "n \<le> size_max" "left st = the (encode_int uint64_t (int n)) @ rest"
  shows "\<exists>st'. left st' = rest \<and>
    res_bind (read_int next_block uint64_t st) (\<lambda>(n, st). call_handler handler (mk (nat n)) h st) = call_handler handler (mk n) h st'"
  by (rule read_size [OF assms]) (intro exI conjI, assumption, simp)

lemma parse_keys:
  assumes "in_type int64_t k" "in_type int64_t l" "left st = the (encode_int int64_t k) @ the (encode_int int64_t l) @ rest"
  shows "\<exists>st'. left st' = rest \<and>
    res_bind (read_int next_block int64_t st) (\<lambda>(a, st).
      res_bind (read_int next_block int64_t st) (\<lambda>(b, st). call_handler handler (mk a b) h st)) = call_handler handler (mk k l) h st'"
  by (rule read_key [OF assms(1,3)], rule read_key [OF assms(2)], assumption) (intro exI conjI, assumption, simp)

lemma parse_sizes:
  assumes "m \<le> size_max" "n \<le> size_max"
    "left st = the (encode_int uint64_t (int m)) @ the (encode_int uint64_t (int n)) @ rest"
  shows "\<exists>st'. left st' = rest \<and>
    res_bind (read_int next_block uint64_t st) (\<lambda>(a, st).
      res_bind (read_int next_block uint64_t st) (\<lambda>(b, st). call_handler handler (mk (nat a) (nat b)) h st)) = call_handler handler (mk m n) h st'"
  by (rule read_size [OF assms(1,3)], rule read_size [OF assms(2)], assumption) (intro exI conjI, assumption, simp)

lemma parse_select:
  assumes "in_type uint32_t k" "left st = the (encode_int uint64_t 0) @ the (encode_int int64_t k) @ rest"
  shows "\<exists>st'. left st' = rest \<and>
    res_bind (read_int next_block int32_t st) (\<lambda>(levels, st). if levels \<noteq> 0 then Inl Assertion
      else res_bind (read_int next_block uint32_t st) (\<lambda>(k, st). call_handler handler (mk k) h st)) = call_handler handler (mk k) h st'"
  by (rule read_levels [OF assms(2)], rule read_table_key [OF assms(1)], assumption) (intro exI conjI, assumption, simp)

lemma parse_one_encoded:
  assumes "instr_ok i" "left st = the (encode_list (instr_items i)) @ rest"
  shows "\<exists>st'. left st' = rest \<and> parse_one next_block handler st h = call_handler handler i h st'"
proof -
  obtain o1 items where i: "instr_items i = Instr o1 # items" by (cases i) auto
  have ok: "list_all item_ok items" using assms(1) i by (simp add: instr_ok_def)
  have "left st = word_of_int (opcode_value o1) # the (encode_list items) @ rest"
    using assms(2) i encode_list_length [OF ok] by (auto simp: encode_opcode)
  then obtain st1 where st1: "read_char next_block st = Some (word_of_int (opcode_value o1), st1)"
    "left st1 = the (encode_list items) @ rest"
    using read_opcode by blast
  have l: "left st1 = concat (map (\<lambda>i. the (encode_item i)) items) @ rest"
    using st1(2) encode_list_concat [OF ok] by simp
  show ?thesis
    using i ok st1(1) l
    by (cases i) (auto simp: parse_one_def Let_def simp del: opcode_value.simps split_paired_Ex
      intro!: parse_key parse_keys parse_size parse_sizes parse_table_key parse_select)
qed

text \<open>All instructions, in order; a handler that returns false stops the parser with an error.\<close>

lemma parse_loop_encoded:
  "list_all instr_ok is \<Longrightarrow> left st = bytes_of is \<Longrightarrow>
    parse_loop next_block handler st h = Some (handled (run_handler handler is h))"
proof (induction "is" arbitrary: st h)
  case Nil
  then show ?case by (subst parse_loop.simps) (simp add: has_next_end handled_def)
next
  case (Cons i "is")
  have ok: "instr_ok i" using Cons.prems by simp
  obtain st1 where st1: "has_next next_block st = Some st1" "left st1 = the (encode_list (instr_items i)) @ bytes_of is"
    using has_next_left [of st] bytes_of_Cons [OF ok] Cons.prems(2) by auto
  obtain st2 where st2: "left st2 = bytes_of is" "parse_one next_block handler st1 h = call_handler handler i h st2"
    using parse_one_encoded [OF ok st1(2), of handler h] by blast
  have step: "parse_loop next_block handler st h =
      (case call_handler handler i h st2 of Inl e \<Rightarrow> Some (Inl e) | Inr (h, st) \<Rightarrow> parse_loop next_block handler st h)"
    by (subst parse_loop.simps) (simp add: st1(1) st2(2))
  show ?case
  proof (cases "handler i h")
    case None
    then show ?thesis by (simp add: step call_handler_def handled_def)
  next
    case (Some h2)
    then show ?thesis using Cons.IH [OF _ st2(1), of h2] Cons.prems(1) by (simp add: step call_handler_def)
  qed
qed

lemma parse_encoded:
  "list_all instr_ok is \<Longrightarrow> bytes stream = bytes_of is \<Longrightarrow>
    parse next_block handler stream h = Some (handled (run_handler handler is h))"
  unfolding parse_def by (rule parse_loop_encoded) (simp_all add: left_def)

text \<open>
  On every finite stream the parser returns, whatever the bytes are: each instruction takes at
  least one byte.
\<close>

lemma read_char_shrinks:
  "read_char next_block st = Some (c, st') \<Longrightarrow> left st = c # left st'"
  using read_char_Cons [of st] read_char_Nil [of st] by (cases "left st") fastforce+

lemma read_loop_shrinks:
  "read_loop next_block t n i part v st = Inr (p, w, st') \<Longrightarrow> length (left st') \<le> length (left st)"
proof (induction n arbitrary: i part v st)
  case (Suc n)
  obtain c st1 where c: "read_char next_block st = Some (c, st1)" using Suc.prems by (auto split: option.splits)
  then have l: "length (left st1) < length (left st)" using read_char_shrinks [OF c] by simp
  then show ?case
    using Suc.prems c by (auto simp: Let_def split: if_splits option.splits dest!: Suc.IH)
qed auto

lemma read_int_shrinks:
  "read_int next_block t st = Inr (v, st') \<Longrightarrow> length (left st') \<le> length (left st)"
  using read_loop_shrinks [of t "max_bytes t" 0 0 0 st]
  by (cases "read_loop next_block t (max_bytes t) 0 0 0 st") (auto simp: read_int_def split: if_splits option.splits)

lemma res_bind_Inr: "res_bind r f = Inr y \<longleftrightarrow> (\<exists>x. r = Inr x \<and> f x = Inr y)"
  by (cases r) auto

lemma parse_one_shrinks:
  assumes "parse_one next_block handler st h = Inr (h', st')"
  shows "length (left st') < length (left st)"
proof -
  obtain c st1 where c: "read_char next_block st = Some (c, st1)"
    using assms by (auto simp: parse_one_def split: option.splits)
  have "length (left st') \<le> length (left st1)"
    using assms c unfolding parse_one_def
    by (auto simp: Let_def res_bind_Inr call_handler_def dest!: read_int_shrinks
      split: option.splits opcode.splits if_splits)
  then show ?thesis using read_char_shrinks [OF c] by simp
qed

lemma parse_loop_terminates: "\<exists>r. parse_loop next_block handler st h = Some r"
proof (induction "length (left st)" arbitrary: st h rule: less_induct)
  case less
  show ?case
  proof (cases "has_next next_block st")
    case None
    then show ?thesis by (subst parse_loop.simps) simp
  next
    case (Some st1)
    have l: "left st1 = left st"
      using has_next_left [of st] has_next_end [of st] Some by (cases "left st = []") auto
    show ?thesis
    proof (cases "parse_one next_block handler st1 h")
      case (Inl e)
      then show ?thesis using Some by (subst parse_loop.simps) simp
    next
      case (Inr r)
      obtain h2 st2 where r: "r = (h2, st2)" by (cases r)
      then have "length (left st2) < length (left st)" using parse_one_shrinks Inr l by metis
      then have "\<exists>r. parse_loop next_block handler st2 h2 = Some r" by (rule less)
      then show ?thesis using Some Inr r by (subst parse_loop.simps) simp
    qed
  qed
qed

lemma parse_terminates: "\<exists>r. parse next_block handler stream h = Some r"
  unfolding parse_def by (rule parse_loop_terminates)

end

section \<open>Properties\<close>

text \<open>
  C11. Whatever instructions are encoded into a fresh log, the encoder neither asserts nor writes
  beyond what it reserved, and a parser that is given the log calls its handler with exactly
  these instructions in this order, whether the log is one block of memory, is split into blocks
  anywhere, or is read through the buffer of an input stream. When the handler refuses one the
  parser throws.
\<close>

theorem log_round_trip:
  assumes "selects_ok sel_table sel_list" "list_all instr_ok is" "21 * length is \<le> size_max"
  shows "\<exists>t. encode_instrs sel_table sel_list is tlog_new = Some (Inr t) \<and> tlog_ok t \<and>
    parse simple_next_block handler (written t) h = Some (handled (run_handler handler is h)) \<and>
    (\<forall>blocks. concat blocks = written t \<longrightarrow>
      parse multi_next_block handler blocks h = Some (handled (run_handler handler is h))) \<and>
    parse_input simple_read handler (written t) h = Some (handled (run_handler handler is h))"
proof -
  obtain t where t: "encode_instrs sel_table sel_list is tlog_new = Some (Inr t)" "tlog_ok t" "written t = bytes_of is"
    using encode_instrs_ok [OF assms(1) tlog_new_ok(1) assms(2)] assms(3) tlog_new_ok(2) by (auto simp: tlog_new_def)
  have "parse_input simple_read handler (written t) h = Some (handled (run_handler handler is h))"
    using adaptor.parse_encoded [OF assms(2), of "written t" 1023 handler h] t(3)
    by (simp add: parse_input_def)
  then show ?thesis
    using t simple.parse_encoded [OF assms(2) t(3)] multi.parse_encoded [OF assms(2)] by auto
qed

theorem log_round_trip_witness:
  "\<exists>t. encode_instrs (\<lambda>k. append_simple_instr [Instr instr_SelectTable, Size 0, Table_key k])
      (\<lambda>c k. append_simple_instr [Instr instr_SelectList, Col_key c, Obj_key k])
      [Select_table 3, Create_object (- 4), List_move 5 700] tlog_new = Some (Inr t) \<and>
    parse simple_next_block (\<lambda>i h. Some (h @ [i])) (written t) [] =
      Some (Inr [Select_table 3, Create_object (- 4), List_move 5 700])"
proof -
  have s: "selects_ok (\<lambda>k. append_simple_instr [Instr instr_SelectTable, Size 0, Table_key k])
      (\<lambda>c k. append_simple_instr [Instr instr_SelectList, Col_key c, Obj_key k])"
    by (simp add: selects_ok_def)
  have i: "list_all instr_ok [Select_table 3, Create_object (- 4), List_move 5 700]"
    by (simp add: instr_ok_def in_type_def min_of_def max_of_def)
  show ?thesis
    using log_round_trip [OF s i, of "\<lambda>i h. Some (h @ [i])" "[]"] by (auto simp: handled_def)
qed


end
