(* ===== verification/TransactReverse.thy ===== *)
theory TransactReverse
  imports TransactRoundTrip
begin

text \<open>
  Rolling back a transaction (\<open>TransactReverser\<close> and \<open>ReversedNoCopyInputStream\<close> of
  \<open>include/core/realm/impl/transact_log.hpp\<close>). The reverser is a handler of the parser: for every
  instruction it encodes the inverse one into a buffer of its own and remembers where its bytes
  are; the stream delivers these ranges in reverse order. A selection is only put into that order
  when the next one replaces it, so that in the reversed log it precedes what was done under it.
\<close>

section \<open>The reverser\<close>

type_synonym 'a tres = "(buffer_error + 'a) option"

definition tres_bind :: "('e + 'a) option \<Rightarrow> ('a \<Rightarrow> ('e + 'b) option) \<Rightarrow> ('e + 'b) option" where
  "tres_bind r f = (case r of None \<Rightarrow> None | Some (Inl e) \<Rightarrow> Some (Inl e) | Some (Inr x) \<Rightarrow> f x)"

lemma tres_bind_simps [simp]:
  "tres_bind None f = None" "tres_bind (Some (Inl e)) f = Some (Inl e)" "tres_bind (Some (Inr x)) f = f x"
  by (simp_all add: tres_bind_def)

record reverser =
  rv_log :: tlog
  rv_instrs :: "range list"
  rv_start :: nat
  rv_ts :: range
  rv_ls :: range

definition reverser_new :: reverser where
  "reverser_new = \<lparr>rv_log = tlog_new, rv_instrs = [], rv_start = 0, rv_ts = (0, 0), rv_ls = (0, 0)\<rparr>"

definition transact_log_size :: "reverser \<Rightarrow> nat" where
  "transact_log_size r = tl_begin (rv_log r)"

definition get_inst :: "reverser \<Rightarrow> range \<times> reverser" where
  "get_inst r = ((rv_start r, transact_log_size r), r\<lparr>rv_start := transact_log_size r\<rparr>)"

definition append_range :: "range \<Rightarrow> reverser \<Rightarrow> reverser" where
  "append_range instr r = r\<lparr>rv_instrs := rv_instrs r @ [instr]\<rparr>"

definition append_instruction :: "reverser \<Rightarrow> reverser" where
  "append_instruction r = (let (instr, r) = get_inst r in append_range instr r)"

text \<open>\<open>sync_select\<close> returns the pending range, which the code assigns through a reference.\<close>

definition sync_select :: "range \<Rightarrow> reverser \<Rightarrow> range \<times> reverser" where
  "sync_select pending r = (if fst pending \<noteq> snd pending then ((0, 0), append_range pending r) else (pending, r))"

definition sync_list :: "reverser \<Rightarrow> reverser" where
  "sync_list r = (let (pending, r) = sync_select (rv_ls r) r in r\<lparr>rv_ls := pending\<rparr>)"

definition sync_table :: "reverser \<Rightarrow> reverser" where
  "sync_table r = (let r = sync_list r; (pending, r) = sync_select (rv_ts r) r in r\<lparr>rv_ts := pending\<rparr>)"

text \<open>Encoding into the reverser's buffer, and encoding an instruction that is put into the order at once.\<close>

definition rv_encode :: "(tlog \<Rightarrow> tlog_result) \<Rightarrow> reverser \<Rightarrow> reverser tres" where
  "rv_encode enc r = tres_bind (enc (rv_log r)) (\<lambda>l. Some (Inr (r\<lparr>rv_log := l\<rparr>)))"

definition rv_emit :: "(tlog \<Rightarrow> tlog_result) \<Rightarrow> reverser \<Rightarrow> reverser tres" where
  "rv_emit enc r = tres_bind (rv_encode enc r) (\<lambda>r. Some (Inr (append_instruction r)))"

definition null_key :: int where
  "null_key = - 1"

definition rv_select_table :: "(int \<Rightarrow> tlog \<Rightarrow> tlog_result) \<Rightarrow> int \<Rightarrow> reverser \<Rightarrow> reverser tres" where
  "rv_select_table sel_table key r =
     tres_bind (rv_encode (sel_table key) (sync_table r))
       (\<lambda>r. let (instr, r) = get_inst r in Some (Inr (r\<lparr>rv_ts := instr\<rparr>)))"

definition rv_insert_group_level_table :: "int \<Rightarrow> reverser \<Rightarrow> reverser tres" where
  "rv_insert_group_level_table key r = rv_emit (enc_erase_group_level_table key) (sync_table r)"

definition rv_erase_group_level_table :: "int \<Rightarrow> reverser \<Rightarrow> reverser tres" where
  "rv_erase_group_level_table key r = rv_emit (enc_insert_group_level_table key) (sync_table r)"

definition rv_rename_group_level_table :: "int \<Rightarrow> reverser \<Rightarrow> reverser tres" where
  "rv_rename_group_level_table key r = Some (Inr (sync_table r))"

definition rv_create_object :: "int \<Rightarrow> reverser \<Rightarrow> reverser tres" where
  "rv_create_object key = rv_emit (enc_remove_object key)"

definition rv_remove_object :: "int \<Rightarrow> reverser \<Rightarrow> reverser tres" where
  "rv_remove_object key = rv_emit (enc_create_object key)"

definition rv_modify_object :: "int \<Rightarrow> int \<Rightarrow> reverser \<Rightarrow> reverser tres" where
  "rv_modify_object col_key key = rv_emit (enc_modify_object col_key key)"

definition rv_list_set :: "nat \<Rightarrow> reverser \<Rightarrow> reverser tres" where
  "rv_list_set ndx = rv_emit (enc_list_set ndx)"

definition rv_list_insert :: "nat \<Rightarrow> reverser \<Rightarrow> reverser tres" where
  "rv_list_insert ndx = rv_emit (enc_list_erase ndx)"

fun rv_clear_table :: "nat \<Rightarrow> reverser \<Rightarrow> reverser tres" where
  "rv_clear_table 0 r = Some (Inr r)"
| "rv_clear_table (Suc old_size) r = tres_bind (rv_emit (enc_create_object null_key) r) (rv_clear_table old_size)"

definition rv_set_link_type :: "int \<Rightarrow> reverser \<Rightarrow> reverser tres" where
  "rv_set_link_type key = rv_encode (enc_set_link_type key)"

definition rv_insert_column :: "int \<Rightarrow> reverser \<Rightarrow> reverser tres" where
  "rv_insert_column col_key = rv_emit (enc_erase_column col_key)"

definition rv_erase_column :: "int \<Rightarrow> reverser \<Rightarrow> reverser tres" where
  "rv_erase_column col_key = rv_emit (enc_insert_column col_key)"

definition rv_rename_column :: "int \<Rightarrow> reverser \<Rightarrow> reverser tres" where
  "rv_rename_column col_key = rv_encode (enc_rename_column col_key)"

definition rv_select_list :: "(int \<Rightarrow> int \<Rightarrow> tlog \<Rightarrow> tlog_result) \<Rightarrow> int \<Rightarrow> int \<Rightarrow> reverser \<Rightarrow> reverser tres" where
  "rv_select_list sel_list col_key key r =
     tres_bind (rv_encode (sel_list col_key key) (sync_list r))
       (\<lambda>r. let (instr, r) = get_inst r in Some (Inr (r\<lparr>rv_ls := instr\<rparr>)))"

definition rv_list_move :: "nat \<Rightarrow> nat \<Rightarrow> reverser \<Rightarrow> reverser tres" where
  "rv_list_move from_link_ndx to_link_ndx = rv_emit (enc_list_move from_link_ndx to_link_ndx)"

definition rv_list_swap :: "nat \<Rightarrow> nat \<Rightarrow> reverser \<Rightarrow> reverser tres" where
  "rv_list_swap link1_ndx link2_ndx = rv_emit (enc_list_swap link1_ndx link2_ndx)"

definition rv_list_erase :: "nat \<Rightarrow> reverser \<Rightarrow> reverser tres" where
  "rv_list_erase list_ndx = rv_emit (enc_list_insert list_ndx)"

fun rv_list_clear :: "nat \<Rightarrow> reverser \<Rightarrow> reverser tres" where
  "rv_list_clear 0 r = Some (Inr r)"
| "rv_list_clear (Suc i) r = tres_bind (rv_emit (enc_list_insert i) r) (rv_list_clear i)"

fun reverse_instr :: "(int \<Rightarrow> tlog \<Rightarrow> tlog_result) \<Rightarrow> (int \<Rightarrow> int \<Rightarrow> tlog \<Rightarrow> tlog_result) \<Rightarrow> instruction \<Rightarrow>
    reverser \<Rightarrow> reverser tres" where
  "reverse_instr sel_table sel_list (Select_table k) = rv_select_table sel_table k"
| "reverse_instr sel_table sel_list (Select_list c k) = rv_select_list sel_list c k"
| "reverse_instr sel_table sel_list (Insert_table k) = rv_insert_group_level_table k"
| "reverse_instr sel_table sel_list (Erase_table k) = rv_erase_group_level_table k"
| "reverse_instr sel_table sel_list (Rename_table k) = rv_rename_group_level_table k"
| "reverse_instr sel_table sel_list (Create_object k) = rv_create_object k"
| "reverse_instr sel_table sel_list (Remove_object k) = rv_remove_object k"
| "reverse_instr sel_table sel_list (Modify_object c k) = rv_modify_object c k"
| "reverse_instr sel_table sel_list (Clear_table n) = rv_clear_table n"
| "reverse_instr sel_table sel_list (Insert_column c) = rv_insert_column c"
| "reverse_instr sel_table sel_list (Erase_column c) = rv_erase_column c"
| "reverse_instr sel_table sel_list (Rename_column c) = rv_rename_column c"
| "reverse_instr sel_table sel_list (Set_link_type c) = rv_set_link_type c"
| "reverse_instr sel_table sel_list (List_insert i) = rv_list_insert i"
| "reverse_instr sel_table sel_list (List_set i) = rv_list_set i"
| "reverse_instr sel_table sel_list (List_move i j) = rv_list_move i j"
| "reverse_instr sel_table sel_list (List_swap i j) = rv_list_swap i j"
| "reverse_instr sel_table sel_list (List_erase i) = rv_list_erase i"
| "reverse_instr sel_table sel_list (List_clear n) = rv_list_clear n"

text \<open>The reverser as a handler: its functions always return true, their exceptions are kept.\<close>

definition reverser_handler :: "(int \<Rightarrow> tlog \<Rightarrow> tlog_result) \<Rightarrow> (int \<Rightarrow> int \<Rightarrow> tlog \<Rightarrow> tlog_result) \<Rightarrow> reverser tres handler" where
  "reverser_handler sel_table sel_list i h = Some (tres_bind h (reverse_instr sel_table sel_list i))"

section \<open>The reversed stream\<close>

text \<open>
  The memory, the order and \<open>m_current\<close>. A range is read through its pointers; the ranges of a
  reverser lie inside the memory (\<open>represents\<close> below), what is read outside is immaterial.
\<close>

type_synonym reversed_stream = "byte buffer \<times> range list \<times> nat"

definition slice :: "byte buffer \<Rightarrow> range \<Rightarrow> byte list" where
  "slice mem r = map (\<lambda>i. if i < length mem then mem ! i else 0) [fst r..<snd r]"

definition reversed_stream :: "reverser \<Rightarrow> reversed_stream" where
  "reversed_stream r = (let r = sync_table r in (tl_mem (rv_log r), rv_instrs r, length (rv_instrs r)))"

fun reversed_next_block :: "reversed_stream \<Rightarrow> (byte list \<times> reversed_stream) option" where
  "reversed_next_block (mem, order, current) =
     (if current \<noteq> 0 then
        let current = current - 1; block = order ! current
        in if fst block < snd block then Some (slice mem block, (mem, order, current)) else None
      else None)"

fun reversed_bytes :: "byte buffer \<Rightarrow> range list \<Rightarrow> nat \<Rightarrow> byte list" where
  "reversed_bytes mem order 0 = []"
| "reversed_bytes mem order (Suc n) =
     (if fst (order ! n) < snd (order ! n) then slice mem (order ! n) @ reversed_bytes mem order n else [])"

definition stream_bytes :: "reversed_stream \<Rightarrow> byte list" where
  "stream_bytes s = reversed_bytes (fst s) (fst (snd s)) (snd (snd s))"

interpretation reversed: input_stream reversed_next_block stream_bytes
proof
  show "stream_bytes s = []" if "reversed_next_block s = None" for s
  proof (cases s)
    case (fields mem order n)
    then show ?thesis using that by (cases n) (auto simp: stream_bytes_def Let_def split: if_splits)
  qed
  show "block \<noteq> []" if "reversed_next_block s = Some (block, s')" for s block s'
    using that by (cases s) (auto simp: Let_def slice_def split: if_splits)
  show "stream_bytes s = block @ stream_bytes s'" if "reversed_next_block s = Some (block, s')" for s block s'
  proof (cases s)
    case (fields mem order n)
    then show ?thesis using that by (cases n) (auto simp: stream_bytes_def Let_def split: if_splits)
  qed
qed

section \<open>The plan of a reversal\<close>

text \<open>
  What the reverser does, without bytes: the instructions in the order, and the pending selection
  of a table and of a list.
\<close>

type_synonym plan = "instruction list \<times> instruction option \<times> instruction option"

fun opt_list :: "'a option \<Rightarrow> 'a list" where
  "opt_list None = []"
| "opt_list (Some x) = [x]"

fun plan_list :: "plan \<Rightarrow> plan" where
  "plan_list (out, ts, ls) = (out @ opt_list ls, ts, None)"

fun plan_table :: "plan \<Rightarrow> plan" where
  "plan_table (out, ts, ls) = (out @ opt_list ls @ opt_list ts, None, None)"

text \<open>The inverse of an instruction, in the order in which it is encoded.\<close>

fun inverse_instr :: "instruction \<Rightarrow> instruction list" where
  "inverse_instr (Insert_table k) = [Erase_table k]"
| "inverse_instr (Erase_table k) = [Insert_table k]"
| "inverse_instr (Create_object k) = [Remove_object k]"
| "inverse_instr (Remove_object k) = [Create_object k]"
| "inverse_instr (Clear_table n) = replicate n (Create_object null_key)"
| "inverse_instr (Insert_column c) = [Erase_column c]"
| "inverse_instr (Erase_column c) = [Insert_column c]"
| "inverse_instr (List_insert i) = [List_erase i]"
| "inverse_instr (List_erase i) = [List_insert i]"
| "inverse_instr (List_clear n) = map List_insert (rev [0..<n])"
| "inverse_instr (Rename_table k) = []"
| "inverse_instr i = [i]"

fun is_group :: "instruction \<Rightarrow> bool" where
  "is_group (Insert_table k) = True"
| "is_group (Erase_table k) = True"
| "is_group (Rename_table k) = True"
| "is_group _ = False"

fun plan_step :: "instruction \<Rightarrow> plan \<Rightarrow> plan" where
  "plan_step (Select_table k) p = (fst (plan_table p), Some (Select_table k), None)"
| "plan_step (Select_list c k) p = (fst (plan_list p), fst (snd p), Some (Select_list c k))"
| "plan_step i p =
     (let (out, ts, ls) = (if is_group i then plan_table p else p) in (out @ inverse_instr i, ts, ls))"

text \<open>The two instructions whose handler does not put the encoded bytes into the order.\<close>

fun reversible :: "instruction \<Rightarrow> bool" where
  "reversible (Rename_column c) = False"
| "reversible (Set_link_type c) = False"
| "reversible _ = True"

fun steps :: "instruction \<Rightarrow> nat" where
  "steps (Clear_table n) = n"
| "steps (List_clear n) = n"
| "steps _ = 1"

section \<open>The reverser follows the plan\<close>

definition holds :: "tlog \<Rightarrow> range \<Rightarrow> instruction \<Rightarrow> bool" where
  "holds l r i \<longleftrightarrow> fst r < snd r \<and> snd r \<le> tl_begin l \<and>
     take (snd r - fst r) (drop (fst r) (written l)) = bytes_of [i] \<and> instr_ok i"

definition pending_ok :: "tlog \<Rightarrow> range \<Rightarrow> instruction option \<Rightarrow> bool" where
  "pending_ok l r i = (case i of None \<Rightarrow> fst r = snd r | Some i \<Rightarrow> holds l r i)"

definition represents :: "reverser \<Rightarrow> plan \<Rightarrow> bool" where
  "represents r p = (case p of (out, ts, ls) \<Rightarrow>
     tlog_ok (rv_log r) \<and> rv_start r = tl_begin (rv_log r) \<and> list_all2 (holds (rv_log r)) (rv_instrs r) out \<and>
     pending_ok (rv_log r) (rv_ts r) ts \<and> pending_ok (rv_log r) (rv_ls r) ls)"

lemma represents_new: "represents reverser_new ([], None, None)"
  by (simp add: represents_def reverser_new_def tlog_new_ok pending_ok_def) (simp add: tlog_new_def)

lemma pending_list: "pending_ok l r i \<Longrightarrow> (if fst r \<noteq> snd r then \<exists>j. i = Some j \<and> holds l r j else i = None)"
  by (auto simp: pending_ok_def holds_def split: option.splits)

lemma represents_sync_list: "represents r p \<Longrightarrow> represents (sync_list r) (plan_list p)"
  by (cases p) (auto simp: represents_def sync_list_def sync_select_def append_range_def
    list_all2_appendI pending_ok_def holds_def split: option.splits)

lemma represents_sync_table: "represents r p \<Longrightarrow> represents (sync_table r) (plan_table p)"
  by (cases p) (auto simp: represents_def sync_table_def sync_list_def sync_select_def append_range_def
    Let_def list_all2_appendI pending_ok_def holds_def split: option.splits)

lemma rv_log_sync [simp]: "rv_log (sync_list r) = rv_log r" "rv_log (sync_table r) = rv_log r"
  by (auto simp: sync_table_def sync_list_def sync_select_def append_range_def Let_def)

lemma written_length: "tlog_ok l \<Longrightarrow> length (written l) = tl_begin l"
  by (simp add: written_def tlog_ok_def)

lemma holds_append:
  assumes "holds l r i" "written l' = written l @ bs" "tl_begin l \<le> tl_begin l'" "tlog_ok l"
  shows "holds l' r i"
  using assms by (auto simp: holds_def written_length)

lemma represents_append:
  assumes "represents r (out, ts, ls)" "written l' = written (rv_log r) @ bs"
    "tl_begin (rv_log r) \<le> tl_begin l'" "tlog_ok l'" "s = tl_begin l'"
  shows "represents (r\<lparr>rv_log := l', rv_start := s\<rparr>) (out, ts, ls)"
proof -
  have h: "holds (rv_log r) rg i \<Longrightarrow> holds l' rg i" for rg i
    using holds_append [OF _ assms(2,3)] assms(1) by (simp add: represents_def)
  then have "pending_ok (rv_log r) rg i \<Longrightarrow> pending_ok l' rg i" for rg i
    by (simp add: pending_ok_def split: option.splits)
  then show ?thesis using assms h by (auto simp: represents_def elim: list_all2_mono)
qed

lemma encode_one:
  assumes "selects_ok sel_table sel_list" "instr_ok i" "represents r p" "tl_begin (rv_log r) + 21 \<le> size_max"
  obtains l where "rv_encode (encode_instr sel_table sel_list i) r = Some (Inr (r\<lparr>rv_log := l\<rparr>))"
    "written l = written (rv_log r) @ bytes_of [i]" "tlog_ok l" "tl_begin (rv_log r) < tl_begin l"
    "tl_begin l \<le> tl_begin (rv_log r) + 21" "holds l (tl_begin (rv_log r), tl_begin l) i"
proof -
  have t: "tlog_ok (rv_log r)" using assms(3) by (cases p) (simp add: represents_def)
  obtain l where l: "encode_instrs sel_table sel_list [i] (rv_log r) = Some (Inr l)" "tlog_ok l"
    "written l = written (rv_log r) @ bytes_of [i]" "tl_begin l \<le> tl_begin (rv_log r) + 21"
    using encode_instrs_ok [OF assms(1) t, of "[i]"] assms(2,4) by auto
  then have "encode_instr sel_table sel_list i (rv_log r) = Some (Inr l)"
    by (cases "encode_instr sel_table sel_list i (rv_log r)") (auto split: sum.splits)
  moreover have len: "tl_begin l = tl_begin (rv_log r) + length (bytes_of [i])" "bytes_of [i] \<noteq> []"
    using arg_cong [OF l(3), of length] written_length [OF t] written_length [OF l(2)] bytes_of_Cons [OF assms(2), of "[]"]
    by simp_all
  moreover have "holds l (tl_begin (rv_log r), tl_begin l) i"
    using len l(3) written_length [OF t] assms(2) by (simp add: holds_def)
  ultimately show thesis using that l by (simp add: rv_encode_def)
qed

lemma rv_emit_ok:
  assumes "selects_ok sel_table sel_list" "instr_ok i" "represents r (out, ts, ls)" "tl_begin (rv_log r) + 21 \<le> size_max"
  shows "\<exists>r'. rv_emit (encode_instr sel_table sel_list i) r = Some (Inr r') \<and> represents r' (out @ [i], ts, ls) \<and>
    tl_begin (rv_log r') \<le> tl_begin (rv_log r) + 21"
proof -
  obtain l where l: "rv_encode (encode_instr sel_table sel_list i) r = Some (Inr (r\<lparr>rv_log := l\<rparr>))"
    "written l = written (rv_log r) @ bytes_of [i]" "tlog_ok l" "tl_begin (rv_log r) < tl_begin l"
    "tl_begin l \<le> tl_begin (rv_log r) + 21" "holds l (tl_begin (rv_log r), tl_begin l) i"
    using encode_one [OF assms(1,2,3,4)] by blast
  have "represents (r\<lparr>rv_log := l, rv_start := tl_begin l\<rparr>) (out, ts, ls)"
    using represents_append [OF assms(3) l(2)] l(3,4) by simp
  moreover have "rv_start r = tl_begin (rv_log r)" using assms(3) by (simp add: represents_def)
  ultimately have "represents (append_instruction (r\<lparr>rv_log := l\<rparr>)) (out @ [i], ts, ls)"
    using l(6) by (simp add: represents_def append_instruction_def get_inst_def append_range_def
      transact_log_size_def list_all2_appendI)
  then show ?thesis using l(1,5)
    by (simp add: rv_emit_def append_instruction_def get_inst_def append_range_def)
qed

lemma rv_clear_table_ok:
  assumes "selects_ok sel_table sel_list" "represents r (out, ts, ls)" "tl_begin (rv_log r) + 21 * n \<le> size_max"
  shows "\<exists>r'. rv_clear_table n r = Some (Inr r') \<and> represents r' (out @ replicate n (Create_object null_key), ts, ls) \<and>
    tl_begin (rv_log r') \<le> tl_begin (rv_log r) + 21 * n"
  using assms(2,3)
proof (induction n arbitrary: r out)
  case (Suc n)
  have "instr_ok (Create_object null_key)" by (simp add: instr_ok_def null_key_def in_type_def min_of_def max_of_def)
  then obtain r1 where r1: "rv_emit (enc_create_object null_key) r = Some (Inr r1)"
    "represents r1 (out @ [Create_object null_key], ts, ls)" "tl_begin (rv_log r1) \<le> tl_begin (rv_log r) + 21"
    using rv_emit_ok [OF assms(1) _ Suc.prems(1)] Suc.prems(2) by fastforce
  then show ?case using Suc.IH [OF r1(2)] Suc.prems(2) by fastforce
qed simp

lemma rv_list_clear_ok:
  assumes "selects_ok sel_table sel_list" "represents r (out, ts, ls)" "tl_begin (rv_log r) + 21 * n \<le> size_max"
  shows "\<exists>r'. rv_list_clear n r = Some (Inr r') \<and> represents r' (out @ map List_insert (rev [0..<n]), ts, ls) \<and>
    tl_begin (rv_log r') \<le> tl_begin (rv_log r) + 21 * n"
  using assms(2,3)
proof (induction n arbitrary: r out)
  case (Suc n)
  have "instr_ok (List_insert n)" using Suc.prems(2) by (simp add: instr_ok_def)
  then obtain r1 where r1: "rv_emit (enc_list_insert n) r = Some (Inr r1)"
    "represents r1 (out @ [List_insert n], ts, ls)" "tl_begin (rv_log r1) \<le> tl_begin (rv_log r) + 21"
    using rv_emit_ok [OF assms(1) _ Suc.prems(1)] Suc.prems(2) by fastforce
  then show ?case using Suc.IH [OF r1(2)] Suc.prems(2) by fastforce
qed simp

lemma select_ok:
  assumes "selects_ok sel_table sel_list" "instr_ok i" "represents r (out, ts, ls)" "tl_begin (rv_log r) + 21 \<le> size_max"
  shows "\<exists>r'. rv_encode (encode_instr sel_table sel_list i) r = Some (Inr r') \<and>
    represents ((snd (get_inst r'))\<lparr>rv_ts := fst (get_inst r')\<rparr>) (out, Some i, ls) \<and>
    represents ((snd (get_inst r'))\<lparr>rv_ls := fst (get_inst r')\<rparr>) (out, ts, Some i) \<and>
    tl_begin (rv_log r') \<le> tl_begin (rv_log r) + 21"
proof -
  obtain l where l: "rv_encode (encode_instr sel_table sel_list i) r = Some (Inr (r\<lparr>rv_log := l\<rparr>))"
    "written l = written (rv_log r) @ bytes_of [i]" "tlog_ok l" "tl_begin (rv_log r) < tl_begin l"
    "tl_begin l \<le> tl_begin (rv_log r) + 21" "holds l (tl_begin (rv_log r), tl_begin l) i"
    using encode_one [OF assms(1,2,3,4)] by blast
  have "represents (r\<lparr>rv_log := l, rv_start := tl_begin l\<rparr>) (out, ts, ls)"
    using represents_append [OF assms(3) l(2)] l(3,4) by simp
  moreover have "rv_start r = tl_begin (rv_log r)" using assms(3) by (simp add: represents_def)
  ultimately show ?thesis
    using l(1,5,6) by (cases ts; cases ls) (auto simp: represents_def get_inst_def transact_log_size_def pending_ok_def)
qed

lemma rv_log_get_inst [simp]: "rv_log (snd (get_inst r)) = rv_log r"
  by (simp add: get_inst_def)

fun is_single :: "instruction \<Rightarrow> bool" where
  "is_single (Select_table k) = False"
| "is_single (Select_list c k) = False"
| "is_single (Clear_table n) = False"
| "is_single (List_clear n) = False"
| "is_single (Rename_table k) = False"
| "is_single (Rename_column k) = False"
| "is_single (Set_link_type k) = False"
| "is_single _ = True"

lemmas rv_defs = rv_select_table_def rv_select_list_def rv_insert_group_level_table_def
  rv_erase_group_level_table_def rv_rename_group_level_table_def rv_create_object_def rv_remove_object_def
  rv_modify_object_def rv_list_set_def rv_list_insert_def rv_insert_column_def rv_erase_column_def
  rv_list_move_def rv_list_swap_def rv_list_erase_def

text \<open>The instructions that are encoded at once, after the selections are synchronised.\<close>

lemma reverse_single:
  assumes "is_single i"
  shows "\<exists>j. inverse_instr i = [j] \<and> steps i = 1 \<and> (instr_ok i \<longrightarrow> instr_ok j) \<and>
    (\<forall>r. reverse_instr sel_table sel_list i r =
      rv_emit (encode_instr sel_table sel_list j) (if is_group i then sync_table r else r)) \<and>
    (\<forall>p. plan_step i p = (case if is_group i then plan_table p else p of (out, ts, ls) \<Rightarrow> (out @ [j], ts, ls)))"
  using assms by (cases i) (simp_all add: rv_defs instr_ok_def)

lemma reverse_step:
  assumes s: "selects_ok sel_table sel_list" and ok: "instr_ok i" "reversible i" and r: "represents r p"
    and space: "tl_begin (rv_log r) + 21 * steps i \<le> size_max"
  shows "\<exists>r'. reverse_instr sel_table sel_list i r = Some (Inr r') \<and> represents r' (plan_step i p) \<and>
    tl_begin (rv_log r') \<le> tl_begin (rv_log r) + 21 * steps i"
proof -
  consider k where "i = Select_table k" | c k where "i = Select_list c k" | n where "i = Clear_table n"
    | n where "i = List_clear n" | k where "i = Rename_table k"
    | "is_single i"
    using ok(2) by (cases i) auto
  then show ?thesis
  proof cases
    case 1
    obtain out ts ls where p: "plan_table p = (out, ts, ls)" by (cases "plan_table p")
    show ?thesis
      using select_ok [OF s ok(1), of "sync_table r" out ts ls] represents_sync_table [OF r] space 1 p
      by (cases p) (auto simp: rv_defs Let_def split_beta)
  next
    case 2
    obtain out ts ls where p: "plan_list p = (out, ts, ls)" by (cases "plan_list p")
    show ?thesis
      using select_ok [OF s ok(1), of "sync_list r" out ts ls] represents_sync_list [OF r] space 2 p
      by (cases p) (auto simp: rv_defs Let_def split_beta)
  next
    case 3
    then show ?thesis using rv_clear_table_ok [OF s, of r] r space by (cases p) (auto simp: Let_def)
  next
    case 4
    then show ?thesis using rv_list_clear_ok [OF s, of r] r space by (cases p) (auto simp: Let_def)
  next
    case 5
    then show ?thesis using represents_sync_table [OF r] by (cases "plan_table p") (auto simp: rv_defs)
  next
    case 6
    from reverse_single [OF this, of sel_table sel_list] obtain j where j: "steps i = 1" "instr_ok j"
      "reverse_instr sel_table sel_list i r = rv_emit (encode_instr sel_table sel_list j) (if is_group i then sync_table r else r)"
      "plan_step i p = (case if is_group i then plan_table p else p of (out, ts, ls) \<Rightarrow> (out @ [j], ts, ls))"
      using ok(1) by blast
    obtain out ts ls where p: "(if is_group i then plan_table p else p) = (out, ts, ls)" by (metis prod_cases3)
    have r': "represents (if is_group i then sync_table r else r) (out, ts, ls)"
      using represents_sync_table [OF r] r p by (auto split: if_splits)
    have b: "tl_begin (rv_log (if is_group i then sync_table r else r)) = tl_begin (rv_log r)" by simp
    show ?thesis
      using rv_emit_ok [OF s j(2) r', unfolded b] space p by (simp only: j prod.case mult_1_right)
  qed
qed

fun run_reverser :: "(int \<Rightarrow> tlog \<Rightarrow> tlog_result) \<Rightarrow> (int \<Rightarrow> int \<Rightarrow> tlog \<Rightarrow> tlog_result) \<Rightarrow> instruction list \<Rightarrow>
    reverser \<Rightarrow> reverser tres" where
  "run_reverser sel_table sel_list [] r = Some (Inr r)"
| "run_reverser sel_table sel_list (i # is) r =
     tres_bind (reverse_instr sel_table sel_list i r) (run_reverser sel_table sel_list is)"

fun run_plan :: "instruction list \<Rightarrow> plan \<Rightarrow> plan" where
  "run_plan [] p = p"
| "run_plan (i # is) p = run_plan is (plan_step i p)"

definition total_steps :: "instruction list \<Rightarrow> nat" where
  "total_steps is = sum_list (map steps is)"

lemma run_reverser_ok:
  assumes s: "selects_ok sel_table sel_list"
  shows "list_all instr_ok is \<Longrightarrow> list_all reversible is \<Longrightarrow> represents r p \<Longrightarrow>
    tl_begin (rv_log r) + 21 * total_steps is \<le> size_max \<Longrightarrow>
    \<exists>r'. run_reverser sel_table sel_list is r = Some (Inr r') \<and> represents r' (run_plan is p) \<and>
      tl_begin (rv_log r') \<le> tl_begin (rv_log r) + 21 * total_steps is"
proof (induction "is" arbitrary: r p)
  case (Cons i "is")
  obtain r1 where r1: "reverse_instr sel_table sel_list i r = Some (Inr r1)" "represents r1 (plan_step i p)"
    "tl_begin (rv_log r1) \<le> tl_begin (rv_log r) + 21 * steps i"
    using reverse_step [OF s _ _ Cons.prems(3), of i] Cons.prems by (auto simp: total_steps_def)
  then show ?case using Cons.IH [OF _ _ r1(2)] Cons.prems by (fastforce simp: total_steps_def)
qed simp

lemma run_handler_reverser:
  "run_handler (reverser_handler sel_table sel_list) is h = Some (tres_bind h (run_reverser sel_table sel_list is))"
proof (induction "is" arbitrary: h)
  case Nil
  then show ?case by (cases h) (auto simp: tres_bind_def split: option.split sum.split)
next
  case (Cons i "is")
  then show ?case by (cases h) (auto simp: reverser_handler_def tres_bind_def split: option.split sum.split)
qed

text \<open>The bytes of the reversed stream.\<close>

lemma slice_holds:
  assumes "holds l r i" "tlog_ok l"
  shows "slice (tl_mem l) r = bytes_of [i]"
proof -
  have m: "fst r < snd r" "snd r \<le> tl_begin l" "tl_begin l \<le> length (tl_mem l)"
    using assms by (auto simp: holds_def tlog_ok_def)
  have "slice (tl_mem l) r = take (snd r - fst r) (drop (fst r) (written l))"
    using m by (intro nth_equalityI) (auto simp: slice_def written_def min_def)
  then show ?thesis using assms(1) by (simp add: holds_def)
qed

lemma bytes_of_append: "bytes_of (xs @ ys) = bytes_of xs @ bytes_of ys"
  by (induction xs) auto

lemma reversed_bytes_plan:
  assumes "tlog_ok l" "list_all2 (holds l) order out"
  shows "n \<le> length out \<Longrightarrow> reversed_bytes (tl_mem l) order n = bytes_of (rev (take n out))"
proof (induction n)
  case (Suc n)
  have h: "holds l (order ! n) (out ! n)" using assms(2) Suc.prems by (simp add: list_all2_conv_all_nth)
  then have "fst (order ! n) < snd (order ! n)" by (simp add: holds_def)
  then show ?case
    using Suc slice_holds [OF h assms(1)] by (simp add: take_Suc_conv_app_nth bytes_of_append)
qed simp

lemma stream_of_plan:
  assumes "represents r p"
  shows "stream_bytes (reversed_stream r) = bytes_of (rev (fst (plan_table p)))"
    "list_all instr_ok (fst (plan_table p))"
proof -
  obtain out where p: "plan_table p = (out, None, None)" by (cases p) simp
  have r: "represents (sync_table r) (out, None, None)" using represents_sync_table [OF assms] p by simp
  then have l: "tlog_ok (rv_log r)" "list_all2 (holds (rv_log r)) (rv_instrs (sync_table r)) out"
    by (simp_all add: represents_def)
  show "stream_bytes (reversed_stream r) = bytes_of (rev (fst (plan_table p)))"
    using reversed_bytes_plan [OF l, of "length out"] list_all2_lengthD [OF l(2)] p
    by (simp add: stream_bytes_def reversed_stream_def Let_def)
  show "list_all instr_ok (fst (plan_table p))"
    using l(2) p by (auto simp: list_all_length list_all2_conv_all_nth holds_def)
qed

section \<open>What a log does\<close>

text \<open>
  An observer of a log: it keeps the selected table and list as the comments in
  \<open>NullInstructionObserver\<close> demand (object and column instructions need a table, list instructions
  a list, and a change of the group's tables ends the selections), and notes every instruction
  with the selection it applies to. It refuses an instruction that lacks its selection.
\<close>

datatype 'i effect =
  In_group 'i
| In_table int 'i
| In_list int int int 'i

type_synonym tracker = "int option \<times> (int \<times> int) option \<times> instruction effect list"

fun needs_list :: "instruction \<Rightarrow> bool" where
  "needs_list (List_insert i) = True"
| "needs_list (List_set i) = True"
| "needs_list (List_move i j) = True"
| "needs_list (List_swap i j) = True"
| "needs_list (List_erase i) = True"
| "needs_list (List_clear n) = True"
| "needs_list _ = False"

fun track :: "tracker handler" where
  "track (Select_table k) (t, l, es) = Some (Some k, None, es)"
| "track (Select_list c k) (t, l, es) = (if t = None then None else Some (t, Some (c, k), es))"
| "track i (t, l, es) =
     (if is_group i then Some (None, None, es @ [In_group i])
      else case t of
        None \<Rightarrow> None
      | Some k \<Rightarrow>
          if needs_list i then
            (case l of None \<Rightarrow> None | Some (c, obj) \<Rightarrow> Some (t, l, es @ [In_list k c obj i]))
          else Some (t, l, es @ [In_table k i]))"

fun inverse_effect :: "instruction effect \<Rightarrow> instruction effect list" where
  "inverse_effect (In_group i) = map In_group (rev (inverse_instr i))"
| "inverse_effect (In_table k i) = map (In_table k) (rev (inverse_instr i))"
| "inverse_effect (In_list k c obj i) = map (In_list k c obj) (rev (inverse_instr i))"

definition inverse_effects :: "instruction effect list \<Rightarrow> instruction effect list" where
  "inverse_effects es = concat (map inverse_effect (rev es))"

lemma run_handler_append:
  "run_handler handler (xs @ ys) h = Option.bind (run_handler handler xs h) (run_handler handler ys)"
proof (induction xs arbitrary: h)
  case (Cons i xs)
  then show ?case by (cases "handler i h") simp_all
qed simp

text \<open>
  Where the tracker of the log stands, the plan's order, reversed, undoes the effects, when it
  starts with the selections that are pending.
\<close>

definition undoes :: "tracker \<Rightarrow> plan \<Rightarrow> bool" where
  "undoes tr p = (case tr of (t, l, es) \<Rightarrow> case p of (out, ts, ls) \<Rightarrow>
     ts = map_option Select_table t \<and> ls = map_option (\<lambda>(c, k). Select_list c k) l \<and> (l \<noteq> None \<longrightarrow> t \<noteq> None) \<and>
     (\<forall>t0 l0 fs. (t \<noteq> None \<longrightarrow> t0 = t) \<longrightarrow> (l \<noteq> None \<longrightarrow> l0 = l) \<longrightarrow>
       (\<exists>t1 l1. run_handler track (rev out) (t0, l0, fs) = Some (t1, l1, fs @ inverse_effects es))))"

lemma undoes_new: "undoes (None, None, []) ([], None, None)"
  by (simp add: undoes_def inverse_effects_def)

lemma undoes_plan_list:
  assumes "undoes (t, l, es) (out, ts, ls)" "t \<noteq> None \<longrightarrow> t0 = t"
  shows "\<exists>t1 l1. run_handler track (rev (out @ opt_list ls)) (t0, l0, fs) = Some (t1, l1, fs @ inverse_effects es)"
proof (cases l)
  case (Some ck)
  obtain c k where ck: "ck = (c, k)" by (cases ck)
  then show ?thesis using assms Some by (auto simp: undoes_def)
qed (use assms in \<open>simp add: undoes_def\<close>)

lemma undoes_plan_table:
  assumes "undoes (t, l, es) (out, ts, ls)"
  shows "\<exists>t1 l1. run_handler track (rev (fst (plan_table (out, ts, ls)))) (t0, l0, fs) = Some (t1, l1, fs @ inverse_effects es)"
proof (cases t)
  case None
  then have "ts = None" "ls = None" "l = None" using assms by (cases l; auto simp: undoes_def)+
  then show ?thesis using assms None by (auto simp: undoes_def)
next
  case (Some k)
  then have "ts = Some (Select_table k)" using assms by (simp add: undoes_def)
  then show ?thesis
    using undoes_plan_list [OF assms, of "Some k" None fs] Some by simp
qed

lemma run_replicate_create:
  "run_handler track (replicate n (Create_object k)) (Some t, l, fs) = Some (Some t, l, fs @ replicate n (In_table t (Create_object k)))"
  by (induction n arbitrary: fs) auto

lemma run_inserts:
  "run_handler track (map List_insert is) (Some t, Some (c, k), fs) =
    Some (Some t, Some (c, k), fs @ map (\<lambda>i. In_list t c k (List_insert i)) is)"
  by (induction "is" arbitrary: fs) auto

text \<open>The inverse of one instruction, under the selection the instruction had.\<close>

lemma run_inverse:
  assumes "track i (t, l, es) = Some (t', l', es @ [e])" "is_group i \<or> (t0 = t \<and> l0 = l) \<or> (t0 = t \<and> \<not> needs_list i)"
  shows "run_handler track (rev (inverse_instr i)) (t0, l0, fs) =
    Some (if is_group i \<and> inverse_instr i \<noteq> [] then (None, None, fs @ inverse_effect e) else (t0, l0, fs @ inverse_effect e))"
  using assms
  by (cases i) (auto simp: run_replicate_create run_inserts rev_map split: option.splits if_splits)

lemma inverse_effects_snoc [simp]: "inverse_effects (es @ [e]) = inverse_effect e @ inverse_effects es"
  by (simp add: inverse_effects_def)

lemma track_cases:
  assumes "track i (t, l, es) = Some tr"
  obtains k where "i = Select_table k" "tr = (Some k, None, es)"
    | c k where "i = Select_list c k" "tr = (t, Some (c, k), es)" "t \<noteq> None"
    | e where "is_group i" "tr = (None, None, es @ [e])"
        "plan_step i p = (fst (plan_table p) @ inverse_instr i, None, None)"
    | e where "\<not> is_group i" "tr = (t, l, es @ [e])" "t \<noteq> None" "needs_list i \<longrightarrow> l \<noteq> None"
        "plan_step i p = (fst p @ inverse_instr i, fst (snd p), snd (snd p))"
  using assms by (cases i; cases p) (auto split: option.splits if_splits)

lemma undoes_step:
  assumes u: "undoes (t, l, es) p" and tr: "track i (t, l, es) = Some tr"
  shows "undoes tr (plan_step i p)"
proof -
  obtain out ts ls where p: "p = (out, ts, ls)" by (cases p)
  note table = undoes_plan_table [OF u [unfolded p]]
  from tr show ?thesis
  proof (cases rule: track_cases [where p = p])
    case (1 k)
    then show ?thesis using table p by (simp add: undoes_def)
  next
    case (2 c k)
    then show ?thesis using undoes_plan_list [OF u [unfolded p]] u p by (auto simp: undoes_def)
  next
    case (3 e)
    have "\<exists>t1 l1. run_handler track (rev (inverse_instr i) @ rev (fst (plan_table p))) (t0, l0, fs) =
        Some (t1, l1, fs @ inverse_effects (es @ [e]))" for t0 l0 fs
      using run_inverse [of i t l es None None e t0 l0 fs] tr 3 p
        table [of None None "fs @ inverse_effect e"] table [of t0 l0 "fs @ inverse_effect e"]
      by (auto simp: run_handler_append)
    then show ?thesis using 3 by (simp add: undoes_def)
  next
    case (4 e)
    have "\<exists>t1 l1. run_handler track (rev (inverse_instr i) @ rev out) (t0, l0, fs) =
        Some (t1, l1, fs @ inverse_effects (es @ [e]))"
      if "t0 = t" "l \<noteq> None \<longrightarrow> l0 = l" for t0 l0 fs
    proof -
      have "t0 = t \<and> l0 = l \<or> t0 = t \<and> \<not> needs_list i" using that 4(4) by blast
      then have "run_handler track (rev (inverse_instr i)) (t0, l0, fs) = Some (t0, l0, fs @ inverse_effect e)"
        using run_inverse [of i t l es t l e t0 l0 fs] tr 4 by simp
      moreover have "\<exists>t1 l1. run_handler track (rev out) (t0, l0, fs @ inverse_effect e) =
          Some (t1, l1, (fs @ inverse_effect e) @ inverse_effects es)"
        using u that unfolding p undoes_def by blast
      ultimately show ?thesis by (simp add: run_handler_append)
    qed
    then show ?thesis using 4 u p by (auto simp: undoes_def)
  qed
qed

lemma undoes_run:
  "undoes tr p \<Longrightarrow> run_handler track is tr = Some tr' \<Longrightarrow> undoes tr' (run_plan is p)"
proof (induction "is" arbitrary: tr p)
  case (Cons i "is")
  obtain t l es where tr: "tr = (t, l, es)" by (cases tr)
  obtain tr1 where 1: "track i tr = Some tr1" "run_handler track is tr1 = Some tr'"
    using Cons.prems(2) by (auto split: bind_splits)
  then show ?case using Cons.IH [OF undoes_step 1(2)] Cons.prems(1) tr by simp
qed simp

text \<open>Reading the reversed stream of a reverser that has followed the plan of a log.\<close>

lemma replay_plan:
  assumes "represents r p" "undoes (t, l, es) p" "stream_bytes (reversed_stream r') = bytes_of (rev (fst (plan_table p)))"
  shows "\<exists>t' l'. parse reversed_next_block track (reversed_stream r') (None, None, []) = Some (Inr (t', l', inverse_effects es))"
proof -
  obtain out ts ls where p: "p = (out, ts, ls)" by (cases p)
  obtain t' l' where "run_handler track (rev (fst (plan_table p))) (None, None, []) = Some (t', l', inverse_effects es)"
    using undoes_plan_table [of t l es out ts ls None None "[]"] assms(2) p by auto
  then show ?thesis
    using reversed.parse_encoded [OF _ assms(3), of track] stream_of_plan(2) [OF assms(1)]
    by (simp add: handled_def list_all_rev)
qed

lemma replay_reversed:
  assumes "represents r (run_plan is ([], None, None))" "run_handler track is (None, None, []) = Some (t, l, es)"
  shows "\<exists>t' l'. parse reversed_next_block track (reversed_stream r) (None, None, []) = Some (Inr (t', l', inverse_effects es))"
  by (rule replay_plan [OF assms(1) undoes_run [OF undoes_new assms(2)] stream_of_plan(1) [OF assms(1)]])

section \<open>Properties\<close>


definition plain_select_table :: "int \<Rightarrow> tlog \<Rightarrow> tlog_result" where
  "plain_select_table k = append_simple_instr [Instr instr_SelectTable, Size 0, Table_key k]"

definition plain_select_list :: "int \<Rightarrow> int \<Rightarrow> tlog \<Rightarrow> tlog_result" where
  "plain_select_list c k = append_simple_instr [Instr instr_SelectList, Col_key c, Obj_key k]"

lemma plain_selects_ok: "selects_ok plain_select_table plain_select_list"
  by (simp add: selects_ok_def plain_select_table_def plain_select_list_def)


lemma reversed_stream_start [simp]: "reversed_stream (r\<lparr>rv_start := n\<rparr>) = reversed_stream r"
  by (simp add: reversed_stream_def sync_table_def sync_list_def sync_select_def append_range_def Let_def)

lemma rename_column_dropped:
  assumes "selects_ok sel_table sel_list" "instr_ok (Rename_column c)" "represents r p"
    "tl_begin (rv_log r) + 21 \<le> size_max"
  shows "\<exists>r'. reverse_instr sel_table sel_list (Rename_column c) r = Some (Inr r') \<and>
    stream_bytes (reversed_stream r') = bytes_of (rev (fst (plan_table p)))"
proof -
  obtain l where l: "rv_encode (encode_instr sel_table sel_list (Rename_column c)) r = Some (Inr (r\<lparr>rv_log := l\<rparr>))"
    "written l = written (rv_log r) @ bytes_of [Rename_column c]" "tlog_ok l" "tl_begin (rv_log r) < tl_begin l"
    using encode_one [OF assms] by blast
  have "represents ((r\<lparr>rv_log := l\<rparr>)\<lparr>rv_start := tl_begin l\<rparr>) p"
    using represents_append [of r "fst p" "fst (snd p)" "snd (snd p)" l] assms(3) l by simp
  from stream_of_plan(1) [OF this] show ?thesis
    using l(1) by (simp add: rv_rename_column_def)
qed

lemma run_reverser_append:
  "run_reverser sel_table sel_list (xs @ ys) r =
    tres_bind (run_reverser sel_table sel_list xs r) (run_reverser sel_table sel_list ys)"
proof (induction xs arbitrary: r)
  case (Cons i xs)
  then show ?case by (auto simp: tres_bind_def split: option.split sum.split)
qed simp

text \<open>
  A \<open>rename_column\<close> at the end of such a log is lost: the reverser encodes it, but never puts
  it into the order, so the replay is that of the log without it.
\<close>

theorem rename_column_is_lost:
  assumes s: "selects_ok sel_table sel_list" and ok: "list_all instr_ok is" "list_all reversible is" "in_type int64_t c"
    and size: "21 * total_steps (is @ [Rename_column c]) \<le> size_max"
    and tr: "run_handler track is (None, None, []) = Some (Some k, l, es)"
  shows "run_handler track (is @ [Rename_column c]) (None, None, []) = Some (Some k, l, es @ [In_table k (Rename_column c)]) \<and>
    (\<exists>r t' l'. parse simple_next_block (reverser_handler sel_table sel_list) (bytes_of (is @ [Rename_column c]))
        (Some (Inr reverser_new)) = Some (Inr (Some (Inr r))) \<and>
      parse reversed_next_block track (reversed_stream r) (None, None, []) = Some (Inr (t', l', inverse_effects es)))"
proof -
  obtain r where r: "run_reverser sel_table sel_list is reverser_new = Some (Inr r)"
    "represents r (run_plan is ([], None, None))" "tl_begin (rv_log r) \<le> 21 * total_steps is"
    using run_reverser_ok [OF s ok(1,2) represents_new] size
    by (auto simp: reverser_new_def tlog_new_def total_steps_def)
  have c: "instr_ok (Rename_column c)" using ok(3) by (simp add: instr_ok_def)
  obtain r' where r': "reverse_instr sel_table sel_list (Rename_column c) r = Some (Inr r')"
    "stream_bytes (reversed_stream r') = bytes_of (rev (fst (plan_table (run_plan is ([], None, None)))))"
    using rename_column_dropped [OF s c r(2)] r(3) size by (auto simp: total_steps_def)
  have "\<exists>t' l'. parse reversed_next_block track (reversed_stream r') (None, None, []) = Some (Inr (t', l', inverse_effects es))"
    by (rule replay_plan [OF r(2) undoes_run [OF undoes_new tr] r'(2)])
  moreover have "parse simple_next_block (reverser_handler sel_table sel_list) (bytes_of (is @ [Rename_column c]))
      (Some (Inr reverser_new)) = Some (Inr (Some (Inr r')))"
    using simple.parse_encoded [of "is @ [Rename_column c]", OF _ refl, of "reverser_handler sel_table sel_list"] ok(1) c r(1) r'(1)
    by (simp add: run_handler_reverser run_reverser_append handled_def)
  ultimately show ?thesis using tr by (auto simp: run_handler_append)
qed

theorem rename_column_is_lost_witness:
  "run_handler track [Select_table 1, Rename_column 4] (None, None, []) = Some (Some 1, None, [In_table 1 (Rename_column 4)]) \<and>
    (\<exists>r t' l'. parse simple_next_block (reverser_handler plain_select_table plain_select_list)
        (bytes_of [Select_table 1, Rename_column 4]) (Some (Inr reverser_new)) = Some (Inr (Some (Inr r))) \<and>
      parse reversed_next_block track (reversed_stream r) (None, None, []) = Some (Inr (t', l', [])))"
proof -
  have h: "list_all instr_ok [Select_table 1]" "list_all reversible [Select_table 1]" "in_type int64_t 4"
    "21 * total_steps ([Select_table 1] @ [Rename_column 4]) \<le> size_max"
    "run_handler track [Select_table 1] (None, None, []) = Some (Some 1, None, [])"
    by (simp_all add: instr_ok_def in_type_def min_of_def max_of_def total_steps_def)
  show ?thesis using rename_column_is_lost [OF plain_selects_ok h] by (simp add: inverse_effects_def)
qed

end
