(* ===== verification/TransactEncoder.thy ===== *)
theory TransactEncoder
  imports TransactReverse
begin

text \<open>
  The encoder the database writes its log through (\<open>TransactLogConvenientEncoder\<close> of
  \<open>include/core/realm/impl/transact_log.hpp\<close>): each change of a table or list is preceded by the
  selection of it, unless it is already selected. \<open>do_select_table\<close> and \<open>do_select_list\<close> are
  defined in a file that is not part of the repository; they are the parameters \<open>do_table\<close> and
  \<open>do_list\<close>, and \<open>selectors_ok\<close> states what they do.
\<close>

section \<open>The encoder\<close>

text \<open>A \<open>const Table*\<close> with the key it has, and a list accessor.\<close>

record table_ref =
  tr_ptr :: nat
  tr_key :: int

record list_ref =
  lr_table :: table_ref
  lr_obj :: int
  lr_col :: int

record list_id =
  li_table :: int
  li_obj :: int
  li_col :: int

definition list_id_new :: list_id where
  "list_id_new = \<lparr>li_table = 2 ^ 31 - 1, li_obj = - 1, li_col = 2 ^ 63 - 1\<rparr>"

definition list_id_of :: "list_ref \<Rightarrow> list_id" where
  "list_id_of l = \<lparr>li_table = tr_key (lr_table l), li_obj = lr_obj l, li_col = lr_col l\<rparr>"

definition list_id_differs :: "list_id \<Rightarrow> list_id \<Rightarrow> bool" where
  "list_id_differs a b \<longleftrightarrow> li_obj a \<noteq> li_obj b \<or> li_table a \<noteq> li_table b \<or> li_col a \<noteq> li_col b"

record conv =
  ce_log :: tlog
  ce_table :: "nat option"
  ce_list :: list_id

type_synonym table_selector = "table_ref \<Rightarrow> conv \<Rightarrow> conv tres"
type_synonym list_selector = "list_ref \<Rightarrow> conv \<Rightarrow> conv tres"

definition conv_new :: conv where
  "conv_new = \<lparr>ce_log = tlog_new, ce_table = None, ce_list = list_id_new\<rparr>"

definition ce_encode :: "(tlog \<Rightarrow> tlog_result) \<Rightarrow> conv \<Rightarrow> conv tres" where
  "ce_encode enc c = tres_bind (enc (ce_log c)) (\<lambda>l. Some (Inr (c\<lparr>ce_log := l\<rparr>)))"

definition unselect_all :: "conv \<Rightarrow> conv" where
  "unselect_all c = c\<lparr>ce_table := None, ce_list := list_id_new\<rparr>"

definition ce_select_table :: "table_selector \<Rightarrow> table_ref \<Rightarrow> conv \<Rightarrow> conv tres" where
  "ce_select_table do_table table c =
     tres_bind (if Some (tr_ptr table) \<noteq> ce_table c then do_table table c else Some (Inr c))
       (\<lambda>c. Some (Inr (c\<lparr>ce_list := list_id_new\<rparr>)))"

definition ce_select_list :: "list_selector \<Rightarrow> list_ref \<Rightarrow> conv \<Rightarrow> conv tres" where
  "ce_select_list do_list list c =
     (if list_id_differs (list_id_of list) (ce_list c) then do_list list c else Some (Inr c))"

definition ce_insert_group_level_table :: "int \<Rightarrow> conv \<Rightarrow> conv tres" where
  "ce_insert_group_level_table table_key c = ce_encode (enc_insert_group_level_table table_key) (unselect_all c)"

definition ce_erase_group_level_table :: "int \<Rightarrow> conv \<Rightarrow> conv tres" where
  "ce_erase_group_level_table table_key c = ce_encode (enc_erase_group_level_table table_key) (unselect_all c)"

definition ce_rename_group_level_table :: "int \<Rightarrow> conv \<Rightarrow> conv tres" where
  "ce_rename_group_level_table table_key c = ce_encode (enc_rename_group_level_table table_key) (unselect_all c)"

definition ce_insert_column :: "table_selector \<Rightarrow> table_ref \<Rightarrow> int \<Rightarrow> conv \<Rightarrow> conv tres" where
  "ce_insert_column do_table t col_key c = tres_bind (ce_select_table do_table t c) (ce_encode (enc_insert_column col_key))"

definition ce_erase_column :: "table_selector \<Rightarrow> table_ref \<Rightarrow> int \<Rightarrow> conv \<Rightarrow> conv tres" where
  "ce_erase_column do_table t col_key c = tres_bind (ce_select_table do_table t c) (ce_encode (enc_erase_column col_key))"

definition ce_rename_column :: "table_selector \<Rightarrow> table_ref \<Rightarrow> int \<Rightarrow> conv \<Rightarrow> conv tres" where
  "ce_rename_column do_table t col_key c = tres_bind (ce_select_table do_table t c) (ce_encode (enc_rename_column col_key))"

definition ce_do_set :: "table_selector \<Rightarrow> table_ref \<Rightarrow> int \<Rightarrow> int \<Rightarrow> opcode \<Rightarrow> conv \<Rightarrow> conv tres" where
  "ce_do_set do_table t col_key key variant c =
     (if variant \<noteq> instr_SetDefault
      then tres_bind (ce_select_table do_table t c) (ce_encode (enc_modify_object col_key key))
      else Some (Inr c))"

text \<open>The values themselves are not part of the log.\<close>

definition ce_set_int :: "table_selector \<Rightarrow> table_ref \<Rightarrow> int \<Rightarrow> int \<Rightarrow> int \<Rightarrow> opcode \<Rightarrow> conv \<Rightarrow> conv tres" where
  "ce_set_int do_table t col_key key _ variant = ce_do_set do_table t col_key key variant"

definition ce_add_int :: "table_selector \<Rightarrow> table_ref \<Rightarrow> int \<Rightarrow> int \<Rightarrow> int \<Rightarrow> conv \<Rightarrow> conv tres" where
  "ce_add_int do_table t col_key key _ = ce_do_set do_table t col_key key instr_Set"

definition ce_set_bool :: "table_selector \<Rightarrow> table_ref \<Rightarrow> int \<Rightarrow> int \<Rightarrow> bool \<Rightarrow> opcode \<Rightarrow> conv \<Rightarrow> conv tres" where
  "ce_set_bool do_table t col_key key _ variant = ce_do_set do_table t col_key key variant"

definition ce_set_float :: "table_selector \<Rightarrow> table_ref \<Rightarrow> int \<Rightarrow> int \<Rightarrow> 32 word \<Rightarrow> opcode \<Rightarrow> conv \<Rightarrow> conv tres" where
  "ce_set_float do_table t col_key key _ variant = ce_do_set do_table t col_key key variant"

definition ce_set_double :: "table_selector \<Rightarrow> table_ref \<Rightarrow> int \<Rightarrow> int \<Rightarrow> 64 word \<Rightarrow> opcode \<Rightarrow> conv \<Rightarrow> conv tres" where
  "ce_set_double do_table t col_key key _ variant = ce_do_set do_table t col_key key variant"

definition ce_set_string :: "table_selector \<Rightarrow> table_ref \<Rightarrow> int \<Rightarrow> int \<Rightarrow> byte list \<Rightarrow> opcode \<Rightarrow> conv \<Rightarrow> conv tres" where
  "ce_set_string do_table t col_key key _ variant = ce_do_set do_table t col_key key variant"

definition ce_set_binary :: "table_selector \<Rightarrow> table_ref \<Rightarrow> int \<Rightarrow> int \<Rightarrow> byte list \<Rightarrow> opcode \<Rightarrow> conv \<Rightarrow> conv tres" where
  "ce_set_binary do_table t col_key key _ variant = ce_do_set do_table t col_key key variant"

definition ce_set_timestamp :: "table_selector \<Rightarrow> table_ref \<Rightarrow> int \<Rightarrow> int \<Rightarrow> int \<times> int \<Rightarrow> opcode \<Rightarrow> conv \<Rightarrow> conv tres" where
  "ce_set_timestamp do_table t col_key key _ variant = ce_do_set do_table t col_key key variant"

definition ce_set_link :: "table_selector \<Rightarrow> table_ref \<Rightarrow> int \<Rightarrow> int \<Rightarrow> int \<Rightarrow> opcode \<Rightarrow> conv \<Rightarrow> conv tres" where
  "ce_set_link do_table t col_key key _ variant = ce_do_set do_table t col_key key variant"

definition ce_set_null :: "table_selector \<Rightarrow> table_ref \<Rightarrow> int \<Rightarrow> int \<Rightarrow> opcode \<Rightarrow> conv \<Rightarrow> conv tres" where
  "ce_set_null do_table t col_key key variant = ce_do_set do_table t col_key key variant"

definition ce_nullify_link :: "table_selector \<Rightarrow> table_ref \<Rightarrow> int \<Rightarrow> int \<Rightarrow> conv \<Rightarrow> conv tres" where
  "ce_nullify_link do_table t col_key key c =
     tres_bind (ce_select_table do_table t c) (ce_encode (enc_modify_object col_key key))"

definition ce_insert_substring :: "table_selector \<Rightarrow> table_ref \<Rightarrow> int \<Rightarrow> int \<Rightarrow> nat \<Rightarrow> byte list \<Rightarrow> conv \<Rightarrow> conv tres" where
  "ce_insert_substring do_table t col_key key _ str c =
     (if 0 < length str then ce_do_set do_table t col_key key instr_Set c else Some (Inr c))"

definition ce_erase_substring :: "table_selector \<Rightarrow> table_ref \<Rightarrow> int \<Rightarrow> int \<Rightarrow> nat \<Rightarrow> nat \<Rightarrow> conv \<Rightarrow> conv tres" where
  "ce_erase_substring do_table t col_key key _ n c =
     (if 0 < n then ce_do_set do_table t col_key key instr_Set c else Some (Inr c))"

text \<open>
  \<open>list_set_int\<close> to \<open>list_set_timestamp\<close> and \<open>list_insert_int\<close> to \<open>list_insert_timestamp\<close>, which differ
  in the type of the value only.
\<close>

definition ce_list_set :: "list_selector \<Rightarrow> list_ref \<Rightarrow> nat \<Rightarrow> 'v \<Rightarrow> conv \<Rightarrow> conv tres" where
  "ce_list_set do_list list list_ndx _ c = tres_bind (ce_select_list do_list list c) (ce_encode (enc_list_set list_ndx))"

definition ce_list_insert :: "list_selector \<Rightarrow> list_ref \<Rightarrow> nat \<Rightarrow> 'v \<Rightarrow> conv \<Rightarrow> conv tres" where
  "ce_list_insert do_list list list_ndx _ c = tres_bind (ce_select_list do_list list c) (ce_encode (enc_list_insert list_ndx))"

definition ce_create_object :: "table_selector \<Rightarrow> table_ref \<Rightarrow> int \<Rightarrow> conv \<Rightarrow> conv tres" where
  "ce_create_object do_table t key c = tres_bind (ce_select_table do_table t c) (ce_encode (enc_create_object key))"

definition ce_remove_object :: "table_selector \<Rightarrow> table_ref \<Rightarrow> int \<Rightarrow> conv \<Rightarrow> conv tres" where
  "ce_remove_object do_table t key c = tres_bind (ce_select_table do_table t c) (ce_encode (enc_remove_object key))"

definition ce_set_link_type :: "table_selector \<Rightarrow> table_ref \<Rightarrow> int \<Rightarrow> conv \<Rightarrow> conv tres" where
  "ce_set_link_type do_table t col_key c = tres_bind (ce_select_table do_table t c) (ce_encode (enc_set_link_type col_key))"

definition ce_clear_table :: "table_selector \<Rightarrow> table_ref \<Rightarrow> nat \<Rightarrow> conv \<Rightarrow> conv tres" where
  "ce_clear_table do_table t prior_num_rows c =
     tres_bind (ce_select_table do_table t c) (ce_encode (enc_clear_table prior_num_rows))"

definition ce_list_set_null :: "list_selector \<Rightarrow> list_ref \<Rightarrow> nat \<Rightarrow> conv \<Rightarrow> conv tres" where
  "ce_list_set_null do_list list list_ndx c = tres_bind (ce_select_list do_list list c) (ce_encode (enc_list_set list_ndx))"

definition ce_list_insert_null :: "list_selector \<Rightarrow> list_ref \<Rightarrow> nat \<Rightarrow> conv \<Rightarrow> conv tres" where
  "ce_list_insert_null do_list list list_ndx c = tres_bind (ce_select_list do_list list c) (ce_encode (enc_list_insert list_ndx))"

definition ce_list_set_link :: "list_selector \<Rightarrow> list_ref \<Rightarrow> nat \<Rightarrow> int \<Rightarrow> conv \<Rightarrow> conv tres" where
  "ce_list_set_link do_list list link_ndx _ c = tres_bind (ce_select_list do_list list c) (ce_encode (enc_list_set link_ndx))"

definition ce_list_insert_link :: "list_selector \<Rightarrow> list_ref \<Rightarrow> nat \<Rightarrow> int \<Rightarrow> conv \<Rightarrow> conv tres" where
  "ce_list_insert_link do_list list link_ndx _ c = tres_bind (ce_select_list do_list list c) (ce_encode (enc_list_insert link_ndx))"

definition ce_link_list_nullify :: "list_selector \<Rightarrow> list_ref \<Rightarrow> nat \<Rightarrow> conv \<Rightarrow> conv tres" where
  "ce_link_list_nullify do_list list link_ndx c = tres_bind (ce_select_list do_list list c) (ce_encode (enc_list_erase link_ndx))"

definition ce_list_move :: "list_selector \<Rightarrow> list_ref \<Rightarrow> nat \<Rightarrow> nat \<Rightarrow> conv \<Rightarrow> conv tres" where
  "ce_list_move do_list list from_link_ndx to_link_ndx c =
     tres_bind (ce_select_list do_list list c) (ce_encode (enc_list_move from_link_ndx to_link_ndx))"

definition ce_list_swap :: "list_selector \<Rightarrow> list_ref \<Rightarrow> nat \<Rightarrow> nat \<Rightarrow> conv \<Rightarrow> conv tres" where
  "ce_list_swap do_list list link1_ndx link2_ndx c =
     tres_bind (ce_select_list do_list list c) (ce_encode (enc_list_swap link1_ndx link2_ndx))"

definition ce_list_erase :: "list_selector \<Rightarrow> list_ref \<Rightarrow> nat \<Rightarrow> conv \<Rightarrow> conv tres" where
  "ce_list_erase do_list list link_ndx c = tres_bind (ce_select_list do_list list c) (ce_encode (enc_list_erase link_ndx))"

section \<open>Sequences of operations\<close>

datatype scalar =
  V_int int
| V_bool bool
| V_float "32 word"
| V_double "64 word"
| V_string "byte list"
| V_binary "byte list"
| V_timestamp "int \<times> int"
| V_link int
| V_null

datatype change_op =
  Op_insert_table int
| Op_erase_table int
| Op_rename_table int
| Op_insert_column table_ref int
| Op_erase_column table_ref int
| Op_rename_column table_ref int
| Op_set_link_type table_ref int
| Op_set table_ref int int scalar opcode
| Op_add_int table_ref int int int
| Op_nullify table_ref int int
| Op_insert_substring table_ref int int nat "byte list"
| Op_erase_substring table_ref int int nat nat
| Op_create table_ref int
| Op_remove table_ref int
| Op_clear_table table_ref nat
| Op_list_set list_ref nat scalar
| Op_list_insert list_ref nat scalar
| Op_list_nullify list_ref nat
| Op_list_move list_ref nat nat
| Op_list_swap list_ref nat nat
| Op_list_erase list_ref nat

fun run_op :: "table_selector \<Rightarrow> list_selector \<Rightarrow> change_op \<Rightarrow> conv \<Rightarrow> conv tres" where
  "run_op do_table do_list (Op_insert_table k) = ce_insert_group_level_table k"
| "run_op do_table do_list (Op_erase_table k) = ce_erase_group_level_table k"
| "run_op do_table do_list (Op_rename_table k) = ce_rename_group_level_table k"
| "run_op do_table do_list (Op_insert_column t c) = ce_insert_column do_table t c"
| "run_op do_table do_list (Op_erase_column t c) = ce_erase_column do_table t c"
| "run_op do_table do_list (Op_rename_column t c) = ce_rename_column do_table t c"
| "run_op do_table do_list (Op_set_link_type t c) = ce_set_link_type do_table t c"
| "run_op do_table do_list (Op_set t c k v variant) =
     (case v of V_int i \<Rightarrow> ce_set_int do_table t c k i variant
      | V_bool b \<Rightarrow> ce_set_bool do_table t c k b variant
      | V_float f \<Rightarrow> ce_set_float do_table t c k f variant
      | V_double d \<Rightarrow> ce_set_double do_table t c k d variant
      | V_string s \<Rightarrow> ce_set_string do_table t c k s variant
      | V_binary s \<Rightarrow> ce_set_binary do_table t c k s variant
      | V_timestamp s \<Rightarrow> ce_set_timestamp do_table t c k s variant
      | V_link l \<Rightarrow> ce_set_link do_table t c k l variant
      | V_null \<Rightarrow> ce_set_null do_table t c k variant)"
| "run_op do_table do_list (Op_add_int t c k v) = ce_add_int do_table t c k v"
| "run_op do_table do_list (Op_nullify t c k) = ce_nullify_link do_table t c k"
| "run_op do_table do_list (Op_insert_substring t c k pos s) = ce_insert_substring do_table t c k pos s"
| "run_op do_table do_list (Op_erase_substring t c k pos n) = ce_erase_substring do_table t c k pos n"
| "run_op do_table do_list (Op_create t k) = ce_create_object do_table t k"
| "run_op do_table do_list (Op_remove t k) = ce_remove_object do_table t k"
| "run_op do_table do_list (Op_clear_table t n) = ce_clear_table do_table t n"
| "run_op do_table do_list (Op_list_set l i v) =
     (case v of V_null \<Rightarrow> ce_list_set_null do_list l i | V_link k \<Rightarrow> ce_list_set_link do_list l i k
      | _ \<Rightarrow> ce_list_set do_list l i v)"
| "run_op do_table do_list (Op_list_insert l i v) =
     (case v of V_null \<Rightarrow> ce_list_insert_null do_list l i | V_link k \<Rightarrow> ce_list_insert_link do_list l i k
      | _ \<Rightarrow> ce_list_insert do_list l i v)"
| "run_op do_table do_list (Op_list_nullify l i) = ce_link_list_nullify do_list l i"
| "run_op do_table do_list (Op_list_move l i j) = ce_list_move do_list l i j"
| "run_op do_table do_list (Op_list_swap l i j) = ce_list_swap do_list l i j"
| "run_op do_table do_list (Op_list_erase l i) = ce_list_erase do_list l i"

fun run_ops :: "table_selector \<Rightarrow> list_selector \<Rightarrow> change_op list \<Rightarrow> conv \<Rightarrow> conv tres" where
  "run_ops do_table do_list [] c = Some (Inr c)"
| "run_ops do_table do_list (op # ops) c = tres_bind (run_op do_table do_list op c) (run_ops do_table do_list ops)"

section \<open>The selections are right\<close>

text \<open>What the two functions that are not in the repository do.\<close>

definition selectors_ok :: "(int \<Rightarrow> tlog \<Rightarrow> tlog_result) \<Rightarrow> (int \<Rightarrow> int \<Rightarrow> tlog \<Rightarrow> tlog_result) \<Rightarrow>
    table_selector \<Rightarrow> list_selector \<Rightarrow> bool" where
  "selectors_ok sel_table sel_list do_table do_list \<longleftrightarrow>
     (\<forall>t c. do_table t c = tres_bind (ce_encode (sel_table (tr_key t)) c)
        (\<lambda>c. Some (Inr (c\<lparr>ce_table := Some (tr_ptr t)\<rparr>)))) \<and>
     (\<forall>l c. do_list l c = tres_bind (ce_select_table do_table (lr_table l) c)
        (\<lambda>c. tres_bind (ce_encode (sel_list (lr_col l) (lr_obj l)) c)
          (\<lambda>c. Some (Inr (c\<lparr>ce_list := list_id_of l\<rparr>)))))"

text \<open>What an operation means: the instruction it is logged as, and what it applies to.\<close>

datatype target = To_group | To_table table_ref | To_list list_ref

fun op_instr :: "change_op \<Rightarrow> (target \<times> instruction) option" where
  "op_instr (Op_insert_table k) = Some (To_group, Insert_table k)"
| "op_instr (Op_erase_table k) = Some (To_group, Erase_table k)"
| "op_instr (Op_rename_table k) = Some (To_group, Rename_table k)"
| "op_instr (Op_insert_column t c) = Some (To_table t, Insert_column c)"
| "op_instr (Op_erase_column t c) = Some (To_table t, Erase_column c)"
| "op_instr (Op_rename_column t c) = Some (To_table t, Rename_column c)"
| "op_instr (Op_set_link_type t c) = Some (To_table t, Set_link_type c)"
| "op_instr (Op_set t c k v variant) = (if variant = instr_SetDefault then None else Some (To_table t, Modify_object c k))"
| "op_instr (Op_add_int t c k v) = Some (To_table t, Modify_object c k)"
| "op_instr (Op_nullify t c k) = Some (To_table t, Modify_object c k)"
| "op_instr (Op_insert_substring t c k pos s) = (if s = [] then None else Some (To_table t, Modify_object c k))"
| "op_instr (Op_erase_substring t c k pos n) = (if n = 0 then None else Some (To_table t, Modify_object c k))"
| "op_instr (Op_create t k) = Some (To_table t, Create_object k)"
| "op_instr (Op_remove t k) = Some (To_table t, Remove_object k)"
| "op_instr (Op_clear_table t n) = Some (To_table t, Clear_table n)"
| "op_instr (Op_list_set l i v) = Some (To_list l, List_set i)"
| "op_instr (Op_list_insert l i v) = Some (To_list l, List_insert i)"
| "op_instr (Op_list_nullify l i) = Some (To_list l, List_erase i)"
| "op_instr (Op_list_move l i j) = Some (To_list l, List_move i j)"
| "op_instr (Op_list_swap l i j) = Some (To_list l, List_swap i j)"
| "op_instr (Op_list_erase l i) = Some (To_list l, List_erase i)"

fun effect_on :: "target \<Rightarrow> instruction \<Rightarrow> instruction effect" where
  "effect_on To_group i = In_group i"
| "effect_on (To_table t) i = In_table (tr_key t) i"
| "effect_on (To_list l) i = In_list (tr_key (lr_table l)) (lr_col l) (lr_obj l) i"

definition op_effects :: "change_op \<Rightarrow> instruction effect list" where
  "op_effects op = (case op_instr op of None \<Rightarrow> [] | Some (t, i) \<Rightarrow> [effect_on t i])"

text \<open>
  A sequence is well-formed when pointers stand for the tables they say (\<open>keys\<close>), the keys have
  their types, lists are lists of an object, and no element is moved onto itself.
\<close>

fun target_ok :: "(nat \<Rightarrow> int) \<Rightarrow> target \<Rightarrow> bool" where
  "target_ok keys To_group = True"
| "target_ok keys (To_table t) \<longleftrightarrow> tr_key t = keys (tr_ptr t) \<and> instr_ok (Select_table (tr_key t))"
| "target_ok keys (To_list l) \<longleftrightarrow> tr_key (lr_table l) = keys (tr_ptr (lr_table l)) \<and>
     instr_ok (Select_table (tr_key (lr_table l))) \<and> instr_ok (Select_list (lr_col l) (lr_obj l)) \<and> lr_obj l \<noteq> - 1"

definition op_ok :: "(nat \<Rightarrow> int) \<Rightarrow> change_op \<Rightarrow> bool" where
  "op_ok keys op = (case op_instr op of None \<Rightarrow> True | Some (t, i) \<Rightarrow> target_ok keys t \<and> instr_ok i)"

text \<open>The instructions that an operation logs in front of its own, and the selection it leaves.\<close>

type_synonym selection = "nat option \<times> list_id"

fun select_instrs :: "target \<Rightarrow> selection \<Rightarrow> instruction list \<times> selection" where
  "select_instrs To_group s = ([], (None, list_id_new))"
| "select_instrs (To_table t) s =
     ((if fst s = Some (tr_ptr t) then [] else [Select_table (tr_key t)]), (Some (tr_ptr t), list_id_new))"
| "select_instrs (To_list l) s =
     (if list_id_of l = snd s then ([], s)
      else ((if fst s = Some (tr_ptr (lr_table l)) then [] else [Select_table (tr_key (lr_table l))]) @
              [Select_list (lr_col l) (lr_obj l)], (Some (tr_ptr (lr_table l)), list_id_of l)))"

definition sel_of :: "conv \<Rightarrow> selection" where
  "sel_of c = (ce_table c, ce_list c)"

definition emit :: "(int \<Rightarrow> tlog \<Rightarrow> tlog_result) \<Rightarrow> (int \<Rightarrow> int \<Rightarrow> tlog \<Rightarrow> tlog_result) \<Rightarrow> instruction list \<Rightarrow>
    selection \<Rightarrow> conv \<Rightarrow> conv tres" where
  "emit sel_table sel_list is s c = tres_bind (encode_instrs sel_table sel_list is (ce_log c))
     (\<lambda>l. Some (Inr (c\<lparr>ce_log := l, ce_table := fst s, ce_list := snd s\<rparr>)))"

lemma differs_iff [simp]: "list_id_differs a b \<longleftrightarrow> a \<noteq> b"
  by (auto simp: list_id_differs_def)

lemma tres_bind_assoc: "tres_bind (tres_bind r f) g = tres_bind r (\<lambda>x. tres_bind (f x) g)"
  by (auto simp: tres_bind_def split: option.split sum.split)

lemma encode_instrs_append:
  "encode_instrs sel_table sel_list (xs @ ys) t = tres_bind (encode_instrs sel_table sel_list xs t) (encode_instrs sel_table sel_list ys)"
proof (induction xs arbitrary: t)
  case (Cons i xs)
  then show ?case
    by (cases "encode_instr sel_table sel_list i t") (auto simp: tres_bind_def split: option.split sum.split)
qed simp

lemma encode_instrs_one: "encode_instrs sel_table sel_list [i] t = encode_instr sel_table sel_list i t"
  by (cases "encode_instr sel_table sel_list i t") (auto split: sum.split)

lemma conv_updates:
  "c\<lparr>ce_table := a, ce_log := l\<rparr> = c\<lparr>ce_log := l, ce_table := a\<rparr>"
  "c\<lparr>ce_list := i, ce_log := l\<rparr> = c\<lparr>ce_log := l, ce_list := i\<rparr>"
  by simp_all

lemma emit_then_encode:
  "tres_bind (emit sel_table sel_list is s c) (ce_encode (encode_instr sel_table sel_list i)) = emit sel_table sel_list (is @ [i]) s c"
  by (simp add: emit_def ce_encode_def tres_bind_assoc encode_instrs_append encode_instrs_one conv_updates del: encode_instrs.simps(2))

lemma emit_bind:
  "tres_bind (emit sel_table sel_list xs s c) (emit sel_table sel_list ys s') = emit sel_table sel_list (xs @ ys) s' c"
  by (simp add: emit_def tres_bind_assoc encode_instrs_append)

lemma emit_nil [simp]: "emit sel_table sel_list [] (ce_table c, ce_list c) c = Some (Inr c)"
  by (simp add: emit_def)

lemma ce_select_table_emits:
  assumes sel: "selectors_ok sel_table sel_list do_table do_list"
  shows "ce_select_table do_table t c =
    emit sel_table sel_list (fst (select_instrs (To_table t) (sel_of c))) (snd (select_instrs (To_table t) (sel_of c))) c"
  using sel
  by (auto simp: ce_select_table_def selectors_ok_def emit_def ce_encode_def tres_bind_assoc sel_of_def encode_instrs_one
    simp del: encode_instrs.simps(2))

lemma ce_select_list_emits:
  assumes sel: "selectors_ok sel_table sel_list do_table do_list"
  shows "ce_select_list do_list l c =
    emit sel_table sel_list (fst (select_instrs (To_list l) (sel_of c))) (snd (select_instrs (To_list l) (sel_of c))) c"
proof (cases "list_id_of l = ce_list c")
  case False
  have "do_list l c = tres_bind (tres_bind (ce_select_table do_table (lr_table l) c)
      (ce_encode (encode_instr sel_table sel_list (Select_list (lr_col l) (lr_obj l)))))
      (\<lambda>c. Some (Inr (c\<lparr>ce_list := list_id_of l\<rparr>)))"
    using sel by (simp add: selectors_ok_def tres_bind_assoc)
  also have "\<dots> = emit sel_table sel_list (fst (select_instrs (To_list l) (sel_of c))) (snd (select_instrs (To_list l) (sel_of c))) c"
    using False unfolding ce_select_table_emits [OF sel] emit_then_encode by (simp add: emit_def tres_bind_assoc sel_of_def)
  finally show ?thesis using False by (simp add: ce_select_list_def)
qed (simp add: ce_select_list_def sel_of_def)

lemmas ce_defs = ce_insert_group_level_table_def ce_erase_group_level_table_def ce_rename_group_level_table_def
  ce_insert_column_def ce_erase_column_def ce_rename_column_def ce_do_set_def ce_set_int_def ce_add_int_def
  ce_set_bool_def ce_set_float_def ce_set_double_def ce_set_string_def ce_set_binary_def ce_set_timestamp_def
  ce_set_link_def ce_set_null_def ce_nullify_link_def ce_insert_substring_def ce_erase_substring_def ce_list_set_def
  ce_list_insert_def ce_create_object_def ce_remove_object_def ce_set_link_type_def ce_clear_table_def
  ce_list_set_null_def ce_list_insert_null_def ce_list_set_link_def ce_list_insert_link_def
  ce_link_list_nullify_def ce_list_move_def ce_list_swap_def ce_list_erase_def

lemma ce_group_emits:
  "ce_encode (encode_instr sel_table sel_list i) (unselect_all c) = emit sel_table sel_list [i] (None, list_id_new) c"
  by (simp add: emit_def ce_encode_def unselect_all_def encode_instrs_one conv_updates del: encode_instrs.simps(2))

lemma run_op_emits:
  assumes sel: "selectors_ok sel_table sel_list do_table do_list"
  shows "run_op do_table do_list op c =
    (case op_instr op of None \<Rightarrow> Some (Inr c)
     | Some (t, i) \<Rightarrow> emit sel_table sel_list (fst (select_instrs t (sel_of c)) @ [i]) (snd (select_instrs t (sel_of c))) c)"
proof -
  note e = encode_instr.simps [of sel_table sel_list, symmetric]
  note s = ce_select_table_emits [OF sel] ce_select_list_emits [OF sel]
  show ?thesis
    by (cases op) (simp_all add: ce_defs e s emit_then_encode ce_group_emits
      del: encode_instr.simps select_instrs.simps(2,3) split: scalar.split)
qed

text \<open>The observer of the log agrees with the encoder on what is selected.\<close>

definition agree :: "(nat \<Rightarrow> int) \<Rightarrow> selection \<Rightarrow> int option \<Rightarrow> (int \<times> int) option \<Rightarrow> bool" where
  "agree keys s t l \<longleftrightarrow> (\<forall>p. fst s = Some p \<longrightarrow> t = Some (keys p)) \<and>
     (snd s \<noteq> list_id_new \<longrightarrow> t = Some (li_table (snd s)) \<and> l = Some (li_col (snd s), li_obj (snd s)))"

lemma track_needs:
  "is_group i \<Longrightarrow> track i (t, l, es) = Some (None, None, es @ [In_group i])"
  "needs_list i \<Longrightarrow> track i (Some k, Some (c, obj), es) = Some (Some k, Some (c, obj), es @ [In_list k c obj i])"
  by (cases i; simp)+

lemma op_instr_fits:
  assumes "op_instr op = Some (tg, i)"
  shows "case tg of To_group \<Rightarrow> is_group i | To_list l \<Rightarrow> needs_list i
    | To_table t \<Rightarrow> (\<forall>k l es. track i (Some k, l, es) = Some (Some k, l, es @ [In_table k i]))"
  using assms by (cases op) (auto split: if_splits)

lemma select_tracks:
  assumes "op_instr op = Some (tg, i)" "target_ok keys tg" "agree keys s t l"
  shows "\<exists>t' l'. run_handler track (fst (select_instrs tg s) @ [i]) (t, l, es) = Some (t', l', es @ [effect_on tg i]) \<and>
    agree keys (snd (select_instrs tg s)) t' l'"
proof (cases tg)
  case To_group
  then show ?thesis using op_instr_fits [OF assms(1)] by (simp add: track_needs agree_def)
next
  case (To_table tb)
  then show ?thesis using op_instr_fits [OF assms(1)] assms(2,3) by (auto simp: agree_def)
next
  case (To_list ls)
  have n: "needs_list i" using op_instr_fits [OF assms(1)] To_list by simp
  have new: "list_id_of ls \<noteq> list_id_new" using assms(2) To_list by (simp add: list_id_of_def list_id_new_def)
  have id: "li_table (list_id_of ls) = tr_key (lr_table ls)" "li_col (list_id_of ls) = lr_col ls" "li_obj (list_id_of ls) = lr_obj ls"
    by (simp_all add: list_id_of_def)
  show ?thesis
    using n new id assms(2,3) To_list track_needs(2) [OF n] by (auto simp: agree_def)
qed

lemma select_instrs_ok:
  assumes "target_ok keys tg"
  shows "list_all instr_ok (fst (select_instrs tg s))" "length (fst (select_instrs tg s)) \<le> 2"
    "list_all reversible (fst (select_instrs tg s))" "total_steps (fst (select_instrs tg s)) \<le> 2"
  using assms by (cases tg; auto simp: total_steps_def)+

definition op_reversible :: "change_op \<Rightarrow> bool" where
  "op_reversible op = (case op_instr op of None \<Rightarrow> True | Some (t, i) \<Rightarrow> reversible i)"

definition op_steps :: "change_op \<Rightarrow> nat" where
  "op_steps op = (case op_instr op of None \<Rightarrow> 0 | Some (t, i) \<Rightarrow> 2 + steps i)"

text \<open>The instructions a sequence of operations logs.\<close>

fun ops_log :: "change_op list \<Rightarrow> selection \<Rightarrow> instruction list \<times> selection" where
  "ops_log [] s = ([], s)"
| "ops_log (op # ops) s =
     (case op_instr op of
        None \<Rightarrow> ops_log ops s
      | Some (t, i) \<Rightarrow>
          let (xs, s) = select_instrs t s; (ys, s) = ops_log ops s in (xs @ i # ys, s))"

lemma tres_bind_Inr [simp]: "tres_bind r (\<lambda>x. Some (Inr x)) = r"
  by (auto simp: tres_bind_def split: option.split sum.split)

lemma sel_of_emitted [simp]: "sel_of (c\<lparr>ce_log := l, ce_table := a, ce_list := b\<rparr>) = (a, b)"
  by (simp add: sel_of_def)

lemma run_ops_emits:
  assumes sel: "selectors_ok sel_table sel_list do_table do_list"
  shows "run_ops do_table do_list ops c =
    emit sel_table sel_list (fst (ops_log ops (sel_of c))) (snd (ops_log ops (sel_of c))) c"
proof (induction ops arbitrary: c)
  case Nil
  then show ?case by (simp add: sel_of_def)
next
  case (Cons op ops)
  show ?case
  proof (cases "op_instr op")
    case None
    then show ?thesis using Cons by (simp add: run_op_emits [OF sel])
  next
    case (Some ti)
    obtain tg i where ti: "op_instr op = Some (tg, i)" using Some by (cases ti) auto
    obtain xs s where xs: "select_instrs tg (sel_of c) = (xs, s)" by (cases "select_instrs tg (sel_of c)")
    obtain ys s' where ys: "ops_log ops s = (ys, s')" by (cases "ops_log ops s")
    have "run_ops do_table do_list (op # ops) c =
        tres_bind (emit sel_table sel_list (xs @ [i]) s c) (emit sel_table sel_list ys s')"
      using ti xs ys
      by (simp add: run_op_emits [OF sel] Cons.IH emit_def [of _ _ "xs @ [i]"] tres_bind_assoc)
    then show ?thesis using ti xs ys by (simp add: emit_bind Let_def)
  qed
qed

lemma ops_log_ok:
  assumes "list_all (op_ok keys) ops"
  shows "list_all instr_ok (fst (ops_log ops s)) \<and> length (fst (ops_log ops s)) \<le> 3 * length ops \<and>
    (list_all op_reversible ops \<longrightarrow> list_all reversible (fst (ops_log ops s))) \<and>
    total_steps (fst (ops_log ops s)) \<le> sum_list (map op_steps ops)"
  using assms
proof (induction ops arbitrary: s)
  case (Cons op ops)
  show ?case
  proof (cases "op_instr op")
    case None
    then show ?thesis
      using Cons.IH [of s] Cons.prems by (simp add: op_reversible_def op_steps_def)
  next
    case (Some ti)
    obtain tg i where ti: "op_instr op = Some (tg, i)" using Some by (cases ti) auto
    then have ok: "target_ok keys tg" "instr_ok i" using Cons.prems by (simp_all add: op_ok_def)
    show ?thesis
      using select_instrs_ok [OF ok(1), of s] ok(2) ti Cons.IH [of "snd (select_instrs tg s)"] Cons.prems
      by (auto simp: Let_def split_beta op_reversible_def op_steps_def total_steps_def)
  qed
qed (simp add: total_steps_def)

lemma ops_log_all:
  assumes "\<And>k. P (Select_table k)" "\<And>c k. P (Select_list c k)"
  shows "list_all (\<lambda>op. case op_instr op of None \<Rightarrow> True | Some (t, i) \<Rightarrow> P i) ops \<Longrightarrow> list_all P (fst (ops_log ops s))"
proof (induction ops arbitrary: s)
  case (Cons op ops)
  have "list_all P (fst (select_instrs t s))" for t using assms by (cases t) auto
  then show ?case using Cons by (auto simp: Let_def split_beta split: option.splits)
qed simp

text \<open>The log of a sequence of operations, in a fresh buffer.\<close>

lemma run_ops_written:
  assumes "selects_ok sel_table sel_list" "selectors_ok sel_table sel_list do_table do_list"
    "list_all (op_ok keys) ops" "63 * length ops \<le> size_max"
  shows "\<exists>c. run_ops do_table do_list ops conv_new = Some (Inr c) \<and> tlog_ok (ce_log c) \<and>
    written (ce_log c) = bytes_of (fst (ops_log ops (sel_of conv_new)))"
proof -
  let ?is = "fst (ops_log ops (sel_of conv_new))"
  have ok: "list_all instr_ok ?is" "length ?is \<le> 3 * length ops" using ops_log_ok [OF assms(3)] by blast+
  obtain lg where "encode_instrs sel_table sel_list ?is tlog_new = Some (Inr lg)" "tlog_ok lg" "written lg = bytes_of ?is"
    using encode_instrs_ok [OF assms(1) tlog_new_ok(1) ok(1)] ok(2) assms(4) tlog_new_ok(2) by (auto simp: tlog_new_def)
  then show ?thesis
    using run_ops_emits [OF assms(2), of ops conv_new] by (simp add: emit_def conv_new_def)
qed

lemma ops_log_tracks:
  "list_all (op_ok keys) ops \<Longrightarrow> agree keys s t l \<Longrightarrow>
    \<exists>t' l'. run_handler track (fst (ops_log ops s)) (t, l, es) = Some (t', l', es @ concat (map op_effects ops))"
proof (induction ops arbitrary: s t l es)
  case (Cons op ops)
  show ?case
  proof (cases "op_instr op")
    case None
    then show ?thesis using Cons.IH [of s t l es] Cons.prems by (simp add: op_effects_def)
  next
    case (Some ti)
    obtain tg i where ti: "op_instr op = Some (tg, i)" using Some by (cases ti) auto
    then have ok: "target_ok keys tg" using Cons.prems(1) by (simp add: op_ok_def)
    obtain t1 l1 where 1: "run_handler track (fst (select_instrs tg s) @ [i]) (t, l, es) = Some (t1, l1, es @ op_effects op)"
      "agree keys (snd (select_instrs tg s)) t1 l1"
      using select_tracks [OF ti ok Cons.prems(2), of es] ti by (auto simp: op_effects_def)
    have "fst (ops_log (op # ops) s) = (fst (select_instrs tg s) @ [i]) @ fst (ops_log ops (snd (select_instrs tg s)))"
      using ti by (simp add: Let_def split_beta)
    from arg_cong [OF this, of "\<lambda>is. run_handler track is (t, l, es)"]
    have "run_handler track (fst (ops_log (op # ops) s)) (t, l, es) =
        run_handler track (fst (ops_log ops (snd (select_instrs tg s)))) (t1, l1, es @ op_effects op)"
      unfolding run_handler_append [of track "fst (select_instrs tg s) @ [i]"] 1(1) by simp
    moreover obtain t2 l2 where "run_handler track (fst (ops_log ops (snd (select_instrs tg s)))) (t1, l1, es @ op_effects op) =
        Some (t2, l2, (es @ op_effects op) @ concat (map op_effects ops))"
      using Cons.IH [OF _ 1(2), of "es @ op_effects op"] Cons.prems(1) by auto
    ultimately have "run_handler track (fst (ops_log (op # ops) s)) (t, l, es) =
        Some (t2, l2, es @ concat (map op_effects (op # ops)))"
      by (simp only: append_assoc concat.simps list.map)
    then show ?thesis by blast
  qed
qed simp


section \<open>Properties\<close>

lemma agree_new: "agree keys (sel_of conv_new) None None"
  by (simp add: agree_def sel_of_def conv_new_def)

text \<open>
  C14. Whatever sequence of operations is made through the encoder, it fits in the log, and an
  observer of the log sees each operation, in order, under the table or list it was made on:
  leaving out the selection of what is already selected never confuses the targets.
\<close>

theorem operations_apply_to_their_target:
  assumes "selects_ok sel_table sel_list" "selectors_ok sel_table sel_list do_table do_list"
    "list_all (op_ok keys) ops" "63 * length ops \<le> size_max"
  shows "\<exists>c t l. run_ops do_table do_list ops conv_new = Some (Inr c) \<and> tlog_ok (ce_log c) \<and>
    parse simple_next_block track (written (ce_log c)) (None, None, []) = Some (Inr (t, l, concat (map op_effects ops)))"
proof -
  let ?is = "fst (ops_log ops (sel_of conv_new))"
  have ok: "list_all instr_ok ?is" using ops_log_ok [OF assms(3)] by blast
  obtain c where c: "run_ops do_table do_list ops conv_new = Some (Inr c)" "tlog_ok (ce_log c)" "written (ce_log c) = bytes_of ?is"
    using run_ops_written [OF assms] by blast
  obtain t l where "run_handler track ?is (None, None, []) = Some (t, l, concat (map op_effects ops))"
    using ops_log_tracks [OF assms(3) agree_new, of "[]"] by auto
  then show ?thesis using c simple.parse_encoded [OF ok c(3), of track] by (simp add: handled_def)
qed

definition plain_do_table :: table_selector where
  "plain_do_table t c = tres_bind (ce_encode (plain_select_table (tr_key t)) c)
     (\<lambda>c. Some (Inr (c\<lparr>ce_table := Some (tr_ptr t)\<rparr>)))"

definition plain_do_list :: list_selector where
  "plain_do_list l c = tres_bind (ce_select_table plain_do_table (lr_table l) c)
     (\<lambda>c. tres_bind (ce_encode (plain_select_list (lr_col l) (lr_obj l)) c) (\<lambda>c. Some (Inr (c\<lparr>ce_list := list_id_of l\<rparr>))))"

lemma plain_selectors_ok: "selectors_ok plain_select_table plain_select_list plain_do_table plain_do_list"
  by (simp add: selectors_ok_def plain_do_table_def plain_do_list_def)

definition sample_list :: list_ref where
  "sample_list = \<lparr>lr_table = \<lparr>tr_ptr = 1, tr_key = 11\<rparr>, lr_obj = 3, lr_col = 9\<rparr>"

definition sample_ops :: "change_op list" where
  "sample_ops = [Op_create \<lparr>tr_ptr = 1, tr_key = 11\<rparr> 3, Op_list_insert sample_list 0 (V_link 5),
     Op_set \<lparr>tr_ptr = 2, tr_key = 12\<rparr> 8 4 V_null instr_Set, Op_list_erase sample_list 0]"

lemma sample_ops_ok:
  "list_all (op_ok (\<lambda>p. int p + 10)) sample_ops" "63 * length sample_ops \<le> size_max"
  "concat (map op_effects sample_ops) = [In_table 11 (Create_object 3), In_list 11 9 3 (List_insert 0),
     In_table 12 (Modify_object 8 4), In_list 11 9 3 (List_erase 0)]"
  by (simp_all add: sample_ops_def sample_list_def op_ok_def instr_ok_def in_type_def min_of_def max_of_def op_effects_def)

theorem operations_apply_to_their_target_witness:
  "\<exists>c t l. run_ops plain_do_table plain_do_list sample_ops conv_new = Some (Inr c) \<and>
    parse simple_next_block track (written (ce_log c)) (None, None, []) =
      Some (Inr (t, l, [In_table 11 (Create_object 3), In_list 11 9 3 (List_insert 0),
        In_table 12 (Modify_object 8 4), In_list 11 9 3 (List_erase 0)]))"
  using operations_apply_to_their_target [OF plain_selects_ok plain_selectors_ok sample_ops_ok(1,2)] sample_ops_ok(3)
  by auto



end
