(* ===== verification/ObjectChanges.thy ===== *)
theory ObjectChanges
  imports Prelude "HOL-Library.Mapping"
begin

text \<open>
  The changes of the objects of a table (\<open>ObjectChangeSet\<close>, \<open>object_changeset.hpp\<close> and
  \<open>object_changeset.cpp\<close>): the keys inserted and deleted, and the columns modified of each object
  that is neither. An \<open>unordered_set\<close> is a set and an \<open>unordered_map\<close> a \<open>mapping\<close>; no operation
  depends on their order. \<open>clear\<close> only notes that everything was deleted.
\<close>

record object_changes =
  oc_deletions :: "int set"
  oc_insertions :: "int set"
  oc_modifications :: "(int, int set) mapping"
  oc_clear_did_occur :: bool

definition oc_new :: object_changes where
  "oc_new = \<lparr>oc_deletions = {}, oc_insertions = {}, oc_modifications = Mapping.empty, oc_clear_did_occur = False\<rparr>"

definition insertions_add :: "int \<Rightarrow> object_changes \<Rightarrow> object_changes" where
  "insertions_add obj c = c\<lparr>oc_insertions := insert obj (oc_insertions c)\<rparr>"

definition modifications_add :: "int \<Rightarrow> int \<Rightarrow> object_changes \<Rightarrow> object_changes" where
  "modifications_add obj col c =
     (if obj \<notin> oc_insertions c
      then c\<lparr>oc_modifications :=
        Mapping.update obj (insert col (Mapping.lookup_default {} (oc_modifications c) obj)) (oc_modifications c)\<rparr>
      else c)"

definition deletions_add :: "int \<Rightarrow> object_changes \<Rightarrow> object_changes" where
  "deletions_add obj c =
     (let inserted = obj \<in> oc_insertions c;
          c = c\<lparr>oc_modifications := Mapping.delete obj (oc_modifications c), oc_insertions := oc_insertions c - {obj}\<rparr>
      in if \<not> inserted then c\<lparr>oc_deletions := insert obj (oc_deletions c)\<rparr> else c)"

definition oc_clear :: "nat \<Rightarrow> object_changes \<Rightarrow> object_changes" where
  "oc_clear old_size c = \<lparr>oc_deletions = {}, oc_insertions = {}, oc_modifications = Mapping.empty, oc_clear_did_occur = True\<rparr>"

definition insertions_remove :: "int \<Rightarrow> object_changes \<Rightarrow> bool \<times> object_changes" where
  "insertions_remove obj c = (obj \<in> oc_insertions c, c\<lparr>oc_insertions := oc_insertions c - {obj}\<rparr>)"

definition modifications_remove :: "int \<Rightarrow> object_changes \<Rightarrow> bool \<times> object_changes" where
  "modifications_remove obj c =
     (Mapping.lookup (oc_modifications c) obj \<noteq> None, c\<lparr>oc_modifications := Mapping.delete obj (oc_modifications c)\<rparr>)"

definition deletions_remove :: "int \<Rightarrow> object_changes \<Rightarrow> bool \<times> object_changes" where
  "deletions_remove obj c = (obj \<in> oc_deletions c, c\<lparr>oc_deletions := oc_deletions c - {obj}\<rparr>)"

definition deletions_contains :: "object_changes \<Rightarrow> int \<Rightarrow> bool" where
  "deletions_contains c obj = (if oc_clear_did_occur c then obj \<notin> oc_insertions c else obj \<in> oc_deletions c)"

definition insertions_contains :: "object_changes \<Rightarrow> int \<Rightarrow> bool" where
  "insertions_contains c obj = (obj \<in> oc_insertions c)"

definition modifications_contains :: "object_changes \<Rightarrow> int \<Rightarrow> bool" where
  "modifications_contains c obj = (Mapping.lookup (oc_modifications c) obj \<noteq> None)"

definition get_columns_modified :: "object_changes \<Rightarrow> int \<Rightarrow> int set option" where
  "get_columns_modified c obj = Mapping.lookup (oc_modifications c) obj"

definition oc_empty :: "object_changes \<Rightarrow> bool" where
  "oc_empty c \<longleftrightarrow> oc_deletions c = {} \<and> oc_insertions c = {} \<and> Mapping.is_empty (oc_modifications c) \<and> \<not> oc_clear_did_occur c"

definition oc_verify :: "object_changes \<Rightarrow> bool" where
  "oc_verify c \<longleftrightarrow> (\<forall>obj \<in> oc_deletions c. obj \<notin> oc_insertions c)"

text \<open>
  \<open>merge\<close> of a debug build. For an object of \<open>other.m_deletions\<close> that this set has inserted, the
  loop passes its iterator into \<open>other.m_deletions\<close> to \<open>m_deletions.erase\<close>, another container;
  the standard leaves that undefined, so it is \<open>None\<close> like a failing assertion.
\<close>

definition oc_merge :: "object_changes \<Rightarrow> object_changes \<Rightarrow> object_changes option" where
  "oc_merge c other =
     (if oc_empty other then Some c
      else if oc_empty c then Some other
      else do {
        let c = c\<lparr>oc_clear_did_occur := oc_clear_did_occur c \<or> oc_clear_did_occur other\<rparr>;
        realm_assert (oc_verify c);
        realm_assert (oc_verify other);
        realm_assert (\<forall>obj \<in> oc_deletions other. obj \<notin> oc_insertions c);
        let c = c\<lparr>oc_modifications := Mapping.filter (\<lambda>obj _. obj \<notin> oc_deletions other) (oc_modifications c)\<rparr>;
        let c = c\<lparr>oc_insertions := oc_insertions c \<union> oc_insertions other\<rparr>;
        let c = c\<lparr>oc_deletions := oc_deletions c \<union> oc_deletions other\<rparr>;
        let c = c\<lparr>oc_modifications := Mapping.combine (\<union>) (oc_modifications c) (oc_modifications other)\<rparr>;
        realm_assert (oc_verify c);
        Some c
      })"

section \<open>Histories of objects\<close>

text \<open>
  What happens to the objects of a table, and what \<open>TransactLogObserver\<close> records of it. A
  history is followed through the set of the objects that exist, \<open>None\<close> when it creates one that
  exists, or touches one that does not.
\<close>

datatype object_change =
  Created int
| Removed int
| Modified int int
| Cleared nat

fun record_object :: "object_change \<Rightarrow> object_changes \<Rightarrow> object_changes" where
  "record_object (Created k) c = insertions_add k c"
| "record_object (Removed k) c =
     (let (removed, c) = insertions_remove k c;
          c = (if removed then c else deletions_add k c)
      in snd (modifications_remove k c))"
| "record_object (Modified k col) c = modifications_add k col c"
| "record_object (Cleared n) c = oc_clear n c"

fun objects_after :: "object_change \<Rightarrow> int set \<Rightarrow> int set option" where
  "objects_after (Created k) S = (if k \<in> S then None else Some (insert k S))"
| "objects_after (Removed k) S = (if k \<in> S then Some (S - {k}) else None)"
| "objects_after (Modified k col) S = (if k \<in> S then Some S else None)"
| "objects_after (Cleared n) S = Some {}"

fun record_objects :: "object_change list \<Rightarrow> object_changes \<Rightarrow> object_changes" where
  "record_objects [] c = c"
| "record_objects (x # xs) c = record_objects xs (record_object x c)"

fun objects_after_all :: "object_change list \<Rightarrow> int set \<Rightarrow> int set option" where
  "objects_after_all [] S = Some S"
| "objects_after_all (x # xs) S = Option.bind (objects_after x S) (objects_after_all xs)"

definition columns_modified :: "object_change list \<Rightarrow> int \<Rightarrow> int set" where
  "columns_modified xs k = {col. Modified k col \<in> set xs}"

text \<open>A change set describes a history from the objects \<open>S0\<close> to \<open>S\<close>.\<close>

definition describes_objects :: "int set \<Rightarrow> int set \<Rightarrow> object_change list \<Rightarrow> object_changes \<Rightarrow> bool" where
  "describes_objects S0 S xs c \<longleftrightarrow> oc_insertions c \<subseteq> S \<and>
     (if oc_clear_did_occur c then S = oc_insertions c \<and> oc_deletions c = {}
      else oc_deletions c \<subseteq> S0 \<and> S = (S0 - oc_deletions c) \<union> oc_insertions c \<and>
        oc_insertions c \<inter> (S0 - oc_deletions c) = {} \<and>
        (\<forall>k. k \<notin> oc_insertions c \<longrightarrow> Mapping.lookup (oc_modifications c) k =
          (if k \<in> S \<and> columns_modified xs k \<noteq> {} then Some (columns_modified xs k) else None)))"

definition unmodified_insertions :: "object_changes \<Rightarrow> bool" where
  "unmodified_insertions c \<longleftrightarrow> (\<forall>k \<in> oc_insertions c. Mapping.lookup (oc_modifications c) k = None) \<and>
     (oc_clear_did_occur c \<longrightarrow> oc_modifications c = Mapping.empty)"

lemma columns_modified_append [simp]:
  "columns_modified (xs @ ys) k = columns_modified xs k \<union> columns_modified ys k"
  by (auto simp: columns_modified_def)

lemma columns_modified_single [simp]:
  "columns_modified [] k = {}" "columns_modified [Created j] k = {}" "columns_modified [Removed j] k = {}" "columns_modified [Cleared n] k = {}"
  "columns_modified [Modified j col] k = (if k = j then {col} else {})"
  by (auto simp: columns_modified_def)

lemma describes_new: "describes_objects S S [] oc_new" "unmodified_insertions oc_new"
  by (simp_all add: describes_objects_def oc_new_def unmodified_insertions_def)

lemma mapping_lookup_delete: "Mapping.lookup (Mapping.delete k m) j = (if k = j then None else Mapping.lookup m j)"
  by simp

lemmas oc_defs = insertions_add_def modifications_add_def deletions_add_def oc_clear_def insertions_remove_def
  modifications_remove_def Let_def

lemma record_object_ok:
  assumes "describes_objects S0 S xs c" "unmodified_insertions c" "objects_after x S = Some S'"
  shows "describes_objects S0 S' (xs @ [x]) (record_object x c) \<and> unmodified_insertions (record_object x c)"
proof (cases x)
  case (Created k)
  then show ?thesis
    using assms by (auto simp: describes_objects_def unmodified_insertions_def oc_defs split: if_splits)
next
  case (Removed k)
  then show ?thesis
    using assms by (auto simp: describes_objects_def unmodified_insertions_def oc_defs mapping_lookup_delete split: if_splits)
next
  case (Modified k col)
  then show ?thesis
    using assms
    by (auto simp: describes_objects_def unmodified_insertions_def oc_defs lookup_update' lookup_default_def split: if_splits option.splits)
next
  case (Cleared n)
  then show ?thesis
    using assms by (simp add: describes_objects_def unmodified_insertions_def oc_defs)
qed

lemma record_objects_ok:
  "describes_objects S0 S xs c \<Longrightarrow> unmodified_insertions c \<Longrightarrow> objects_after_all ys S = Some S' \<Longrightarrow>
    describes_objects S0 S' (xs @ ys) (record_objects ys c) \<and> unmodified_insertions (record_objects ys c)"
proof (induction ys arbitrary: S xs c)
  case (Cons y ys)
  obtain S1 where S1: "objects_after y S = Some S1" "objects_after_all ys S1 = Some S'"
    using Cons.prems(3) by (auto split: bind_splits)
  then show ?case
    using Cons.IH [of S1 "xs @ [y]" "record_object y c"] record_object_ok [OF Cons.prems(1,2) S1(1)] by simp
qed simp

section \<open>Merging\<close>

lemma objects_after_all_append:
  "objects_after_all (xs @ ys) S = Option.bind (objects_after_all xs S) (objects_after_all ys)"
proof (induction xs arbitrary: S)
  case (Cons x xs)
  then show ?case by (cases "objects_after x S") simp_all
qed simp

lemma is_empty_lookup: "Mapping.is_empty m \<longleftrightarrow> (\<forall>k. Mapping.lookup m k = None)"
  by (auto simp: Mapping.is_empty_def keys_dom_lookup)

lemma merge_describes:
  assumes a: "describes_objects S0 S1 xs c" and b: "describes_objects S1 S2 ys other"
    and ok: "\<not> oc_clear_did_occur other" "(oc_deletions c \<union> oc_deletions other) \<inter> (oc_insertions c \<union> oc_insertions other) = {}"
  shows "\<exists>c'. oc_merge c other = Some c' \<and> describes_objects S0 S2 (xs @ ys) c'"
proof -
  consider "oc_empty other" | "\<not> oc_empty other" "oc_empty c" | "\<not> oc_empty other" "\<not> oc_empty c" by blast
  then show ?thesis
  proof cases
    case 1
    then have e: "oc_deletions other = {}" "oc_insertions other = {}" "\<And>k. Mapping.lookup (oc_modifications other) k = None"
      by (auto simp: oc_empty_def is_empty_lookup)
    then have "S2 = S1" "\<And>k. k \<in> S1 \<Longrightarrow> columns_modified ys k = {}"
      using b ok(1) by (auto simp: describes_objects_def split: if_splits)
    then have "describes_objects S0 S2 (xs @ ys) c" using a by (auto simp: describes_objects_def)
    then show ?thesis using 1 by (simp add: oc_merge_def)
  next
    case 2
    then have e: "oc_deletions c = {}" "oc_insertions c = {}" "\<And>k. Mapping.lookup (oc_modifications c) k = None" "\<not> oc_clear_did_occur c"
      by (auto simp: oc_empty_def is_empty_lookup)
    then have "S1 = S0" "\<And>k. k \<in> S1 \<Longrightarrow> columns_modified xs k = {}"
      using a by (auto simp: describes_objects_def split: if_splits)
    then have "describes_objects S0 S2 (xs @ ys) other" using b ok(1) by (auto simp: describes_objects_def)
    then show ?thesis using 2 by (simp add: oc_merge_def)
  next
    case 3
    let ?c = "c\<lparr>oc_insertions := oc_insertions c \<union> oc_insertions other, oc_deletions := oc_deletions c \<union> oc_deletions other,
      oc_modifications := Mapping.combine (\<union>) (Mapping.filter (\<lambda>obj _. obj \<notin> oc_deletions other) (oc_modifications c)) (oc_modifications other)\<rparr>"
    have m: "oc_merge c other = Some ?c"
      using 3 ok by (auto simp: oc_merge_def oc_verify_def Let_def realm_assert_def)
    have look: "Mapping.lookup (oc_modifications ?c) k =
        combine_options (\<union>) (if k \<in> oc_deletions other then None else Mapping.lookup (oc_modifications c) k)
          (Mapping.lookup (oc_modifications other) k)" for k
      by (auto simp: lookup_combine lookup_filter split: option.split)
    have "describes_objects S0 S2 (xs @ ys) ?c"
    proof (cases "oc_clear_did_occur c")
      case True
      then show ?thesis using a b ok by (auto simp: describes_objects_def)
    next
      case False
      have "Mapping.lookup (oc_modifications ?c) k =
          (if k \<in> S2 \<and> columns_modified (xs @ ys) k \<noteq> {} then Some (columns_modified (xs @ ys) k) else None)"
        if "k \<notin> oc_insertions ?c" for k
        unfolding look using that a b ok False
        by (auto simp: describes_objects_def)
      moreover have "S2 = (S0 - oc_deletions ?c) \<union> oc_insertions ?c" "oc_deletions ?c \<subseteq> S0"
        "oc_insertions ?c \<inter> (S0 - oc_deletions ?c) = {}"
        using a b ok False by (auto simp: describes_objects_def)
      ultimately show ?thesis using False by (auto simp: describes_objects_def)
    qed
    then show ?thesis using m by blast
  qed
qed

section \<open>Properties\<close>





text \<open>
  Where these conditions fail \<open>merge\<close> is wrong: an object that was inserted and then cleared
  away is still reported as inserted and not as deleted, an object that was inserted and then
  modified is reported as modified as well, and for one that was inserted and then deleted the
  behaviour is undefined.
\<close>

theorem object_merge_is_wrong:
  "(\<exists>c. oc_merge (record_objects [Created 5] oc_new) (record_objects [Cleared 1] oc_new) = Some c \<and>
      objects_after_all [Created 5, Cleared 1] {} = Some {} \<and> insertions_contains c 5 \<and> \<not> deletions_contains c 5) \<and>
    (\<exists>c. oc_merge (record_objects [Created 5] oc_new) (record_objects [Modified 5 1] oc_new) = Some c \<and>
      insertions_contains c 5 \<and> modifications_contains c 5) \<and>
    oc_merge (record_objects [Created 5] oc_new) (record_objects [Removed 5] oc_new) = None"
  by (auto simp: oc_defs oc_new_def oc_merge_def oc_empty_def oc_verify_def insertions_contains_def
    deletions_contains_def modifications_contains_def lookup_combine lookup_filter realm_assert_def)

end
