(* ===== verification/ChangeObserver.thy ===== *)
theory ChangeObserver
  imports ChangeHistory TransactEncoder ObjectChanges
begin

text \<open>
  Turning a transaction log into changes (\<open>impl/transact_log_handler.cpp\<close>):
  \<open>TransactLogValidationMixin\<close> and \<open>TransactLogValidator\<close> refuse the schema changes that are not
  supported, and \<open>TransactLogObserver\<close> records what happens to the objects of the tables and to
  the lists that are of interest. The builders of the lists live outside the observer and are
  reached through pointers: they are a store, \<open>ob_builders\<close>, and a pointer is an address in it.
  \<open>None\<close> is a failing assertion, \<open>Inl\<close> the exception.
\<close>

datatype schema_error = Unsupported_schema_change

type_synonym 'a ores = "(schema_error + 'a) option"

section \<open>Validation\<close>

text \<open>The state of the mixin is \<open>m_current_table\<close>.\<close>

fun validate :: "instruction \<Rightarrow> int \<Rightarrow> int ores" where
  "validate (Select_table key) _ = Some (Inr key)"
| "validate (Erase_table _) _ = Some (Inl Unsupported_schema_change)"
| "validate (Rename_table _) _ = Some (Inl Unsupported_schema_change)"
| "validate (Erase_column _) _ = Some (Inl Unsupported_schema_change)"
| "validate (Rename_column _) _ = Some (Inl Unsupported_schema_change)"
| "validate _ current_table = Some (Inr current_table)"

section \<open>The observer\<close>

record list_change_info =
  lc_table :: int
  lc_row :: int
  lc_col :: int
  lc_changes :: nat

record change_info =
  ti_lists :: "list_change_info list"
  ti_tables :: "(int, object_changes) mapping"
  ti_track_all :: bool
  ti_schema_changed :: bool

record observer =
  ob_info :: change_info
  ob_builders :: "nat \<Rightarrow> change_builder"
  ob_current_table :: int
  ob_active_list :: "nat option"
  ob_active_table :: "int option"

definition observer_new :: "change_info \<Rightarrow> (nat \<Rightarrow> change_builder) \<Rightarrow> observer" where
  "observer_new info builders = \<lparr>ob_info = info, ob_builders = builders, ob_current_table = 2 ^ 31 - 1,
     ob_active_list = None, ob_active_table = None\<rparr>"

fun last_list :: "int \<Rightarrow> int \<Rightarrow> int \<Rightarrow> list_change_info list \<Rightarrow> nat option" where
  "last_list table obj col [] = None"
| "last_list table obj col (it # rest) =
     (if lc_table it = table \<and> lc_row it = obj \<and> lc_col it = col then Some (lc_changes it)
      else last_list table obj col rest)"

definition find_list :: "int \<Rightarrow> int \<Rightarrow> observer \<Rightarrow> nat option" where
  "find_list obj col ob = last_list (ob_current_table ob) obj col (rev (ti_lists (ob_info ob)))"

text \<open>Updating the active table through its pointer, and the active list.\<close>

definition upd_table :: "(object_changes \<Rightarrow> object_changes) \<Rightarrow> observer \<Rightarrow> observer" where
  "upd_table f ob = (case ob_active_table ob of None \<Rightarrow> ob
     | Some t \<Rightarrow> ob\<lparr>ob_info := (ob_info ob)\<lparr>ti_tables := Mapping.map_entry t f (ti_tables (ob_info ob))\<rparr>\<rparr>)"

definition upd_list :: "(change_builder \<Rightarrow> change_builder option) \<Rightarrow> observer \<Rightarrow> observer ores" where
  "upd_list f ob = (case ob_active_list ob of None \<Rightarrow> Some (Inr ob)
     | Some p \<Rightarrow> map_option (\<lambda>b. Inr (ob\<lparr>ob_builders := (ob_builders ob)(p := b)\<rparr>)) (f (ob_builders ob p)))"

definition ob_select_table :: "int \<Rightarrow> observer \<Rightarrow> observer" where
  "ob_select_table key ob =
     (let ob = ob\<lparr>ob_current_table := key\<rparr>; info = ob_info ob in
      if ti_track_all info
      then ob\<lparr>ob_info := info\<lparr>ti_tables := Mapping.default key oc_new (ti_tables info)\<rparr>, ob_active_table := Some key\<rparr>
      else if Mapping.lookup (ti_tables info) key = None then ob\<lparr>ob_active_table := None\<rparr>
      else ob\<lparr>ob_active_table := Some key\<rparr>)"

definition ob_modify_object :: "int \<Rightarrow> int \<Rightarrow> observer \<Rightarrow> observer" where
  "ob_modify_object col key = upd_table (modifications_add key col)"

definition ob_select_list :: "int \<Rightarrow> int \<Rightarrow> observer \<Rightarrow> observer" where
  "ob_select_list col obj ob = (let ob = ob_modify_object col obj ob in ob\<lparr>ob_active_list := find_list obj col ob\<rparr>)"

definition ob_list_set :: "nat \<Rightarrow> nat \<Rightarrow> observer \<Rightarrow> observer ores" where
  "ob_list_set mx index = upd_list (\<lambda>b. modify mx b index None)"

definition ob_list_insert :: "nat \<Rightarrow> nat \<Rightarrow> observer \<Rightarrow> observer ores" where
  "ob_list_insert mx index = upd_list (\<lambda>b. insert_rows mx b index 1 True)"

definition ob_list_erase :: "nat \<Rightarrow> nat \<Rightarrow> observer \<Rightarrow> observer ores" where
  "ob_list_erase mx index = upd_list (\<lambda>b. erase_row mx b index)"

definition ob_list_swap :: "nat \<Rightarrow> nat \<Rightarrow> nat \<Rightarrow> observer \<Rightarrow> observer ores" where
  "ob_list_swap mx index1 index2 = upd_list (\<lambda>b. do {
     let (index1, index2) = (if index1 > index2 then (index2, index1) else (index1, index2));
     b \<leftarrow> move_row mx b index1 index2;
     if index1 + 1 \<noteq> index2 then move_row mx b (index2 - 1) index1 else Some b
   })"

definition ob_list_clear :: "nat \<Rightarrow> nat \<Rightarrow> observer \<Rightarrow> observer ores" where
  "ob_list_clear mx old_size = upd_list (\<lambda>b. clear_rows mx b old_size)"

definition ob_list_move :: "nat \<Rightarrow> nat \<Rightarrow> nat \<Rightarrow> observer \<Rightarrow> observer ores" where
  "ob_list_move mx src to = upd_list (\<lambda>b. move_row mx b src to)"

definition ob_create_object :: "int \<Rightarrow> observer \<Rightarrow> observer" where
  "ob_create_object key = upd_table (insertions_add key)"

text \<open>
  The loop of \<open>remove_object\<close> over the lists: the last one takes the place of one that is removed,
  and the loop goes on behind it.
\<close>

function remove_lists :: "int \<Rightarrow> int \<Rightarrow> nat \<Rightarrow> list_change_info list \<Rightarrow> list_change_info list" where
  "remove_lists table key i infos =
     (if i < length infos then
        let l = infos ! i in
        if lc_table l \<noteq> table then remove_lists table key (i + 1) infos
        else if lc_row l = key then
          remove_lists table key (i + 1) (butlast (if i + 1 < length infos then infos[i := last infos] else infos))
        else remove_lists table key (i + 1) infos
      else infos)"
  by auto
termination by (relation "measure (\<lambda>(table, key, i, infos). length infos - i)") auto

declare remove_lists.simps [simp del]

definition ob_remove_object :: "int \<Rightarrow> observer \<Rightarrow> observer" where
  "ob_remove_object key ob =
     (if ob_active_table ob = None then ob
      else
        let ob = upd_table (record_object (Removed key)) ob; info = ob_info ob
        in ob\<lparr>ob_info := info\<lparr>ti_lists := remove_lists (ob_current_table ob) key 0 (ti_lists info)\<rparr>\<rparr>)"

definition ob_clear_table :: "nat \<Rightarrow> observer \<Rightarrow> observer" where
  "ob_clear_table old_size ob =
     (let ob = upd_table (oc_clear old_size) ob; info = ob_info ob
      in ob\<lparr>ob_info := info\<lparr>ti_lists := filter (\<lambda>l. lc_table l \<noteq> ob_current_table ob) (ti_lists info)\<rparr>\<rparr>)"

definition ob_schema_changed :: "observer \<Rightarrow> observer" where
  "ob_schema_changed ob = ob\<lparr>ob_info := (ob_info ob)\<lparr>ti_schema_changed := True\<rparr>\<rparr>"

definition ob_insert_column :: "int \<Rightarrow> observer \<Rightarrow> observer" where
  "ob_insert_column _ = ob_schema_changed"

definition ob_insert_group_level_table :: "int \<Rightarrow> observer \<Rightarrow> observer" where
  "ob_insert_group_level_table _ = ob_schema_changed"

fun observe :: "nat \<Rightarrow> instruction \<Rightarrow> observer \<Rightarrow> observer ores" where
  "observe mx (Select_table k) ob = Some (Inr (ob_select_table k ob))"
| "observe mx (Select_list c k) ob = Some (Inr (ob_select_list c k ob))"
| "observe mx (Insert_table k) ob = Some (Inr (ob_insert_group_level_table k ob))"
| "observe mx (Insert_column c) ob = Some (Inr (ob_insert_column c ob))"
| "observe mx (Create_object k) ob = Some (Inr (ob_create_object k ob))"
| "observe mx (Remove_object k) ob = Some (Inr (ob_remove_object k ob))"
| "observe mx (Modify_object c k) ob = Some (Inr (ob_modify_object c k ob))"
| "observe mx (Clear_table n) ob = Some (Inr (ob_clear_table n ob))"
| "observe mx (List_insert i) ob = ob_list_insert mx i ob"
| "observe mx (List_set i) ob = ob_list_set mx i ob"
| "observe mx (List_move i j) ob = ob_list_move mx i j ob"
| "observe mx (List_swap i j) ob = ob_list_swap mx i j ob"
| "observe mx (List_erase i) ob = ob_list_erase mx i ob"
| "observe mx (List_clear n) ob = ob_list_clear mx n ob"
| "observe mx i ob = tres_bind (validate i (ob_current_table ob)) (\<lambda>t. Some (Inr (ob\<lparr>ob_current_table := t\<rparr>)))"

text \<open>\<open>parse_complete\<close>.\<close>

fun clean_up_lists :: "nat \<Rightarrow> list_change_info list \<Rightarrow> (nat \<Rightarrow> change_builder) \<Rightarrow> (nat \<Rightarrow> change_builder) option" where
  "clean_up_lists mx [] bs = Some bs"
| "clean_up_lists mx (l # ls) bs = do {
     b \<leftarrow> clean_up_stale_moves mx (bs (lc_changes l));
     clean_up_lists mx ls (bs(lc_changes l := b))
   }"

definition parse_complete :: "nat \<Rightarrow> observer \<Rightarrow> observer option" where
  "parse_complete mx ob = do {
     let info = ob_info ob;
     bs \<leftarrow> clean_up_lists mx (ti_lists info) (ob_builders ob);
     Some (ob\<lparr>ob_builders := bs, ob_info := info\<lparr>ti_tables := Mapping.filter (\<lambda>_ c. \<not> oc_empty c) (ti_tables info)\<rparr>\<rparr>)
   }"

definition observer_handler :: "nat \<Rightarrow> observer ores handler" where
  "observer_handler mx i h = Some (tres_bind h (observe mx i))"

section \<open>Which lists stay\<close>

definition list_key :: "list_change_info \<Rightarrow> int \<times> int \<times> int" where
  "list_key l = (lc_table l, lc_row l, lc_col l)"

definition infos_ok :: "list_change_info list \<Rightarrow> bool" where
  "infos_ok ls \<longleftrightarrow> distinct (map list_key ls) \<and> distinct (map lc_changes ls)"

lemma mset_swap_remove:
  assumes "i < length xs"
  shows "mset (butlast (if i + 1 < length xs then xs[i := last xs] else xs)) = mset xs - {#xs ! i#}"
proof -
  obtain ys y where xs: "xs = ys @ [y]" using assms by (cases xs rule: rev_cases) auto
  show ?thesis
  proof (cases "i + 1 < length xs")
    case True
    then have i: "i < length ys" using xs by simp
    then have "mset (ys[i := y]) = add_mset y (mset ys - {#ys ! i#})" by (rule mset_update)
    then show ?thesis using True xs i by (simp add: list_update_append nth_append)
  next
    case False
    then show ?thesis using assms xs by (simp add: nth_append)
  qed
qed

lemma remove_lists_mset:
  "\<exists>R. mset ls = mset (remove_lists table key i ls) + R \<and> (\<forall>l \<in># R. lc_table l = table \<and> lc_row l = key)"
proof (induction table key i ls rule: remove_lists.induct)
  case (1 table key i ls)
  show ?case
  proof (cases "i < length ls \<and> lc_table (ls ! i) = table \<and> lc_row (ls ! i) = key")
    case True
    let ?ls = "butlast (if i + 1 < length ls then ls[i := last ls] else ls)"
    have m: "mset ls = mset ?ls + {#ls ! i#}"
      using mset_swap_remove [of i ls] True by simp
    obtain R where "mset ?ls = mset (remove_lists table key (i + 1) ?ls) + R"
      "\<forall>l \<in># R. lc_table l = table \<and> lc_row l = key"
      using 1(2) True by auto
    then show ?thesis using True m by (intro exI [of _ "R + {#ls ! i#}"]) (subst remove_lists.simps, auto)
  next
    case False
    then show ?thesis using 1(1,3) by (subst remove_lists.simps) (auto simp: Let_def intro: exI [of _ "{#}"])
  qed
qed

lemma distinct_map_subset:
  assumes "distinct (map f ls)" "mset ls = mset ms + R"
  shows "distinct (map f ms)"
proof -
  obtain rs where rs: "mset rs = R" using ex_mset by blast
  have "mset (map f ls) = mset (map f (ms @ rs))" using assms(2) rs by simp
  then have "distinct (map f (ms @ rs))" using assms(1) mset_eq_imp_distinct_iff by blast
  then show ?thesis by simp
qed

lemma infos_ok_subset: "infos_ok ls \<Longrightarrow> mset ls = mset ms + R \<Longrightarrow> infos_ok ms"
  by (auto simp: infos_ok_def elim: distinct_map_subset)

lemma last_list_cases:
  "last_list table obj col ls = (case filter (\<lambda>l. list_key l = (table, obj, col)) ls of [] \<Rightarrow> None | l # _ \<Rightarrow> Some (lc_changes l))"
  by (induction ls) (auto simp: list_key_def)

lemma find_list_tracked:
  assumes "infos_ok (ti_lists (ob_info ob))" "l \<in> set (ti_lists (ob_info ob))"
  shows "find_list obj col ob = Some (lc_changes l) \<longleftrightarrow> list_key l = (ob_current_table ob, obj, col)"
proof -
  let ?ls = "filter (\<lambda>l. list_key l = (ob_current_table ob, obj, col)) (rev (ti_lists (ob_info ob)))"
  have k: "inj_on list_key (set (ti_lists (ob_info ob)))" "inj_on lc_changes (set (ti_lists (ob_info ob)))"
    using assms(1) by (simp_all add: infos_ok_def distinct_map)
  have f: "find_list obj col ob = (case ?ls of [] \<Rightarrow> None | l # _ \<Rightarrow> Some (lc_changes l))"
    by (simp add: find_list_def last_list_cases)
  show ?thesis
  proof (cases ?ls)
    case Nil
    then have "list_key l \<noteq> (ob_current_table ob, obj, col)" using assms(2) by (auto simp: filter_empty_conv)
    then show ?thesis using f Nil by simp
  next
    case (Cons l' rest)
    then have l': "l' \<in> set (ti_lists (ob_info ob))" "list_key l' = (ob_current_table ob, obj, col)"
      using list.set_intros(1) [of l' rest] by (simp_all flip: Cons)
    then show ?thesis
      using f Cons inj_on_eq_iff [OF k(1) assms(2) l'(1)] inj_on_eq_iff [OF k(2) l'(1) assms(2)] by auto
  qed
qed

section \<open>What is recorded of a list\<close>

fun instr_changes :: "instruction \<Rightarrow> change list" where
  "instr_changes (List_insert i) = [Insert i 1]"
| "instr_changes (List_set i) = [Modify i]"
| "instr_changes (List_erase i) = [Erase i]"
| "instr_changes (List_move i j) = [Move i j]"
| "instr_changes (List_swap i j) =
     Move (min i j) (max i j) # (if min i j + 1 \<noteq> max i j then [Move (max i j - 1) (min i j)] else [])"
| "instr_changes _ = []"

fun effect_changes :: "list_change_info \<Rightarrow> instruction effect \<Rightarrow> change list" where
  "effect_changes l (In_list k c obj i) = (if list_key l = (k, obj, c) then instr_changes i else [])"
| "effect_changes l _ = []"

definition list_history :: "list_change_info \<Rightarrow> instruction effect list \<Rightarrow> change list" where
  "list_history l es = concat (map (effect_changes l) es)"

text \<open>Nothing in the effects removes the list, or clears it.\<close>

fun keeps_list :: "list_change_info \<Rightarrow> instruction effect \<Rightarrow> bool" where
  "keeps_list l (In_table k (Remove_object obj)) \<longleftrightarrow> (k, obj) \<noteq> (lc_table l, lc_row l)"
| "keeps_list l (In_table k (Clear_table n)) \<longleftrightarrow> k \<noteq> lc_table l"
| "keeps_list l (In_list k c obj (List_clear n)) \<longleftrightarrow> list_key l \<noteq> (k, obj, c)"
| "keeps_list l _ = True"

text \<open>Positions are below the sentinel, and elements are not moved or swapped in place.\<close>

fun positions_ok :: "instruction \<Rightarrow> bool" where
  "positions_ok (List_erase i) \<longleftrightarrow> i < npos"
| "positions_ok (List_move i j) \<longleftrightarrow> i \<noteq> j \<and> i < npos"
| "positions_ok (List_swap i j) \<longleftrightarrow> i \<noteq> j \<and> i < npos \<and> j < npos"
| "positions_ok _ = True"

fun schema_ok :: "instruction \<Rightarrow> bool" where
  "schema_ok (Erase_table _) = False"
| "schema_ok (Rename_table _) = False"
| "schema_ok (Erase_column _) = False"
| "schema_ok (Rename_column _) = False"
| "schema_ok _ = True"

lemma record_changes_append:
  "record_changes mx c (xs @ ys) = Option.bind (record_changes mx c xs) (\<lambda>c. record_changes mx c ys)"
proof (induction xs arbitrary: c)
  case (Cons x xs)
  then show ?case by (cases "record_change mx c x") simp_all
qed simp

lemma instr_changes_valid: "positions_ok i \<Longrightarrow> list_all valid_change (instr_changes i)"
  by (cases i) auto

text \<open>The list instructions record their changes in the active builder.\<close>

lemma observe_list:
  assumes "needs_list i" "\<And>n. i \<noteq> List_clear n"
  shows "observe mx i ob = upd_list (\<lambda>b. record_changes mx b (instr_changes i)) ob"
  using assms
  by (cases i) (auto simp: ob_list_set_def ob_list_insert_def ob_list_erase_def ob_list_move_def ob_list_swap_def
    upd_list_def Let_def min_def max_def split: option.split if_splits)

definition builders_ok :: "nat \<Rightarrow> observer \<Rightarrow> bool" where
  "builders_ok mx ob \<longleftrightarrow> (\<forall>p. builder_ok mx (ob_builders ob p))"

lemma observe_list_ok:
  assumes "needs_list i" "positions_ok i" "builders_ok mx ob"
  shows "\<exists>b. observe mx i ob = Some (Inr (ob\<lparr>ob_builders := b\<rparr>)) \<and> builders_ok mx (ob\<lparr>ob_builders := b\<rparr>) \<and>
    (\<forall>p. ob_active_list ob \<noteq> Some p \<longrightarrow> b p = ob_builders ob p) \<and>
    (\<forall>p. ob_active_list ob = Some p \<longrightarrow> (\<forall>n. i \<noteq> List_clear n) \<longrightarrow>
      record_changes mx (ob_builders ob p) (instr_changes i) = Some (b p))"
proof (cases "ob_active_list ob")
  case None
  then have "observe mx i ob = Some (Inr (ob\<lparr>ob_builders := ob_builders ob\<rparr>))"
    using assms(1) by (cases i) (simp_all add: ob_list_set_def ob_list_insert_def ob_list_erase_def
      ob_list_move_def ob_list_swap_def ob_list_clear_def upd_list_def)
  then show ?thesis using None assms(3) by (intro exI [of _ "ob_builders ob"]) (simp add: builders_ok_def)
next
  case (Some p)
  have ok: "builder_ok mx (ob_builders ob p)" using assms(3) by (simp add: builders_ok_def)
  show ?thesis
  proof (cases "\<exists>n. i = List_clear n")
    case True
    then obtain n b where "i = List_clear n" "clear_rows mx (ob_builders ob p) n = Some b" "builder_ok mx b"
      using clear_rows_ok [OF ok] by blast
    then show ?thesis using Some assms(3)
      by (intro exI [of _ "(ob_builders ob)(p := b)"]) (auto simp: ob_list_clear_def upd_list_def builders_ok_def)
  next
    case False
    obtain b where "record_changes mx (ob_builders ob p) (instr_changes i) = Some b" "builder_ok mx b"
      using record_changes_ok [OF ok instr_changes_valid [OF assms(2)]] by blast
    then show ?thesis using Some assms(3) False observe_list [OF assms(1)]
      by (intro exI [of _ "(ob_builders ob)(p := b)"]) (auto simp: upd_list_def builders_ok_def)
  qed
qed

section \<open>Following one list\<close>

text \<open>
  The observer after a log whose tracker stands at \<open>(t, l, es)\<close>: they agree on the selections as
  far as the list \<open>li\<close> is concerned, and its builder has recorded its history.
\<close>

definition observes :: "nat \<Rightarrow> list_change_info \<Rightarrow> tracker \<Rightarrow> observer \<Rightarrow> bool" where
  "observes mx li tr ob = (case tr of (t, l, es) \<Rightarrow>
     builders_ok mx ob \<and> infos_ok (ti_lists (ob_info ob)) \<and> li \<in> set (ti_lists (ob_info ob)) \<and>
     (\<forall>k. t = Some k \<longrightarrow> ob_current_table ob = k) \<and> (l \<noteq> None \<longrightarrow> t \<noteq> None) \<and>
     (\<forall>k c obj. t = Some k \<longrightarrow> l = Some (c, obj) \<longrightarrow> (ob_active_list ob = Some (lc_changes li) \<longleftrightarrow> list_key li = (k, obj, c))) \<and>
     record_changes mx empty_builder (list_history li es) = Some (ob_builders ob (lc_changes li)))"

lemma list_history_snoc: "list_history li (es @ [e]) = list_history li es @ effect_changes li e"
  by (simp add: list_history_def)

lemma upd_table_simps [simp]:
  "ob_builders (upd_table f ob) = ob_builders ob" "ob_current_table (upd_table f ob) = ob_current_table ob"
  "ob_active_list (upd_table f ob) = ob_active_list ob" "ti_lists (ob_info (upd_table f ob)) = ti_lists (ob_info ob)"
  by (simp_all add: upd_table_def split: option.split)

lemma select_table_simps [simp]:
  "ob_builders (ob_select_table k ob) = ob_builders ob" "ob_current_table (ob_select_table k ob) = k"
  "ti_lists (ob_info (ob_select_table k ob)) = ti_lists (ob_info ob)"
  by (simp_all add: ob_select_table_def Let_def)

lemma select_list_simps [simp]:
  "ob_builders (ob_select_list c k ob) = ob_builders ob" "ob_current_table (ob_select_list c k ob) = ob_current_table ob"
  "ti_lists (ob_info (ob_select_list c k ob)) = ti_lists (ob_info ob)"
  "ob_active_list (ob_select_list c k ob) = find_list k c (upd_table (modifications_add k c) ob)"
  by (simp_all add: ob_select_list_def ob_modify_object_def Let_def)

text \<open>The instructions that touch neither the selection nor the builders.\<close>

lemma observe_other:
  assumes "\<not> needs_list i" "schema_ok i" "\<And>k. i \<noteq> Select_table k" "\<And>c k. i \<noteq> Select_list c k"
  shows "\<exists>ob'. observe mx i ob = Some (Inr ob') \<and> ob_builders ob' = ob_builders ob \<and>
    ob_current_table ob' = ob_current_table ob \<and> ob_active_list ob' = ob_active_list ob \<and>
    (\<exists>R. mset (ti_lists (ob_info ob)) = mset (ti_lists (ob_info ob')) + R \<and>
      (\<forall>li \<in># R. \<not> keeps_list li (In_table (ob_current_table ob) i)))"
proof -
  consider k where "i = Remove_object k" | n where "i = Clear_table n"
    | "\<And>k. i \<noteq> Remove_object k" "\<And>n. i \<noteq> Clear_table n" by blast
  then show ?thesis
  proof cases
    case (1 k)
    then show ?thesis
      using remove_lists_mset [of "ti_lists (ob_info ob)" "ob_current_table ob" k 0]
      by (auto simp: ob_remove_object_def Let_def)
  next
    case (2 n)
    have "mset (ti_lists (ob_info ob)) = mset (filter (\<lambda>l. lc_table l \<noteq> ob_current_table ob) (ti_lists (ob_info ob))) +
        filter_mset (\<lambda>l. lc_table l = ob_current_table ob) (mset (ti_lists (ob_info ob)))"
      using multiset_partition [of "mset (ti_lists (ob_info ob))" "\<lambda>l. lc_table l \<noteq> ob_current_table ob"] by simp
    then show ?thesis using 2
      by (intro exI [of _ "ob_clear_table n ob"] conjI
          exI [of _ "filter_mset (\<lambda>l. lc_table l = ob_current_table ob) (mset (ti_lists (ob_info ob)))"])
        (simp_all add: ob_clear_table_def Let_def)
  next
    case 3
    then show ?thesis using assms
      by (cases i) (auto simp: ob_insert_group_level_table_def ob_insert_column_def ob_schema_changed_def
        ob_create_object_def ob_modify_object_def intro: exI [of _ "{#}"])
  qed
qed

lemma keeps_in: "mset ls = mset ms + R \<Longrightarrow> li \<in> set ls \<Longrightarrow> (\<forall>l \<in># R. \<not> P l) \<Longrightarrow> P li \<Longrightarrow> li \<in> set ms"
  by (metis set_mset_mset union_iff)

lemma observe_step:
  assumes ob: "observes mx li (t, l, es) ob" and tr: "track i (t, l, es) = Some (t', l', es @ fs)"
    and ok: "positions_ok i" "schema_ok i" "list_all (keeps_list li) fs"
  shows "\<exists>ob'. observe mx i ob = Some (Inr ob') \<and> observes mx li (t', l', es @ fs) ob'"
proof -
  note o = ob [unfolded observes_def prod.case]
  consider k where "i = Select_table k" | c k where "i = Select_list c k" | "needs_list i"
    | "\<not> needs_list i" "\<And>k. i \<noteq> Select_table k" "\<And>c k. i \<noteq> Select_list c k" by blast
  then show ?thesis
  proof cases
    case (1 k)
    then show ?thesis using o tr by (auto simp: observes_def builders_ok_def)
  next
    case (2 c k)
    let ?ob = "upd_table (modifications_add k c) ob"
    have "find_list k c ?ob = Some (lc_changes li) \<longleftrightarrow> list_key li = (ob_current_table ob, k, c)"
      using find_list_tracked [of ?ob li k c] o by simp
    then show ?thesis using 2 o tr by (auto simp: observes_def builders_ok_def split: if_splits)
  next
    case 3
    obtain k c obj where sel: "t = Some k" "l = Some (c, obj)" "t' = t" "l' = l" "fs = [In_list k c obj i]"
      using tr 3 by (cases i) (auto split: option.splits)
    obtain b where b: "observe mx i ob = Some (Inr (ob\<lparr>ob_builders := b\<rparr>))" "builders_ok mx (ob\<lparr>ob_builders := b\<rparr>)"
      "\<forall>p. ob_active_list ob \<noteq> Some p \<longrightarrow> b p = ob_builders ob p"
      "\<forall>p. ob_active_list ob = Some p \<longrightarrow> (\<forall>n. i \<noteq> List_clear n) \<longrightarrow>
        record_changes mx (ob_builders ob p) (instr_changes i) = Some (b p)"
      using observe_list_ok [OF 3 ok(1) o [THEN conjunct1]] by blast
    have "record_changes mx empty_builder (list_history li (es @ fs)) = Some (b (lc_changes li))"
    proof (cases "list_key li = (k, obj, c)")
      case True
      then have "ob_active_list ob = Some (lc_changes li)" "\<forall>n. i \<noteq> List_clear n" using o sel ok(3) by auto
      then show ?thesis using b(4) o True sel by (simp add: list_history_snoc record_changes_append)
    next
      case False
      then have "ob_active_list ob \<noteq> Some (lc_changes li)" using o sel by auto
      then show ?thesis using b(3) o False sel by (simp add: list_history_snoc)
    qed
    then show ?thesis using b(1,2) o sel by (auto simp: observes_def)
  next
    case 4
    obtain ob' R where ob': "observe mx i ob = Some (Inr ob')" "ob_builders ob' = ob_builders ob"
      "ob_current_table ob' = ob_current_table ob" "ob_active_list ob' = ob_active_list ob"
      "mset (ti_lists (ob_info ob)) = mset (ti_lists (ob_info ob')) + R"
      "\<forall>li \<in># R. \<not> keeps_list li (In_table (ob_current_table ob) i)"
      using observe_other [OF 4(1) ok(2) 4(2,3)] by blast
    have fs: "is_group i \<and> t' = None \<and> l' = None \<and> fs = [In_group i] \<or>
      (\<exists>k. t = Some k \<and> t' = t \<and> l' = l \<and> \<not> is_group i \<and> fs = [In_table k i])"
      using tr 4 by (cases i) (auto split: option.splits)
    have "is_group i \<Longrightarrow> keeps_list li (In_table (ob_current_table ob) i)" by (cases i) simp_all
    then have "keeps_list li (In_table (ob_current_table ob) i)" using fs ok(3) o by auto
    then have "li \<in> set (ti_lists (ob_info ob'))"
      using keeps_in [OF ob'(5) _ ob'(6)] o by blast
    moreover have "infos_ok (ti_lists (ob_info ob'))" using infos_ok_subset [OF _ ob'(5)] o by blast
    moreover have "list_history li (es @ fs) = list_history li es" using fs by (auto simp: list_history_snoc)
    ultimately have "observes mx li (t', l', es @ fs) ob'"
      using fs o ob'(2-4) unfolding observes_def prod.case builders_ok_def by auto
    then show ?thesis using ob'(1) by blast
  qed
qed

fun run_observer :: "nat \<Rightarrow> instruction list \<Rightarrow> observer \<Rightarrow> observer ores" where
  "run_observer mx [] ob = Some (Inr ob)"
| "run_observer mx (i # is) ob = tres_bind (observe mx i ob) (run_observer mx is)"

lemma run_handler_observer:
  "run_handler (observer_handler mx) is h = Some (tres_bind h (run_observer mx is))"
proof (induction "is" arbitrary: h)
  case Nil
  then show ?case by (cases h) (auto simp: tres_bind_def split: option.split sum.split)
next
  case (Cons i "is")
  then show ?case by (cases h) (auto simp: observer_handler_def tres_bind_def split: option.split sum.split)
qed

lemma track_extends:
  assumes "track i (t, l, es) = Some (t', l', es')"
  obtains fs where "es' = es @ fs"
  using assms by (cases i) (auto split: option.splits if_splits)

lemma run_track_extends:
  "run_handler track is (t, l, es) = Some (t', l', es') \<Longrightarrow> \<exists>fs. es' = es @ fs"
proof (induction "is" arbitrary: t l es)
  case (Cons i "is")
  then obtain t1 l1 es1 where 1: "track i (t, l, es) = Some (t1, l1, es1)" "run_handler track is (t1, l1, es1) = Some (t', l', es')"
    by (auto split: bind_splits)
  obtain fs where "es1 = es @ fs" using track_extends [OF 1(1)] by blast
  then show ?case using Cons.IH [OF 1(2)] by auto
qed simp

lemma run_observer_ok:
  "observes mx li (t, l, es) ob \<Longrightarrow> run_handler track is (t, l, es) = Some (t', l', es') \<Longrightarrow>
    list_all positions_ok is \<Longrightarrow> list_all schema_ok is \<Longrightarrow> list_all (keeps_list li) es' \<Longrightarrow>
    \<exists>ob'. run_observer mx is ob = Some (Inr ob') \<and> observes mx li (t', l', es') ob'"
proof (induction "is" arbitrary: t l es ob)
  case (Cons i "is")
  obtain t1 l1 es1 where 1: "track i (t, l, es) = Some (t1, l1, es1)" "run_handler track is (t1, l1, es1) = Some (t', l', es')"
    using Cons.prems(2) by (auto split: bind_splits)
  obtain fs gs where fs: "es1 = es @ fs" "es' = es1 @ gs" using track_extends [OF 1(1)] run_track_extends [OF 1(2)] by blast
  obtain ob1 where "observe mx i ob = Some (Inr ob1)" "observes mx li (t1, l1, es1) ob1"
    using observe_step [OF Cons.prems(1), of i t1 l1 fs] 1(1) fs Cons.prems(3-5) by auto
  then show ?case using Cons.IH [OF _ 1(2)] Cons.prems(3-5) by auto
qed simp

lemma track_effect_valid:
  assumes "track i (t, l, es) = Some (t', l', es @ fs)" "positions_ok i"
  shows "list_all valid_change (list_history li fs)"
  using assms instr_changes_valid [OF assms(2)]
  by (cases i) (auto simp: list_history_def split: option.splits if_splits)

lemma tracked_changes_valid:
  "run_handler track is (t, l, es) = Some (t', l', es @ fs) \<Longrightarrow> list_all positions_ok is \<Longrightarrow>
    list_all valid_change (list_history li fs)"
proof (induction "is" arbitrary: t l es fs)
  case (Cons i "is")
  obtain t1 l1 es1 where 1: "track i (t, l, es) = Some (t1, l1, es1)" "run_handler track is (t1, l1, es1) = Some (t', l', es @ fs)"
    using Cons.prems(1) by (auto split: bind_splits)
  obtain gs hs where gs: "es1 = es @ gs" "es @ fs = es1 @ hs" using track_extends [OF 1(1)] run_track_extends [OF 1(2)] by blast
  then have "fs = gs @ hs" by simp
  moreover have "list_all valid_change (list_history li gs)" using track_effect_valid [OF 1(1) [unfolded gs(1)]] Cons.prems(2) by simp
  moreover have "list_all valid_change (list_history li hs)"
    using Cons.IH [of t1 l1 "es @ gs" hs] 1(2) gs Cons.prems(2) by simp
  ultimately show ?case by (simp add: list_history_def)
qed (simp add: list_history_def)

section \<open>What is recorded of the objects of a table\<close>

fun instr_objects :: "instruction \<Rightarrow> object_change list" where
  "instr_objects (Create_object k) = [Created k]"
| "instr_objects (Remove_object k) = [Removed k]"
| "instr_objects (Modify_object c k) = [Modified k c]"
| "instr_objects (Select_list c k) = [Modified k c]"
| "instr_objects (Clear_table n) = [Cleared n]"
| "instr_objects _ = []"

fun selected_after :: "int \<Rightarrow> bool \<Rightarrow> instruction \<Rightarrow> bool" where
  "selected_after table selected (Select_table k) = (k = table)"
| "selected_after table selected _ = selected"

fun table_history :: "int \<Rightarrow> bool \<Rightarrow> instruction list \<Rightarrow> object_change list" where
  "table_history table selected [] = []"
| "table_history table selected (i # is) =
     (if selected then instr_objects i else []) @ table_history table (selected_after table selected i) is"

definition watches :: "int \<Rightarrow> observer \<Rightarrow> bool \<Rightarrow> object_changes \<Rightarrow> bool" where
  "watches table ob selected c \<longleftrightarrow> (selected \<longleftrightarrow> ob_active_table ob = Some table) \<and>
     (ti_track_all (ob_info ob) \<or> Mapping.lookup (ti_tables (ob_info ob)) table \<noteq> None) \<and>
     (selected \<longrightarrow> Mapping.lookup (ti_tables (ob_info ob)) table \<noteq> None) \<and>
     Mapping.lookup_default oc_new (ti_tables (ob_info ob)) table = c"

lemma watches_upd_table:
  "watches table ob selected c \<Longrightarrow> watches table (upd_table f ob) selected (if selected then f c else c)"
  by (auto simp: watches_def upd_table_def lookup_map_entry' lookup_default_def split: option.split)

lemma watches_select_table: "watches table ob selected c \<Longrightarrow> watches table (ob_select_table k ob) (k = table) c"
  by (auto simp: watches_def ob_select_table_def Let_def Mapping.lookup_default' lookup_default_def)

lemma watches_lists:
  "watches table (ob\<lparr>ob_info := (ob_info ob)\<lparr>ti_lists := ls\<rparr>\<rparr>) = watches table ob"
  "watches table (ob\<lparr>ob_info := (ob_info ob)\<lparr>ti_schema_changed := b\<rparr>\<rparr>) = watches table ob"
  "watches table (ob\<lparr>ob_active_list := l\<rparr>) = watches table ob"
  "watches table (ob\<lparr>ob_current_table := t\<rparr>) = watches table ob"
  by (simp_all add: watches_def fun_eq_iff)

lemma upd_list_Inr:
  "upd_list f ob = Some (Inr ob') \<Longrightarrow> ob_info ob' = ob_info ob \<and> ob_active_table ob' = ob_active_table ob"
  by (auto simp: upd_list_def split: option.splits)

lemma record_objects_append: "record_objects (xs @ ys) c = record_objects ys (record_objects xs c)"
  by (induction xs arbitrary: c) auto

lemma watches_step:
  assumes "watches table ob selected c" "observe mx i ob = Some (Inr ob')"
  shows "watches table ob' (selected_after table selected i) (record_objects (if selected then instr_objects i else []) c)"
proof -
  have same: "watches table ob2 selected c" if "ob_info ob2 = ob_info ob" "ob_active_table ob2 = ob_active_table ob" for ob2
    using assms(1) that by (simp add: watches_def)
  show ?thesis
  proof (cases "needs_list i")
    case True
    then have "ob_info ob' = ob_info ob \<and> ob_active_table ob' = ob_active_table ob"
      using assms(2) upd_list_Inr
      by (cases i) (auto simp: ob_list_set_def ob_list_insert_def ob_list_erase_def ob_list_move_def ob_list_swap_def ob_list_clear_def)
    then show ?thesis using True same [of ob'] by (cases i) auto
  next
    case False
    have remove: "watches table (ob_remove_object k ob) selected (if selected then record_object (Removed k) c else c)" for k
      using watches_upd_table [OF assms(1), of "record_object (Removed k)"] assms(1)
      by (cases "ob_active_table ob") (simp_all add: ob_remove_object_def Let_def watches_lists watches_def [of _ ob])
    show ?thesis
      using False assms(2) remove watches_select_table [OF assms(1)] assms(1) watches_upd_table [OF assms(1)]
      by (cases selected; cases i) (auto simp del: record_object.simps(2) simp add: ob_create_object_def ob_modify_object_def ob_select_list_def
        ob_clear_table_def ob_insert_column_def ob_insert_group_level_table_def ob_schema_changed_def watches_lists Let_def)
  qed
qed

lemma watches_run:
  "watches table ob selected c \<Longrightarrow> run_observer mx is ob = Some (Inr ob') \<Longrightarrow>
    \<exists>selected'. watches table ob' selected' (record_objects (table_history table selected is) c)"
proof (induction "is" arbitrary: ob selected c)
  case (Cons i "is")
  obtain ob1 where "observe mx i ob = Some (Inr ob1)" "run_observer mx is ob1 = Some (Inr ob')"
    using Cons.prems(2) by (auto simp: tres_bind_def split: option.splits sum.splits)
  then show ?case using Cons.IH [OF watches_step [OF Cons.prems(1)]] by (simp add: record_objects_append)
qed auto

lemma tables_stay_step:
  assumes "observe mx i ob = Some (Inr ob')" "Mapping.lookup (ti_tables (ob_info ob)) table \<noteq> None"
  shows "Mapping.lookup (ti_tables (ob_info ob')) table \<noteq> None"
proof -
  have u: "Mapping.lookup (ti_tables (ob_info (upd_table f ob))) table \<noteq> None" for f
    using assms(2) by (auto simp: upd_table_def lookup_map_entry' split: option.split)
  have l: "upd_list f ob = Some (Inr ob') \<Longrightarrow> ?thesis" for f using upd_list_Inr assms(2) by metis
  have s: "Mapping.lookup (ti_tables (ob_info (ob_select_table k ob))) table \<noteq> None" for k
    using assms(2) by (auto simp: ob_select_table_def Let_def Mapping.lookup_default')
  show ?thesis
    using assms u l s
    by (cases i) (auto simp del: record_object.simps(2) simp add: ob_create_object_def ob_modify_object_def ob_select_list_def
      ob_remove_object_def ob_clear_table_def ob_insert_column_def ob_insert_group_level_table_def ob_schema_changed_def
      ob_list_set_def ob_list_insert_def ob_list_erase_def ob_list_move_def ob_list_swap_def ob_list_clear_def Let_def
      split: if_splits)
qed

lemma tables_stay:
  "run_observer mx is ob = Some (Inr ob') \<Longrightarrow> Mapping.lookup (ti_tables (ob_info ob)) table \<noteq> None \<Longrightarrow>
    Mapping.lookup (ti_tables (ob_info ob')) table \<noteq> None"
proof (induction "is" arbitrary: ob)
  case (Cons i "is")
  obtain ob1 where "observe mx i ob = Some (Inr ob1)" "run_observer mx is ob1 = Some (Inr ob')"
    using Cons.prems(1) by (auto simp: tres_bind_def split: option.splits sum.splits)
  then show ?case using Cons.IH tables_stay_step Cons.prems(2) by blast
qed auto

text \<open>With supported instructions the observer never fails, whatever it watches.\<close>

lemma observe_total:
  assumes "builders_ok mx ob" "positions_ok i" "schema_ok i"
  shows "\<exists>ob'. observe mx i ob = Some (Inr ob') \<and> builders_ok mx ob'"
proof -
  consider k where "i = Select_table k" | c k where "i = Select_list c k" | "needs_list i"
    | "\<not> needs_list i" "\<And>k. i \<noteq> Select_table k" "\<And>c k. i \<noteq> Select_list c k" by blast
  then show ?thesis
  proof cases
    case 3
    then show ?thesis using observe_list_ok [OF _ assms(2,1)] by blast
  next
    case 4
    then obtain ob' where "observe mx i ob = Some (Inr ob')" "ob_builders ob' = ob_builders ob"
      using observe_other [OF 4(1) assms(3) 4(2,3)] by blast
    then show ?thesis using assms(1) by (simp add: builders_ok_def)
  qed (use assms(1) in \<open>auto simp: builders_ok_def\<close>)
qed

lemma run_observer_total:
  "builders_ok mx ob \<Longrightarrow> list_all positions_ok is \<Longrightarrow> list_all schema_ok is \<Longrightarrow> \<exists>ob'. run_observer mx is ob = Some (Inr ob')"
proof (induction "is" arbitrary: ob)
  case (Cons i "is")
  then obtain ob1 where "observe mx i ob = Some (Inr ob1)" "builders_ok mx ob1"
    using observe_total [of mx ob i] by auto
  then show ?case using Cons by auto
qed simp

section \<open>Properties\<close>

lemma observes_new:
  assumes "even mx" "2 \<le> mx" "infos_ok (ti_lists info)" "li \<in> set (ti_lists info)"
  shows "observes mx li (None, None, []) (observer_new info (\<lambda>p. empty_builder))"
  using assms by (simp add: observes_def observer_new_def builders_ok_def empty_builder_ok list_history_def)

lemma run_observer_exact:
  assumes "even mx" "2 \<le> mx" "infos_ok (ti_lists info)" "li \<in> set (ti_lists info)"
    "run_handler track is (None, None, []) = Some (t, l, es)" "list_all positions_ok is" "list_all schema_ok is"
    "list_all (keeps_list li) es"
  shows "\<exists>ob. run_observer mx is (observer_new info (\<lambda>p. empty_builder)) = Some (Inr ob) \<and>
    verify_changes (ob_builders ob (lc_changes li)) \<and>
    (\<forall>r k. follows (ob_builders ob (lc_changes li)) r k \<longleftrightarrow> row_after_all (list_history li es) r = Some k)"
proof -
  obtain ob where ob: "run_observer mx is (observer_new info (\<lambda>p. empty_builder)) = Some (Inr ob)"
    "observes mx li (t, l, es) ob"
    using run_observer_ok [OF observes_new [OF assms(1-4)] assms(5-8)] by blast
  have valid: "list_all valid_change (list_history li es)"
    using tracked_changes_valid [of "is" None None "[]"] assms(5,6) by simp
  obtain b where b: "record_changes mx empty_builder (list_history li es) = Some b" "builder_ok mx b"
    "\<forall>r k. follows b r k \<longleftrightarrow> (\<exists>j. follows empty_builder r j \<and> row_after_all (list_history li es) j = Some k)"
    using record_changes_ok [OF empty_builder_ok [OF assms(1,2)] valid] by blast
  then have "b = ob_builders ob (lc_changes li)" using ob(2) by (simp add: observes_def)
  then show ?thesis using b(2,3) builder_ok_verify ob(1) by (simp add: empty_builder_follows)
qed


definition sample_info :: change_info where
  "sample_info = \<lparr>ti_lists = [\<lparr>lc_table = 1, lc_row = 5, lc_col = 7, lc_changes = 0\<rparr>,
      \<lparr>lc_table = 1, lc_row = 6, lc_col = 7, lc_changes = 1\<rparr>],
     ti_tables = Mapping.update 1 oc_new Mapping.empty, ti_track_all = False, ti_schema_changed = False\<rparr>"

definition sample_log :: "instruction list" where
  "sample_log = [Select_table 1, Select_list 7 5, List_swap 0 2, Remove_object 6, List_erase 1,
     Select_table 2, Create_object 9]"

lemma sample_log_ok:
  "list_all instr_ok sample_log" "list_all positions_ok sample_log" "list_all schema_ok sample_log"
  "run_handler track sample_log (None, None, []) = Some (Some 2, None,
     [In_list 1 7 5 (List_swap 0 2), In_table 1 (Remove_object 6), In_list 1 7 5 (List_erase 1), In_table 2 (Create_object 9)])"
  by (simp_all add: sample_log_def instr_ok_def in_type_def min_of_def max_of_def npos_def)


lemma swap_moves:
  assumes "a + 1 < b"
  shows "moved (b - 1) a (moved a b q) = (if q = a then b else if q = b then a else q)"
proof -
  consider "q < a" | "q = a" | "a < q" "q < b" | "q = b" | "b < q" by linarith
  then show ?thesis by cases (use assms in \<open>auto simp: moved_def\<close>)
qed

lemma swap_row_after:
  assumes "a < b"
  shows "row_after_all (Move a b # (if a + 1 \<noteq> b then [Move (b - 1) a] else [])) q =
    Some (if q = a then b else if q = b then a else q)"
proof (cases "a + 1 = b")
  case True
  then show ?thesis by (auto simp: moved_def)
next
  case False
  then show ?thesis using swap_moves [of a b q] assms by simp
qed
text \<open>
  C21. A \<open>list_swap\<close> in the log, which the observer records as one or two moves, exchanges the two
  rows and leaves every other row where it is.
\<close>

theorem observed_swap_exchanges_rows:
  assumes "builder_ok mx (ob_builders ob p)" "ob_active_list ob = Some p" "i \<noteq> j" "i < npos" "j < npos"
  shows "\<exists>b. ob_list_swap mx i j ob = Some (Inr (ob\<lparr>ob_builders := (ob_builders ob)(p := b)\<rparr>)) \<and> builder_ok mx b \<and>
    (\<forall>r k. follows b r k \<longleftrightarrow> follows (ob_builders ob p) r (if k = i then j else if k = j then i else k))"
proof -
  have "list_all valid_change (instr_changes (List_swap i j))" using assms(3-5) by (auto simp: min_def max_def)
  then obtain b where b: "record_changes mx (ob_builders ob p) (instr_changes (List_swap i j)) = Some b" "builder_ok mx b"
    "\<forall>r k. follows b r k \<longleftrightarrow> (\<exists>q. follows (ob_builders ob p) r q \<and> row_after_all (instr_changes (List_swap i j)) q = Some k)"
    using record_changes_ok [OF assms(1)] by blast
  have swap: "row_after_all (instr_changes (List_swap i j)) q = Some (if q = i then j else if q = j then i else q)" for q
    using swap_row_after [of "min i j" "max i j" q] assms(3) unfolding instr_changes.simps
    by (auto simp: min_def max_def split: if_splits)
  have "follows b r k \<longleftrightarrow> follows (ob_builders ob p) r (if k = i then j else if k = j then i else k)" for r k
  proof -
    have "(if q = i then j else if q = j then i else q) = k \<longleftrightarrow> q = (if k = i then j else if k = j then i else k)" for q by auto
    moreover have "follows b r k \<longleftrightarrow> (\<exists>q. follows (ob_builders ob p) r q \<and> (if q = i then j else if q = j then i else q) = k)"
      using b(3) by (simp only: swap option.inject)
    ultimately show ?thesis by simp
  qed
  moreover have "ob_list_swap mx i j ob = upd_list (\<lambda>b. record_changes mx b (instr_changes (List_swap i j))) ob"
    using observe_list [of "List_swap i j" mx ob] by simp
  ultimately show ?thesis using b(1,2) assms(2) by (auto simp: upd_list_def)
qed

theorem observed_swap_exchanges_rows_witness:
  "\<exists>b. ob_list_swap 4 3 1 ((observer_new sample_info (\<lambda>p. empty_builder))\<lparr>ob_active_list := Some 0\<rparr>) =
      Some (Inr ((observer_new sample_info (\<lambda>p. empty_builder))\<lparr>ob_active_list := Some 0, ob_builders := (\<lambda>p. empty_builder)(0 := b)\<rparr>)) \<and>
    follows b 1 3"
proof -
  let ?ob = "(observer_new sample_info (\<lambda>p. empty_builder))\<lparr>ob_active_list := Some 0\<rparr>"
  have h: "builder_ok 4 (ob_builders ?ob 0)" "ob_active_list ?ob = Some 0" "(3::nat) \<noteq> 1" "3 < npos" "1 < npos"
    by (simp_all add: observer_new_def empty_builder_ok npos_def)
  obtain b where b: "ob_list_swap 4 3 1 ?ob = Some (Inr (?ob\<lparr>ob_builders := (ob_builders ?ob)(0 := b)\<rparr>))"
    "\<forall>r k. follows b r k \<longleftrightarrow> follows (ob_builders ?ob 0) r (if k = 3 then 1 else if k = 1 then 3 else k)"
    using observed_swap_exchanges_rows [OF h] by blast
  have "follows b 1 3" using b(2) by (simp add: observer_new_def empty_builder_follows)
  moreover have "ob_builders ?ob = (\<lambda>p. empty_builder)" by (simp add: observer_new_def)
  ultimately show ?thesis using b(1) by metis
qed

text \<open>
  When an object with two watched lists is removed, the loop of \<open>remove_object\<close> can leave one
  of its lists behind: it goes on behind the entry that took the place of the removed one.
\<close>

theorem remove_object_leaves_a_list:
  "let info = \<lparr>ti_lists = [\<lparr>lc_table = 1, lc_row = 5, lc_col = 7, lc_changes = 0\<rparr>, \<lparr>lc_table = 1, lc_row = 5, lc_col = 8, lc_changes = 1\<rparr>],
      ti_tables = Mapping.update 1 oc_new Mapping.empty, ti_track_all = False, ti_schema_changed = False\<rparr>;
     ob = ob_remove_object 5 (ob_select_table 1 (observer_new info (\<lambda>p. empty_builder)))
   in ti_lists (ob_info ob) = [\<lparr>lc_table = 1, lc_row = 5, lc_col = 8, lc_changes = 1\<rparr>] \<and>
     Mapping.lookup (ti_tables (ob_info ob)) 1 = Some (deletions_add 5 oc_new)"
  by (simp add: ob_remove_object_def ob_select_table_def observer_new_def Let_def upd_table_def remove_lists.simps
    lookup_map_entry insertions_remove_def oc_new_def modifications_remove_def deletions_add_def)



fun run_validator :: "instruction list \<Rightarrow> int \<Rightarrow> int ores" where
  "run_validator [] t = Some (Inr t)"
| "run_validator (i # is) t = tres_bind (validate i t) (run_validator is)"

lemma validate_result: "validate i t = (if schema_ok i then Some (Inr (case i of Select_table k \<Rightarrow> k | _ \<Rightarrow> t)) else Some (Inl Unsupported_schema_change))"
  by (cases i) simp_all

lemma run_validator_result:
  "(\<exists>t'. run_validator is t = Some (Inr t')) \<longleftrightarrow> list_all schema_ok is"
  "\<not> list_all schema_ok is \<Longrightarrow> run_validator is t = Some (Inl Unsupported_schema_change)"
  by (induction "is" arbitrary: t) (auto simp: validate_result)

lemma observe_schema:
  assumes "builders_ok mx ob" "positions_ok i" "\<not> schema_ok i"
  shows "observe mx i ob = Some (Inl Unsupported_schema_change)"
  using assms(3) by (cases i) simp_all

text \<open>
  C22. A log is accepted by the validator just when it neither removes nor renames a table or a
  column, and then the current table is the one that was selected last; the observer raises the
  same error on the same logs.
\<close>

theorem unsupported_schema_changes_are_refused:
  assumes "builders_ok mx ob" "list_all positions_ok is"
  shows "(run_validator is t = Some (Inl Unsupported_schema_change) \<longleftrightarrow> \<not> list_all schema_ok is) \<and>
    ((\<exists>t'. run_validator is t = Some (Inr t')) \<longleftrightarrow> list_all schema_ok is) \<and>
    (run_observer mx is ob = Some (Inl Unsupported_schema_change) \<longleftrightarrow> \<not> list_all schema_ok is)"
proof -
  have "run_observer mx is ob = Some (Inl Unsupported_schema_change) \<longleftrightarrow> \<not> list_all schema_ok is"
    using assms
  proof (induction "is" arbitrary: ob)
    case (Cons i "is")
    show ?case
    proof (cases "schema_ok i")
      case True
      then show ?thesis using observe_total [OF Cons.prems(1), of i] Cons by auto
    next
      case False
      then show ?thesis using observe_schema [OF Cons.prems(1)] Cons.prems(2) by simp
    qed
  qed simp
  then show ?thesis using run_validator_result [of "is" t] by auto
qed

theorem unsupported_schema_changes_are_refused_witness:
  "run_observer 4 [Select_table 1, Erase_column 3] (observer_new sample_info (\<lambda>p. empty_builder)) = Some (Inl Unsupported_schema_change)"
proof -
  have "builders_ok 4 (observer_new sample_info (\<lambda>p. empty_builder))"
    by (simp add: observer_new_def builders_ok_def empty_builder_ok)
  then show ?thesis using unsupported_schema_changes_are_refused [of 4 _ "[Select_table 1, Erase_column 3]"] by simp
qed

end
