(* ===== verification/DeepChange.thy ===== *)
theory DeepChange
  imports ChangeObserver
begin

text \<open>
  Whether an object that did not change itself links to one that did (\<open>DeepChangeChecker\<close> and
  \<open>get_modification_checker\<close> of \<open>OS/impl/collection_notifier.cpp\<close>).

  The tables and their objects are in the core library. They are the record \<open>world\<close>: the columns of a
  table, their types and the tables they link to, which objects exist, and where their links and lists of
  links lead. \<open>None\<close> is the exception for an object that does not exist, and a search for tables that does
  not end.
\<close>

datatype col_type = Type_Link | Type_LinkList | Type_other

record world =
  wd_columns :: "int \<Rightarrow> int list"
  wd_type :: "int \<Rightarrow> int \<Rightarrow> col_type"
  wd_target :: "int \<Rightarrow> int \<Rightarrow> int"
  wd_exists :: "int \<Rightarrow> int \<Rightarrow> bool"
  wd_link :: "int \<Rightarrow> int \<Rightarrow> int \<Rightarrow> int option"
  wd_list :: "int \<Rightarrow> int \<Rightarrow> int \<Rightarrow> int list"

record outgoing_link =
  ol_col :: int
  ol_is_list :: bool

record related_table =
  rt_key :: int
  rt_links :: "outgoing_link list"

section \<open>The tables that can be reached\<close>

definition has_table :: "int \<Rightarrow> related_table list \<Rightarrow> bool" where
  "has_table t out \<longleftrightarrow> list_ex (\<lambda>r. rt_key r = t) out"

definition push_link :: "nat \<Rightarrow> outgoing_link \<Rightarrow> related_table list \<Rightarrow> related_table list" where
  "push_link i l out = out[i := (out ! i)\<lparr>rt_links := rt_links (out ! i) @ [l]\<rparr>]"

definition is_link :: "world \<Rightarrow> int \<Rightarrow> int \<Rightarrow> bool" where
  "is_link W t col \<longleftrightarrow> wd_type W t col = Type_Link \<or> wd_type W t col = Type_LinkList"

text \<open>
  The loop over the columns of table \<open>t\<close>, whose entry of the result has index \<open>i\<close>; the recursive call is
  inlined.
\<close>

partial_function (option) related_columns ::
  "world \<Rightarrow> nat \<Rightarrow> int \<Rightarrow> int list \<Rightarrow> related_table list \<Rightarrow> related_table list option" where
  "related_columns W i t cols out = (case cols of
       [] \<Rightarrow> Some out
     | col # cols \<Rightarrow>
         if is_link W t col then do {
           let out = push_link i \<lparr>ol_col = col, ol_is_list = (wd_type W t col = Type_LinkList)\<rparr> out;
           let target = wd_target W t col;
           out \<leftarrow> (if has_table target out then Some out
             else related_columns W (length out) target (wd_columns W target) (out @ [\<lparr>rt_key = target, rt_links = []\<rparr>]));
           related_columns W i t cols out }
         else related_columns W i t cols out)"

definition find_related_tables :: "world \<Rightarrow> related_table list \<Rightarrow> int \<Rightarrow> related_table list option" where
  "find_related_tables W out t =
    (if has_table t out then Some out
     else related_columns W (length out) t (wd_columns W t) (out @ [\<lparr>rt_key = t, rt_links = []\<rparr>]))"

section \<open>Searching for a modified object\<close>

record path_entry =
  pe_obj :: int
  pe_col :: int
  pe_exceeded :: bool

record checker =
  ck_not_modified :: "int \<Rightarrow> int set"
  ck_path :: "path_entry list"

definition max_path :: nat where
  "max_path = 4"

definition exceed :: "nat \<Rightarrow> nat \<Rightarrow> path_entry list \<Rightarrow> path_entry list" where
  "exceed m n ps = take m ps @ map (pe_exceeded_update (\<lambda>_. True)) (take (n - m) (drop m ps)) @ drop (max m n) ps"

fun any_of :: "('x \<Rightarrow> 's \<Rightarrow> (bool \<times> 's) option) \<Rightarrow> 'x list \<Rightarrow> 's \<Rightarrow> (bool \<times> 's) option" where
  "any_of f [] s = Some (False, s)"
| "any_of f (x # xs) s = do { (found, s) \<leftarrow> f x s; if found then Some (True, s) else any_of f xs s }"

fun find_index :: "('x \<Rightarrow> bool) \<Rightarrow> 'x list \<Rightarrow> nat" where
  "find_index p [] = 0"
| "find_index p (x # xs) = (if p x then 0 else Suc (find_index p xs))"

definition already_checking :: "int \<Rightarrow> int \<Rightarrow> nat \<Rightarrow> checker \<Rightarrow> bool \<times> checker" where
  "already_checking obj col depth ck =
    (let m = find_index (\<lambda>p. pe_obj p = obj \<and> pe_col p = col) (take depth (ck_path ck))
     in if m < depth then (True, ck\<lparr>ck_path := exceed m depth (ck_path ck)\<rparr>)
        else (False, ck\<lparr>ck_path := (ck_path ck)[depth := \<lparr>pe_obj = obj, pe_col = col, pe_exceeded = False\<rparr>]\<rparr>))"

text \<open>The objects that a link leads to: the elements of a list, or one or none.\<close>

definition link_targets :: "world \<Rightarrow> int \<Rightarrow> int \<Rightarrow> outgoing_link \<Rightarrow> int list" where
  "link_targets W t obj l =
    (if \<not> ol_is_list l then (case wd_link W t obj (ol_col l) of None \<Rightarrow> [] | Some dst \<Rightarrow> [dst])
     else wd_list W t obj (ol_col l))"

definition linked_object_changed ::
  "(int \<Rightarrow> int \<Rightarrow> checker \<Rightarrow> (bool \<times> checker) option) \<Rightarrow> world \<Rightarrow> int \<Rightarrow> int \<Rightarrow> nat \<Rightarrow> outgoing_link \<Rightarrow> checker \<Rightarrow>
     (bool \<times> checker) option" where
  "linked_object_changed row W t obj depth l ck =
    (let (checking, ck) = already_checking obj (ol_col l) depth ck in
     if checking then Some (False, ck)
     else any_of (row (wd_target W t (ol_col l))) (link_targets W t obj l) ck)"

definition check_outgoing_links ::
  "(int \<Rightarrow> int \<Rightarrow> checker \<Rightarrow> (bool \<times> checker) option) \<Rightarrow> world \<Rightarrow> related_table list \<Rightarrow> int \<Rightarrow> int \<Rightarrow> nat \<Rightarrow> checker \<Rightarrow>
     (bool \<times> checker) option" where
  "check_outgoing_links row W related t obj depth ck = (case find (\<lambda>r. rt_key r = t) related of
       None \<Rightarrow> Some (False, ck)
     | Some r \<Rightarrow>
         if rt_links r = [] then Some (False, ck)
         else if \<not> wd_exists W t obj then None
         else any_of (linked_object_changed row W t obj depth) (rt_links r) ck)"

definition table_modifications :: "(int, object_changes) mapping \<Rightarrow> int \<Rightarrow> int \<Rightarrow> bool" where
  "table_modifications tables t obj = (case Mapping.lookup tables t of
     None \<Rightarrow> False | Some c \<Rightarrow> modifications_contains c obj)"

text \<open>\<open>check_row\<close> by the number of levels that are left below \<open>max_path\<close>.\<close>

primrec check_levels :: "world \<Rightarrow> (int, object_changes) mapping \<Rightarrow> related_table list \<Rightarrow> nat \<Rightarrow> int \<Rightarrow> int \<Rightarrow> checker \<Rightarrow>
    (bool \<times> checker) option" where
  "check_levels W tables related 0 = (\<lambda>t key ck.
     Some (False, ck\<lparr>ck_path := exceed 0 (length (ck_path ck)) (ck_path ck)\<rparr>))"
| "check_levels W tables related (Suc n) = (\<lambda>t key ck.
     (let depth = max_path - Suc n in
      if depth > 0 \<and> table_modifications tables t key then Some (True, ck)
      else if key \<in> ck_not_modified ck t then Some (False, ck)
      else do {
        (ret, ck) \<leftarrow> check_outgoing_links (check_levels W tables related n) W related t key depth ck;
        Some (ret, if \<not> ret \<and> (depth = 0 \<or> \<not> pe_exceeded (ck_path ck ! (depth - 1)))
          then ck\<lparr>ck_not_modified := (ck_not_modified ck)(t := insert key (ck_not_modified ck t))\<rparr> else ck) }))"

definition check_row :: "world \<Rightarrow> (int, object_changes) mapping \<Rightarrow> related_table list \<Rightarrow> int \<Rightarrow> int \<Rightarrow> nat \<Rightarrow> checker \<Rightarrow>
    (bool \<times> checker) option" where
  "check_row W tables related t key depth = check_levels W tables related (max_path - depth) t key"

definition check_object :: "world \<Rightarrow> (int, object_changes) mapping \<Rightarrow> related_table list \<Rightarrow> int \<Rightarrow> int \<Rightarrow> checker \<Rightarrow>
    (bool \<times> checker) option" where
  "check_object W tables related root key ck =
    (if table_modifications tables root key then Some (True, ck) else check_row W tables related root key 0 ck)"

section \<open>What the search should answer\<close>

definition links_of :: "related_table list \<Rightarrow> int \<Rightarrow> outgoing_link list" where
  "links_of related t = (case find (\<lambda>r. rt_key r = t) related of None \<Rightarrow> [] | Some r \<Rightarrow> rt_links r)"

text \<open>
  A modified object can be reached over one to \<open>n\<close> links, none of which is in \<open>S\<close>; a link is named by its
  object and its column.
\<close>

fun reaches :: "world \<Rightarrow> (int, object_changes) mapping \<Rightarrow> related_table list \<Rightarrow> (int \<times> int) set \<Rightarrow> nat \<Rightarrow> int \<Rightarrow> int \<Rightarrow> bool" where
  "reaches W tables related S 0 t obj = False"
| "reaches W tables related S (Suc n) t obj = (\<exists>l\<in>set (links_of related t). (obj, ol_col l) \<notin> S \<and>
     (\<exists>dst\<in>set (link_targets W t obj l).
        table_modifications tables (wd_target W t (ol_col l)) dst \<or>
        reaches W tables related S n (wd_target W t (ol_col l)) dst))"

definition distinct_columns :: "related_table list \<Rightarrow> bool" where
  "distinct_columns related \<longleftrightarrow> (\<forall>t t' l l'. l \<in> set (links_of related t) \<longrightarrow> l' \<in> set (links_of related t') \<longrightarrow>
     ol_col l = ol_col l' \<longrightarrow> t = t')"

definition links_lead_to_objects :: "world \<Rightarrow> related_table list \<Rightarrow> bool" where
  "links_lead_to_objects W related \<longleftrightarrow> (\<forall>t obj l dst. wd_exists W t obj \<longrightarrow> l \<in> set (links_of related t) \<longrightarrow>
     dst \<in> set (link_targets W t obj l) \<longrightarrow> wd_exists W (wd_target W t (ol_col l)) dst)"

lemma reaches_mono:
  "reaches W T R S n t obj \<Longrightarrow> n \<le> m \<Longrightarrow> S' \<subseteq> S \<Longrightarrow> reaches W T R S' m t obj"
proof (induction n arbitrary: m t obj)
  case (Suc n)
  then obtain m' where m: "m = Suc m'" "n \<le> m'" by (cases m) auto
  obtain l dst where l: "l \<in> set (links_of R t)" "(obj, ol_col l) \<notin> S" "dst \<in> set (link_targets W t obj l)"
    "table_modifications T (wd_target W t (ol_col l)) dst \<or> reaches W T R S n (wd_target W t (ol_col l)) dst"
    using Suc.prems(1) by auto
  then have "(obj, ol_col l) \<notin> S'" using Suc.prems(3) by blast
  moreover have "table_modifications T (wd_target W t (ol_col l)) dst \<or> reaches W T R S' m' (wd_target W t (ol_col l)) dst"
    using l(4) Suc.IH m(2) Suc.prems(3) by blast
  ultimately show ?case using l(1,3) unfolding m(1) by auto
qed simp

text \<open>A way to a modified object either does without a link, or starts at the object of that link once more.\<close>

lemma reaches_through:
  assumes "distinct_columns R" "l \<in> set (links_of R t)"
  shows "reaches W T R S n t' obj' \<Longrightarrow>
    reaches W T R (insert (obj, ol_col l) S) n t' obj' \<or> (\<exists>m\<le>n. reaches W T R S m t obj)"
proof (induction n arbitrary: t' obj')
  case (Suc n)
  then obtain l' dst where l': "l' \<in> set (links_of R t')" "(obj', ol_col l') \<notin> S" "dst \<in> set (link_targets W t' obj' l')"
    "table_modifications T (wd_target W t' (ol_col l')) dst \<or> reaches W T R S n (wd_target W t' (ol_col l')) dst"
    by auto
  show ?case
  proof (cases "(obj', ol_col l') = (obj, ol_col l)")
    case True
    then have "t' = t" "obj' = obj" using assms l'(1) by (auto simp: distinct_columns_def)
    then show ?thesis using Suc.prems by blast
  next
    case False
    from l'(4) show ?thesis
    proof
      assume "reaches W T R S n (wd_target W t' (ol_col l')) dst"
      from Suc.IH [OF this] show ?thesis
      proof
        assume "\<exists>m\<le>n. reaches W T R S m t obj"
        then show ?thesis using le_SucI by blast
      qed (use l' False in auto)
    qed (use l' False in auto)
  qed
qed simp

text \<open>So there is always a way that does not use its first link again.\<close>

lemma reaches_first_step:
  assumes "distinct_columns R"
  shows "reaches W T R S n t obj \<Longrightarrow> \<exists>l\<in>set (links_of R t). (obj, ol_col l) \<notin> S \<and>
    (\<exists>dst\<in>set (link_targets W t obj l). table_modifications T (wd_target W t (ol_col l)) dst \<or>
       reaches W T R (insert (obj, ol_col l) S) (n - 1) (wd_target W t (ol_col l)) dst)"
proof (induction n rule: less_induct)
  case (less n)
  then obtain k where n: "n = Suc k" by (cases n) auto
  then obtain l dst where l: "l \<in> set (links_of R t)" "(obj, ol_col l) \<notin> S" "dst \<in> set (link_targets W t obj l)"
    "table_modifications T (wd_target W t (ol_col l)) dst \<or> reaches W T R S k (wd_target W t (ol_col l)) dst"
    using less.prems by auto
  from l(4) show ?case
  proof
    assume "reaches W T R S k (wd_target W t (ol_col l)) dst"
    from reaches_through [OF assms l(1) this, of obj] show ?thesis
    proof
      assume "\<exists>m\<le>k. reaches W T R S m t obj"
      then obtain m where m: "m < n" "reaches W T R S m t obj" using n by (auto simp: less_Suc_eq_le)
      from less.IH [OF this] obtain l2 dst2 where "l2 \<in> set (links_of R t)" "(obj, ol_col l2) \<notin> S"
        "dst2 \<in> set (link_targets W t obj l2)" "table_modifications T (wd_target W t (ol_col l2)) dst2 \<or>
          reaches W T R (insert (obj, ol_col l2) S) (m - 1) (wd_target W t (ol_col l2)) dst2" by blast
      moreover have "m - 1 \<le> n - 1" using m(1) by simp
      ultimately show ?thesis using reaches_mono by blast
    qed (use l n in auto)
  qed (use l in blast)
qed

section \<open>The search is exact\<close>

lemma any_of_rule:
  assumes step: "\<And>x s. x \<in> set xs \<Longrightarrow> I s \<Longrightarrow>
      \<exists>r s'. f x s = Some (r, s') \<and> I s' \<and> K s s' \<and> (r \<longrightarrow> P x) \<and> (\<not> r \<longrightarrow> Q x s')"
    and refl: "\<And>s. K s s" and trans: "\<And>s s' s''. K s s' \<Longrightarrow> K s' s'' \<Longrightarrow> K s s''"
    and stable: "\<And>x s s'. Q x s \<Longrightarrow> K s s' \<Longrightarrow> Q x s'"
  shows "I s \<Longrightarrow> \<exists>r s'. any_of f xs s = Some (r, s') \<and> I s' \<and> K s s' \<and> (r \<longrightarrow> (\<exists>x\<in>set xs. P x)) \<and>
    (\<not> r \<longrightarrow> (\<forall>x\<in>set xs. Q x s'))"
  using step
proof (induction xs arbitrary: s)
  case Nil
  then show ?case using refl by auto
next
  case (Cons x xs)
  obtain r s1 where s1: "f x s = Some (r, s1)" "I s1" "K s s1" "r \<longrightarrow> P x" "\<not> r \<longrightarrow> Q x s1"
    using Cons.prems(2) [of x s] Cons.prems(1) by auto
  show ?case
  proof (cases r)
    case False
    obtain r2 s2 where s2: "any_of f xs s1 = Some (r2, s2)" "I s2" "K s1 s2" "r2 \<longrightarrow> (\<exists>x\<in>set xs. P x)"
      "\<not> r2 \<longrightarrow> (\<forall>x\<in>set xs. Q x s2)"
      using Cons.IH [OF s1(2)] Cons.prems(2) by (metis list.set_intros(2))
    then show ?thesis using s1 False trans [OF s1(3) s2(3)] stable [OF _ s2(3), of x] by auto
  qed (use s1 in auto)
qed

definition flag :: "nat \<Rightarrow> checker \<Rightarrow> bool" where
  "flag i ck = pe_exceeded (ck_path ck ! i)"

definition path_keys :: "nat \<Rightarrow> checker \<Rightarrow> (int \<times> int) list" where
  "path_keys d ck = map (\<lambda>p. (pe_obj p, pe_col p)) (take d (ck_path ck))"

definition keeps :: "nat \<Rightarrow> checker \<Rightarrow> checker \<Rightarrow> bool" where
  "keeps d ck ck' \<longleftrightarrow> length (ck_path ck') = length (ck_path ck) \<and> path_keys d ck' = path_keys d ck \<and>
     (\<forall>i<d. flag i ck \<longrightarrow> flag i ck')"

definition cache_ok :: "world \<Rightarrow> (int, object_changes) mapping \<Rightarrow> related_table list \<Rightarrow> checker \<Rightarrow> bool" where
  "cache_ok W T R ck \<longleftrightarrow> (\<forall>t. \<forall>obj\<in>ck_not_modified ck t. \<not> reaches W T R {} 3 t obj)"

lemma keeps_refl [simp]: "keeps d ck ck"
  by (simp add: keeps_def)

lemma keeps_trans: "keeps d a b \<Longrightarrow> keeps d b c \<Longrightarrow> keeps d a c"
  by (simp add: keeps_def)

lemma path_keys_take: "d \<le> e \<Longrightarrow> path_keys d ck = take d (path_keys e ck)"
  by (simp add: path_keys_def take_map min_def)

lemma keeps_less: "keeps e a b \<Longrightarrow> d \<le> e \<Longrightarrow> keeps d a b"
  by (auto simp: keeps_def path_keys_take [of d e])

lemma length_exceed: "m \<le> n \<Longrightarrow> n \<le> length ps \<Longrightarrow> length (exceed m n ps) = length ps"
  by (simp add: exceed_def)

lemma exceed_nth: "m \<le> n \<Longrightarrow> n \<le> length ps \<Longrightarrow> i < length ps \<Longrightarrow>
    exceed m n ps ! i = (if m \<le> i \<and> i < n then (ps ! i)\<lparr>pe_exceeded := True\<rparr> else ps ! i)"
  by (auto simp: exceed_def nth_append)

lemma exceed_facts:
  assumes "m \<le> n" "n \<le> length (ck_path ck)"
  shows "keeps d ck (ck\<lparr>ck_path := exceed m n (ck_path ck)\<rparr>)"
    "m \<le> i \<Longrightarrow> i < n \<Longrightarrow> flag i (ck\<lparr>ck_path := exceed m n (ck_path ck)\<rparr>)"
proof -
  have "map (\<lambda>p. (pe_obj p, pe_col p)) (take d (exceed m n (ck_path ck))) = map (\<lambda>p. (pe_obj p, pe_col p)) (take d (ck_path ck))"
    using assms by (intro nth_equalityI) (simp_all add: length_exceed exceed_nth)
  moreover have "flag i ck \<Longrightarrow> flag i (ck\<lparr>ck_path := exceed m n (ck_path ck)\<rparr>)" for i
    using assms by (cases "i < length (ck_path ck)") (auto simp: flag_def exceed_nth nth_append exceed_def)
  ultimately show "keeps d ck (ck\<lparr>ck_path := exceed m n (ck_path ck)\<rparr>)"
    using assms by (simp add: keeps_def path_keys_def length_exceed)
  show "m \<le> i \<Longrightarrow> i < n \<Longrightarrow> flag i (ck\<lparr>ck_path := exceed m n (ck_path ck)\<rparr>)"
    using assms by (simp add: flag_def exceed_nth)
qed

lemma find_index_facts:
  "find_index p xs \<le> length xs"
  "find_index p xs < length xs \<Longrightarrow> p (xs ! find_index p xs)"
  "\<not> find_index p xs < length xs \<Longrightarrow> x \<in> set xs \<Longrightarrow> \<not> p x"
  by (induction xs) (auto split: if_splits)

lemma already_checking_facts:
  assumes "d \<le> length (ck_path ck)" "already_checking obj col d ck = (hit, ck')"
  shows "keeps d ck ck'" "ck_not_modified ck' = ck_not_modified ck"
    "hit \<longleftrightarrow> (obj, col) \<in> set (path_keys d ck)"
    "hit \<Longrightarrow> 1 \<le> j \<Longrightarrow> j \<le> d \<Longrightarrow> \<not> flag (j - 1) ck' \<Longrightarrow> (obj, col) \<in> set (drop j (path_keys d ck))"
    "\<not> hit \<Longrightarrow> d < length (ck_path ck) \<Longrightarrow> path_keys (Suc d) ck' = path_keys d ck @ [(obj, col)]"
proof -
  let ?p = "\<lambda>p. pe_obj p = obj \<and> pe_col p = col"
  let ?m = "find_index ?p (take d (ck_path ck))"
  note find = find_index_facts [of ?p "take d (ck_path ck)"]
  have len: "length (take d (ck_path ck)) = d" using assms(1) by simp
  have key: "(obj, col) \<in> set (path_keys d ck) \<longleftrightarrow> (\<exists>p\<in>set (take d (ck_path ck)). ?p p)"
    by (auto simp: path_keys_def)
  have ck': "hit = (?m < d)" "ck' = (if ?m < d then ck\<lparr>ck_path := exceed ?m d (ck_path ck)\<rparr>
      else ck\<lparr>ck_path := (ck_path ck)[d := \<lparr>pe_obj = obj, pe_col = col, pe_exceeded = False\<rparr>]\<rparr>)"
    using assms(2) by (auto simp: already_checking_def Let_def split: if_splits)
  show "ck_not_modified ck' = ck_not_modified ck" using ck'(2) by simp
  show hit: "hit \<longleftrightarrow> (obj, col) \<in> set (path_keys d ck)"
    unfolding key ck'(1) using find(2,3) nth_mem [of ?m "take d (ck_path ck)"] unfolding len by blast
  have m: "path_keys d ck ! ?m = (obj, col)" if "?m < d"
    using that find(2) assms(1) unfolding len by (simp add: path_keys_def)
  show "keeps d ck ck'"
  proof (cases "?m < d")
    case True
    then show ?thesis using ck'(2) exceed_facts(1) [of ?m d ck d] assms(1) by simp
  next
    case False
    then show ?thesis using ck'(2) by (simp add: keeps_def path_keys_def flag_def)
  qed
  show "(obj, col) \<in> set (drop j (path_keys d ck))" if "hit" "1 \<le> j" "j \<le> d" "\<not> flag (j - 1) ck'"
  proof -
    have md: "?m < d" using that(1) ck'(1) by simp
    have "j \<le> ?m"
    proof (rule ccontr)
      assume "\<not> j \<le> ?m"
      then have "?m \<le> j - 1" "j - 1 < d" using that(2,3) by linarith+
      from exceed_facts(2) [OF less_imp_le [OF md] assms(1) this]
      have "flag (j - 1) ck'" unfolding ck'(2) if_P [OF md] .
      then show False using that(4) by contradiction
    qed
    then have n: "drop j (path_keys d ck) ! (?m - j) = path_keys d ck ! ?m" "?m - j < length (drop j (path_keys d ck))"
      using md assms(1) by (simp_all add: path_keys_def)
    show ?thesis using nth_mem [OF n(2)] unfolding n(1) m [OF md] .
  qed
  show "path_keys (Suc d) ck' = path_keys d ck @ [(obj, col)]" if "\<not> hit" "d < length (ck_path ck)"
    using that ck' by (simp add: path_keys_def take_Suc_conv_app_nth)
qed

text \<open>
  What a negative answer says. As long as the link at position \<open>j - 1\<close> of the path is not marked, nothing
  was cut off but ways over the links behind it; and whatever is marked, no way within the depth was missed
  that avoids the path.
\<close>

definition clean :: "world \<Rightarrow> (int, object_changes) mapping \<Rightarrow> related_table list \<Rightarrow> nat \<Rightarrow> (int \<times> int) list \<Rightarrow> checker \<Rightarrow>
    int \<Rightarrow> int \<Rightarrow> bool" where
  "clean W T R d ks ck t obj \<longleftrightarrow> (\<forall>j. 1 \<le> j \<longrightarrow> j \<le> d \<longrightarrow> \<not> flag (j - 1) ck \<longrightarrow>
     \<not> table_modifications T t obj \<and> \<not> reaches W T R (set (drop j ks)) 3 t obj)"

definition no_hit :: "world \<Rightarrow> (int, object_changes) mapping \<Rightarrow> related_table list \<Rightarrow> nat \<Rightarrow> (int \<times> int) list \<Rightarrow> int \<Rightarrow> int \<Rightarrow> bool" where
  "no_hit W T R d ks t obj \<longleftrightarrow> (d < 4 \<longrightarrow>
     (0 < d \<longrightarrow> \<not> table_modifications T t obj) \<and> \<not> reaches W T R (set ks) (3 - d) t obj)"

definition hit :: "world \<Rightarrow> (int, object_changes) mapping \<Rightarrow> related_table list \<Rightarrow> nat \<Rightarrow> int \<Rightarrow> int \<Rightarrow> bool" where
  "hit W T R d t obj \<longleftrightarrow> d < 4 \<and> (0 < d \<and> table_modifications T t obj \<or> reaches W T R {} (3 - d) t obj)"

definition link_clean :: "world \<Rightarrow> (int, object_changes) mapping \<Rightarrow> related_table list \<Rightarrow> nat \<Rightarrow> (int \<times> int) list \<Rightarrow> int \<Rightarrow> int \<Rightarrow>
    outgoing_link \<Rightarrow> checker \<Rightarrow> bool" where
  "link_clean W T R d ks t obj l ck \<longleftrightarrow>
     (if (obj, ol_col l) \<in> set ks
      then \<forall>j. 1 \<le> j \<longrightarrow> j \<le> d \<longrightarrow> \<not> flag (j - 1) ck \<longrightarrow> (obj, ol_col l) \<in> set (drop j ks)
      else \<forall>dst\<in>set (link_targets W t obj l). clean W T R d (ks @ [(obj, ol_col l)]) ck (wd_target W t (ol_col l)) dst \<and>
        no_hit W T R (Suc d) (ks @ [(obj, ol_col l)]) (wd_target W t (ol_col l)) dst)"

lemma keeps_unflagged: "keeps d ck ck' \<Longrightarrow> 1 \<le> j \<Longrightarrow> j \<le> d \<Longrightarrow> \<not> flag (j - 1) ck' \<Longrightarrow> \<not> flag (j - 1) ck"
proof -
  assume k: "keeps d ck ck'" "1 \<le> j" "j \<le> d" "\<not> flag (j - 1) ck'"
  then have "j - 1 < d" by linarith
  then show ?thesis using k(1,4) by (auto simp: keeps_def)
qed

lemma clean_keeps: "clean W T R d ks ck t obj \<Longrightarrow> keeps d ck ck' \<Longrightarrow> clean W T R d ks ck' t obj"
  unfolding clean_def using keeps_unflagged by blast

lemma clean_keeps_Suc: "clean W T R d ks ck t obj \<Longrightarrow> keeps (Suc d) ck ck' \<Longrightarrow> clean W T R d ks ck' t obj"
  by (rule clean_keeps) (auto intro: keeps_less)

lemma link_clean_keeps: "link_clean W T R d ks t obj l ck \<Longrightarrow> keeps d ck ck' \<Longrightarrow> link_clean W T R d ks t obj l ck'"
  unfolding link_clean_def using keeps_unflagged clean_keeps by (simp split: if_splits) blast

lemma outgoing_links:
  "wd_exists W t obj \<Longrightarrow> check_outgoing_links row W R t obj d ck =
     any_of (linked_object_changed row W t obj d) (links_of R t) ck"
  by (auto simp: check_outgoing_links_def links_of_def split: option.splits)

text \<open>What the links of an object say about it.\<close>

lemma links_decide:
  assumes "distinct_columns R" "length ks = d"
    and clean: "\<forall>l\<in>set (links_of R t). link_clean W T R d ks t obj l ck" and "0 < d \<longrightarrow> \<not> table_modifications T t obj"
  shows "clean W T R d ks ck t obj" "no_hit W T R d ks t obj"
proof -
  show "clean W T R d ks ck t obj"
    unfolding clean_def
  proof (intro allI impI conjI)
    fix j assume j: "1 \<le> j" "j \<le> d" "\<not> flag (j - 1) ck"
    then show "\<not> table_modifications T t obj" using assms(4) by simp
    show "\<not> reaches W T R (set (drop j ks)) 3 t obj"
    proof
      assume "reaches W T R (set (drop j ks)) 3 t obj"
      from reaches_first_step [OF assms(1) this]
      obtain l dst where l: "l \<in> set (links_of R t)" "(obj, ol_col l) \<notin> set (drop j ks)" "dst \<in> set (link_targets W t obj l)"
        "table_modifications T (wd_target W t (ol_col l)) dst \<or>
          reaches W T R (insert (obj, ol_col l) (set (drop j ks))) 2 (wd_target W t (ol_col l)) dst"
        by auto
      have lc: "link_clean W T R d ks t obj l ck" using clean l(1) by blast
      then have new: "(obj, ol_col l) \<notin> set ks" using l(2) j unfolding link_clean_def by (auto split: if_splits)
      then have "clean W T R d (ks @ [(obj, ol_col l)]) ck (wd_target W t (ol_col l)) dst"
        using lc l(3) by (simp add: link_clean_def)
      moreover have "set (drop j (ks @ [(obj, ol_col l)])) = insert (obj, ol_col l) (set (drop j ks))"
        using j(2) assms(2) by simp
      ultimately have "\<not> table_modifications T (wd_target W t (ol_col l)) dst"
        "\<not> reaches W T R (insert (obj, ol_col l) (set (drop j ks))) 3 (wd_target W t (ol_col l)) dst"
        using j unfolding clean_def by metis+
      then show False using l(4) reaches_mono [of W T R _ 2 _ dst 3] by fastforce
    qed
  qed
  show "no_hit W T R d ks t obj"
    unfolding no_hit_def
  proof (intro impI conjI notI)
    assume "reaches W T R (set ks) (3 - d) t obj"
    from reaches_first_step [OF assms(1) this]
    obtain l dst where l: "l \<in> set (links_of R t)" "(obj, ol_col l) \<notin> set ks" "dst \<in> set (link_targets W t obj l)"
      "table_modifications T (wd_target W t (ol_col l)) dst \<or>
        reaches W T R (insert (obj, ol_col l) (set ks)) (3 - d - 1) (wd_target W t (ol_col l)) dst"
      by auto
    have "d < 3" using \<open>reaches W T R (set ks) (3 - d) t obj\<close> by (cases "d < 3") auto
    then show False using clean l by (fastforce simp: link_clean_def no_hit_def)
  qed (use assms(4) in blast)
qed

lemma rows_exact:
  assumes "distinct_columns R" "links_lead_to_objects W R"
  shows "d + n = 4 \<Longrightarrow> wd_exists W t obj \<Longrightarrow> cache_ok W T R ck \<Longrightarrow> length (ck_path ck) = 4 \<Longrightarrow> path_keys d ck = ks \<Longrightarrow>
    \<exists>r ck'. check_levels W T R n t obj ck = Some (r, ck') \<and> keeps d ck ck' \<and> cache_ok W T R ck' \<and>
      (r \<longrightarrow> hit W T R d t obj) \<and> (\<not> r \<longrightarrow> clean W T R d ks ck' t obj \<and> no_hit W T R d ks t obj)"
proof (induction n arbitrary: d t obj ck ks)
  case 0
  let ?ck = "ck\<lparr>ck_path := exceed 0 4 (ck_path ck)\<rparr>"
  have "flag i ?ck" if "i < 4" for i using exceed_facts(2) [of 0 4 ck i] 0 that by simp
  then have "clean W T R d ks ?ck t obj" using 0 by (simp add: clean_def)
  moreover have "keeps d ck ?ck" using exceed_facts(1) [of 0 4 ck d] 0 by simp
  moreover have "cache_ok W T R ?ck" using 0 by (simp add: cache_ok_def)
  ultimately show ?case using 0 by (intro exI [of _ False] exI [of _ ?ck]) (simp add: no_hit_def)
next
  case (Suc n)
  then have d: "max_path - Suc n = d" "d < 4" "Suc d + n = 4" "length ks = d"
    by (auto simp: max_path_def path_keys_def)
  consider "0 < d" "table_modifications T t obj"
    | "0 < d \<longrightarrow> \<not> table_modifications T t obj" "obj \<in> ck_not_modified ck t"
    | "0 < d \<longrightarrow> \<not> table_modifications T t obj" "obj \<notin> ck_not_modified ck t" by blast
  then show ?case
  proof cases
    case 1
    then have "check_levels W T R (Suc n) t obj ck = Some (True, ck)" using d(1) by (simp add: Let_def)
    moreover have "hit W T R d t obj" using 1 d(2) by (simp add: hit_def)
    ultimately show ?thesis using Suc.prems(3) by (intro exI [of _ True] exI [of _ ck]) simp
  next
    case 2
    then have "\<not> reaches W T R {} 3 t obj" using Suc.prems(3) by (auto simp: cache_ok_def)
    then have none: "\<not> reaches W T R S m t obj" if "m \<le> 3" for S m using that reaches_mono by blast
    have "clean W T R d ks ck t obj" using none 2 by (auto simp: clean_def)
    moreover have "no_hit W T R d ks t obj" using none 2 by (auto simp: no_hit_def)
    moreover have "check_levels W T R (Suc n) t obj ck = Some (False, ck)" using 2 d(1) by (auto simp: Let_def)
    ultimately show ?thesis using Suc.prems(3) by (intro exI [of _ False] exI [of _ ck]) simp
  next
    case 3
    let ?row = "check_levels W T R n"
    define I where "I = (\<lambda>s. cache_ok W T R s \<and> length (ck_path s) = 4 \<and> path_keys d s = ks)"
    have link: "\<exists>r s'. linked_object_changed ?row W t obj d l s = Some (r, s') \<and> I s' \<and> keeps d s s' \<and>
        (r \<longrightarrow> (\<exists>dst\<in>set (link_targets W t obj l). hit W T R (Suc d) (wd_target W t (ol_col l)) dst)) \<and>
        (\<not> r \<longrightarrow> link_clean W T R d ks t obj l s')"
      if l: "l \<in> set (links_of R t)" and s: "I s" for l s
    proof -
      obtain was_on s1 where c: "already_checking obj (ol_col l) d s = (was_on, s1)" by fastforce
      note facts = already_checking_facts [OF _ c]
      have le: "d \<le> length (ck_path s)" using s d by (simp add: I_def)
      have s1: "keeps d s s1" "cache_ok W T R s1" "length (ck_path s1) = 4" "path_keys d s1 = ks"
        using facts(1,2) [OF le] s by (auto simp: I_def keeps_def cache_ok_def)
      show ?thesis
      proof (cases was_on)
        case True
        have "(obj, ol_col l) \<in> set ks" using facts(3) [OF le] True s by (simp add: I_def)
        moreover have "\<forall>j. 1 \<le> j \<longrightarrow> j \<le> d \<longrightarrow> \<not> flag (j - 1) s1 \<longrightarrow> (obj, ol_col l) \<in> set (drop j ks)"
          using facts(4) [OF le True] s by (auto simp: I_def)
        ultimately have "link_clean W T R d ks t obj l s1" by (simp add: link_clean_def)
        then show ?thesis using c True s1
          by (intro exI [of _ False] exI [of _ s1]) (simp add: linked_object_changed_def I_def)
      next
        case False
        let ?ks = "ks @ [(obj, ol_col l)]" let ?t = "wd_target W t (ol_col l)"
        define J where "J = (\<lambda>s. cache_ok W T R s \<and> length (ck_path s) = 4 \<and> path_keys (Suc d) s = ?ks)"
        have "J s1" using facts(5) [OF le False] s1 s d by (simp add: I_def J_def)
        have row: "\<exists>r s'. ?row ?t dst s = Some (r, s') \<and> J s' \<and> keeps (Suc d) s s' \<and>
            (r \<longrightarrow> hit W T R (Suc d) ?t dst) \<and>
            (\<not> r \<longrightarrow> clean W T R d ?ks s' ?t dst \<and> no_hit W T R (Suc d) ?ks ?t dst)"
          if "dst \<in> set (link_targets W t obj l)" "J s" for dst s
        proof -
          have "wd_exists W ?t dst" using assms(2) Suc.prems(2) l that(1) unfolding links_lead_to_objects_def by blast
          from Suc.IH [OF d(3) this] that(2) obtain r s' where r: "?row ?t dst s = Some (r, s')" "keeps (Suc d) s s'"
            "cache_ok W T R s'" "r \<longrightarrow> hit W T R (Suc d) ?t dst"
            "\<not> r \<longrightarrow> clean W T R (Suc d) ?ks s' ?t dst \<and> no_hit W T R (Suc d) ?ks ?t dst"
            unfolding J_def by blast
          have "clean W T R d ?ks s' ?t dst" if "clean W T R (Suc d) ?ks s' ?t dst"
            using that by (simp add: clean_def)
          moreover have "J s'" using r(2,3) that(2) by (simp add: J_def keeps_def)
          ultimately show ?thesis using r by blast
        qed
        have "\<exists>r s'. any_of (?row ?t) (link_targets W t obj l) s1 = Some (r, s') \<and> J s' \<and> keeps (Suc d) s1 s' \<and>
            (r \<longrightarrow> (\<exists>dst\<in>set (link_targets W t obj l). hit W T R (Suc d) ?t dst)) \<and>
            (\<not> r \<longrightarrow> (\<forall>dst\<in>set (link_targets W t obj l).
               clean W T R d ?ks s' ?t dst \<and> no_hit W T R (Suc d) ?ks ?t dst))"
          by (rule any_of_rule [OF row _ _ _ \<open>J s1\<close>])
            (auto intro: keeps_trans clean_keeps_Suc)
        then obtain r s' where r: "any_of (?row ?t) (link_targets W t obj l) s1 = Some (r, s')" "J s'" "keeps (Suc d) s1 s'"
          "r \<longrightarrow> (\<exists>dst\<in>set (link_targets W t obj l). hit W T R (Suc d) ?t dst)"
          "\<not> r \<longrightarrow> (\<forall>dst\<in>set (link_targets W t obj l). clean W T R d ?ks s' ?t dst \<and> no_hit W T R (Suc d) ?ks ?t dst)"
          by blast
        have keeps: "keeps d s s'" using s1(1) keeps_less [OF r(3), of d] keeps_trans by auto
        have "I s'" using keeps r(2) s by (simp add: I_def J_def keeps_def)
        moreover have "(obj, ol_col l) \<notin> set ks" using facts(3) [OF le] False s by (simp add: I_def)
        ultimately show ?thesis
          using c False r keeps by (auto simp: linked_object_changed_def link_clean_def)
      qed
    qed
    have "I ck" using Suc.prems by (simp add: I_def)
    have "\<exists>r s'. any_of (linked_object_changed ?row W t obj d) (links_of R t) ck = Some (r, s') \<and> I s' \<and> keeps d ck s' \<and>
        (r \<longrightarrow> (\<exists>l\<in>set (links_of R t). \<exists>dst\<in>set (link_targets W t obj l). hit W T R (Suc d) (wd_target W t (ol_col l)) dst)) \<and>
        (\<not> r \<longrightarrow> (\<forall>l\<in>set (links_of R t). link_clean W T R d ks t obj l s'))"
      by (rule any_of_rule [OF link _ _ _ \<open>I ck\<close>]) (auto intro: keeps_trans link_clean_keeps)
    then obtain r s' where r: "any_of (linked_object_changed ?row W t obj d) (links_of R t) ck = Some (r, s')" "I s'"
      "keeps d ck s'"
      "r \<longrightarrow> (\<exists>l\<in>set (links_of R t). \<exists>dst\<in>set (link_targets W t obj l). hit W T R (Suc d) (wd_target W t (ol_col l)) dst)"
      "\<not> r \<longrightarrow> (\<forall>l\<in>set (links_of R t). link_clean W T R d ks t obj l s')"
      by blast
    have hit: "hit W T R d t obj" if ret: r
    proof -
      obtain l dst where l: "l \<in> set (links_of R t)" "dst \<in> set (link_targets W t obj l)"
        "hit W T R (Suc d) (wd_target W t (ol_col l)) dst" using r(4) ret by blast
      then have "3 - d = Suc (3 - Suc d)" unfolding hit_def by linarith
      then have "reaches W T R {} (3 - d) t obj" using l by (auto simp: hit_def)
      then show ?thesis using d(2) by (simp add: hit_def)
    qed
    have no: "clean W T R d ks s' t obj" "no_hit W T R d ks t obj" if "\<not> r"
      using links_decide [OF assms(1) d(4) _ 3(1)] r(5) that by blast+
    let ?s = "s'\<lparr>ck_not_modified := (ck_not_modified s')(t := insert obj (ck_not_modified s' t))\<rparr>"
    have cached: "cache_ok W T R ?s" if "\<not> r" "d = 0 \<or> \<not> pe_exceeded (ck_path s' ! (d - 1))"
    proof -
      have "\<not> reaches W T R {} 3 t obj"
      proof (cases "d = 0")
        case True
        then show ?thesis using no(2) [OF that(1)] d(4) by (simp add: no_hit_def)
      next
        case False
        then have "1 \<le> d" "\<not> flag (d - 1) s'" using that(2) by (auto simp: flag_def)
        then have "\<not> reaches W T R (set (drop d ks)) 3 t obj" using no(1) [OF that(1)] by (simp add: clean_def)
        then show ?thesis using d(4) by simp
      qed
      then show ?thesis using r(2) by (auto simp: I_def cache_ok_def)
    qed
    have same: "keeps d ck ?s" "clean W T R d ks ?s t obj = clean W T R d ks s' t obj"
      using r(3) by (simp_all add: keeps_def path_keys_def flag_def clean_def)
    let ?ck' = "if \<not> r \<and> (d = 0 \<or> \<not> pe_exceeded (ck_path s' ! (d - 1))) then ?s else s'"
    have "check_levels W T R (Suc n) t obj ck = Some (r, ?ck')"
    proof -
      have tests: "(0 < d \<and> table_modifications T t obj) = False" "(obj \<in> ck_not_modified ck t) = False" using 3 by auto
      show ?thesis
        unfolding check_levels.simps Let_def d(1) tests if_False outgoing_links [OF Suc.prems(2)] r(1) by simp
    qed
    moreover have "keeps d ck ?ck'" using same(1) r(3) by simp
    moreover have "cache_ok W T R ?ck'" using cached r(2) by (simp add: I_def)
    moreover have "clean W T R d ks ?ck' t obj \<and> no_hit W T R d ks t obj" if "\<not> r" using no [OF that] same(2) by simp
    ultimately show ?thesis using hit by blast
  qed
qed

definition checker_new :: "path_entry list \<Rightarrow> checker" where
  "checker_new junk = \<lparr>ck_not_modified = (\<lambda>t. {}), ck_path = junk\<rparr>"

text \<open>An object counts as changed when it was modified, or links to one that was, over at most three links.\<close>

definition deeply_changed :: "world \<Rightarrow> (int, object_changes) mapping \<Rightarrow> related_table list \<Rightarrow> int \<Rightarrow> int \<Rightarrow> bool" where
  "deeply_changed W T R t obj \<longleftrightarrow> table_modifications T t obj \<or> reaches W T R {} 3 t obj"

lemma check_object_exact:
  assumes "distinct_columns R" "links_lead_to_objects W R" "wd_exists W root key" "cache_ok W T R ck" "length (ck_path ck) = 4"
  shows "\<exists>ck'. check_object W T R root key ck = Some (deeply_changed W T R root key, ck') \<and> cache_ok W T R ck' \<and>
    length (ck_path ck') = 4"
proof (cases "table_modifications T root key")
  case False
  obtain r ck' where r: "check_levels W T R 4 root key ck = Some (r, ck')" "keeps 0 ck ck'" "cache_ok W T R ck'"
    "r \<longrightarrow> hit W T R 0 root key" "\<not> r \<longrightarrow> no_hit W T R 0 [] root key"
    using rows_exact [OF assms(1,2), of 0 4 root key T ck "[]"] assms(3-5) by (auto simp: path_keys_def)
  then have "r \<longleftrightarrow> reaches W T R {} 3 root key" by (auto simp: hit_def no_hit_def)
  then show ?thesis
    using False r assms(5) by (simp add: check_object_def check_row_def deeply_changed_def max_path_def keeps_def)
qed (use assms in \<open>simp add: check_object_def deeply_changed_def\<close>)

section \<open>The related tables\<close>

definition table_link :: "world \<Rightarrow> int \<Rightarrow> int \<Rightarrow> outgoing_link" where
  "table_link W t col = \<lparr>ol_col = col, ol_is_list = (wd_type W t col = Type_LinkList)\<rparr>"

definition table_links :: "world \<Rightarrow> int \<Rightarrow> outgoing_link list" where
  "table_links W t = map (table_link W t) (filter (is_link W t) (wd_columns W t))"

definition link_step :: "world \<Rightarrow> (int \<times> int) set" where
  "link_step W = {(t, wd_target W t col) |t col. col \<in> set (wd_columns W t) \<and> is_link W t col}"

abbreviation table_keys :: "related_table list \<Rightarrow> int set" where
  "table_keys out \<equiv> rt_key ` set out"

lemma has_table_iff: "has_table t out \<longleftrightarrow> t \<in> table_keys out"
  by (auto simp: has_table_def list_ex_iff)

text \<open>
  What the loop over the columns leaves: its own entry with the links, the older entries as they were, and
  new ones that are complete.
\<close>

definition entry_ok :: "world \<Rightarrow> int \<Rightarrow> int set \<Rightarrow> related_table \<Rightarrow> bool" where
  "entry_ok W t ks r \<longleftrightarrow> rt_links r = table_links W (rt_key r) \<and> (t, rt_key r) \<in> (link_step W)\<^sup>* \<and>
     (\<forall>s. (rt_key r, s) \<in> link_step W \<longrightarrow> s \<in> ks)"

definition extends :: "world \<Rightarrow> nat \<Rightarrow> int \<Rightarrow> int list \<Rightarrow> related_table list \<Rightarrow> related_table list \<Rightarrow> bool" where
  "extends W i t cols out out' \<longleftrightarrow> length out \<le> length out' \<and> distinct (map rt_key out') \<and>
     (\<forall>j<length out. j \<noteq> i \<longrightarrow> out' ! j = out ! j) \<and>
     out' ! i = (out ! i)\<lparr>rt_links := rt_links (out ! i) @ map (table_link W t) (filter (is_link W t) cols)\<rparr> \<and>
     (\<forall>col\<in>set cols. is_link W t col \<longrightarrow> wd_target W t col \<in> table_keys out') \<and>
     (\<forall>j<length out'. length out \<le> j \<longrightarrow> entry_ok W t (table_keys out') (out' ! j))"

lemma extends_keys: "extends W i t cols out out' \<Longrightarrow> j < length out \<Longrightarrow> rt_key (out' ! j) = rt_key (out ! j)"
  by (cases "j = i") (simp_all add: extends_def)

lemma extends_table_keys: "extends W i t cols out out' \<Longrightarrow> table_keys out \<subseteq> table_keys out'"
proof
  fix k assume e: "extends W i t cols out out'" and "k \<in> table_keys out"
  then obtain j where j: "j < length out" "k = rt_key (out ! j)" by (auto simp: in_set_conv_nth)
  moreover have "rt_key (out' ! j) = rt_key (out ! j)" by (rule extends_keys [OF e j(1)])
  moreover have "length out \<le> length out'" using e by (simp add: extends_def)
  ultimately have "k = rt_key (out' ! j)" "j < length out'" by simp_all
  then show "k \<in> table_keys out'" by simp
qed

lemma entry_ok_mono: "entry_ok W t ks r \<Longrightarrow> ks \<subseteq> ks' \<Longrightarrow> entry_ok W t ks' r"
  by (auto simp: entry_ok_def)

lemma extends_in:
  assumes "extends W i t cols out out'" "table_keys out \<subseteq> C" "t \<in> C" "\<And>a b. (a, b) \<in> link_step W \<Longrightarrow> a \<in> C \<Longrightarrow> b \<in> C"
  shows "table_keys out' \<subseteq> C"
proof
  have closed: "(a, b) \<in> (link_step W)\<^sup>* \<Longrightarrow> a \<in> C \<Longrightarrow> b \<in> C" for a b
    by (induction rule: rtrancl_induct) (auto intro: assms(4))
  fix k assume "k \<in> table_keys out'"
  then obtain j where j: "j < length out'" "k = rt_key (out' ! j)" by (auto simp: in_set_conv_nth)
  show "k \<in> C"
  proof (cases "j < length out")
    case True
    then show ?thesis using j extends_keys [OF assms(1) True] assms(2) by auto
  next
    case False
    then have "entry_ok W t (table_keys out') (out' ! j)" using assms(1) j(1) by (simp add: extends_def)
    then show ?thesis using closed assms(3) j(2) by (auto simp: entry_ok_def)
  qed
qed

lemma push_link_facts:
  assumes "i < length out"
  shows "length (push_link i l out) = length out" "map rt_key (push_link i l out) = map rt_key out"
    "table_keys (push_link i l out) = table_keys out" "j \<noteq> i \<Longrightarrow> push_link i l out ! j = out ! j"
    "push_link i l out ! i = (out ! i)\<lparr>rt_links := rt_links (out ! i) @ [l]\<rparr>"
proof -
  show keys: "map rt_key (push_link i l out) = map rt_key out"
    using assms by (intro nth_equalityI) (auto simp: push_link_def nth_list_update)
  show "table_keys (push_link i l out) = table_keys out" using keys by (metis set_map)
qed (use assms in \<open>simp_all add: push_link_def\<close>)

lemma related_columns_extends:
  assumes "finite C" and closed: "\<And>a b. (a, b) \<in> link_step W \<Longrightarrow> a \<in> C \<Longrightarrow> b \<in> C"
  shows "i < length out \<Longrightarrow> rt_key (out ! i) = t \<Longrightarrow> table_keys out \<subseteq> C \<Longrightarrow> distinct (map rt_key out) \<Longrightarrow>
    set cols \<subseteq> set (wd_columns W t) \<Longrightarrow> \<exists>out'. related_columns W i t cols out = Some out' \<and> extends W i t cols out out'"
proof (induction "(i, t, cols, out)" arbitrary: i t cols out
    rule: wf_induct_rule [OF wf_measures [of "[\<lambda>(i, t, cols, out). card (C - table_keys out), \<lambda>(i, t, cols, out). length cols]"]])
  case (1 i t cols out)
  note IH = 1(1) and prems = 1(2-6)
  show ?case
  proof (cases cols)
    case Nil
    then show ?thesis using prems by (subst related_columns.simps) (simp add: extends_def)
  next
    case (Cons col cs)
    have t: "t \<in> C" using prems(1-3) by auto
    show ?thesis
    proof (cases "is_link W t col")
      case False
      have "\<exists>out'. related_columns W i t cs out = Some out' \<and> extends W i t cs out out'"
        using prems Cons by (intro IH) simp_all
      then show ?thesis using Cons False by (subst related_columns.simps) (auto simp: extends_def)
    next
      case True
      let ?l = "table_link W t col" let ?s = "wd_target W t col" let ?out1 = "push_link i ?l out"
      note push = push_link_facts [OF prems(1), where l = ?l]
      have step: "(t, ?s) \<in> link_step W" using True prems(5) Cons by (auto simp: link_step_def)
      then have s: "?s \<in> C" using closed t by blast
      let ?rest = "if has_table ?s ?out1 then Some ?out1
          else related_columns W (length ?out1) ?s (wd_columns W ?s) (?out1 @ [\<lparr>rt_key = ?s, rt_links = []\<rparr>])"
      have "\<exists>out2. ?rest = Some out2 \<and> length out \<le> length out2 \<and> distinct (map rt_key out2) \<and>
          (\<forall>j<length out. out2 ! j = ?out1 ! j) \<and> ?s \<in> table_keys out2 \<and> table_keys out \<subseteq> table_keys out2 \<and>
          table_keys out2 \<subseteq> C \<and> (\<forall>j<length out2. length out \<le> j \<longrightarrow> entry_ok W t (table_keys out2) (out2 ! j))"
      proof (cases "has_table ?s ?out1")
        case True
        then show ?thesis using push prems by (auto simp: has_table_iff)
      next
        case False
        let ?out0 = "?out1 @ [\<lparr>rt_key = ?s, rt_links = []\<rparr>]"
        have new: "?s \<notin> table_keys out" using False push(3) by (simp add: has_table_iff)
        have keys0: "table_keys ?out0 = insert ?s (table_keys out)" using push(3) by auto
        have less: "card (C - table_keys ?out0) < card (C - table_keys out)"
          unfolding keys0 using new s assms(1) by (intro psubset_card_mono) auto
        have d0: "distinct (map rt_key ?out0)" using prems(4) new push(2) by auto
        have "\<exists>out2. related_columns W (length ?out1) ?s (wd_columns W ?s) ?out0 = Some out2 \<and>
            extends W (length ?out1) ?s (wd_columns W ?s) ?out0 out2"
        proof (rule IH)
          show "table_keys ?out0 \<subseteq> C" using keys0 prems(3) s by auto
        qed (use less d0 in simp_all)
        then obtain out2 where out2: "related_columns W (length ?out1) ?s (wd_columns W ?s) ?out0 = Some out2"
          "extends W (length ?out1) ?s (wd_columns W ?s) ?out0 out2" by blast
        have len: "length ?out0 = Suc (length out)" using push(1) by simp
        have same: "out2 ! j = ?out1 ! j" if "j < length out" for j
          using out2(2) that push(1) unfolding extends_def by (simp add: nth_append)
        have sub: "table_keys out2 \<subseteq> C"
        proof (rule extends_in [OF out2(2) _ s])
          show "table_keys ?out0 \<subseteq> C" using keys0 prems(3) s by auto
        qed (rule closed)
        have own: "out2 ! length out = \<lparr>rt_key = ?s, rt_links = table_links W ?s\<rparr>"
          using out2(2) push(1) unfolding extends_def table_links_def by (simp add: nth_append)
        have own_ok: "entry_ok W t (table_keys out2) (out2 ! length out)"
        proof -
          have "\<forall>u. (?s, u) \<in> link_step W \<longrightarrow> u \<in> table_keys out2"
            using out2(2) unfolding extends_def link_step_def by blast
          then show ?thesis using step by (simp add: entry_ok_def own)
        qed
        have "entry_ok W t (table_keys out2) (out2 ! j)" if "j < length out2" "length out \<le> j" for j
        proof (cases "j = length out")
          case False
          then have "entry_ok W ?s (table_keys out2) (out2 ! j)" using out2(2) that len unfolding extends_def by simp
          then show ?thesis using step by (auto simp: entry_ok_def intro: converse_rtrancl_into_rtrancl)
        qed (use own_ok in simp)
        moreover have "?s \<in> table_keys out2" "table_keys out \<subseteq> table_keys out2" "length out \<le> length out2"
            "distinct (map rt_key out2)"
        proof -
          have sub0: "insert ?s (table_keys out) \<subseteq> table_keys out2" using extends_table_keys [OF out2(2)] unfolding keys0 .
          then show "?s \<in> table_keys out2" "table_keys out \<subseteq> table_keys out2" by blast+
          have "length ?out0 \<le> length out2" using out2(2) by (simp only: extends_def)
          then show "length out \<le> length out2" unfolding len by simp
          show "distinct (map rt_key out2)" using out2(2) by (simp only: extends_def)
        qed
        ultimately show ?thesis using False out2(1) same sub by auto
      qed
      then obtain out2 where out2: "?rest = Some out2" "length out \<le> length out2" "distinct (map rt_key out2)"
        "\<forall>j<length out. out2 ! j = ?out1 ! j" "?s \<in> table_keys out2" "table_keys out \<subseteq> table_keys out2"
        "table_keys out2 \<subseteq> C" "\<forall>j<length out2. length out \<le> j \<longrightarrow> entry_ok W t (table_keys out2) (out2 ! j)"
        by blast
      have card: "card (C - table_keys out2) \<le> card (C - table_keys out)"
        using out2(6) assms(1) by (intro card_mono) auto
      have at_i: "out2 ! i = (out ! i)\<lparr>rt_links := rt_links (out ! i) @ [?l]\<rparr>" using out2(4) prems(1) push(5) by simp
      have "\<exists>out3. related_columns W i t cs out2 = Some out3 \<and> extends W i t cs out2 out3"
      proof (rule IH)
        show "((i, t, cs, out2), (i, t, cols, out)) \<in> measures [\<lambda>(i, t, cols, out). card (C - table_keys out), \<lambda>(i, t, cols, out). length cols]"
          using card Cons by auto
        show "rt_key (out2 ! i) = t" using at_i prems(2) by simp
      qed (use out2 prems Cons in simp_all)
      then obtain out3 where out3: "related_columns W i t cs out2 = Some out3" "extends W i t cs out2 out3" by blast
      note sub3 = extends_table_keys [OF out3(2)]
      have "extends W i t cols out out3"
        unfolding extends_def
      proof (intro conjI allI impI ballI)
        show "length out \<le> length out3" "distinct (map rt_key out3)" using out3(2) out2(2) by (auto simp: extends_def)
        show "out3 ! j = out ! j" if "j < length out" "j \<noteq> i" for j
          using out3(2) out2(2,4) that push(4) by (simp add: extends_def)
        show "out3 ! i = (out ! i)\<lparr>rt_links := rt_links (out ! i) @ map (table_link W t) (filter (is_link W t) cols)\<rparr>"
          using out3(2) at_i Cons True by (simp add: extends_def)
        show "wd_target W t c \<in> table_keys out3" if "c \<in> set cols" "is_link W t c" for c
          using that Cons out3(2) out2(5) sub3 by (auto simp: extends_def)
        show "entry_ok W t (table_keys out3) (out3 ! j)" if "j < length out3" "length out \<le> j" for j
        proof (cases "j < length out2")
          case True
          moreover have "j \<noteq> i" using that(2) prems(1) by simp
          ultimately have "out3 ! j = out2 ! j" using out3(2) by (simp add: extends_def)
          then show ?thesis using out2(8) that(2) True entry_ok_mono [OF _ sub3] by simp
        next
          case False
          then show ?thesis using out3(2) that(1) by (simp add: extends_def)
        qed
      qed
      moreover have "related_columns W i t cols out = related_columns W i t cs out2"
        using Cons True out2(1) by (subst related_columns.simps) (simp add: table_link_def [symmetric] Let_def)
      ultimately show ?thesis using out3(1) by simp
    qed
  qed
qed

text \<open>
  C40. \<open>find_related_tables\<close> ends, and finds each table that can be reached over columns of links exactly once,
  with its columns of links in their order.
\<close>

theorem related_tables_exact:
  assumes "finite ((link_step W)\<^sup>* `` {t})"
  shows "\<exists>out. find_related_tables W [] t = Some out \<and> distinct (map rt_key out) \<and>
    table_keys out = (link_step W)\<^sup>* `` {t} \<and> (\<forall>r\<in>set out. rt_links r = table_links W (rt_key r))"
proof -
  let ?C = "(link_step W)\<^sup>* `` {t}" let ?new = "[\<lparr>rt_key = t, rt_links = []\<rparr>]"
  have closed: "(a, b) \<in> link_step W \<Longrightarrow> a \<in> ?C \<Longrightarrow> b \<in> ?C" for a b by (auto intro: rtrancl_into_rtrancl)
  obtain out where out: "related_columns W 0 t (wd_columns W t) ?new = Some out" "extends W 0 t (wd_columns W t) ?new out"
  proof -
    have "\<exists>out'. related_columns W 0 t (wd_columns W t) ?new = Some out' \<and> extends W 0 t (wd_columns W t) ?new out'"
    proof (rule related_columns_extends [where C = ?C])
      show "b \<in> ?C" if "(a, b) \<in> link_step W" "a \<in> ?C" for a b using closed that by blast
    qed (use assms in simp_all)
    then show ?thesis using that by blast
  qed
  have own: "out ! 0 = \<lparr>rt_key = t, rt_links = table_links W t\<rparr>" "0 < length out"
    using out(2) by (auto simp: extends_def table_links_def)
  have first: "entry_ok W t (table_keys out) (out ! 0)"
  proof -
    have "\<forall>u. (t, u) \<in> link_step W \<longrightarrow> u \<in> table_keys out"
      using out(2) unfolding extends_def link_step_def by blast
    then show ?thesis by (simp add: entry_ok_def own)
  qed
  have all: "entry_ok W t (table_keys out) r" if r: "r \<in> set out" for r
  proof -
    obtain j where j: "j < length out" "r = out ! j" using r by (auto simp: in_set_conv_nth)
    then show ?thesis using first out(2) by (cases j) (auto simp: extends_def)
  qed
  have "t \<in> table_keys out" using own nth_mem [OF own(2)] by force
  have "u \<in> table_keys out" if "(t, u) \<in> (link_step W)\<^sup>*" for u
    using that by (induction rule: rtrancl_induct) (use \<open>t \<in> table_keys out\<close> all in \<open>auto simp: entry_ok_def\<close>)
  then have "table_keys out = ?C" using all by (auto simp: entry_ok_def)
  then show ?thesis using out all by (auto simp: find_related_tables_def has_table_def extends_def entry_ok_def)
qed

section \<open>The modification checker of a notifier\<close>

definition modifications_empty :: "object_changes \<Rightarrow> bool" where
  "modifications_empty c \<longleftrightarrow> Mapping.is_empty (oc_modifications c)"

definition set_table :: "world \<Rightarrow> int \<Rightarrow> related_table list option" where
  "set_table W root = find_related_tables W [] root"

text \<open>The three function objects that \<open>get_modification_checker\<close> returns.\<close>

datatype mod_checker = Never | Root_table object_changes | Deep

definition get_modification_checker :: "world \<Rightarrow> change_info \<Rightarrow> int \<Rightarrow> related_table list \<Rightarrow>
    (mod_checker \<times> related_table list) option" where
  "get_modification_checker W info root related = do {
     related \<leftarrow> (if ti_schema_changed info then set_table W root else Some related);
     let table_modified = (\<lambda>r. case Mapping.lookup (ti_tables info) (rt_key r) of
         None \<Rightarrow> False | Some c \<Rightarrow> \<not> modifications_empty c);
     if \<not> list_ex table_modified related then Some (Never, related)
     else if length related = 1 then do {
       c \<leftarrow> Mapping.lookup (ti_tables info) (rt_key (related ! 0));
       Some (Root_table c, related) }
     else Some (Deep, related) }"

definition ask_checker :: "mod_checker \<Rightarrow> world \<Rightarrow> change_info \<Rightarrow> related_table list \<Rightarrow> int \<Rightarrow> int \<Rightarrow> checker \<Rightarrow>
    (bool \<times> checker) option" where
  "ask_checker f W info related root key ck = (case f of
       Never \<Rightarrow> Some (False, ck)
     | Root_table c \<Rightarrow> Some (modifications_contains c key, ck)
     | Deep \<Rightarrow> check_object W (ti_tables info) related root key ck)"

text \<open>The answers for several objects, with what was learnt from one kept for the next.\<close>

fun run_checker :: "mod_checker \<Rightarrow> world \<Rightarrow> change_info \<Rightarrow> related_table list \<Rightarrow> int \<Rightarrow> int list \<Rightarrow> checker \<Rightarrow> bool list option" where
  "run_checker f W info related root [] ck = Some []"
| "run_checker f W info related root (key # ks) ck = do {
     (r, ck) \<leftarrow> ask_checker f W info related root key ck;
     rs \<leftarrow> run_checker f W info related root ks ck;
     Some (r # rs) }"

text \<open>Tables that a query depends on, and the change information a notifier asks for.\<close>

definition all_related_tables_covered :: "related_table list \<Rightarrow> (int \<times> nat) list \<Rightarrow> bool" where
  "all_related_tables_covered related versions =
    (if length related > length versions then False
     else list_all (\<lambda>r. list_ex (\<lambda>v. fst v = rt_key r) versions) related)"

definition add_required_change_info :: "(change_info \<Rightarrow> bool \<times> change_info) \<Rightarrow> related_table list \<Rightarrow> change_info \<Rightarrow> change_info" where
  "add_required_change_info do_info related info = (case do_info info of (required, info) \<Rightarrow>
     if \<not> required \<or> related = [] then info
     else info\<lparr>ti_tables := foldl (\<lambda>m r. if Mapping.lookup m (rt_key r) = None then Mapping.update (rt_key r) oc_new m else m)
       (ti_tables info) related\<rparr>)"

lemma covered_related_tables:
  "all_related_tables_covered related versions \<Longrightarrow> table_keys related \<subseteq> fst ` set versions"
  by (auto simp: all_related_tables_covered_def list_all_iff list_ex_iff image_iff split: if_splits) metis

lemma tracked_tables:
  "Mapping.lookup (foldl (\<lambda>m r. if Mapping.lookup m (rt_key r) = None then Mapping.update (rt_key r) oc_new m else m) m related) t =
    (case Mapping.lookup m t of Some c \<Rightarrow> Some c | None \<Rightarrow> if t \<in> table_keys related then Some oc_new else None)"
  by (induction related arbitrary: m) (auto simp: lookup_update' split: option.splits)

text \<open>The specification: an object changed when it was modified, or a link leads to one that changed, within \<open>n\<close> links.\<close>

fun changed_within :: "world \<Rightarrow> (int, object_changes) mapping \<Rightarrow> nat \<Rightarrow> int \<Rightarrow> int \<Rightarrow> bool" where
  "changed_within W T 0 t obj = table_modifications T t obj"
| "changed_within W T (Suc n) t obj = (table_modifications T t obj \<or>
     (\<exists>l\<in>set (table_links W t). \<exists>dst\<in>set (link_targets W t obj l). changed_within W T n (wd_target W t (ol_col l)) dst))"

definition columns_identify_tables :: "world \<Rightarrow> bool" where
  "columns_identify_tables W \<longleftrightarrow> (\<forall>t t' col. col \<in> set (wd_columns W t) \<longrightarrow> col \<in> set (wd_columns W t') \<longrightarrow> t = t')"

definition objects_ok :: "world \<Rightarrow> bool" where
  "objects_ok W \<longleftrightarrow> (\<forall>t obj l dst. wd_exists W t obj \<longrightarrow> l \<in> set (table_links W t) \<longrightarrow>
     dst \<in> set (link_targets W t obj l) \<longrightarrow> wd_exists W (wd_target W t (ol_col l)) dst)"

definition related_ok :: "world \<Rightarrow> int \<Rightarrow> related_table list \<Rightarrow> bool" where
  "related_ok W root R \<longleftrightarrow> distinct (map rt_key R) \<and> table_keys R = (link_step W)\<^sup>* `` {root} \<and>
     (\<forall>r\<in>set R. rt_links r = table_links W (rt_key r))"

lemma links_of_related:
  assumes "related_ok W root R"
  shows "links_of R t = (if (root, t) \<in> (link_step W)\<^sup>* then table_links W t else [])"
proof (cases "find (\<lambda>r. rt_key r = t) R")
  case None
  then have "t \<notin> table_keys R" by (auto simp: find_None_iff)
  then show ?thesis using None assms by (simp add: links_of_def related_ok_def)
next
  case (Some r)
  then have "r \<in> set R" "rt_key r = t" by (auto simp: find_Some_iff)
  then show ?thesis using Some assms by (auto simp: links_of_def related_ok_def)
qed

lemma table_link_step: "l \<in> set (table_links W t) \<Longrightarrow> (t, wd_target W t (ol_col l)) \<in> link_step W"
  by (auto simp: table_links_def table_link_def link_step_def)

lemma reaches_changed:
  assumes "related_ok W root R"
  shows "(root, t) \<in> (link_step W)\<^sup>* \<Longrightarrow>
    changed_within W T n t obj \<longleftrightarrow> table_modifications T t obj \<or> reaches W T R {} n t obj"
proof (induction n arbitrary: t obj)
  case (Suc n)
  have "changed_within W T n (wd_target W t (ol_col l)) dst \<longleftrightarrow>
      table_modifications T (wd_target W t (ol_col l)) dst \<or> reaches W T R {} n (wd_target W t (ol_col l)) dst"
    if "l \<in> set (table_links W t)" for l dst
    using Suc.IH [OF rtrancl_into_rtrancl [OF Suc.prems table_link_step [OF that]]] .
  then show ?case using Suc.prems by (auto simp: links_of_related [OF assms])
qed simp

lemma related_hypotheses:
  assumes "related_ok W root R"
  shows "columns_identify_tables W \<Longrightarrow> distinct_columns R" "objects_ok W \<Longrightarrow> links_lead_to_objects W R"
proof -
  show "columns_identify_tables W \<Longrightarrow> distinct_columns R"
    unfolding distinct_columns_def links_of_related [OF assms]
    by (auto simp: columns_identify_tables_def table_links_def table_link_def split: if_splits)
  show "objects_ok W \<Longrightarrow> links_lead_to_objects W R"
    unfolding links_lead_to_objects_def links_of_related [OF assms] objects_ok_def by (simp split: if_splits)
qed

lemma modified_table_not_empty: "modifications_contains c obj \<Longrightarrow> \<not> modifications_empty c"
  by (auto simp: modifications_contains_def modifications_empty_def Mapping.is_empty_def keys_dom_lookup)

lemma changed_table:
  assumes "related_ok W root R" "changed_within W T n t obj" "(root, t) \<in> (link_step W)\<^sup>*"
  shows "\<exists>r\<in>set R. \<exists>obj. table_modifications T (rt_key r) obj"
  using assms(2,3)
proof (induction n arbitrary: t obj)
  case 0
  then have "t \<in> table_keys R" using assms(1) by (simp add: related_ok_def)
  then show ?case using 0 by auto
next
  case (Suc n)
  show ?case
  proof (cases "table_modifications T t obj")
    case True
    have "t \<in> table_keys R" using assms(1) Suc.prems(2) by (simp add: related_ok_def)
    then show ?thesis using True by auto
  next
    case False
    then obtain l dst where l: "l \<in> set (table_links W t)" "changed_within W T n (wd_target W t (ol_col l)) dst"
      using Suc.prems(1) by auto
    then show ?thesis using Suc.IH rtrancl_into_rtrancl [OF Suc.prems(2) table_link_step] by blast
  qed
qed

text \<open>The answers of a checker, with an invariant of what it remembers.\<close>

definition answers :: "mod_checker \<Rightarrow> world \<Rightarrow> change_info \<Rightarrow> related_table list \<Rightarrow> int \<Rightarrow> (checker \<Rightarrow> bool) \<Rightarrow> bool" where
  "answers f W info R root ok \<longleftrightarrow> (\<forall>ck key. ok ck \<longrightarrow> wd_exists W root key \<longrightarrow>
     (\<exists>ck'. ask_checker f W info R root key ck = Some (changed_within W (ti_tables info) 3 root key, ck') \<and> ok ck'))"

lemma checker_answers:
  assumes "finite ((link_step W)\<^sup>* `` {root})" "columns_identify_tables W" "objects_ok W"
    and "length junk = 4" "ti_schema_changed info \<or> find_related_tables W [] root = Some related"
    and "(link_step W)\<^sup>* `` {root} = {root} \<longrightarrow> (root, root) \<notin> link_step W"
  shows "\<exists>f R ok. get_modification_checker W info root related = Some (f, R) \<and> answers f W info R root ok \<and> ok (checker_new junk)"
proof -
  let ?T = "ti_tables info"
  obtain R where R: "find_related_tables W [] root = Some R" "related_ok W root R"
    using related_tables_exact [OF assms(1)] by (auto simp: related_ok_def)
  have related: "(if ti_schema_changed info then set_table W root else Some related) = Some R"
    using assms(5) R(1) by (auto simp: set_table_def)
  let ?modified = "\<lambda>r. case Mapping.lookup ?T (rt_key r) of None \<Rightarrow> False | Some c \<Rightarrow> \<not> modifications_empty c"
  have modified: "?modified r" if "table_modifications ?T (rt_key r) obj" for r obj
    using that modified_table_not_empty by (auto simp: table_modifications_def split: option.splits)
  show ?thesis
  proof (cases "list_ex ?modified R")
    case False
    then have "\<not> changed_within W ?T 3 root key" for key
      using changed_table [OF R(2), of ?T 3 root key] modified by (auto simp: list_ex_iff)
    then show ?thesis using related False
      by (intro exI [of _ Never] exI [of _ R] exI [of _ "\<lambda>_. True"])
        (simp add: get_modification_checker_def answers_def ask_checker_def)
  next
    case any: True
    show ?thesis
    proof (cases "length R = 1")
      case True
      then obtain r where r: "R = [r]" by (cases R) auto
      then have reach: "(link_step W)\<^sup>* `` {root} = {rt_key r}" using R(2) by (simp add: related_ok_def)
      have "root \<in> (link_step W)\<^sup>* `` {root}" by simp
      then have key: "rt_key r = root" unfolding reach by simp
      then have alone: "(link_step W)\<^sup>* `` {root} = {root}" using reach by simp
      have "l \<notin> set (table_links W root)" for l
      proof
        assume "l \<in> set (table_links W root)"
        then have step: "(root, wd_target W root (ol_col l)) \<in> link_step W" by (rule table_link_step)
        then have "wd_target W root (ol_col l) \<in> (link_step W)\<^sup>* `` {root}" by auto
        then show False using step assms(6) alone by simp
      qed
      then have "table_links W root = []" by (cases "table_links W root") auto
      then have "changed_within W ?T 3 root key = table_modifications ?T root key" for key
        by (simp add: numeral_3_eq_3)
      moreover obtain c where c: "Mapping.lookup ?T root = Some c" using any r key by (auto split: option.splits)
      ultimately show ?thesis using related any r key
        by (intro exI [of _ "Root_table c"] exI [of _ R] exI [of _ "\<lambda>_. True"])
          (simp add: get_modification_checker_def table_modifications_def answers_def ask_checker_def)
    next
      case False
      let ?ok = "\<lambda>ck. cache_ok W ?T R ck \<and> length (ck_path ck) = 4"
      have "?ok (checker_new junk)" using assms(4) by (simp add: cache_ok_def checker_new_def)
      moreover have eq: "changed_within W ?T 3 root = deeply_changed W ?T R root"
        using reaches_changed [OF R(2)] by (simp add: fun_eq_iff deeply_changed_def)
      have "answers Deep W info R root ?ok"
        unfolding answers_def eq
        using check_object_exact [OF related_hypotheses(1) [OF R(2) assms(2)] related_hypotheses(2) [OF R(2) assms(3)]]
        by (simp add: ask_checker_def)
      moreover have "get_modification_checker W info root related = Some (Deep, R)"
        using related any False by (simp add: get_modification_checker_def)
      ultimately show ?thesis by blast
    qed
  qed
qed

lemma answers_run:
  "answers f W info R root ok \<Longrightarrow> ok ck \<Longrightarrow> \<forall>key\<in>set ks. wd_exists W root key \<Longrightarrow>
    run_checker f W info R root ks ck = Some (map (changed_within W (ti_tables info) 3 root) ks)"
proof (induction ks arbitrary: ck)
  case (Cons key ks)
  then obtain ck' where "ask_checker f W info R root key ck = Some (changed_within W (ti_tables info) 3 root key, ck')" "ok ck'"
    unfolding answers_def by (metis list.set_intros(1))
  then show ?case using Cons by simp
qed simp

text \<open>
  C39. The checker that a notifier gets answers exactly whether an object was modified or leads to a
  modified object over at most three links. Neither the order of the objects that were asked for before, nor
  what was remembered as not modified, nor cycles of links, nor the cut at the maximal depth change an
  answer. (The one exception is excluded: a table that has links only to itself.)
\<close>

theorem modification_checker_exact:
  assumes "finite ((link_step W)\<^sup>* `` {root})" "columns_identify_tables W" "objects_ok W"
    and "\<forall>key\<in>set ks. wd_exists W root key" "length junk = 4"
    and "ti_schema_changed info \<or> find_related_tables W [] root = Some related"
    and "(link_step W)\<^sup>* `` {root} = {root} \<longrightarrow> (root, root) \<notin> link_step W"
  shows "\<exists>f R. get_modification_checker W info root related = Some (f, R) \<and>
    run_checker f W info R root ks (checker_new junk) = Some (map (changed_within W (ti_tables info) 3 root) ks)"
  using checker_answers [OF assms(1-3,5-7)] answers_run assms(4) by meson

section \<open>Concrete tables\<close>

text \<open>
  Three tables in a cycle, with the columns 10 (a link from table 1 to table 2), 20 (a list of links from 2 to 3)
  and 30 (a link from 3 to 1), two objects in each, and a change of object 1 in table 3.
\<close>

definition example_tables :: world where
  "example_tables = \<lparr>
     wd_columns = (\<lambda>t. if t = 1 then [10, 11] else if t = 2 then [20] else if t = 3 then [30] else []),
     wd_type = (\<lambda>t col. if col = 20 then Type_LinkList else if col = 11 then Type_other else Type_Link),
     wd_target = (\<lambda>t col. if col = 10 then 2 else if col = 20 then 3 else 1),
     wd_exists = (\<lambda>t obj. obj = 0 \<or> obj = 1),
     wd_link = (\<lambda>t obj col. if obj = 0 then Some 0 else None),
     wd_list = (\<lambda>t obj col. [0, 1])\<rparr>"

definition example_changes :: change_info where
  "example_changes = \<lparr>ti_lists = [], ti_tables = Mapping.update 3 (modifications_add 1 5 oc_new) Mapping.empty,
     ti_track_all = False, ti_schema_changed = True\<rparr>"

lemma example_links:
  "link_step example_tables \<subseteq> {(1, 2), (2, 3), (3, 1)}"
  by (auto simp: link_step_def is_link_def example_tables_def split: if_splits)

lemma example_finite: "finite ((link_step example_tables)\<^sup>* `` {t})"
proof -
  have "finite (link_step example_tables)" by (rule finite_subset [OF example_links]) simp
  then show ?thesis by (rule finite_rtrancl_Image) simp
qed

lemma example_identify: "columns_identify_tables example_tables"
  by (auto simp: columns_identify_tables_def example_tables_def split: if_splits)

lemma example_objects: "objects_ok example_tables"
  by (auto simp: objects_ok_def example_tables_def link_targets_def split: if_splits)

theorem related_tables_exact_witness:
  "\<exists>out. find_related_tables example_tables [] 2 = Some out \<and> distinct (map rt_key out) \<and>
    table_keys out = (link_step example_tables)\<^sup>* `` {2} \<and> (\<forall>r\<in>set out. rt_links r = table_links example_tables (rt_key r))"
  using related_tables_exact [OF example_finite] .

theorem modification_checker_exact_witness:
  "\<exists>f R. get_modification_checker example_tables example_changes 1 [] = Some (f, R) \<and>
    run_checker f example_tables example_changes R 1 [0, 1] (checker_new (replicate 4 \<lparr>pe_obj = 0, pe_col = 0, pe_exceeded = False\<rparr>)) =
      Some [True, False]"
proof -
  have "map (changed_within example_tables (ti_tables example_changes) 3 1) [0, 1] = [True, False]"
    by (simp add: numeral_3_eq_3 table_links_def table_link_def is_link_def link_targets_def table_modifications_def
      modifications_contains_def modifications_add_def oc_new_def example_tables_def example_changes_def)
  moreover have "(link_step example_tables)\<^sup>* `` {1} = {1} \<longrightarrow> (1, 1) \<notin> link_step example_tables"
    using example_links by auto
  ultimately show ?thesis
    using modification_checker_exact [OF example_finite example_identify example_objects, of "[0, 1]" 1
      "replicate 4 \<lparr>pe_obj = 0, pe_col = 0, pe_exceeded = False\<rparr>" example_changes "[]"]
    by (simp add: example_tables_def example_changes_def)
qed

text \<open>
  A table with links only to itself is the only related table, so that its links are not followed: object 0 links to
  the modified object 1 and is reported as not modified.
\<close>

definition self_links :: world where
  "self_links = \<lparr>wd_columns = (\<lambda>t. if t = 1 then [10] else []), wd_type = (\<lambda>t col. Type_Link), wd_target = (\<lambda>t col. 1),
     wd_exists = (\<lambda>t obj. True), wd_link = (\<lambda>t obj col. if obj = 0 then Some 1 else None), wd_list = (\<lambda>t obj col. [])\<rparr>"

definition self_changes :: change_info where
  "self_changes = \<lparr>ti_lists = [], ti_tables = Mapping.update 1 (modifications_add 1 5 oc_new) Mapping.empty,
     ti_track_all = False, ti_schema_changed = True\<rparr>"

theorem links_within_a_table_are_not_followed:
  "\<exists>f R. get_modification_checker self_links self_changes 1 [] = Some (f, R) \<and>
     run_checker f self_links self_changes R 1 [0] (checker_new junk) = Some [False] \<and>
     changed_within self_links (ti_tables self_changes) 3 1 0"
proof -
  have "find_related_tables self_links [] 1 = Some [\<lparr>rt_key = 1, rt_links = [\<lparr>ol_col = 10, ol_is_list = False\<rparr>]\<rparr>]"
    by (simp add: find_related_tables_def has_table_def related_columns.simps push_link_def is_link_def self_links_def)
  moreover have "changed_within self_links (ti_tables self_changes) 3 1 0"
    by (simp add: numeral_3_eq_3 table_links_def table_link_def is_link_def link_targets_def table_modifications_def
      modifications_contains_def modifications_add_def oc_new_def self_links_def self_changes_def)
  ultimately show ?thesis
    by (simp add: get_modification_checker_def set_table_def self_changes_def modifications_empty_def ask_checker_def
      modifications_contains_def modifications_add_def oc_new_def Mapping.is_empty_def)
qed

end
