(* ===== verification/Notifier.thy ===== *)
theory Notifier
  imports DeepChange "HOL-Library.Sublist"
begin

text \<open>
  The callbacks of a collection and the delivery of changes to them (\<open>CollectionNotifier\<close> of
  \<open>OS/impl/collection_notifier.cpp\<close>).

  The loop over the callbacks keeps its position in the notifier, because a callback may add and remove
  callbacks, itself too, while it runs and the mutex is not held; other threads may do so as well at that point.
  What they do is the parameter \<open>react\<close>: a list of actions for each call, which may depend on all calls so far
  (the latest is the first of the list). Position and number of callbacks keep their 64 bits, since the position
  wraps around; tokens are counted without a bound. \<open>None\<close> is a failed assertion or a read beyond the
  end of the vector of callbacks.
\<close>

section \<open>State\<close>

record callback =
  cb_accumulated :: change_builder
  cb_to_deliver :: change_set
  cb_token :: nat
  cb_initial_delivered :: bool
  cb_skip_next :: bool

record notifier =
  nt_change :: change_builder
  nt_has_run :: bool
  nt_error :: bool
  nt_callbacks :: "callback list"
  nt_have_callbacks :: bool
  nt_index :: "64 word"
  nt_count :: "64 word"
  nt_next_token :: nat

definition no_changes :: change_set where
  "no_changes = \<lparr>deletions = [], insertions = [], modifications = [], modifications_new = [], moves = [], columns = []\<rparr>"

definition notifier_new :: notifier where
  "notifier_new = \<lparr>nt_change = empty_builder, nt_has_run = False, nt_error = False, nt_callbacks = [],
     nt_have_callbacks = False, nt_index = - 1, nt_count = - 1, nt_next_token = 0\<rparr>"

definition add_callback :: "notifier \<Rightarrow> nat \<times> notifier" where
  "add_callback n =
    (let token = nt_next_token n;
         n = n\<lparr>nt_next_token := token + 1,
           nt_callbacks := nt_callbacks n @ [\<lparr>cb_accumulated = empty_builder, cb_to_deliver = no_changes,
             cb_token = token, cb_initial_delivered = False, cb_skip_next = False\<rparr>]\<rparr>
     in (token, if nt_index n = - 1 then n\<lparr>nt_have_callbacks := True\<rparr> else n))"

text \<open>The index of the callback, or the number of callbacks when there is none and an error was delivered.\<close>

definition find_callback :: "notifier \<Rightarrow> nat \<Rightarrow> nat option" where
  "find_callback n token =
    (let i = find_index (\<lambda>c. cb_token c = token) (nt_callbacks n) in
     if (nt_error n \<or> length (nt_callbacks n) > 0) \<and> (nt_error n \<or> i \<noteq> length (nt_callbacks n)) then Some i else None)"

definition remove_callback :: "notifier \<Rightarrow> nat \<Rightarrow> notifier option" where
  "remove_callback n token = do {
     idx \<leftarrow> find_callback n token;
     if idx = length (nt_callbacks n) then Some n
     else do {
       let n = (if nt_index n \<noteq> - 1 \<and> nt_index n \<ge> of_nat idx then n\<lparr>nt_index := nt_index n - 1\<rparr> else n);
       let callbacks = take idx (nt_callbacks n) @ drop (Suc idx) (nt_callbacks n);
       Some (n\<lparr>nt_count := nt_count n - 1, nt_callbacks := callbacks, nt_have_callbacks := (callbacks \<noteq> [])\<rparr>) } }"

definition suppress_next_notification :: "notifier \<Rightarrow> nat \<Rightarrow> notifier option" where
  "suppress_next_notification n token = do {
     i \<leftarrow> find_callback n token;
     Some (if i = length (nt_callbacks n) then n
       else n\<lparr>nt_callbacks := (nt_callbacks n)[i := (nt_callbacks n ! i)\<lparr>cb_skip_next := True\<rparr>]\<rparr>) }"

section \<open>Collecting changes\<close>

fun add_to_callbacks :: "nat \<Rightarrow> change_builder \<Rightarrow> callback list \<Rightarrow> callback list option" where
  "add_to_callbacks mx change [] = Some []"
| "add_to_callbacks mx change (c # cs) = do {
     c \<leftarrow> (if cb_skip_next c then Some (c\<lparr>cb_skip_next := False\<rparr>)
       else map_option (\<lambda>b. c\<lparr>cb_accumulated := b\<rparr>) (merge mx (cb_accumulated c) change));
     cs \<leftarrow> add_to_callbacks mx change cs;
     Some (c # cs) }"

definition add_changes :: "nat \<Rightarrow> change_builder \<Rightarrow> notifier \<Rightarrow> notifier option" where
  "add_changes mx change n = map_option (\<lambda>cs. n\<lparr>nt_callbacks := cs\<rparr>) (add_to_callbacks mx change (nt_callbacks n))"

definition prepare_handover :: "nat \<Rightarrow> notifier \<Rightarrow> notifier option" where
  "prepare_handover mx n = do {
     n \<leftarrow> add_changes mx (nt_change n) (n\<lparr>nt_change := empty_builder\<lparr>track_columns := track_columns (nt_change n)\<rparr>\<rparr>);
     Some (n\<lparr>nt_has_run := True\<rparr>) }"

fun package_callbacks :: "nat \<Rightarrow> callback list \<Rightarrow> callback list option" where
  "package_callbacks mx [] = Some []"
| "package_callbacks mx (c # cs) = do {
     changes \<leftarrow> finalize_changes mx (cb_accumulated c);
     cs \<leftarrow> package_callbacks mx cs;
     Some (c\<lparr>cb_to_deliver := changes, cb_accumulated := empty_builder\<lparr>track_columns := track_columns (cb_accumulated c)\<rparr>\<rparr> # cs) }"

definition package_for_delivery :: "nat \<Rightarrow> bool \<Rightarrow> notifier \<Rightarrow> (bool \<times> notifier) option" where
  "package_for_delivery mx prepared n =
    (if \<not> prepared then Some (False, n)
     else map_option (\<lambda>cs. (True, n\<lparr>nt_callbacks := cs, nt_count := of_nat (length cs)\<rparr>))
       (package_callbacks mx (nt_callbacks n)))"

section \<open>Delivery\<close>

datatype call = Before nat change_set | After nat change_set | Failed nat

datatype action = Add_callback | Remove_callback nat | Suppress_next nat

type_synonym run = "notifier \<times> call list"

fun perform :: "action list \<Rightarrow> notifier \<Rightarrow> notifier option" where
  "perform [] n = Some n"
| "perform (Add_callback # as) n = perform as (snd (add_callback n))"
| "perform (Remove_callback t # as) n = do { n \<leftarrow> remove_callback n t; perform as n }"
| "perform (Suppress_next t # as) n = do { n \<leftarrow> suppress_next_notification n t; perform as n }"

definition invoke :: "(call list \<Rightarrow> action list) \<Rightarrow> call \<Rightarrow> run \<Rightarrow> run option" where
  "invoke react c = (\<lambda>(n, calls). map_option (\<lambda>n. (n, c # calls)) (perform (react (c # calls)) n))"

partial_function (option) callback_loop :: "(nat \<Rightarrow> run \<Rightarrow> run option) \<Rightarrow> run \<Rightarrow> run option" where
  "callback_loop fn s =
    (if nt_index (fst s) < nt_count (fst s) then
       if unat (nt_index (fst s)) < length (nt_callbacks (fst s)) then do {
         s \<leftarrow> fn (unat (nt_index (fst s))) s;
         callback_loop fn (apfst (\<lambda>n. n\<lparr>nt_index := nt_index n + 1\<rparr>) s) }
       else None
     else Some s)"

definition for_each_callback :: "(nat \<Rightarrow> run \<Rightarrow> run option) \<Rightarrow> run \<Rightarrow> run option" where
  "for_each_callback fn s =
    map_option (apfst (\<lambda>n. n\<lparr>nt_index := - 1\<rparr>)) (callback_loop fn (apfst (\<lambda>n. n\<lparr>nt_index := nt_index n + 1\<rparr>) s))"

definition before_one :: "(call list \<Rightarrow> action list) \<Rightarrow> nat \<Rightarrow> run \<Rightarrow> run option" where
  "before_one react i = (\<lambda>(n, calls). let c = nt_callbacks n ! i in
     if cs_empty (cb_to_deliver c) then Some (n, calls)
     else invoke react (Before (cb_token c) (cb_to_deliver c)) (n, calls))"

definition before_advance :: "(call list \<Rightarrow> action list) \<Rightarrow> run \<Rightarrow> run option" where
  "before_advance react = for_each_callback (before_one react)"

definition after_one :: "(call list \<Rightarrow> action list) \<Rightarrow> nat \<Rightarrow> run \<Rightarrow> run option" where
  "after_one react i = (\<lambda>(n, calls). let c = nt_callbacks n ! i in
     if cb_initial_delivered c \<and> cs_empty (cb_to_deliver c) then Some (n, calls)
     else invoke react (After (cb_token c) (cb_to_deliver c))
       (n\<lparr>nt_callbacks := (nt_callbacks n)[i := c\<lparr>cb_initial_delivered := True, cb_to_deliver := no_changes\<rparr>]\<rparr>, calls))"

definition after_advance :: "(call list \<Rightarrow> action list) \<Rightarrow> run \<Rightarrow> run option" where
  "after_advance react = for_each_callback (after_one react)"

definition error_one :: "(call list \<Rightarrow> action list) \<Rightarrow> nat \<Rightarrow> run \<Rightarrow> run option" where
  "error_one react i = (\<lambda>(n, calls). let token = cb_token (nt_callbacks n ! i) in do {
     (n, calls) \<leftarrow> invoke react (Failed token) (n, calls);
     n \<leftarrow> remove_callback n token;
     Some (n, calls) })"

definition deliver_error :: "(call list \<Rightarrow> action list) \<Rightarrow> run \<Rightarrow> run option" where
  "deliver_error react = (\<lambda>(n, calls).
     for_each_callback (error_one react) (n\<lparr>nt_error := True, nt_count := of_nat (length (nt_callbacks n))\<rparr>, calls))"

section \<open>The loop visits the callbacks of the package\<close>

abbreviation toks :: "notifier \<Rightarrow> nat list" where
  "toks n \<equiv> map cb_token (nt_callbacks n)"

text \<open>
  The state while the callbacks with the tokens \<open>ts\<close> are still to be visited, where \<open>P\<close> is above the tokens that
  the package was made for: what is left of them is behind the position and before the end.
\<close>

definition remaining :: "nat list \<Rightarrow> notifier \<Rightarrow> nat list" where
  "remaining ts n = filter (\<lambda>t. t \<in> set (toks n)) ts"

definition at_position :: "nat \<Rightarrow> nat list \<Rightarrow> nat list \<Rightarrow> nat list \<Rightarrow> notifier \<Rightarrow> bool" where
  "at_position P ts q a n \<longleftrightarrow> q @ remaining ts n @ a = toks n \<and> nt_index n + 1 = of_nat (length q) \<and>
     nt_count n = of_nat (length q + length (remaining ts n)) \<and> length q + length (remaining ts n) < 2 ^ 64 \<and>
     (\<forall>t\<in>set q \<union> set ts. t < P) \<and> (\<forall>t\<in>set a. P \<le> t \<and> t < nt_next_token n) \<and> P \<le> nt_next_token n \<and>
     sorted_wrt (<) (toks n)"

definition delivering :: "nat \<Rightarrow> nat list \<Rightarrow> notifier \<Rightarrow> bool" where
  "delivering P ts n \<longleftrightarrow> (\<exists>q a. at_position P ts q a n)"

definition only_removes :: "nat \<Rightarrow> (call list \<Rightarrow> action list) \<Rightarrow> bool" where
  "only_removes P react \<longleftrightarrow> (\<forall>calls t. Remove_callback t \<in> set (react calls) \<longrightarrow> t < P)"

lemma index_before:
  fixes w :: "64 word"
  assumes "w + 1 = of_nat k" "k < 2 ^ 64"
  shows "w = - 1 \<longleftrightarrow> k = 0" "0 < k \<Longrightarrow> unat w = k - 1"
proof -
  have w: "w = of_nat k - 1" using assms(1) by (simp add: eq_diff_eq)
  have k: "unat (of_nat k :: 64 word) = k" using assms(2) by (simp add: unat_of_nat)
  show before: "unat w = k - 1" if "0 < k"
  proof -
    have "(of_nat k :: 64 word) \<noteq> 0" using k that by (metis less_irrefl unsigned_0)
    then show ?thesis unfolding w by (simp add: unat_minus_one k)
  qed
  show "w = - 1 \<longleftrightarrow> k = 0"
  proof (cases "k = 0")
    case False
    then have "unat w \<noteq> unat (- 1 :: 64 word)" using before assms(2) by (simp add: unsigned_minus_1_eq_mask mask_eq_exp_minus_1)
    then show ?thesis using False by auto
  qed (simp add: w)
qed

lemma find_position:
  assumes "find_callback n t = Some i"
  shows "i \<le> length (nt_callbacks n)" "i < length (nt_callbacks n) \<Longrightarrow> toks n ! i = t"
    "i = length (nt_callbacks n) \<Longrightarrow> t \<notin> set (toks n)"
proof -
  have i: "i = find_index (\<lambda>c. cb_token c = t) (nt_callbacks n)"
    using assms by (simp add: find_callback_def Let_def split: if_splits)
  show "i \<le> length (nt_callbacks n)" unfolding i by (rule find_index_facts)
  show "i < length (nt_callbacks n) \<Longrightarrow> toks n ! i = t"
    unfolding i using find_index_facts(2) [of "\<lambda>c. cb_token c = t" "nt_callbacks n"] by simp
  show "i = length (nt_callbacks n) \<Longrightarrow> t \<notin> set (toks n)"
    unfolding i using find_index_facts(3) [of "\<lambda>c. cb_token c = t" "nt_callbacks n"] by auto
qed

lemma delivering_cong:
  assumes "delivering P ts n" "toks n' = toks n" "nt_index n' = nt_index n" "nt_count n' = nt_count n"
    "nt_next_token n' = nt_next_token n"
  shows "delivering P ts n'"
  using assms(1) unfolding delivering_def at_position_def remaining_def assms(2-) .

lemma delivering_add:
  assumes "delivering P ts n"
  shows "delivering P ts (snd (add_callback n))"
proof -
  let ?n = "snd (add_callback n)"
  obtain q a where q: "at_position P ts q a n" using assms by (auto simp: delivering_def)
  have n: "toks ?n = toks n @ [nt_next_token n]" "nt_index ?n = nt_index n" "nt_count ?n = nt_count n"
    "nt_next_token ?n = Suc (nt_next_token n)" by (simp_all add: add_callback_def Let_def)
  have "nt_next_token n \<notin> set ts" using q unfolding at_position_def by (meson UnCI leD)
  then have F: "remaining ts ?n = remaining ts n" unfolding remaining_def n(1) by (intro filter_cong) auto
  have "t < nt_next_token n" if "t \<in> set (q @ remaining ts n @ a)" for t
    using that q unfolding at_position_def remaining_def by (auto intro: less_le_trans)
  then have "\<forall>t\<in>set (toks n). t < nt_next_token n" using q unfolding at_position_def by metis
  then have "at_position P ts q (a @ [nt_next_token n]) ?n"
    using q unfolding at_position_def F n by (auto simp: less_Suc_eq sorted_wrt_append simp flip: append_assoc)
  then show ?thesis by (auto simp: delivering_def)
qed

lemma remove_found:
  assumes "find_callback n t = Some i" "i < length (nt_callbacks n)" "toks n = xs @ t # ys" "distinct (toks n)"
  shows "i = length xs" "\<exists>n'. remove_callback n t = Some n' \<and> toks n' = xs @ ys \<and>
    nt_index n' = (if nt_index n \<noteq> - 1 \<and> nt_index n \<ge> of_nat i then nt_index n - 1 else nt_index n) \<and>
    nt_count n' = nt_count n - 1 \<and> nt_next_token n' = nt_next_token n \<and> nt_error n' = nt_error n"
proof -
  have len: "length xs < length (toks n)" using assms(3) by simp
  have "toks n ! i = toks n ! length xs" using find_position(2) [OF assms(1,2)] assms(3) by simp
  then show i: "i = length xs" using nth_eq_iff_index_eq [OF assms(4), of i "length xs"] assms(2) len by simp
  have "take i (toks n) = xs" "drop (Suc i) (toks n) = ys" unfolding assms(3) i by simp_all
  then show "\<exists>n'. remove_callback n t = Some n' \<and> toks n' = xs @ ys \<and>
    nt_index n' = (if nt_index n \<noteq> - 1 \<and> nt_index n \<ge> of_nat i then nt_index n - 1 else nt_index n) \<and>
    nt_count n' = nt_count n - 1 \<and> nt_next_token n' = nt_next_token n \<and> nt_error n' = nt_error n"
    using assms(1,2) by (auto simp: remove_callback_def Let_def take_map drop_map)
qed

lemma remaining_without:
  "set (toks n') = set (toks n) - {t} \<Longrightarrow> remaining ts n' = filter (\<lambda>u. u \<noteq> t) (remaining ts n)"
  by (auto simp: remaining_def intro!: filter_cong)

lemma delivering_remove:
  assumes "delivering P ts n" "remove_callback n t = Some n'" "t < P"
  shows "delivering P ts n'"
proof -
  obtain i where i: "find_callback n t = Some i" using assms(2) by (auto simp: remove_callback_def split: bind_splits)
  show ?thesis
  proof (cases "i = length (nt_callbacks n)")
    case True
    then show ?thesis using assms i by (simp add: remove_callback_def)
  next
    case False
    then have less: "i < length (nt_callbacks n)" using find_position(1) [OF i] by simp
    obtain q a where q: "at_position P ts q a n" using assms(1) by (auto simp: delivering_def)
    let ?r = "remaining ts n"
    have all: "toks n = q @ ?r @ a" and sorted: "sorted_wrt (<) (toks n)" using q by (simp_all add: at_position_def)
    have d: "distinct (toks n)" using sorted by (simp add: strict_sorted_iff)
    have index: "nt_index n + 1 = of_nat (length q)" "length q < 2 ^ 64" using q by (simp_all add: at_position_def)
    have old: "\<forall>t\<in>set q \<union> set ts. t < P" "\<forall>t\<in>set a. P \<le> t \<and> t < nt_next_token n" "P \<le> nt_next_token n"
      "length q + length ?r < 2 ^ 64" "nt_count n = of_nat (length q + length ?r)"
      using q unfolding at_position_def by blast+
    have "t \<in> set (toks n)" using find_position(2) [OF i less] less nth_mem [of i "toks n"] by simp
    moreover have "t \<notin> set a" using old(2) assms(3) by force
    ultimately consider "t \<in> set q" | "t \<in> set ?r" using all(1) by auto
    then show ?thesis
    proof cases
      case 1
      then obtain q1 q2 where q12: "q = q1 @ t # q2" by (auto simp: in_set_conv_decomp)
      have toks: "toks n = q1 @ t # (q2 @ ?r @ a)" using all(1) q12 by simp
      obtain n1 where n1: "remove_callback n t = Some n1" "toks n1 = q1 @ q2 @ ?r @ a"
        "nt_index n1 = (if nt_index n \<noteq> - 1 \<and> nt_index n \<ge> of_nat i then nt_index n - 1 else nt_index n)"
        "nt_count n1 = nt_count n - 1" "nt_next_token n1 = nt_next_token n"
        using remove_found(2) [OF i less toks d] by blast
      have "distinct (q1 @ t # (q2 @ ?r @ a))" using d unfolding toks .
      then have t: "t \<notin> set ?r" "set (toks n1) = set (toks n) - {t}"
        unfolding n1(2) toks by auto
      have s: "sorted_wrt (<) (toks n1)" using sorted unfolding n1(2) toks by (auto simp: sorted_wrt_append)
      have F: "remaining ts n1 = ?r" using remaining_without [OF t(2)] t(1) by (auto simp: filter_id_conv)
      have "i \<le> unat (nt_index n)" "nt_index n \<noteq> - 1"
        using remove_found(1) [OF i less toks d] index_before [OF index] q12 by simp_all
      moreover have "i < 2 ^ 64" using remove_found(1) [OF i less toks d] index(2) q12 by simp
      ultimately have "nt_index n1 = nt_index n - 1" using n1(3) by (simp add: word_le_nat_alt unat_of_nat)
      then have "nt_index n1 + 1 = of_nat (length (q1 @ q2))" using index(1) q12 by (simp add: algebra_simps)
      then have "at_position P ts (q1 @ q2) a n1"
        using old n1(2,4,5) s q12 unfolding at_position_def F by simp
      then show ?thesis using n1(1) assms(2) by (auto simp: delivering_def)
    next
      case 2
      then obtain r1 r2 where r12: "?r = r1 @ t # r2" by (auto simp: in_set_conv_decomp)
      have toks: "toks n = (q @ r1) @ t # (r2 @ a)" using all(1) r12 by simp
      obtain n1 where n1: "remove_callback n t = Some n1" "toks n1 = (q @ r1) @ r2 @ a"
        "nt_index n1 = (if nt_index n \<noteq> - 1 \<and> nt_index n \<ge> of_nat i then nt_index n - 1 else nt_index n)"
        "nt_count n1 = nt_count n - 1" "nt_next_token n1 = nt_next_token n"
        using remove_found(2) [OF i less toks d] by blast
      have "distinct ((q @ r1) @ t # (r2 @ a))" using d unfolding toks .
      then have t: "t \<notin> set r1" "t \<notin> set r2" "set (toks n1) = set (toks n) - {t}"
        unfolding n1(2) toks by auto
      have s: "sorted_wrt (<) (toks n1)" using sorted unfolding n1(2) toks by (auto simp: sorted_wrt_append)
      have "filter (\<lambda>u. u \<noteq> t) r1 = r1" "filter (\<lambda>u. u \<noteq> t) r2 = r2" using t(1,2) by (auto simp: filter_id_conv)
      then have F: "remaining ts n1 = r1 @ r2" using remaining_without [OF t(3)] r12 by simp
      have i_q: "length q \<le> i" "i < 2 ^ 64" using remove_found(1) [OF i less toks d] old(4) r12 by simp_all
      have "\<not> (nt_index n \<noteq> - 1 \<and> nt_index n \<ge> of_nat i)"
      proof
        assume w: "nt_index n \<noteq> - 1 \<and> nt_index n \<ge> of_nat i"
        then have "unat (of_nat i :: 64 word) \<le> unat (nt_index n)" by (simp add: word_le_nat_alt)
        then have "i \<le> unat (nt_index n)" using i_q(2) by (simp add: unat_of_nat)
        moreover have "0 < length q" using w index_before(1) [OF index] by auto
        ultimately show False using index_before(2) [OF index] i_q(1) by linarith
      qed
      then have "nt_index n1 = nt_index n" unfolding n1(3) by (rule if_not_P)
      then have "at_position P ts q a n1"
        using old n1(2,4,5) s index(1) r12 unfolding at_position_def F by simp
      then show ?thesis using n1(1) assms(2) by (auto simp: delivering_def)
    qed
  qed
qed

lemma suppress_keeps:
  assumes "suppress_next_notification n t = Some n'"
  shows "toks n' = toks n" "nt_index n' = nt_index n" "nt_count n' = nt_count n" "nt_next_token n' = nt_next_token n"
    "nt_error n' = nt_error n"
proof -
  obtain i where "find_callback n t = Some i"
    using assms by (auto simp: suppress_next_notification_def split: bind_splits)
  then have n': "n' = (if i = length (nt_callbacks n) then n
      else n\<lparr>nt_callbacks := (nt_callbacks n)[i := (nt_callbacks n ! i)\<lparr>cb_skip_next := True\<rparr>]\<rparr>)"
    using assms by (simp add: suppress_next_notification_def)
  have "map cb_token ((nt_callbacks n)[i := (nt_callbacks n ! i)\<lparr>cb_skip_next := True\<rparr>]) = toks n"
    by (metis (no_types, lifting) callback.select_convs(3) callback.surjective callback.update_convs(5) list_update_beyond
      list_update_id map_update not_le nth_map)
  then show "toks n' = toks n" unfolding n' by simp
qed (use assms in \<open>auto simp: suppress_next_notification_def split: bind_splits if_splits\<close>)

lemma delivering_perform:
  "delivering P ts n \<Longrightarrow> perform as n = Some n' \<Longrightarrow> \<forall>t. Remove_callback t \<in> set as \<longrightarrow> t < P \<Longrightarrow> delivering P ts n'"
proof (induction as n rule: perform.induct)
  case (2 as n)
  then show ?case using delivering_add by simp
next
  case (3 t as n)
  then obtain n1 where n1: "remove_callback n t = Some n1" "perform as n1 = Some n'" by (auto split: bind_splits)
  then show ?case using 3 delivering_remove [OF 3(2) n1(1)] by simp
next
  case (4 t as n)
  then obtain n1 where n1: "suppress_next_notification n t = Some n1" "perform as n1 = Some n'" by (auto split: bind_splits)
  then show ?case using 4 delivering_cong [OF 4(2) suppress_keeps(1-4) [OF n1(1)]] by simp
qed simp

text \<open>
  The specification of the loop: the callbacks of the package in their order, by their tokens, leaving out those
  that were removed in the meantime.
\<close>

fun visit_each :: "(nat \<Rightarrow> run \<Rightarrow> run option) \<Rightarrow> nat list \<Rightarrow> run \<Rightarrow> run option" where
  "visit_each fn [] s = Some s"
| "visit_each fn (t # ts) (n, calls) =
     (let i = find_index (\<lambda>c. cb_token c = t) (nt_callbacks n) in
      if i < length (nt_callbacks n) then do {
        s \<leftarrow> fn i (n\<lparr>nt_index := of_nat i\<rparr>, calls);
        visit_each fn ts s }
      else visit_each fn ts (n, calls))"

lemma find_token:
  assumes "toks n = xs @ t # ys" "distinct (toks n)"
  shows "find_index (\<lambda>c. cb_token c = t) (nt_callbacks n) = length xs" "length xs < length (nt_callbacks n)"
proof -
  let ?i = "find_index (\<lambda>c. cb_token c = t) (nt_callbacks n)"
  have len: "length xs < length (toks n)" using assms(1) by simp
  then show less: "length xs < length (nt_callbacks n)" by simp
  have "cb_token (nt_callbacks n ! length xs) = t" using assms(1) less by (metis nth_append_length nth_map)
  then have "?i < length (nt_callbacks n)" using find_index_facts(3) [of "\<lambda>c. cb_token c = t" "nt_callbacks n"] less nth_mem by blast
  moreover from this have "toks n ! ?i = t" using find_index_facts(2) [of "\<lambda>c. cb_token c = t" "nt_callbacks n"] by simp
  moreover have "toks n ! length xs = t" using assms(1) by simp
  ultimately show "?i = length xs" using nth_eq_iff_index_eq [OF assms(2), of ?i "length xs"] len by simp
qed

lemma find_no_token:
  assumes "t \<notin> set (toks n)"
  shows "\<not> find_index (\<lambda>c. cb_token c = t) (nt_callbacks n) < length (nt_callbacks n)"
proof
  assume less: "find_index (\<lambda>c. cb_token c = t) (nt_callbacks n) < length (nt_callbacks n)"
  from find_index_facts(2) [OF this] nth_mem [OF less] assms show False by (metis imageI set_map)
qed

lemma visit_skip:
  assumes "delivering P (t # ts) n" "t \<notin> set (toks n)"
  shows "delivering P ts n"
proof -
  have "remaining (t # ts) n = remaining ts n" using assms(2) by (simp add: remaining_def)
  then show ?thesis using assms(1) by (auto simp: delivering_def at_position_def)
qed

lemma visit_step:
  assumes "delivering P (t # ts) n" "t \<in> set (toks n)" "i = find_index (\<lambda>c. cb_token c = t) (nt_callbacks n)"
  shows "i < length (nt_callbacks n)" "cb_token (nt_callbacks n ! i) = t" "t < P" "nt_callbacks n ! i \<in> set (nt_callbacks n)"
    "delivering P ts (n\<lparr>nt_index := of_nat i\<rparr>)" "nt_index n + 1 = of_nat i" "of_nat i < nt_count n" "unat (of_nat i :: 64 word) = i"
proof -
  obtain q a where q: "at_position P (t # ts) q a n" using assms(1) by (auto simp: delivering_def)
  have r: "remaining (t # ts) n = t # remaining ts n" using assms(2) by (simp add: remaining_def)
  have toks: "toks n = q @ t # (remaining ts n @ a)" and d: "distinct (toks n)"
    using q unfolding at_position_def r by (simp_all add: strict_sorted_iff)
  show less: "i < length (nt_callbacks n)" and i: "cb_token (nt_callbacks n ! i) = t" "nt_callbacks n ! i \<in> set (nt_callbacks n)"
    using find_token [OF toks d] find_index_facts(2) [of "\<lambda>c. cb_token c = t" "nt_callbacks n"] assms(3) by simp_all
  have len: "i = length q" using find_token(1) [OF toks d] assms(3) by simp
  show "t < P" using q unfolding at_position_def by simp
  show index: "nt_index n + 1 = of_nat i" using q unfolding at_position_def len by simp
  have small: "i + Suc (length (remaining ts n)) < 2 ^ 64" "nt_count n = of_nat (i + Suc (length (remaining ts n)))"
    using q unfolding at_position_def r len by simp_all
  then show "of_nat i < nt_count n" "unat (of_nat i :: 64 word) = i"
    by (simp_all add: word_less_nat_alt unat_of_nat del: of_nat_add of_nat_Suc)
  have "at_position P ts (q @ [t]) a (n\<lparr>nt_index := of_nat i\<rparr>)"
    using q unfolding at_position_def remaining_def [of ts "n\<lparr>nt_index := of_nat i\<rparr>"] r len by (simp add: remaining_def add.commute)
  then show "delivering P ts (n\<lparr>nt_index := of_nat i\<rparr>)" by (auto simp: delivering_def)
qed

text \<open>The contract of what the loop does with one callback: it leaves position and number as the loop needs them.\<close>

locale callback_body =
  fixes body :: "(call list \<Rightarrow> action list) \<Rightarrow> nat \<Rightarrow> run \<Rightarrow> run option"
  assumes keeps: "only_removes P react \<Longrightarrow> delivering P ts n \<Longrightarrow> i < length (nt_callbacks n) \<Longrightarrow> toks n ! i < P \<Longrightarrow>
    body react i (n, calls) = Some (n', calls') \<Longrightarrow> delivering P ts n'"
begin

lemma loop_visits:
  "delivering P ts n \<Longrightarrow> only_removes P react \<Longrightarrow>
    for_each_callback (body react) (n, calls) = map_option (apfst (\<lambda>n. n\<lparr>nt_index := - 1\<rparr>)) (visit_each (body react) ts (n, calls))"
proof (induction ts arbitrary: n calls)
  case Nil
  then obtain q a where q: "at_position P [] q a n" by (auto simp: delivering_def)
  then have "nt_index n + 1 = nt_count n" by (simp add: at_position_def remaining_def)
  then show ?case by (simp add: for_each_callback_def callback_loop.simps)
next
  case (Cons t ts)
  show ?case
  proof (cases "t \<in> set (toks n)")
    case False
    then show ?thesis using Cons.IH [OF visit_skip [OF Cons.prems(1) False]] Cons.prems(2) find_no_token [OF False] by simp
  next
    case True
    let ?i = "find_index (\<lambda>c. cb_token c = t) (nt_callbacks n)"
    let ?n = "n\<lparr>nt_index := of_nat ?i\<rparr>"
    note at = visit_step [OF Cons.prems(1) True refl]
    show ?thesis
    proof (cases "body react ?i (?n, calls)")
      case None
      then show ?thesis using at by (simp add: for_each_callback_def callback_loop.simps)
    next
      case (Some s)
      obtain n1 calls1 where s: "s = (n1, calls1)" by (cases s)
      have "delivering P ts n1" using keeps [OF Cons.prems(2) at(5)] at(1-3) Some s by simp
      then have "for_each_callback (body react) (n1, calls1) =
        map_option (apfst (\<lambda>n. n\<lparr>nt_index := - 1\<rparr>)) (visit_each (body react) ts (n1, calls1))"
        using Cons.IH Cons.prems(2) by blast
      moreover have "for_each_callback (body react) (n, calls) = for_each_callback (body react) (n1, calls1)"
        unfolding for_each_callback_def using at Some s by (subst callback_loop.simps) simp
      ultimately show ?thesis using at Some s by simp
    qed
  qed
qed

end

lemma invoke_delivering:
  assumes "only_removes P react" "delivering P ts n" "invoke react c (n, calls) = Some (n', calls')"
  shows "delivering P ts n'"
  using assms delivering_perform [OF assms(2)] by (auto simp: invoke_def only_removes_def)

interpretation before_body: callback_body before_one
proof unfold_locales
  fix P react ts n i calls n' calls'
  assume a: "only_removes P react" "delivering P ts n" "before_one react i (n, calls) = Some (n', calls')"
  then show "delivering P ts n'" using invoke_delivering [OF a(1,2)]
    by (simp add: before_one_def Let_def split: if_splits)
qed

interpretation after_body: callback_body after_one
proof unfold_locales
  fix P react ts n i calls n' calls'
  assume a: "only_removes P react" "delivering P ts n" "i < length (nt_callbacks n)"
    "after_one react i (n, calls) = Some (n', calls')"
  let ?n = "n\<lparr>nt_callbacks := (nt_callbacks n)[i := (nt_callbacks n ! i)\<lparr>cb_initial_delivered := True, cb_to_deliver := no_changes\<rparr>]\<rparr>"
  have "toks ?n = toks n" using a(3) by (simp add: map_update list_update_id) (metis a(3) list_update_id nth_map length_map)
  then have "delivering P ts ?n" by (rule delivering_cong [OF a(2)]) simp_all
  then show "delivering P ts n'" using a invoke_delivering [OF a(1)]
    by (simp add: after_one_def Let_def split: if_splits)
qed

interpretation error_body: callback_body error_one
proof unfold_locales
  fix P react ts n i calls n' calls'
  assume a: "only_removes P react" "delivering P ts n" "i < length (nt_callbacks n)" "toks n ! i < P"
    "error_one react i (n, calls) = Some (n', calls')"
  then obtain n1 where n1: "invoke react (Failed (toks n ! i)) (n, calls) = Some (n1, calls')"
    "remove_callback n1 (toks n ! i) = Some n'"
    by (auto simp: error_one_def Let_def split: bind_splits)
  show "delivering P ts n'" by (rule delivering_remove [OF invoke_delivering [OF a(1,2) n1(1)] n1(2) a(4)])
qed

section \<open>What the actions of a callback leave\<close>

text \<open>What is delivered to a callback, with its token.\<close>

definition data :: "callback \<Rightarrow> nat \<times> bool \<times> change_set" where
  "data c = (cb_token c, cb_initial_delivered c, cb_to_deliver c)"

text \<open>Old callbacks of \<open>n'\<close> are callbacks of \<open>n\<close>, and those of \<open>n\<close> that are not in \<open>R\<close> are still there.\<close>

definition kept :: "nat set \<Rightarrow> notifier \<Rightarrow> notifier \<Rightarrow> bool" where
  "kept R n n' \<longleftrightarrow> nt_next_token n \<le> nt_next_token n' \<and> nt_error n' = nt_error n \<and>
     (\<forall>c'\<in>set (nt_callbacks n'). cb_token c' < nt_next_token n \<longrightarrow> data c' \<in> data ` set (nt_callbacks n)) \<and>
     (\<forall>t\<in>set (toks n). t \<in> set (toks n') \<or> t \<in> R)"

lemma kept_refl [simp]: "kept R n n"
  by (auto simp: kept_def)

lemma kept_trans:
  assumes "kept R n n1" "kept S n1 n2"
  shows "kept (R \<union> S) n n2"
  unfolding kept_def
proof (intro conjI ballI impI)
  fix c assume c: "c \<in> set (nt_callbacks n2)" "cb_token c < nt_next_token n"
  then have "data c \<in> data ` set (nt_callbacks n1)" using assms unfolding kept_def by (meson less_le_trans)
  then obtain c1 where c1: "c1 \<in> set (nt_callbacks n1)" "data c = data c1" by auto
  then have "cb_token c1 < nt_next_token n" using c(2) by (simp add: data_def)
  then show "data c \<in> data ` set (nt_callbacks n)" using assms(1) c1 unfolding kept_def by auto
next
  show "nt_next_token n \<le> nt_next_token n2" "nt_error n2 = nt_error n" using assms by (simp_all add: kept_def)
  fix t assume "t \<in> set (toks n)"
  then show "t \<in> set (toks n2) \<or> t \<in> R \<union> S" using assms unfolding kept_def by blast
qed

lemma kept_add: "kept {} n (snd (add_callback n))"
  by (auto simp: kept_def add_callback_def Let_def)

lemma kept_remove:
  assumes "remove_callback n t = Some n'"
  shows "kept {t} n n'"
proof -
  obtain i where i: "find_callback n t = Some i" using assms by (auto simp: remove_callback_def split: bind_splits)
  show ?thesis
  proof (cases "i = length (nt_callbacks n)")
    case True
    then show ?thesis using assms i by (simp add: remove_callback_def)
  next
    case False
    then have less: "i < length (nt_callbacks n)" using find_position(1) [OF i] by simp
    let ?cs = "nt_callbacks n"
    have split: "?cs = take i ?cs @ ?cs ! i # drop (Suc i) ?cs" using less by (rule id_take_nth_drop)
    have "nt_callbacks n' = take i ?cs @ drop (Suc i) ?cs" "nt_next_token n' = nt_next_token n" "nt_error n' = nt_error n"
      using assms i False by (cases "nt_index n \<noteq> - 1 \<and> of_nat i \<le> nt_index n"; auto simp: remove_callback_def Let_def)+
    moreover have "cb_token (?cs ! i) = t" using find_position(2) [OF i less] less by simp
    moreover have "set ?cs = insert (?cs ! i) (set (take i ?cs) \<union> set (drop (Suc i) ?cs))"
      by (subst split) (simp only: set_append list.set Un_insert_right)
    ultimately show ?thesis by (auto simp: kept_def)
  qed
qed

lemma kept_suppress:
  assumes "suppress_next_notification n t = Some n'"
  shows "kept {} n n'"
proof -
  obtain i where i: "find_callback n t = Some i"
    using assms by (auto simp: suppress_next_notification_def split: bind_splits)
  have "\<exists>c\<in>set (nt_callbacks n). data c' = data c" if "c' \<in> set (nt_callbacks n')" for c'
  proof (cases "i = length (nt_callbacks n)")
    case False
    then have "i < length (nt_callbacks n)" using find_position(1) [OF i] by simp
    moreover have "c' \<in> insert ((nt_callbacks n ! i)\<lparr>cb_skip_next := True\<rparr>) (set (nt_callbacks n))"
      using that assms i False set_update_subset_insert [of "nt_callbacks n" i "(nt_callbacks n ! i)\<lparr>cb_skip_next := True\<rparr>"]
      by (auto simp: suppress_next_notification_def)
    ultimately show ?thesis using nth_mem [of i "nt_callbacks n"] by (auto simp: data_def)
  qed (use that assms i in \<open>auto simp: suppress_next_notification_def\<close>)
  then show ?thesis using suppress_keeps [OF assms] by (force simp: kept_def)
qed

lemma kept_mono: "kept R n n' \<Longrightarrow> R \<subseteq> S \<Longrightarrow> kept S n n'"
  by (auto simp: kept_def)

lemma kept_perform: "perform as n = Some n' \<Longrightarrow> kept {t. Remove_callback t \<in> set as} n n'"
proof (induction as n rule: perform.induct)
  case (2 as n)
  then have p: "perform as (snd (add_callback n)) = Some n'" by simp
  show ?case by (rule kept_mono [OF kept_trans [OF kept_add 2(1) [OF p]]]) auto
next
  case (3 t as n)
  then obtain n1 where n1: "remove_callback n t = Some n1" "perform as n1 = Some n'" by (auto split: bind_splits)
  show ?case by (rule kept_mono [OF kept_trans [OF kept_remove [OF n1(1)] 3(1) [OF n1]]]) auto
next
  case (4 t as n)
  then obtain n1 where n1: "suppress_next_notification n t = Some n1" "perform as n1 = Some n'" by (auto split: bind_splits)
  show ?case by (rule kept_mono [OF kept_trans [OF kept_suppress [OF n1(1)] 4(1) [OF n1]]]) auto
qed simp

section \<open>What is delivered\<close>

definition passes :: "action list \<Rightarrow> nat \<Rightarrow> notifier \<Rightarrow> notifier \<Rightarrow> bool" where
  "passes as t n n' \<longleftrightarrow>
     (\<forall>c'\<in>set (nt_callbacks n'). cb_token c' < nt_next_token n \<longrightarrow> cb_token c' \<noteq> t \<longrightarrow> data c' \<in> data ` set (nt_callbacks n)) \<and>
     (\<forall>u\<in>set (toks n). u \<in> set (toks n') \<or> Remove_callback u \<in> set as \<or> u = t)"

text \<open>One of the calls that came after \<open>calls\<close> removed the callback.\<close>

definition removed_by :: "(call list \<Rightarrow> action list) \<Rightarrow> call list \<Rightarrow> call list \<Rightarrow> nat \<Rightarrow> bool" where
  "removed_by react calls calls' t \<longleftrightarrow> (\<exists>xs ys. calls' = xs @ ys \<and> length calls < length ys \<and> Remove_callback t \<in> set (react ys))"

lemma delivering_next: "delivering P ts n \<Longrightarrow> P \<le> nt_next_token n" "delivering P ts n \<Longrightarrow> \<forall>t\<in>set ts. t < P"
  by (auto simp: delivering_def at_position_def)

locale callback_delivery = callback_body +
  fixes due :: "nat \<times> bool \<times> change_set \<Rightarrow> bool" and call :: "nat \<times> bool \<times> change_set \<Rightarrow> call"
  assumes step: "body react i (n, calls) = Some (n', calls') \<Longrightarrow> i < length (nt_callbacks n) \<Longrightarrow>
    (if due (data (nt_callbacks n ! i))
     then calls' = call (data (nt_callbacks n ! i)) # calls \<and> passes (react calls') (cb_token (nt_callbacks n ! i)) n n'
     else calls' = calls \<and> n' = n)"
begin

lemma delivered:
  "delivering P ts n \<Longrightarrow> only_removes P react \<Longrightarrow> distinct ts \<Longrightarrow>
    visit_each (body react) ts (n, calls) = Some (n', calls') \<Longrightarrow>
    \<forall>c\<in>set (nt_callbacks n). cb_token c \<in> set ts \<longrightarrow> data c = d (cb_token c) \<Longrightarrow>
    delivering P [] n' \<and> (\<exists>ds. calls' = rev (map call ds) @ calls \<and> subseq ds (filter due (map d ts)) \<and>
      (\<forall>t\<in>set ts. t \<in> set (toks n) \<longrightarrow> due (d t) \<longrightarrow> d t \<in> set ds \<or> removed_by react calls calls' t))"
proof (induction ts arbitrary: n calls)
  case (Cons t ts)
  show ?case
  proof (cases "t \<in> set (toks n)")
    case False
    note now = visit_skip [OF Cons.prems(1) False]
    have visit: "visit_each (body react) ts (n, calls) = Some (n', calls')"
      using Cons.prems(4) find_no_token [OF False] by simp
    obtain ds where ds: "delivering P [] n'" "calls' = rev (map call ds) @ calls" "subseq ds (filter due (map d ts))"
      "\<forall>u\<in>set ts. u \<in> set (toks n) \<longrightarrow> due (d u) \<longrightarrow> d u \<in> set ds \<or> removed_by react calls calls' u"
      using Cons.IH [OF now Cons.prems(2) _ visit] Cons.prems(3,5) by auto
    show ?thesis
      by (intro conjI exI [of _ ds] ds(1,2)) (use ds(3,4) False in \<open>auto intro: list_emb_Cons\<close>)
  next
    case True
    let ?i = "find_index (\<lambda>c. cb_token c = t) (nt_callbacks n)"
    let ?n = "n\<lparr>nt_index := of_nat ?i\<rparr>" and ?c = "nt_callbacks n ! ?i"
    note at = visit_step [OF Cons.prems(1) True refl]
    note i = at(1) and c = at(2,4)
    have data: "data ?c = d t" using Cons.prems(5) c by auto
    obtain n1 calls1 where n1: "body react ?i (?n, calls) = Some (n1, calls1)"
      "visit_each (body react) ts (n1, calls1) = Some (n', calls')"
      using Cons.prems(4) i by (auto simp: Let_def split: bind_splits)
    have now1: "delivering P ts n1" using keeps [OF Cons.prems(2) at(5) _ _ n1(1)] at(1-3) by simp
    show ?thesis
    proof (cases "due (d t)")
      case False
      then have "n1 = ?n" "calls1 = calls" using step [OF n1(1)] i data by simp_all
      then obtain ds where ds: "delivering P [] n'" "calls' = rev (map call ds) @ calls" "subseq ds (filter due (map d ts))"
        "\<forall>u\<in>set ts. u \<in> set (toks n) \<longrightarrow> due (d u) \<longrightarrow> d u \<in> set ds \<or> removed_by react calls calls' u"
        using Cons.IH [OF now1 Cons.prems(2) _ n1(2)] Cons.prems(3,5) by auto
      show ?thesis by (intro conjI exI [of _ ds] ds(1,2)) (use ds(3,4) False in auto)
    next
      case True
      then have calls1: "calls1 = call (d t) # calls" and pass: "passes (react calls1) t ?n n1"
        using step [OF n1(1)] i data c(1) by auto
      have "\<forall>c'\<in>set (nt_callbacks n1). cb_token c' \<in> set ts \<longrightarrow> data c' = d (cb_token c')"
      proof (intro ballI impI)
        fix c' assume c': "c' \<in> set (nt_callbacks n1)" "cb_token c' \<in> set ts"
        then have "cb_token c' < nt_next_token n" "cb_token c' \<noteq> t"
          using delivering_next [OF Cons.prems(1)] Cons.prems(3) by (auto intro: less_le_trans)
        then have "data c' \<in> data ` set (nt_callbacks n)" using pass c'(1) unfolding passes_def by simp
        then obtain c2 where "c2 \<in> set (nt_callbacks n)" "data c' = data c2" by auto
        then show "data c' = d (cb_token c')" using Cons.prems(5) c'(2) by (auto simp: data_def)
      qed
      then obtain ds where ds: "delivering P [] n'" "calls' = rev (map call ds) @ calls1" "subseq ds (filter due (map d ts))"
        "\<forall>u\<in>set ts. u \<in> set (toks n1) \<longrightarrow> due (d u) \<longrightarrow> d u \<in> set ds \<or> removed_by react calls1 calls' u"
        using Cons.IH [OF now1 Cons.prems(2) _ n1(2)] Cons.prems(3) by auto
      have later: "removed_by react calls calls' u" if "removed_by react calls1 calls' u" for u
        using that unfolding removed_by_def calls1 by (metis Suc_lessD length_Cons)
      have gone: "removed_by react calls calls' u" if "Remove_callback u \<in> set (react calls1)" for u
        unfolding removed_by_def using that ds(2) calls1 by (intro exI [of _ "rev (map call ds)"] exI [of _ calls1]) simp
      have "d u \<in> set (d t # ds) \<or> removed_by react calls calls' u"
        if u: "u \<in> set (t # ts)" "u \<in> set (toks n)" "due (d u)" for u
      proof (cases "u = t")
        case False
        then have "u \<in> set (toks n1) \<or> Remove_callback u \<in> set (react calls1)"
          using pass u(2) unfolding passes_def by fastforce
        then show ?thesis using ds(4) u False later gone by auto
      qed simp
      then show ?thesis using ds(1-3) True calls1 by (intro conjI exI [of _ "d t # ds"]) simp_all
    qed
  qed
qed auto

end

lemma invoke_passes:
  assumes "invoke react c (n, calls) = Some (n', calls')"
  shows "calls' = c # calls" "kept {t. Remove_callback t \<in> set (react calls')} n n'"
  using assms kept_perform by (auto simp: invoke_def)

lemma kept_passes: "kept {t. Remove_callback t \<in> set as} n n' \<Longrightarrow> passes as t n n'"
  unfolding kept_def passes_def by blast

definition before_due :: "nat \<times> bool \<times> change_set \<Rightarrow> bool" where
  "before_due = (\<lambda>(t, initial, changes). \<not> cs_empty changes)"

definition after_due :: "nat \<times> bool \<times> change_set \<Rightarrow> bool" where
  "after_due = (\<lambda>(t, initial, changes). \<not> (initial \<and> cs_empty changes))"

interpretation before_delivery: callback_delivery before_one before_due "\<lambda>(t, initial, changes). Before t changes"
proof unfold_locales
  fix react i calls calls' and n n' :: notifier
  assume "before_one react i (n, calls) = Some (n', calls')" "i < length (nt_callbacks n)"
  then show "if before_due (data (nt_callbacks n ! i))
     then calls' = (case data (nt_callbacks n ! i) of (t, initial, changes) \<Rightarrow> Before t changes) # calls \<and>
       passes (react calls') (cb_token (nt_callbacks n ! i)) n n'
     else calls' = calls \<and> n' = n"
    using invoke_passes [of react _ n calls n' calls']
    by (auto simp: before_one_def before_due_def data_def Let_def intro: kept_passes split: if_splits)
qed

interpretation after_delivery: callback_delivery after_one after_due "\<lambda>(t, initial, changes). After t changes"
proof unfold_locales
  fix react i calls calls' and n n' :: notifier
  let ?c = "nt_callbacks n ! i"
  let ?n = "n\<lparr>nt_callbacks := (nt_callbacks n)[i := ?c\<lparr>cb_initial_delivered := True, cb_to_deliver := no_changes\<rparr>]\<rparr>"
  assume a: "after_one react i (n, calls) = Some (n', calls')" "i < length (nt_callbacks n)"
  have same: "toks ?n = toks n"
    using a(2) by (simp add: map_update list_update_id) (metis a(2) list_update_id nth_map length_map)
  have "passes as (cb_token ?c) n n'" if k: "kept {t. Remove_callback t \<in> set as} ?n n'" for as
    unfolding passes_def
  proof (intro conjI ballI impI)
    fix c' assume c': "c' \<in> set (nt_callbacks n')" "cb_token c' < nt_next_token n" "cb_token c' \<noteq> cb_token ?c"
    then have "data c' \<in> data ` set (nt_callbacks ?n)" using k unfolding kept_def by simp
    then obtain c2 where c2: "c2 \<in> set (nt_callbacks ?n)" "data c' = data c2" by auto
    then have "c2 \<in> set (nt_callbacks n) \<or> cb_token c2 = cb_token ?c"
      using set_update_subset_insert [of "nt_callbacks n" i "?c\<lparr>cb_initial_delivered := True, cb_to_deliver := no_changes\<rparr>"] by auto
    then show "data c' \<in> data ` set (nt_callbacks n)" using c2(2) c'(3) by (auto simp: data_def)
  next
    fix u assume "u \<in> set (toks n)"
    then show "u \<in> set (toks n') \<or> Remove_callback u \<in> set as \<or> u = cb_token ?c"
      using k unfolding kept_def same by blast
  qed
  then show "if after_due (data ?c)
     then calls' = (case data ?c of (t, initial, changes) \<Rightarrow> After t changes) # calls \<and> passes (react calls') (cb_token ?c) n n'
     else calls' = calls \<and> n' = n"
    using a(1) invoke_passes [of react _ ?n calls n' calls']
    by (auto simp: after_one_def after_due_def data_def Let_def split: if_splits)
qed

interpretation error_delivery: callback_delivery error_one "\<lambda>_. True" "\<lambda>(t, initial, changes). Failed t"
proof unfold_locales
  fix react i calls calls' and n n' :: notifier
  let ?t = "cb_token (nt_callbacks n ! i)"
  assume "error_one react i (n, calls) = Some (n', calls')" "i < length (nt_callbacks n)"
  then obtain n1 where n1: "invoke react (Failed ?t) (n, calls) = Some (n1, calls')" "remove_callback n1 ?t = Some n'"
    by (auto simp: error_one_def Let_def split: bind_splits)
  have "kept ({t. Remove_callback t \<in> set (react calls')} \<union> {?t}) n n'"
    by (rule kept_trans [OF invoke_passes(2) [OF n1(1)] kept_remove [OF n1(2)]])
  then have "passes (react calls') ?t n n'" unfolding kept_def passes_def by blast
  then show "if True then calls' = (case data (nt_callbacks n ! i) of (t, initial, changes) \<Rightarrow> Failed t) # calls \<and>
      passes (react calls') ?t n n' else calls' = calls \<and> n' = n"
    using invoke_passes(1) [OF n1(1)] by (simp add: data_def)
qed

section \<open>The states of a notifier\<close>

text \<open>Everything that can happen to a notifier between two deliveries; \<open>changed\<close> is what \<open>run\<close> computes.\<close>

inductive reachable :: "nat \<Rightarrow> notifier \<Rightarrow> bool" for mx where
  created: "reachable mx notifier_new"
| added: "reachable mx n \<Longrightarrow> reachable mx (snd (add_callback n))"
| removed: "reachable mx n \<Longrightarrow> remove_callback n t = Some n' \<Longrightarrow> reachable mx n'"
| suppressed: "reachable mx n \<Longrightarrow> suppress_next_notification n t = Some n' \<Longrightarrow> reachable mx n'"
| changed: "reachable mx n \<Longrightarrow> reachable mx (n\<lparr>nt_change := c\<rparr>)"
| handed_over: "reachable mx n \<Longrightarrow> prepare_handover mx n = Some n' \<Longrightarrow> reachable mx n'"
| packaged: "reachable mx n \<Longrightarrow> package_for_delivery mx prepared n = Some (b, n') \<Longrightarrow> reachable mx n'"
| before: "reachable mx n \<Longrightarrow> before_advance react (n, calls) = Some (n', calls') \<Longrightarrow> reachable mx n'"
| after: "reachable mx n \<Longrightarrow> after_advance react (n, calls) = Some (n', calls') \<Longrightarrow> reachable mx n'"
| failed: "reachable mx n \<Longrightarrow> deliver_error react (n, calls) = Some (n', calls') \<Longrightarrow> reachable mx n'"

definition tokens_ok :: "notifier \<Rightarrow> bool" where
  "tokens_ok n \<longleftrightarrow> sorted_wrt (<) (toks n) \<and> (\<forall>t\<in>set (toks n). t < nt_next_token n)"

lemma tokens_ok_cong: "tokens_ok n \<Longrightarrow> toks n' = toks n \<Longrightarrow> nt_next_token n' = nt_next_token n \<Longrightarrow> tokens_ok n'"
  by (simp add: tokens_ok_def)

lemma tokens_ok_add: "tokens_ok n \<Longrightarrow> tokens_ok (snd (add_callback n))"
  by (auto simp: tokens_ok_def add_callback_def Let_def sorted_wrt_append less_Suc_eq)

lemma tokens_ok_remove:
  assumes "tokens_ok n" "remove_callback n t = Some n'"
  shows "tokens_ok n'"
proof -
  obtain i where i: "find_callback n t = Some i" using assms(2) by (auto simp: remove_callback_def split: bind_splits)
  show ?thesis
  proof (cases "i = length (nt_callbacks n)")
    case True
    then show ?thesis using assms i by (simp add: remove_callback_def)
  next
    case False
    then have less: "i < length (toks n)" using find_position(1) [OF i] by simp
    have split: "toks n = take i (toks n) @ toks n ! i # drop (Suc i) (toks n)" using less by (rule id_take_nth_drop)
    have "sorted_wrt (<) (toks n)" using assms(1) by (simp add: tokens_ok_def)
    then have "sorted_wrt (<) (take i (toks n) @ drop (Suc i) (toks n))"
      by (subst (asm) split) (simp only: sorted_wrt_append sorted_wrt.simps list.set ball_simps, blast)
    moreover have "toks n' = take i (toks n) @ drop (Suc i) (toks n)"
      using assms(2) i False
      by (cases "nt_index n \<noteq> - 1 \<and> of_nat i \<le> nt_index n"; auto simp: remove_callback_def Let_def take_map drop_map)
    moreover have "nt_next_token n' = nt_next_token n"
      using assms(2) i False by (cases "nt_index n \<noteq> - 1 \<and> of_nat i \<le> nt_index n"; auto simp: remove_callback_def Let_def)
    ultimately show ?thesis
      using assms(1) unfolding tokens_ok_def by (metis UnE in_set_dropD in_set_takeD set_append)
  qed
qed

lemma tokens_ok_perform: "tokens_ok n \<Longrightarrow> perform as n = Some n' \<Longrightarrow> tokens_ok n'"
proof (induction as n rule: perform.induct)
  case (4 t as n)
  then obtain n1 where n1: "suppress_next_notification n t = Some n1" "perform as n1 = Some n'" by (auto split: bind_splits)
  then show ?case using 4 tokens_ok_cong [OF 4(2) suppress_keeps(1,4) [OF n1(1)]] by simp
qed (auto split: bind_splits intro: tokens_ok_add tokens_ok_remove)

lemma tokens_ok_invoke: "invoke react c (n, calls) = Some (n', calls') \<Longrightarrow> tokens_ok n \<Longrightarrow> tokens_ok n'"
  by (auto simp: invoke_def intro: tokens_ok_perform)

definition keeps_tokens :: "(nat \<Rightarrow> run \<Rightarrow> run option) \<Rightarrow> bool" where
  "keeps_tokens fn \<longleftrightarrow> (\<forall>i s s'. tokens_ok (fst s) \<longrightarrow> i < length (nt_callbacks (fst s)) \<longrightarrow> fn i s = Some s' \<longrightarrow> tokens_ok (fst s'))"

lemma loop_tokens:
  assumes "callback_loop fn s = Some s'"
  shows "keeps_tokens fn \<longrightarrow> tokens_ok (fst s) \<longrightarrow> tokens_ok (fst s')"
proof (rule callback_loop.raw_induct [where P = "\<lambda>fn s r. keeps_tokens fn \<longrightarrow> tokens_ok (fst s) \<longrightarrow> tokens_ok (fst r)", OF _ assms])
  fix loop :: "(nat \<Rightarrow> run \<Rightarrow> run option) \<Rightarrow> run \<Rightarrow> run option" and fn and s r :: run
  assume 1: "\<And>fn s r. loop fn s = Some r \<Longrightarrow> keeps_tokens fn \<longrightarrow> tokens_ok (fst s) \<longrightarrow> tokens_ok (fst r)"
    "(if nt_index (fst s) < nt_count (fst s) then
       if unat (nt_index (fst s)) < length (nt_callbacks (fst s)) then do {
         s \<leftarrow> fn (unat (nt_index (fst s))) s;
         loop fn (apfst (\<lambda>n. n\<lparr>nt_index := nt_index n + 1\<rparr>) s) }
       else None
     else Some s) = Some r"
  show "keeps_tokens fn \<longrightarrow> tokens_ok (fst s) \<longrightarrow> tokens_ok (fst r)"
  proof (intro impI)
    assume keeps: "keeps_tokens fn" and ok: "tokens_ok (fst s)"
    show "tokens_ok (fst r)"
    proof (cases "nt_index (fst s) < nt_count (fst s)")
      case True
      then obtain s1 where s1: "unat (nt_index (fst s)) < length (nt_callbacks (fst s))"
        "fn (unat (nt_index (fst s))) s = Some s1" "loop fn (apfst (\<lambda>n. n\<lparr>nt_index := nt_index n + 1\<rparr>) s1) = Some r"
        using 1(2) by (auto split: bind_splits if_splits)
      have "tokens_ok (fst s1)" using keeps ok s1(1,2) unfolding keeps_tokens_def by blast
      then have "tokens_ok (fst (apfst (\<lambda>n. n\<lparr>nt_index := nt_index n + 1\<rparr>) s1))" by (simp add: tokens_ok_def)
      then show ?thesis using 1(1) [OF s1(3)] keeps by blast
    next
      case False
      then show ?thesis using 1(2) ok by simp
    qed
  qed
qed

lemma for_each_tokens:
  assumes "for_each_callback fn (n, calls) = Some (n', calls')" "keeps_tokens fn" "tokens_ok n"
  shows "tokens_ok n' \<and> nt_index n' = - 1"
proof -
  obtain s where s: "callback_loop fn (n\<lparr>nt_index := nt_index n + 1\<rparr>, calls) = Some s" "n' = fst s\<lparr>nt_index := - 1\<rparr>"
    using assms(1) by (auto simp: for_each_callback_def)
  have "tokens_ok (fst s)" using loop_tokens [OF s(1)] assms(2,3) by (simp add: tokens_ok_def)
  then show ?thesis using s(2) by (simp add: tokens_ok_def)
qed

lemma bodies_keep_tokens: "keeps_tokens (before_one react)" "keeps_tokens (after_one react)" "keeps_tokens (error_one react)"
proof -
  show "keeps_tokens (before_one react)"
    by (auto simp: keeps_tokens_def before_one_def Let_def intro: tokens_ok_invoke split: if_splits)
  show "keeps_tokens (after_one react)"
    unfolding keeps_tokens_def
  proof (intro allI impI)
    fix i and s s' :: run
    assume a: "tokens_ok (fst s)" "i < length (nt_callbacks (fst s))" "after_one react i s = Some s'"
    obtain n calls where s: "s = (n, calls)" by (cases s)
    let ?n = "n\<lparr>nt_callbacks := (nt_callbacks n)[i := (nt_callbacks n ! i)\<lparr>cb_initial_delivered := True, cb_to_deliver := no_changes\<rparr>]\<rparr>"
    have "toks ?n = toks n" using a(2) s by (simp add: map_update list_update_id) (metis a(2) s fst_conv list_update_id nth_map length_map)
    then have "tokens_ok ?n" using a(1) s by (simp add: tokens_ok_def del: list.set_map)
    then show "tokens_ok (fst s')"
      using a s by (cases s') (auto simp: after_one_def Let_def dest: tokens_ok_invoke split: if_splits)
  qed
  show "keeps_tokens (error_one react)"
    by (fastforce simp: keeps_tokens_def error_one_def Let_def split: bind_splits dest: tokens_ok_invoke intro: tokens_ok_remove)
qed

lemma package_toks: "package_callbacks mx cs = Some cs' \<Longrightarrow> map cb_token cs' = map cb_token cs"
  by (induction cs arbitrary: cs') (auto split: bind_splits)

lemma add_toks: "add_to_callbacks mx change cs = Some cs' \<Longrightarrow> map cb_token cs' = map cb_token cs"
  by (induction cs arbitrary: cs') (auto split: bind_splits if_splits)

lemma package_keeps:
  assumes "package_for_delivery mx prepared n = Some (b, n')"
  shows "toks n' = toks n" "nt_next_token n' = nt_next_token n" "nt_index n' = nt_index n"
proof -
  have "nt_callbacks n' = nt_callbacks n \<or> package_callbacks mx (nt_callbacks n) = Some (nt_callbacks n')"
    using assms by (auto simp: package_for_delivery_def split: if_splits)
  then show "toks n' = toks n" using package_toks by metis
qed (use assms in \<open>auto simp: package_for_delivery_def split: if_splits\<close>)

lemma handover_keeps:
  assumes "prepare_handover mx n = Some n'"
  shows "toks n' = toks n" "nt_next_token n' = nt_next_token n" "nt_index n' = nt_index n"
proof -
  have "add_to_callbacks mx (nt_change n) (nt_callbacks n) = Some (nt_callbacks n')"
    using assms by (auto simp: prepare_handover_def add_changes_def split: bind_splits)
  then show "toks n' = toks n" by (rule add_toks)
qed (use assms in \<open>auto simp: prepare_handover_def add_changes_def split: bind_splits\<close>)

text \<open>
  Between deliveries no position is left behind, and tokens are in the order in which they were given out.
\<close>

lemma reachable_ok: "reachable mx n \<Longrightarrow> tokens_ok n \<and> nt_index n = - 1"
proof (induction rule: reachable.induct)
  case created
  show ?case by (simp add: tokens_ok_def notifier_new_def)
next
  case (added n)
  moreover have "nt_index (snd (add_callback n)) = nt_index n" by (simp add: add_callback_def Let_def)
  ultimately show ?case using tokens_ok_add [of n] by simp
next
  case (removed n t n')
  then have "nt_index n' = - 1" by (auto simp: remove_callback_def Let_def split: bind_splits if_splits)
  then show ?case using removed tokens_ok_remove by blast
next
  case (suppressed n t n')
  note k = suppress_keeps [OF suppressed(2)]
  show ?case using suppressed(3) tokens_ok_cong [OF _ k(1,4)] k(2) by simp
next
  case (changed n c)
  then show ?case by (simp add: tokens_ok_def)
next
  case (handed_over n n')
  note k = handover_keeps [OF handed_over(2)]
  show ?case using handed_over(3) tokens_ok_cong [OF _ k(1,2)] k(3) by simp
next
  case (packaged n prepared b n')
  note k = package_keeps [OF packaged(2)]
  show ?case using packaged(3) tokens_ok_cong [OF _ k(1,2)] k(3) by simp
next
  case (before n react calls n' calls')
  then show ?case using for_each_tokens [OF _ bodies_keep_tokens(1)] by (simp add: before_advance_def)
next
  case (after n react calls n' calls')
  then show ?case using for_each_tokens [OF _ bodies_keep_tokens(2)] by (simp add: after_advance_def)
next
  case (failed n react calls n' calls')
  let ?n = "n\<lparr>nt_error := True, nt_count := of_nat (length (nt_callbacks n))\<rparr>"
  have "tokens_ok ?n" using failed(3) by (simp add: tokens_ok_def)
  then show ?case using for_each_tokens [OF _ bodies_keep_tokens(3), of _ ?n] failed(2) by (simp add: deliver_error_def)
qed

section \<open>The notifications of one version\<close>

definition notifier_ok :: "notifier \<Rightarrow> bool" where
  "notifier_ok n \<longleftrightarrow> nt_index n = - 1 \<and> tokens_ok n \<and> length (nt_callbacks n) < 2 ^ 64"

lemma reachable_notifier_ok: "reachable mx n \<Longrightarrow> length (nt_callbacks n) < 2 ^ 64 \<Longrightarrow> notifier_ok n"
  using reachable_ok by (simp add: notifier_ok_def)

lemma delivering_start:
  assumes "notifier_ok n" "toks n' = toks n" "nt_index n' = - 1" "nt_next_token n' = nt_next_token n"
    "nt_count n' = of_nat (length (nt_callbacks n))"
  shows "delivering (nt_next_token n) (toks n) n'"
proof -
  have "remaining (toks n) n' = toks n" by (simp add: remaining_def assms(2) filter_id_conv)
  then have "at_position (nt_next_token n) (toks n) [] [] n'"
    using assms by (simp add: at_position_def notifier_ok_def tokens_ok_def)
  then show ?thesis by (auto simp: delivering_def)
qed

lemma package_delivering:
  assumes "notifier_ok n" "package_for_delivery mx True n = Some (True, n1)"
  shows "delivering (nt_next_token n) (toks n) n1" "toks n1 = toks n" "nt_index n1 = - 1" "nt_next_token n1 = nt_next_token n"
proof -
  obtain cs where cs: "package_callbacks mx (nt_callbacks n) = Some cs" "n1 = n\<lparr>nt_callbacks := cs, nt_count := of_nat (length cs)\<rparr>"
    using assms(2) by (auto simp: package_for_delivery_def)
  show t: "toks n1 = toks n" "nt_index n1 = - 1" "nt_next_token n1 = nt_next_token n"
    using cs package_toks [OF cs(1)] assms(1) by (simp_all add: notifier_ok_def)
  have "length cs = length (nt_callbacks n)" using arg_cong [OF package_toks [OF cs(1)], of length] by simp
  then show "delivering (nt_next_token n) (toks n) n1" using t cs(2) by (intro delivering_start [OF assms(1)]) simp_all
qed

lemma removed_by_extend: "removed_by react calls calls1 t \<Longrightarrow> removed_by react calls (xs @ calls1) t"
  unfolding removed_by_def by (metis append_assoc)

lemma removed_by_later: "removed_by react calls1 calls2 t \<Longrightarrow> length calls \<le> length calls1 \<Longrightarrow> removed_by react calls calls2 t"
  unfolding removed_by_def by (blast intro: le_less_trans)

lemma before_visits_keep:
  "visit_each (before_one react) ts (n, calls) = Some (n', calls') \<Longrightarrow>
    kept {t. removed_by react calls calls' t} n n' \<and> (\<exists>xs. calls' = xs @ calls)"
proof (induction ts arbitrary: n calls)
  case (Cons t ts)
  let ?i = "find_index (\<lambda>c. cb_token c = t) (nt_callbacks n)"
  show ?case
  proof (cases "?i < length (nt_callbacks n)")
    case True
    let ?n = "n\<lparr>nt_index := of_nat ?i\<rparr>" and ?c = "nt_callbacks n ! ?i"
    obtain n1 calls1 where n1: "before_one react ?i (?n, calls) = Some (n1, calls1)"
      "visit_each (before_one react) ts (n1, calls1) = Some (n', calls')"
      using Cons.prems True by (auto simp: Let_def split: bind_splits)
    obtain xs where xs: "calls' = xs @ calls1" and k: "kept {t. removed_by react calls1 calls' t} n1 n'"
      using Cons.IH [OF n1(2)] by blast
    show ?thesis
    proof (cases "cs_empty (cb_to_deliver ?c)")
      case True
      then have "n1 = ?n" "calls1 = calls" using n1(1) by (simp_all add: before_one_def Let_def)
      then show ?thesis using xs k by (auto simp: kept_def)
    next
      case False
      then have i: "invoke react (Before (cb_token ?c) (cb_to_deliver ?c)) (?n, calls) = Some (n1, calls1)"
        using n1(1) by (simp add: before_one_def Let_def)
      note calls1 = invoke_passes(1) [OF i]
      have "removed_by react calls calls' t" if "Remove_callback t \<in> set (react calls1)" for t
        unfolding removed_by_def using that xs calls1 by (intro exI [of _ xs] exI [of _ calls1]) simp
      moreover have "removed_by react calls calls' t" if "removed_by react calls1 calls' t" for t
        using removed_by_later [OF that] calls1 by simp
      ultimately have "kept {t. removed_by react calls calls' t} ?n n'"
        by (intro kept_mono [OF kept_trans [OF invoke_passes(2) [OF i] k]]) auto
      then show ?thesis using xs calls1 by (simp add: kept_def)
    qed
  next
    case False
    then show ?thesis using Cons by simp
  qed
qed simp

lemma delivering_again:
  assumes "delivering P ts n" "nt_index n = - 1" "sorted_wrt (<) ts" "delivering P [] n'" "kept R n n'"
  shows "delivering P ts (n'\<lparr>nt_index := - 1\<rparr>)"
proof -
  obtain q a where q: "at_position P ts q a n" using assms(1) by (auto simp: delivering_def)
  have "q = []" using q assms(2) index_before(1) [of "nt_index n" "length q"] unfolding at_position_def by auto
  then have n: "toks n = remaining ts n @ a" "\<forall>t\<in>set a. P \<le> t" "P \<le> nt_next_token n" "\<forall>t\<in>set ts. t < P"
    using q by (simp_all add: at_position_def)
  obtain q' a' where q': "at_position P [] q' a' n'" using assms(4) by (auto simp: delivering_def)
  then have n': "toks n' = q' @ a'" "\<forall>t\<in>set q'. t < P" "\<forall>t\<in>set a'. P \<le> t" "sorted_wrt (<) (toks n')"
    by (simp_all add: at_position_def remaining_def)
  have "set (remaining ts n') = set q'"
  proof
    show "set (remaining ts n') \<subseteq> set q'" using n' n(4) by (auto simp: remaining_def dest: leD)
    show "set q' \<subseteq> set (remaining ts n')"
    proof
      fix t assume t: "t \<in> set q'"
      then have "t \<in> set (toks n')" "t < nt_next_token n" using n' n(3) by auto
      then have "t \<in> set (toks n)" using assms(5) by (force simp: kept_def data_def)
      moreover have "set (toks n) = set (remaining ts n) \<union> set a" by (metis n(1) set_append)
      moreover have "t \<notin> set a" using n(2) n'(2) t by (meson leD)
      ultimately have "t \<in> set (remaining ts n)" by blast
      then have "t \<in> set ts" by (simp add: remaining_def)
      then show "t \<in> set (remaining ts n')" using \<open>t \<in> set (toks n')\<close> by (simp add: remaining_def)
    qed
  qed
  moreover have "sorted_wrt (<) (remaining ts n')" unfolding remaining_def by (rule sorted_wrt_filter [OF assms(3)])
  moreover have "sorted_wrt (<) q'" using n'(1,4) by (simp add: sorted_wrt_append)
  ultimately have r: "remaining ts n' = q'" by (intro strict_sorted_equal)
  have "remaining ts (n'\<lparr>nt_index := - 1\<rparr>) = q'" using r by (simp add: remaining_def)
  then have "at_position P ts [] a' (n'\<lparr>nt_index := - 1\<rparr>)"
    using q' n(4) unfolding at_position_def by (simp add: remaining_def)
  then show ?thesis by (auto simp: delivering_def)
qed

lemma data_function:
  assumes "distinct (toks n)"
  shows "\<exists>d. (\<forall>c\<in>set (nt_callbacks n). data c = d (cb_token c)) \<and> map d (toks n) = map data (nt_callbacks n)"
proof -
  have "inj_on cb_token (set (nt_callbacks n))" using assms by (simp add: distinct_map)
  then show ?thesis by (intro exI [of _ "\<lambda>t. data (the_inv_into (set (nt_callbacks n)) cb_token t)"]) (simp add: the_inv_into_f_f)
qed


section \<open>What a callback gets\<close>

fun merge_all :: "nat \<Rightarrow> change_builder \<Rightarrow> change_builder list \<Rightarrow> change_builder option" where
  "merge_all mx b [] = Some b"
| "merge_all mx b (c # cs) = do { b \<leftarrow> merge mx b c; merge_all mx b cs }"

fun add_all_changes :: "nat \<Rightarrow> change_builder list \<Rightarrow> notifier \<Rightarrow> notifier option" where
  "add_all_changes mx [] n = Some n"
| "add_all_changes mx (c # cs) n = do { n \<leftarrow> add_changes mx c n; add_all_changes mx cs n }"

definition gets_change :: "nat \<Rightarrow> change_builder \<Rightarrow> callback \<Rightarrow> callback \<Rightarrow> bool" where
  "gets_change mx change c c' \<longleftrightarrow> cb_token c' = cb_token c \<and> \<not> cb_skip_next c' \<and>
     (if cb_skip_next c then cb_accumulated c' = cb_accumulated c else merge mx (cb_accumulated c) change = Some (cb_accumulated c'))"

lemma add_to_callbacks_each: "add_to_callbacks mx change cs = Some cs' \<Longrightarrow> list_all2 (gets_change mx change) cs cs'"
  by (induction cs arbitrary: cs') (auto simp: gets_change_def split: bind_splits if_splits)

lemma add_all_changes_each:
  "add_all_changes mx cs n = Some n' \<Longrightarrow> list_all2 (\<lambda>c c'. cb_token c' = cb_token c \<and>
     merge_all mx (cb_accumulated c) (if cb_skip_next c then tl cs else cs) = Some (cb_accumulated c')) (nt_callbacks n) (nt_callbacks n')"
proof (induction cs arbitrary: n)
  case Nil
  then show ?case by (auto intro: list_all2_refl)
next
  case (Cons x cs)
  obtain n1 where "add_changes mx x n = Some n1" and rest: "add_all_changes mx cs n1 = Some n'"
    using Cons.prems by (auto split: bind_splits)
  then have n1: "add_to_callbacks mx x (nt_callbacks n) = Some (nt_callbacks n1)" by (auto simp: add_changes_def)
  show ?case
    by (rule list_all2_trans [OF _ add_to_callbacks_each [OF n1] Cons.IH [OF rest]]) (auto simp: gets_change_def split: if_splits)
qed

lemma package_each:
  "package_callbacks mx cs = Some cs' \<Longrightarrow> list_all2 (\<lambda>c c'. cb_token c' = cb_token c \<and>
     finalize_changes mx (cb_accumulated c) = Some (cb_to_deliver c') \<and> cs_empty (cb_accumulated c')) cs cs'"
  by (induction cs arbitrary: cs') (auto simp: cs_empty_def empty_builder_def crv_empty_def split: bind_splits)


section \<open>Errors\<close>

lemma never_asserts:
  assumes "nt_error n"
  shows "remove_callback n t \<noteq> None" "suppress_next_notification n t \<noteq> None"
  using assms by (simp_all add: remove_callback_def suppress_next_notification_def find_callback_def Let_def)

lemma perform_error: "nt_error n \<Longrightarrow> \<exists>n'. perform as n = Some n' \<and> nt_error n'"
proof (induction as n rule: perform.induct)
  case (2 as n)
  then show ?case using kept_add [of n] by (simp add: kept_def)
next
  case (3 t as n)
  obtain n1 where n1: "remove_callback n t = Some n1" using never_asserts(1) [OF 3(2)] by blast
  then show ?case using 3 kept_remove [OF n1] by (simp add: kept_def)
next
  case (4 t as n)
  obtain n1 where n1: "suppress_next_notification n t = Some n1" using never_asserts(2) [OF 4(2)] by blast
  then show ?case using 4 suppress_keeps(5) [OF n1] by simp
qed simp

lemma remove_gone:
  assumes "remove_callback n t = Some n'" "distinct (toks n)"
  shows "t \<notin> set (toks n')"
proof -
  obtain i where i: "find_callback n t = Some i" using assms(1) by (auto simp: remove_callback_def split: bind_splits)
  show ?thesis
  proof (cases "t \<in> set (toks n)")
    case False
    then have "\<not> i < length (nt_callbacks n)" using find_position(2) [OF i] nth_mem [of i "toks n"] by auto
    then have "n' = n" using assms(1) i find_position(1) [OF i] by (simp add: remove_callback_def)
    then show ?thesis using False by simp
  next
    case True
    then obtain xs ys where split: "toks n = xs @ t # ys" by (auto simp: in_set_conv_decomp)
    have "i \<noteq> length (nt_callbacks n)" using find_position(3) [OF i] True by blast
    then have "i < length (nt_callbacks n)" using find_position(1) [OF i] by simp
    from remove_found(2) [OF i this split assms(2)] have "toks n' = xs @ ys" using assms(1) by auto
    then show ?thesis using assms(2) unfolding split by simp
  qed
qed

lemma error_visits:
  "delivering P ts n \<Longrightarrow> only_removes P react \<Longrightarrow> nt_error n \<Longrightarrow>
    \<exists>n' calls'. visit_each (error_one react) ts (n, calls) = Some (n', calls') \<and> kept UNIV n n' \<and> (\<forall>t\<in>set ts. t \<notin> set (toks n'))"
proof (induction ts arbitrary: n calls)
  case (Cons t ts)
  have absent: "t \<notin> set (toks n')" if "kept UNIV n1 n'" "t \<notin> set (toks n1)" "nt_next_token n \<le> nt_next_token n1" for n1 n'
  proof
    assume "t \<in> set (toks n')"
    then obtain c where c: "c \<in> set (nt_callbacks n')" "t = cb_token c" by auto
    have "t < nt_next_token n1" using delivering_next [OF Cons.prems(1)] that(3) by (auto intro: less_le_trans)
    then have "data c \<in> data ` set (nt_callbacks n1)" using that(1) c by (simp add: kept_def)
    then show False using that(2) c(2) by (auto simp: data_def)
  qed
  show ?case
  proof (cases "t \<in> set (toks n)")
    case False
    then show ?thesis
      using Cons.IH [OF visit_skip [OF Cons.prems(1) False] Cons.prems(2,3), of calls] absent [OF _ False] find_no_token [OF False] by auto
  next
    case True
    let ?i = "find_index (\<lambda>c. cb_token c = t) (nt_callbacks n)"
    let ?n = "n\<lparr>nt_index := of_nat ?i\<rparr>"
    note at = visit_step [OF Cons.prems(1) True refl]
    obtain n1 where n1: "invoke react (Failed t) (?n, calls) = Some (n1, Failed t # calls)" "nt_error n1"
      using perform_error [of ?n "react (Failed t # calls)"] Cons.prems(3) by (auto simp: invoke_def)
    have d: "distinct (toks n1)"
      using invoke_delivering [OF Cons.prems(2) at(5) n1(1)] by (auto simp: delivering_def at_position_def strict_sorted_iff)
    obtain n2 where n2: "remove_callback n1 t = Some n2" using never_asserts(1) [OF n1(2)] by blast
    have body: "error_one react ?i (?n, calls) = Some (n2, Failed t # calls)" using n1(1) n2 at(2) by (simp add: error_one_def Let_def)
    have "delivering P ts n2" using error_body.keeps [OF Cons.prems(2) at(5) _ _ body] at(1-3) by simp
    moreover have k: "kept UNIV n n2"
      using kept_mono [OF kept_trans [OF invoke_passes(2) [OF n1(1)] kept_remove [OF n2]], of UNIV] by (simp add: kept_def)
    moreover from this have "nt_error n2" using Cons.prems(3) by (simp add: kept_def)
    ultimately obtain n' calls' where n': "visit_each (error_one react) ts (n2, Failed t # calls) = Some (n', calls')"
      "kept UNIV n2 n'" "\<forall>t\<in>set ts. t \<notin> set (toks n')"
      using Cons.IH Cons.prems(2) by blast
    have "t \<notin> set (toks n')" using absent [OF n'(2) remove_gone [OF n2 d]] k by (simp add: kept_def)
    moreover have "kept UNIV n n'" using kept_trans [OF k n'(2)] by simp
    ultimately show ?thesis using at(1) body n' by auto
  qed
qed simp


section \<open>Concrete notifiers\<close>

definition one_deletion :: change_builder where
  "one_deletion = empty_builder\<lparr>deletions := [\<lparr>cdata = [(3, 4)], cbegin = 3, cend = 4, ccount = 1\<rparr>]\<rparr>"

definition the_deletion :: change_set where
  "the_deletion = no_changes\<lparr>deletions := [\<lparr>cdata = [(3, 4)], cbegin = 3, cend = 4, ccount = 1\<rparr>]\<rparr>"

definition watcher :: "nat \<Rightarrow> change_builder \<Rightarrow> change_set \<Rightarrow> callback" where
  "watcher t acc del = \<lparr>cb_accumulated = acc, cb_to_deliver = del, cb_token = t, cb_initial_delivered = False, cb_skip_next = False\<rparr>"

definition watched :: "callback list \<Rightarrow> nat \<Rightarrow> 64 word \<Rightarrow> notifier" where
  "watched cs k number = \<lparr>nt_change = empty_builder, nt_has_run = True, nt_error = False, nt_callbacks = cs,
     nt_have_callbacks = True, nt_index = - 1, nt_count = number, nt_next_token = k\<rparr>"

lemmas watched_simps = watched_def watcher_def one_deletion_def the_deletion_def no_changes_def empty_builder_def

lemma watched_reachable:
  "reachable 4 (watched [watcher 0 one_deletion no_changes, watcher 1 one_deletion no_changes] 2 (- 1))"
proof -
  let ?n = "snd (add_callback (snd (add_callback notifier_new)))\<lparr>nt_change := one_deletion\<rparr>"
  have "reachable 4 ?n" by (intro reachable.changed reachable.added reachable.created)
  moreover have "prepare_handover 4 ?n = Some (watched [watcher 0 one_deletion no_changes, watcher 1 one_deletion no_changes] 2 (- 1))"
    by (simp add: prepare_handover_def add_changes_def add_callback_def notifier_new_def Let_def merge_def cs_empty_def crv_empty_def
      watched_simps)
  ultimately show ?thesis by (rule reachable.handed_over)
qed

lemma watched_few: "length (nt_callbacks (watched [a, b] k number)) < 2 ^ 64"
  by (simp add: watched_def)

lemma finalize_one: "finalize_changes 4 one_deletion = Some the_deletion"
  by (simp add: finalize_changes_def one_deletion_def the_deletion_def no_changes_def empty_builder_def erase_at_all_def
    shift_for_insert_at_all_def remove_all_def crv_empty_def remove_all_from.simps)

lemma package_one: "package_callbacks 4 [watcher 0 one_deletion no_changes] = Some [watcher 0 empty_builder the_deletion]"
  by (simp add: finalize_one watcher_def) (simp add: one_deletion_def empty_builder_def)

lemma package_two:
  "package_for_delivery 4 True (watched [watcher 0 one_deletion no_changes, watcher 1 one_deletion no_changes] 2 (- 1)) =
     Some (True, watched [watcher 0 empty_builder the_deletion, watcher 1 empty_builder the_deletion] 2 2)"
  by (simp add: package_for_delivery_def watched_def finalize_one watcher_def) (simp add: one_deletion_def empty_builder_def)

text \<open>A user who removes the first callback and adds another one when the first one is called.\<close>

definition replace_first :: "call list \<Rightarrow> action list" where
  "replace_first calls = (case calls of Before t changes # rest \<Rightarrow> if t = 0 then [Remove_callback 0, Add_callback] else []
     | _ \<Rightarrow> [])"

lemma replace_first_removes: "only_removes 2 replace_first"
  by (auto simp: only_removes_def replace_first_def split: list.splits call.splits if_splits)

lemma replace_before:
  "before_advance replace_first (watched [watcher 0 empty_builder the_deletion, watcher 1 empty_builder the_deletion] 2 2, []) =
     Some (watched [watcher 1 empty_builder the_deletion, watcher 2 empty_builder no_changes] 3 1,
       [Before 1 the_deletion, Before 0 the_deletion])"
proof -
  have d: "delivering 2 [0, 1] (watched [watcher 0 empty_builder the_deletion, watcher 1 empty_builder the_deletion] 2 2)"
    using package_delivering(1) [OF reachable_notifier_ok [OF watched_reachable watched_few] package_two] by (simp add: watched_def watcher_def)
  show ?thesis
    unfolding before_advance_def before_body.loop_visits [OF d replace_first_removes]
    by (simp add: watched_def watcher_def before_one_def the_deletion_def cs_empty_def crv_empty_def invoke_def replace_first_def
      remove_callback_def find_callback_def add_callback_def no_changes_def Let_def)
qed

lemma replace_after:
  "\<exists>n3. after_advance replace_first (watched [watcher 1 empty_builder the_deletion, watcher 2 empty_builder no_changes] 3 1, calls) =
     Some (n3, After 1 the_deletion # calls)"
proof -
  have d: "delivering 2 [0, 1] (watched [watcher 1 empty_builder the_deletion, watcher 2 empty_builder no_changes] 3 1)"
    unfolding delivering_def
    by (intro exI [of _ "[]"] exI [of _ "[2]"]) (simp add: at_position_def remaining_def watched_def watcher_def)
  show ?thesis
    unfolding after_advance_def after_body.loop_visits [OF d replace_first_removes]
    by (simp add: watched_def watcher_def after_one_def the_deletion_def cs_empty_def crv_empty_def invoke_def replace_first_def Let_def)
qed



text \<open>
  Removing a callback that was added after the changes were packaged counts down the number of callbacks of the package.
  The last callback of the package does not get its changes, and when the package has none, the loop runs
  beyond the end of the vector.
\<close>

theorem late_removal_loses_changes:
  "\<exists>n1 n2. package_for_delivery 4 True (watched [watcher 0 one_deletion no_changes] 1 (- 1)) = Some (True, n1) \<and>
     remove_callback (snd (add_callback n1)) 1 = Some n2 \<and> nt_callbacks n2 = nt_callbacks n1 \<and>
     after_due (data (nt_callbacks n2 ! 0)) \<and> after_advance react (n2, []) = Some (n2, [])"
proof -
  let ?n1 = "watched [watcher 0 empty_builder the_deletion] 1 1"
  let ?n2 = "(watched [watcher 0 empty_builder the_deletion] 2 0)"
  have "package_for_delivery 4 True (watched [watcher 0 one_deletion no_changes] 1 (- 1)) = Some (True, ?n1)"
    unfolding package_for_delivery_def watched_def by (simp add: package_one del: package_callbacks.simps)
  moreover have "remove_callback (snd (add_callback ?n1)) 1 = Some ?n2"
    by (simp add: remove_callback_def find_callback_def add_callback_def watched_def watcher_def Let_def)
  moreover have "after_advance react (?n2, []) = Some (?n2, [])"
    unfolding after_advance_def for_each_callback_def by (subst callback_loop.simps) (simp add: watched_def)
  moreover have "after_due (data (nt_callbacks ?n2 ! 0))" "nt_callbacks ?n2 = nt_callbacks ?n1"
    by (simp_all add: after_due_def data_def watched_def watcher_def)
  ultimately show ?thesis by blast
qed

theorem late_removal_runs_out_of_range:
  "\<exists>n1 n2. package_for_delivery 4 True notifier_new = Some (True, n1) \<and>
     remove_callback (snd (add_callback n1)) 0 = Some n2 \<and> nt_callbacks n2 = [] \<and> after_advance react (n2, []) = None"
proof -
  let ?n1 = "notifier_new\<lparr>nt_count := 0\<rparr>" and ?n2 = "notifier_new\<lparr>nt_next_token := 1\<rparr>"
  have "package_for_delivery 4 True notifier_new = Some (True, ?n1)"
    by (simp add: package_for_delivery_def notifier_new_def)
  moreover have "remove_callback (snd (add_callback ?n1)) 0 = Some ?n2"
    by (simp add: remove_callback_def find_callback_def add_callback_def notifier_new_def Let_def)
  moreover have "after_advance react (?n2, []) = None"
    unfolding after_advance_def for_each_callback_def by (subst callback_loop.simps) (simp add: notifier_new_def word_gt_0)
  moreover have "nt_callbacks ?n2 = []" by (simp add: notifier_new_def)
  ultimately show ?thesis by blast
qed

definition skipping :: notifier where
  "skipping = watched [watcher 0 empty_builder no_changes, (watcher 1 empty_builder no_changes)\<lparr>cb_skip_next := True\<rparr>] 2 (- 1)"


end
