(* ===== verification/StringData.thy ===== *)
theory StringData
  imports Prelude "HOL-Library.Char_ord" "HOL-Library.List_Lexorder"
begin

text \<open>
  Strings of the database (\<open>include/core/realm/string_data.hpp\<close>) and the two orders the code
  puts on them, and the Boyer-Moore search of a \<open>CONTAINS\<close> query
  (\<open>StringData::contains\<close> and the table built by \<open>StringNode<Contains>\<close> in
  \<open>include/core/realm/query_engine.hpp\<close>).

  A \<open>std::string\<close> is a HOL \<open>string\<close>, whose characters are the 256 bytes. A \<open>StringData\<close> is
  a reference to such bytes or the null reference. \<open>std::string\<close> compares its bytes as
  \<open>unsigned char\<close>: this is the order \<open><\<close> of \<open>string\<close> that Char_ord and List_Lexorder define.
  \<open>StringData\<close> compares them with \<open>std::lexicographical_compare\<close> on \<open>const char*\<close>, and
  \<open>char\<close> is signed on the platforms the library is built for.
\<close>

datatype string_data = Null | Data string

section \<open>Views\<close>

fun sd_is_null :: "string_data \<Rightarrow> bool" where
  "sd_is_null Null = True"
| "sd_is_null (Data s) = False"

fun sd_bytes :: "string_data \<Rightarrow> string" where
  "sd_bytes Null = []"
| "sd_bytes (Data s) = s"

definition sd_size :: "string_data \<Rightarrow> nat" where
  "sd_size d = length (sd_bytes d)"

text \<open>
  Equality compares the sizes, the nullness and then the bytes; \<open>safe_equal\<close> reads as many bytes
  of the second string as the first one has.
\<close>

definition sd_eq :: "string_data \<Rightarrow> string_data \<Rightarrow> bool" where
  "sd_eq a b \<longleftrightarrow> sd_size a = sd_size b \<and> sd_is_null a = sd_is_null b \<and>
     sd_bytes a = take (sd_size a) (sd_bytes b)"

lemma sd_eq_iff [simp]: "sd_eq a b \<longleftrightarrow> a = b"
  by (cases a; cases b) (auto simp: sd_eq_def sd_size_def)

section \<open>The order on StringData\<close>

definition schar :: "char \<Rightarrow> int" where
  "schar c = (if of_char c < (128 :: nat) then int (of_char c) else int (of_char c) - 256)"

fun lexicographical_compare :: "string \<Rightarrow> string \<Rightarrow> bool" where
  "lexicographical_compare xs [] = False"
| "lexicographical_compare [] (y # ys) = True"
| "lexicographical_compare (x # xs) (y # ys) =
     (if schar x < schar y then True
      else if schar y < schar x then False
      else lexicographical_compare xs ys)"

definition sd_less :: "string_data \<Rightarrow> string_data \<Rightarrow> bool" where
  "sd_less a b =
     (if sd_is_null a \<and> \<not> sd_is_null b then True
      else lexicographical_compare (sd_bytes a) (sd_bytes b))"

lemma schar_inj [simp]: "schar x = schar y \<longleftrightarrow> x = y"
proof
  assume "schar x = schar y"
  then have "(of_char x :: nat) = of_char y"
    unfolding schar_def using nat_of_char_less_256 [of x] nat_of_char_less_256 [of y] by presburger
  then show "x = y"
    by (simp add: of_char_eq_iff)
qed simp

lemma lexicographical_irrefl: "\<not> lexicographical_compare xs xs"
  by (induction xs) auto

lemma lexicographical_trans:
  "lexicographical_compare xs ys \<Longrightarrow> lexicographical_compare ys zs \<Longrightarrow> lexicographical_compare xs zs"
proof (induction xs ys arbitrary: zs rule: lexicographical_compare.induct)
  case (3 x xs y ys)
  then show ?case
    by (cases zs) (auto split: if_splits)
next
  case (2 y ys)
  then show ?case
    by (cases zs) auto
qed simp

lemma lexicographical_total:
  "xs = ys \<or> lexicographical_compare xs ys \<or> lexicographical_compare ys xs"
proof (induction xs ys rule: lexicographical_compare.induct)
  case (1 xs)
  then show ?case by (cases xs) auto
next
  case (3 x xs y ys)
  then show ?case
    using schar_inj [of x y] by (auto simp del: schar_inj)
qed simp

instantiation string_data :: linorder
begin

definition less_string_data :: "string_data \<Rightarrow> string_data \<Rightarrow> bool" where
  "less_string_data = sd_less"

definition less_eq_string_data :: "string_data \<Rightarrow> string_data \<Rightarrow> bool" where
  "less_eq_string_data a b \<longleftrightarrow> \<not> sd_less b a"

instance
proof
  have irrefl: "\<not> sd_less a a" for a
    by (simp add: sd_less_def lexicographical_irrefl)
  have trans: "sd_less a b \<Longrightarrow> sd_less b c \<Longrightarrow> sd_less a c" for a b c
    by (cases a; cases b; cases c) (auto simp: sd_less_def intro: lexicographical_trans)
  have total: "a = b \<or> sd_less a b \<or> sd_less b a" for a b
    using lexicographical_total [of "sd_bytes a" "sd_bytes b"]
    by (cases a; cases b) (auto simp: sd_less_def)
  fix a b c :: string_data
  show "a < b \<longleftrightarrow> a \<le> b \<and> \<not> b \<le> a"
    unfolding less_string_data_def less_eq_string_data_def by (metis irrefl trans)
  show "a \<le> a"
    by (simp add: less_eq_string_data_def irrefl)
  show "a \<le> b \<Longrightarrow> b \<le> c \<Longrightarrow> a \<le> c"
    unfolding less_eq_string_data_def by (metis total trans)
  show "a \<le> b \<Longrightarrow> b \<le> a \<Longrightarrow> a = b"
    unfolding less_eq_string_data_def by (metis total)
  show "a \<le> b \<or> b \<le> a"
    unfolding less_eq_string_data_def by (metis irrefl trans)
qed

end

lemma Data_less_Data [simp]: "Data a < Data b \<longleftrightarrow> lexicographical_compare a b"
  by (simp add: less_string_data_def sd_less_def)

lemma Data_le_Data [simp]: "Data a \<le> Data b \<longleftrightarrow> \<not> lexicographical_compare b a"
  by (simp add: less_eq_string_data_def sd_less_def)

lemma Null_less_Data [simp]: "Null < Data b" "\<not> Data b < Null" "\<not> Null < Null"
  by (simp_all add: less_string_data_def sd_less_def)

text \<open>On ASCII strings the order is the one of \<open>std::string\<close>.\<close>

definition ascii :: "string \<Rightarrow> bool" where
  "ascii s \<longleftrightarrow> (\<forall>c \<in> set s. of_char c < (128 :: nat))"

lemma schar_ascii: "of_char c < (128 :: nat) \<Longrightarrow> schar c = int (of_char c)"
  by (simp add: schar_def)

lemma ascii_Cons [simp]: "ascii (c # s) \<longleftrightarrow> of_char c < (128 :: nat) \<and> ascii s"
  by (auto simp: ascii_def)

lemma ascii_Nil [simp]: "ascii []"
  by (simp add: ascii_def)

lemma ascii_orders_agree: "ascii a \<Longrightarrow> ascii b \<Longrightarrow> lexicographical_compare a b \<longleftrightarrow> a < b"
proof (induction a b rule: lexicographical_compare.induct)
  case (3 x xs y ys)
  then show ?case
    using schar_inj [of x y]
    by (auto simp: schar_ascii less_char_def simp del: schar_inj)
qed simp_all

section \<open>Searching\<close>

definition sd_begins_with :: "string_data \<Rightarrow> string_data \<Rightarrow> bool" where
  "sd_begins_with s d =
     (if sd_is_null s \<and> \<not> sd_is_null d then False
      else sd_size d \<le> sd_size s \<and> take (sd_size d) (sd_bytes s) = sd_bytes d)"

definition sd_ends_with :: "string_data \<Rightarrow> string_data \<Rightarrow> bool" where
  "sd_ends_with s d =
     (if sd_is_null s \<and> \<not> sd_is_null d then False
      else sd_size d \<le> sd_size s \<and> drop (sd_size s - sd_size d) (sd_bytes s) = sd_bytes d)"

text \<open>\<open>std::search\<close> tries every position of the text from the left.\<close>

fun std_search :: "string \<Rightarrow> string \<Rightarrow> bool" where
  "std_search [] pat \<longleftrightarrow> pat = []"
| "std_search (c # text) pat \<longleftrightarrow> take (length pat) (c # text) = pat \<or> std_search text pat"

definition sd_contains :: "string_data \<Rightarrow> string_data \<Rightarrow> bool" where
  "sd_contains s d =
     (if sd_is_null s \<and> \<not> sd_is_null d then False
      else sd_size d = 0 \<or> std_search (sd_bytes s) (sd_bytes d))"

definition sd_substr :: "string_data \<Rightarrow> nat \<Rightarrow> nat \<Rightarrow> string" where
  "sd_substr s i n = take n (drop i (sd_bytes s))"

text \<open>
  The table of \<open>StringNode<Contains>\<close>: for each byte the distance from its last occurrence to the
  end of the pattern, the last byte excluded, at most 255; 0 for a byte that does not occur.
\<close>

definition charmap_jump :: "nat \<Rightarrow> nat \<Rightarrow> nat" where
  "charmap_jump last_char_pos i = (if last_char_pos - i < 255 then last_char_pos - i else 255)"

fun charmap_upto :: "string \<Rightarrow> nat \<Rightarrow> char \<Rightarrow> nat" where
  "charmap_upto v 0 = (\<lambda>_. 0)"
| "charmap_upto v (Suc i) = (charmap_upto v i)(v ! i := charmap_jump (length v - 1) i)"

definition build_charmap :: "string_data \<Rightarrow> char \<Rightarrow> nat" where
  "build_charmap d = (if sd_size d = 0 then (\<lambda>_. 0) else charmap_upto (sd_bytes d) (sd_size d - 1))"

partial_function (option) boyer_moore :: "string_data \<Rightarrow> string_data \<Rightarrow> (char \<Rightarrow> nat) \<Rightarrow> nat \<Rightarrow> bool option" where
  "boyer_moore s d charmap p =
     (if p < sd_size s then
        let c = sd_bytes s ! p in
        if c = sd_bytes d ! (sd_size d - 1) \<and> sd_eq (Data (sd_substr s (p + 1 - sd_size d) (sd_size d))) d
        then Some True
        else boyer_moore s d charmap (if charmap c = 0 then p + sd_size d else p + charmap c)
      else Some False)"

text \<open>
  The source computes the start of the candidate as \<open>p - needle_size + 1\<close> in \<open>size_t\<close>; for
  \<open>p = needle_size - 1\<close> the subtraction wraps and the addition wraps back, so the value is
  \<open>p + 1 - needle_size\<close>.
\<close>

definition sd_contains_charmap :: "string_data \<Rightarrow> string_data \<Rightarrow> (char \<Rightarrow> nat) \<Rightarrow> bool option" where
  "sd_contains_charmap s d charmap =
     (if sd_is_null s \<and> \<not> sd_is_null d then Some False
      else if sd_size d = 0 then Some True
      else boyer_moore s d charmap (sd_size d - 1))"

text \<open>The pattern occurs in the text at a position.\<close>

definition occurs_at :: "string \<Rightarrow> string \<Rightarrow> nat \<Rightarrow> bool" where
  "occurs_at pat text i \<longleftrightarrow> i + length pat \<le> length text \<and> take (length pat) (drop i text) = pat"

lemma occurs_at_Cons_0: "occurs_at pat (c # text) 0 \<longleftrightarrow> take (length pat) (c # text) = pat"
  by (auto simp: occurs_at_def) (metis length_take min.absorb_iff1 min.commute length_Cons)

lemma occurs_at_Cons_Suc: "occurs_at pat (c # text) (Suc i) \<longleftrightarrow> occurs_at pat text i"
  by (simp add: occurs_at_def)

lemma std_search_iff: "std_search str pat \<longleftrightarrow> (\<exists>i. occurs_at pat str i)"
proof (induction str)
  case (Cons c cs)
  have "(\<exists>i. occurs_at pat (c # cs) i) \<longleftrightarrow> occurs_at pat (c # cs) 0 \<or> (\<exists>i. occurs_at pat cs i)"
    by (metis occurs_at_Cons_Suc not0_implies_Suc)
  with Cons show ?case
    by (simp add: occurs_at_Cons_0)
qed (auto simp: occurs_at_def)

lemma occurs_at_iff_nth:
  "occurs_at pat text i \<longleftrightarrow>
     i + length pat \<le> length text \<and> (\<forall>k < length pat. text ! (i + k) = pat ! k)"
  by (auto simp: occurs_at_def list_eq_iff_nth_eq)

text \<open>What the table says of the bytes of the pattern.\<close>

lemma charmap_upto_spec:
  "m \<le> length v - 1 \<Longrightarrow>
     (\<forall>i < m. v ! i = c \<longrightarrow> 0 < charmap_upto v m c \<and> charmap_upto v m c \<le> length v - 1 - i)"
proof (induction m)
  case (Suc m)
  then show ?case
    by (auto simp: charmap_jump_def less_Suc_eq)
qed simp

lemma charmap_upto_occurs: "charmap_upto v m c \<noteq> 0 \<Longrightarrow> \<exists>i < m. v ! i = c"
  by (induction m) (auto simp: less_Suc_eq split: if_splits)

text \<open>
  No occurrence of the pattern that ends after position \<open>p\<close> ends before the position the table
  sends the search to: its byte at \<open>p\<close> would be one the table knows of, and closer to its end.
\<close>

lemma jump_misses_nothing:
  assumes "occurs_at pat text q" and "p < q + length pat - 1" and "p < length text"
    and "length pat - 1 \<le> p" and "pat \<noteq> []"
  defines "j \<equiv> build_charmap (Data pat) (text ! p)"
  shows "p + (if j = 0 then length pat else j) \<le> q + length pat - 1"
proof (cases "q \<le> p")
  case False
  have "j \<le> length pat"
  proof (cases "j = 0")
    case False
    with \<open>pat \<noteq> []\<close> obtain i where "i < length pat - 1" "pat ! i = text ! p"
      using charmap_upto_occurs [of pat "length pat - 1" "text ! p"]
      by (auto simp: j_def build_charmap_def sd_size_def split: if_splits)
    with charmap_upto_spec [of "length pat - 1" pat "text ! p"] show ?thesis
      using \<open>pat \<noteq> []\<close> by (fastforce simp: j_def build_charmap_def sd_size_def)
  qed simp
  with False \<open>pat \<noteq> []\<close> show ?thesis
    by (cases pat) auto
next
  case True
  define i where "i = p - q"
  from True assms(2) have "i < length pat - 1" and "q + i = p"
    by (auto simp: i_def)
  with assms(1) have i: "i < length pat - 1" "pat ! i = text ! p"
    by (auto simp: occurs_at_iff_nth)
  with charmap_upto_spec [of "length pat - 1" pat "text ! p"] have "0 < j" "j \<le> length pat - 1 - i"
    by (auto simp: j_def build_charmap_def sd_size_def)
  with True i show ?thesis
    by (auto simp: i_def)
qed

lemma boyer_moore_finds:
  assumes "pat \<noteq> []" and "length pat - 1 \<le> p" and "\<And>q. occurs_at pat text q \<Longrightarrow> p \<le> q + length pat - 1"
  shows "boyer_moore (Data text) (Data pat) (build_charmap (Data pat)) p = Some (\<exists>q. occurs_at pat text q)"
  using assms(2,3)
proof (induction "length text - p" arbitrary: p rule: less_induct)
  case less
  define j where "j = build_charmap (Data pat) (text ! p)"
  show ?case
  proof (cases "p < length text")
    case False
    with less.prems have "\<not> occurs_at pat text q" for q
      using assms(1) by (cases pat) (fastforce simp: occurs_at_def)+
    with False show ?thesis
      by (subst boyer_moore.simps) (simp add: sd_size_def)
  next
    case True
    define found where "found \<longleftrightarrow> text ! p = pat ! (length pat - 1) \<and>
      sd_substr (Data text) (p + 1 - length pat) (length pat) = pat"
    have step: "boyer_moore (Data text) (Data pat) (build_charmap (Data pat)) p =
      (if found then Some True else boyer_moore (Data text) (Data pat) (build_charmap (Data pat))
         (p + (if j = 0 then length pat else j)))"
      using True by (subst boyer_moore.simps) (simp add: sd_size_def found_def j_def Let_def)
    from assms(1) less.prems(1) have pos: "p + 1 - length pat + (length pat - 1) = p" "length pat \<noteq> 0"
      "p + 1 - length pat + length pat = Suc p"
      by (simp_all add: Suc_le_eq flip: length_greater_0_conv)
    have here: "found \<longleftrightarrow> occurs_at pat text (p + 1 - length pat)"
    proof
      show "found \<Longrightarrow> occurs_at pat text (p + 1 - length pat)"
        using True pos by (simp add: found_def sd_substr_def occurs_at_def)
      assume *: "occurs_at pat text (p + 1 - length pat)"
      then have "text ! (p + 1 - length pat + (length pat - 1)) = pat ! (length pat - 1)"
        using pos(2) by (simp add: occurs_at_iff_nth)
      with * pos(1) show found
        by (simp add: found_def sd_substr_def occurs_at_def)
    qed
    show ?thesis
    proof (cases found)
      case True
      with here step show ?thesis
        by auto
    next
      case False
      define p' where "p' = p + (if j = 0 then length pat else j)"
      have "p' \<le> q + length pat - 1" if "occurs_at pat text q" for q
      proof -
        have "p \<noteq> q + length pat - 1"
          using False here that assms(1) by (cases pat) auto
        with less.prems(2) [OF that] have "p < q + length pat - 1"
          by simp
        with that True less.prems(1) assms(1) show ?thesis
          unfolding p'_def j_def by (intro jump_misses_nothing) auto
      qed
      moreover have "length text - p' < length text - p" "length pat - 1 \<le> p'"
        using True less.prems(1) assms(1)
        by (auto simp: p'_def intro!: diff_less_mono2)
      ultimately show ?thesis
        using False step less.hyps [of p'] by (simp add: p'_def)
    qed
  qed
qed

text \<open>C23. A CONTAINS query that uses the precomputed table answers as the plain search, for every
  text and pattern, null and empty ones and patterns longer than 255 bytes included; it ends.\<close>

theorem contains_with_charmap:
  "sd_contains_charmap s d (build_charmap d) = Some (sd_contains s d)"
proof (cases d)
  case (Data pat)
  show ?thesis
  proof (cases "pat = [] \<or> sd_is_null s")
    case True
    with Data show ?thesis
      by (auto simp: sd_contains_charmap_def sd_contains_def sd_size_def)
  next
    case False
    then obtain str where "s = Data str"
      by (cases s) auto
    moreover have "boyer_moore (Data str) d (build_charmap d) (length pat - 1) = Some (std_search str pat)"
      unfolding Data std_search_iff using False
      by (intro boyer_moore_finds) (auto simp: occurs_at_def)
    ultimately show ?thesis
      using False Data by (simp add: sd_contains_charmap_def sd_contains_def sd_size_def)
  qed
qed (simp add: sd_contains_charmap_def sd_contains_def sd_size_def)

end
