(* ===== verification/SchemaTypes.thy ===== *)
theory SchemaTypes
  imports StringData "HOL-Library.Word"
begin

text \<open>
  Properties and object types of a schema (\<open>include/property.hpp\<close>, \<open>include/object_schema.hpp\<close>,
  \<open>ObjectStore/src/object_schema.cpp\<close>).

  A \<open>PropertyType\<close> is an \<open>unsigned char\<close>: the low six bits are one of ten base types, bit 6 is
  the flag Nullable and bit 7 the flag Array. Its \<open>==\<close> ignores the flags. A \<open>switch\<close> that meets
  no case runs into \<open>REALM_COMPILER_HINT_UNREACHABLE\<close>, which is undefined behaviour: \<open>None\<close>.
\<close>

unbundle bit_operations_syntax

named_theorems ptype_simps \<open>the bit operations on property types\<close>

type_synonym ptype = "8 word"
type_synonym col_key = "64 word"

section \<open>Property types\<close>

definition pt_Int :: ptype where "pt_Int = 0"
definition pt_Bool :: ptype where "pt_Bool = 1"
definition pt_String :: ptype where "pt_String = 2"
definition pt_Data :: ptype where "pt_Data = 3"
definition pt_Date :: ptype where "pt_Date = 4"
definition pt_Float :: ptype where "pt_Float = 5"
definition pt_Double :: ptype where "pt_Double = 6"
definition pt_Object :: ptype where "pt_Object = 7"
definition pt_LinkingObjects :: ptype where "pt_LinkingObjects = 8"
definition pt_Any :: ptype where "pt_Any = 9"
definition pt_Nullable :: ptype where "pt_Nullable = 64"
definition pt_Array :: ptype where "pt_Array = 128"
definition pt_Flags :: ptype where "pt_Flags = pt_Nullable OR pt_Array"

lemmas pt_base_defs = pt_Int_def pt_Bool_def pt_String_def pt_Data_def pt_Date_def pt_Float_def
  pt_Double_def pt_Object_def pt_LinkingObjects_def pt_Any_def
lemmas pt_flag_defs = pt_Nullable_def pt_Array_def pt_Flags_def

text \<open>\<open>a & ~PropertyType::Flags\<close>, the equality that ignores the flags, and the flags.\<close>

definition base_type :: "ptype \<Rightarrow> ptype" where
  "base_type a = a AND NOT pt_Flags"

definition pt_eq :: "ptype \<Rightarrow> ptype \<Rightarrow> bool" where
  "pt_eq a b \<longleftrightarrow> base_type a = base_type b"

definition is_array :: "ptype \<Rightarrow> bool" where
  "is_array a \<longleftrightarrow> a AND pt_Array = pt_Array"

definition is_nullable :: "ptype \<Rightarrow> bool" where
  "is_nullable a \<longleftrightarrow> a AND pt_Nullable = pt_Nullable"

fun switch_type :: "(ptype \<times> 'a) list \<Rightarrow> ptype \<Rightarrow> 'a option" where
  "switch_type [] t = None"
| "switch_type ((v, x) # cases) t = (if t = v then Some x else switch_type cases t)"

definition string_for_property_type :: "ptype \<Rightarrow> string option" where
  "string_for_property_type t =
     (if is_array t then
        (if pt_eq t pt_LinkingObjects then Some ''linking objects'' else Some ''array'')
      else switch_type
        [(pt_String, ''string''), (pt_Int, ''int''), (pt_Bool, ''bool''), (pt_Date, ''date''),
         (pt_Data, ''data''), (pt_Double, ''double''), (pt_Float, ''float''), (pt_Object, ''object''),
         (pt_Any, ''any''), (pt_LinkingObjects, ''linking objects'')] (base_type t))"

text \<open>A byte is its base type and its two flags.\<close>

lemma bit_pt_flags [simp]:
  "bit pt_Nullable n \<longleftrightarrow> n = 6" "bit pt_Array n \<longleftrightarrow> n = 7" "bit pt_Flags n \<longleftrightarrow> n = 6 \<or> n = 7"
proof -
  have pushed: "pt_Nullable = push_bit 6 1" "pt_Array = push_bit 7 1"
    by (simp_all add: pt_flag_defs push_bit_eq_mult)
  show *: "bit pt_Nullable n \<longleftrightarrow> n = 6" "bit pt_Array n \<longleftrightarrow> n = 7"
    unfolding pushed by (simp_all only: bit_simps) auto
  show "bit pt_Flags n \<longleftrightarrow> n = 6 \<or> n = 7"
    by (simp add: pt_Flags_def bit_simps *)
qed

lemma is_nullable_bit [ptype_simps]: "is_nullable a \<longleftrightarrow> bit a 6"
proof
  show "is_nullable a \<Longrightarrow> bit a 6"
    unfolding is_nullable_def by (metis bit_and_iff bit_pt_flags(1))
  show "bit a 6 \<Longrightarrow> is_nullable a"
    unfolding is_nullable_def by (rule bit_eqI) (auto simp: bit_simps)
qed

lemma is_array_bit [ptype_simps]: "is_array a \<longleftrightarrow> bit a 7"
proof
  show "is_array a \<Longrightarrow> bit a 7"
    unfolding is_array_def by (metis bit_and_iff bit_pt_flags(2))
  show "bit a 7 \<Longrightarrow> is_array a"
    unfolding is_array_def by (rule bit_eqI) (auto simp: bit_simps)
qed

lemma base_type_bit [ptype_simps]: "bit (base_type a) n \<longleftrightarrow> bit a n \<and> n < 6"
proof -
  have "bit a n \<Longrightarrow> n < 8" for n
    using bit_imp_le_length [of a n] by simp
  then show ?thesis
    by (fastforce simp: base_type_def bit_simps)
qed

lemma ptype_eqI: "pt_eq a b \<Longrightarrow> is_array a = is_array b \<Longrightarrow> is_nullable a = is_nullable b \<Longrightarrow> a = b"
proof (rule bit_word_eqI)
  fix n assume *: "pt_eq a b" "is_array a = is_array b" "is_nullable a = is_nullable b"
    and "n < LENGTH(8)"
  then consider "n < 6" | "n = 6" | "n = 7"
    by fastforce
  then show "bit a n \<longleftrightarrow> bit b n"
  proof cases
    case 1
    from * have "bit (base_type a) n = bit (base_type b) n"
      by (simp add: pt_eq_def)
    with 1 show ?thesis
      by (simp add: base_type_bit)
  qed (use * in \<open>simp_all add: is_array_bit is_nullable_bit\<close>)
qed

lemma pt_eq_refl [simp]: "pt_eq a a"
  by (simp add: pt_eq_def)

section \<open>Properties\<close>

record property =
  p_name :: string
  p_public_name :: string
  p_type :: ptype
  p_object_type :: string
  p_link_origin :: string
  p_is_primary :: bool
  p_is_indexed :: bool
  p_column_key :: col_key

text \<open>The key of no column: \<open>uint64_t(-1) >> 1\<close>.\<close>

definition null_col_key :: col_key where
  "null_col_key = drop_bit 1 (- 1)"

definition new_property :: "string \<Rightarrow> ptype \<Rightarrow> bool \<Rightarrow> bool \<Rightarrow> string \<Rightarrow> property" where
  "new_property nm t primary indexed public =
     \<lparr>p_name = nm, p_public_name = public, p_type = t, p_object_type = [], p_link_origin = [],
      p_is_primary = primary, p_is_indexed = indexed, p_column_key = null_col_key\<rparr>"

definition new_link :: "string \<Rightarrow> ptype \<Rightarrow> string \<Rightarrow> string \<Rightarrow> string \<Rightarrow> property" where
  "new_link nm t obj origin public =
     \<lparr>p_name = nm, p_public_name = public, p_type = t, p_object_type = obj, p_link_origin = origin,
      p_is_primary = False, p_is_indexed = False, p_column_key = null_col_key\<rparr>"

definition requires_index :: "property \<Rightarrow> bool" where
  "requires_index p \<longleftrightarrow> p_is_primary p \<or> p_is_indexed p"

definition type_is_indexable :: "property \<Rightarrow> bool" where
  "type_is_indexable p \<longleftrightarrow> pt_eq (p_type p) pt_Int \<or> pt_eq (p_type p) pt_Bool \<or>
     pt_eq (p_type p) pt_Date \<or> pt_eq (p_type p) pt_String"

definition type_is_nullable :: "property \<Rightarrow> bool" where
  "type_is_nullable p \<longleftrightarrow> \<not> (is_array (p_type p) \<and> pt_eq (p_type p) pt_Object) \<and>
     \<not> pt_eq (p_type p) pt_LinkingObjects"

definition type_string :: "property \<Rightarrow> string option" where
  "type_string p =
     (if is_array (p_type p) then
        (if pt_eq (p_type p) pt_Object then Some (''array<'' @ p_object_type p @ ''>'')
         else if pt_eq (p_type p) pt_LinkingObjects then
           Some (''linking objects<'' @ p_object_type p @ ''>'')
         else map_option (\<lambda>s. ''array<'' @ s @ ''>'') (string_for_property_type (base_type (p_type p))))
      else if base_type (p_type p) = pt_Object then Some (''<'' @ p_object_type p @ ''>'')
      else if base_type (p_type p) = pt_LinkingObjects then
        Some (''linking objects<'' @ p_object_type p @ ''>'')
      else string_for_property_type (base_type (p_type p)))"

definition property_eq :: "property \<Rightarrow> property \<Rightarrow> bool" where
  "property_eq a b \<longleftrightarrow> p_type a = p_type b \<and> p_is_primary a = p_is_primary b \<and>
     requires_index a = requires_index b \<and> p_name a = p_name b \<and>
     p_object_type a = p_object_type b \<and> p_link_origin a = p_link_origin b"

section \<open>Object types\<close>

record object_schema =
  o_name :: string
  o_persisted :: "property list"
  o_computed :: "property list"
  o_primary_key :: string
  o_table_key :: "32 word"

text \<open>The key of no table: \<open>uint32_t(-1) >> 1\<close>.\<close>

definition null_table_key :: "32 word" where
  "null_table_key = drop_bit 1 (- 1)"

definition new_object_schema :: "string \<Rightarrow> property list \<Rightarrow> property list \<Rightarrow> object_schema" where
  "new_object_schema nm persisted computed =
     \<lparr>o_name = nm, o_persisted = persisted, o_computed = computed,
      o_primary_key = (case find p_is_primary persisted of None \<Rightarrow> [] | Some p \<Rightarrow> p_name p),
      o_table_key = null_table_key\<rparr>"

definition property_for_name :: "object_schema \<Rightarrow> string_data \<Rightarrow> property option" where
  "property_for_name os nm =
     (case find (\<lambda>p. sd_eq (Data (p_name p)) nm) (o_persisted os) of
        Some p \<Rightarrow> Some p
      | None \<Rightarrow> find (\<lambda>p. sd_eq (Data (p_name p)) nm) (o_computed os))"

definition property_for_public_name :: "object_schema \<Rightarrow> string_data \<Rightarrow> property option" where
  "property_for_public_name os nm =
     (case find (\<lambda>p. sd_eq (Data (p_public_name p)) nm \<or>
                     p_public_name p = [] \<and> sd_eq (Data (p_name p)) nm) (o_persisted os) of
        Some p \<Rightarrow> Some p
      | None \<Rightarrow> find (\<lambda>p. sd_eq (Data (if p_public_name p = [] then p_name p else p_public_name p)) nm)
                  (o_computed os))"

definition primary_key_property :: "object_schema \<Rightarrow> property option" where
  "primary_key_property os = property_for_name os (Data (o_primary_key os))"

definition property_is_computed :: "object_schema \<Rightarrow> property \<Rightarrow> bool" where
  "property_is_computed os p \<longleftrightarrow> (\<exists>q \<in> set (o_computed os). property_eq q p)"

text \<open>
  The assignment through the pointer that \<open>primary_key_property\<close> returns: the property that is
  found becomes primary.
\<close>

fun update_first :: "(property \<Rightarrow> bool) \<Rightarrow> (property \<Rightarrow> property) \<Rightarrow> property list \<Rightarrow> property list" where
  "update_first P f [] = []"
| "update_first P f (p # ps) = (if P p then f p # ps else p # update_first P f ps)"

definition update_property :: "(property \<Rightarrow> property) \<Rightarrow> string \<Rightarrow> object_schema \<Rightarrow> object_schema" where
  "update_property f nm os =
     (if \<exists>p \<in> set (o_persisted os). p_name p = nm
      then os\<lparr>o_persisted := update_first (\<lambda>p. p_name p = nm) f (o_persisted os)\<rparr>
      else os\<lparr>o_computed := update_first (\<lambda>p. p_name p = nm) f (o_computed os)\<rparr>)"

definition set_primary_key_property :: "object_schema \<Rightarrow> object_schema" where
  "set_primary_key_property os =
     (if length (o_primary_key os) \<noteq> 0 then
        update_property (\<lambda>p. p\<lparr>p_is_primary := True\<rparr>) (o_primary_key os) os
      else os)"

definition object_schema_eq :: "object_schema \<Rightarrow> object_schema \<Rightarrow> bool" where
  "object_schema_eq a b \<longleftrightarrow> o_name a = o_name b \<and> o_primary_key a = o_primary_key b \<and>
     list_all2 property_eq (o_persisted a) (o_persisted b) \<and>
     list_all2 property_eq (o_computed a) (o_computed b)"

subsection \<open>Looking a property up\<close>

definition property_names :: "object_schema \<Rightarrow> string list" where
  "property_names os = map p_name (o_persisted os) @ map p_name (o_computed os)"

lemma find_name_unique:
  "distinct (map p_name ps) \<Longrightarrow> p \<in> set ps \<Longrightarrow> find (\<lambda>q. p_name q = p_name p) ps = Some p"
  by (induction ps) (auto simp: image_iff)

lemma find_name_None_iff: "find (\<lambda>q. p_name q = nm) ps = None \<longleftrightarrow> nm \<notin> p_name ` set ps"
  by (auto simp: find_None_iff)

lemma property_for_name_persisted:
  "distinct (property_names os) \<Longrightarrow> p \<in> set (o_persisted os) \<Longrightarrow>
     property_for_name os (Data (p_name p)) = Some p"
  by (simp add: property_for_name_def property_names_def find_name_unique)

lemma property_for_name_computed:
  assumes "distinct (property_names os)" "p \<in> set (o_computed os)"
  shows "property_for_name os (Data (p_name p)) = Some p"
proof -
  from assms have "find (\<lambda>q. p_name q = p_name p) (o_persisted os) = None"
    by (auto simp: find_name_None_iff property_names_def)
  with assms show ?thesis
    by (simp add: property_for_name_def property_names_def find_name_unique)
qed

lemma property_for_name_None:
  "property_for_name os (Data nm) = None \<longleftrightarrow> nm \<notin> set (property_names os)"
  by (auto simp: property_for_name_def property_names_def find_name_None_iff split: option.splits)
    (auto simp: find_Some_iff)

lemma property_for_name_SomeD:
  "property_for_name os (Data nm) = Some p \<Longrightarrow>
     p_name p = nm \<and> (p \<in> set (o_persisted os) \<or> p \<in> set (o_computed os))"
  by (auto simp: property_for_name_def find_Some_iff split: option.splits)

lemma property_for_public_name_not_null:
  assumes "p \<in> set (o_persisted os) \<union> set (o_computed os)" "p_public_name p = nm" "nm \<noteq> []"
  shows "property_for_public_name os (Data nm) \<noteq> None"
proof
  assume none: "property_for_public_name os (Data nm) = None"
  then have "find (\<lambda>p. sd_eq (Data (if p_public_name p = [] then p_name p else p_public_name p)) (Data nm))
      (o_computed os) = None" and "p \<notin> set (o_persisted os)"
    using assms(2) by (auto simp: property_for_public_name_def find_None_iff split: option.splits)
  with assms show False
    by (auto simp: find_None_iff)
qed

end
