(* ===== verification/SchemaValidate.thy ===== *)
theory SchemaValidate
  imports SchemaTypes
begin

text \<open>
  A schema as a sorted vector of object types, finding a type by name
  (\<open>ObjectStore/src/schema.cpp\<close>) and the validation of a schema (\<open>Schema::validate\<close>,
  \<open>ObjectSchema::validate\<close> and \<open>validate_property\<close> in \<open>ObjectStore/src/object_schema.cpp\<close>).

  Each message of the source is a constructor of \<open>schema_message\<close>; an exception is a message with
  the arguments that are formatted into it. Validation collects exceptions; it is \<open>None\<close> where it
  would dereference a null pointer or name a type that does not exist.
\<close>

type_synonym schema = "object_schema list"

section \<open>The schema as a sorted vector\<close>

text \<open>
  The constructor sorts by \<open>std::string::operator<\<close>. For types of equal names \<open>std::sort\<close> leaves the
  order open; the model keeps the given one.
\<close>

definition schema_new :: "object_schema list \<Rightarrow> schema" where
  "schema_new types = sort_key o_name types"

text \<open>\<open>std::lower_bound\<close>: bisection of the range of a given length that starts at a position.\<close>

function std_lower_bound :: "('a \<Rightarrow> bool) \<Rightarrow> 'a list \<Rightarrow> nat \<Rightarrow> nat \<Rightarrow> nat" where
  "std_lower_bound below xs start len =
     (if len = 0 then start
      else let half = len div 2 in
        if below (xs ! (start + half)) then std_lower_bound below xs (start + half + 1) (len - half - 1)
        else std_lower_bound below xs start half)"
  by pat_completeness auto
termination
  by (relation "measure (\<lambda>(_, _, _, len). len)") auto

declare std_lower_bound.simps [simp del]

definition schema_find :: "schema \<Rightarrow> string_data \<Rightarrow> object_schema option" where
  "schema_find s nm =
     (let it = std_lower_bound (\<lambda>lft. sd_less (Data (o_name lft)) nm) s 0 (length s) in
      if it \<noteq> length s \<and> \<not> sd_eq (Data (o_name (s ! it))) nm then None
      else if it = length s then None else Some (s ! it))"

text \<open>The bisection finds the boundary of a range that is partitioned by the predicate.\<close>

lemma std_lower_bound_partition:
  assumes "k \<le> len" and "start + len \<le> length xs"
    and "\<And>i. i < len \<Longrightarrow> below (xs ! (start + i)) \<longleftrightarrow> i < k"
  shows "std_lower_bound below xs start len = start + k"
  using assms
proof (induction below xs start len arbitrary: k rule: std_lower_bound.induct)
  case (1 below xs start len)
  show ?case
  proof (cases "len = 0")
    case False
    define half where "half = len div 2"
    with False have half: "half < len"
      by simp
    show ?thesis
    proof (cases "half < k")
      case True
      have "std_lower_bound below xs (start + half + 1) (len - half - 1) = start + half + 1 + (k - half - 1)"
      proof (rule "1.IH"(1) [OF False half_def])
        fix i assume "i < len - half - 1"
        then show "below (xs ! (start + half + 1 + i)) \<longleftrightarrow> i < k - half - 1"
          using "1.prems"(3) [of "half + 1 + i"] True by (simp add: ac_simps) linarith
      qed (use True half "1.prems" in auto)
      with True False half "1.prems"(3) [of half] show ?thesis
        by (subst std_lower_bound.simps) (simp flip: half_def)
    next
      case not_less: False
      have "std_lower_bound below xs start half = start + k"
        by (rule "1.IH"(2) [OF False half_def]) (use not_less half "1.prems" in auto)
      with not_less False half "1.prems"(3) [of half] show ?thesis
        by (subst std_lower_bound.simps) (simp flip: half_def)
    qed
  qed (use 1 in \<open>simp add: std_lower_bound.simps\<close>)
qed

lemma sorted_boundary:
  "sorted (map f xs) \<Longrightarrow> i < length xs \<Longrightarrow>
     f (xs ! i) < (y :: 'b :: linorder) \<longleftrightarrow> i < length (filter (\<lambda>x. f x < y) xs)"
proof (induction xs arbitrary: i)
  case (Cons x xs)
  show ?case
  proof (cases i)
    case 0
    have "f x < y" if "f x' < y" "x' \<in> set xs" for x'
      using that Cons.prems(1) by force
    with 0 show ?thesis
      by (auto simp: filter_empty_conv)
  next
    case (Suc j)
    have "f x < y" if "f (xs ! j) < y"
      using that Cons.prems Suc by (force dest: nth_mem)
    with Suc Cons show ?thesis
      by auto
  qed
qed simp

text \<open>The names are sorted in the order that find uses.\<close>

definition find_sorted :: "schema \<Rightarrow> bool" where
  "find_sorted s \<longleftrightarrow> sorted (map (\<lambda>os. Data (o_name os)) s)"

lemma schema_find_sorted:
  assumes "find_sorted s"
  shows "schema_find s (Data nm) = find (\<lambda>os. o_name os = nm) s"
proof -
  define k where "k = length (filter (\<lambda>os. Data (o_name os) < Data nm) s)"
  have k: "k \<le> length s"
    by (simp add: k_def)
  have before: "i < length s \<Longrightarrow> Data (o_name (s ! i)) < Data nm \<longleftrightarrow> i < k" for i
    using sorted_boundary [of "\<lambda>os. Data (o_name os)" s i "Data nm"] assms
    by (simp add: find_sorted_def k_def)
  have it: "std_lower_bound (\<lambda>lft. sd_less (Data (o_name lft)) (Data nm)) s 0 (length s) = k"
    using std_lower_bound_partition [of k "length s" 0 s "\<lambda>lft. sd_less (Data (o_name lft)) (Data nm)"]
    by (simp add: k before flip: less_string_data_def del: Data_less_Data)
  show ?thesis
  proof (cases "k < length s \<and> o_name (s ! k) = nm")
    case True
    then have "find (\<lambda>os. o_name os = nm) s = Some (s ! k)"
      using before by (auto simp: find_Some_iff lexicographical_irrefl intro!: exI [of _ k])
        (metis Data_less_Data lexicographical_irrefl order.strict_trans)
    with True it show ?thesis
      by (simp add: schema_find_def)
  next
    case False
    have "o_name (s ! i) \<noteq> nm" if "i < length s" for i
    proof (cases "i < k")
      case True
      with before [OF that] show ?thesis
        by (auto simp: lexicographical_irrefl)
    next
      case ik: False
      with that False have "k < length s" "o_name (s ! k) \<noteq> nm"
        by auto
      with before [of k] have "Data nm < Data (o_name (s ! k))"
        by (metis less_irrefl_nat linorder_neqE string_data.inject)
      moreover have "Data (o_name (s ! k)) \<le> Data (o_name (s ! i))"
        using assms ik that sorted_nth_mono [of "map (\<lambda>os. Data (o_name os)) s" k i]
        by (simp add: find_sorted_def)
      ultimately show ?thesis
        by (metis leD)
    qed
    then have "find (\<lambda>os. o_name os = nm) s = None"
      by (auto simp: find_None_iff in_set_conv_nth)
    moreover from False k have "schema_find s (Data nm) = None"
      by (auto simp: schema_find_def it)
    ultimately show ?thesis
      by simp
  qed
qed

text \<open>The order of the constructor is the order of find when the names are ASCII.\<close>

lemma find_sorted_ascii: "\<forall>os \<in> set types. ascii (o_name os) \<Longrightarrow> find_sorted (schema_new types)"
proof -
  assume *: "\<forall>os \<in> set types. ascii (o_name os)"
  have "sorted_wrt (\<lambda>a b. o_name a \<le> o_name b) (schema_new types)"
    using sorted_sort_key [of o_name types] by (simp add: schema_new_def sorted_wrt_map)
  then have "sorted_wrt (\<lambda>a b. Data (o_name a) \<le> Data (o_name b)) (schema_new types)"
    by (rule sorted_wrt_mono_rel [rotated])
      (use * in \<open>auto simp: schema_new_def ascii_orders_agree not_less\<close>)
  then show ?thesis
    by (simp add: find_sorted_def sorted_wrt_map)
qed

section \<open>Exceptions\<close>

datatype schema_message =
    Linking_objects_not_array
  | Cannot_be_nullable
  | Object_must_be_nullable
  | Bad_primary_key_type
  | Two_primary_keys
  | Cannot_be_indexed
  | Origin_not_allowed
  | Origin_missing
  | Object_type_not_allowed
  | Unknown_object_type
  | Origin_does_not_exist
  | Origin_not_a_link
  | Origin_links_elsewhere
  | Duplicate_alias
  | Duplicate_property
  | Alias_conflict
  | Primary_key_missing
  | Duplicate_type

datatype exn = Exn schema_message "string list"

text \<open>An argument that cannot be computed makes the message, and so the check, undefined.\<close>

definition raise_if :: "bool \<Rightarrow> schema_message \<Rightarrow> string option list \<Rightarrow> exn list option" where
  "raise_if b msg args = (if b then map_option (\<lambda>as. [Exn msg as]) (those args) else Some [])"

lemma raise_if_empty [simp]: "raise_if b msg args = Some [] \<longleftrightarrow> \<not> b"
  by (simp add: raise_if_def)

lemma raise_if_defined: "None \<notin> set args \<Longrightarrow> \<exists>es. raise_if b msg args = Some es \<and> (es = [] \<longleftrightarrow> \<not> b)"
proof -
  have "None \<notin> set args \<Longrightarrow> \<exists>as. those args = Some as"
    by (induction args) (auto split: option.splits, metis option.exhaust)
  then show "None \<notin> set args \<Longrightarrow> \<exists>es. raise_if b msg args = Some es \<and> (es = [] \<longleftrightarrow> \<not> b)"
    by (auto simp: raise_if_def)
qed

section \<open>One property\<close>

definition check_nullability :: "string \<Rightarrow> property \<Rightarrow> exn list option" where
  "check_nullability oname p =
     (if is_nullable (p_type p) \<and> \<not> type_is_nullable p
      then raise_if True Cannot_be_nullable [Some oname, Some (p_name p), string_for_property_type (p_type p)]
      else raise_if (pt_eq (p_type p) pt_Object \<and> \<not> is_nullable (p_type p) \<and> \<not> is_array (p_type p))
             Object_must_be_nullable [Some oname, Some (p_name p)])"

definition check_primary :: "string \<Rightarrow> property \<Rightarrow> property option \<Rightarrow> (property option \<times> exn list) option" where
  "check_primary oname p primary =
     (if p_is_primary p then do {
        e1 \<leftarrow> raise_if (\<not> pt_eq (p_type p) pt_Int \<and> \<not> pt_eq (p_type p) pt_String) Bad_primary_key_type
                [Some oname, Some (p_name p), string_for_property_type (p_type p)];
        e2 \<leftarrow> (case primary of
                 None \<Rightarrow> Some []
               | Some q \<Rightarrow> raise_if True Two_primary_keys [Some (p_name p), Some (p_name q), Some oname]);
        Some (Some p, e1 @ e2)
      } else Some (primary, []))"

definition check_origin_name :: "string \<Rightarrow> property \<Rightarrow> exn list option" where
  "check_origin_name oname p =
     (if \<not> pt_eq (p_type p) pt_LinkingObjects \<and> p_link_origin p \<noteq> []
      then raise_if True Origin_not_allowed [Some oname, Some (p_name p), string_for_property_type (p_type p)]
      else raise_if (pt_eq (p_type p) pt_LinkingObjects \<and> p_link_origin p = []) Origin_missing
             [Some oname, Some (p_name p), string_for_property_type (p_type p)])"

definition check_origin :: "object_schema \<Rightarrow> string \<Rightarrow> property \<Rightarrow> exn list option" where
  "check_origin target oname p =
     (case property_for_name target (Data (p_link_origin p)) of
        None \<Rightarrow> raise_if True Origin_does_not_exist
                  [Some (p_object_type p), Some (p_link_origin p), Some oname, Some (p_name p)]
      | Some origin \<Rightarrow>
          if \<not> pt_eq (p_type origin) pt_Object then raise_if True Origin_not_a_link
                  [Some (p_object_type p), Some (p_link_origin p), Some oname, Some (p_name p)]
          else raise_if (p_object_type origin \<noteq> oname) Origin_links_elsewhere
                  [Some (p_object_type p), Some (p_link_origin p), Some oname, Some (p_name p),
                   Some (p_object_type origin)])"

definition check_target :: "schema \<Rightarrow> string \<Rightarrow> property \<Rightarrow> exn list option" where
  "check_target s oname p =
     (if \<not> pt_eq (p_type p) pt_Object \<and> \<not> pt_eq (p_type p) pt_LinkingObjects
      then raise_if (p_object_type p \<noteq> []) Object_type_not_allowed
             [Some oname, Some (p_name p), type_string p]
      else case schema_find s (Data (p_object_type p)) of
          None \<Rightarrow> raise_if True Unknown_object_type
                    [Some oname, Some (p_name p), string_for_property_type (p_type p), Some (p_object_type p)]
        | Some target \<Rightarrow>
            if \<not> pt_eq (p_type p) pt_LinkingObjects then Some [] else check_origin target oname p)"

definition validate_property ::
  "schema \<Rightarrow> string \<Rightarrow> property \<Rightarrow> property option \<Rightarrow> (property option \<times> exn list) option" where
  "validate_property s oname p primary = do {
     e1 \<leftarrow> raise_if (pt_eq (p_type p) pt_LinkingObjects \<and> \<not> is_array (p_type p)) Linking_objects_not_array
             [Some oname, Some (p_name p)];
     e2 \<leftarrow> check_nullability oname p;
     (primary', e3) \<leftarrow> check_primary oname p primary;
     e4 \<leftarrow> raise_if (p_is_indexed p \<and> \<not> type_is_indexable p) Cannot_be_indexed
             [Some oname, Some (p_name p), string_for_property_type (p_type p)];
     e5 \<leftarrow> check_origin_name oname p;
     e6 \<leftarrow> check_target s oname p;
     Some (primary', e1 @ e2 @ e3 @ e4 @ e5 @ e6)
   }"

fun validate_properties ::
  "schema \<Rightarrow> string \<Rightarrow> property list \<Rightarrow> property option \<Rightarrow> (property option \<times> exn list) option" where
  "validate_properties s oname [] primary = Some (primary, [])"
| "validate_properties s oname (p # ps) primary = do {
     (primary', e1) \<leftarrow> validate_property s oname p primary;
     (primary'', e2) \<leftarrow> validate_properties s oname ps primary';
     Some (primary'', e1 @ e2)
   }"

section \<open>One object type\<close>

text \<open>The names are gathered from all properties, the aliases only where there is one.\<close>

definition internal_property_names :: "object_schema \<Rightarrow> string_data list" where
  "internal_property_names os = sort (map Data (property_names os))"

definition public_property_names :: "object_schema \<Rightarrow> string_data list" where
  "public_property_names os =
     sort (map Data (filter (\<lambda>n. n \<noteq> []) (map p_public_name (o_persisted os @ o_computed os))))"

text \<open>After a duplicate at a position the search goes on two positions further.\<close>

fun for_each_duplicate :: "'a list \<Rightarrow> 'a list" where
  "for_each_duplicate (x # y # zs) =
     (if x = y then x # for_each_duplicate zs else for_each_duplicate (y # zs))"
| "for_each_duplicate xs = []"

fun set_intersection :: "'a :: linorder list \<Rightarrow> 'a list \<Rightarrow> 'a list" where
  "set_intersection (x # xs) (y # ys) =
     (if x < y then set_intersection xs (y # ys)
      else if y < x then set_intersection (x # xs) ys
      else x # set_intersection xs ys)"
| "set_intersection xs ys = []"

fun concat_checks :: "exn list option list \<Rightarrow> exn list option" where
  "concat_checks [] = Some []"
| "concat_checks (c # cs) = do { e1 \<leftarrow> c; e2 \<leftarrow> concat_checks cs; Some (e1 @ e2) }"

definition alias_conflict :: "object_schema \<Rightarrow> string_data \<Rightarrow> exn list option" where
  "alias_conflict os nm =
     raise_if True Alias_conflict
       [Some (o_name os), map_option p_name (property_for_public_name os nm), Some (sd_bytes nm)]"

definition validate_object :: "schema \<Rightarrow> object_schema \<Rightarrow> exn list option" where
  "validate_object s os = do {
     e1 \<leftarrow> concat_checks (map (\<lambda>n. raise_if True Duplicate_alias [Some (sd_bytes n), Some (o_name os)])
                             (for_each_duplicate (public_property_names os)));
     e2 \<leftarrow> concat_checks (map (\<lambda>n. raise_if True Duplicate_property [Some (sd_bytes n), Some (o_name os)])
                             (for_each_duplicate (internal_property_names os)));
     e3 \<leftarrow> concat_checks (map (alias_conflict os)
             (set_intersection (public_property_names os) (internal_property_names os)));
     (primary, e4) \<leftarrow> validate_properties s (o_name os) (o_persisted os) None;
     (primary', e5) \<leftarrow> validate_properties s (o_name os) (o_computed os) primary;
     e6 \<leftarrow> raise_if (o_primary_key os \<noteq> [] \<and> primary' = None \<and> primary_key_property os = None)
             Primary_key_missing [Some (o_name os), Some (o_primary_key os)];
     Some (e1 @ e2 @ e3 @ e4 @ e5 @ e6)
   }"

section \<open>The whole schema\<close>

fun duplicate_types :: "schema \<Rightarrow> exn list" where
  "duplicate_types (a # b # s) =
     (if o_name a = o_name b then [Exn Duplicate_type [o_name a]] else []) @ duplicate_types (b # s)"
| "duplicate_types s = []"

definition schema_validate :: "schema \<Rightarrow> exn list option" where
  "schema_validate s = map_option ((@) (duplicate_types s)) (concat_checks (map (validate_object s) s))"

end
