(* ===== verification/SchemaCompare.thy ===== *)
theory SchemaCompare
  imports SchemaValidate
begin

text \<open>
  The changes that turn one schema into another (\<open>compare\<close>, \<open>Schema::compare\<close>,
  \<open>Schema::zip_matching\<close> and \<open>Schema::copy_keys_from\<close> in \<open>ObjectStore/src/schema.cpp\<close>).

  A change holds pointers to object types and properties; the model holds the values.
\<close>

datatype schema_change =
    AddTable object_schema
  | RemoveTable object_schema
  | AddInitialProperties object_schema
  | AddProperty object_schema property
  | RemoveProperty object_schema property
  | ChangePropertyType object_schema property property
  | MakePropertyNullable object_schema property
  | MakePropertyRequired object_schema property
  | AddIndex object_schema property
  | RemoveIndex object_schema property
  | ChangePrimaryKey object_schema "property option"

section \<open>Comparing object types\<close>

definition compare_property :: "object_schema \<Rightarrow> object_schema \<Rightarrow> property \<Rightarrow> schema_change list" where
  "compare_property existing target p =
     (case property_for_name target (Data (p_name p)) of
        None \<Rightarrow> [RemoveProperty existing p]
      | Some q \<Rightarrow>
          if property_is_computed target q then [RemoveProperty existing p]
          else if \<not> pt_eq (p_type p) (p_type q) \<or> p_object_type p \<noteq> p_object_type q \<or>
                  is_array (p_type p) \<noteq> is_array (p_type q)
          then [ChangePropertyType existing p q]
          else (if is_nullable (p_type p) \<noteq> is_nullable (p_type q)
                then if is_nullable (p_type p) then [MakePropertyRequired existing p]
                     else [MakePropertyNullable existing p]
                else []) @
               (if requires_index q then if \<not> p_is_indexed p then [AddIndex existing p] else []
                else if requires_index p then [RemoveIndex existing p] else []))"

definition compare_object :: "object_schema \<Rightarrow> object_schema \<Rightarrow> schema_change list" where
  "compare_object existing target =
     concat (map (compare_property existing target) (o_persisted existing)) @
     concat (map (\<lambda>q. if property_for_name existing (Data (p_name q)) = None
                      then [AddProperty existing q] else []) (o_persisted target)) @
     (if o_primary_key existing \<noteq> o_primary_key target
      then [ChangePrimaryKey existing (primary_key_property target)] else [])"

section \<open>Comparing schemas\<close>

fun zip_matching ::
  "object_schema list \<Rightarrow> object_schema list \<Rightarrow> (object_schema option \<times> object_schema option) list" where
  "zip_matching (a # as) (b # bs) =
     (if o_name a = o_name b then (Some a, Some b) # zip_matching as bs
      else if o_name a < o_name b then (Some a, None) # zip_matching as (b # bs)
      else (None, Some b) # zip_matching (a # as) bs)"
| "zip_matching as [] = map (\<lambda>a. (Some a, None)) as"
| "zip_matching [] bs = map (\<lambda>b. (None, Some b)) bs"

definition table_changes :: "bool \<Rightarrow> object_schema option \<times> object_schema option \<Rightarrow> schema_change list" where
  "table_changes include_removals pair =
     (case pair of
        (Some target, None) \<Rightarrow> [AddTable target]
      | (None, Some existing) \<Rightarrow> if include_removals then [RemoveTable existing] else []
      | _ \<Rightarrow> [])"

definition column_changes :: "object_schema option \<times> object_schema option \<Rightarrow> schema_change list" where
  "column_changes pair =
     (case pair of
        (Some target, Some existing) \<Rightarrow> compare_object existing target
      | (Some target, None) \<Rightarrow> [AddInitialProperties target]
      | _ \<Rightarrow> [])"

definition schema_compare :: "schema \<Rightarrow> schema \<Rightarrow> bool \<Rightarrow> schema_change list" where
  "schema_compare existing target include_removals =
     concat (map (table_changes include_removals) (zip_matching target existing)) @
     concat (map column_changes (zip_matching target existing))"

text \<open>Copying the keys: every property of the other type gives its key to the one of its name.\<close>

definition copy_object_keys :: "object_schema \<Rightarrow> object_schema \<Rightarrow> object_schema" where
  "copy_object_keys existing other =
     fold (\<lambda>p. update_property (\<lambda>q. q\<lparr>p_column_key := p_column_key p\<rparr>) (p_name p)) (o_persisted other)
       (existing\<lparr>o_table_key := o_table_key other\<rparr>)"

definition copy_keys_from :: "schema \<Rightarrow> schema \<Rightarrow> schema" where
  "copy_keys_from s other =
     concat (map (\<lambda>pair. case pair of
        (Some existing, Some other) \<Rightarrow> [copy_object_keys existing other]
      | (Some existing, None) \<Rightarrow> [existing]
      | (None, _) \<Rightarrow> []) (zip_matching s other))"

section \<open>What a zip pairs\<close>

definition strictly_sorted :: "schema \<Rightarrow> bool" where
  "strictly_sorted s \<longleftrightarrow> sorted_wrt (<) (map o_name s)"

lemma strictly_sorted_Cons [simp]:
  "strictly_sorted (os # s) \<longleftrightarrow> (\<forall>t \<in> set s. o_name os < o_name t) \<and> strictly_sorted s"
  by (auto simp: strictly_sorted_def)

lemma strictly_sorted_new:
  assumes "distinct (map o_name types)"
  shows "strictly_sorted (schema_new types)"
proof -
  from assms have "distinct (map o_name (schema_new types))"
    by (simp add: schema_new_def distinct_map)
  then show ?thesis
    by (simp add: strictly_sorted_def strict_sorted_iff schema_new_def)
qed

definition pair_name :: "object_schema option \<times> object_schema option \<Rightarrow> string" where
  "pair_name pair = (case pair of (Some a, _) \<Rightarrow> o_name a | (None, Some b) \<Rightarrow> o_name b | (None, None) \<Rightarrow> [])"

lemma pair_name_simps [simp]:
  "pair_name (Some a, x) = o_name a" "pair_name (None, Some b) = o_name b"
  by (simp_all add: pair_name_def)

definition named :: "schema \<Rightarrow> string \<Rightarrow> object_schema option" where
  "named s nm = find (\<lambda>os. o_name os = nm) s"

lemma named_Nil [simp]: "named [] nm = None"
  by (simp add: named_def)

lemma named_Cons [simp]: "named (os # s) nm = (if o_name os = nm then Some os else named s nm)"
  by (simp add: named_def)

lemma named_None_iff: "named s nm = None \<longleftrightarrow> nm \<notin> o_name ` set s"
  by (auto simp: named_def find_None_iff)

lemma named_SomeD: "named s nm = Some os \<Longrightarrow> os \<in> set s \<and> o_name os = nm"
  by (auto simp: named_def find_Some_iff)

lemma zip_name_set: "pair_name ` set (zip_matching as bs) = o_name ` set as \<union> o_name ` set bs"
  by (induction as bs rule: zip_matching.induct) (auto simp: image_image)

lemma zip_sorted:
  "strictly_sorted as \<Longrightarrow> strictly_sorted bs \<Longrightarrow> sorted_wrt (<) (map pair_name (zip_matching as bs))"
proof (induction as bs rule: zip_matching.induct)
  case (1 a as b bs)
  have step: "sorted_wrt (<) (map pair_name (pair # zip_matching xs ys))"
    if "sorted_wrt (<) (map pair_name (zip_matching xs ys))"
      and "\<forall>n \<in> o_name ` set xs \<union> o_name ` set ys. pair_name pair < n" for pair xs ys
    using that by (auto simp flip: zip_name_set)
  consider "o_name a = o_name b" | "o_name a < o_name b" | "o_name b < o_name a"
    by fastforce
  then show ?case
  proof cases
    case eq: 1
    then have "zip_matching (a # as) (b # bs) = (Some a, Some b) # zip_matching as bs"
      by simp
    moreover have "sorted_wrt (<) (map pair_name ((Some a, Some b) # zip_matching as bs))"
      using "1.prems" "1.IH"(1) eq by (intro step) auto
    ultimately show ?thesis
      by argo
  next
    case less: 2
    then have "o_name a \<noteq> o_name b"
      by auto
    with less have "zip_matching (a # as) (b # bs) = (Some a, None) # zip_matching as (b # bs)"
      by simp
    moreover have "sorted_wrt (<) (map pair_name ((Some a, None) # zip_matching as (b # bs)))"
      using "1.prems" "1.IH"(2) less
      by (intro step) (auto intro: order.strict_trans)
    ultimately show ?thesis
      by argo
  next
    case greater: 3
    then have not_le: "o_name a \<noteq> o_name b" "\<not> o_name a < o_name b"
      by auto
    then have "zip_matching (a # as) (b # bs) = (None, Some b) # zip_matching (a # as) bs"
      by simp
    moreover have "sorted_wrt (<) (map pair_name ((None, Some b) # zip_matching (a # as) bs))"
      using "1.prems" "1.IH"(3) greater not_le
      by (intro step) (auto intro: order.strict_trans)
    ultimately show ?thesis
      by argo
  qed
qed (auto simp: strictly_sorted_def sorted_wrt_map comp_def)

lemma zip_distinct:
  "strictly_sorted as \<Longrightarrow> strictly_sorted bs \<Longrightarrow> distinct (map pair_name (zip_matching as bs))"
  using zip_sorted strict_sorted_iff by blast

text \<open>Each name is paired with what it names on either side.\<close>

lemma named_before: "strictly_sorted s \<Longrightarrow> \<forall>t \<in> set s. nm < o_name t \<Longrightarrow> named s nm = None"
  by (auto simp: named_None_iff)

lemma zip_pairs:
  "strictly_sorted as \<Longrightarrow> strictly_sorted bs \<Longrightarrow> pair \<in> set (zip_matching as bs) \<Longrightarrow>
     pair = (named as (pair_name pair), named bs (pair_name pair))"
proof (induction as bs rule: zip_matching.induct)
  case (1 a as b bs)
  have names: "n \<in> pair_name ` set (zip_matching xs ys) \<Longrightarrow> n \<in> o_name ` set xs \<union> o_name ` set ys" for n xs ys
    by (simp only: zip_name_set)
  consider "o_name a = o_name b" | "o_name a < o_name b" | "o_name b < o_name a"
    by fastforce
  then show ?case
  proof cases
    case eq: 1
    with "1.prems" consider "pair = (Some a, Some b)" | "pair \<in> set (zip_matching as bs)"
      by auto
    then show ?thesis
    proof cases
      case 2
      then have "pair_name pair \<noteq> o_name a"
        using names [of "pair_name pair" as bs] "1.prems" eq by auto
      with 2 "1.IH"(1) [OF eq] "1.prems" eq show ?thesis
        by auto
    qed (use eq in \<open>simp\<close>)
  next
    case less: 2
    with "1.prems" consider "pair = (Some a, None)" | "pair \<in> set (zip_matching as (b # bs))"
      by (auto split: if_splits)
    then show ?thesis
    proof cases
      case 1
      have "named (b # bs) (o_name a) = None"
        using "1.prems" less by (intro named_before) (auto intro: order.strict_trans)
      with 1 show ?thesis
        by (simp)
    next
      case 2
      then have "pair_name pair \<noteq> o_name a"
        using names [of "pair_name pair" as "b # bs"] "1.prems" less by (auto dest: order.strict_trans)
      with 2 "1.IH"(2) less "1.prems" show ?thesis
        by auto
    qed
  next
    case greater: 3
    with "1.prems" consider "pair = (None, Some b)" | "pair \<in> set (zip_matching (a # as) bs)"
      by (auto simp: less_not_sym split: if_splits)
    then show ?thesis
    proof cases
      case 1
      have "named (a # as) (o_name b) = None"
        using "1.prems" greater by (intro named_before) (auto intro: order.strict_trans)
      with 1 show ?thesis
        by (simp)
    next
      case 2
      then have "pair_name pair \<noteq> o_name b"
        using names [of "pair_name pair" "a # as" bs] "1.prems" greater by (auto dest: order.strict_trans)
      with 2 "1.IH"(3) greater "1.prems" show ?thesis
        by (auto simp: less_not_sym)
    qed
  qed
next
  case (2 as)
  then show ?case
    by (auto) (induction as, auto)
next
  case (3 b bs)
  then show ?case
    by (auto) (induction bs, auto)
qed

end
