(* ===== verification/SchemaApply.thy ===== *)
theory SchemaApply
  imports SchemaCompare
begin

text \<open>
  What a schema change means, on a schema seen as a map from type names to a primary key and typed
  columns, and the theorem that applying the changes of \<open>Schema::compare\<close> to the existing schema
  gives the target schema.
\<close>

type_synonym column = "ptype \<times> string \<times> bool"
type_synonym table = "string \<times> (string \<rightharpoonup> column)"
type_synonym tables = "string \<rightharpoonup> table"

definition column_of :: "property \<Rightarrow> column" where
  "column_of p = (p_type p, p_object_type p, requires_index p)"

definition columns_of :: "property list \<Rightarrow> string \<rightharpoonup> column" where
  "columns_of ps = map_of (map (\<lambda>p. (p_name p, column_of p)) ps)"

definition table_of :: "object_schema \<Rightarrow> table" where
  "table_of os = (o_primary_key os, columns_of (o_persisted os))"

definition tables_of :: "schema \<Rightarrow> tables" where
  "tables_of s nm = map_option table_of (named s nm)"

section \<open>The meaning of a change\<close>

definition on_column :: "string \<Rightarrow> (column \<Rightarrow> column) \<Rightarrow> table \<Rightarrow> table" where
  "on_column nm f t = (fst t, (snd t)(nm := map_option f (snd t nm)))"

fun change_table :: "schema_change \<Rightarrow> table \<Rightarrow> table" where
  "change_table (AddInitialProperties os) (pk, cols) = (pk, cols ++ columns_of (o_persisted os))"
| "change_table (AddProperty _ p) (pk, cols) = (pk, cols(p_name p \<mapsto> column_of p))"
| "change_table (RemoveProperty _ p) (pk, cols) = (pk, cols(p_name p := None))"
| "change_table (ChangePropertyType _ p q) (pk, cols) = (pk, cols(p_name p := None, p_name q \<mapsto> column_of q))"
| "change_table (MakePropertyNullable _ p) t = on_column (p_name p) (\<lambda>(ty, x). (ty OR pt_Nullable, x)) t"
| "change_table (MakePropertyRequired _ p) t = on_column (p_name p) (\<lambda>(ty, x). (ty AND NOT pt_Nullable, x)) t"
| "change_table (AddIndex _ p) t = on_column (p_name p) (\<lambda>(ty, obj, _). (ty, obj, True)) t"
| "change_table (RemoveIndex _ p) t = on_column (p_name p) (\<lambda>(ty, obj, _). (ty, obj, False)) t"
| "change_table (ChangePrimaryKey _ q) (pk, cols) = (case q of None \<Rightarrow> [] | Some q \<Rightarrow> p_name q, cols)"
| "change_table _ t = t"

fun changed_object :: "schema_change \<Rightarrow> object_schema" where
  "changed_object (AddTable os) = os"
| "changed_object (RemoveTable os) = os"
| "changed_object (AddInitialProperties os) = os"
| "changed_object (AddProperty os _) = os"
| "changed_object (RemoveProperty os _) = os"
| "changed_object (ChangePropertyType os _ _) = os"
| "changed_object (MakePropertyNullable os _) = os"
| "changed_object (MakePropertyRequired os _) = os"
| "changed_object (AddIndex os _) = os"
| "changed_object (RemoveIndex os _) = os"
| "changed_object (ChangePrimaryKey os _) = os"

definition apply_change :: "schema_change \<Rightarrow> tables \<Rightarrow> tables" where
  "apply_change c m =
     (let nm = o_name (changed_object c) in
      case c of
        AddTable os \<Rightarrow> m(nm \<mapsto> (o_primary_key os, Map.empty))
      | RemoveTable os \<Rightarrow> m(nm := None)
      | _ \<Rightarrow> m(nm := map_option (change_table c) (m nm)))"

section \<open>One column\<close>

lemma nullable_flag [simp]:
  "pt_eq (a OR pt_Nullable) b \<longleftrightarrow> pt_eq a b" "is_array (a OR pt_Nullable) = is_array a" "is_nullable (a OR pt_Nullable)"
  "pt_eq (a AND NOT pt_Nullable) b \<longleftrightarrow> pt_eq a b" "is_array (a AND NOT pt_Nullable) = is_array a"
  "\<not> is_nullable (a AND NOT pt_Nullable)"
proof -
  have "base_type (a OR pt_Nullable) = base_type a" "base_type (a AND NOT pt_Nullable) = base_type a"
    by (rule bit_word_eqI; auto simp: base_type_bit bit_simps)+
  then show "pt_eq (a OR pt_Nullable) b \<longleftrightarrow> pt_eq a b" "pt_eq (a AND NOT pt_Nullable) b \<longleftrightarrow> pt_eq a b"
    by (simp_all add: pt_eq_def)
qed (auto simp: is_array_bit is_nullable_bit bit_simps)

lemma ptype_set_nullable:
  "pt_eq a b \<Longrightarrow> is_array a = is_array b \<Longrightarrow> is_nullable b \<Longrightarrow> a OR pt_Nullable = b"
  by (rule ptype_eqI) simp_all

lemma ptype_clear_nullable:
  "pt_eq a b \<Longrightarrow> is_array a = is_array b \<Longrightarrow> \<not> is_nullable b \<Longrightarrow> a AND NOT pt_Nullable = b"
  by (rule ptype_eqI) simp_all

lemma columns_of_None_iff: "columns_of ps nm = None \<longleftrightarrow> nm \<notin> p_name ` set ps"
  by (force simp: columns_of_def map_of_eq_None_iff image_iff)

lemma columns_of_unique: "distinct (map p_name ps) \<Longrightarrow> p \<in> set ps \<Longrightarrow> columns_of ps (p_name p) = Some (column_of p)"
  unfolding columns_of_def by (intro map_of_is_SomeI) (auto simp: comp_def)

lemma change_tables_append: "fold change_table (cs @ ds) t = fold change_table ds (fold change_table cs t)"
  by simp

text \<open>The changes of one property give its column the shape it has in the target, or remove it.\<close>

lemma compare_property_applies:
  assumes target: "distinct (property_names target)" and p: "cols (p_name p) = Some (column_of p)"
  shows "fold change_table (compare_property existing target p) (pk, cols) =
    (pk, cols(p_name p := columns_of (o_persisted target) (p_name p)))"
proof (cases "property_for_name target (Data (p_name p))")
  case None
  then have "columns_of (o_persisted target) (p_name p) = None"
    by (auto simp: property_for_name_None columns_of_None_iff property_names_def)
  with None show ?thesis
    by (simp add: compare_property_def)
next
  case (Some q)
  then have q: "p_name q = p_name p" "q \<in> set (o_persisted target) \<or> q \<in> set (o_computed target)"
    using property_for_name_SomeD by blast+
  have names: "distinct (map p_name (o_persisted target))"
    "p_name ` set (o_persisted target) \<inter> p_name ` set (o_computed target) = {}"
    using target by (auto simp: property_names_def)
  show ?thesis
  proof (cases "q \<in> set (o_computed target)")
    case True
    then have "property_is_computed target q"
      by (auto simp: property_is_computed_def property_eq_def)
    moreover have "columns_of (o_persisted target) (p_name p) = None"
      using names(2) True q(1) unfolding columns_of_None_iff by (metis disjoint_iff imageI)
    ultimately show ?thesis
      by (simp add: compare_property_def Some)
  next
    case False
    with q have persisted: "q \<in> set (o_persisted target)"
      by simp
    with names(2) have "\<not> property_is_computed target q"
      by (auto simp: property_is_computed_def property_eq_def)
    moreover have "columns_of (o_persisted target) (p_name p) = Some (column_of q)"
      using columns_of_unique [OF names(1) persisted] q(1) by simp
    moreover have "p_type p = p_type q" if "pt_eq (p_type p) (p_type q)" "is_array (p_type p) = is_array (p_type q)"
      "is_nullable (p_type p) = is_nullable (p_type q)"
      using that by (rule ptype_eqI)
    moreover have "fold change_table
        ((if is_nullable (p_type p) \<noteq> is_nullable (p_type q)
          then if is_nullable (p_type p) then [MakePropertyRequired existing p] else [MakePropertyNullable existing p]
          else []) @
         (if requires_index q then if \<not> p_is_indexed p then [AddIndex existing p] else []
          else if requires_index p then [RemoveIndex existing p] else [])) (pk, cols) =
        (pk, cols(p_name p \<mapsto> column_of q))"
      if same: "pt_eq (p_type p) (p_type q)" "is_array (p_type p) = is_array (p_type q)"
        "p_object_type p = p_object_type q"
    proof -
      define cols' where "cols' = cols(p_name p \<mapsto> (p_type q, p_object_type q, requires_index p))"
      have "fold change_table (if is_nullable (p_type p) \<noteq> is_nullable (p_type q)
          then if is_nullable (p_type p) then [MakePropertyRequired existing p] else [MakePropertyNullable existing p]
          else []) (pk, cols) = (pk, cols')"
        using p same ptype_eqI [OF same(1,2)] unfolding cols'_def
        by (simp add: on_column_def column_of_def ptype_set_nullable ptype_clear_nullable fun_upd_idem)
      moreover have "fold change_table (if requires_index q then if \<not> p_is_indexed p then [AddIndex existing p] else []
          else if requires_index p then [RemoveIndex existing p] else []) (pk, cols') =
          (pk, cols(p_name p \<mapsto> column_of q))"
        by (simp add: on_column_def column_of_def cols'_def) (simp add: requires_index_def)
      ultimately show ?thesis
        by simp
    qed
    ultimately show ?thesis
      using q(1) by (simp add: compare_property_def Some)
  qed
qed

lemma compare_properties_apply:
  assumes "distinct (property_names target)" "distinct (map p_name ps)"
    and "\<forall>p \<in> set ps. cols (p_name p) = Some (column_of p)"
  shows "fold change_table (concat (map (compare_property existing target) ps)) (pk, cols) =
    (pk, \<lambda>n. if n \<in> p_name ` set ps then columns_of (o_persisted target) n else cols n)"
  using assms(2,3)
proof (induction ps arbitrary: cols)
  case (Cons p ps)
  define cols' where "cols' = cols(p_name p := columns_of (o_persisted target) (p_name p))"
  have other: "p_name q \<noteq> p_name p" if "q \<in> set ps" for q
    using Cons.prems(1) that by (metis distinct.simps(2) imageI list.set_map list.simps(9))
  then have "\<forall>q \<in> set ps. cols' (p_name q) = Some (column_of q)"
    using Cons.prems by (auto simp: cols'_def)
  then have "fold change_table (concat (map (compare_property existing target) (p # ps))) (pk, cols) =
      (pk, \<lambda>n. if n \<in> p_name ` set ps then columns_of (o_persisted target) n else cols' n)"
    using Cons by (simp add: compare_property_applies [OF assms(1)] flip: cols'_def)
  also have "(\<lambda>n. if n \<in> p_name ` set ps then columns_of (o_persisted target) n else cols' n) =
      (\<lambda>n. if n \<in> p_name ` set (p # ps) then columns_of (o_persisted target) n else cols n)"
    by (auto simp: cols'_def fun_eq_iff)
  finally show ?case .
qed simp

lemma add_properties_apply:
  "fold change_table (concat (map (\<lambda>q. if P q then [AddProperty existing q] else []) qs)) (pk, cols) =
     (pk, cols ++ columns_of (rev (filter P qs)))"
proof (induction qs arbitrary: cols)
  case (Cons q qs)
  then show ?case
    by (auto simp: columns_of_def fun_upd_def map_add_def fun_eq_iff split: option.splits)
qed (simp add: columns_of_def)

text \<open>A type that can be the target: its names are unique, and its primary key is a property.\<close>

definition target_wf :: "object_schema \<Rightarrow> bool" where
  "target_wf os \<longleftrightarrow> distinct (property_names os) \<and>
     (o_primary_key os \<noteq> [] \<longrightarrow> o_primary_key os \<in> set (property_names os))"

text \<open>A type read from a file: unique names, and nothing computed.\<close>

definition existing_wf :: "object_schema \<Rightarrow> bool" where
  "existing_wf os \<longleftrightarrow> distinct (map p_name (o_persisted os)) \<and> o_computed os = []"

lemma columns_of_rev_filter:
  "distinct (map p_name ps) \<Longrightarrow>
     columns_of (rev (filter P ps)) n = (if \<exists>p \<in> set ps. p_name p = n \<and> P p then columns_of ps n else None)"
proof (induction ps)
  case (Cons p ps)
  then show ?case
    by (auto simp: columns_of_def map_of_eq_None_iff map_add_def image_iff split: option.splits)
qed (simp add: columns_of_def)

lemma compare_object_applies:
  assumes "existing_wf existing" "target_wf target"
  shows "fold change_table (compare_object existing target) (table_of existing) = table_of target"
proof -
  define cols where "cols = (\<lambda>n. if n \<in> p_name ` set (o_persisted existing)
    then columns_of (o_persisted target) n else columns_of (o_persisted existing) n)"
  have names: "distinct (map p_name (o_persisted target))"
    using assms(2) by (simp add: target_wf_def property_names_def)
  have kept: "fold change_table (concat (map (compare_property existing target) (o_persisted existing)))
      (table_of existing) = (o_primary_key existing, cols)"
    using assms compare_properties_apply [of target "o_persisted existing" "columns_of (o_persisted existing)"]
    by (simp add: table_of_def cols_def existing_wf_def target_wf_def columns_of_unique)
  have new: "property_for_name existing (Data n) = None \<longleftrightarrow> n \<notin> p_name ` set (o_persisted existing)" for n
    using assms(1) by (simp add: property_for_name_None property_names_def existing_wf_def)
  have "cols ++ columns_of (rev (filter (\<lambda>q. property_for_name existing (Data (p_name q)) = None)
      (o_persisted target))) = columns_of (o_persisted target)"
  proof
    fix n
    show "(cols ++ columns_of (rev (filter (\<lambda>q. property_for_name existing (Data (p_name q)) = None)
        (o_persisted target)))) n = columns_of (o_persisted target) n"
    proof (cases "n \<in> p_name ` set (o_persisted existing)")
      case True
      then show ?thesis
        by (auto simp: map_add_def columns_of_rev_filter [OF names] new cols_def split: option.splits)
    next
      case False
      then have "cols n = None"
        by (simp add: cols_def columns_of_None_iff)
      moreover have "columns_of (o_persisted target) n \<noteq> None \<Longrightarrow>
          \<exists>q \<in> set (o_persisted target). p_name q = n \<and> p_name q \<notin> p_name ` set (o_persisted existing)"
        using False by (auto simp: columns_of_None_iff)
      ultimately show ?thesis
        by (cases "columns_of (o_persisted target) n")
          (auto simp: map_add_def columns_of_rev_filter [OF names] new split: option.splits)
    qed
  qed
  moreover have "(case primary_key_property target of None \<Rightarrow> [] | Some q \<Rightarrow> p_name q) = o_primary_key target"
  proof (cases "primary_key_property target")
    case None
    with assms(2) have "o_primary_key target = []"
      by (auto simp: primary_key_property_def property_for_name_None target_wf_def)
    with None show ?thesis
      by simp
  next
    case (Some q)
    then show ?thesis
      using property_for_name_SomeD by (simp add: primary_key_property_def)
  qed
  ultimately show ?thesis
    unfolding compare_object_def change_tables_append kept add_properties_apply
    by (simp add: table_of_def)
qed

section \<open>The whole schema\<close>

text \<open>
  A list of pairs with different names, each of which contributes changes of the type it names
  alone: applying them gives each pair its own result.
\<close>

lemma find_unique: "distinct (map f xs) \<Longrightarrow> x \<in> set xs \<Longrightarrow> find (\<lambda>y. f y = f x) xs = Some x"
  by (induction xs) (auto simp: image_iff)

lemma fold_pairs:
  assumes "distinct (map pair_name pairs)"
    and "\<And>pair m. pair \<in> set pairs \<Longrightarrow> m (pair_name pair) = before pair \<Longrightarrow>
      fold apply_change (f pair) m = m(pair_name pair := after pair)"
    and "\<And>pair. pair \<in> set pairs \<Longrightarrow> m (pair_name pair) = before pair"
  shows "fold apply_change (concat (map f pairs)) m =
    (\<lambda>nm. case find (\<lambda>pair. pair_name pair = nm) pairs of None \<Rightarrow> m nm | Some pair \<Rightarrow> after pair)"
  using assms
proof (induction pairs arbitrary: m)
  case (Cons pair pairs)
  define m' where "m' = m(pair_name pair := after pair)"
  have head: "fold apply_change (f pair) m = m'"
    unfolding m'_def by (rule Cons.prems) (auto intro: Cons.prems)
  have "fold apply_change (concat (map f pairs)) m' =
      (\<lambda>nm. case find (\<lambda>pair. pair_name pair = nm) pairs of None \<Rightarrow> m' nm | Some pair \<Rightarrow> after pair)"
  proof (rule Cons.IH)
    fix p assume p: "p \<in> set pairs"
    with Cons.prems(1) have "pair_name p \<noteq> pair_name pair"
      by (metis distinct.simps(2) imageI list.set_map list.simps(9))
    with p Cons.prems(3) show "m' (pair_name p) = before p"
      by (simp add: m'_def)
  qed (use Cons.prems in auto)
  moreover have "find (\<lambda>p. pair_name p = pair_name pair) pairs = None"
    unfolding find_None_iff
    using Cons.prems(1) by (metis distinct.simps(2) imageI list.set_map list.simps(9))
  ultimately show ?case
    by (auto simp: head m'_def fun_eq_iff split: option.splits)
qed simp

lemma find_pair:
  assumes "strictly_sorted as" "strictly_sorted bs"
  shows "find (\<lambda>pair. pair_name pair = nm) (zip_matching as bs) =
    (if named as nm = None \<and> named bs nm = None then None else Some (named as nm, named bs nm))"
proof (cases "find (\<lambda>pair. pair_name pair = nm) (zip_matching as bs)")
  case None
  then have "nm \<notin> pair_name ` set (zip_matching as bs)"
    by (auto simp: find_None_iff)
  with None show ?thesis
    unfolding zip_name_set by (simp add: named_None_iff)
next
  case (Some pair)
  then have pair: "pair \<in> set (zip_matching as bs)" "pair_name pair = nm"
    by (auto simp: find_Some_iff)
  then have "nm \<in> o_name ` set as \<union> o_name ` set bs"
    using zip_name_set by blast
  with Some zip_pairs [OF assms pair(1)] pair(2) show ?thesis
    by (auto simp: named_None_iff)
qed

lemma apply_table_changes:
  assumes "cs \<noteq> [] \<Longrightarrow> m nm = Some t"
    and "\<forall>c \<in> set cs. o_name (changed_object c) = nm \<and> \<not> (\<exists>os. c = AddTable os \<or> c = RemoveTable os)"
  shows "fold apply_change cs m = (if cs = [] then m else m(nm \<mapsto> fold change_table cs t))"
  using assms
proof (induction cs arbitrary: m t)
  case (Cons c cs)
  then have "apply_change c m = m(nm \<mapsto> change_table c t)"
    by (cases c) (auto simp: apply_change_def)
  with Cons show ?case
    by (cases "cs = []") (auto simp: fun_eq_iff)
qed simp

lemma compare_object_changes:
  assumes "c \<in> set (compare_object existing target)"
  shows "o_name (changed_object c) = o_name existing \<and> \<not> (\<exists>os. c = AddTable os \<or> c = RemoveTable os)"
proof -
  have "o_name (changed_object c) = o_name existing \<and> \<not> (\<exists>os. c = AddTable os \<or> c = RemoveTable os)"
    if "c \<in> set (compare_property existing target p)" for p
    using that by (auto simp: compare_property_def split: option.splits if_splits)
  with assms show ?thesis
    by (auto simp: compare_object_def split: if_splits)
qed

text \<open>What the two passes over the pairs make of the table of a pair.\<close>

definition after_tables :: "bool \<Rightarrow> object_schema option \<times> object_schema option \<Rightarrow> table option" where
  "after_tables include_removals pair =
     (case pair of
        (Some target, None) \<Rightarrow> Some (o_primary_key target, Map.empty)
      | (None, Some existing) \<Rightarrow> if include_removals then None else Some (table_of existing)
      | (_, existing) \<Rightarrow> map_option table_of existing)"

definition after_columns :: "bool \<Rightarrow> object_schema option \<times> object_schema option \<Rightarrow> table option" where
  "after_columns include_removals pair =
     (case pair of
        (Some target, _) \<Rightarrow> Some (table_of target)
      | (None, existing) \<Rightarrow> if include_removals then None else map_option table_of existing)"

lemma table_pass:
  assumes "m (pair_name pair) = map_option table_of (snd pair)"
  shows "fold apply_change (table_changes rm pair) m = m(pair_name pair := after_tables rm pair)"
proof -
  obtain t e where "pair = (t, e)"
    by (cases pair)
  with assms show ?thesis
    by (cases t; cases e) (simp_all add: table_changes_def after_tables_def apply_change_def fun_upd_idem)
qed

lemma column_pass:
  assumes "\<And>os. fst pair = Some os \<Longrightarrow> target_wf os" "\<And>os. snd pair = Some os \<Longrightarrow> existing_wf os"
    and names: "\<And>os. fst pair = Some os \<Longrightarrow> o_name os = pair_name pair" "\<And>os. snd pair = Some os \<Longrightarrow> o_name os = pair_name pair"
    and m: "m (pair_name pair) = after_tables rm pair"
  shows "fold apply_change (column_changes pair) m = m(pair_name pair := after_columns rm pair)"
proof (cases "fst pair")
  case None
  then have "m(pair_name pair := after_columns rm pair) = m"
    using m by (cases pair) (auto simp: after_tables_def after_columns_def fun_upd_idem_iff split: option.splits)
  moreover have "column_changes pair = []"
    using None by (cases pair) (simp add: column_changes_def)
  ultimately show ?thesis
    by simp
next
  case target: (Some target)
  show ?thesis
  proof (cases "snd pair")
    case None
    with target have pair: "pair = (Some target, None)"
      by (cases pair) simp
    with m show ?thesis
      by (simp add: after_tables_def after_columns_def column_changes_def apply_change_def table_of_def)
  next
    case (Some existing)
    define cs where "cs = compare_object existing target"
    have pair: "pair = (Some target, Some existing)"
      using target Some by (cases pair) simp
    have old: "m (pair_name pair) = Some (table_of existing)"
      using m by (simp add: pair after_tables_def)
    have new: "fold change_table cs (table_of existing) = table_of target"
      unfolding cs_def by (rule compare_object_applies) (use assms(1,2) pair in simp_all)
    have "fold apply_change cs m = (if cs = [] then m else m(pair_name pair \<mapsto> fold change_table cs (table_of existing)))"
    proof (rule apply_table_changes)
      show "\<forall>c \<in> set cs. o_name (changed_object c) = pair_name pair \<and>
          \<not> (\<exists>os. c = AddTable os \<or> c = RemoveTable os)"
        using compare_object_changes [of _ existing target] names(2) [of existing]
        unfolding cs_def pair by simp
    qed (rule old)
    with new old show ?thesis
      by (cases "cs = []") (auto simp: pair column_changes_def after_columns_def simp flip: cs_def)
  qed
qed

lemma schema_compare_applies:
  assumes sorted: "strictly_sorted existing" "strictly_sorted target"
    and ok: "\<forall>os \<in> set existing. existing_wf os" "\<forall>os \<in> set target. target_wf os"
  shows "fold apply_change (schema_compare existing target rm) (tables_of existing) =
    (if rm then tables_of target else tables_of existing ++ tables_of target)"
proof -
  define pairs where "pairs = zip_matching target existing"
  have pairs: "pair = (named target (pair_name pair), named existing (pair_name pair))" if "pair \<in> set pairs" for pair
    using zip_pairs [OF sorted(2,1)] that unfolding pairs_def by blast
  have distinct: "distinct (map pair_name pairs)"
    unfolding pairs_def by (rule zip_distinct [OF sorted(2,1)])
  define m where "m = (\<lambda>nm. case find (\<lambda>pair. pair_name pair = nm) pairs of
    None \<Rightarrow> tables_of existing nm | Some pair \<Rightarrow> after_tables rm pair)"
  have first: "fold apply_change (concat (map (table_changes rm) pairs)) (tables_of existing) = m"
    unfolding m_def
  proof (rule fold_pairs [OF distinct, where before = "\<lambda>pair. map_option table_of (snd pair)"])
    fix pair m assume "pair \<in> set pairs" "m (pair_name pair) = map_option table_of (snd pair)"
    then show "fold apply_change (table_changes rm pair) m = m(pair_name pair := after_tables rm pair)"
      by (intro table_pass)
  next
    fix pair assume "pair \<in> set pairs"
    then show "tables_of existing (pair_name pair) = map_option table_of (snd pair)"
      using pairs [of pair] by (metis snd_conv tables_of_def)
  qed
  have second: "fold apply_change (concat (map column_changes pairs)) m =
      (\<lambda>nm. case find (\<lambda>pair. pair_name pair = nm) pairs of None \<Rightarrow> m nm | Some pair \<Rightarrow> after_columns rm pair)"
  proof (rule fold_pairs [OF distinct, where before = "after_tables rm"])
    fix pair m assume "pair \<in> set pairs" "m (pair_name pair) = after_tables rm pair"
    moreover from this have "fst pair = named target (pair_name pair)" "snd pair = named existing (pair_name pair)"
      using pairs by (metis fst_conv snd_conv)+
    ultimately show "fold apply_change (column_changes pair) m = m(pair_name pair := after_columns rm pair)"
      using ok by (intro column_pass) (auto dest!: named_SomeD dest: sym)
  next
    fix pair assume pair: "pair \<in> set pairs"
    moreover have "find (\<lambda>p. pair_name p = pair_name pair) pairs = Some pair"
      by (rule find_unique [OF distinct pair])
    ultimately show "m (pair_name pair) = after_tables rm pair"
      by (simp add: m_def)
  qed
  have "fold apply_change (schema_compare existing target rm) (tables_of existing) =
      (\<lambda>nm. case find (\<lambda>pair. pair_name pair = nm) pairs of None \<Rightarrow> m nm | Some pair \<Rightarrow> after_columns rm pair)"
    by (simp add: schema_compare_def first second flip: pairs_def)
  also have "\<dots> = (if rm then tables_of target else tables_of existing ++ tables_of target)"
  proof
    fix nm
    show "(case find (\<lambda>pair. pair_name pair = nm) pairs of None \<Rightarrow> m nm | Some pair \<Rightarrow> after_columns rm pair) =
        (if rm then tables_of target else tables_of existing ++ tables_of target) nm"
      unfolding m_def pairs_def find_pair [OF sorted(2,1)]
      by (cases "named target nm"; cases "named existing nm")
        (simp_all add: tables_of_def after_columns_def map_add_def)
  qed
  finally show ?thesis .
qed

end
