(* ===== verification/SchemaVerify.thy ===== *)
theory SchemaVerify
  imports SchemaApply
begin

text \<open>
  What the object store does with a list of schema changes (\<open>ObjectStore/src/object_store.cpp\<close>):
  explaining the differences and deciding which changes a schema mode permits; and the decision of a realm whether an update of its schema needs a write
  transaction (\<open>Realm::schema_change_needs_write_transaction\<close> in \<open>ObjectStore/src/shared_realm.cpp\<close>).

  The result type of a check is \<open>None\<close> for undefined behaviour, an error for a thrown exception,
  or a value.
\<close>

datatype difference_message =
    Class_added
  | Class_removed
  | Property_added
  | Property_removed
  | Property_type_changed
  | Property_made_optional
  | Property_made_required
  | Primary_key_changed
  | Primary_key_added
  | Primary_key_removed
  | Property_made_indexed
  | Property_made_unindexed

datatype difference = Difference difference_message "string list"

datatype update_error =
    SchemaMismatch "difference list"
  | InvalidSchemaChange "difference list"
  | InvalidExternalSchemaChange "difference list"
  | InvalidSchemaVersion "64 word" "64 word"

type_synonym explainer = "schema_change \<Rightarrow> difference list option"

section \<open>Explaining a difference\<close>

fun explain :: explainer where
  "explain (AddTable os) = Some [Difference Class_added [o_name os]]"
| "explain (RemoveTable os) = Some []"
| "explain (AddInitialProperties os) = Some []"
| "explain (AddProperty os p) = Some [Difference Property_added [o_name os, p_name p]]"
| "explain (RemoveProperty os p) = Some [Difference Property_removed [o_name os, p_name p]]"
| "explain (ChangePropertyType os old new) = do {
     from_type \<leftarrow> type_string old;
     to_type \<leftarrow> type_string new;
     Some [Difference Property_type_changed [o_name os, p_name new, from_type, to_type]]
   }"
| "explain (MakePropertyNullable os p) = Some [Difference Property_made_optional [o_name os, p_name p]]"
| "explain (MakePropertyRequired os p) = Some [Difference Property_made_required [o_name os, p_name p]]"
| "explain (ChangePrimaryKey os q) =
     (case q of
        Some q \<Rightarrow> if o_primary_key os \<noteq> [] then Some [Difference Primary_key_changed [o_name os, o_primary_key os, p_name q]]
                  else Some [Difference Primary_key_added [o_name os]]
      | None \<Rightarrow> Some [Difference Primary_key_removed [o_name os]])"
| "explain (AddIndex os p) = Some [Difference Property_made_indexed [o_name os, p_name p]]"
| "explain (RemoveIndex os p) = Some [Difference Property_made_unindexed [o_name os, p_name p]]"

fun collect_errors :: "explainer \<Rightarrow> schema_change list \<Rightarrow> difference list option" where
  "collect_errors verifier [] = Some []"
| "collect_errors verifier (c # cs) = do { e1 \<leftarrow> verifier c; e2 \<leftarrow> collect_errors verifier cs; Some (e1 @ e2) }"

definition verify_no_errors ::
  "(difference list \<Rightarrow> update_error) \<Rightarrow> explainer \<Rightarrow> schema_change list \<Rightarrow> (update_error + unit) option" where
  "verify_no_errors error_type verifier changes = do {
     errors \<leftarrow> collect_errors verifier changes;
     Some (if errors \<noteq> [] then Inl (error_type errors) else Inr ())
   }"

section \<open>The verifiers\<close>

fun needs_migration_change :: "schema_change \<Rightarrow> bool" where
  "needs_migration_change (AddIndex _ _) = False"
| "needs_migration_change (AddInitialProperties _) = False"
| "needs_migration_change (AddProperty _ _) = True"
| "needs_migration_change (AddTable _) = False"
| "needs_migration_change (RemoveTable _) = False"
| "needs_migration_change (ChangePrimaryKey _ _) = True"
| "needs_migration_change (ChangePropertyType _ _ _) = True"
| "needs_migration_change (MakePropertyNullable _ _) = True"
| "needs_migration_change (MakePropertyRequired _ _) = True"
| "needs_migration_change (RemoveIndex _ _) = False"
| "needs_migration_change (RemoveProperty _ _) = True"

definition needs_migration :: "schema_change list \<Rightarrow> bool" where
  "needs_migration changes = list_ex needs_migration_change changes"

definition verify_no_changes_required :: "schema_change list \<Rightarrow> (update_error + unit) option" where
  "verify_no_changes_required = verify_no_errors SchemaMismatch explain"

fun explain_migration :: explainer where
  "explain_migration (AddTable _) = Some []"
| "explain_migration (AddInitialProperties _) = Some []"
| "explain_migration (AddIndex _ _) = Some []"
| "explain_migration (RemoveIndex _ _) = Some []"
| "explain_migration c = explain c"

definition verify_no_migration_required :: "schema_change list \<Rightarrow> (update_error + unit) option" where
  "verify_no_migration_required = verify_no_errors SchemaMismatch explain_migration"

fun explain_additive :: explainer where
  "explain_additive (AddTable _) = Some []"
| "explain_additive (AddInitialProperties _) = Some []"
| "explain_additive (AddProperty _ _) = Some []"
| "explain_additive (RemoveProperty _ _) = Some []"
| "explain_additive (AddIndex _ _) = Some []"
| "explain_additive (RemoveIndex _ _) = Some []"
| "explain_additive c = explain c"

fun index_change :: "schema_change \<Rightarrow> bool" where
  "index_change (AddIndex _ _) = True"
| "index_change (RemoveIndex _ _) = True"
| "index_change _ = False"

fun other_change :: "schema_change \<Rightarrow> bool" where
  "other_change (AddTable _) = True"
| "other_change (AddInitialProperties _) = True"
| "other_change (AddProperty _ _) = True"
| "other_change _ = False"

definition verify_valid_additive_changes :: "schema_change list \<Rightarrow> bool \<Rightarrow> (update_error + bool) option" where
  "verify_valid_additive_changes changes update_indexes =
     map_option (map_sum id (\<lambda>_. list_ex other_change changes \<or> list_ex index_change changes \<and> update_indexes))
       (verify_no_errors InvalidSchemaChange explain_additive changes)"

fun explain_external :: explainer where
  "explain_external (AddTable _) = Some []"
| "explain_external (AddInitialProperties _) = Some []"
| "explain_external (AddProperty _ _) = Some []"
| "explain_external (AddIndex _ _) = Some []"
| "explain_external (RemoveIndex _ _) = Some []"
| "explain_external (RemoveTable os) = Some [Difference Class_removed [o_name os]]"
| "explain_external c = explain c"

definition verify_valid_external_changes :: "schema_change list \<Rightarrow> (update_error + unit) option" where
  "verify_valid_external_changes = verify_no_errors InvalidExternalSchemaChange explain_external"

fun explain_readonly :: explainer where
  "explain_readonly (AddTable _) = Some []"
| "explain_readonly (AddInitialProperties _) = Some []"
| "explain_readonly (RemoveProperty _ _) = Some []"
| "explain_readonly (AddIndex _ _) = Some []"
| "explain_readonly (RemoveIndex _ _) = Some []"
| "explain_readonly c = explain c"

definition verify_compatible_for_immutable_and_readonly :: "schema_change list \<Rightarrow> (update_error + unit) option" where
  "verify_compatible_for_immutable_and_readonly = verify_no_errors InvalidSchemaChange explain_readonly"

section \<open>Whether an update needs a write transaction\<close>

datatype schema_mode = Automatic | Immutable | ReadOnlyAlternative | ResetFile | Additive | Manual

definition NotVersioned :: "64 word" where
  "NotVersioned = - 1"

text \<open>What the update goes on to do: nothing, a write transaction, or one after resetting the file.\<close>

datatype decision = No_write | Write | Reset_and_write

definition schema_change_needs_write_transaction ::
  "schema_mode \<Rightarrow> 64 word \<Rightarrow> schema_change list \<Rightarrow> 64 word \<Rightarrow> (update_error + decision) option" where
  "schema_change_needs_write_transaction mode current changes version =
     (if version = current \<and> changes = [] then Some (Inr No_write)
      else case mode of
        Automatic \<Rightarrow>
          if version < current \<and> current \<noteq> NotVersioned then Some (Inl (InvalidSchemaVersion current version))
          else Some (Inr Write)
      | Immutable \<Rightarrow>
          if version \<noteq> current then Some (Inl (InvalidSchemaVersion current version))
          else map_option (map_sum id (\<lambda>_. No_write)) (verify_compatible_for_immutable_and_readonly changes)
      | ReadOnlyAlternative \<Rightarrow>
          map_option (map_sum id (\<lambda>_. No_write)) (verify_compatible_for_immutable_and_readonly changes)
      | ResetFile \<Rightarrow>
          if current = NotVersioned then Some (Inr Write)
          else if current = version \<and> \<not> needs_migration changes then Some (Inr Write)
          else Some (Inr Reset_and_write)
      | Additive \<Rightarrow>
          map_option (map_sum id (\<lambda>write. if write \<or> version \<noteq> current then Write else No_write))
            (verify_valid_additive_changes changes (current < version))
      | Manual \<Rightarrow>
          if version < current \<and> current \<noteq> NotVersioned then Some (Inl (InvalidSchemaVersion current version))
          else if version = current then do {
            r \<leftarrow> verify_no_changes_required changes;
            case r of Inl e \<Rightarrow> Some (Inl e) | Inr _ \<Rightarrow> None
          }
          else Some (Inr Write))"

end
