(* ===== verification/SchemaTyping.thy ===== *)
theory SchemaTyping
  imports SchemaValidate
begin

text \<open>
  A typing discipline for schemas, stated without reference to the checks of the code, and the
  theorem that validation decides it: the exceptions it collects are empty exactly for well-typed
  schemas, and collecting them never runs into undefined behaviour.
\<close>

section \<open>Well-typed schemas\<close>

inductive well_typed :: "schema \<Rightarrow> string \<Rightarrow> property \<Rightarrow> bool" for s oname where
  Value: "\<lbrakk>\<not> pt_eq (p_type p) pt_Object; \<not> pt_eq (p_type p) pt_LinkingObjects;
           p_object_type p = []; p_link_origin p = []\<rbrakk> \<Longrightarrow> well_typed s oname p"
| Link: "\<lbrakk>pt_eq (p_type p) pt_Object; is_array (p_type p) \<noteq> is_nullable (p_type p);
          p_link_origin p = []; target \<in> set s; o_name target = p_object_type p\<rbrakk> \<Longrightarrow> well_typed s oname p"
| Backlink: "\<lbrakk>pt_eq (p_type p) pt_LinkingObjects; is_array (p_type p); \<not> is_nullable (p_type p);
          p_link_origin p \<noteq> []; target \<in> set s; o_name target = p_object_type p;
          property_for_name target (Data (p_link_origin p)) = Some origin;
          pt_eq (p_type origin) pt_Object; p_object_type origin = oname\<rbrakk> \<Longrightarrow> well_typed s oname p"

definition property_ok :: "schema \<Rightarrow> string \<Rightarrow> property \<Rightarrow> bool" where
  "property_ok s oname p \<longleftrightarrow> well_typed s oname p \<and>
     (p_is_primary p \<longrightarrow> pt_eq (p_type p) pt_Int \<or> pt_eq (p_type p) pt_String) \<and>
     (p_is_indexed p \<longrightarrow> type_is_indexable p)"

definition all_properties :: "object_schema \<Rightarrow> property list" where
  "all_properties os = o_persisted os @ o_computed os"

definition aliases :: "object_schema \<Rightarrow> string list" where
  "aliases os = filter (\<lambda>n. n \<noteq> []) (map p_public_name (all_properties os))"

definition object_with :: "(property \<Rightarrow> bool) \<Rightarrow> object_schema \<Rightarrow> bool" where
  "object_with P os \<longleftrightarrow>
     distinct (property_names os) \<and> distinct (aliases os) \<and>
     set (aliases os) \<inter> set (property_names os) = {} \<and>
     (\<forall>p \<in> set (all_properties os). P p) \<and>
     length (filter p_is_primary (all_properties os)) \<le> 1 \<and>
     (o_primary_key os \<noteq> [] \<longrightarrow>
        (\<exists>p \<in> set (all_properties os). p_is_primary p) \<or> o_primary_key os \<in> set (property_names os))"

definition object_ok :: "schema \<Rightarrow> object_schema \<Rightarrow> bool" where
  "object_ok s os \<longleftrightarrow> object_with (property_ok s (o_name os)) os"

definition schema_typed :: "schema \<Rightarrow> bool" where
  "schema_typed s \<longleftrightarrow> distinct (map o_name s) \<and> (\<forall>os \<in> set s. object_ok s os)"

text \<open>The types that occur are values of the enumeration, with flags.\<close>

definition valid_type :: "ptype \<Rightarrow> bool" where
  "valid_type t \<longleftrightarrow> base_type t \<in> {pt_Int, pt_Bool, pt_String, pt_Data, pt_Date, pt_Float, pt_Double,
     pt_Object, pt_LinkingObjects, pt_Any}"

definition valid_types :: "schema \<Rightarrow> bool" where
  "valid_types s \<longleftrightarrow> (\<forall>os \<in> set s. \<forall>p \<in> set (all_properties os). valid_type (p_type p))"

section \<open>Checks that pass exactly under a condition\<close>

definition passes_iff :: "exn list option \<Rightarrow> bool \<Rightarrow> bool" where
  "passes_iff m b \<longleftrightarrow> (\<exists>es. m = Some es \<and> (es = [] \<longleftrightarrow> b))"

named_theorems checks \<open>what each check decides\<close>

lemma passes_raise_if [checks]: "None \<notin> set args \<Longrightarrow> passes_iff (raise_if b msg args) (\<not> b)"
  unfolding passes_iff_def by (rule raise_if_defined)

lemma passes_Some [simp]: "passes_iff (Some []) b \<longleftrightarrow> b"
  by (auto simp: passes_iff_def)

lemma passes_concat_checks:
  "(\<And>x. x \<in> set xs \<Longrightarrow> passes_iff (f x) (P x)) \<Longrightarrow>
     passes_iff (concat_checks (map f xs)) (\<forall>x \<in> set xs. P x)"
proof (induction xs)
  case (Cons x xs)
  then obtain e1 e2 where "f x = Some e1" "e1 = [] \<longleftrightarrow> P x"
    "concat_checks (map f xs) = Some e2" "e2 = [] \<longleftrightarrow> (\<forall>x \<in> set xs. P x)"
    unfolding passes_iff_def by (metis list.set_intros)
  then show ?case
    by (auto simp: passes_iff_def)
qed (auto simp: passes_iff_def)

section \<open>Names of types are defined\<close>

lemma eq_flags_base_type [simp]: "base_type (base_type t) = base_type t" "\<not> is_array (base_type t)"
  by (rule bit_eqI) (auto simp: base_type_bit is_array_bit)

lemma string_for_valid [simp]:
  "valid_type t \<Longrightarrow> None \<noteq> string_for_property_type t"
  "valid_type t \<Longrightarrow> string_for_property_type t \<noteq> None"
proof -
  show *: "valid_type t \<Longrightarrow> None \<noteq> string_for_property_type t"
    unfolding valid_type_def string_for_property_type_def by auto
  then show "valid_type t \<Longrightarrow> string_for_property_type t \<noteq> None"
    by metis
qed

lemma type_string_valid [simp]: "valid_type (p_type p) \<Longrightarrow> None \<noteq> type_string p"
proof -
  assume "valid_type (p_type p)"
  then have "valid_type (base_type (p_type p))"
    by (simp add: valid_type_def)
  then have "string_for_property_type (base_type (p_type p)) \<noteq> None"
    by (rule string_for_valid(2))
  then show ?thesis
    unfolding type_string_def by (auto split: if_splits)
qed

section \<open>One property\<close>

lemma pt_eq_distinct: "pt_eq t pt_Object \<Longrightarrow> \<not> pt_eq t pt_LinkingObjects"
  by (auto simp: pt_eq_def base_type_def pt_base_defs pt_flag_defs)

lemma passes_nullability [checks]:
  "valid_type (p_type p) \<Longrightarrow> passes_iff (check_nullability oname p)
     ((pt_eq (p_type p) pt_Object \<longrightarrow> is_array (p_type p) \<noteq> is_nullable (p_type p)) \<and>
      (pt_eq (p_type p) pt_LinkingObjects \<longrightarrow> \<not> is_nullable (p_type p)))"
  using pt_eq_distinct [of "p_type p"] unfolding check_nullability_def type_is_nullable_def
  by (auto simp: passes_iff_def raise_if_def split: option.splits)

lemma passes_origin_name [checks]:
  "valid_type (p_type p) \<Longrightarrow> passes_iff (check_origin_name oname p)
     (pt_eq (p_type p) pt_LinkingObjects \<longleftrightarrow> p_link_origin p \<noteq> [])"
  unfolding check_origin_name_def
  by (auto simp: passes_iff_def raise_if_def split: option.splits)

lemma passes_origin:
  "passes_iff (check_origin target oname p)
     (\<exists>origin. property_for_name target (Data (p_link_origin p)) = Some origin \<and>
        pt_eq (p_type origin) pt_Object \<and> p_object_type origin = oname)"
  unfolding check_origin_def by (auto simp: passes_iff_def raise_if_def split: option.splits)

lemma passes_target [checks]:
  assumes "valid_type (p_type p)" and "find_sorted s"
  shows "passes_iff (check_target s oname p)
     (if pt_eq (p_type p) pt_Object \<or> pt_eq (p_type p) pt_LinkingObjects
      then \<exists>target. find (\<lambda>os. o_name os = p_object_type p) s = Some target \<and>
             (pt_eq (p_type p) pt_LinkingObjects \<longrightarrow>
                (\<exists>origin. property_for_name target (Data (p_link_origin p)) = Some origin \<and>
                   pt_eq (p_type origin) pt_Object \<and> p_object_type origin = oname))
      else p_object_type p = [])"
proof (cases "pt_eq (p_type p) pt_Object \<or> pt_eq (p_type p) pt_LinkingObjects")
  case False
  then show ?thesis
    using type_string_valid [OF assms(1)]
      passes_raise_if [of "[Some oname, Some (p_name p), type_string p]" "p_object_type p \<noteq> []" Object_type_not_allowed]
    by (simp add: check_target_def passes_iff_def)
next
  case link: True
  show ?thesis
  proof (cases "find (\<lambda>os. o_name os = p_object_type p) s")
    case None
    with assms link show ?thesis
      by (auto simp: check_target_def schema_find_sorted passes_iff_def raise_if_def split: option.splits)
  next
    case (Some target)
    with assms link passes_origin [of target oname p] show ?thesis
      by (auto simp: check_target_def schema_find_sorted)
  qed
qed

text \<open>The property that was primary before is only reported, so what counts is whether there was one.\<close>

definition passes_with :: "(property option \<times> exn list) option \<Rightarrow> bool \<Rightarrow> bool \<Rightarrow> bool" where
  "passes_with m b primary \<longleftrightarrow> (\<exists>q es. m = Some (q, es) \<and> (es = [] \<longleftrightarrow> b) \<and> (q \<noteq> None \<longleftrightarrow> primary))"

lemma passes_iffE:
  assumes "passes_iff m b"
  obtains es where "m = Some es" "es = [] \<longleftrightarrow> b"
  using assms unfolding passes_iff_def by blast

lemma passes_withE:
  assumes "passes_with m b primary"
  obtains q es where "m = Some (q, es)" "es = [] \<longleftrightarrow> b" "q \<noteq> None \<longleftrightarrow> primary"
  using assms unfolding passes_with_def by blast

lemma passes_primary [checks]:
  "valid_type (p_type p) \<Longrightarrow> passes_with (check_primary oname p primary)
     (p_is_primary p \<longrightarrow> (pt_eq (p_type p) pt_Int \<or> pt_eq (p_type p) pt_String) \<and> primary = None)
     (p_is_primary p \<or> primary \<noteq> None)"
  unfolding check_primary_def
  by (auto simp: passes_with_def raise_if_def split: option.splits)

lemma passes_sequence:
  assumes "passes_iff m1 b1" "passes_iff m2 b2" "passes_with m3 b3 q" "passes_iff m4 b4"
    "passes_iff m5 b5" "passes_iff m6 b6"
  shows "passes_with
     (do { e1 \<leftarrow> m1; e2 \<leftarrow> m2; (pr, e3) \<leftarrow> m3; e4 \<leftarrow> m4; e5 \<leftarrow> m5; e6 \<leftarrow> m6;
           Some (pr, e1 @ e2 @ e3 @ e4 @ e5 @ e6) })
     (b1 \<and> b2 \<and> b3 \<and> b4 \<and> b5 \<and> b6) q"
  using assms unfolding passes_iff_def passes_with_def by (elim exE conjE) simp

text \<open>What the checks of one property accept, whether or not the type names are unique.\<close>

definition accepted :: "schema \<Rightarrow> string \<Rightarrow> property \<Rightarrow> bool" where
  "accepted s oname p \<longleftrightarrow>
      (pt_eq (p_type p) pt_LinkingObjects \<longrightarrow> is_array (p_type p)) \<and>
      ((pt_eq (p_type p) pt_Object \<longrightarrow> is_array (p_type p) \<noteq> is_nullable (p_type p)) \<and>
       (pt_eq (p_type p) pt_LinkingObjects \<longrightarrow> \<not> is_nullable (p_type p))) \<and>
      (p_is_primary p \<longrightarrow> pt_eq (p_type p) pt_Int \<or> pt_eq (p_type p) pt_String) \<and>
      (p_is_indexed p \<longrightarrow> type_is_indexable p) \<and>
      (pt_eq (p_type p) pt_LinkingObjects \<longleftrightarrow> p_link_origin p \<noteq> []) \<and>
      (if pt_eq (p_type p) pt_Object \<or> pt_eq (p_type p) pt_LinkingObjects
       then \<exists>target. find (\<lambda>os. o_name os = p_object_type p) s = Some target \<and>
             (pt_eq (p_type p) pt_LinkingObjects \<longrightarrow>
                (\<exists>origin. property_for_name target (Data (p_link_origin p)) = Some origin \<and>
                   pt_eq (p_type origin) pt_Object \<and> p_object_type origin = oname))
       else p_object_type p = [])"

lemma accepted_iff_ok: "distinct (map o_name s) \<Longrightarrow> accepted s oname p \<longleftrightarrow> property_ok s oname p"
proof -
  assume "distinct (map o_name s)"
  then have "find (\<lambda>os. o_name os = nm) s = Some t \<longleftrightarrow> t \<in> set s \<and> o_name t = nm" for nm t
    by (induction s) (auto simp: image_iff)
  then show ?thesis
    using pt_eq_distinct [of "p_type p"]
    by (auto simp: accepted_def property_ok_def well_typed.simps)
qed

lemma passes_property:
  assumes "valid_type (p_type p)" and "find_sorted s"
  shows "passes_with (validate_property s oname p primary)
     (accepted s oname p \<and> (p_is_primary p \<longrightarrow> primary = None)) (p_is_primary p \<or> primary \<noteq> None)"
proof -
  have e1: "passes_iff (raise_if (pt_eq (p_type p) pt_LinkingObjects \<and> \<not> is_array (p_type p))
      Linking_objects_not_array [Some oname, Some (p_name p)])
      (pt_eq (p_type p) pt_LinkingObjects \<longrightarrow> is_array (p_type p))"
    using passes_raise_if [of "[Some oname, Some (p_name p)]"] by (simp add: passes_iff_def raise_if_def)
  have e4: "passes_iff (raise_if (p_is_indexed p \<and> \<not> type_is_indexable p) Cannot_be_indexed
      [Some oname, Some (p_name p), string_for_property_type (p_type p)])
      (p_is_indexed p \<longrightarrow> type_is_indexable p)"
    using assms(1) by (auto simp: passes_iff_def raise_if_def split: option.splits)
  show ?thesis
    using passes_sequence [OF e1 passes_nullability [OF assms(1), of oname]
      passes_primary [OF assms(1), of oname primary] e4 passes_origin_name [OF assms(1), of oname]
      passes_target [OF assms, of oname]]
    unfolding validate_property_def accepted_def
    by (rule back_subst [where P = "\<lambda>b. passes_with _ b _"]) argo
qed

lemma passes_properties:
  assumes "\<forall>p \<in> set ps. valid_type (p_type p)" and "find_sorted s" 
  shows "passes_with (validate_properties s oname ps primary)
     ((\<forall>p \<in> set ps. accepted s oname p) \<and>
      length (filter p_is_primary ps) + (if primary = None then 0 else 1) \<le> 1 \<or> ps = [])
     (primary \<noteq> None \<or> (\<exists>p \<in> set ps. p_is_primary p))"
  using assms(1)
proof (induction ps arbitrary: primary)
  case (Cons p ps)
  have "valid_type (p_type p)" and rest: "\<forall>p \<in> set ps. valid_type (p_type p)"
    using Cons.prems by auto
  from passes_property [OF this(1) assms(2), of oname primary] obtain q es where head:
    "validate_property s oname p primary = Some (q, es)"
    "es = [] \<longleftrightarrow> accepted s oname p \<and> (p_is_primary p \<longrightarrow> primary = None)"
    "q \<noteq> None \<longleftrightarrow> p_is_primary p \<or> primary \<noteq> None"
    by (rule passes_withE)
  from Cons.IH [OF rest, of q] obtain q' es' where tail:
    "validate_properties s oname ps q = Some (q', es')"
    "es' = [] \<longleftrightarrow> (\<forall>p \<in> set ps. accepted s oname p) \<and>
       length (filter p_is_primary ps) + (if q = None then 0 else 1) \<le> 1 \<or> ps = []"
    "q' \<noteq> None \<longleftrightarrow> q \<noteq> None \<or> (\<exists>p \<in> set ps. p_is_primary p)"
    by (rule passes_withE)
  have "es @ es' = [] \<longleftrightarrow> (\<forall>p \<in> set (p # ps). accepted s oname p) \<and>
      length (filter p_is_primary (p # ps)) + (if primary = None then 0 else 1) \<le> 1"
    using head(2,3) tail(2) by (auto split: if_splits)
  moreover have "q' \<noteq> None \<longleftrightarrow> primary \<noteq> None \<or> (\<exists>p \<in> set (p # ps). p_is_primary p)"
    using head(3) tail(3) by auto
  ultimately show ?case
    by (simp add: passes_with_def head(1) tail(1))
qed (auto simp: passes_with_def)

section \<open>Names\<close>

lemma for_each_duplicate_empty: "sorted xs \<Longrightarrow> for_each_duplicate xs = [] \<longleftrightarrow> distinct xs"
  by (induction xs rule: for_each_duplicate.induct) (auto simp: order.order_iff_strict)

lemma set_intersection_sorted:
  "sorted xs \<Longrightarrow> sorted ys \<Longrightarrow> set (set_intersection xs ys) = set xs \<inter> set ys"
  by (induction xs ys rule: set_intersection.induct) (auto simp: not_less order.antisym)

lemma duplicate_types_empty: "sorted (map o_name s) \<Longrightarrow> duplicate_types s = [] \<longleftrightarrow> distinct (map o_name s)"
  by (induction s rule: duplicate_types.induct) (auto simp: order.order_iff_strict)

lemma set_public_names: "set (public_property_names os) = Data ` set (aliases os)"
  by (auto simp: public_property_names_def aliases_def all_properties_def)

lemma distinct_public_names: "distinct (public_property_names os) \<longleftrightarrow> distinct (aliases os)"
  by (simp only: public_property_names_def aliases_def all_properties_def distinct_sort distinct_map inj_on_def) simp

lemma set_internal_names: "set (internal_property_names os) = Data ` set (property_names os)"
  by (simp add: internal_property_names_def)

lemma distinct_internal_names: "distinct (internal_property_names os) \<longleftrightarrow> distinct (property_names os)"
  by (simp add: internal_property_names_def distinct_map inj_on_def)

lemma passes_duplicates:
  assumes "sorted xs" and "\<And>x. None \<notin> set (args x)"
  shows "passes_iff (concat_checks (map (\<lambda>n. raise_if True msg (args n)) (for_each_duplicate xs))) (distinct xs)"
proof -
  have "passes_iff (concat_checks (map (\<lambda>n. raise_if True msg (args n)) (for_each_duplicate xs)))
      (\<forall>n \<in> set (for_each_duplicate xs). False)"
    by (rule passes_concat_checks) (use passes_raise_if [OF assms(2), of True msg] in simp)
  then show ?thesis
    by (simp add: for_each_duplicate_empty [OF assms(1), symmetric])
qed

text \<open>The message of a conflict names a property, which the lookup by public name finds.\<close>

lemma passes_alias_conflicts:
  "passes_iff (concat_checks (map (alias_conflict os)
      (set_intersection (public_property_names os) (internal_property_names os))))
    (set (aliases os) \<inter> set (property_names os) = {})"
proof -
  have conflicts: "set (set_intersection (public_property_names os) (internal_property_names os)) =
      Data ` (set (aliases os) \<inter> set (property_names os))"
    by (subst set_intersection_sorted)
      (auto simp: set_public_names set_internal_names, auto simp: public_property_names_def internal_property_names_def)
  have "passes_iff (alias_conflict os n) False" if n: "n \<in> Data ` set (aliases os)" for n
  proof -
    from n obtain p where "p \<in> set (o_persisted os) \<union> set (o_computed os)" "n = Data (p_public_name p)"
      "p_public_name p \<noteq> []"
      by (auto simp: aliases_def all_properties_def)
    then have "property_for_public_name os n \<noteq> None"
      using property_for_public_name_not_null by blast
    then show ?thesis
      by (auto simp: alias_conflict_def passes_iff_def raise_if_def)
  qed
  then have "passes_iff (concat_checks (map (alias_conflict os)
      (set_intersection (public_property_names os) (internal_property_names os))))
      (\<forall>n \<in> set (set_intersection (public_property_names os) (internal_property_names os)). False)"
    by (intro passes_concat_checks) (auto simp: conflicts)
  then show ?thesis
    by (simp add: conflicts)
qed

section \<open>Object types and schemas\<close>

lemma passes_object:
  assumes "\<forall>p \<in> set (all_properties os). valid_type (p_type p)" and "find_sorted s"
  shows "passes_iff (validate_object s os) (object_with (accepted s (o_name os)) os)"
proof -
  have aliases: "passes_iff (concat_checks (map (\<lambda>n. raise_if True Duplicate_alias
      [Some (sd_bytes n), Some (o_name os)]) (for_each_duplicate (public_property_names os)))) (distinct (aliases os))"
    using passes_duplicates [of "public_property_names os" "\<lambda>n. [Some (sd_bytes n), Some (o_name os)]" Duplicate_alias]
    by (simp add: distinct_public_names) (simp add: public_property_names_def)
  have names: "passes_iff (concat_checks (map (\<lambda>n. raise_if True Duplicate_property
      [Some (sd_bytes n), Some (o_name os)]) (for_each_duplicate (internal_property_names os)))) (distinct (property_names os))"
    using passes_duplicates [of "internal_property_names os" "\<lambda>n. [Some (sd_bytes n), Some (o_name os)]" Duplicate_property]
    by (simp add: distinct_internal_names) (simp add: internal_property_names_def)
  have "\<forall>p \<in> set (o_persisted os). valid_type (p_type p)" and
    valid: "\<forall>p \<in> set (o_computed os). valid_type (p_type p)"
    using assms(1) by (auto simp: all_properties_def)
  from passes_properties [OF this(1) assms(2), of "o_name os" None]
  obtain q4 e4 where persisted: "validate_properties s (o_name os) (o_persisted os) None = Some (q4, e4)"
    "e4 = [] \<longleftrightarrow> (\<forall>p \<in> set (o_persisted os). accepted s (o_name os) p) \<and>
       length (filter p_is_primary (o_persisted os)) + (if None = (None :: property option) then 0 else 1) \<le> 1 \<or>
       o_persisted os = []"
    "q4 \<noteq> None \<longleftrightarrow> None \<noteq> (None :: property option) \<or> (\<exists>p \<in> set (o_persisted os). p_is_primary p)"
    by (rule passes_withE)
  from passes_properties [OF valid assms(2), of "o_name os" q4]
  obtain q5 e5 where computed: "validate_properties s (o_name os) (o_computed os) q4 = Some (q5, e5)"
    "e5 = [] \<longleftrightarrow> (\<forall>p \<in> set (o_computed os). accepted s (o_name os) p) \<and>
       length (filter p_is_primary (o_computed os)) + (if q4 = None then 0 else 1) \<le> 1 \<or> o_computed os = []"
    "q5 \<noteq> None \<longleftrightarrow> q4 \<noteq> None \<or> (\<exists>p \<in> set (o_computed os). p_is_primary p)"
    by (rule passes_withE)
  have q5: "q5 = None \<longleftrightarrow> \<not> (\<exists>p \<in> set (all_properties os). p_is_primary p)"
    using persisted(3) computed(3) by (auto simp: all_properties_def)
  have one: "length (filter p_is_primary (all_properties os)) \<le> 1 \<longleftrightarrow>
      length (filter p_is_primary (o_persisted os)) \<le> 1 \<and>
      (length (filter p_is_primary (o_computed os)) + (if q4 = None then 0 else 1) \<le> 1 \<or> o_computed os = [])"
  proof -
    have none: "q4 = None \<longleftrightarrow> length (filter p_is_primary (o_persisted os)) = 0"
      using persisted(3) by (auto simp: filter_empty_conv)
    have split: "a + b \<le> 1 \<longleftrightarrow> a \<le> 1 \<and> (b + (if n then 0 else 1) \<le> 1 \<or> c)"
      if "n \<longleftrightarrow> a = 0" "c \<Longrightarrow> b = 0" for a b :: nat and n c
      using that by (cases n; cases c) auto
    show ?thesis
      unfolding all_properties_def filter_append length_append by (rule split [OF none]) simp
  qed
  have pk: "passes_iff (raise_if (o_primary_key os \<noteq> [] \<and> q5 = None \<and> primary_key_property os = None)
      Primary_key_missing [Some (o_name os), Some (o_primary_key os)])
      (o_primary_key os \<noteq> [] \<longrightarrow> (\<exists>p \<in> set (all_properties os). p_is_primary p) \<or>
         o_primary_key os \<in> set (property_names os))"
    by (simp add: passes_iff_def raise_if_def primary_key_property_def property_for_name_None q5)
  from aliases obtain e1 where e1: "concat_checks (map (\<lambda>n. raise_if True Duplicate_alias
      [Some (sd_bytes n), Some (o_name os)]) (for_each_duplicate (public_property_names os))) = Some e1"
    "e1 = [] \<longleftrightarrow> distinct (aliases os)"
    by (rule passes_iffE)
  from names obtain e2 where e2: "concat_checks (map (\<lambda>n. raise_if True Duplicate_property
      [Some (sd_bytes n), Some (o_name os)]) (for_each_duplicate (internal_property_names os))) = Some e2"
    "e2 = [] \<longleftrightarrow> distinct (property_names os)"
    by (rule passes_iffE)
  from passes_alias_conflicts [of os] obtain e3 where e3: "concat_checks (map (alias_conflict os)
      (set_intersection (public_property_names os) (internal_property_names os))) = Some e3"
    "e3 = [] \<longleftrightarrow> set (aliases os) \<inter> set (property_names os) = {}"
    by (rule passes_iffE)
  from pk obtain e6 where e6: "raise_if (o_primary_key os \<noteq> [] \<and> q5 = None \<and> primary_key_property os = None)
      Primary_key_missing [Some (o_name os), Some (o_primary_key os)] = Some e6"
    "e6 = [] \<longleftrightarrow> (o_primary_key os \<noteq> [] \<longrightarrow> (\<exists>p \<in> set (all_properties os). p_is_primary p) \<or>
         o_primary_key os \<in> set (property_names os))"
    by (rule passes_iffE)
  have "validate_object s os = Some (e1 @ e2 @ e3 @ e4 @ e5 @ e6)"
    by (simp add: validate_object_def e1(1) e2(1) e3(1) e6(1) persisted(1) computed(1))
  moreover have "e1 @ e2 @ e3 @ e4 @ e5 @ e6 = [] \<longleftrightarrow> object_with (accepted s (o_name os)) os"
  proof -
    have e4: "e4 = [] \<longleftrightarrow> (\<forall>p \<in> set (o_persisted os). accepted s (o_name os) p) \<and>
        length (filter p_is_primary (o_persisted os)) \<le> 1"
      unfolding persisted(2) by (cases "o_persisted os = []") simp_all
    have e5: "e5 = [] \<longleftrightarrow> (\<forall>p \<in> set (o_computed os). accepted s (o_name os) p) \<and>
       (length (filter p_is_primary (o_computed os)) + (if q4 = None then 0 else 1) \<le> 1 \<or> o_computed os = [])"
      unfolding computed(2) by (cases "o_computed os = []") simp_all
    have both: "(\<forall>p \<in> set (all_properties os). accepted s (o_name os) p) \<longleftrightarrow>
        (\<forall>p \<in> set (o_persisted os). accepted s (o_name os) p) \<and>
        (\<forall>p \<in> set (o_computed os). accepted s (o_name os) p)"
      by (auto simp: all_properties_def)
    show ?thesis
      unfolding object_with_def one both append_is_Nil_conv e1(2) e2(2) e3(2) e4 e5 e6(2) by argo
  qed
  ultimately show ?thesis
    by (simp add: passes_iff_def)
qed



text \<open>With a type name that is not ASCII the order of the vector is not the order of the search: here
  the type A is in the schema but find does not return it, so validation rejects a well-typed schema.\<close>

theorem non_ascii_names_are_not_found:
  "let types =
     [new_object_schema [CHR 0xC3, CHR 0x89] [new_link ''owner'' (pt_Object OR pt_Nullable) ''A'' [] []] [],
      new_object_schema ''A'' [] []]
   in schema_typed (schema_new types) \<and> ''A'' \<in> set (map o_name (schema_new types)) \<and>
      schema_find (schema_new types) (Data ''A'') = None \<and>
      schema_validate (schema_new types) =
        Some [Exn Unknown_object_type [[CHR 0xC3, CHR 0x89], ''owner'', ''object'', ''A'']]"
proof -
  define types where "types =
     [new_object_schema [CHR 0xC3, CHR 0x89] [new_link ''owner'' (pt_Object OR pt_Nullable) ''A'' [] []] [],
      new_object_schema ''A'' [] []]"
  define a where "a = new_object_schema ''A'' [] []"
  define link where "link = new_link ''owner'' (pt_Object OR pt_Nullable) ''A'' [] []"
  define e where "e = new_object_schema [CHR 0xC3, CHR 0x89] [link] []"
  have order: "schema_new types = [a, e]"
    unfolding types_def a_def e_def link_def by code_simp
  have parts: "o_name a = ''A''" "o_name e = [CHR 0xC3, CHR 0x89]" "all_properties a = []"
    "all_properties e = [link]" "property_names a = []" "property_names e = [''owner'']"
    "aliases a = []" "aliases e = []" "o_primary_key a = []" "o_primary_key e = []"
    "\<not> p_is_primary link" "\<not> p_is_indexed link"
    unfolding a_def e_def link_def by code_simp+
  have "well_typed [a, e] (o_name e) link"
    by (rule well_typed.Link [of _ a]) (simp_all add: parts, simp_all add: link_def, code_simp+)
  with parts have "object_ok [a, e] a" "object_ok [a, e] e"
    by (simp_all add: object_ok_def object_with_def property_ok_def)
  then have "schema_typed (schema_new types)"
    by (simp add: order schema_typed_def parts)
  moreover have "''A'' \<in> set (map o_name (schema_new types))"
    by (simp add: order parts)
  moreover have "schema_find (schema_new types) (Data ''A'') = None"
    unfolding types_def by code_simp
  moreover have "schema_validate (schema_new types) =
      Some [Exn Unknown_object_type [[CHR 0xC3, CHR 0x89], ''owner'', ''object'', ''A'']]"
    unfolding types_def by code_simp
  ultimately show ?thesis
    unfolding types_def Let_def by blast
qed

text \<open>The equality of property types ignores the Array flag, so a list may be a primary key.\<close>

lemma array_primary_key_accepted:
  "schema_validate (schema_new [new_object_schema ''A'' [new_property ''ids'' (pt_Int OR pt_Array) True False []] []]) = Some []"
  by code_simp

end
