(* ===== verification/SchemaDecisions.thy ===== *)
theory SchemaDecisions
  imports SchemaVerify SchemaTyping
begin

text \<open>
  What the checks on schema changes decide: the migration check agrees with its predicate, additive
  changes are characterised on the two schemas themselves, and the decision of
  \<open>Realm::schema_change_needs_write_transaction\<close> never reaches the branch it declares unreachable.
\<close>

section \<open>Which changes a verifier rejects\<close>

definition explainable :: "schema_change \<Rightarrow> bool" where
  "explainable c \<longleftrightarrow> (case c of
     ChangePropertyType _ p q \<Rightarrow> valid_type (p_type p) \<and> valid_type (p_type q) | _ \<Rightarrow> True)"

definition rejects :: "explainer \<Rightarrow> schema_change \<Rightarrow> bool" where
  "rejects verifier c \<longleftrightarrow> verifier c \<noteq> Some []"

definition defined_on :: "explainer \<Rightarrow> bool" where
  "defined_on verifier \<longleftrightarrow> (\<forall>c. explainable c \<longrightarrow> verifier c \<noteq> None)"

lemma type_string_Some: "valid_type (p_type p) \<Longrightarrow> \<exists>s. type_string p = Some s"
  using type_string_valid [of p] by (cases "type_string p") auto

lemma explain_defined: "explainable c \<Longrightarrow> explain c \<noteq> None"
  by (cases c) (auto simp: explainable_def split: option.splits dest!: type_string_Some)

lemma defined_on_verifiers [simp]:
  "defined_on explain" "defined_on explain_migration" "defined_on explain_additive"
  "defined_on explain_external" "defined_on explain_readonly"
proof -
  have "explain_migration c = Some [] \<or> explain_migration c = explain c"
    "explain_additive c = Some [] \<or> explain_additive c = explain c"
    "explain_readonly c = Some [] \<or> explain_readonly c = explain c" for c
    by (cases c; simp)+
  moreover have "explain_external c = explain c \<or> explain_external c \<noteq> None" for c
    by (cases c) simp_all
  ultimately show "defined_on explain" "defined_on explain_migration" "defined_on explain_additive"
    "defined_on explain_external" "defined_on explain_readonly"
    unfolding defined_on_def using explain_defined by (metis option.distinct(1))+
qed

lemma collect_errors_iff:
  "defined_on verifier \<Longrightarrow> list_all explainable changes \<Longrightarrow>
     \<exists>es. collect_errors verifier changes = Some es \<and> (es = [] \<longleftrightarrow> \<not> list_ex (rejects verifier) changes)"
proof (induction changes)
  case (Cons c cs)
  then obtain e1 where "verifier c = Some e1"
    by (auto simp: defined_on_def)
  with Cons show ?case
    by (auto simp: rejects_def)
qed simp

lemma verify_no_errors_cases:
  assumes "defined_on verifier" "list_all explainable changes"
  obtains (rejected) es where "verify_no_errors err verifier changes = Some (Inl (err es))" "es \<noteq> []"
      "list_ex (rejects verifier) changes"
  | (accepted) "verify_no_errors err verifier changes = Some (Inr ())" "\<not> list_ex (rejects verifier) changes"
  using collect_errors_iff [OF assms] unfolding verify_no_errors_def by fastforce

text \<open>The rejected changes of each verifier, by their kind.\<close>

fun kind_additive :: "schema_change \<Rightarrow> bool" where
  "kind_additive (ChangePropertyType _ _ _) = False"
| "kind_additive (MakePropertyNullable _ _) = False"
| "kind_additive (MakePropertyRequired _ _) = False"
| "kind_additive (ChangePrimaryKey _ _) = False"
| "kind_additive _ = True"

fun silent :: "schema_change \<Rightarrow> bool" where
  "silent (RemoveTable _) = True"
| "silent (AddInitialProperties _) = True"
| "silent _ = False"

lemma rejects_kinds:
  "rejects explain_migration c \<longleftrightarrow> needs_migration_change c"
  "rejects explain_additive c \<longleftrightarrow> \<not> kind_additive c"
  "rejects explain c \<longleftrightarrow> \<not> silent c"
  "rejects explain_readonly c \<longleftrightarrow> \<not> kind_additive c \<or> (\<exists>os p. c = AddProperty os p)"
  by (cases c; force simp: rejects_def bind_eq_Some_conv split: option.splits)+

section \<open>The migration check\<close>

text \<open>C28. A list of changes needs a migration exactly when the check that no migration is required
  throws.\<close>

theorem needs_migration_iff_rejected:
  assumes "list_all explainable changes"
  shows "needs_migration changes \<longleftrightarrow> (\<exists>es. es \<noteq> [] \<and> verify_no_migration_required changes = Some (Inl (SchemaMismatch es)))"
  using verify_no_errors_cases [OF defined_on_verifiers(2) assms, where err = SchemaMismatch]
  unfolding verify_no_migration_required_def needs_migration_def
  by cases (auto simp: list_ex_iff rejects_kinds)

theorem needs_migration_iff_rejected_witness:
  "needs_migration [RemoveProperty (new_object_schema ''A'' [] []) (new_property ''x'' pt_Int False False [])] \<longleftrightarrow>
   (\<exists>es. es \<noteq> [] \<and> verify_no_migration_required
      [RemoveProperty (new_object_schema ''A'' [] []) (new_property ''x'' pt_Int False False [])] =
        Some (Inl (SchemaMismatch es)))"
  by (rule needs_migration_iff_rejected) (simp add: explainable_def)

section \<open>The changes between two schemas\<close>

definition same_type :: "property \<Rightarrow> property \<Rightarrow> bool" where
  "same_type p q \<longleftrightarrow> p_type p = p_type q \<and> p_object_type p = p_object_type q"

text \<open>Two types agree: the same primary key, and every property they share has one type.\<close>

definition types_agree :: "object_schema \<Rightarrow> object_schema \<Rightarrow> bool" where
  "types_agree e t \<longleftrightarrow> o_primary_key e = o_primary_key t \<and>
     (\<forall>p \<in> set (o_persisted e). \<forall>q \<in> set (o_persisted t). p_name p = p_name q \<longrightarrow> same_type p q)"

lemma compare_property_kinds:
  assumes "target_wf t"
  shows "(\<forall>c \<in> set (compare_property e t p). kind_additive c) \<longleftrightarrow>
    (\<forall>q \<in> set (o_persisted t). p_name p = p_name q \<longrightarrow> same_type p q)"
proof (cases "property_for_name t (Data (p_name p))")
  case None
  then have "p_name p \<notin> p_name ` set (o_persisted t)"
    by (auto simp: property_for_name_None property_names_def)
  with None show ?thesis
    by (auto simp: compare_property_def)
next
  case (Some q)
  have distinct: "distinct (property_names t)"
    using assms by (simp add: target_wf_def)
  from Some have q: "p_name q = p_name p"
    using property_for_name_SomeD by blast
  have only: "q' = q" if "q' \<in> set (o_persisted t)" "p_name p = p_name q'" for q'
    using property_for_name_persisted [OF distinct that(1)] that(2) Some by simp
  show ?thesis
  proof (cases "q \<in> set (o_persisted t)")
    case True
    moreover have "p_name ` set (o_persisted t) \<inter> p_name ` set (o_computed t) = {}"
      using distinct by (auto simp: property_names_def)
    ultimately have "\<not> property_is_computed t q"
      by (auto simp: property_is_computed_def property_eq_def)
    moreover have "same_type p q \<longleftrightarrow> pt_eq (p_type p) (p_type q) \<and> is_array (p_type p) = is_array (p_type q) \<and>
        is_nullable (p_type p) = is_nullable (p_type q) \<and> p_object_type p = p_object_type q"
      using ptype_eqI unfolding same_type_def by (metis pt_eq_refl)
    moreover have "(\<forall>q \<in> set (o_persisted t). p_name p = p_name q \<longrightarrow> same_type p q) \<longleftrightarrow> same_type p q"
      using True only q by metis
    ultimately show ?thesis
      by (simp add: compare_property_def Some ball_Un) argo
  next
    case False
    then have "property_is_computed t q"
      using property_for_name_SomeD [OF Some] by (auto simp: property_is_computed_def property_eq_def)
    with False only show ?thesis
      by (auto simp: compare_property_def Some)
  qed
qed

lemma compare_object_kinds:
  assumes "target_wf t"
  shows "(\<forall>c \<in> set (compare_object e t). kind_additive c) \<longleftrightarrow> types_agree e t"
proof -
  have "(\<forall>c \<in> set (compare_object e t). kind_additive c) \<longleftrightarrow>
      (\<forall>p \<in> set (o_persisted e). \<forall>c \<in> set (compare_property e t p). kind_additive c) \<and>
      o_primary_key e = o_primary_key t"
    by (cases "o_primary_key e = o_primary_key t") (simp_all add: compare_object_def ball_Un)
  then show ?thesis
    unfolding compare_property_kinds [OF assms] types_agree_def by blast
qed

lemma compare_object_additions:
  assumes "existing_wf e" "\<forall>os p. AddProperty os p \<notin> set (compare_object e t)" "q \<in> set (o_persisted t)"
  obtains p where "p \<in> set (o_persisted e)" "p_name p = p_name q"
proof -
  have "property_for_name e (Data (p_name q)) \<noteq> None"
    using assms(2,3) by (auto simp: compare_object_def split: if_splits)
  with assms(1) that show ?thesis
    by (auto simp: property_for_name_None property_names_def existing_wf_def)
qed

lemma compare_object_no_tables:
  "c \<in> set (compare_object e t) \<Longrightarrow> \<not> silent c \<and> (\<forall>os. c \<noteq> AddTable os)"
proof -
  have "c \<in> set (compare_property e t p) \<Longrightarrow> \<not> silent c \<and> (\<forall>os. c \<noteq> AddTable os)" for p
    by (auto simp: compare_property_def split: option.splits if_splits)
  then show "c \<in> set (compare_object e t) \<Longrightarrow> \<not> silent c \<and> (\<forall>os. c \<noteq> AddTable os)"
    by (auto simp: compare_object_def split: if_splits)
qed

text \<open>Every change is for a new type, or between two types of one name.\<close>

lemma schema_compare_mem:
  assumes sorted: "strictly_sorted s" "strictly_sorted t"
  shows "c \<in> set (schema_compare s t False) \<longleftrightarrow>
    (\<exists>os. named t (o_name os) = Some os \<and> named s (o_name os) = None \<and>
       (c = AddTable os \<or> c = AddInitialProperties os)) \<or>
    (\<exists>nm e os. named s nm = Some e \<and> named t nm = Some os \<and> c \<in> set (compare_object e os))"
proof -
  have pairs: "pair \<in> set (zip_matching t s) \<longleftrightarrow>
      (\<exists>nm. pair = (named t nm, named s nm) \<and> (named t nm \<noteq> None \<or> named s nm \<noteq> None))" for pair
  proof
    assume mem: "pair \<in> set (zip_matching t s)"
    then have "pair_name pair \<in> o_name ` set t \<union> o_name ` set s"
      using zip_name_set by blast
    with zip_pairs [OF sorted(2,1) mem] show "\<exists>nm. pair = (named t nm, named s nm) \<and> (named t nm \<noteq> None \<or> named s nm \<noteq> None)"
      by (metis UnE named_None_iff)
  next
    assume "\<exists>nm. pair = (named t nm, named s nm) \<and> (named t nm \<noteq> None \<or> named s nm \<noteq> None)"
    then obtain nm where "pair = (named t nm, named s nm)" "named t nm \<noteq> None \<or> named s nm \<noteq> None"
      by blast
    then have "find (\<lambda>pair. pair_name pair = nm) (zip_matching t s) = Some pair"
      using find_pair [OF sorted(2,1), of nm] by auto
    then show "pair \<in> set (zip_matching t s)"
      by (auto simp: find_Some_iff)
  qed
  have "c \<in> set (schema_compare s t False) \<longleftrightarrow>
      (\<exists>nm. c \<in> set (table_changes False (named t nm, named s nm) @ column_changes (named t nm, named s nm)))"
  proof -
    have "c \<in> set (schema_compare s t False) \<longleftrightarrow>
        (\<exists>pair. pair \<in> set (zip_matching t s) \<and> c \<in> set (table_changes False pair @ column_changes pair))"
      by (auto simp: schema_compare_def)
    moreover have "table_changes False (None, None) = []" "column_changes (None, None) = []"
      by (simp_all add: table_changes_def column_changes_def)
    ultimately show ?thesis
      unfolding pairs by (metis append.right_neutral list.distinct(1) list.set_cases)
  qed
  also have "\<dots> \<longleftrightarrow> (\<exists>os. named t (o_name os) = Some os \<and> named s (o_name os) = None \<and>
       (c = AddTable os \<or> c = AddInitialProperties os)) \<or>
    (\<exists>nm e os. named s nm = Some e \<and> named t nm = Some os \<and> c \<in> set (compare_object e os))"
  proof -
    have step: "c \<in> set (table_changes False (named t nm, named s nm) @ column_changes (named t nm, named s nm)) \<longleftrightarrow>
        (\<exists>os. named t nm = Some os \<and> named s nm = None \<and> (c = AddTable os \<or> c = AddInitialProperties os)) \<or>
        (\<exists>e os. named s nm = Some e \<and> named t nm = Some os \<and> c \<in> set (compare_object e os))" for nm
      by (cases "named t nm"; cases "named s nm") (auto simp: table_changes_def column_changes_def)
    have "named t nm = Some os \<Longrightarrow> nm = o_name os" for nm os
      using named_SomeD by blast
    then have "(\<exists>nm os. named t nm = Some os \<and> named s nm = None \<and> P os) \<longleftrightarrow>
        (\<exists>os. named t (o_name os) = Some os \<and> named s (o_name os) = None \<and> P os)" for P
      by metis
    then show ?thesis
      unfolding step ex_disj_distrib by simp
  qed
  finally show ?thesis .
qed

section \<open>The decisions\<close>

text \<open>A schema read from a file and a validated target schema, both in the form the constructor gives.\<close>

definition update_inputs :: "schema \<Rightarrow> schema \<Rightarrow> bool" where
  "update_inputs s t \<longleftrightarrow> strictly_sorted s \<and> strictly_sorted t \<and>
     (\<forall>os \<in> set s. existing_wf os) \<and> (\<forall>os \<in> set t. target_wf os) \<and> valid_types s \<and> valid_types t"

lemma compare_property_explainable:
  assumes "\<forall>q \<in> set (all_properties t). valid_type (p_type q)" "valid_type (p_type p)"
    and "c \<in> set (compare_property e t p)"
  shows "explainable c"
  using assms property_for_name_SomeD
  by (fastforce simp: compare_property_def explainable_def all_properties_def split: option.splits if_splits)

lemma compare_explainable:
  assumes "update_inputs s t"
  shows "list_all explainable (schema_compare s t False)"
proof -
  have "explainable c" if "c \<in> set (compare_object e os)" "e \<in> set s" "os \<in> set t" for c e os
  proof -
    have valid: "\<forall>q \<in> set (all_properties os). valid_type (p_type q)" "\<forall>p \<in> set (o_persisted e). valid_type (p_type p)"
      using assms that by (auto simp: update_inputs_def valid_types_def all_properties_def)
    from that(1) consider p where "p \<in> set (o_persisted e)" "c \<in> set (compare_property e os p)"
      | q where "c = AddProperty e q" | q where "c = ChangePrimaryKey e q"
      by (auto simp: compare_object_def split: if_splits)
    then show ?thesis
      using valid compare_property_explainable by cases (auto simp: explainable_def)
  qed
  moreover have sorted: "strictly_sorted s" "strictly_sorted t"
    using assms by (auto simp: update_inputs_def)
  moreover have "explainable (AddTable os)" "explainable (AddInitialProperties os)" for os
    by (simp_all add: explainable_def)
  ultimately have "explainable c" if c: "c \<in> set (schema_compare s t False)" for c
    using c unfolding schema_compare_mem [OF sorted] by (elim disjE exE conjE) (auto dest!: named_SomeD)
  then show ?thesis
    by (simp add: list_all_iff)
qed

lemma compare_kind_additive:
  assumes "update_inputs s t"
  shows "(\<forall>c \<in> set (schema_compare s t False). kind_additive c) \<longleftrightarrow>
    (\<forall>e \<in> set s. \<forall>os \<in> set t. o_name e = o_name os \<longrightarrow> types_agree e os)"
proof -
  have sorted: "strictly_sorted s" "strictly_sorted t" and ok: "\<forall>os \<in> set t. target_wf os"
    using assms by (auto simp: update_inputs_def)
  have named: "strictly_sorted x \<Longrightarrow> named x nm = Some os \<longleftrightarrow> os \<in> set x \<and> o_name os = nm" for x nm os
    by (induction x) auto
  have "(\<forall>c \<in> set (schema_compare s t False). kind_additive c) \<longleftrightarrow>
      (\<forall>nm e os. named s nm = Some e \<and> named t nm = Some os \<longrightarrow> (\<forall>c \<in> set (compare_object e os). kind_additive c))"
    unfolding Ball_def schema_compare_mem [OF sorted] by auto
  also have "\<dots> \<longleftrightarrow> (\<forall>nm e os. named s nm = Some e \<and> named t nm = Some os \<longrightarrow> types_agree e os)"
    using compare_object_kinds ok named_SomeD by metis
  finally show ?thesis
    unfolding named [OF sorted(1)] named [OF sorted(2)] by auto
qed

text \<open>C27. The check for additive mode accepts the changes from one schema to another exactly when every
  type that both have keeps its primary key and the type of every property that both have.\<close>

theorem additive_changes_are_compatible:
  assumes "update_inputs s t"
  shows "(\<exists>write. verify_valid_additive_changes (schema_compare s t False) update_indexes = Some (Inr write)) \<longleftrightarrow>
    (\<forall>e \<in> set s. \<forall>os \<in> set t. o_name e = o_name os \<longrightarrow> types_agree e os)"
proof -
  have "(\<exists>write. verify_valid_additive_changes (schema_compare s t False) update_indexes = Some (Inr write)) \<longleftrightarrow>
      \<not> list_ex (rejects explain_additive) (schema_compare s t False)"
    using verify_no_errors_cases [OF defined_on_verifiers(3) compare_explainable [OF assms], where err = InvalidSchemaChange]
    by cases (auto simp: verify_valid_additive_changes_def)
  also have "\<dots> \<longleftrightarrow> (\<forall>c \<in> set (schema_compare s t False). kind_additive c)"
    by (simp add: list_ex_iff rejects_kinds)
  finally show ?thesis
    by (simp add: compare_kind_additive [OF assms])
qed

text \<open>The target's type is in the file with the same primary key and all its properties.\<close>

definition provides :: "schema \<Rightarrow> object_schema \<Rightarrow> bool" where
  "provides s os \<longleftrightarrow> (\<exists>e \<in> set s. o_name e = o_name os \<and> types_agree e os \<and>
     p_name ` set (o_persisted os) \<subseteq> p_name ` set (o_persisted e))"

lemma no_additions_provides:
  assumes inputs: "update_inputs s t"
    and kinds: "\<forall>c \<in> set (schema_compare s t False). kind_additive c \<and> (\<forall>os p. c \<noteq> AddProperty os p)"
    and os: "os \<in> set t"
  shows "provides s os \<or> named s (o_name os) = None \<and> AddTable os \<in> set (schema_compare s t False)"
proof -
  have sorted: "strictly_sorted s" "strictly_sorted t" and ok: "\<forall>os \<in> set s. existing_wf os"
    using inputs by (auto simp: update_inputs_def)
  have t: "named t (o_name os) = Some os"
    using sorted(2) os by (induction t) auto
  show ?thesis
  proof (cases "named s (o_name os)")
    case None
    with t show ?thesis
      by (simp add: schema_compare_mem [OF sorted])
  next
    case (Some e)
    then have e: "e \<in> set s" "o_name e = o_name os"
      using named_SomeD by blast+
    have "c \<in> set (schema_compare s t False)" if "c \<in> set (compare_object e os)" for c
      using that t Some by (auto simp: schema_compare_mem [OF sorted])
    then have "\<forall>os' p. AddProperty os' p \<notin> set (compare_object e os)"
      using kinds by blast
    moreover have "existing_wf e"
      using ok e(1) by blast
    ultimately have "p_name ` set (o_persisted os) \<subseteq> p_name ` set (o_persisted e)"
      using compare_object_additions [of e os] by (intro image_subsetI) (metis imageI)
    moreover have "types_agree e os"
      using kinds compare_kind_additive [OF inputs] e os by blast
    ultimately show ?thesis
      using e by (auto simp: provides_def)
  qed
qed

lemma some_change_is_explained:
  assumes "update_inputs s t" "schema_compare s t False \<noteq> []"
  shows "list_ex (rejects explain) (schema_compare s t False)"
proof -
  have sorted: "strictly_sorted s" "strictly_sorted t"
    using assms(1) by (auto simp: update_inputs_def)
  from assms(2) obtain c where c: "c \<in> set (schema_compare s t False)"
    by (cases "schema_compare s t False") auto
  have "\<exists>c \<in> set (schema_compare s t False). \<not> silent c"
  proof (cases "\<exists>os. AddTable os \<in> set (schema_compare s t False)")
    case True
    then show ?thesis
      by force
  next
    case False
    with c have "\<exists>e os. c \<in> set (compare_object e os)"
      unfolding schema_compare_mem [OF sorted] by blast
    with c compare_object_no_tables show ?thesis
      by blast
  qed
  then show ?thesis
    by (simp add: list_ex_iff rejects_kinds)
qed


section \<open>Applying the changes\<close>

text \<open>C25. Applying the changes that compare lists, in their order, to the existing schema gives the
  target schema - together with the types only the existing schema has, unless removals are included -
  and when there is nothing to change, everything in the target is already there.\<close>

theorem schema_changes_produce_target:
  assumes "update_inputs s t"
  shows "fold apply_change (schema_compare s t True) (tables_of s) = tables_of t \<and>
    fold apply_change (schema_compare s t False) (tables_of s) = tables_of s ++ tables_of t \<and>
    (schema_compare s t False = [] \<longrightarrow> tables_of t \<subseteq>\<^sub>m tables_of s)"
proof -
  have applies: "fold apply_change (schema_compare s t rm) (tables_of s) =
      (if rm then tables_of t else tables_of s ++ tables_of t)" for rm
    using assms schema_compare_applies unfolding update_inputs_def by blast
  moreover have "tables_of t \<subseteq>\<^sub>m tables_of s" if "schema_compare s t False = []"
    using applies [of False] that by (simp add: map_le_iff_map_add_commute) (metis map_le_map_add)
  ultimately show ?thesis
    by simp
qed

section \<open>Examples\<close>

definition old_schema :: schema where
  "old_schema = schema_new
     [new_object_schema ''Dog''
        [new_property ''age'' pt_Int False False [], new_property ''name'' pt_String False False []] [],
      new_object_schema ''Bone'' [new_property ''id'' pt_Int True True []] []]"

definition new_schema :: schema where
  "new_schema = schema_new
     [new_object_schema ''Dog''
        [new_property ''name'' pt_String False True [], new_link ''toys'' (pt_Object OR pt_Array) ''Toy'' [] []] [],
      new_object_schema ''Toy'' [new_property ''id'' pt_Int True True []] []]"

lemma example_inputs: "update_inputs old_schema new_schema"
  by code_simp

theorem schema_changes_produce_target_witness:
  "fold apply_change (schema_compare old_schema new_schema True) (tables_of old_schema) = tables_of new_schema \<and>
   map (\<lambda>c. o_name (changed_object c)) (schema_compare old_schema new_schema True) =
     [''Bone'', ''Toy'', ''Dog'', ''Dog'', ''Dog'', ''Toy'']"
proof
  show "fold apply_change (schema_compare old_schema new_schema True) (tables_of old_schema) = tables_of new_schema"
    using schema_changes_produce_target [OF example_inputs] by (rule conjunct1)
  show "map (\<lambda>c. o_name (changed_object c)) (schema_compare old_schema new_schema True) =
     [''Bone'', ''Toy'', ''Dog'', ''Dog'', ''Dog'', ''Toy'']"
    by code_simp
qed

theorem additive_changes_are_compatible_witness:
  "\<exists>write. verify_valid_additive_changes (schema_compare old_schema new_schema False) True = Some (Inr write)"
proof -
  have "list_all (\<lambda>e. list_all (\<lambda>os. o_name e = o_name os \<longrightarrow> types_agree e os) new_schema) old_schema"
    by code_simp
  then show ?thesis
    using additive_changes_are_compatible [OF example_inputs] by (simp add: list_all_iff)
qed


end
