(* ===== verification/NodeHeader.thy ===== *)
theory NodeHeader
  imports Prelude "HOL-Library.Word"
begin

unbundle bit_operations_syntax

text \<open>
  The eight bytes in front of the payload of every array node (\<open>NodeHeader\<close> in
  \<open>include/core/realm/node_header.hpp\<close>): three bytes of capacity in units of eight bytes, one
  byte that is not used here, a byte of flags with the width of the elements, and three bytes of size. A header is the list of its
  bytes; \<open>h[i]\<close> is promoted to \<open>int\<close> before it is operated on and narrowed when it is
  stored.
\<close>

type_synonym byte = "8 word"
type_synonym header = "byte list"

datatype node_type = Type_Normal | Type_InnerBptreeNode | Type_HasRefs

datatype width_type = Wtype_Bits | Wtype_Multiply | Wtype_Ignore | Wtype_Other

definition header_size :: nat where "header_size = 8"

definition max_array_size :: nat where "max_array_size = 0xffffff"

definition si :: "byte \<Rightarrow> 32 word" where "si b = ucast b"

definition us :: "byte \<Rightarrow> 64 word" where "us b = ucast b"

definition uc :: "32 word \<Rightarrow> byte" where "uc v = ucast v"

definition uc_size :: "64 word \<Rightarrow> byte" where "uc_size v = ucast v"

section \<open>Reading\<close>

definition get_is_inner_bptree_node :: "header \<Rightarrow> bool" where
  "get_is_inner_bptree_node h \<longleftrightarrow> si (h ! 4) AND 0x80 \<noteq> 0"

definition get_hasrefs :: "header \<Rightarrow> bool" where
  "get_hasrefs h \<longleftrightarrow> si (h ! 4) AND 0x40 \<noteq> 0"

definition get_context_flag :: "header \<Rightarrow> bool" where
  "get_context_flag h \<longleftrightarrow> si (h ! 4) AND 0x20 \<noteq> 0"

definition wtype_of_int :: "32 word \<Rightarrow> width_type" where
  "wtype_of_int v = (if v = 0 then Wtype_Bits else if v = 1 then Wtype_Multiply
     else if v = 2 then Wtype_Ignore else Wtype_Other)"

definition int_of_wtype :: "width_type \<Rightarrow> 32 word" where
  "int_of_wtype t = (case t of Wtype_Bits \<Rightarrow> 0 | Wtype_Multiply \<Rightarrow> 1 | Wtype_Ignore \<Rightarrow> 2 | Wtype_Other \<Rightarrow> 3)"

definition get_wtype :: "header \<Rightarrow> width_type" where
  "get_wtype h = wtype_of_int (drop_bit 3 (si (h ! 4) AND 0x18))"

definition get_width :: "header \<Rightarrow> byte" where
  "get_width h = uc (drop_bit 1 (push_bit (unat (si (h ! 4) AND 0x07)) 1))"

definition get_size :: "header \<Rightarrow> 64 word" where
  "get_size h = push_bit 16 (us (h ! 5)) + push_bit 8 (us (h ! 6)) + us (h ! 7)"

definition get_capacity :: "header \<Rightarrow> 64 word" where
  "get_capacity h = push_bit 19 (us (h ! 0)) + push_bit 11 (us (h ! 1)) + ucast (push_bit 3 (si (h ! 2)))"

definition get_type :: "header \<Rightarrow> node_type" where
  "get_type h = (if get_is_inner_bptree_node h then Type_InnerBptreeNode
     else if get_hasrefs h then Type_HasRefs else Type_Normal)"

section \<open>Writing\<close>

definition set_is_inner_bptree_node :: "bool \<Rightarrow> header \<Rightarrow> header" where
  "set_is_inner_bptree_node v h = h[4 := uc (si (h ! 4) AND NOT 0x80 OR push_bit 7 (of_bool v))]"

definition set_hasrefs :: "bool \<Rightarrow> header \<Rightarrow> header" where
  "set_hasrefs v h = h[4 := uc (si (h ! 4) AND NOT 0x40 OR push_bit 6 (of_bool v))]"

definition set_context_flag :: "bool \<Rightarrow> header \<Rightarrow> header" where
  "set_context_flag v h = h[4 := uc (si (h ! 4) AND NOT 0x20 OR push_bit 5 (of_bool v))]"

definition set_wtype :: "width_type \<Rightarrow> header \<Rightarrow> header" where
  "set_wtype v h = h[4 := uc (si (h ! 4) AND NOT 0x18 OR push_bit 3 (int_of_wtype v))]"

text \<open>
  The loop of \<open>set_width_in_header\<close> shifts the value to the right until it is zero. The value is an
  \<open>int\<close>; a negative one would be shifted for ever.
\<close>

partial_function (option) log2_loop :: "int \<Rightarrow> nat \<Rightarrow> nat option" where
  "log2_loop v w = (if v \<noteq> 0 then log2_loop (drop_bit 1 v) (Suc w) else Some w)"

definition set_width :: "int \<Rightarrow> header \<Rightarrow> header option" where
  "set_width v h = do {
     w \<leftarrow> log2_loop v 0;
     if w < 8 then Some (h[4 := uc (si (h ! 4) AND NOT 0x7 OR of_nat w)]) else None }"

definition set_size :: "64 word \<Rightarrow> header \<Rightarrow> header option" where
  "set_size v h = (if v \<le> 0xffffff then
     Some (h[5 := uc_size (drop_bit 16 v AND 0xff), 6 := uc_size (drop_bit 8 v AND 0xff),
       7 := uc_size (v AND 0xff)]) else None)"

definition set_capacity :: "64 word \<Rightarrow> header \<Rightarrow> header option" where
  "set_capacity v h = (if v \<le> push_bit 3 0xffffff then
     Some (h[0 := uc_size (drop_bit 19 v AND 0xff), 1 := uc_size (drop_bit 11 v AND 0xff),
       2 := uc_size (drop_bit 3 v AND 0xff)]) else None)"

definition calc_byte_size :: "width_type \<Rightarrow> 64 word \<Rightarrow> byte \<Rightarrow> 64 word option" where
  "calc_byte_size wtype sz width = do {
     num_bytes \<leftarrow> (case wtype of
         Wtype_Bits \<Rightarrow> if sz < 0x1000000 then Some (drop_bit 3 (sz * ucast width + 7)) else None
       | Wtype_Multiply \<Rightarrow> Some (sz * ucast width)
       | Wtype_Ignore \<Rightarrow> Some sz
       | Wtype_Other \<Rightarrow> Some 0);
     Some (((num_bytes + 7) AND NOT 7) + 8) }"

definition get_byte_size :: "header \<Rightarrow> 64 word option" where
  "get_byte_size h = calc_byte_size (get_wtype h) (get_size h) (get_width h)"


section \<open>A field and the rest of the header\<close>

definition hbit :: "header \<Rightarrow> nat \<Rightarrow> bool" where
  "hbit h n = bit (h ! (n div 8)) (n mod 8)"

definition depends_on :: "(header \<Rightarrow> 'v) \<Rightarrow> nat set \<Rightarrow> bool" where
  "depends_on get ns \<longleftrightarrow> (\<forall>h h'. length h = 8 \<longrightarrow> length h' = 8 \<longrightarrow>
     (\<forall>n\<in>ns. hbit h n = hbit h' n) \<longrightarrow> get h = get h')"

locale header_field =
  fixes get :: "header \<Rightarrow> 'v" and put :: "'w \<Rightarrow> header \<Rightarrow> header option" and valid :: "'w \<Rightarrow> bool"
    and repr :: "'w \<Rightarrow> 'v" and ns :: "nat set"
  assumes put_some: "length h = 8 \<Longrightarrow> valid v \<Longrightarrow> \<exists>h'. put v h = Some h'"
    and put_length: "length h = 8 \<Longrightarrow> put v h = Some h' \<Longrightarrow> length h' = 8"
    and put_frame: "length h = 8 \<Longrightarrow> put v h = Some h' \<Longrightarrow> n \<notin> ns \<Longrightarrow> hbit h' n = hbit h n"
    and get_put: "length h = 8 \<Longrightarrow> valid v \<Longrightarrow> put v h = Some h' \<Longrightarrow> get h' = repr v"
    and get_depends: "depends_on get ns"
begin

lemma other_field:
  "length h = 8 \<Longrightarrow> put v h = Some h' \<Longrightarrow> depends_on other ms \<Longrightarrow> ns \<inter> ms = {} \<Longrightarrow>
     other h' = other h"
  using put_length put_frame unfolding depends_on_def by (metis disjoint_iff)

end

lemma hbit_update:
  "length h = 8 \<Longrightarrow> hbit (h[i := b]) n = (if n div 8 = i \<and> i < 8 then bit b (n mod 8) else hbit h n)"
  by (cases "n div 8 = i"; cases "i < 8") (simp_all add: hbit_def list_update_beyond)

lemma bit_si [simp]: "bit (si b) n = bit b n"
  by (auto simp: si_def bit_ucast_iff dest: bit_imp_le_length)

lemma bit_us [simp]: "bit (us b) n = bit b n"
  by (auto simp: us_def bit_ucast_iff dest: bit_imp_le_length)

lemma bit_uc: "bit (uc v) n \<longleftrightarrow> n < 8 \<and> bit v n"
  by (auto simp: uc_def bit_ucast_iff)

lemma bit_uc_size: "bit (uc_size v) n \<longleftrightarrow> n < 8 \<and> bit v n"
  by (auto simp: uc_size_def bit_ucast_iff)

lemma and_power_nonzero: "v AND 2 ^ n \<noteq> 0 \<longleftrightarrow> bit v n" for v :: "'a::len word"
  by (simp add: and_exp_eq_0_iff_not_bit)

lemma flag_bits [simp]:
  "get_is_inner_bptree_node h = hbit h 39" "get_hasrefs h = hbit h 38" "get_context_flag h = hbit h 37"
  using and_power_nonzero [of "si (h ! 4)" 7] and_power_nonzero [of "si (h ! 4)" 6]
    and_power_nonzero [of "si (h ! 4)" 5]
  by (simp_all add: get_is_inner_bptree_node_def get_hasrefs_def get_context_flag_def hbit_def)



lemma get_wtype_slice: "get_wtype h = wtype_of_int (take_bit 2 (drop_bit 3 (si (h ! 4))))"
proof -
  have "(0x18 :: 32 word) = push_bit 3 (mask 2)"
    by (simp add: mask_eq_exp_minus_1 push_bit_eq_mult)
  moreover have "drop_bit 3 (si (h ! 4) AND push_bit 3 (mask 2)) = take_bit 2 (drop_bit 3 (si (h ! 4)))"
    by (auto simp: bit_simps intro!: bit_word_eqI simp del: push_bit_mask_eq)
  ultimately show ?thesis by (simp only: get_wtype_def)
qed

lemma get_width_slice: "get_width h = uc (drop_bit 1 (push_bit (unat (take_bit 3 (si (h ! 4)))) 1))"
proof -
  have "(0x07 :: 32 word) = mask 3" by (simp add: mask_eq_exp_minus_1)
  then show ?thesis by (simp add: get_width_def take_bit_eq_mask)
qed

lemma slice_eqI:
  assumes "\<forall>n\<in>{32 + k..<32 + k + w}. hbit h n = hbit h' n" "k + w \<le> 8"
  shows "take_bit w (drop_bit k (si (h ! 4))) = take_bit w (drop_bit k (si (h' ! 4)))"
proof (rule bit_word_eqI)
  fix m assume "m < LENGTH(32)"
  show "bit (take_bit w (drop_bit k (si (h ! 4)))) m = bit (take_bit w (drop_bit k (si (h' ! 4)))) m"
  proof (cases "m < w")
    case True
    then have "k + m < 8" using assms(2) by simp
    then have *: "(32 + k + m) div 8 = 4" "(32 + k + m) mod 8 = k + m"
      using div_mult_self3 [of 8 4 "k + m"] mod_mult_self3 [of 4 8 "k + m"] by (simp_all add: add.assoc)
    have "hbit h (32 + k + m) = hbit h' (32 + k + m)" using True assms by simp
    then show ?thesis using True unfolding hbit_def * by (simp add: bit_simps add.commute)
  qed (simp add: bit_simps)
qed

lemma byte_eqI:
  assumes "\<forall>n\<in>{8 * i..<8 * i + 8}. hbit h n = hbit h' n"
  shows "h ! i = h' ! i"
proof (rule bit_word_eqI)
  fix m assume "m < LENGTH(8)"
  then have "(8 * i + m) div 8 = i" "(8 * i + m) mod 8 = m" by auto
  then show "bit (h ! i) m = bit (h' ! i) m"
    using bspec [OF assms, of "8 * i + m"] \<open>m < LENGTH(8)\<close> by (simp add: hbit_def)
qed

lemma depends_flags:
  "depends_on get_is_inner_bptree_node {39}" "depends_on get_hasrefs {38}" "depends_on get_context_flag {37}"
  by (simp_all add: depends_on_def)


lemma depends_wtype: "depends_on get_wtype {35..<37}"
  unfolding depends_on_def get_wtype_slice
proof (intro allI impI)
  fix h h' :: header
  assume "\<forall>n\<in>{35..<37}. hbit h n = hbit h' n"
  then have "take_bit 2 (drop_bit 3 (si (h ! 4))) = take_bit 2 (drop_bit 3 (si (h' ! 4)))"
    by (intro slice_eqI) simp_all
  then show "wtype_of_int (take_bit 2 (drop_bit 3 (si (h ! 4)))) =
    wtype_of_int (take_bit 2 (drop_bit 3 (si (h' ! 4))))" by (rule arg_cong)
qed

lemma depends_width: "depends_on get_width {32..<35}"
  unfolding depends_on_def
proof (intro allI impI)
  fix h h' :: header
  assume "\<forall>n\<in>{32..<35}. hbit h n = hbit h' n"
  then have "take_bit 3 (drop_bit 0 (si (h ! 4))) = take_bit 3 (drop_bit 0 (si (h' ! 4)))"
    by (intro slice_eqI) simp_all
  then show "get_width h = get_width h'" by (simp only: get_width_slice drop_bit_0 id_apply)
qed

lemma depends_size: "depends_on get_size {40..<64}"
  unfolding depends_on_def
proof (intro allI impI)
  fix h h' :: header
  assume *: "\<forall>n\<in>{40..<64}. hbit h n = hbit h' n"
  then have "h ! 5 = h' ! 5" "h ! 6 = h' ! 6" "h ! 7 = h' ! 7"
    by (intro byte_eqI; simp)+
  then show "get_size h = get_size h'" by (simp add: get_size_def)
qed

lemma depends_capacity: "depends_on get_capacity {0..<24}"
  unfolding depends_on_def
proof (intro allI impI)
  fix h h' :: header
  assume *: "\<forall>n\<in>{0..<24}. hbit h n = hbit h' n"
  then have "h ! 0 = h' ! 0" "h ! 1 = h' ! 1" "h ! 2 = h' ! 2"
    by (intro byte_eqI; simp)+
  then show "get_capacity h = get_capacity h'" by (simp add: get_capacity_def)
qed



definition put_bits :: "nat \<Rightarrow> nat \<Rightarrow> 32 word \<Rightarrow> byte \<Rightarrow> byte" where
  "put_bits k w x b = uc (si b AND NOT (push_bit k (mask w)) OR push_bit k x)"

definition fits_bits :: "nat \<Rightarrow> 32 word \<Rightarrow> bool" where
  "fits_bits w x \<longleftrightarrow> take_bit w x = x"

lemma fits_bits_iff: "fits_bits w x \<longleftrightarrow> (\<forall>m. bit x m \<longrightarrow> m < w)"
  unfolding fits_bits_def bit_eq_iff bit_take_bit_iff using bit_imp_le_length [of x] by auto

lemma bit_put_bits:
  "fits_bits w x \<Longrightarrow> bit (put_bits k w x b) n \<longleftrightarrow>
     n < 8 \<and> (if k \<le> n \<and> n < k + w then bit x (n - k) else bit b n)"
  unfolding put_bits_def
  by (auto simp: fits_bits_iff bit_uc bit_simps simp del: push_bit_mask_eq dest: bit_imp_le_length)

lemma slice_put_bits:
  assumes "fits_bits w x" "k + w \<le> 8"
  shows "take_bit w (drop_bit k (si (put_bits k w x b))) = x"
proof (rule bit_word_eqI)
  fix m assume "m < LENGTH(32)"
  show "bit (take_bit w (drop_bit k (si (put_bits k w x b)))) m = bit x m"
    using assms by (auto simp: bit_put_bits fits_bits_iff bit_take_bit_iff bit_drop_bit_eq)
qed

lemma put_bits_frame:
  assumes "fits_bits w x" "length h = 8" "n \<notin> {32 + k..<32 + k + w}"
  shows "hbit (h[4 := put_bits k w x (h ! 4)]) n = hbit h n"
proof (cases "n div 8 = 4")
  case True
  then have "n mod 8 = n - 32" by presburger
  moreover have "\<not> (k \<le> n - 32 \<and> n - 32 < k + w)"
  proof
    have "32 \<le> n" using True by presburger
    moreover assume "k \<le> n - 32 \<and> n - 32 < k + w"
    ultimately show False using assms(3) by auto
  qed
  ultimately show ?thesis
    using True assms(1,2) by (auto simp: hbit_update bit_put_bits hbit_def)
qed (simp add: hbit_update assms)

lemma flag_masks:
  "(0x80 :: 32 word) = push_bit 7 (mask 1)" "(0x40 :: 32 word) = push_bit 6 (mask 1)"
  "(0x20 :: 32 word) = push_bit 5 (mask 1)" "(0x18 :: 32 word) = push_bit 3 (mask 2)"
  by (simp_all add: mask_eq_exp_minus_1 push_bit_eq_mult)

lemma set_flags:
  "set_is_inner_bptree_node v h = h[4 := put_bits 7 1 (of_bool v) (h ! 4)]"
  "set_hasrefs v h = h[4 := put_bits 6 1 (of_bool v) (h ! 4)]"
  "set_context_flag v h = h[4 := put_bits 5 1 (of_bool v) (h ! 4)]"
  "set_wtype t h = h[4 := put_bits 3 2 (int_of_wtype t) (h ! 4)]"
  by (simp_all only: set_is_inner_bptree_node_def set_hasrefs_def set_context_flag_def set_wtype_def
      put_bits_def flag_masks)

lemma set_width_put: "set_width v h = do {
   w \<leftarrow> log2_loop v 0; if w < 8 then Some (h[4 := put_bits 0 3 (of_nat w) (h ! 4)]) else None }"
proof -
  have "(0x7 :: 32 word) = mask 3" by (simp add: mask_eq_exp_minus_1)
  then show ?thesis by (simp only: set_width_def put_bits_def push_bit_0_id id_apply)
qed

lemma fits_of_bool [simp]: "fits_bits 1 (of_bool v)"
  by (simp add: fits_bits_def)

lemma fits_wtype [simp]: "fits_bits 2 (int_of_wtype t)"
  by (cases t) (simp_all add: fits_bits_def int_of_wtype_def)

lemma wtype_of_int_of_wtype [simp]: "wtype_of_int (int_of_wtype t) = t"
  by (cases t) (simp_all add: int_of_wtype_def wtype_of_int_def)

definition width_ok :: "int \<Rightarrow> bool" where
  "width_ok w \<longleftrightarrow> w \<in> {0, 1, 2, 4, 8, 16, 32, 64}"

lemma log2_widths [simp]:
  "log2_loop 0 k = Some k" "log2_loop 1 k = Some (k + 1)" "log2_loop 2 k = Some (k + 2)"
  "log2_loop 4 k = Some (k + 3)" "log2_loop 8 k = Some (k + 4)" "log2_loop 16 k = Some (k + 5)"
  "log2_loop 32 k = Some (k + 6)" "log2_loop 64 k = Some (k + 7)"
  by (simp_all add: log2_loop.simps)

lemma fits_of_nat: "w < 8 \<Longrightarrow> fits_bits 3 (of_nat w)"
  by (simp add: fits_bits_def take_bit_of_nat take_bit_nat_eq_self)

lemma put_flag_get:
  assumes "length h = 8" "k < 8"
  shows "hbit (h[4 := put_bits k 1 (of_bool v) (h ! 4)]) (32 + k) = v"
proof -
  have "(32 + k) div 8 = 4" "(32 + k) mod 8 = k" using assms(2) by presburger+
  then show ?thesis using assms(2) by (simp only: hbit_update [OF assms(1)] bit_put_bits [OF fits_of_bool]) simp
qed

lemma put_flag_facts:
  assumes "length h = 8"
  shows "length (h[4 := put_bits k w x (h ! 4)]) = 8" "(h[4 := b]) ! 4 = b"
  using assms by simp_all

interpretation inner_flag: header_field get_is_inner_bptree_node "\<lambda>v h. Some (set_is_inner_bptree_node v h)"
    "\<lambda>_. True" id "{39}"
  using put_flag_get [where k = 7] put_bits_frame [OF fits_of_bool, where k = 7] depends_flags
  by unfold_locales (auto simp: set_flags)

interpretation refs_flag: header_field get_hasrefs "\<lambda>v h. Some (set_hasrefs v h)" "\<lambda>_. True" id "{38}"
  using put_flag_get [where k = 6] put_bits_frame [OF fits_of_bool, where k = 6] depends_flags
  by unfold_locales (auto simp: set_flags)

interpretation context_flag: header_field get_context_flag "\<lambda>v h. Some (set_context_flag v h)"
    "\<lambda>_. True" id "{37}"
  using put_flag_get [where k = 5] put_bits_frame [OF fits_of_bool, where k = 5] depends_flags
  by unfold_locales (auto simp: set_flags)

interpretation wtype_field: header_field get_wtype "\<lambda>v h. Some (set_wtype v h)" "\<lambda>_. True" id "{35..<37}"
  using put_bits_frame [OF fits_wtype, where k = 3] slice_put_bits [OF fits_wtype, where k = 3] depends_wtype
  by unfold_locales (auto simp: set_flags get_wtype_slice put_flag_facts)


lemma width_codes:
  "take_bit 3 (si (put_bits 0 3 0 b)) = 0" "take_bit 3 (si (put_bits 0 3 1 b)) = 1"
  "take_bit 3 (si (put_bits 0 3 2 b)) = 2" "take_bit 3 (si (put_bits 0 3 3 b)) = 3"
  "take_bit 3 (si (put_bits 0 3 4 b)) = 4" "take_bit 3 (si (put_bits 0 3 5 b)) = 5"
  "take_bit 3 (si (put_bits 0 3 6 b)) = 6" "take_bit 3 (si (put_bits 0 3 7 b)) = 7"
proof -
  have *: "fits_bits 3 x \<Longrightarrow> take_bit 3 (si (put_bits 0 3 x b)) = x" for x
    using slice_put_bits [of 3 x 0 b] by simp
  show "take_bit 3 (si (put_bits 0 3 0 b)) = 0" "take_bit 3 (si (put_bits 0 3 1 b)) = 1"
    "take_bit 3 (si (put_bits 0 3 2 b)) = 2" "take_bit 3 (si (put_bits 0 3 3 b)) = 3"
    "take_bit 3 (si (put_bits 0 3 4 b)) = 4" "take_bit 3 (si (put_bits 0 3 5 b)) = 5"
    "take_bit 3 (si (put_bits 0 3 6 b)) = 6" "take_bit 3 (si (put_bits 0 3 7 b)) = 7"
    by (rule *; simp add: fits_bits_def)+
qed

interpretation width_field: header_field get_width set_width width_ok "\<lambda>w. word_of_int w" "{32..<35}"
proof
  show "depends_on get_width {32..<35}" by (rule depends_width)
next
  fix h h' :: header and v assume h: "length h = 8"
  show "\<exists>h'. set_width v h = Some h'" if "width_ok v"
    using that by (auto simp: set_width_put width_ok_def)
  show "length h' = 8" if "set_width v h = Some h'"
    using that h by (auto simp: set_width_put split: if_splits bind_splits)
  show "hbit h' n = hbit h n" if "set_width v h = Some h'" "n \<notin> {32..<35}" for n
    using that put_bits_frame [OF fits_of_nat h, where k = 0]
    by (auto simp: set_width_put split: if_splits bind_splits)
  show "get_width h' = word_of_int v" if "width_ok v" "set_width v h = Some h'"
    using that h by (auto simp: set_width_put get_width_slice width_ok_def uc_def width_codes)
qed

lemma take_bit_below: "unat v < 2 ^ n \<Longrightarrow> take_bit n v = v" for v :: "64 word"
  by (simp add: word_unat_eq_iff unsigned_take_bit_eq take_bit_nat_eq_self)

lemma us_byte: "us (uc_size (drop_bit k v AND 0xff)) = take_bit 8 (drop_bit k v)"
proof -
  have "(0xff :: 64 word) = mask 8" by (simp add: mask_eq_exp_minus_1)
  then have "us (uc_size (drop_bit k v AND 0xff)) = us (uc_size (take_bit 8 (drop_bit k v)))"
    by (simp add: take_bit_eq_mask)
  also have "\<dots> = take_bit 8 (drop_bit k v)"
    by (rule bit_word_eqI) (auto simp: bit_uc_size bit_take_bit_iff)
  finally show ?thesis .
qed

lemma join_slices:
  "push_bit k (take_bit m (drop_bit k v)) + take_bit k v = take_bit (k + m) v" for v :: "64 word"
proof -
  have "push_bit k (take_bit m (drop_bit k v)) AND take_bit k v = 0"
    by (rule bit_word_eqI) (auto simp: bit_simps)
  then have "push_bit k (take_bit m (drop_bit k v)) + take_bit k v =
      push_bit k (take_bit m (drop_bit k v)) OR take_bit k v"
    by (rule disjunctive_add_eq_or)
  also have "\<dots> = take_bit (k + m) v"
    by (rule bit_word_eqI) (auto simp: bit_simps)
  finally show ?thesis .
qed

lemma three_bytes:
  "push_bit 16 (take_bit 8 (drop_bit 16 v)) + push_bit 8 (take_bit 8 (drop_bit 8 v)) + take_bit 8 v =
   take_bit 24 v" for v :: "64 word"
  using join_slices [of 8 8 v] join_slices [of 16 8 v] by (simp add: add.assoc)


lemma frame_bytes:
  assumes "length h = 8" "n \<notin> {8 * i..<8 * i + 24}" "j = i + 1" "k = i + 2"
  shows "hbit (h[i := a, j := b, k := c]) n = hbit h n"
proof -
  have "n div 8 \<noteq> i" "n div 8 \<noteq> j" "n div 8 \<noteq> k"
    using assms(2-4) div_mult_mod_eq [of n 8] mod_less_divisor [of 8 n] by auto
  then show ?thesis using assms(1) by (simp add: hbit_update)
qed

interpretation size_field: header_field get_size set_size "\<lambda>v. v \<le> 0xffffff" id "{40..<64}"
proof
  show "depends_on get_size {40..<64}" by (rule depends_size)
next
  fix h h' :: header and v :: "64 word" assume h: "length h = 8"
  show "\<exists>h'. set_size v h = Some h'" if "v \<le> 0xffffff"
    using that by (simp add: set_size_def)
  show "length h' = 8" if "set_size v h = Some h'"
    using that h by (auto simp: set_size_def split: if_splits)
  show "hbit h' n = hbit h n" if "set_size v h = Some h'" "n \<notin> {40..<64}" for n
    using that frame_bytes [OF h, of n 5 6 7] by (auto simp: set_size_def split: if_splits)
  show "get_size h' = id v" if "v \<le> 0xffffff" "set_size v h = Some h'"
  proof -
    have "unat v < 2 ^ 24" using that(1) by (simp add: word_le_nat_alt)
    then show ?thesis
      using that h three_bytes [of v] us_byte [of 0 v]
      by (auto simp: set_size_def get_size_def us_byte take_bit_below)
  qed
qed

lemma promoted_shift: "ucast (push_bit 3 (si b)) = push_bit 3 (us b)"
proof (rule bit_word_eqI)
  fix m
  have "bit b (m - 3) \<Longrightarrow> m - 3 < 8" using bit_imp_le_length by fastforce
  then show "bit (ucast (push_bit 3 (si b)) :: 64 word) m = bit (push_bit 3 (us b)) m"
    by (auto simp: bit_ucast_iff bit_push_bit_iff)
qed

interpretation capacity_field: header_field get_capacity set_capacity "\<lambda>v. v \<le> push_bit 3 0xffffff"
    "\<lambda>v. v AND NOT 7" "{0..<24}"
proof
  show "depends_on get_capacity {0..<24}" by (rule depends_capacity)
next
  fix h h' :: header and v :: "64 word" assume h: "length h = 8"
  show "\<exists>h'. set_capacity v h = Some h'" if "v \<le> push_bit 3 0xffffff"
    using that by (simp add: set_capacity_def)
  show "length h' = 8" if "set_capacity v h = Some h'"
    using that h by (auto simp: set_capacity_def split: if_splits)
  show "hbit h' n = hbit h n" if "set_capacity v h = Some h'" "n \<notin> {0..<24}" for n
    using that frame_bytes [OF h, of n 0 1 2] by (auto simp: set_capacity_def split: if_splits)
  show "get_capacity h' = v AND NOT 7" if "v \<le> push_bit 3 0xffffff" "set_capacity v h = Some h'"
  proof -
    let ?u = "drop_bit 3 v"
    have "unat v < 2 ^ 27" using that(1) by (simp add: word_le_nat_alt)
    then have v: "take_bit 27 v = v" by (rule take_bit_below)
    have h': "h' = h[0 := uc_size (drop_bit 19 v AND 0xff), 1 := uc_size (drop_bit 11 v AND 0xff),
        2 := uc_size (drop_bit 3 v AND 0xff)]"
      using that by (simp add: set_capacity_def)
    have "get_capacity h' = push_bit 19 (take_bit 8 (drop_bit 19 v)) +
        push_bit 11 (take_bit 8 (drop_bit 11 v)) + push_bit 3 (take_bit 8 ?u)"
      using h unfolding h' get_capacity_def by (simp add: promoted_shift us_byte)
    also have "\<dots> = push_bit 3 (push_bit 16 (take_bit 8 (drop_bit 16 ?u)) +
        push_bit 8 (take_bit 8 (drop_bit 8 ?u)) + take_bit 8 ?u)"
      by (simp add: push_bit_add)
    also have "\<dots> = push_bit 3 (take_bit 24 ?u)" by (simp only: three_bytes)
    also have "\<dots> = take_bit 27 v AND NOT (mask 3)"
      by (rule bit_word_eqI) (auto simp: bit_simps)
    also have "\<dots> = v AND NOT 7" using v by (simp add: mask_eq_exp_minus_1)
    finally show ?thesis .
  qed
qed


section \<open>The header as a record\<close>

record header_fields =
  hf_inner :: bool
  hf_hasrefs :: bool
  hf_context :: bool
  hf_wtype :: width_type
  hf_width :: byte
  hf_size :: "64 word"
  hf_capacity :: "64 word"

definition fields :: "header \<Rightarrow> header_fields" where
  "fields h = \<lparr>hf_inner = get_is_inner_bptree_node h, hf_hasrefs = get_hasrefs h,
     hf_context = get_context_flag h, hf_wtype = get_wtype h, hf_width = get_width h,
     hf_size = get_size h, hf_capacity = get_capacity h\<rparr>"

datatype header_write =
    Write_inner bool
  | Write_hasrefs bool
  | Write_context bool
  | Write_wtype width_type
  | Write_width int
  | Write_size "64 word"
  | Write_capacity "64 word"

fun write_header :: "header_write \<Rightarrow> header \<Rightarrow> header option" where
  "write_header (Write_inner v) h = Some (set_is_inner_bptree_node v h)"
| "write_header (Write_hasrefs v) h = Some (set_hasrefs v h)"
| "write_header (Write_context v) h = Some (set_context_flag v h)"
| "write_header (Write_wtype v) h = Some (set_wtype v h)"
| "write_header (Write_width v) h = set_width v h"
| "write_header (Write_size v) h = set_size v h"
| "write_header (Write_capacity v) h = set_capacity v h"

fun write_ok :: "header_write \<Rightarrow> bool" where
  "write_ok (Write_width v) = width_ok v"
| "write_ok (Write_size v) = (v \<le> 0xffffff)"
| "write_ok (Write_capacity v) = (v \<le> push_bit 3 0xffffff)"
| "write_ok _ = True"

fun write_fields :: "header_write \<Rightarrow> header_fields \<Rightarrow> header_fields" where
  "write_fields (Write_inner v) f = f\<lparr>hf_inner := v\<rparr>"
| "write_fields (Write_hasrefs v) f = f\<lparr>hf_hasrefs := v\<rparr>"
| "write_fields (Write_context v) f = f\<lparr>hf_context := v\<rparr>"
| "write_fields (Write_wtype v) f = f\<lparr>hf_wtype := v\<rparr>"
| "write_fields (Write_width v) f = f\<lparr>hf_width := word_of_int v\<rparr>"
| "write_fields (Write_size v) f = f\<lparr>hf_size := v\<rparr>"
| "write_fields (Write_capacity v) f = f\<lparr>hf_capacity := v AND NOT 7\<rparr>"

lemmas depends_all = depends_flags depends_wtype depends_width depends_size depends_capacity

lemma write_some: "length h = 8 \<Longrightarrow> write_ok op \<Longrightarrow> \<exists>h'. write_header op h = Some h'"
  by (cases op) (auto simp: width_field.put_some size_field.put_some capacity_field.put_some)

lemma write_length: "length h = 8 \<Longrightarrow> write_header op h = Some h' \<Longrightarrow> length h' = 8"
  by (cases op) (auto simp: set_flags dest: width_field.put_length size_field.put_length
      capacity_field.put_length)

lemma write_fields_correct:
  assumes "length h = 8" "write_ok op" "write_header op h = Some h'"
  shows "fields h' = write_fields op (fields h)"
proof (cases op)
  case (Write_inner v)
  then have *: "Some (set_is_inner_bptree_node v h) = Some h'" using assms by simp
  show ?thesis
    using inner_flag.get_put [OF assms(1) _ *]
    by (simp add: fields_def Write_inner depends_all [THEN inner_flag.other_field [OF assms(1) *]] del: flag_bits)
next
  case (Write_hasrefs v)
  then have *: "Some (set_hasrefs v h) = Some h'" using assms by simp
  show ?thesis
    using refs_flag.get_put [OF assms(1) _ *]
    by (simp add: fields_def Write_hasrefs depends_all [THEN refs_flag.other_field [OF assms(1) *]] del: flag_bits)
next
  case (Write_context v)
  then have *: "Some (set_context_flag v h) = Some h'" using assms by simp
  show ?thesis
    using context_flag.get_put [OF assms(1) _ *]
    by (simp add: fields_def Write_context depends_all [THEN context_flag.other_field [OF assms(1) *]] del: flag_bits)
next
  case (Write_wtype v)
  then have *: "Some (set_wtype v h) = Some h'" using assms by simp
  show ?thesis
    using wtype_field.get_put [OF assms(1) _ *]
    by (simp add: fields_def Write_wtype depends_all [THEN wtype_field.other_field [OF assms(1) *]] del: flag_bits)
next
  case (Write_width v)
  then have *: "set_width v h = Some h'" "width_ok v" using assms by simp_all
  show ?thesis
    using width_field.get_put [OF assms(1) *(2,1)]
    by (simp add: fields_def Write_width depends_all [THEN width_field.other_field [OF assms(1) *(1)]] del: flag_bits)
next
  case (Write_size v)
  then have *: "set_size v h = Some h'" "v \<le> 0xffffff" using assms by simp_all
  show ?thesis
    using size_field.get_put [OF assms(1) *(2,1)]
    by (simp add: fields_def Write_size depends_all [THEN size_field.other_field [OF assms(1) *(1)]] del: flag_bits)
next
  case (Write_capacity v)
  then have *: "set_capacity v h = Some h'" "v \<le> push_bit 3 0xffffff" using assms by simp_all
  show ?thesis
    using capacity_field.get_put [OF assms(1) *(2,1)]
    by (simp add: fields_def Write_capacity depends_all [THEN capacity_field.other_field [OF assms(1) *(1)]] del: flag_bits)
qed

text \<open>
  C29. A header of eight bytes behaves as a record of its seven fields: every write of an admissible
  value succeeds, reads back as that value (a capacity rounded down to a multiple of eight), and
  leaves the other fields as they were.
\<close>

theorem header_is_a_record:
  assumes "length h = 8" "write_ok op"
  shows "\<exists>h'. write_header op h = Some h' \<and> length h' = 8 \<and> fields h' = write_fields op (fields h)"
  using write_some [OF assms] write_length [OF assms(1)] write_fields_correct [OF assms] by blast

theorem header_is_a_record_witness:
  "\<exists>h'. write_header (Write_width 64) (replicate 8 0) = Some h' \<and> length h' = 8 \<and>
     fields h' = write_fields (Write_width 64) (fields (replicate 8 0))"
  by (rule header_is_a_record) (simp_all add: width_ok_def)

section \<open>Sizes\<close>

lemma unat_of_small: "n < 2 ^ 64 \<Longrightarrow> unat (of_nat n :: 64 word) = n"
  by (simp add: unat_of_nat)

lemma drop_of_nat: "n < 2 ^ 64 \<Longrightarrow> drop_bit k (of_nat n :: 64 word) = of_nat (n div 2 ^ k)"
  by (rule word_unat_eq_iff [THEN iffD2])
    (simp add: unsigned_drop_bit_eq drop_bit_eq_div [where ?'a = nat] unat_of_nat
      div_le_dividend [THEN le_less_trans] take_bit_nat_eq_self)

lemma align_of_nat: "n < 2 ^ 64 \<Longrightarrow> (of_nat n :: 64 word) AND NOT 7 = of_nat (8 * (n div 8))"
proof -
  assume n: "n < 2 ^ 64"
  have "(of_nat n :: 64 word) AND NOT 7 = of_nat n AND NOT (mask 3)" by (simp add: mask_eq_exp_minus_1)
  also have "\<dots> = push_bit 3 (drop_bit 3 (of_nat n))"
    by (rule bit_word_eqI) (auto simp: bit_simps)
  also have "\<dots> = of_nat (8 * (n div 8))" using n by (simp add: drop_of_nat push_bit_eq_mult mult.commute)
  finally show ?thesis .
qed

lemma calc_bits:
  assumes "unat sz < 2 ^ 24" "unat w \<le> 64"
  shows "calc_byte_size Wtype_Bits sz w = Some (of_nat (8 * ((unat sz * unat w + 63) div 64) + 8))"
proof -
  let ?n = "unat sz * unat w"
  have "?n \<le> 2 ^ 24 * 64" by (rule mult_le_mono) (use assms in simp_all)
  then have n: "?n + 63 < 2 ^ 64" by simp
  have "sz * ucast w = of_nat ?n" by simp
  then have "sz * ucast w + 7 = of_nat (?n + 7)" by simp
  then have *: "drop_bit 3 (sz * ucast w + 7) = of_nat ((?n + 7) div 8)"
    using n drop_of_nat [of "?n + 7" 3] by simp
  have "(?n + 7) div 8 + 7 < 2 ^ 64" using n by linarith
  then have "(of_nat ((?n + 7) div 8 + 7) :: 64 word) AND NOT 7 = of_nat (8 * (((?n + 7) div 8 + 7) div 8))"
    by (rule align_of_nat)
  moreover have "((?n + 7) div 8 + 7) div 8 = (?n + 63) div 64"
    using div_mult2_eq [of "?n + 63" 8 8] by (simp add: div_add_self2 [symmetric] add.assoc)
  moreover have "sz < 0x1000000" using assms(1) by (simp add: word_less_nat_alt)
  ultimately show ?thesis by (simp add: calc_byte_size_def * add.commute)
qed

lemma get_size_nat:
  "get_size h = of_nat (65536 * unat (h ! 5) + 256 * unat (h ! 6) + unat (h ! 7))"
proof -
  have "us b = of_nat (unat b)" for b by (simp add: us_def)
  then show ?thesis by (simp add: get_size_def push_bit_eq_mult mult.commute del: of_nat_unat)
qed

lemma get_size_bound: "unat (get_size h) < 2 ^ 24"
proof -
  let ?n = "65536 * unat (h ! 5) + 256 * unat (h ! 6) + unat (h ! 7)"
  have "unat (h ! i) < 256" for i using unsigned_less [of "h ! i"] by simp
  from this [of 5] this [of 6] this [of 7] have "?n < 2 ^ 24" by simp
  then show ?thesis unfolding get_size_nat by (subst unat_of_small) simp_all
qed



end
