(* ===== verification/PackedArray.thy ===== *)
theory PackedArray
  imports NodeHeader
begin

text \<open>
  The payload of an array node (\<open>include/core/realm/array_direct.hpp\<close>): elements of 0, 1, 2, 4, 8,
  16, 32 or 64 bits, packed from the least significant bit of the first byte on; those of less than
  eight bits are unsigned, the others in two's complement. The payload is the list of its bytes. Reading or writing
  behind it is \<open>None\<close>, and so is a failing debug assertion. The memory of the platform is
  little endian, and \<open>char\<close> is signed.
\<close>

type_synonym payload = "byte list"

section \<open>Reading and writing\<close>

definition read_byte :: "payload \<Rightarrow> nat \<Rightarrow> byte option" where
  "read_byte d n = (if n < length d then Some (d ! n) else None)"

definition write_byte :: "payload \<Rightarrow> nat \<Rightarrow> byte \<Rightarrow> payload option" where
  "write_byte d n b = (if n < length d then Some (d[n := b]) else None)"

text \<open>A load and a store of an integer of \<open>k\<close> bytes through a cast pointer.\<close>

definition load :: "nat \<Rightarrow> payload \<Rightarrow> nat \<Rightarrow> 'a::len word option" where
  "load k d off = (if off + k \<le> length d then Some (word_rcat (rev (take k (drop off d)))) else None)"

definition store :: "nat \<Rightarrow> payload \<Rightarrow> nat \<Rightarrow> 'a::len word \<Rightarrow> payload option" where
  "store k d off v = (if off + k \<le> length d
     then Some (take off d @ map (\<lambda>j. ucast (drop_bit (8 * j) v)) [0..<k] @ drop (off + k) d) else None)"

definition get_direct :: "nat \<Rightarrow> payload \<Rightarrow> nat \<Rightarrow> int option" where
  "get_direct w d ndx =
    (if w = 0 then Some 0
     else if w = 1 then do { b \<leftarrow> read_byte d (drop_bit 3 ndx); Some (drop_bit (ndx AND 7) (sint b) AND 0x01) }
     else if w = 2 then do { b \<leftarrow> read_byte d (drop_bit 2 ndx); Some (drop_bit (push_bit 1 (ndx AND 3)) (sint b) AND 0x03) }
     else if w = 4 then do { b \<leftarrow> read_byte d (drop_bit 1 ndx); Some (drop_bit (push_bit 2 (ndx AND 1)) (sint b) AND 0x0F) }
     else if w = 8 then do { b \<leftarrow> read_byte d ndx; Some (sint b) }
     else if w = 16 then do { v \<leftarrow> load 2 d (ndx * 2); Some (sint (v :: 16 word)) }
     else if w = 32 then do { v \<leftarrow> load 4 d (ndx * 4); Some (sint (v :: 32 word)) }
     else if w = 64 then do { v \<leftarrow> load 8 d (ndx * 8); Some (sint (v :: 64 word)) }
     else None)"

text \<open>
  The masks are of type \<open>int\<close>, so the byte is promoted; of the value, \<open>int(value)\<close> keeps the
  low 32 bits.
\<close>

definition set_bits_in_byte :: "nat \<Rightarrow> 32 word \<Rightarrow> int \<Rightarrow> byte \<Rightarrow> byte" where
  "set_bits_in_byte bit_ndx msk v b =
     uc (si b AND NOT (push_bit bit_ndx msk) OR push_bit bit_ndx (word_of_int v AND msk))"

definition set_direct :: "nat \<Rightarrow> payload \<Rightarrow> nat \<Rightarrow> int \<Rightarrow> payload option" where
  "set_direct w d ndx v =
    (if w = 0 then (if v = 0 then Some d else None)
     else if w = 1 then
       (if 0 \<le> v \<and> v \<le> 0x01 then do {
          b \<leftarrow> read_byte d (ndx div 8); write_byte d (ndx div 8) (set_bits_in_byte (ndx mod 8) 0x01 v b) } else None)
     else if w = 2 then
       (if 0 \<le> v \<and> v \<le> 0x03 then do {
          b \<leftarrow> read_byte d (ndx div 4); write_byte d (ndx div 4) (set_bits_in_byte (ndx mod 4 * 2) 0x03 v b) } else None)
     else if w = 4 then
       (if 0 \<le> v \<and> v \<le> 0x0F then do {
          b \<leftarrow> read_byte d (ndx div 2); write_byte d (ndx div 2) (set_bits_in_byte (ndx mod 2 * 4) 0x0F v b) } else None)
     else if w = 8 then
       (if - (2 ^ 7) \<le> v \<and> v \<le> 2 ^ 7 - 1 then write_byte d ndx (word_of_int v) else None)
     else if w = 16 then
       (if - (2 ^ 15) \<le> v \<and> v \<le> 2 ^ 15 - 1 then store 2 d (ndx * 2) (word_of_int v :: 16 word) else None)
     else if w = 32 then
       (if - (2 ^ 31) \<le> v \<and> v \<le> 2 ^ 31 - 1 then store 4 d (ndx * 4) (word_of_int v :: 32 word) else None)
     else if w = 64 then
       (if - (2 ^ 63) \<le> v \<and> v \<le> 2 ^ 63 - 1 then store 8 d (ndx * 8) (word_of_int v :: 64 word) else None)
     else None)"

partial_function (option) fill_direct :: "nat \<Rightarrow> payload \<Rightarrow> nat \<Rightarrow> nat \<Rightarrow> int \<Rightarrow> payload option" where
  "fill_direct w d i e v =
    (if i \<noteq> e then do { d \<leftarrow> set_direct w d i v; fill_direct w d (Suc i) e v } else Some d)"

text \<open>
  \<open>to_size_t\<close> (\<open>include/core/realm/utilities.hpp\<close>) asserts that the value is not negative; \<open>to_ref\<close>
  (\<open>include/core/realm/alloc.hpp\<close>) that it is a multiple of eight, in the sense of C++ \<open>%\<close>, for
  which a negative multiple leaves no remainder either.
\<close>

definition to_size_t :: "int \<Rightarrow> 64 word option" where
  "to_size_t v = (if 0 \<le> v then Some (word_of_int v) else None)"

definition to_ref :: "int \<Rightarrow> 64 word option" where
  "to_ref v = (if 8 dvd v then Some (word_of_int v) else None)"

definition from_ref :: "64 word \<Rightarrow> int option" where
  "from_ref v = (if v mod 8 = 0 then Some (sint v) else None)"

definition get_two :: "nat \<Rightarrow> payload \<Rightarrow> nat \<Rightarrow> (int \<times> int) option" where
  "get_two w d ndx = do {
     v0 \<leftarrow> get_direct w d (ndx + 0); v0 \<leftarrow> to_size_t v0;
     v1 \<leftarrow> get_direct w d (ndx + 1); v1 \<leftarrow> to_size_t v1;
     Some (sint v0, sint v1) }"

definition get_three :: "nat \<Rightarrow> payload \<Rightarrow> nat \<Rightarrow> (64 word \<times> 64 word \<times> 64 word) option" where
  "get_three w d ndx = do {
     v0 \<leftarrow> get_direct w d (ndx + 0); v0 \<leftarrow> to_ref v0;
     v1 \<leftarrow> get_direct w d (ndx + 1); v1 \<leftarrow> to_ref v1;
     v2 \<leftarrow> get_direct w d (ndx + 2); v2 \<leftarrow> to_ref v2;
     Some (v0, v1, v2) }"

section \<open>The elements a payload stands for\<close>

definition dbit :: "payload \<Rightarrow> nat \<Rightarrow> bool" where
  "dbit d n = bit (d ! (n div 8)) (n mod 8)"

text \<open>A bit sequence of width \<open>w\<close> read as an element.\<close>

definition as_element :: "nat \<Rightarrow> int \<Rightarrow> int" where
  "as_element w u = (if w < 8 then take_bit w u else signed_take_bit (w - 1) u)"

definition elem :: "nat \<Rightarrow> payload \<Rightarrow> nat \<Rightarrow> int" where
  "elem w d i = as_element w (horner_sum of_bool 2 (map (\<lambda>k. dbit d (w * i + k)) [0..<w]))"

definition widths :: "nat set" where
  "widths = {0, 1, 2, 4, 8, 16, 32, 64}"

definition holds :: "nat \<Rightarrow> payload \<Rightarrow> nat \<Rightarrow> bool" where
  "holds w d n \<longleftrightarrow> w \<in> widths \<and> n * w \<le> 8 * length d"


lemma bit_byte_plus:
  "bit (uint (b :: byte) + 256 * x) n \<longleftrightarrow> (if n < 8 then bit b n else bit x (n - 8))"
proof -
  have u: "uint b < 256" using unsigned_less [of b] by simp
  have "take_bit 8 (uint b + 256 * x) = uint b" "drop_bit 8 (uint b + 256 * x) = x"
    using u by (simp_all add: take_bit_eq_mod drop_bit_eq_div)
  then show ?thesis
    using bit_take_bit_iff [of 8 "uint b + 256 * x" n] bit_drop_bit_eq [of 8 "uint b + 256 * x"]
    by (auto simp: bit_uint_iff fun_eq_iff dest: bit_imp_le_length)
qed

lemma bit_horner_bytes:
  "bit (horner_sum uint 256 (bs :: byte list)) n \<longleftrightarrow> n < 8 * length bs \<and> bit (bs ! (n div 8)) (n mod 8)"
proof (induction bs arbitrary: n)
  case (Cons b bs)
  show ?case
  proof (cases "n < 8")
    case False
    then obtain m where "n = m + 8" by (metis add.commute le_Suc_ex not_le)
    moreover have "(m + 8) div 8 = Suc (m div 8)" by simp
    ultimately show ?thesis using Cons by (simp add: bit_byte_plus)
  qed (simp add: bit_byte_plus)
qed simp

lemma bit_rcat_bytes:
  "bit (word_rcat (rev (bs :: byte list)) :: 'a::len word) n \<longleftrightarrow>
     n < LENGTH('a) \<and> n < 8 * length bs \<and> bit (bs ! (n div 8)) (n mod 8)"
  by (simp add: word_rcat_def bit_word_of_int_iff bit_horner_bytes)

lemma load_some: "off + k \<le> length d \<Longrightarrow> \<exists>v :: 'a::len word. load k d off = Some v"
  by (simp add: load_def)

lemma load_bit:
  assumes "load k d off = Some (v :: 'a::len word)"
  shows "bit v n \<longleftrightarrow> n < LENGTH('a) \<and> n < 8 * k \<and> dbit d (8 * off + n)"
proof -
  have k: "off + k \<le> length d" and v: "v = word_rcat (rev (take k (drop off d)))"
    using assms by (simp_all add: load_def split: if_splits)
  have "take k (drop off d) ! (n div 8) = d ! ((8 * off + n) div 8)" if "n < 8 * k"
    using that k by simp
  then show ?thesis using k by (auto simp: v bit_rcat_bytes dbit_def)
qed

lemma bit_raw_element:
  "bit (horner_sum of_bool 2 (map (\<lambda>k. dbit d (w * i + k)) [0..<w]) :: int) n \<longleftrightarrow>
     n < w \<and> dbit d (w * i + n)"
  by (auto simp: bit_horner_sum_bit_iff)

lemma as_element_eqI:
  "(\<And>k. k < w \<Longrightarrow> bit u k = bit u' k) \<Longrightarrow> 0 < w \<Longrightarrow> as_element w u = as_element w u'"
  by (auto simp: as_element_def intro!: bit_eqI simp: bit_take_bit_iff bit_signed_take_bit_iff min_def)

lemma elem_eqI:
  assumes "\<And>k. k < w \<Longrightarrow> bit u k = dbit d (w * i + k)" "0 < w"
  shows "as_element w u = elem w d i"
  unfolding elem_def by (rule as_element_eqI) (use assms in \<open>simp_all add: bit_raw_element\<close>)

lemma sub_byte_index:
  assumes "w * r = (8 :: nat)" "k < w"
  shows "(w * i + k) div 8 = i div r" "(w * i + k) mod 8 = w * (i mod r) + k"
proof -
  have r: "0 < r" using assms(1) by (cases r) auto
  have "w * i = 8 * (i div r) + w * (i mod r)"
    using div_mult_mod_eq [of i r] assms(1) by (metis add_mult_distrib2 mult.assoc mult.commute)
  then have *: "w * i + k = 8 * (i div r) + (w * (i mod r) + k)" by simp
  have "i mod r + 1 \<le> r" using mod_less_divisor [OF r, of i] by simp
  then have "w * (i mod r + 1) \<le> w * r" by (rule mult_le_mono2)
  then have "w * (i mod r) + k < 8" unfolding assms(1) using assms(2) by simp
  then show "(w * i + k) div 8 = i div r" "(w * i + k) mod 8 = w * (i mod r) + k"
    unfolding * by simp_all
qed

lemma sub_byte_element:
  assumes "w * r = (8 :: nat)" "i div r < length d" "w < 8" "0 < w"
  shows "drop_bit (w * (i mod r)) (sint (d ! (i div r))) AND mask w = elem w d i"
proof -
  have "drop_bit (w * (i mod r)) (sint (d ! (i div r))) AND mask w =
      as_element w (drop_bit (w * (i mod r)) (sint (d ! (i div r))))"
    using assms(3) by (simp add: as_element_def take_bit_eq_mask)
  also have "\<dots> = elem w d i"
  proof (rule elem_eqI)
    fix k assume k: "k < w"
    then have "w * (i mod r) + k < 8" using sub_byte_index [OF assms(1) k, of i] by (metis mod_less_divisor zero_less_numeral)
    then show "bit (drop_bit (w * (i mod r)) (sint (d ! (i div r)))) k = dbit d (w * i + k)"
      using sub_byte_index [OF assms(1) k, of i] by (simp add: dbit_def bit_drop_bit_eq bit_sint_iff min_def)
  qed (rule assms(4))
  finally show ?thesis .
qed


lemma byte_element: "i < length d \<Longrightarrow> sint (d ! i) = elem 8 d i"
proof -
  assume "i < length d"
  have "sint (d ! i) = as_element 8 (uint (d ! i))" by (simp add: as_element_def sint_uint)
  also have "\<dots> = elem 8 d i" by (rule elem_eqI) (simp_all add: dbit_def bit_uint_iff)
  finally show ?thesis .
qed

lemma loaded_element:
  assumes "load (w div 8) d (i * (w div 8)) = Some (v :: 'a::len word)" "w = LENGTH('a)" "8 \<le> w" "8 dvd w"
  shows "sint v = elem w d i"
proof -
  have "sint v = as_element w (uint v)" using assms(2,3) by (simp add: as_element_def sint_uint)
  also have "\<dots> = elem w d i"
  proof (rule elem_eqI)
    fix k assume "k < w"
    moreover have e: "8 * (w div 8) = w" using assms(4) by simp
    moreover have "8 * (i * (w div 8)) = w * i" by (metis e mult.assoc mult.commute)
    ultimately show "bit (uint v) k = dbit d (w * i + k)"
      unfolding bit_uint_iff load_bit [OF assms(1)] assms(2) [symmetric] by metis
  qed (use assms(3) in simp)
  finally show ?thesis .
qed

lemma and_masks:
  "i AND 7 = i mod 8" "i AND 3 = i mod 4" "i AND 1 = i mod 2" for i :: nat
  using take_bit_eq_mask [of 3 i] take_bit_eq_mask [of 2 i] take_bit_eq_mask [of 1 i]
  by (simp_all add: take_bit_eq_mod mask_eq_exp_minus_1)

lemma int_masks: "(0x01 :: int) = mask 1" "(0x03 :: int) = mask 2" "(0x0F :: int) = mask 4"
  by (simp_all add: mask_eq_exp_minus_1)

lemma get_direct_elem:
  assumes "holds w d n" "i < n"
  shows "get_direct w d i = Some (elem w d i)"
proof -
  have "(i + 1) * w \<le> n * w" using assms(2) by (intro mult_le_mono1) simp
  then have b: "(i + 1) * w \<le> 8 * length d" using assms(1) by (simp add: holds_def)
  have load: "\<exists>v :: 'a::len word. load (w div 8) d (i * (w div 8)) = Some v" if "8 dvd w"
  proof (rule load_some)
    from that obtain k where "w = 8 * k" by (rule dvdE)
    then show "i * (w div 8) + w div 8 \<le> length d" using b by simp
  qed
  consider "w = 0" | "w = 1" | "w = 2" | "w = 4" | "w = 8" | "w = 16" | "w = 32" | "w = 64"
    using assms(1) by (auto simp: holds_def widths_def)
  then show ?thesis
  proof cases
    case 1 then show ?thesis by (simp add: get_direct_def elem_def as_element_def)
  next
    case 2
    then have "i div 8 < length d" using b by auto
    then show ?thesis using 2 sub_byte_element [of 1 8 i d]
      by (simp add: get_direct_def read_byte_def drop_bit_eq_div and_masks mask_eq_exp_minus_1)
  next
    case 3
    then have "i div 4 < length d" using b by auto
    then show ?thesis using 3 sub_byte_element [of 2 4 i d]
      by (simp add: get_direct_def read_byte_def drop_bit_eq_div [where ?'a = nat] and_masks mask_eq_exp_minus_1
          push_bit_eq_mult mult.commute)
  next
    case 4
    then have "i div 2 < length d" using b by auto
    then show ?thesis using 4 sub_byte_element [of 4 2 i d]
      by (simp add: get_direct_def read_byte_def drop_bit_eq_div [where ?'a = nat] and_masks mask_eq_exp_minus_1
          push_bit_eq_mult mult.commute)
  next
    case 5
    then have "i < length d" using b by simp
    then show ?thesis using 5 by (simp add: get_direct_def read_byte_def byte_element)
  next
    case 6
    then obtain v :: "16 word" where "load 2 d (i * 2) = Some v" using load by auto
    moreover from this have "sint v = elem 16 d i" by (intro loaded_element) simp_all
    ultimately show ?thesis using 6 by (simp add: get_direct_def)
  next
    case 7
    then obtain v :: "32 word" where "load 4 d (i * 4) = Some v" using load by auto
    moreover from this have "sint v = elem 32 d i" by (intro loaded_element) simp_all
    ultimately show ?thesis using 7 by (simp add: get_direct_def)
  next
    case 8
    then obtain v :: "64 word" where "load 8 d (i * 8) = Some v" using load by auto
    moreover from this have "sint v = elem 64 d i" by (intro loaded_element) simp_all
    ultimately show ?thesis using 8 by (simp add: get_direct_def)
  qed
qed


section \<open>Writing an element\<close>

definition in_width :: "nat \<Rightarrow> int \<Rightarrow> bool" where
  "in_width w v \<longleftrightarrow> as_element w v = v"

lemma in_width_iff:
  "in_width w v \<longleftrightarrow> (if w < 8 then 0 \<le> v \<and> v < 2 ^ w else - (2 ^ (w - 1)) \<le> v \<and> v < 2 ^ (w - 1))"
  by (simp add: in_width_def as_element_def take_bit_int_eq_self_iff signed_take_bit_int_eq_self_iff)

text \<open>What a write of element \<open>i\<close> does to the bits.\<close>

definition writes :: "nat \<Rightarrow> payload \<Rightarrow> nat \<Rightarrow> int \<Rightarrow> payload \<Rightarrow> bool" where
  "writes w d i v d' \<longleftrightarrow> length d' = length d \<and>
     (\<forall>j k. k < w \<longrightarrow> w * j + k < 8 * length d \<longrightarrow>
        dbit d' (w * j + k) = (if j = i then bit v k else dbit d (w * j + k)))"

lemma writes_elem:
  assumes "writes w d i v d'" "in_width w v" "0 < w" "(j + 1) * w \<le> 8 * length d"
  shows "elem w d' j = (if j = i then v else elem w d j)"
proof -
  have in_range: "w * j + k < 8 * length d" if "k < w" for k
    using that assms(4) by (simp add: algebra_simps)
  show ?thesis
  proof (cases "j = i")
    case True
    have "as_element w v = elem w d' j"
      using assms(1,3) in_range True by (intro elem_eqI) (auto simp: writes_def)
    then show ?thesis using assms(2) True by (simp add: in_width_def)
  next
    case False
    have "elem w d' j = as_element w (horner_sum of_bool 2 (map (\<lambda>k. dbit d (w * j + k)) [0..<w]))"
      using assms(1,3) in_range False
      by (intro elem_eqI [symmetric]) (auto simp: writes_def bit_raw_element)
    then show ?thesis using False by (simp add: elem_def)
  qed
qed

lemma bits_in_byte:
  assumes "msk = mask w" "w \<le> 8"
  shows "bit (set_bits_in_byte k msk v b) n \<longleftrightarrow> n < 8 \<and> (if k \<le> n \<and> n < k + w then bit v (n - k) else bit b n)"
proof -
  have f: "fits_bits w (word_of_int v AND mask w)"
    by (simp add: fits_bits_def flip: take_bit_eq_mask)
  have "set_bits_in_byte k msk v b = put_bits k w (word_of_int v AND mask w) b"
    by (simp only: set_bits_in_byte_def put_bits_def assms)
  then show ?thesis
    using assms(2) by (auto simp: bit_put_bits [OF f] bit_and_iff bit_mask_iff bit_word_of_int_iff)
qed

lemma writes_bits:
  assumes "w * r = (8 :: nat)" "i div r < length d" "0 < w" "msk = mask w"
  shows "writes w d i v (d[i div r := set_bits_in_byte (w * (i mod r)) msk v (d ! (i div r))])"
  unfolding writes_def
proof (intro conjI allI impI)
  fix j k assume k: "k < w" and "w * j + k < 8 * length d"
  have w8: "w \<le> 8" using assms(1) dvd_imp_le [of w 8] by (metis dvd_triv_left zero_less_numeral)
  note ix = sub_byte_index [OF assms(1) k, of j]
  have r: "0 < r" using assms(1) by (cases r) auto
  have j: "j = i \<longleftrightarrow> j div r = i div r \<and> j mod r = i mod r" by (metis div_mult_mod_eq)
  have "w * (i mod r) \<le> w * (j mod r) + k \<and> w * (j mod r) + k < w * (i mod r) + w \<longleftrightarrow> j mod r = i mod r"
  proof
    assume a: "w * (i mod r) \<le> w * (j mod r) + k \<and> w * (j mod r) + k < w * (i mod r) + w"
    have "(w * (j mod r) + k) div w = i mod r"
      by (rule div_nat_eqI) (use a in \<open>simp_all add: algebra_simps\<close>)
    then show "j mod r = i mod r" using k by simp
  qed (use k in simp)
  moreover have "w * (j mod r) + k < 8" using ix(2) by (metis mod_less_divisor zero_less_numeral)
  ultimately show "dbit (d[i div r := set_bits_in_byte (w * (i mod r)) msk v (d ! (i div r))]) (w * j + k) =
      (if j = i then bit v k else dbit d (w * j + k))"
    using assms(2) ix j by (auto simp: dbit_def nth_list_update bits_in_byte [OF assms(4) w8])
qed simp


lemma writes_store:
  assumes "store k d (i * k) (word_of_int v :: 'a::len word) = Some d'" "w = 8 * k" "LENGTH('a) = w"
  shows "writes w d i v d'"
proof -
  let ?bytes = "map (\<lambda>j. ucast (drop_bit (8 * j) (word_of_int v :: 'a word)) :: byte) [0..<k]"
  have k: "i * k + k \<le> length d" and d': "d' = take (i * k) d @ ?bytes @ drop (i * k + k) d"
    using assms(1) by (simp_all add: store_def split: if_splits)
  have "dbit d' (w * j + m) = (if j = i then bit v m else dbit d (w * j + m))" if m: "m < w" for j m
  proof -
    have e: "w * j + m = 8 * (j * k) + m" using assms(2) by simp
    have ix: "(w * j + m) div 8 = j * k + m div 8" "(w * j + m) mod 8 = m mod 8" unfolding e by simp_all
    have mk: "m div 8 < k" using m assms(2) by auto
    consider "j < i" | "j = i" | "i < j" by linarith
    then show ?thesis
    proof cases
      case 1
      then have "j * k + k \<le> i * k" using mult_le_mono1 [of "j + 1" i k] by simp
      then have "j * k + m div 8 < i * k" using mk by simp
      then show ?thesis unfolding dbit_def ix using 1 k by (simp add: d' nth_append)
    next
      case 2
      have "8 * (m div 8) + m mod 8 = m" by simp
      then show ?thesis
        unfolding dbit_def ix using 2 k mk m assms(3)
        by (simp add: d' nth_append bit_ucast_iff bit_drop_bit_eq bit_word_of_int_iff)
    next
      case 3
      then have "i * k + k \<le> j * k" using mult_le_mono1 [of "i + 1" j k] by simp
      then obtain q where q: "j * k = i * k + k + q" using le_Suc_ex by blast
      then show ?thesis unfolding dbit_def ix using 3 k by (simp add: d' nth_append add.assoc)
    qed
  qed
  then show ?thesis using k by (simp add: writes_def d')
qed

lemma writes_byte: "i < length d \<Longrightarrow> writes 8 d i v (d[i := word_of_int v])"
  by (auto simp: writes_def dbit_def nth_list_update bit_word_of_int_iff)

lemma set_direct_writes:
  assumes "holds w d n" "i < n" "in_width w v" "0 < w"
  shows "\<exists>d'. set_direct w d i v = Some d' \<and> writes w d i v d'"
proof -
  have "(i + 1) * w \<le> n * w" using assms(2) by (intro mult_le_mono1) simp
  then have b: "(i + 1) * w \<le> 8 * length d" using assms(1) by (simp add: holds_def)
  have store: "\<exists>d'. store k d (i * k) (word_of_int v :: 'a::len word) = Some d'" if "w = 8 * k" for k
    using that b by (simp add: store_def)
  consider "w = 1" | "w = 2" | "w = 4" | "w = 8" | "w = 16" | "w = 32" | "w = 64"
    using assms(1,4) by (auto simp: holds_def widths_def)
  then show ?thesis
  proof cases
    case 1
    then have "i div 8 < length d" using b by auto
    then show ?thesis using 1 assms(3) writes_bits [of 1 8 i d "0x01" v]
      by (simp add: set_direct_def read_byte_def write_byte_def in_width_iff mask_eq_exp_minus_1)
  next
    case 2
    then have "i div 4 < length d" using b by auto
    then show ?thesis using 2 assms(3) writes_bits [of 2 4 i d "0x03" v]
      by (simp add: set_direct_def read_byte_def write_byte_def in_width_iff mask_eq_exp_minus_1 mult.commute)
  next
    case 3
    then have "i div 2 < length d" using b by auto
    then show ?thesis using 3 assms(3) writes_bits [of 4 2 i d "0x0F" v]
      by (simp add: set_direct_def read_byte_def write_byte_def in_width_iff mask_eq_exp_minus_1 mult.commute)
  next
    case 4
    then have "i < length d" using b by simp
    then show ?thesis using 4 assms(3) writes_byte
      by (simp add: set_direct_def write_byte_def in_width_iff)
  next
    case 5
    moreover obtain d' where "store 2 d (i * 2) (word_of_int v :: 16 word) = Some d'" using 5 store by auto
    moreover from this have "writes 16 d i v d'" by (rule writes_store) simp_all
    ultimately show ?thesis using assms(3) by (simp add: set_direct_def in_width_iff)
  next
    case 6
    moreover obtain d' where "store 4 d (i * 4) (word_of_int v :: 32 word) = Some d'" using 6 store by auto
    moreover from this have "writes 32 d i v d'" by (rule writes_store) simp_all
    ultimately show ?thesis using assms(3) by (simp add: set_direct_def in_width_iff)
  next
    case 7
    moreover obtain d' where "store 8 d (i * 8) (word_of_int v :: 64 word) = Some d'" using 7 store by auto
    moreover from this have "writes 64 d i v d'" by (rule writes_store) simp_all
    ultimately show ?thesis using assms(3) by (simp add: set_direct_def in_width_iff)
  qed
qed


section \<open>The array as a list\<close>

definition elements :: "nat \<Rightarrow> payload \<Rightarrow> nat \<Rightarrow> int list" where
  "elements w d n = map (elem w d) [0..<n]"

lemma length_elements [simp]: "length (elements w d n) = n"
  by (simp add: elements_def)

lemma nth_elements [simp]: "i < n \<Longrightarrow> elements w d n ! i = elem w d i"
  by (simp add: elements_def)

lemma elem_in_width: "in_width w (elem w d i)"
  by (simp add: in_width_def elem_def as_element_def)

lemma set_direct_elements:
  assumes "holds w d n" "i < n" "in_width w v"
  shows "\<exists>d'. set_direct w d i v = Some d' \<and> holds w d' n \<and> elements w d' n = (elements w d n)[i := v]"
proof (cases "w = 0")
  case True
  then have v: "v = 0" using assms(3) by (simp add: in_width_iff)
  then have "elements w d n = (elements w d n)[i := v]"
    using True assms(2) by (intro nth_equalityI) (simp_all add: nth_list_update elem_def as_element_def)
  then show ?thesis using True v assms(1) by (simp add: set_direct_def)
next
  case False
  then obtain d' where d': "set_direct w d i v = Some d'" "writes w d i v d'"
    using set_direct_writes [OF assms] by blast
  have h: "holds w d' n" using d'(2) assms(1) by (simp add: writes_def holds_def)
  have "elem w d' j = (elements w d n)[i := v] ! j" if "j < n" for j
  proof -
    have "(j + 1) * w \<le> n * w" using that by (intro mult_le_mono1) simp
    then have "(j + 1) * w \<le> 8 * length d" using assms(1) by (simp add: holds_def)
    then show ?thesis
      using writes_elem [OF d'(2) assms(3)] False that assms(2) by (simp add: nth_list_update)
  qed
  then have "elements w d' n = (elements w d n)[i := v]"
    by (intro nth_equalityI) simp_all
  then show ?thesis using d'(1) h by blast
qed

lemma set_direct_refuses: "w \<in> widths \<Longrightarrow> \<not> in_width w v \<Longrightarrow> set_direct w d i v = None"
  unfolding widths_def by (elim insertE emptyE; auto simp: in_width_iff set_direct_def)

lemma fill_direct_elements:
  assumes "holds w d n" "b \<le> e" "e \<le> n" "in_width w v"
  shows "\<exists>d'. fill_direct w d b e v = Some d' \<and> holds w d' n \<and>
    elements w d' n = take b (elements w d n) @ replicate (e - b) v @ drop e (elements w d n)"
  using assms
proof (induction "e - b" arbitrary: b d)
  case 0
  then have "b = e" by simp
  then show ?case using 0 by (subst fill_direct.simps) simp
next
  case (Suc m)
  have be: "b < e" "b < n" using Suc by simp_all
  from set_direct_elements [OF Suc.prems(1) be(2) Suc.prems(4)] obtain d1 where
    d1: "set_direct w d b v = Some d1" "holds w d1 n" "elements w d1 n = (elements w d n)[b := v]" by blast
  have m: "m = e - Suc b" "Suc b \<le> e" using Suc.hyps(2) be(1) by simp_all
  from Suc.hyps(1) [OF m(1) d1(2) m(2) Suc.prems(3,4)] obtain d' where
    d': "fill_direct w d1 (Suc b) e v = Some d'" "holds w d' n"
      "elements w d' n = take (Suc b) (elements w d1 n) @ replicate (e - Suc b) v @ drop e (elements w d1 n)"
    by blast
  have "take (Suc b) ((elements w d n)[b := v]) = take b (elements w d n) @ [v]"
    using be(2) by (simp add: take_Suc_conv_app_nth)
  moreover have "replicate (e - b) v = v # replicate (e - Suc b) v"
    using be(1) by (metis Suc_diff_Suc replicate_Suc)
  ultimately have "elements w d' n = take b (elements w d n) @ replicate (e - b) v @ drop e (elements w d n)"
    using d'(3) be(1) by (simp add: d1(3))
  moreover have "fill_direct w d b e v = Some d'"
    using be(1) d1(1) d'(1) by (subst fill_direct.simps) simp
  ultimately show ?case using d'(2) by blast
qed




section \<open>Binary search\<close>

text \<open>
  One probe of \<open>lower_bound\<close> and \<open>upper_bound\<close>: the size is halved whatever the comparison says. The
  source unrolls the first loop three times.
\<close>

definition bound_step :: "(int \<Rightarrow> bool) \<Rightarrow> nat \<Rightarrow> payload \<Rightarrow> nat \<times> nat \<Rightarrow> (nat \<times> nat) option" where
  "bound_step go_up w d = (\<lambda>(low, sz). do {
     let half = sz div 2;
     let other_half = sz - half;
     let probe = low + half;
     let other_low = low + other_half;
     v \<leftarrow> get_direct w d probe;
     Some (if go_up v then other_low else low, half) })"

partial_function (option) bound_unrolled :: "(int \<Rightarrow> bool) \<Rightarrow> nat \<Rightarrow> payload \<Rightarrow> nat \<times> nat \<Rightarrow> (nat \<times> nat) option" where
  "bound_unrolled go_up w d s =
    (if 8 \<le> snd s then do {
       s \<leftarrow> bound_step go_up w d s;
       s \<leftarrow> bound_step go_up w d s;
       s \<leftarrow> bound_step go_up w d s;
       bound_unrolled go_up w d s
     } else Some s)"

partial_function (option) bound_loop :: "(int \<Rightarrow> bool) \<Rightarrow> nat \<Rightarrow> payload \<Rightarrow> nat \<times> nat \<Rightarrow> (nat \<times> nat) option" where
  "bound_loop go_up w d s =
    (if 0 < snd s then do { s \<leftarrow> bound_step go_up w d s; bound_loop go_up w d s } else Some s)"

definition lower_bound :: "nat \<Rightarrow> payload \<Rightarrow> nat \<Rightarrow> int \<Rightarrow> nat option" where
  "lower_bound w d sz v = do {
     s \<leftarrow> bound_unrolled (\<lambda>x. x < v) w d (0, sz);
     s \<leftarrow> bound_loop (\<lambda>x. x < v) w d s;
     Some (fst s) }"

definition upper_bound :: "nat \<Rightarrow> payload \<Rightarrow> nat \<Rightarrow> int \<Rightarrow> nat option" where
  "upper_bound w d sz v = do {
     s \<leftarrow> bound_unrolled (\<lambda>x. v \<ge> x) w d (0, sz);
     s \<leftarrow> bound_loop (\<lambda>x. v \<ge> x) w d s;
     Some (fst s) }"

text \<open>The boundary lies in the window that is still searched.\<close>

definition bound_inv :: "(int \<Rightarrow> bool) \<Rightarrow> nat \<Rightarrow> payload \<Rightarrow> nat \<Rightarrow> nat \<times> nat \<Rightarrow> bool" where
  "bound_inv go_up w d n s \<longleftrightarrow> fst s + snd s \<le> n \<and> (\<forall>i<fst s. go_up (elem w d i)) \<and>
     (\<forall>i<n. fst s + snd s \<le> i \<longrightarrow> \<not> go_up (elem w d i))"

definition downward :: "(int \<Rightarrow> bool) \<Rightarrow> bool" where
  "downward p \<longleftrightarrow> (\<forall>x y. x \<le> y \<longrightarrow> p y \<longrightarrow> p x)"

lemma downward_less [simp]: "downward (\<lambda>x. x < v)" "downward (\<lambda>x. x \<le> v)"
  by (auto simp: downward_def)

lemma bound_step_inv:
  assumes "holds w d n" "sorted (elements w d n)" "downward go_up"
    "bound_inv go_up w d n s" "0 < snd s"
  shows "\<exists>s'. bound_step go_up w d s = Some s' \<and> snd s' = snd s div 2 \<and> bound_inv go_up w d n s'"
proof -
  obtain low sz where s: "s = (low, sz)" by (cases s)
  let ?probe = "low + sz div 2"
  have inv: "low + sz \<le> n" "\<forall>i<low. go_up (elem w d i)" "\<forall>i<n. low + sz \<le> i \<longrightarrow> \<not> go_up (elem w d i)"
    and sz: "0 < sz"
    using assms(4,5) by (simp_all add: bound_inv_def s)
  have p: "?probe < n" using inv(1) sz by linarith
  have mono: "elem w d i \<le> elem w d j" if "i \<le> j" "j < n" for i j
    using that sorted_nth_mono [OF assms(2), of i j] by simp
  show ?thesis
  proof (cases "go_up (elem w d ?probe)")
    case True
    have "go_up (elem w d i)" if "i < low + (sz - sz div 2)" for i
    proof -
      have "i \<le> ?probe" using that by linarith
      then show ?thesis using assms(3) mono [OF _ p] True unfolding downward_def by blast
    qed
    moreover have "low + (sz - sz div 2) + sz div 2 = low + sz" by simp
    ultimately show ?thesis
      using inv True get_direct_elem [OF assms(1) p] by (simp add: bound_step_def s Let_def bound_inv_def)
  next
    case False
    have "\<not> go_up (elem w d i)" if "i < n" "?probe \<le> i" for i
      using assms(3) mono [OF that(2,1)] False unfolding downward_def by blast
    then show ?thesis
      using inv p False get_direct_elem [OF assms(1) p] by (simp add: bound_step_def s Let_def bound_inv_def)
  qed
qed


lemma bound_loop_ends:
  assumes "holds w d n" "sorted (elements w d n)" "downward go_up"
    "bound_inv go_up w d n s"
  shows "\<exists>s'. bound_loop go_up w d s = Some s' \<and> bound_inv go_up w d n s' \<and> snd s' = 0"
  using assms(4)
proof (induction "snd s" arbitrary: s rule: less_induct)
  case less
  show ?case
  proof (cases "0 < snd s")
    case True
    then obtain s1 where s1: "bound_step go_up w d s = Some s1" "snd s1 = snd s div 2" "bound_inv go_up w d n s1"
      using bound_step_inv [OF assms(1-3) less.prems] by blast
    then have "snd s1 < snd s" using True by simp
    then show ?thesis using less.hyps [OF _ s1(3)] s1(1) True by (subst bound_loop.simps) simp
  qed (use less.prems in \<open>simp add: bound_loop.simps\<close>)
qed

lemma bound_unrolled_ends:
  assumes "holds w d n" "sorted (elements w d n)" "downward go_up"
    "bound_inv go_up w d n s"
  shows "\<exists>s'. bound_unrolled go_up w d s = Some s' \<and> bound_inv go_up w d n s'"
  using assms(4)
proof (induction "snd s" arbitrary: s rule: less_induct)
  case less
  note step = bound_step_inv [OF assms(1-3)]
  show ?case
  proof (cases "8 \<le> snd s")
    case True
    then obtain s1 where s1: "bound_step go_up w d s = Some s1" "snd s1 = snd s div 2" "bound_inv go_up w d n s1"
      using step [OF less.prems] by auto
    moreover have "0 < snd s1" using s1(2) True by simp
    ultimately obtain s2 where s2: "bound_step go_up w d s1 = Some s2" "snd s2 = snd s1 div 2"
        "bound_inv go_up w d n s2"
      using step by blast
    moreover have "0 < snd s2" using s1(2) s2(2) True by simp
    ultimately obtain s3 where s3: "bound_step go_up w d s2 = Some s3" "snd s3 = snd s2 div 2"
        "bound_inv go_up w d n s3"
      using step by blast
    have "snd s3 < snd s" using s1(2) s2(2) s3(2) True by simp
    then show ?thesis
      using less.hyps [OF _ s3(3)] s1(1) s2(1) s3(1) True by (subst bound_unrolled.simps) simp
  qed (use less.prems in \<open>simp add: bound_unrolled.simps\<close>)
qed

lemma boundary_is_count:
  assumes "bound_inv go_up w d n s" "snd s = 0"
  shows "fst s = length (filter go_up (elements w d n))"
proof -
  have "{i. i < n \<and> go_up (elem w d i)} = {..<fst s}"
    using assms by (auto simp: bound_inv_def not_less [symmetric])
  then have "length (filter go_up (elements w d n)) = card {..<fst s}"
    by (simp add: length_filter_conv_card cong: conj_cong)
  then show ?thesis by simp
qed

lemma bound_correct:
  assumes "holds w d n" "sorted (elements w d n)" "downward go_up"
  shows "\<exists>s s'. bound_unrolled go_up w d (0, n) = Some s \<and> bound_loop go_up w d s = Some s' \<and>
    fst s' = length (filter go_up (elements w d n))"
proof -
  have "bound_inv go_up w d n (0, n)" by (simp add: bound_inv_def)
  then obtain s where s: "bound_unrolled go_up w d (0, n) = Some s" "bound_inv go_up w d n s"
    using bound_unrolled_ends [OF assms] by blast
  then show ?thesis using bound_loop_ends [OF assms s(2)] boundary_is_count by blast
qed

text \<open>
  C32. On an array in ascending order \<open>lower_bound\<close> returns the number of elements below the value and
  \<open>upper_bound\<close> the number of elements that do not exceed it: the positions \<open>std::lower_bound\<close> and
  \<open>std::upper_bound\<close> find. Both searches end and never read outside the array.
\<close>

theorem bounds_of_sorted_array:
  assumes "holds w d n" "sorted (elements w d n)"
  shows "lower_bound w d n v = Some (length (filter (\<lambda>x. x < v) (elements w d n))) \<and>
    upper_bound w d n v = Some (length (filter (\<lambda>x. x \<le> v) (elements w d n)))"
proof
  obtain s s' where "bound_unrolled (\<lambda>x. x < v) w d (0, n) = Some s" "bound_loop (\<lambda>x. x < v) w d s = Some s'"
      "fst s' = length (filter (\<lambda>x. x < v) (elements w d n))"
    using bound_correct [OF assms downward_less(1)] by blast
  then show "lower_bound w d n v = Some (length (filter (\<lambda>x. x < v) (elements w d n)))"
    by (simp add: lower_bound_def)
  obtain s s' where "bound_unrolled (\<lambda>x. x \<le> v) w d (0, n) = Some s" "bound_loop (\<lambda>x. x \<le> v) w d s = Some s'"
      "fst s' = length (filter (\<lambda>x. x \<le> v) (elements w d n))"
    using bound_correct [OF assms downward_less(2)] by blast
  then show "upper_bound w d n v = Some (length (filter (\<lambda>x. x \<le> v) (elements w d n)))"
    by (simp add: upper_bound_def)
qed

theorem bounds_of_sorted_array_witness:
  "lower_bound 8 [0xfe, 3, 3, 7] 4 3 = Some 1 \<and> upper_bound 8 [0xfe, 3, 3, 7] 4 3 = Some 3"
proof -
  have "elements 8 [0xfe, 3, 3, 7] 4 = [-2, 3, 3, 7]"
    by (simp add: elements_def upt_rec flip: byte_element)
  then show ?thesis
    using bounds_of_sorted_array [of 8 "[0xfe, 3, 3, 7]" 4 3] by (simp add: holds_def widths_def)
qed


section \<open>References and tagged integers\<close>

text \<open>
  \<open>RefOrTagged\<close> of \<open>include/core/realm/array.hpp\<close>: an element of an array is a reference to another
  array, a multiple of eight, or an integer shifted to the left with its lowest bit set. The value is
  that of \<open>m_value\<close>, an \<open>int_fast64_t\<close>.
\<close>

definition is_ref :: "int \<Rightarrow> bool" where
  "is_ref m \<longleftrightarrow> m AND 1 = 0"

definition is_tagged :: "int \<Rightarrow> bool" where
  "is_tagged m \<longleftrightarrow> \<not> is_ref m"

definition get_as_ref :: "int \<Rightarrow> 64 word option" where
  "get_as_ref m = to_ref m"

definition get_as_int :: "int \<Rightarrow> 64 word" where
  "get_as_int m = drop_bit 1 (word_of_int m AND 0xFFFFFFFFFFFFFFFF)"

definition make_ref :: "64 word \<Rightarrow> int option" where
  "make_ref r = from_ref r"

definition make_tagged :: "64 word \<Rightarrow> int option" where
  "make_tagged i = (if i < push_bit 63 1 then Some (sint (push_bit 1 i OR 1)) else None)"

lemma sint_even: "sint r AND 1 = of_bool (bit r 0)" for r :: "64 word"
  by (rule bit_eqI) (auto simp: bit_and_iff bit_sint_iff bit_1_iff min_def)

lemma tagged_round_trip:
  "make_tagged i = Some m \<Longrightarrow> is_tagged m \<and> get_as_int m = i"
proof -
  assume "make_tagged i = Some m"
  then have i: "i < push_bit 63 1" and m: "m = sint (push_bit 1 i OR 1)"
    by (simp_all add: make_tagged_def split: if_splits)
  have "unat i < 2 ^ 63" using i by (simp add: word_less_nat_alt)
  then have "take_bit 63 i = i" by (rule take_bit_below)
  then have top: "bit i n \<Longrightarrow> n < 63" for n by (metis bit_take_bit_iff)
  have "(0xFFFFFFFFFFFFFFFF :: 64 word) = - 1" by simp
  then have "get_as_int m = drop_bit 1 (push_bit 1 i OR 1)" by (simp only: get_as_int_def m) simp
  also have "\<dots> = i" by (rule bit_word_eqI) (auto simp: bit_simps mult.commute [of i 2] bit_double_iff dest: top)
  finally show ?thesis by (simp add: is_tagged_def is_ref_def m sint_even bit_or_iff)
qed

lemma ref_round_trip: "make_ref r = Some m \<Longrightarrow> is_ref m \<and> get_as_ref m = Some r"
proof -
  assume "make_ref r = Some m"
  then have r: "r mod 8 = 0" and m: "m = sint r" by (simp_all add: make_ref_def from_ref_def split: if_splits)
  have "take_bit 3 r = 0" using r by (simp add: take_bit_eq_mod)
  then have low: "n < 3 \<Longrightarrow> \<not> bit r n" for n by (metis bit_0_eq bit_take_bit_iff bot_apply bot_bool_def)
  have "take_bit 3 (sint r) = 0" by (rule bit_eqI) (auto simp: bit_take_bit_iff bit_sint_iff min_def low)
  then have "8 dvd sint r" by (simp add: take_bit_eq_mod dvd_eq_mod_eq_0)
  then show ?thesis by (simp add: is_ref_def m sint_even low get_as_ref_def to_ref_def)
qed

end
