(* ===== verification/BitLanes.thy ===== *)
theory BitLanes
  imports PackedArray
begin

text \<open>
  The bit tricks with which \<open>Array\<close> searches 64 bits of elements at once (\<open>cascade\<close>,
  \<open>lower_bits\<close>, \<open>test_zero\<close>, \<open>find_zero\<close> and \<open>find_gtlt_magic\<close> of \<open>include/core/realm/array.hpp\<close>),
  and what they compute on the lanes of a chunk, the elements of width \<open>w\<close> it consists of.
\<close>

section \<open>The operations\<close>

definition no0 :: "'a::{zero,one} \<Rightarrow> 'a" where
  "no0 v = (if v = 0 then 1 else v)"

definition width_mask :: "nat \<Rightarrow> 64 word" where
  "width_mask w = (if w = 64 then NOT 0 else push_bit w 1 - 1)"

definition lower_bits :: "nat \<Rightarrow> 64 word option" where
  "lower_bits w = (if w = 1 then Some 0xFFFFFFFFFFFFFFFF
     else if w = 2 then Some 0x5555555555555555
     else if w = 4 then Some 0x1111111111111111
     else if w = 8 then Some 0x0101010101010101
     else if w = 16 then Some 0x0001000100010001
     else if w = 32 then Some 0x0000000100000001
     else if w = 64 then Some 0x0000000000000001
     else None)"

definition test_zero :: "nat \<Rightarrow> 64 word \<Rightarrow> bool option" where
  "test_zero w v = do {
     lower \<leftarrow> lower_bits w;
     l \<leftarrow> lower_bits w;
     let upper = push_bit (if w = 0 then 0 else w - 1) (l * 1);
     Some ((v - lower) AND NOT v AND upper \<noteq> 0) }"

definition cascade_step :: "nat \<Rightarrow> 64 word \<Rightarrow> 64 word \<Rightarrow> 64 word" where
  "cascade_step k c a = a OR (drop_bit k a AND c)"

definition cascade_end :: "bool \<Rightarrow> 64 word \<Rightarrow> 64 word \<Rightarrow> 64 word" where
  "cascade_end zero m a = (let a = a AND m in if zero then a XOR m else a)"

definition cascade :: "nat \<Rightarrow> bool \<Rightarrow> 64 word \<Rightarrow> 64 word option" where
  "cascade w zero a =
    (if w = 1 then Some (if zero then NOT a else a)
     else if w = 2 then Some (cascade_end zero 0x5555555555555555
       (cascade_step 1 (NOT 0 div 0x3 * 0x1) a))
     else if w = 4 then Some (cascade_end zero (NOT 0 div 0xF * 0x1)
       (cascade_step 2 (NOT 0 div 0xF * 0x3) (cascade_step 1 (NOT 0 div 0xF * 0x7) a)))
     else if w = 8 then Some (cascade_end zero (NOT 0 div 0xFF * 0x1)
       (cascade_step 4 (NOT 0 div 0xFF * 0x0F) (cascade_step 2 (NOT 0 div 0xFF * 0x3F)
       (cascade_step 1 (NOT 0 div 0xFF * 0x7F) a))))
     else if w = 16 then Some (cascade_end zero (NOT 0 div 0xFFFF * 0x1)
       (cascade_step 8 (NOT 0 div 0xFFFF * 0x00FF) (cascade_step 4 (NOT 0 div 0xFFFF * 0x0FFF)
       (cascade_step 2 (NOT 0 div 0xFFFF * 0x3FFF) (cascade_step 1 (NOT 0 div 0xFFFF * 0x7FFF) a)))))
     else if w = 32 then Some (cascade_end zero (NOT 0 div 0xFFFFFFFF * 0x1)
       (cascade_step 16 (NOT 0 div 0xFFFFFFFF * 0x0000FFFF) (cascade_step 8 (NOT 0 div 0xFFFFFFFF * 0x00FFFFFF)
       (cascade_step 4 (NOT 0 div 0xFFFFFFFF * 0x0FFFFFFF) (cascade_step 2 (NOT 0 div 0xFFFFFFFF * 0x3FFFFFFF)
       (cascade_step 1 (NOT 0 div 0xFFFFFFFF * 0x7FFFFFFF) a))))))
     else if w = 64 then Some (of_bool ((a = 0) = zero))
     else None)"

text \<open>
  A shift of a 64 bit value by 64 or more is undefined; \<open>None\<close> here.
\<close>

definition shr :: "64 word \<Rightarrow> nat \<Rightarrow> 64 word option" where
  "shr v n = (if n < 64 then Some (drop_bit n v) else None)"

partial_function (option) find_zero_loop :: "bool \<Rightarrow> nat \<Rightarrow> 64 word \<Rightarrow> nat \<Rightarrow> nat option" where
  "find_zero_loop eq w v start = do {
     x \<leftarrow> shr v (w * start);
     if eq = (x AND width_mask w \<noteq> 0) then
       if start \<le> 8 * 8 then find_zero_loop eq w v (start + 1) else None
     else Some start }"

definition find_zero_start :: "bool \<Rightarrow> nat \<Rightarrow> 64 word \<Rightarrow> nat option" where
  "find_zero_start eq w v =
    (if w \<le> 8 then do {
       z \<leftarrow> test_zero w (v OR 0xffffffff00000000);
       if (if eq then \<not> z else v AND 0x00000000ffffffff = 0) then do {
         let start = 64 div no0 w div 2;
         if w \<le> 4 then do {
           z \<leftarrow> test_zero w (v OR 0xffff000000000000);
           if (if eq then \<not> z else v AND 0x0000ffffffffffff = 0)
           then Some (start + 64 div no0 w div 4) else Some start }
         else Some start }
       else if w \<le> 4 then do {
         z \<leftarrow> test_zero w (v OR 0xffffffffffff0000);
         if (if eq then \<not> z else v AND 0x000000000000ffff = 0)
         then Some (64 div no0 w div 4) else Some 0 }
       else Some 0 }
     else Some 0)"

definition find_zero :: "bool \<Rightarrow> nat \<Rightarrow> 64 word \<Rightarrow> nat option" where
  "find_zero eq w v = do {
     x \<leftarrow> shr v (w * 0);
     if eq = (x AND width_mask w = 0) then Some 0
     else do {
       start \<leftarrow> find_zero_start eq w v;
       find_zero_loop eq w v start } }"

definition find_gtlt_magic :: "bool \<Rightarrow> nat \<Rightarrow> int \<Rightarrow> 64 word" where
  "find_gtlt_magic gt w v = (let mask1 = width_mask w; mask2 = drop_bit 1 mask1 in
     if gt then NOT 0 div no0 mask1 * (mask2 - word_of_int v) else NOT 0 div no0 mask1 * word_of_int v)"

section \<open>Lanes\<close>

definition lane :: "nat \<Rightarrow> nat \<Rightarrow> 64 word \<Rightarrow> int" where
  "lane w j c = take_bit w (drop_bit (w * j) (uint c))"

lemma bit_lane: "bit (lane w j c) k \<longleftrightarrow> k < w \<and> bit c (w * j + k)"
  by (auto simp: lane_def bit_take_bit_iff bit_drop_bit_eq bit_uint_iff dest: bit_imp_le_length)

lemma lane_nonneg [simp]: "0 \<le> lane w j c" and lane_less: "lane w j c < 2 ^ w"
  by (simp_all add: lane_def)

lemma lane_and: "lane w j (a AND b) = lane w j a AND lane w j b"
  and lane_or: "lane w j (a OR b) = lane w j a OR lane w j b"
  and lane_xor: "lane w j (a XOR b) = lane w j a XOR lane w j b"
  by (auto intro!: bit_eqI simp: bit_lane bit_simps)

lemma lane_drop: "lane w j (drop_bit (w * t) c) = lane w (t + j) c"
  by (auto intro!: bit_eqI simp: bit_lane bit_drop_bit_eq algebra_simps)

lemma lane_beyond: "64 \<le> w * j \<Longrightarrow> lane w j c = 0"
  by (auto intro!: bit_eqI simp: bit_lane dest!: bit_imp_le_length)

lemma lane_eqI:
  assumes "0 < w" "\<And>j. w * j < 64 \<Longrightarrow> lane w j a = lane w j b"
  shows "a = b"
proof (rule bit_word_eqI)
  fix m assume "m < LENGTH(64)"
  have m: "w * (m div w) + m mod w = m" "m mod w < w" using assms(1) by simp_all
  moreover have "w * (m div w) < 64" using times_div_less_eq_dividend [of w m] \<open>m < LENGTH(64)\<close>
    by (simp del: times_div_less_eq_dividend)
  ultimately show "bit a m = bit b m"
    using bit_lane [of w "m div w" a "m mod w"] bit_lane [of w "m div w" b "m mod w"] assms(2) by simp
qed

lemma drop_bit_Suc_lane: "drop_bit (w * Suc i) a = drop_bit (w * i) (drop_bit w a)" for a :: int
  by (simp add: add.commute)

lemma lane_sum_int:
  fixes a b :: int
  assumes "\<And>j. j < n \<Longrightarrow> take_bit w (drop_bit (w * j) a) + take_bit w (drop_bit (w * j) b) < 2 ^ w" "j < n"
  shows "take_bit w (drop_bit (w * j) (a + b)) = take_bit w (drop_bit (w * j) a) + take_bit w (drop_bit (w * j) b)"
  using assms
proof (induction n arbitrary: a b j)
  case (Suc n)
  have first: "take_bit w a + take_bit w b < 2 ^ w" using Suc.prems(1) [of 0] by simp
  have "take_bit w (a + b) = take_bit w (take_bit w a + take_bit w b)" by (simp add: take_bit_add)
  also have "\<dots> = take_bit w a + take_bit w b" using first by (simp add: take_bit_int_eq_self)
  finally have t: "take_bit w (a + b) = take_bit w a + take_bit w b" .
  have "a + b = take_bit w (a + b) + 2 ^ w * drop_bit w (a + b)"
    "a = take_bit w a + 2 ^ w * drop_bit w a" "b = take_bit w b + 2 ^ w * drop_bit w b"
    by (simp_all add: take_bit_eq_mod drop_bit_eq_div)
  then have "2 ^ w * drop_bit w (a + b) = 2 ^ w * (drop_bit w a + drop_bit w b)"
    using t by (simp add: distrib_left)
  then have d: "drop_bit w (a + b) = drop_bit w a + drop_bit w b" by simp
  show ?case
  proof (cases j)
    case 0
    then show ?thesis using t by simp
  next
    case (Suc i)
    have "take_bit w (drop_bit (w * i) (drop_bit w a + drop_bit w b)) =
        take_bit w (drop_bit (w * i) (drop_bit w a)) + take_bit w (drop_bit (w * i) (drop_bit w b))"
      by (rule Suc.IH)
        (use Suc.prems(1) [of "Suc _"] Suc.prems(2) Suc in \<open>simp_all only: drop_bit_Suc_lane Suc_less_eq\<close>)
    then show ?thesis unfolding Suc drop_bit_Suc_lane d .
  qed
qed simp


definition lane_width :: "nat \<Rightarrow> bool" where
  "lane_width w \<longleftrightarrow> w \<in> {1, 2, 4, 8, 16, 32, 64}"

lemma lane_width_cases [consumes 1, case_names 1 2 4 8 16 32 64]:
  assumes "lane_width w"
  obtains "w = 1" | "w = 2" | "w = 4" | "w = 8" | "w = 16" | "w = 32" | "w = 64"
  using assms by (auto simp: lane_width_def)

lemma lane_width_div: "lane_width w \<Longrightarrow> w * (64 div w) = 64"
  by (erule lane_width_cases) simp_all

lemma lane_width_pos: "lane_width w \<Longrightarrow> 0 < w \<and> w \<le> 64 \<and> 0 < 64 div w"
  by (erule lane_width_cases) simp_all

lemma lane_plus:
  assumes "lane_width w" "\<And>j. j < 64 div w \<Longrightarrow> lane w j a + lane w j b < 2 ^ w" "j < 64 div w"
  shows "lane w j (a + b) = lane w j a + lane w j b"
proof -
  have "w * (j + 1) \<le> w * (64 div w)" using assms(3) by (intro mult_le_mono2) simp
  then have j: "w * j + w \<le> 64" using lane_width_div [OF assms(1)] by simp
  have "uint (a + b) = take_bit 64 (uint a + uint b)" by (simp add: uint_word_ariths take_bit_eq_mod)
  then have "lane w j (a + b) = take_bit w (drop_bit (w * j) (uint a + uint b))"
    using j by (auto simp: lane_def intro!: bit_eqI simp: bit_take_bit_iff bit_drop_bit_eq)
  also have "\<dots> = lane w j a + lane w j b"
    unfolding lane_def by (rule lane_sum_int [OF assms(2) [unfolded lane_def] assms(3)])
  finally show ?thesis .
qed

text \<open>A value repeated in every lane.\<close>

fun repeated :: "nat \<Rightarrow> nat \<Rightarrow> int \<Rightarrow> int" where
  "repeated w 0 x = 0"
| "repeated w (Suc n) x = x + 2 ^ w * repeated w n x"

lemma repeated_slice: "0 \<le> x \<Longrightarrow> x < 2 ^ w \<Longrightarrow> j < n \<Longrightarrow> take_bit w (drop_bit (w * j) (repeated w n x)) = x"
proof (induction n arbitrary: j)
  case (Suc n)
  have "take_bit w (repeated w (Suc n) x) = x" "drop_bit w (repeated w (Suc n) x) = repeated w n x"
    using Suc.prems by (simp_all add: take_bit_eq_mod drop_bit_eq_div)
  then show ?case using Suc.IH [of "j - 1"] Suc.prems
    by (cases j) (simp, simp only: drop_bit_Suc_lane Suc_less_eq diff_Suc_1)
qed simp

lemma repeated_mult: "repeated w n x = repeated w n 1 * x"
  by (induction n) (simp_all add: algebra_simps)

lemma repeated_ones: "(2 ^ w - 1) * repeated w n 1 = 2 ^ (w * n) - 1"
  by (induction n) (simp_all add: algebra_simps power_add)

lemma repeated_bounds: "0 \<le> x \<Longrightarrow> x < 2 ^ w \<Longrightarrow> 0 \<le> repeated w n x \<and> repeated w n x < 2 ^ (w * n)"
proof (induction n)
  case (Suc n)
  then have "repeated w n x + 1 \<le> 2 ^ (w * n)" by simp
  then have "2 ^ w * (repeated w n x + 1) \<le> 2 ^ w * 2 ^ (w * n)" by (rule mult_left_mono) simp
  then show ?case using Suc by (simp add: power_add distrib_left)
qed simp

lemma lower_bits_repeated:
  assumes "lane_width w"
  shows "lower_bits w = Some (word_of_int (repeated w (64 div w) 1))"
proof -
  have "(2 ^ w - 1) * repeated w (64 div w) 1 = 2 ^ 64 - 1"
    using repeated_ones [of w "64 div w"] lane_width_div [OF assms] by simp
  then show ?thesis using assms
    by (elim lane_width_cases) (simp_all add: lower_bits_def)
qed

lemma ones_div_mask:
  assumes "lane_width w"
  shows "NOT 0 div width_mask w = word_of_int (repeated w (64 div w) 1)"
proof -
  have "(2 ^ w - 1) * repeated w (64 div w) 1 = 2 ^ 64 - 1"
    using repeated_ones [of w "64 div w"] lane_width_div [OF assms] by simp
  moreover have "uint (- 1 :: 64 word) = 2 ^ 64 - 1"
    by (simp add: unsigned_minus_1_eq_mask mask_eq_exp_minus_1)
  ultimately show ?thesis using assms
    by (elim lane_width_cases) (simp_all add: width_mask_def word_div_def push_bit_eq_mult)
qed


definition spread :: "nat \<Rightarrow> int \<Rightarrow> 64 word" where
  "spread w x = word_of_int (repeated w (64 div w) x)"

lemma lane_spread:
  assumes "lane_width w" "0 \<le> x" "x < 2 ^ w" "j < 64 div w"
  shows "lane w j (spread w x) = x"
proof -
  have "uint (spread w x) = repeated w (64 div w) x"
    using repeated_bounds [OF assms(2,3), of "64 div w"] lane_width_div [OF assms(1)]
    by (simp add: spread_def uint_word_of_int_eq take_bit_int_eq_self)
  then show ?thesis using repeated_slice [OF assms(2-4)] by (simp add: lane_def)
qed

lemma spread_mult: "lane_width w \<Longrightarrow> NOT 0 div width_mask w * word_of_int x = spread w x"
  by (simp only: ones_div_mask spread_def repeated_mult [of w _ x] of_int_mult)

lemma lower_bits_spread: "lane_width w \<Longrightarrow> lower_bits w = Some (spread w 1)"
  by (simp add: lower_bits_repeated spread_def)

lemma bit_spread:
  assumes "lane_width w" "0 \<le> x" "x < 2 ^ w"
  shows "bit (spread w x) m \<longleftrightarrow> m < 64 \<and> bit x (m mod w)"
proof (cases "m < 64")
  case True
  then have "m div w < 64 div w"
    using lane_width_div [OF assms(1)] lane_width_pos [OF assms(1)] by (simp add: less_mult_imp_div_less mult.commute)
  then have "lane w (m div w) (spread w x) = x" by (rule lane_spread [OF assms])
  moreover have "bit (lane w (m div w) (spread w x)) (m mod w) = bit (spread w x) m"
    using lane_width_pos [OF assms(1)] by (simp add: bit_lane)
  ultimately show ?thesis using True by simp
qed (auto dest: bit_imp_le_length)

lemma spread_top: "lane_width w \<Longrightarrow> push_bit (w - 1) (spread w 1) = spread w (2 ^ (w - 1))"
proof -
  assume w: "lane_width w"
  have "push_bit (w - 1) (spread w 1) = spread w 1 * word_of_int (2 ^ (w - 1))"
    by (simp add: push_bit_eq_mult)
  also have "\<dots> = spread w (2 ^ (w - 1))"
    by (simp only: spread_def repeated_mult [of w _ "2 ^ (w - 1)"] of_int_mult)
  finally show ?thesis .
qed

lemma top_bit: "0 \<le> x \<Longrightarrow> x < 2 ^ w \<Longrightarrow> 0 < w \<Longrightarrow> bit x (w - 1) \<longleftrightarrow> 2 ^ (w - 1) \<le> x" for x :: int
proof -
  assume x: "0 \<le> x" "x < 2 ^ w" "0 < w"
  then have "(2::int) ^ w = 2 * 2 ^ (w - 1)" by (simp flip: power_Suc)
  then have "x div 2 ^ (w - 1) = 1" if "2 ^ (w - 1) \<le> x"
    using that x by (intro int_div_pos_eq [of _ _ _ "x - 2 ^ (w - 1)"]) simp_all
  moreover have "x div 2 ^ (w - 1) = 0" if "x < 2 ^ (w - 1)"
    using that x by (simp add: div_pos_pos_trivial)
  ultimately have "x div 2 ^ (w - 1) = (if 2 ^ (w - 1) \<le> x then 1 else 0)" by force
  then show ?thesis by (simp add: bit_iff_odd)
qed

lemma low_part:
  fixes a :: int
  assumes "0 \<le> a" "a < 2 ^ w"
  shows "take_bit w (a + 2 ^ w * k) = a" "drop_bit w (a + 2 ^ w * k) = k"
  using assms by (simp_all add: take_bit_eq_mod drop_bit_eq_div)

lemma borrow_test:
  fixes v :: int
  assumes "0 < w"
  shows "(\<exists>j<n. bit (v - repeated w n 1) (w * j + (w - 1)) \<and> \<not> bit v (w * j + (w - 1))) \<longleftrightarrow>
    (\<exists>j<n. take_bit w (drop_bit (w * j) v) = 0)"
proof (induction n arbitrary: v)
  case (Suc n)
  let ?r = "repeated w n 1" and ?l = "take_bit w v" and ?v = "drop_bit w v"
  have split: "v - repeated w (Suc n) 1 = (?l - 1) + 2 ^ w * (?v - ?r)"
    by (simp add: take_bit_eq_mod drop_bit_eq_div algebra_simps)
  have l: "0 \<le> ?l" "?l < 2 ^ w" by simp_all
  have low_bit: "bit x (w - 1) = bit (take_bit w x) (w - 1)" for x :: int
    using assms by (simp add: bit_take_bit_iff)
  show ?case
  proof (cases "?l = 0")
    case True
    have "v - repeated w (Suc n) 1 = (2 ^ w - 1) + 2 ^ w * (?v - ?r - 1)"
      unfolding split using True by (simp add: algebra_simps)
    then have "take_bit w (v - repeated w (Suc n) 1) = 2 ^ w - 1"
      by (simp add: take_bit_eq_mod zmod_minus1 del: repeated.simps)
    moreover have "bit (2 ^ w - 1 :: int) (w - 1)"
      using assms by (simp flip: mask_eq_exp_minus_1 add: bit_mask_iff)
    ultimately have "bit (v - repeated w (Suc n) 1) (w - 1)" using low_bit [of "v - repeated w (Suc n) 1"] by simp
    moreover have "\<not> bit v (w - 1)" using low_bit [of v] True by simp
    ultimately have "\<exists>j<Suc n. bit (v - repeated w (Suc n) 1) (w * j + (w - 1)) \<and> \<not> bit v (w * j + (w - 1))"
      by (intro exI [of _ 0]) simp
    moreover have "\<exists>j<Suc n. take_bit w (drop_bit (w * j) v) = 0" using True by (intro exI [of _ 0]) simp
    ultimately show ?thesis by blast
  next
    case False
    then have l1: "0 \<le> ?l - 1" "?l - 1 < 2 ^ w" using l by linarith+
    have t: "take_bit w (v - repeated w (Suc n) 1) = ?l - 1" "drop_bit w (v - repeated w (Suc n) 1) = ?v - ?r"
      unfolding split by (rule low_part [OF l1])+
    have up: "bit x (w * Suc j + (w - 1)) = bit (drop_bit w x) (w * j + (w - 1))" for j and x :: int
      by (simp add: bit_drop_bit_eq add.assoc)
    have "\<not> (bit (v - repeated w (Suc n) 1) (w - 1) \<and> \<not> bit v (w - 1))"
      unfolding low_bit [of "v - repeated w (Suc n) 1"] low_bit [of v] t(1)
        top_bit [OF l1 assms] top_bit [OF l assms] by linarith
    then have "(\<exists>j<Suc n. bit (v - repeated w (Suc n) 1) (w * j + (w - 1)) \<and> \<not> bit v (w * j + (w - 1))) \<longleftrightarrow>
        (\<exists>j<n. bit (?v - ?r) (w * j + (w - 1)) \<and> \<not> bit ?v (w * j + (w - 1)))"
      unfolding Ex_less_Suc2 up t(2) by (simp del: repeated.simps) blast
    also have "\<dots> \<longleftrightarrow> (\<exists>j<n. take_bit w (drop_bit (w * j) ?v) = 0)" by (rule Suc.IH)
    also have "\<dots> \<longleftrightarrow> (\<exists>j<Suc n. take_bit w (drop_bit (w * j) v) = 0)"
      unfolding Ex_less_Suc2 drop_bit_Suc_lane using False by simp
    finally show ?thesis .
  qed
qed simp


definition some_zero :: "nat \<Rightarrow> nat set \<Rightarrow> 64 word \<Rightarrow> bool" where
  "some_zero w js v \<longleftrightarrow> (\<exists>j\<in>js. lane w j v = 0)"

lemma bit_word_minus:
  "bit (a - b) m \<longleftrightarrow> m < 64 \<and> bit (uint a - uint b) m" for a b :: "64 word"
proof -
  have "uint (a - b) = take_bit 64 (uint a - uint b)" by (simp add: uint_word_ariths take_bit_eq_mod)
  then have "bit (uint (a - b)) m = bit (take_bit 64 (uint a - uint b)) m" by simp
  then show ?thesis by (auto simp: bit_uint_iff bit_take_bit_iff dest: bit_imp_le_length)
qed

lemma test_zero_correct:
  assumes "lane_width w"
  shows "test_zero w v = Some (\<exists>j<64 div w. lane w j v = 0)"
proof -
  let ?n = "64 div w"
  note w = lane_width_pos [OF assms] lane_width_div [OF assms]
  have in64: "w * j + (w - 1) < 64" if "j < ?n" for j
  proof -
    have "w * (j + 1) \<le> w * ?n" using that by (intro mult_le_mono2) simp
    then show ?thesis using w by simp
  qed
  have r: "uint (spread w 1) = repeated w ?n 1"
    using repeated_bounds [of 1 w ?n] w
    by (simp add: spread_def uint_word_of_int_eq take_bit_int_eq_self)
  have "(v - spread w 1) AND NOT v AND spread w (2 ^ (w - 1)) \<noteq> 0 \<longleftrightarrow>
      (\<exists>m<64. bit (v - spread w 1) m \<and> \<not> bit v m \<and> m mod w = w - 1)"
    using w by (auto simp: bit_eq_iff bit_and_iff bit_not_iff bit_spread [OF assms] bit_exp_iff)
  also have "\<dots> \<longleftrightarrow> (\<exists>j<?n. bit (v - spread w 1) (w * j + (w - 1)) \<and> \<not> bit v (w * j + (w - 1)))"
  proof (intro iffI; elim exE conjE)
    fix m assume m: "m < 64" "bit (v - spread w 1) m" "\<not> bit v m" "m mod w = w - 1"
    then have "w * (m div w) + (w - 1) = m" by (metis mult_div_mod_eq)
    moreover have "m div w < ?n" using m(1) w by (simp add: less_mult_imp_div_less mult.commute)
    ultimately show "\<exists>j<?n. bit (v - spread w 1) (w * j + (w - 1)) \<and> \<not> bit v (w * j + (w - 1))"
      using m by metis
  next
    fix j assume "j < ?n" "bit (v - spread w 1) (w * j + (w - 1))" "\<not> bit v (w * j + (w - 1))"
    moreover have "(w * j + (w - 1)) mod w = w - 1"
      unfolding mod_mult_self4 using w by simp
    ultimately show "\<exists>m<64. bit (v - spread w 1) m \<and> \<not> bit v m \<and> m mod w = w - 1"
      using in64 by (intro exI [of _ "w * j + (w - 1)"]) simp
  qed
  also have "\<dots> \<longleftrightarrow> (\<exists>j<?n. bit (uint v - repeated w ?n 1) (w * j + (w - 1)) \<and> \<not> bit (uint v) (w * j + (w - 1)))"
    using in64 by (auto simp: bit_word_minus r bit_uint_iff)
  also have "\<dots> \<longleftrightarrow> (\<exists>j<?n. lane w j v = 0)"
    unfolding lane_def using w by (intro borrow_test) simp
  finally show ?thesis
    using w by (simp add: test_zero_def lower_bits_spread [OF assms] Let_def
        spread_top [OF assms, unfolded One_nat_def])
qed

section \<open>Cascading\<close>

text \<open>After some steps, a bit tells whether one of the next \<open>r\<close> bits of its lane was set.\<close>

definition cascaded :: "nat \<Rightarrow> nat \<Rightarrow> 64 word \<Rightarrow> 64 word \<Rightarrow> bool" where
  "cascaded w r a b \<longleftrightarrow> (\<forall>n<64. bit b n \<longleftrightarrow> (\<exists>m<r. n mod w + m < w \<and> bit a (n + m)))"

lemma cascade_step_ok:
  assumes "cascaded w k a b" "lane_width w" "k < w" "c = spread w (mask (w - k))"
  shows "cascaded w (2 * k) a (cascade_step k c b)"
  unfolding cascaded_def
proof (intro allI impI)
  fix n :: nat assume n: "n < 64"
  note w = lane_width_pos [OF assms(2)] lane_width_div [OF assms(2)]
  have "mask (w - k) < (2 :: int) ^ w"
  proof -
    have "(2 :: int) ^ (w - k) \<le> 2 ^ w" by (rule power_increasing) simp_all
    then show ?thesis unfolding mask_eq_exp_minus_1 by linarith
  qed
  then have c: "bit c n \<longleftrightarrow> n mod w < w - k"
    using n by (simp add: assms(4) bit_spread [OF assms(2)] bit_mask_iff)
  have same: "(n + k) mod w = n mod w + k \<and> n + k < 64" if "n mod w + k < w"
  proof -
    have "n = w * (n div w) + n mod w" by simp
    then have e: "n + k = w * (n div w) + (n mod w + k)" by simp
    then have "(n + k) mod w = n mod w + k" using that by (metis mod_less mod_mult_self4)
    moreover have "n div w < 64 div w" using n w by (simp add: less_mult_imp_div_less mult.commute)
    then have "w * (n div w + 1) \<le> w * (64 div w)" by (intro mult_le_mono2) simp
    then have "w * (n div w) + w \<le> 64" using w by simp
    then have "n + k < 64" using e that by linarith
    ultimately show ?thesis by simp
  qed
  have "bit (cascade_step k c b) n \<longleftrightarrow> bit b n \<or> (n mod w < w - k \<and> bit b (n + k))"
    using c by (simp add: cascade_step_def bit_or_iff bit_and_iff bit_drop_bit_eq add.commute conj_commute)
  also have "\<dots> \<longleftrightarrow> (\<exists>m<k. n mod w + m < w \<and> bit a (n + m)) \<or>
      (\<exists>m<k. n mod w + (k + m) < w \<and> bit a (n + (k + m)))"
    using assms(1) n same unfolding cascaded_def by (auto simp: less_diff_conv add.assoc)
  also have "\<dots> \<longleftrightarrow> (\<exists>m<2 * k. n mod w + m < w \<and> bit a (n + m))"
  proof (intro iffI; elim disjE exE conjE)
    fix m assume m: "m < 2 * k" "n mod w + m < w" "bit a (n + m)"
    then show "(\<exists>m<k. n mod w + m < w \<and> bit a (n + m)) \<or> (\<exists>m<k. n mod w + (k + m) < w \<and> bit a (n + (k + m)))"
    proof (cases "m < k")
      case False
      then have "m - k < k" "k + (m - k) = m" using m(1) by simp_all
      then show ?thesis using m by metis
    qed blast
  qed (use add_strict_left_mono in fastforce)+
  finally show "bit (cascade_step k c b) n \<longleftrightarrow> (\<exists>m<2 * k. n mod w + m < w \<and> bit a (n + m))" .
qed


lemma cascaded_start: "lane_width w \<Longrightarrow> cascaded w 1 a a"
  using lane_width_pos by (simp add: cascaded_def)

lemma cascaded_end:
  assumes "cascaded w w a b" "lane_width w" "j < 64 div w"
  shows "bit b (w * j) \<longleftrightarrow> lane w j a \<noteq> 0"
proof -
  have "w * (j + 1) \<le> w * (64 div w)" using assms(3) by (intro mult_le_mono2) simp
  then have "w * j < 64" using lane_width_pos [OF assms(2)] lane_width_div [OF assms(2)] by simp
  then have "bit b (w * j) \<longleftrightarrow> (\<exists>m<w. bit a (w * j + m))"
    using assms(1) by (auto simp: cascaded_def)
  also have "\<dots> \<longleftrightarrow> lane w j a \<noteq> 0" by (auto simp: bit_eq_iff bit_lane)
  finally show ?thesis .
qed

definition lane_flags :: "nat \<Rightarrow> (int \<Rightarrow> bool) \<Rightarrow> 64 word \<Rightarrow> 64 word \<Rightarrow> bool" where
  "lane_flags w p a b \<longleftrightarrow> (\<forall>j. j < 64 div w \<longrightarrow> lane w j b = of_bool (p (lane w j a)))"

lemma cascade_end_ok:
  assumes "cascaded w w a b" "lane_width w" "m = spread w 1"
  shows "lane_flags w (\<lambda>x. (x = 0) = zero) a (cascade_end zero m b)"
  unfolding lane_flags_def
proof (intro allI impI)
  fix j assume j: "j < 64 div w"
  have "lane w j b AND 1 = of_bool (bit b (w * j))"
    using lane_width_pos [OF assms(2)] by (auto intro!: bit_eqI simp: bit_lane bit_simps)
  moreover have "lane w j m = 1" unfolding assms(3)
    by (rule lane_spread [OF assms(2) _ _ j]) (use lane_width_pos [OF assms(2)] in simp_all)
  ultimately show "lane w j (cascade_end zero m b) = of_bool ((lane w j a = 0) = zero)"
    using cascaded_end [OF assms(1,2) j] by (simp add: cascade_end_def Let_def lane_and lane_xor)
qed

lemma width_masks: "width_mask 2 = 0x3" "width_mask 4 = 0xF" "width_mask 8 = 0xFF" "width_mask 16 = 0xFFFF"
  "width_mask 32 = 0xFFFFFFFF"
  by (simp_all add: width_mask_def push_bit_eq_mult)

lemma spread_masks:
  "lane_width w \<Longrightarrow> mk = width_mask w \<Longrightarrow> x = word_of_int v \<Longrightarrow> NOT 0 div mk * x = spread w v"
  by (simp only: spread_mult)

lemma cascade_masks:
  "NOT 0 div 0x3 * 0x1 = spread 2 (mask (2 - 1))"
  "NOT 0 div 0xF * 0x1 = spread 4 1"
  "NOT 0 div 0xFF * 0x1 = spread 8 1"
  "NOT 0 div 0xFFFF * 0x1 = spread 16 1"
  "NOT 0 div 0xFFFFFFFF * 0x1 = spread 32 1"
  "NOT 0 div 0xF * 0x3 = spread 4 (mask (4 - 2))"
  "NOT 0 div 0xF * 0x7 = spread 4 (mask (4 - 1))"
  "NOT 0 div 0xFF * 0x0F = spread 8 (mask (8 - 4))"
  "NOT 0 div 0xFF * 0x3F = spread 8 (mask (8 - 2))"
  "NOT 0 div 0xFF * 0x7F = spread 8 (mask (8 - 1))"
  "NOT 0 div 0xFFFF * 0x00FF = spread 16 (mask (16 - 8))"
  "NOT 0 div 0xFFFF * 0x0FFF = spread 16 (mask (16 - 4))"
  "NOT 0 div 0xFFFF * 0x3FFF = spread 16 (mask (16 - 2))"
  "NOT 0 div 0xFFFF * 0x7FFF = spread 16 (mask (16 - 1))"
  "NOT 0 div 0xFFFFFFFF * 0x0000FFFF = spread 32 (mask (32 - 16))"
  "NOT 0 div 0xFFFFFFFF * 0x00FFFFFF = spread 32 (mask (32 - 8))"
  "NOT 0 div 0xFFFFFFFF * 0x0FFFFFFF = spread 32 (mask (32 - 4))"
  "NOT 0 div 0xFFFFFFFF * 0x3FFFFFFF = spread 32 (mask (32 - 2))"
  "NOT 0 div 0xFFFFFFFF * 0x7FFFFFFF = spread 32 (mask (32 - 1))"
  by (rule spread_masks; simp add: lane_width_def width_masks mask_eq_exp_minus_1)+

lemma low_mask: "0x5555555555555555 = spread 2 1"
  using lower_bits_spread [of 2] by (simp add: lower_bits_def lane_width_def)

text \<open>The steps of every width, as one ladder.\<close>

fun ladder :: "nat \<Rightarrow> nat \<Rightarrow> 64 word \<Rightarrow> 64 word" where
  "ladder w 0 a = a"
| "ladder w (Suc i) a = cascade_step (2 ^ i) (spread w (mask (w - 2 ^ i))) (ladder w i a)"

lemma ladder_cascades: "lane_width w \<Longrightarrow> 2 ^ i \<le> w \<Longrightarrow> cascaded w (2 ^ i) a (ladder w i a)"
proof (induction i)
  case (Suc i)
  have "(2 :: nat) ^ i < 2 ^ Suc i" by simp
  then have "2 ^ i < w" using Suc.prems(2) by linarith
  then show ?case
    using cascade_step_ok [OF Suc.IH [OF Suc.prems(1)] Suc.prems(1)] by simp
qed (simp add: cascaded_start [unfolded One_nat_def])

lemma ladder_eqs:
  "ladder 2 1 a = cascade_step 1 (NOT 0 div 0x3 * 0x1) a"
  "ladder 4 2 a = cascade_step 2 (NOT 0 div 0xF * 0x3) (cascade_step 1 (NOT 0 div 0xF * 0x7) a)"
  "ladder 8 3 a = cascade_step 4 (NOT 0 div 0xFF * 0x0F) (cascade_step 2 (NOT 0 div 0xFF * 0x3F)
     (cascade_step 1 (NOT 0 div 0xFF * 0x7F) a))"
  "ladder 16 4 a = cascade_step 8 (NOT 0 div 0xFFFF * 0x00FF) (cascade_step 4 (NOT 0 div 0xFFFF * 0x0FFF)
     (cascade_step 2 (NOT 0 div 0xFFFF * 0x3FFF) (cascade_step 1 (NOT 0 div 0xFFFF * 0x7FFF) a)))"
  "ladder 32 5 a = cascade_step 16 (NOT 0 div 0xFFFFFFFF * 0x0000FFFF)
     (cascade_step 8 (NOT 0 div 0xFFFFFFFF * 0x00FFFFFF) (cascade_step 4 (NOT 0 div 0xFFFFFFFF * 0x0FFFFFFF)
     (cascade_step 2 (NOT 0 div 0xFFFFFFFF * 0x3FFFFFFF) (cascade_step 1 (NOT 0 div 0xFFFFFFFF * 0x7FFFFFFF) a))))"
  unfolding cascade_masks by (simp_all add: eval_nat_numeral(2,3) numeral_eq_Suc)

lemma cascade_correct:
  assumes "lane_width w"
  shows "\<exists>b. cascade w zero a = Some b \<and> lane_flags w (\<lambda>x. (x = 0) = zero) a b"
proof -
  have by_ladder: "lane_flags w (\<lambda>x. (x = 0) = zero) a (cascade_end zero (spread w 1) (ladder w i a))" if "w = 2 ^ i" for i
    using that ladder_cascades [OF assms, of i a] by (intro cascade_end_ok [OF _ assms]) simp_all
  show ?thesis using assms
  proof (cases rule: lane_width_cases)
    case 1
    have "lane_flags 1 (\<lambda>x. (x = 0) = zero) a (if zero then NOT a else a)"
      unfolding lane_flags_def
    proof (intro allI impI)
      fix j :: nat assume "j < 64 div 1"
      moreover have "lane 1 j c = of_bool (bit c j)" for c
        by (auto intro!: bit_eqI simp: bit_lane bit_simps)
      ultimately show "lane 1 j (if zero then NOT a else a) = of_bool ((lane 1 j a = 0) = zero)"
        by (simp add: bit_not_iff)
    qed
    then show ?thesis using 1 by (simp add: cascade_def)
  next
    case 2 then show ?thesis using by_ladder [of 1] unfolding cascade_def ladder_eqs low_mask cascade_masks by simp
  next
    case 4
    show ?thesis using by_ladder [of 2] unfolding 4 cascade_def ladder_eqs cascade_masks by simp
  next
    case 8
    show ?thesis using by_ladder [of 3] unfolding 8 cascade_def ladder_eqs cascade_masks by simp
  next
    case 16
    show ?thesis using by_ladder [of 4] unfolding 16 cascade_def ladder_eqs cascade_masks by simp
  next
    case 32
    show ?thesis using by_ladder [of 5] unfolding 32 cascade_def ladder_eqs cascade_masks by simp
  next
    case 64
    have "take_bit 64 (uint c) = uint c" for c :: "64 word"
      by (auto intro!: bit_eqI simp: bit_take_bit_iff bit_uint_iff)
    then have "lane 64 j c = (if j = 0 then uint c else 0)" for j c
      using lane_beyond [of 64 j c] by (simp add: lane_def)
    then have "lane_flags 64 (\<lambda>x. (x = 0) = zero) a (of_bool ((a = 0) = zero))"
      by (simp add: lane_flags_def uint_0_iff)
    then show ?thesis using 64 by (simp add: cascade_def)
  qed
qed


section \<open>The first matching lane\<close>

lemma width_mask_eq: "w \<le> 64 \<Longrightarrow> width_mask w = mask w"
proof -
  have "(NOT 0 :: 64 word) = mask 64" by (simp add: mask_eq_exp_minus_1)
  then show ?thesis by (auto simp: width_mask_def push_bit_eq_mult mask_eq_exp_minus_1)
qed

lemma lane_mask:
  assumes "lane_width w"
  shows "uint (drop_bit (w * j) v AND width_mask w) = lane w j v"
proof -
  have "drop_bit (w * j) v AND width_mask w = take_bit w (drop_bit (w * j) v)"
    using lane_width_pos [OF assms] by (simp add: width_mask_eq take_bit_eq_mask)
  moreover have "bit v (w * j + n) \<Longrightarrow> n < 64" for n
    using bit_imp_le_length [of v "w * j + n"] by simp
  ultimately show ?thesis by (auto intro!: bit_eqI simp: bit_lane bit_uint_iff bit_simps)
qed

lemma lane_mask_zero: "lane_width w \<Longrightarrow> drop_bit (w * j) v AND width_mask w = 0 \<longleftrightarrow> lane w j v = 0"
  by (metis lane_mask uint_0_iff)

lemma lane_index: "lane_width w \<Longrightarrow> j < 64 div w \<Longrightarrow> w * j + w \<le> 64"
proof -
  assume w: "lane_width w" and "j < 64 div w"
  then have "w * (j + 1) \<le> w * (64 div w)" by (intro mult_le_mono2) simp
  then show ?thesis using lane_width_div [OF w] by simp
qed

lemma lane_index_less: "lane_width w \<Longrightarrow> j < 64 div w \<Longrightarrow> w * j < 64"
  using lane_index [of w j] lane_width_pos [of w] by linarith

lemma find_zero_loop_finds:
  assumes "lane_width w" "start \<le> j" "j < 64 div w" "eq = (lane w j v = 0)"
    "\<And>i. start \<le> i \<Longrightarrow> i < j \<Longrightarrow> eq \<noteq> (lane w i v = 0)"
  shows "find_zero_loop eq w v start = Some j"
  using assms(2-5)
proof (induction "j - start" arbitrary: start)
  case 0
  then have "start = j" by simp
  then show ?case
    using 0 lane_index_less [OF assms(1), of j] lane_mask_zero [OF assms(1), of j v]
    by (subst find_zero_loop.simps) (simp add: shr_def)
next
  case (Suc k)
  then have s: "start < j" by simp
  then have b: "w * start < 64" using lane_index_less [OF assms(1), of start] Suc.prems(2) by simp
  then have "start < 64" using lane_width_pos [OF assms(1)] by (metis One_nat_def Suc_leI le_less_trans mult_le_mono1 nat_mult_1)
  moreover have "eq \<noteq> (lane w start v = 0)" using Suc.prems(4) s by blast
  moreover have "find_zero_loop eq w v (start + 1) = Some j"
    using Suc.hyps Suc.prems s by (intro Suc.hyps(1)) simp_all
  ultimately show ?case
    using b lane_mask_zero [OF assms(1), of start v]
    by (subst find_zero_loop.simps) (auto simp: shr_def)
qed

text \<open>The bisection never skips a match: no lane before its starting point matches.\<close>

lemma test_zero_with_ones:
  assumes "lane_width w" "w * k = m" "m \<le> 64"
  shows "test_zero w (v OR NOT (mask m)) = Some (\<exists>j<k. lane w j v = 0)"
proof -
  have "lane w j (v OR NOT (mask m)) = (if j < k then lane w j v else mask w)" if "j < 64 div w" for j
  proof (cases "j < k")
    case True
    then have "w * (j + 1) \<le> w * k" by (intro mult_le_mono2) simp
    then have "w * j + w \<le> m" using assms(2) by simp
    then show ?thesis using True
      by (auto intro!: bit_eqI simp: bit_lane bit_or_iff bit_not_iff bit_mask_iff)
  next
    case False
    then have "m \<le> w * j" using assms(2) by auto
    then show ?thesis using False lane_index [OF assms(1) that]
      by (auto intro!: bit_eqI simp: bit_lane bit_or_iff bit_not_iff bit_mask_iff)
  qed
  moreover have "mask w \<noteq> (0 :: int)" using lane_width_pos [OF assms(1)] by simp
  moreover have "k \<le> 64 div w"
    using assms lane_width_pos [OF assms(1)] by (metis div_le_mono nonzero_mult_div_cancel_left not_less0)
  ultimately show ?thesis
    unfolding test_zero_correct [OF assms(1)] by (metis (no_types, lifting) order_less_le_trans)
qed

lemma low_part_zero:
  assumes "lane_width w" "w * k = m" "m \<le> 64"
  shows "v AND mask m = 0 \<longleftrightarrow> (\<forall>j<k. lane w j v = 0)"
proof
  assume z: "v AND mask m = 0"
  show "\<forall>j<k. lane w j v = 0"
  proof (intro allI impI bit_eqI)
    fix j n assume "j < k"
    then have "w * (j + 1) \<le> w * k" by (intro mult_le_mono2) simp
    then have m: "w * j + w \<le> m" using assms(2) by simp
    have "\<not> bit (v AND mask m) (w * j + n)" using z by simp
    then show "bit (lane w j v) n = bit 0 n" using m assms(3) by (auto simp: bit_lane bit_and_iff bit_mask_iff)
  qed
next
  assume z: "\<forall>j<k. lane w j v = 0"
  show "v AND mask m = 0"
  proof (rule bit_word_eqI)
    fix n
    have "\<not> bit v n" if "n < m"
    proof -
      have "n div w < k" using that assms(2) by (simp add: less_mult_imp_div_less mult.commute)
      then have "\<not> bit (lane w (n div w) v) (n mod w)" using z by simp
      then show ?thesis using lane_width_pos [OF assms(1)] by (simp add: bit_lane)
    qed
    then show "bit (v AND mask m) n = bit 0 n" by (auto simp: bit_and_iff bit_mask_iff)
  qed
qed


definition no_match :: "bool \<Rightarrow> nat \<Rightarrow> 64 word \<Rightarrow> nat \<Rightarrow> bool" where
  "no_match eq w v k \<longleftrightarrow> (\<forall>j<k. eq \<noteq> (lane w j v = 0))"

lemma half_test:
  assumes "lane_width w" "w * k = m" "m \<le> 64" "ones = NOT (mask m)" "low = mask m"
  shows "\<exists>z. test_zero w (v OR ones) = Some z \<and> (if eq then \<not> z else v AND low = 0) = no_match eq w v k"
proof (intro exI conjI)
  show "test_zero w (v OR ones) = Some (\<exists>j<k. lane w j v = 0)"
    unfolding assms(4) by (rule test_zero_with_ones [OF assms(1-3)])
  show "(if eq then \<not> (\<exists>j<k. lane w j v = 0) else v AND low = 0) = no_match eq w v k"
    unfolding assms(5) low_part_zero [OF assms(1-3)] by (simp add: no_match_def)
qed

lemma half_masks:
  "0xffffffff00000000 = NOT (mask 32 :: 64 word)" "0x00000000ffffffff = (mask 32 :: 64 word)"
  "0xffff000000000000 = NOT (mask 48 :: 64 word)" "0x0000ffffffffffff = (mask 48 :: 64 word)"
  "0xffffffffffff0000 = NOT (mask 16 :: 64 word)" "0x000000000000ffff = (mask 16 :: 64 word)"
  by (simp_all add: mask_eq_exp_minus_1)

lemma find_zero_start_ok:
  assumes "lane_width w"
  shows "\<exists>s. find_zero_start eq w v = Some s \<and> no_match eq w v s"
proof -
  have none: "no_match eq w v 0" by (simp add: no_match_def)
  have quarters: "(32 :: nat) \<le> 64" "(48 :: nat) \<le> 64" "(16 :: nat) \<le> 64"
    "w \<le> 8 \<Longrightarrow> w * (64 div no0 w div 2) = 32"
    "w \<le> 4 \<Longrightarrow> w * (64 div no0 w div 2 + 64 div no0 w div 4) = 48"
    "w \<le> 4 \<Longrightarrow> w * (64 div no0 w div 4) = 16"
    using assms by (auto simp: lane_width_def no0_def)
  show ?thesis
  proof (cases "w \<le> 8")
    case w8: True
    obtain z where z: "test_zero w (v OR 0xffffffff00000000) = Some z"
        "(if eq then \<not> z else v AND 0x00000000ffffffff = 0) = no_match eq w v (64 div no0 w div 2)"
      using half_test [OF assms _ _ half_masks(1,2), of "64 div no0 w div 2" v eq] quarters w8 by blast
    show ?thesis
    proof (cases "w \<le> 4")
      case w4: True
      obtain z2 where z2: "test_zero w (v OR 0xffff000000000000) = Some z2"
          "(if eq then \<not> z2 else v AND 0x0000ffffffffffff = 0) =
           no_match eq w v (64 div no0 w div 2 + 64 div no0 w div 4)"
        using half_test [OF assms _ _ half_masks(3,4), of "64 div no0 w div 2 + 64 div no0 w div 4" v eq] quarters w4 by blast
      obtain z3 where z3: "test_zero w (v OR 0xffffffffffff0000) = Some z3"
          "(if eq then \<not> z3 else v AND 0x000000000000ffff = 0) = no_match eq w v (64 div no0 w div 4)"
        using half_test [OF assms _ _ half_masks(5,6), of "64 div no0 w div 4" v eq] quarters w4 by blast
      show ?thesis unfolding find_zero_start_def z(1) z2(1) z3(1)
        using w8 w4 none z(2) z2(2) z3(2) by (simp add: Let_def del: one_add_one)
    qed (use w8 none z in \<open>simp add: find_zero_start_def Let_def\<close>)
  qed (use none in \<open>simp add: find_zero_start_def\<close>)
qed

lemma find_zero_correct:
  assumes "lane_width w" "j < 64 div w" "eq = (lane w j v = 0)" "no_match eq w v j"
  shows "find_zero eq w v = Some j"
proof -
  have first: "shr v (w * 0) = Some v" "(v AND width_mask w = 0) = (lane w 0 v = 0)"
    using lane_mask_zero [OF assms(1), of 0 v] by (simp_all add: shr_def)
  show ?thesis
  proof (cases "eq = (lane w 0 v = 0)")
    case True
    then have "j = 0" using assms(4) by (auto simp: no_match_def intro: ccontr)
    then show ?thesis using True by (simp add: find_zero_def first [simplified])
  next
    case False
    obtain s where s: "find_zero_start eq w v = Some s" "no_match eq w v s"
      using find_zero_start_ok [OF assms(1)] by blast
    have "s \<le> j" using s(2) assms(3) by (auto simp: no_match_def not_less [symmetric])
    then have "find_zero_loop eq w v s = Some j"
      using assms(4) by (intro find_zero_loop_finds [OF assms(1) _ assms(2,3)]) (simp_all add: no_match_def)
    then show ?thesis using False s(1) by (simp add: find_zero_def first [simplified])
  qed
qed


text \<open>
  On every chunk and for every width, the tests on 64 bits say what they are used for:
  \<open>test_zero\<close> whether some lane is zero, \<open>cascade\<close> which lanes are zero or which are not, and \<open>find_zero\<close>,
  which ends and does not shift too far whenever there is one, the first such lane.
\<close>

theorem chunk_tests_are_exact:
  assumes "lane_width w"
  shows "test_zero w v = Some (\<exists>j<64 div w. lane w j v = 0) \<and>
    (\<exists>b. cascade w zero v = Some b \<and> (\<forall>j. j < 64 div w \<longrightarrow> lane w j b = of_bool ((lane w j v = 0) = zero))) \<and>
    (\<forall>j. j < 64 div w \<longrightarrow> eq = (lane w j v = 0) \<longrightarrow> (\<forall>i<j. eq \<noteq> (lane w i v = 0)) \<longrightarrow>
       find_zero eq w v = Some j)"
proof (intro conjI allI impI)
  show "test_zero w v = Some (\<exists>j<64 div w. lane w j v = 0)" by (rule test_zero_correct [OF assms])
  show "\<exists>b. cascade w zero v = Some b \<and> (\<forall>j. j < 64 div w \<longrightarrow> lane w j b = of_bool ((lane w j v = 0) = zero))"
    using cascade_correct [OF assms, of zero v] by (simp add: lane_flags_def)
  show "find_zero eq w v = Some j"
    if "j < 64 div w" "eq = (lane w j v = 0)" "\<forall>i<j. eq \<noteq> (lane w i v = 0)" for j
    by (rule find_zero_correct [OF assms that(1,2)]) (use that(3) in \<open>simp add: no_match_def\<close>)
qed

theorem chunk_tests_are_exact_witness:
  "test_zero 8 0x0102030405000708 = Some True \<and> find_zero True 8 0x0102030405000708 = Some 2"
proof -
  have l: "lane 8 0 0x0102030405000708 = 8" "lane 8 1 0x0102030405000708 = 7" "lane 8 2 0x0102030405000708 = 0"
    by (simp_all add: lane_def)
  then have "\<exists>j<64 div 8. lane 8 j 0x0102030405000708 = 0" by (intro exI [of _ 2]) simp
  moreover have "\<forall>i<2. lane 8 i 0x0102030405000708 \<noteq> 0" using l by (simp add: numeral_2_eq_2 less_Suc_eq)
  ultimately show ?thesis
    using chunk_tests_are_exact [of 8 "0x0102030405000708" True True] l by (auto simp: lane_width_def)
qed

section \<open>A chunk of an array\<close>

lemma chunk_element:
  assumes "load 8 d (8 * p) = Some c" "lane_width w" "j < 64 div w"
  shows "elem w d (p * (64 div w) + j) = as_element w (lane w j c)"
proof -
  have "as_element w (lane w j c) = elem w d (p * (64 div w) + j)"
  proof (rule elem_eqI)
    fix k assume k: "k < w"
    then have "w * j + k < 64" using lane_index [OF assms(2,3)] by simp
    moreover have e: "8 * (8 * p) + (w * j + k) = w * (p * (64 div w) + j) + k"
      using lane_width_div [OF assms(2)] by (simp add: distrib_left mult.left_commute [of w p])
    ultimately show "bit (lane w j c) k = dbit d (w * (p * (64 div w) + j) + k)"
      using k by (simp only: bit_lane load_bit [OF assms(1)] e) simp
  qed (use lane_width_pos [OF assms(2)] in simp)
  then show ?thesis by simp
qed

end
