(* ===== verification/QueryState.thy ===== *)
theory QueryState
  imports BitLanes
begin

text \<open>
  What a search of an array does with the elements it finds: the conditions of
  \<open>include/core/realm/query_conditions.hpp\<close> that an array can be searched for, and
  \<open>QueryState<int64_t>\<close> with \<open>Array::find_action\<close> and \<open>find_action_pattern\<close> of
  \<open>include/core/realm/array.hpp\<close>.

  Functions of the core library that are declared in the headers but not defined in the repository
  are the fields of \<open>core_functions\<close>; \<open>core_ok\<close> states what they do: the aggregates are functions of the
  elements of the array and a range, and the index they return is one of the array. A \<open>size_t\<close> that is passed to an action
  is a 64 bit word, since the search of nullable arrays lets it wrap around.
\<close>

section \<open>Conditions\<close>

datatype cond = Equal | NotEqual | Greater | Less | None_cond | NotNull

definition equal_holds :: "int \<Rightarrow> int \<Rightarrow> bool \<Rightarrow> bool \<Rightarrow> bool" where
  "equal_holds v1 v2 v1null v2null \<longleftrightarrow> (v1null \<and> v2null) \<or> (\<not> v1null \<and> \<not> v2null \<and> v1 = v2)"

definition equal_can_match :: "int \<Rightarrow> int \<Rightarrow> int \<Rightarrow> bool" where
  "equal_can_match v lbound ubound \<longleftrightarrow> v \<ge> lbound \<and> v \<le> ubound"

definition equal_will_match :: "int \<Rightarrow> int \<Rightarrow> int \<Rightarrow> bool" where
  "equal_will_match v lbound ubound \<longleftrightarrow> v = 0 \<and> ubound = 0 \<and> lbound = 0"

definition not_equal_holds :: "int \<Rightarrow> int \<Rightarrow> bool \<Rightarrow> bool \<Rightarrow> bool" where
  "not_equal_holds v1 v2 v1null v2null =
     (if \<not> v1null \<and> \<not> v2null then v1 \<noteq> v2 else if v1null \<and> v2null then False else True)"

definition not_equal_can_match :: "int \<Rightarrow> int \<Rightarrow> int \<Rightarrow> bool" where
  "not_equal_can_match v lbound ubound \<longleftrightarrow> \<not> (v = 0 \<and> ubound = 0 \<and> lbound = 0)"

definition not_equal_will_match :: "int \<Rightarrow> int \<Rightarrow> int \<Rightarrow> bool" where
  "not_equal_will_match v lbound ubound \<longleftrightarrow> v > ubound \<or> v < lbound"

definition greater_holds :: "int \<Rightarrow> int \<Rightarrow> bool \<Rightarrow> bool \<Rightarrow> bool" where
  "greater_holds v1 v2 v1null v2null = (if v1null \<or> v2null then False else v1 > v2)"

definition greater_can_match :: "int \<Rightarrow> int \<Rightarrow> int \<Rightarrow> bool" where
  "greater_can_match v lbound ubound \<longleftrightarrow> ubound > v"

definition greater_will_match :: "int \<Rightarrow> int \<Rightarrow> int \<Rightarrow> bool" where
  "greater_will_match v lbound ubound \<longleftrightarrow> lbound > v"

definition less_holds :: "int \<Rightarrow> int \<Rightarrow> bool \<Rightarrow> bool \<Rightarrow> bool" where
  "less_holds v1 v2 v1null v2null = (if v1null \<or> v2null then False else v1 < v2)"

definition less_can_match :: "int \<Rightarrow> int \<Rightarrow> int \<Rightarrow> bool" where
  "less_can_match v lbound ubound \<longleftrightarrow> lbound < v"

definition less_will_match :: "int \<Rightarrow> int \<Rightarrow> int \<Rightarrow> bool" where
  "less_will_match v lbound ubound \<longleftrightarrow> ubound < v"

text \<open>The structures \<open>None\<close> and \<open>NotNull\<close> always match and look only at the null flag.\<close>

fun holds_null :: "cond \<Rightarrow> int \<Rightarrow> int \<Rightarrow> bool \<Rightarrow> bool \<Rightarrow> bool" where
  "holds_null Equal v1 v2 v1null v2null = equal_holds v1 v2 v1null v2null"
| "holds_null NotEqual v1 v2 v1null v2null = not_equal_holds v1 v2 v1null v2null"
| "holds_null Greater v1 v2 v1null v2null = greater_holds v1 v2 v1null v2null"
| "holds_null Less v1 v2 v1null v2null = less_holds v1 v2 v1null v2null"
| "holds_null None_cond v1 v2 v1null v2null = True"
| "holds_null NotNull v1 v2 v1null v2null = (\<not> v1null)"

definition cond_holds :: "cond \<Rightarrow> int \<Rightarrow> int \<Rightarrow> bool" where
  "cond_holds c v1 v2 = holds_null c v1 v2 False False"

fun can_match :: "cond \<Rightarrow> int \<Rightarrow> int \<Rightarrow> int \<Rightarrow> bool" where
  "can_match Equal v lbound ubound = equal_can_match v lbound ubound"
| "can_match NotEqual v lbound ubound = not_equal_can_match v lbound ubound"
| "can_match Greater v lbound ubound = greater_can_match v lbound ubound"
| "can_match Less v lbound ubound = less_can_match v lbound ubound"
| "can_match None_cond v lbound ubound = True"
| "can_match NotNull v lbound ubound = True"

fun will_match :: "cond \<Rightarrow> int \<Rightarrow> int \<Rightarrow> int \<Rightarrow> bool" where
  "will_match Equal v lbound ubound = equal_will_match v lbound ubound"
| "will_match NotEqual v lbound ubound = not_equal_will_match v lbound ubound"
| "will_match Greater v lbound ubound = greater_will_match v lbound ubound"
| "will_match Less v lbound ubound = less_will_match v lbound ubound"
| "will_match None_cond v lbound ubound = True"
| "will_match NotNull v lbound ubound = True"

lemmas match_defs = equal_holds_def equal_can_match_def equal_will_match_def not_equal_holds_def
  not_equal_can_match_def not_equal_will_match_def greater_holds_def greater_can_match_def
  greater_will_match_def less_holds_def less_can_match_def less_will_match_def

lemma cond_holds_simps [simp]:
  "cond_holds Equal x v = (x = v)" "cond_holds NotEqual x v = (x \<noteq> v)" "cond_holds Greater x v = (x > v)"
  "cond_holds Less x v = (x < v)" "cond_holds None_cond x v = True" "cond_holds NotNull x v = True"
  by (auto simp: cond_holds_def match_defs)

lemma can_match_sound: "lbound \<le> x \<Longrightarrow> x \<le> ubound \<Longrightarrow> cond_holds c x v \<Longrightarrow> can_match c v lbound ubound"
  by (cases c) (auto simp: match_defs)

lemma will_match_sound: "lbound \<le> x \<Longrightarrow> x \<le> ubound \<Longrightarrow> will_match c v lbound ubound \<Longrightarrow> cond_holds c x v"
  by (cases c) (auto simp: match_defs)

section \<open>The state of a search\<close>

datatype action = Act_ReturnFirst | Act_Sum | Act_Max | Act_Min | Act_Count | Act_FindAll | Act_CallIdx
  | Act_CallbackIdx | Act_CallbackVal | Act_CallbackNone | Act_CallbackBoth | Act_Average

text \<open>
  \<open>m_key_values\<close> is a pointer to a \<open>ClusterKeyArray\<close>, here its function \<open>get\<close>; for \<open>act_FindAll\<close>, \<open>m_state\<close>
  is a pointer to a column, and \<open>qs_found\<close> is what was added to that column.
\<close>

record query_state =
  qs_match_count :: nat
  qs_limit :: nat
  qs_minmax_index :: int
  qs_key_offset :: "64 word"
  qs_key_values :: "(64 word \<Rightarrow> 64 word) option"
  qs_state :: int
  qs_found :: "int list"

record core_functions =
  round_up :: "nat \<Rightarrow> nat \<Rightarrow> nat"
  fast_popcount64 :: "64 word \<Rightarrow> int"
  first_set_bit64 :: "64 word \<Rightarrow> nat"
  array_sum :: "int list \<Rightarrow> nat \<Rightarrow> nat \<Rightarrow> int"
  array_maximum :: "int list \<Rightarrow> nat \<Rightarrow> nat \<Rightarrow> int \<times> nat"
  array_minimum :: "int list \<Rightarrow> nat \<Rightarrow> nat \<Rightarrow> int \<times> nat"

definition bit_count :: "64 word \<Rightarrow> nat" where
  "bit_count v = card {n. bit v n}"

definition core_ok :: "core_functions \<Rightarrow> bool" where
  "core_ok k \<longleftrightarrow>
     (\<forall>p al. 0 < al \<longrightarrow> al dvd round_up k p al \<and> p \<le> round_up k p al \<and> round_up k p al < p + al) \<and>
     (\<forall>v. fast_popcount64 k v = int (bit_count v)) \<and>
     (\<forall>v. v \<noteq> 0 \<longrightarrow> bit v (first_set_bit64 k v) \<and> (\<forall>n<first_set_bit64 k v. \<not> bit v n)) \<and>
     (\<forall>xs s e. s \<le> e \<longrightarrow> e \<le> length xs \<longrightarrow> array_sum k xs s e = sum_list (take (e - s) (drop s xs))) \<and>
     (\<forall>xs s e. s < e \<longrightarrow> e \<le> length xs \<longrightarrow> (let (v, i) = array_maximum k xs s e in
        s \<le> i \<and> i < e \<and> v = xs ! i \<and> (\<forall>j\<in>{s..<e}. xs ! j \<le> v))) \<and>
     (\<forall>xs s e. s < e \<longrightarrow> e \<le> length xs \<longrightarrow> (let (v, i) = array_minimum k xs s e in
        s \<le> i \<and> i < e \<and> v = xs ! i \<and> (\<forall>j\<in>{s..<e}. v \<le> xs ! j)))"

text \<open>An \<open>int64_t\<close>; arithmetic that leaves its range is undefined.\<close>

definition int64 :: "int \<Rightarrow> int option" where
  "int64 v = (if - (2 ^ 63) \<le> v \<and> v < 2 ^ 63 then Some v else None)"

definition to_size :: "int \<Rightarrow> nat" where
  "to_size v = nat (v mod 2 ^ 64)"

definition not_found :: int where
  "not_found = - 1"

definition query_state_new :: "action \<Rightarrow> int \<Rightarrow> nat \<Rightarrow> query_state option" where
  "query_state_new action akku limit = do {
     st \<leftarrow> (case action of
         Act_Max \<Rightarrow> Some (- (2 ^ 63))
       | Act_Min \<Rightarrow> Some (2 ^ 63 - 1)
       | Act_ReturnFirst \<Rightarrow> Some not_found
       | Act_Sum \<Rightarrow> Some 0
       | Act_Count \<Rightarrow> Some 0
       | Act_FindAll \<Rightarrow> Some akku
       | Act_CallbackIdx \<Rightarrow> Some 0
       | _ \<Rightarrow> None);
     Some \<lparr>qs_match_count = 0, qs_limit = limit, qs_minmax_index = - 1, qs_key_offset = 0,
       qs_key_values = None, qs_state = st, qs_found = []\<rparr> }"

definition match_index :: "64 word \<Rightarrow> query_state \<Rightarrow> 64 word" where
  "match_index index q = (case qs_key_values q of None \<Rightarrow> index | Some get_key \<Rightarrow> get_key index + qs_key_offset q)"

definition match_pattern :: "core_functions \<Rightarrow> action \<Rightarrow> 64 word \<Rightarrow> query_state \<Rightarrow> (bool \<times> query_state) option" where
  "match_pattern k action indexpattern q =
    (if action = Act_Count then
       if qs_match_count q + 64 \<ge> qs_limit q then Some (False, q)
       else do {
         st \<leftarrow> int64 (qs_state q + fast_popcount64 k indexpattern);
         Some (True, q\<lparr>qs_state := st, qs_match_count := to_size st\<rparr>) }
     else Some (False, q))"

definition match_value :: "action \<Rightarrow> 64 word \<Rightarrow> int \<Rightarrow> query_state \<Rightarrow> (bool \<times> query_state) option" where
  "match_value action index v q = do {
     let q = q\<lparr>qs_match_count := qs_match_count q + 1\<rparr>;
     let go = (\<lambda>q. Some (qs_limit q > qs_match_count q, q));
     (case action of
         Act_Max \<Rightarrow> go (if v > qs_state q then q\<lparr>qs_state := v, qs_minmax_index := sint (match_index index q)\<rparr> else q)
       | Act_Min \<Rightarrow> go (if v < qs_state q then q\<lparr>qs_state := v, qs_minmax_index := sint (match_index index q)\<rparr> else q)
       | Act_Sum \<Rightarrow> do { st \<leftarrow> int64 (qs_state q + v); go (q\<lparr>qs_state := st\<rparr>) }
       | Act_Count \<Rightarrow> do { st \<leftarrow> int64 (qs_state q + 1); go (q\<lparr>qs_state := st, qs_match_count := to_size st\<rparr>) }
       | Act_FindAll \<Rightarrow> go (q\<lparr>qs_found := qs_found q @ [sint (match_index index q)]\<rparr>)
       | Act_ReturnFirst \<Rightarrow> Some (False, q\<lparr>qs_state := sint index\<rparr>)
       | _ \<Rightarrow> None) }"

definition match_optional :: "action \<Rightarrow> 64 word \<Rightarrow> int option \<Rightarrow> query_state \<Rightarrow> (bool \<times> query_state) option" where
  "match_optional action index v q = (case v of
       Some x \<Rightarrow> match_value action index x q
     | None \<Rightarrow> (let go = (\<lambda>q. Some (qs_limit q > qs_match_count q, q)) in
         (case action of
             Act_Count \<Rightarrow> do { st \<leftarrow> int64 (qs_state q + 1); go (q\<lparr>qs_state := st, qs_match_count := to_size st\<rparr>) }
           | Act_FindAll \<Rightarrow> go (q\<lparr>qs_found := qs_found q @ [sint (match_index index q)]\<rparr>)
           | Act_ReturnFirst \<Rightarrow> Some (False, q\<lparr>qs_match_count := qs_match_count q + 1, qs_state := sint index\<rparr>)
           | _ \<Rightarrow> go q)))"

text \<open>
  The state of a search is that of the query together with the state of the callback, which is a
  function object.
\<close>

type_synonym 'c search_state = "query_state \<times> 'c"
type_synonym 'c callback = "64 word \<Rightarrow> 'c \<Rightarrow> bool \<times> 'c"

definition find_action ::
  "action \<Rightarrow> 'c callback \<Rightarrow> 64 word \<Rightarrow> int option \<Rightarrow> 'c search_state \<Rightarrow> (bool \<times> 'c search_state) option" where
  "find_action action callback index v = (\<lambda>(q, c).
     if action = Act_CallbackIdx then (case callback index c of (b, c) \<Rightarrow> Some (b, (q, c)))
     else map_option (\<lambda>(b, q). (b, (q, c))) (match_optional action index v q))"

definition find_action_pattern ::
  "core_functions \<Rightarrow> action \<Rightarrow> 64 word \<Rightarrow> 64 word \<Rightarrow> 'c search_state \<Rightarrow> (bool \<times> 'c search_state) option" where
  "find_action_pattern k action index pattern = (\<lambda>(q, c).
     if action = Act_CallbackIdx then Some (False, (q, c))
     else map_option (\<lambda>(b, q). (b, (q, c))) (match_pattern k action pattern q))"


section \<open>Handing matches to an action\<close>

text \<open>The specification of every search: the matches are handed to the action one by one until it says stop.\<close>

fun scan :: "(64 word \<Rightarrow> 'v \<Rightarrow> 's \<Rightarrow> (bool \<times> 's) option) \<Rightarrow> (64 word \<times> 'v) list \<Rightarrow> 's \<Rightarrow> (bool \<times> 's) option" where
  "scan act [] s = Some (True, s)"
| "scan act (x # xs) s = do { (go, s) \<leftarrow> act (fst x) (snd x) s; if go then scan act xs s else Some (False, s) }"

definition and_then :: "(bool \<times> 's) option \<Rightarrow> ('s \<Rightarrow> (bool \<times> 's) option) \<Rightarrow> (bool \<times> 's) option" where
  "and_then r f = do { (go, s) \<leftarrow> r; if go then f s else Some (False, s) }"

lemma and_then_simps [simp]:
  "and_then None f = None" "and_then (Some (True, s)) f = f s" "and_then (Some (False, s)) f = Some (False, s)"
  by (simp_all add: and_then_def)

lemma and_then_bind:
  "r \<bind> (\<lambda>(go, s). if \<not> go then Some (False, s) else f s) = and_then r f"
  "r \<bind> (\<lambda>(go, s). if go then f s else Some (False, s)) = and_then r f"
  by (auto simp: and_then_def intro!: arg_cong [of _ _ "Option.bind r"])

lemma and_then_return [simp]: "and_then r (\<lambda>s. Some (True, s)) = r"
  by (cases r) (auto simp: and_then_def)

lemma scan_append: "scan act (xs @ ys) s = and_then (scan act xs s) (scan act ys)"
proof (induction xs arbitrary: s)
  case (Cons x xs)
  show ?case
  proof (cases "act (fst x) (snd x) s")
    case (Some r)
    then show ?thesis using Cons by (cases r; cases "fst r") auto
  qed simp
qed simp

text \<open>
  The contract between the search and an action with its shortcut for whole chunks: in a state the shortcut is
  either refused, and then refused as long as the search goes on; or it is taken, and does what handing
  over the matches one by one would do.
\<close>

locale search_action =
  fixes act :: "64 word \<Rightarrow> int option \<Rightarrow> 's \<Rightarrow> (bool \<times> 's) option"
    and pat :: "64 word \<Rightarrow> 64 word \<Rightarrow> 's \<Rightarrow> (bool \<times> 's) option"
    and inv :: "'s \<Rightarrow> bool" and refuses :: "'s \<Rightarrow> bool"
  assumes act_inv: "inv s \<Longrightarrow> act i (Some v) s = Some (b, s') \<Longrightarrow> inv s'"
    and refused: "refuses s \<Longrightarrow> pat i m s = Some (False, s)"
    and refuses_on: "refuses s \<Longrightarrow> inv s \<Longrightarrow> act i (Some v) s = Some (True, s') \<Longrightarrow> refuses s'"
    and taken: "\<not> refuses s \<Longrightarrow> inv s \<Longrightarrow> length xs = bit_count m \<Longrightarrow> pat i m s = scan act (map (apsnd Some) xs) s"
    and taken_goes_on: "\<not> refuses s \<Longrightarrow> pat i m s = Some (b, s') \<Longrightarrow> b"
begin

lemma scan_inv: "inv s \<Longrightarrow> scan act (map (apsnd Some) xs) s = Some (b, s') \<Longrightarrow> inv s'"
proof (induction xs arbitrary: s)
  case (Cons x xs)
  then obtain b1 s1 where r: "act (fst x) (Some (snd x)) s = Some (b1, s1)"
    by (cases "act (fst x) (Some (snd x)) s") auto
  then show ?case using Cons act_inv [OF Cons.prems(1) r] by (cases b1) auto
qed simp

end

text \<open>Counting: the number of matches is also the state.\<close>

definition counting :: "action \<Rightarrow> 'c search_state \<Rightarrow> bool" where
  "counting action s \<longleftrightarrow> (action = Act_Count \<longrightarrow>
     0 \<le> qs_state (fst s) \<and> qs_state (fst s) < 2 ^ 63 \<and> qs_match_count (fst s) = nat (qs_state (fst s)))"

definition no_shortcut :: "action \<Rightarrow> 'c search_state \<Rightarrow> bool" where
  "no_shortcut action s \<longleftrightarrow> \<not> (action = Act_Count \<and> qs_match_count (fst s) + 64 < qs_limit (fst s))"

lemma to_size_nat: "0 \<le> v \<Longrightarrow> v < 2 ^ 63 \<Longrightarrow> to_size v = nat v"
  by (simp add: to_size_def)

lemma int64_Some: "int64 v = Some u \<longleftrightarrow> u = v \<and> - (2 ^ 63) \<le> v \<and> v < 2 ^ 63"
  by (auto simp: int64_def)

lemma count_action:
  assumes "counting Act_Count s"
  shows "find_action Act_Count cb i (Some v) s = (case s of (q, c) \<Rightarrow>
    if qs_state q + 1 < 2 ^ 63 then Some (nat (qs_state q + 1) < qs_limit q,
      (q\<lparr>qs_state := qs_state q + 1, qs_match_count := nat (qs_state q + 1)\<rparr>, c)) else None)"
  using assms by (cases s) (auto simp: find_action_def match_optional_def match_value_def counting_def int64_def
      to_size_nat Let_def)


definition counted :: "int \<Rightarrow> 'c search_state \<Rightarrow> 'c search_state" where
  "counted n = (\<lambda>(q, c). (q\<lparr>qs_state := qs_state q + n, qs_match_count := nat (qs_state q + n)\<rparr>, c))"

lemma counted_zero: "counting Act_Count s \<Longrightarrow> counted 0 s = s"
  by (cases s) (simp add: counted_def counting_def)

lemma counted_facts [simp]:
  "qs_state (fst (counted n s)) = qs_state (fst s) + n" "qs_limit (fst (counted n s)) = qs_limit (fst s)"
  "counted m (counted n s) = counted (n + m) s"
  by (cases s; simp add: counted_def add.assoc)+

lemma counting_counted:
  "counting Act_Count s \<Longrightarrow> 0 \<le> n \<Longrightarrow> qs_state (fst s) + n < 2 ^ 63 \<Longrightarrow> counting Act_Count (counted n s)"
  by (cases s) (simp add: counted_def counting_def)

lemma count_one:
  assumes "counting Act_Count s"
  shows "find_action Act_Count cb i (Some v) s = (if qs_state (fst s) + 1 < 2 ^ 63
    then Some (nat (qs_state (fst s) + 1) < qs_limit (fst s), counted 1 s) else None)"
  using count_action [OF assms, of cb i v] by (cases s) (simp add: counted_def)

lemma scan_counts:
  assumes "counting Act_Count s" "nat (qs_state (fst s)) + length xs < qs_limit (fst s)"
  shows "scan (find_action Act_Count cb) (map (apsnd Some) xs) s =
    (if qs_state (fst s) + int (length xs) < 2 ^ 63 then Some (True, counted (int (length xs)) s) else None)"
  using assms
proof (induction xs arbitrary: s)
  case Nil
  then show ?case by (simp add: counted_zero) (simp add: counting_def)
next
  case (Cons x xs)
  show ?case
  proof (cases "qs_state (fst s) + 1 < 2 ^ 63")
    case True
    have go: "nat (qs_state (fst s) + 1) < qs_limit (fst s)"
      using Cons.prems by (simp add: counting_def nat_add_distrib)
    have "scan (find_action Act_Count cb) (map (apsnd Some) xs) (counted 1 s) =
        (if qs_state (fst (counted 1 s)) + int (length xs) < 2 ^ 63
         then Some (True, counted (int (length xs)) (counted 1 s)) else None)"
      using Cons.prems True by (intro Cons.IH counting_counted) (simp_all add: counting_def nat_add_distrib)
    then show ?thesis using count_one [OF Cons.prems(1)] True go by (simp add: algebra_simps)
  next
    case False
    then have "\<not> qs_state (fst s) + int (length (x # xs)) < 2 ^ 63" by simp
    then show ?thesis using count_one [OF Cons.prems(1)] False by simp
  qed
qed

lemma bit_count_le: "bit_count v \<le> 64"
proof -
  have "{n. bit v n} \<subseteq> {..<64}" by (auto dest: bit_imp_le_length)
  then have "card {n. bit v n} \<le> card {..<64 :: nat}" by (intro card_mono) simp_all
  then show ?thesis by (simp add: bit_count_def)
qed

definition search_ok :: "core_functions \<Rightarrow> action \<Rightarrow> 'c search_state \<Rightarrow> bool" where
  "search_ok k action s \<longleftrightarrow> counting action s \<and> (\<forall>v. fast_popcount64 k v = int (bit_count v))"

interpretation query: search_action "find_action action cb" "find_action_pattern k action" "search_ok k action"
    "no_shortcut action"
proof
  fix s s' :: "'a search_state" and i i' m v b
  show "search_ok k action s'" if "search_ok k action s" "find_action action cb i (Some v) s = Some (b, s')"
  proof (cases "action = Act_Count")
    case True
    then show ?thesis using that count_one [of s cb i v] counting_counted [of s 1]
      by (auto simp: search_ok_def counting_def split: if_splits)
  qed (use that in \<open>simp add: search_ok_def counting_def\<close>)
  show "find_action_pattern k action i m s = Some (False, s)" if "no_shortcut action s"
    using that by (cases s) (auto simp: find_action_pattern_def match_pattern_def no_shortcut_def)
  show "no_shortcut action s'"
    if "no_shortcut action s" "search_ok k action s" "find_action action cb i (Some v) s = Some (True, s')"
  proof (cases "action = Act_Count")
    case True
    then have "s' = counted 1 s" "counting Act_Count s"
      using that count_one [of s cb i v] by (auto simp: search_ok_def split: if_splits)
    then show ?thesis using that(1) True by (cases s) (auto simp: no_shortcut_def counted_def counting_def)
  qed (simp add: no_shortcut_def)
  show "find_action_pattern k action i m s = scan (find_action action cb) (map (apsnd Some) xs) s"
    if "\<not> no_shortcut action s" "search_ok k action s" "length xs = bit_count m" for xs
  proof -
    have a: "action = Act_Count" "qs_match_count (fst s) + 64 < qs_limit (fst s)" "counting Act_Count s"
      using that by (auto simp: no_shortcut_def search_ok_def)
    have "nat (qs_state (fst s)) + length xs < qs_limit (fst s)"
      using a that(3) bit_count_le [of m] by (simp add: counting_def)
    then show ?thesis
      using scan_counts [OF a(3), of xs cb] a that
      by (cases s) (auto simp: find_action_pattern_def match_pattern_def search_ok_def counting_def counted_def
          int64_def to_size_nat)
  qed
  show b if "\<not> no_shortcut action s" "find_action_pattern k action i m s = Some (b, s')"
    using that by (cases s) (auto simp: no_shortcut_def find_action_pattern_def match_pattern_def split: bind_splits)
qed

end
