(* ===== verification/ArrayCompare.thy ===== *)
theory ArrayCompare
  imports QueryState
begin

text \<open>
  Searching a range of an array for the elements that are equal to, not equal to, less than or greater
  than a value (\<open>compare_equality\<close>, \<open>compare_relation\<close> and \<open>compare\<close> of \<open>include/core/realm/array.hpp\<close>),
  in the form that is compiled where there is no SSE, which is every device with an ARM processor.
  The action and its shortcut for chunks are arguments of the search functions, as \<open>find_action\<close> and
  \<open>find_action_pattern\<close> are of the templates. \<open>None\<close> is a read outside the array, a failing assertion
  or a search that does not end.

  \<open>compare_equality\<close> shifts the rest of a chunk by 64 when its last lane matches, which is
  undefined; the value is the argument \<open>junk\<close>, and the lemmas hold for all of its values.

  The searches are compared with \<open>scan_hits\<close>, which looks at one element after another; the lemmas
  hold for every action that keeps the contract \<open>search_action\<close>.
\<close>

record array =
  arr_data :: payload
  arr_size :: nat
  arr_width :: nat
  arr_lbound :: int
  arr_ubound :: int

type_synonym 's act = "64 word \<Rightarrow> int option \<Rightarrow> 's \<Rightarrow> (bool \<times> 's) option"
type_synonym 's pat = "64 word \<Rightarrow> 64 word \<Rightarrow> 's \<Rightarrow> (bool \<times> 's) option"

definition get_universal :: "nat \<Rightarrow> payload \<Rightarrow> nat \<Rightarrow> int option" where
  "get_universal w data ndx =
    (if w = 0 then Some 0
     else if w = 1 then do { b \<leftarrow> read_byte data (drop_bit 3 ndx); Some (drop_bit (ndx AND 7) (sint b) AND 0x01) }
     else if w = 2 then do { b \<leftarrow> read_byte data (drop_bit 2 ndx); Some (drop_bit (push_bit 1 (ndx AND 3)) (sint b) AND 0x03) }
     else if w = 4 then do { b \<leftarrow> read_byte data (drop_bit 1 ndx); Some (drop_bit (push_bit 2 (ndx AND 1)) (sint b) AND 0x0F) }
     else if w = 8 then do { b \<leftarrow> read_byte data ndx; Some (sint b) }
     else if w = 16 then do { v \<leftarrow> load 2 data (ndx * 2); Some (sint (v :: 16 word)) }
     else if w = 32 then do { v \<leftarrow> load 4 data (ndx * 4); Some (sint (v :: 32 word)) }
     else if w = 64 then do { v \<leftarrow> load 8 data (ndx * 8); Some (sint (v :: 64 word)) }
     else None)"

lemma get_universal_direct: "get_universal = get_direct"
  by (simp add: get_universal_def get_direct_def fun_eq_iff)

definition array_get :: "array \<Rightarrow> nat \<Rightarrow> int option" where
  "array_get a i = get_universal (arr_width a) (arr_data a) i"

text \<open>The loops that look at one element after another.\<close>

function compare_each :: "(int \<Rightarrow> bool) \<Rightarrow> 's act \<Rightarrow> array \<Rightarrow> nat \<Rightarrow> nat \<Rightarrow> 64 word \<Rightarrow> 's \<Rightarrow> (bool \<times> 's) option" where
  "compare_each test act a start stop base s =
    (if start < stop then do {
       v \<leftarrow> array_get a start;
       if test v then do {
         (go, s) \<leftarrow> act (of_nat start + base) (Some v) s;
         if \<not> go then Some (False, s) else compare_each test act a (Suc start) stop base s }
       else compare_each test act a (Suc start) stop base s }
     else Some (True, s))"
  by pat_completeness auto
termination by (relation "measure (\<lambda>(test, act, a, start, stop, base, s). stop - start)") auto

declare compare_each.simps [simp del]

section \<open>Equality\<close>

definition shift_out :: "64 word \<Rightarrow> 64 word \<Rightarrow> nat \<Rightarrow> 64 word" where
  "shift_out junk v n = (if n < 64 then drop_bit n v else junk)"

partial_function (option) equal_chunk ::
  "bool \<Rightarrow> 64 word \<Rightarrow> 's act \<Rightarrow> 's pat \<Rightarrow> array \<Rightarrow> 64 word \<Rightarrow> nat \<Rightarrow> nat \<Rightarrow> 64 word \<Rightarrow> 's \<Rightarrow> (bool \<times> 's) option" where
  "equal_chunk eq junk act pat a base start i v2 s = do {
     go \<leftarrow> (if eq then test_zero (arr_width a) v2 else Some (v2 \<noteq> 0));
     if go then do {
       matches \<leftarrow> cascade (arr_width a) eq v2;
       (consumed, s) \<leftarrow> pat (of_nat start + base) matches s;
       if consumed then Some (True, s)
       else do {
         t \<leftarrow> find_zero eq (arr_width a) v2;
         let i = i + t;
         if i \<ge> 64 div no0 (arr_width a) then Some (True, s)
         else do {
           v \<leftarrow> array_get a (start + i);
           (go, s) \<leftarrow> act (of_nat (i + start) + base) (Some v) s;
           if \<not> go then Some (False, s)
           else equal_chunk eq junk act pat a base start (i + 1) (shift_out junk v2 ((t + 1) * arr_width a)) s } } }
     else Some (True, s) }"

text \<open>
  The loop over the chunks of a range, in \<open>compare_equality\<close> and \<open>compare_relation\<close>; \<open>p\<close> and \<open>e\<close> are
  pointers into the payload, as byte offsets. \<open>step\<close> is the body, which gets the index of the first
  element of the chunk.
\<close>

partial_function (option) for_chunks ::
  "(nat \<Rightarrow> 64 word \<Rightarrow> 's \<Rightarrow> (bool \<times> 's) option) \<Rightarrow> array \<Rightarrow> nat \<Rightarrow> int \<Rightarrow> 's \<Rightarrow> (bool \<times> nat \<times> 's) option" where
  "for_chunks step a p e s =
    (if int p < e then do {
       chunk \<leftarrow> load 8 (arr_data a) p;
       (go, s) \<leftarrow> step (p div 8 * 8 * 8 div no0 (arr_width a)) chunk s;
       if \<not> go then Some (False, p, s) else for_chunks step a (p + 8) e s }
     else Some (True, p, s))"

definition compare_equality ::
  "core_functions \<Rightarrow> bool \<Rightarrow> 64 word \<Rightarrow> 's act \<Rightarrow> 's pat \<Rightarrow> array \<Rightarrow> int \<Rightarrow> nat \<Rightarrow> nat \<Rightarrow> 64 word \<Rightarrow> 's \<Rightarrow>
     (bool \<times> 's) option" where
  "compare_equality k eq junk act pat a v start stop base s =
    (if start \<le> arr_size a \<and> (stop \<le> arr_size a \<or> stop = npos) \<and> start \<le> stop then do {
       let w = arr_width a;
       let test = (\<lambda>x. if eq then x = v else x \<noteq> v);
       let ee = round_up k start (64 div no0 w);
       let ee = (if ee > stop then stop else ee);
       (go, s) \<leftarrow> compare_each test act a start ee base s;
       let start = max start ee;
       if \<not> go then Some (False, s)
       else if start \<ge> stop then Some (True, s)
       else do {
         (go, start, s) \<leftarrow>
           (if w \<noteq> 32 \<and> w \<noteq> 64 then do {
              let mask = width_mask w;
              let valuemask = NOT 0 div no0 mask * (word_of_int v AND mask);
              (go, p, s) \<leftarrow> for_chunks (\<lambda>start chunk. equal_chunk eq junk act pat a base start 0 (chunk XOR valuemask)) a
                (start * w div 8) (int (stop * w div 8) - 8) s;
              Some (go, p div 8 * 8 * 8 div no0 w, s) }
            else Some (True, start, s));
         if \<not> go then Some (False, s) else compare_each test act a start stop base s } }
     else None)"


section \<open>Less and greater\<close>

text \<open>The lowest element of a chunk, as the casts of \<open>find_gtlt\<close> read it.\<close>

definition low_element :: "nat \<Rightarrow> 64 word \<Rightarrow> int" where
  "low_element w chunk =
    (if w = 1 then sint (chunk AND 0x1)
     else if w = 2 then sint (chunk AND 0x3)
     else if w = 4 then sint (chunk AND 0xf)
     else if w = 8 then sint (ucast chunk :: 8 word)
     else if w = 16 then sint (ucast chunk :: 16 word)
     else sint (ucast chunk :: 32 word))"

text \<open>
  The loop over the elements of a chunk, which the source unrolls for widths above one. (For 16 bits
  it shifts the original chunk each time.)
\<close>

fun gtlt_each :: "bool \<Rightarrow> nat \<Rightarrow> int \<Rightarrow> 's act \<Rightarrow> 64 word \<Rightarrow> nat \<Rightarrow> nat \<Rightarrow> 64 word \<Rightarrow> 's \<Rightarrow> (bool \<times> 's) option" where
  "gtlt_each gt w v act base t 0 chunk s = Some (True, s)"
| "gtlt_each gt w v act base t (Suc n) chunk s = do {
     let x = low_element w chunk;
     (go, s) \<leftarrow> (if (if gt then x > v else x < v) then act (of_nat t + base) (Some x) s else Some (True, s));
     if \<not> go then Some (False, s)
     else gtlt_each gt w v act base (t + 1) n (drop_bit w chunk) s }"

definition find_gtlt :: "bool \<Rightarrow> nat \<Rightarrow> int \<Rightarrow> 64 word \<Rightarrow> 's act \<Rightarrow> 64 word \<Rightarrow> 's \<Rightarrow> (bool \<times> 's) option" where
  "find_gtlt gt w v chunk act base s =
    (if w = 1 then gtlt_each gt w v act base 0 64 chunk s
     else if w = 2 then gtlt_each gt w v act base 0 32 chunk s
     else if w = 4 then gtlt_each gt w v act base 0 16 chunk s
     else if w = 8 then gtlt_each gt w v act base 0 8 chunk s
     else if w = 16 then gtlt_each gt w v act base 0 4 chunk s
     else if w = 32 then gtlt_each gt w v act base 0 2 chunk s
     else if w = 64 then (if (if gt then v > v else v < v) then act (0 + base) (Some v) s else Some (True, s))
     else Some (True, s))"

partial_function (option) gtlt_fast_loop ::
  "core_functions \<Rightarrow> nat \<Rightarrow> 64 word \<Rightarrow> 's act \<Rightarrow> 's pat \<Rightarrow> 64 word \<Rightarrow> 64 word \<Rightarrow> nat \<Rightarrow> 's \<Rightarrow> (bool \<times> 's) option" where
  "gtlt_fast_loop k w chunk act pat base m p s =
    (if m \<noteq> 0 then do {
       (consumed, s) \<leftarrow> pat base (drop_bit (no0 w - 1) m) s;
       if consumed then Some (True, s)
       else do {
         let t = first_set_bit64 k m div no0 w;
         let p = p + t;
         x \<leftarrow> shr chunk (p * w);
         (go, s) \<leftarrow> act (of_nat p + base) (Some (sint (x AND width_mask w))) s;
         if \<not> go then Some (False, s)
         else do {
           m \<leftarrow> (if (t + 1) * w = 64 then Some 0 else shr m ((t + 1) * w));
           gtlt_fast_loop k w chunk act pat base m (p + 1) s } } }
     else Some (True, s))"

definition gtlt_matches :: "bool \<Rightarrow> nat \<Rightarrow> 64 word \<Rightarrow> 64 word \<Rightarrow> 64 word" where
  "gtlt_matches gt w chunk magic = (let mask1 = width_mask w; mask2 = drop_bit 1 mask1 in
     if gt then ((chunk + magic) OR chunk) AND NOT 0 div no0 mask1 * (mask2 + 1)
     else (chunk - magic) AND NOT chunk AND NOT 0 div no0 mask1 * (mask2 + 1))"

definition find_gtlt_fast ::
  "core_functions \<Rightarrow> bool \<Rightarrow> nat \<Rightarrow> 64 word \<Rightarrow> 64 word \<Rightarrow> 's act \<Rightarrow> 's pat \<Rightarrow> 64 word \<Rightarrow> 's \<Rightarrow> (bool \<times> 's) option" where
  "find_gtlt_fast k gt w chunk magic act pat base s =
     gtlt_fast_loop k w chunk act pat base (gtlt_matches gt w chunk magic) 0 s"

text \<open>The test before the bit tricks are used.\<close>

definition use_fast :: "bool \<Rightarrow> nat \<Rightarrow> int \<Rightarrow> bool" where
  "use_fast gt w v \<longleftrightarrow>
     v \<noteq> sint (find_gtlt_magic gt w v AND width_mask w) \<and> v \<ge> 0 \<and> w \<ge> 2 \<and>
     v \<le> sint (drop_bit 1 (width_mask w) - (if gt then 1 else 0))"

definition relation_chunk ::
  "core_functions \<Rightarrow> bool \<Rightarrow> bool \<Rightarrow> nat \<Rightarrow> int \<Rightarrow> 's act \<Rightarrow> 's pat \<Rightarrow> 64 word \<Rightarrow> 64 word \<Rightarrow> 's \<Rightarrow> (bool \<times> 's) option" where
  "relation_chunk k fast gt w v act pat index chunk s =
    (if fast then do {
       l \<leftarrow> lower_bits w;
       let upper = push_bit (no0 w - 1) l AND chunk;
       if upper = 0 then find_gtlt_fast k gt w chunk (find_gtlt_magic gt w v) act pat index s
       else find_gtlt gt w v chunk act index s }
     else find_gtlt gt w v chunk act index s)"

definition compare_relation ::
  "core_functions \<Rightarrow> bool \<Rightarrow> 's act \<Rightarrow> 's pat \<Rightarrow> array \<Rightarrow> int \<Rightarrow> nat \<Rightarrow> nat \<Rightarrow> 64 word \<Rightarrow> 's \<Rightarrow> (bool \<times> 's) option" where
  "compare_relation k gt act pat a v start stop base s =
    (if start \<le> arr_size a \<and> (stop \<le> arr_size a \<or> stop = npos) \<and> start \<le> stop then do {
       let w = arr_width a;
       let test = (\<lambda>x. if gt then x > v else x < v);
       let ee = round_up k start (64 div no0 w);
       let ee = (if ee > stop then stop else ee);
       (go, s) \<leftarrow> compare_each test act a start ee base s;
       let start = max start ee;
       if \<not> go then Some (False, s)
       else if start \<ge> stop then Some (True, s)
       else do {
         (go, start, s) \<leftarrow>
           (if w = 1 \<or> w = 2 \<or> w = 4 \<or> w = 8 \<or> w = 16 then do {
              (go, p, s) \<leftarrow> for_chunks (\<lambda>start. relation_chunk k (use_fast gt w v) gt w v act pat (of_nat start + base)) a
                (start * w div 8) (int (stop * w div 8) - 8) s;
              Some (go, p div 8 * 8 * 8 div no0 w, s) }
            else Some (True, start, s));
         if \<not> go then Some (False, s) else compare_each test act a start stop base s } }
     else None)"

definition compare ::
  "core_functions \<Rightarrow> 64 word \<Rightarrow> cond \<Rightarrow> 's act \<Rightarrow> 's pat \<Rightarrow> array \<Rightarrow> int \<Rightarrow> nat \<Rightarrow> nat \<Rightarrow> 64 word \<Rightarrow> 's \<Rightarrow> (bool \<times> 's) option" where
  "compare k junk c act pat a v start stop base s = (case c of
       Equal \<Rightarrow> compare_equality k True junk act pat a v start stop base s
     | NotEqual \<Rightarrow> compare_equality k False junk act pat a v start stop base s
     | Greater \<Rightarrow> compare_relation k True act pat a v start stop base s
     | Less \<Rightarrow> compare_relation k False act pat a v start stop base s
     | _ \<Rightarrow> None)"


section \<open>What a search should do\<close>

abbreviation element :: "array \<Rightarrow> nat \<Rightarrow> int" where
  "element a i \<equiv> elem (arr_width a) (arr_data a) i"

definition array_ok :: "array \<Rightarrow> bool" where
  "array_ok a \<longleftrightarrow> holds (arr_width a) (arr_data a) (arr_size a) \<and> arr_size a < npos \<and>
     (\<forall>v. arr_lbound a \<le> v \<and> v \<le> arr_ubound a \<longleftrightarrow> in_width (arr_width a) v)"

definition hits :: "(int \<Rightarrow> bool) \<Rightarrow> array \<Rightarrow> 64 word \<Rightarrow> nat list \<Rightarrow> (64 word \<times> int) list" where
  "hits test a base is = map (\<lambda>i. (of_nat i + base, element a i)) (filter (\<lambda>i. test (element a i)) is)"

definition scan_hits :: "'s act \<Rightarrow> (int \<Rightarrow> bool) \<Rightarrow> array \<Rightarrow> 64 word \<Rightarrow> nat list \<Rightarrow> 's \<Rightarrow> (bool \<times> 's) option" where
  "scan_hits act test a base is s = scan act (map (apsnd Some) (hits test a base is)) s"

lemma scan_hits_Nil [simp]: "scan_hits act test a base [] s = Some (True, s)"
  by (simp add: scan_hits_def hits_def)

lemma scan_hits_Cons:
  "scan_hits act test a base (i # is) s =
    (if test (element a i) then and_then (act (of_nat i + base) (Some (element a i)) s) (scan_hits act test a base is)
     else scan_hits act test a base is s)"
  by (simp add: scan_hits_def [abs_def] hits_def and_then_bind)

lemma scan_hits_append:
  "scan_hits act test a base (is @ js) s = and_then (scan_hits act test a base is s) (scan_hits act test a base js)"
  by (simp add: scan_hits_def [abs_def] hits_def scan_append)

lemma scan_hits_split:
  "m \<le> n \<Longrightarrow> n \<le> p \<Longrightarrow> scan_hits act test a base [m..<p] s =
     and_then (scan_hits act test a base [m..<n] s) (scan_hits act test a base [n..<p])"
  by (metis le_Suc_ex scan_hits_append upt_add_eq_append)

lemma scan_hits_none: "\<forall>i\<in>set is. \<not> test (element a i) \<Longrightarrow> scan_hits act test a base is s = Some (True, s)"
  by (induction "is") (simp_all add: scan_hits_Cons)

lemma scan_hits_skip:
  assumes "m \<le> n" "\<And>i. m \<le> i \<Longrightarrow> i < n \<Longrightarrow> \<not> test (element a i)" "n \<le> p"
  shows "scan_hits act test a base [m..<p] s = scan_hits act test a base [n..<p] s"
  unfolding scan_hits_split [OF assms(1,3)]
  by (subst scan_hits_none) (use assms(2) in simp_all)

lemma array_get_ok: "array_ok a \<Longrightarrow> i < arr_size a \<Longrightarrow> array_get a i = Some (element a i)"
  unfolding array_get_def get_universal_direct array_ok_def by (blast intro: get_direct_elem)

lemma compare_each_scan:
  "array_ok a \<Longrightarrow> stop \<le> arr_size a \<Longrightarrow>
     compare_each test act a start stop base s = scan_hits act test a base [start..<stop] s"
proof (induction "stop - start" arbitrary: start s)
  case 0
  then show ?case by (simp add: compare_each.simps)
next
  case (Suc n)
  then have s: "start < stop" "[start..<stop] = start # [Suc start..<stop]" by (simp_all add: upt_conv_Cons)
  moreover have "compare_each test act a (Suc start) stop base s' = scan_hits act test a base [Suc start..<stop] s'" for s'
    using Suc by simp
  ultimately show ?case using Suc.prems
    by (subst compare_each.simps) (simp add: array_get_ok scan_hits_Cons and_then_bind)
qed


section \<open>The loop over the chunks\<close>

lemma chunk_bits: "lane_width w \<Longrightarrow> q * (64 div w) * w = 64 * q"
  by (metis lane_width_div mult.assoc mult.commute)

lemma chunk_loads:
  assumes "array_ok a" "(q + 1) * (64 div arr_width a) \<le> arr_size a" "lane_width (arr_width a)"
  shows "\<exists>c :: 64 word. load 8 (arr_data a) (8 * q) = Some c"
proof (rule load_some)
  let ?w = "arr_width a"
  have "64 * (q + 1) = (q + 1) * (64 div ?w) * ?w" by (rule chunk_bits [OF assms(3), symmetric])
  also have "\<dots> \<le> arr_size a * ?w" using assms(2) by (rule mult_le_mono1)
  also have "\<dots> \<le> 8 * length (arr_data a)" using assms(1) by (simp add: array_ok_def holds_def)
  finally show "8 * q + 8 \<le> length (arr_data a)" by simp
qed

lemma chunk_index: "lane_width w \<Longrightarrow> 8 * q div 8 * 8 * 8 div no0 w = q * (64 div w)"
proof -
  assume w: "lane_width w"
  have "8 * q div 8 * 8 * 8 = q * (64 div w) * w" unfolding chunk_bits [OF w] by simp
  moreover have "no0 w = w" "w \<noteq> 0" using lane_width_pos [OF w] by (auto simp: no0_def)
  ultimately show ?thesis by (metis nonzero_mult_div_cancel_right)
qed

lemmas chunk_index_norm = chunk_index [simplified]

text \<open>
  If the body hands over the matches of its chunk, then the loop and the linear search of what it left
  hand over the matches of the whole range.
\<close>

lemma for_chunks_scan:
  assumes "array_ok a" "lane_width (arr_width a)" "stop \<le> arr_size a"
    and step: "\<And>q chunk s. ok s \<Longrightarrow> load 8 (arr_data a) (8 * q) = Some chunk \<Longrightarrow>
      (q + 1) * (64 div arr_width a) \<le> arr_size a \<Longrightarrow>
      step (q * (64 div arr_width a)) chunk s =
        scan_hits act test a base [q * (64 div arr_width a)..<(q + 1) * (64 div arr_width a)] s"
    and ok: "\<And>is s b s'. ok s \<Longrightarrow> scan_hits act test a base is s = Some (b, s') \<Longrightarrow> ok s'"
    and "q * (64 div arr_width a) \<le> stop" "ok s"
  shows "do { (go, p, s) \<leftarrow> for_chunks step a (8 * q) (int (stop * arr_width a div 8) - 8) s;
      if \<not> go then Some (False, s)
      else compare_each test act a (p div 8 * 8 * 8 div no0 (arr_width a)) stop base s } =
    scan_hits act test a base [q * (64 div arr_width a)..<stop] s"
  using assms(6,7)
proof (induction "stop - q * (64 div arr_width a)" arbitrary: q s rule: less_induct)
  case less
  let ?w = "arr_width a" let ?n = "64 div ?w"
  note w = lane_width_pos [OF assms(2)] lane_width_div [OF assms(2)]
  show ?case
  proof (cases "int (8 * q) < int (stop * ?w div 8) - 8")
    case True
    then have "8 * q + 8 \<le> stop * ?w div 8" by linarith
    then have "64 * (q + 1) \<le> stop * ?w" by (simp add: less_eq_div_iff_mult_less_eq)
    then have "(q + 1) * ?n * ?w \<le> stop * ?w" unfolding chunk_bits [OF assms(2)] .
    then have le: "(q + 1) * ?n \<le> stop" using w by simp
    then have le': "(q + 1) * ?n \<le> arr_size a" using assms(3) by simp
    obtain c :: "64 word" where c: "load 8 (arr_data a) (8 * q) = Some c"
      using chunk_loads [OF assms(1) le' assms(2)] by blast
    note body = step [OF less.prems(2) c le']
    have smaller: "stop - (q + 1) * ?n < stop - q * ?n" 
    proof (rule diff_less_mono2)
      show "q * ?n < (q + 1) * ?n" using w by simp
      then show "q * ?n < stop" using le by linarith
    qed
    note split = scan_hits_split [OF _ le, of "q * ?n" act test a base s]
    show ?thesis
    proof (cases "scan_hits act test a base [q * ?n..<(q + 1) * ?n] s")
      case None
      then show ?thesis using True c body split
        by (subst for_chunks.simps) (simp add: chunk_index_norm [OF assms(2)])
    next
      case (Some r)
      obtain b s1 where r: "r = (b, s1)" by (cases r)
      show ?thesis
      proof (cases b)
        case False
        then show ?thesis using True c body split Some r
          by (subst for_chunks.simps) (simp add: chunk_index_norm [OF assms(2)])
      next
        case go: True
        have "ok s1" using ok [OF less.prems(2)] Some r by blast
        have "8 * (q + 1) = 8 * q + 8" by simp
        note rest = less.hyps [OF smaller le \<open>ok s1\<close>, unfolded this]
        show ?thesis
          using rest True c body split Some r go
          by (subst for_chunks.simps) (simp add: chunk_index_norm [OF assms(2)])
      qed
    qed
  next
    case False
    then show ?thesis
      using compare_each_scan [OF assms(1,3), of test act "q * ?n" base s]
      by (subst for_chunks.simps) (simp add: chunk_index_norm [OF assms(2)])
  qed
qed


section \<open>The matches of a chunk\<close>

lemma take_as_element: "take_bit w (as_element w u) = take_bit w u"
proof (cases "w < 8")
  case False
  then show ?thesis
    by (auto intro!: bit_eqI simp: as_element_def bit_take_bit_iff bit_signed_take_bit_iff min_absorb2)
qed (simp add: as_element_def)

lemma as_element_eq_iff:
  assumes "in_width w v"
  shows "as_element w (lane w j c) = v \<longleftrightarrow> lane w j c = take_bit w v"
proof
  have *: "take_bit w (lane w j c) = lane w j c" by (simp add: lane_def)
  assume "as_element w (lane w j c) = v"
  then show "lane w j c = take_bit w v" using take_as_element [of w "lane w j c"] * by simp
next
  assume "lane w j c = take_bit w v"
  moreover have "as_element w (take_bit w v) = as_element w v"
    by (cases "w = 0") (simp add: as_element_def, intro as_element_eqI, simp_all add: bit_take_bit_iff)
  ultimately show "as_element w (lane w j c) = v" using assms by (simp add: in_width_def)
qed

lemma lane_match:
  assumes "load 8 (arr_data a) (8 * q) = Some c" "lane_width (arr_width a)" "in_width (arr_width a) v"
    "m < 64 div arr_width a" "lane (arr_width a) m vm = take_bit (arr_width a) v"
  shows "lane (arr_width a) m (c XOR vm) = 0 \<longleftrightarrow> element a (q * (64 div arr_width a) + m) = v"
proof -
  have "lane (arr_width a) m (c XOR vm) = 0 \<longleftrightarrow> lane (arr_width a) m c = take_bit (arr_width a) v"
    by (auto simp: lane_xor assms(5) bit_eq_iff bit_xor_iff)
  also have "\<dots> \<longleftrightarrow> element a (q * (64 div arr_width a) + m) = v"
    by (simp add: chunk_element [OF assms(1,2,4)] as_element_eq_iff [OF assms(3)])
  finally show ?thesis .
qed

lemma count_flags:
  assumes "lane_width w" "lane_flags w p v b"
  shows "bit_count b = length (filter (\<lambda>j. p (lane w j v)) [0..<64 div w])"
proof -
  note w = lane_width_pos [OF assms(1)] lane_width_div [OF assms(1)]
  have "{n. bit b n} = (\<lambda>j. w * j) ` {j. j < 64 div w \<and> p (lane w j v)}"
  proof (intro set_eqI iffI)
    fix n assume "n \<in> {n. bit b n}"
    then have n: "bit b n" "n < 64" by (auto dest: bit_imp_le_length)
    have j: "n div w < 64 div w" using n(2) w by (simp add: less_mult_imp_div_less mult.commute)
    have "bit (lane w (n div w) b) (n mod w)" using n(1) w by (simp add: bit_lane)
    moreover have "lane w (n div w) b = of_bool (p (lane w (n div w) v))"
      using assms(2) j by (simp add: lane_flags_def)
    ultimately have "p (lane w (n div w) v)" "n mod w = 0" by (auto simp: bit_simps split: if_splits)
    then show "n \<in> (\<lambda>j. w * j) ` {j. j < 64 div w \<and> p (lane w j v)}"
      using j by (intro image_eqI [of _ _ "n div w"]) auto
  next
    fix n assume "n \<in> (\<lambda>j. w * j) ` {j. j < 64 div w \<and> p (lane w j v)}"
    then obtain j where j: "j < 64 div w" "p (lane w j v)" "n = w * j" by blast
    then have "bit (lane w j b) 0" using assms(2) by (simp add: lane_flags_def)
    then show "n \<in> {n. bit b n}" using j by (simp add: bit_lane)
  qed
  moreover have "inj_on (\<lambda>j. w * j) {j. j < 64 div w \<and> p (lane w j v)}" using w by (simp add: inj_on_def)
  ultimately have "bit_count b = card {j. j < 64 div w \<and> p (lane w j v)}"
    by (simp add: bit_count_def card_image)
  then show ?thesis by (simp add: length_filter_conv_card cong: conj_cong)
qed

lemma lane_of_zero [simp]: "lane w j 0 = 0"
  by (simp add: lane_def)

lemma some_lane:
  "lane_width w \<Longrightarrow> (if eq then test_zero w v else Some (v \<noteq> 0)) = Some (\<exists>j<64 div w. eq = (lane w j v = 0))"
proof -
  assume w: "lane_width w"
  have "v \<noteq> 0 \<longleftrightarrow> (\<exists>j<64 div w. lane w j v \<noteq> 0)"
  proof
    assume "v \<noteq> 0"
    then obtain j where "w * j < 64" "lane w j v \<noteq> lane w j 0"
      using lane_eqI [of w v 0] lane_width_pos [OF w] by blast
    moreover from this have "j < 64 div w"
      using lane_width_pos [OF w] lane_width_div [OF w] by (metis mult_less_cancel1)
    ultimately show "\<exists>j<64 div w. lane w j v \<noteq> 0" by auto
  qed auto
  then show ?thesis using test_zero_correct [OF w, of v] by auto
qed


context search_action
begin

lemma scan_hits_inv: "inv s \<Longrightarrow> scan_hits act test a base is s = Some (b, s') \<Longrightarrow> inv s'"
  unfolding scan_hits_def by (rule scan_inv)

lemma pattern_consumed:
  assumes "\<not> refuses s" "inv s" "bit_count m = length (hits test a base is)"
  shows "pat i m s \<bind> (\<lambda>(consumed, s). if consumed then Some (True, s) else f s) = scan_hits act test a base is s"
proof -
  have r: "pat i m s = scan_hits act test a base is s"
    unfolding scan_hits_def using taken [OF assms(1,2) assms(3) [symmetric]] .
  show ?thesis
  proof (cases "pat i m s")
    case None
    then show ?thesis using r by simp
  next
    case (Some p)
    obtain b s' where p: "p = (b, s')" by (cases p)
    then have "b" using taken_goes_on [OF assms(1)] Some by blast
    then show ?thesis using Some p r by simp
  qed
qed

lemma equal_chunk_scan:
  assumes a: "array_ok a" "lane_width (arr_width a)" "in_width (arr_width a) v"
    and chunk: "load 8 (arr_data a) (8 * q) = Some c" "q * (64 div arr_width a) + 64 div arr_width a \<le> arr_size a"
    and vm: "\<And>j. j < 64 div arr_width a \<Longrightarrow> lane (arr_width a) j vm = take_bit (arr_width a) v"
    and "i \<le> 64 div arr_width a" "refuses s \<or> i = 0" "inv s"
    and "\<And>j. i < 64 div arr_width a \<Longrightarrow> j < 64 div arr_width a \<Longrightarrow> lane (arr_width a) j v2 =
      (if i + j < 64 div arr_width a then lane (arr_width a) (i + j) (c XOR vm) else 0)"
  shows "equal_chunk eq junk act pat a base (q * (64 div arr_width a)) i v2 s =
    scan_hits act (\<lambda>x. if eq then x = v else x \<noteq> v) a base
      [q * (64 div arr_width a) + i..<q * (64 div arr_width a) + 64 div arr_width a] s"
  using assms(7-10)
proof (induction "64 div arr_width a - i" arbitrary: i v2 s rule: less_induct)
  case less
  let ?w = "arr_width a" let ?n = "64 div ?w" let ?test = "\<lambda>x. if eq then x = v else x \<noteq> v"
  let ?start = "q * ?n" let ?scan = "scan_hits act ?test a base"
  note w = lane_width_pos [OF a(2)] lane_width_div [OF a(2)]
  have no0_w: "64 div no0 ?w = ?n" using w by (simp add: no0_def)
  have test_lane: "?test (element a (?start + m)) \<longleftrightarrow> eq = (lane ?w m (c XOR vm) = 0)" if "m < ?n" for m
    using lane_match [OF chunk(1) a(2,3) that vm [OF that]] by auto
  have v2_lane: "eq = (lane ?w j v2 = 0) \<longleftrightarrow> ?test (element a (?start + (i + j)))" if "i + j < ?n" for j
    using less.prems(4) [of j] test_lane [OF that] that by simp
  obtain matches where matches: "cascade ?w eq v2 = Some matches" "lane_flags ?w (\<lambda>x. (x = 0) = eq) v2 matches"
    using cascade_correct [OF a(2)] by blast
  show ?case
  proof (cases "\<exists>j<?n. eq = (lane ?w j v2 = 0)")
    case False
    have "?scan [?start + i..<?start + ?n] s = Some (True, s)"
    proof (rule scan_hits_none, intro ballI)
      fix m assume "m \<in> set [?start + i..<?start + ?n]"
      then obtain j where j: "m = ?start + (i + j)" "i + j < ?n" by (auto simp: le_iff_add)
      then have "j < ?n" by simp
      then have "\<not> eq = (lane ?w j v2 = 0)" using False by blast
      then show "\<not> ?test (element a m)" unfolding v2_lane [OF j(2)] j(1) .
    qed
    then show ?thesis
      by (subst equal_chunk.simps) (simp add: some_lane [OF a(2)] False)
  next
    case True
    note go = some_lane [OF a(2), of eq v2] True
    show ?thesis
    proof (cases "refuses s")
      case False
      then have i: "i = 0" using less.prems(2) by simp
      have "bit_count matches = length (filter (\<lambda>j. (lane ?w j v2 = 0) = eq) [0..<?n])"
        by (rule count_flags [OF a(2) matches(2)])
      also have "\<dots> = length (filter (\<lambda>j. ?test (element a (?start + j))) [0..<?n])"
      proof (intro arg_cong [of _ _ length] filter_cong refl)
        fix j assume "j \<in> set [0..<?n]"
        then show "((lane ?w j v2 = 0) = eq) = ?test (element a (?start + j))" using v2_lane [of j] i by auto
      qed
      also have "\<dots> = length (hits ?test a base [?start..<?start + ?n])"
      proof -
        have "[?start..<?start + ?n] = map (\<lambda>j. ?start + j) [0..<?n]"
          by (simp add: map_add_upt add.commute)
        then show ?thesis by (simp only: hits_def length_map filter_map) (simp add: comp_def)
      qed
      finally show ?thesis
        using i go matches(1) pattern_consumed [OF False less.prems(3)]
        by (subst equal_chunk.simps) (simp add: some_lane [OF a(2)])
    next
      case ref: True
      define t where "t = (LEAST j. j < ?n \<and> eq = (lane ?w j v2 = 0))"
      have t: "t < ?n" "eq = (lane ?w t v2 = 0)"
        using True LeastI_ex [of "\<lambda>j. j < ?n \<and> eq = (lane ?w j v2 = 0)"] by (simp_all add: t_def)
      have before: "eq \<noteq> (lane ?w j v2 = 0)" if "j < t" for j
        using not_less_Least [of j "\<lambda>j. j < ?n \<and> eq = (lane ?w j v2 = 0)"] that t(1) unfolding t_def [symmetric] by auto
      have find: "find_zero eq ?w v2 = Some t"
        by (rule find_zero_correct [OF a(2) t]) (simp add: no_match_def before)
      have skip: "\<not> ?test (element a m)" if "?start + i \<le> m" "m < ?start + (i + t)" "m < ?start + ?n" for m
      proof -
        have "m = ?start + (i + (m - ?start - i))" using that(1) by simp
        then obtain j where "m = ?start + (i + j)" by blast
        then show ?thesis using that v2_lane [of j] before [of j] by auto
      qed
      show ?thesis
      proof (cases "i + t < ?n")
        case False
        have "?scan [?start + i..<?start + ?n] s = Some (True, s)"
          using False skip by (intro scan_hits_none) auto
        then show ?thesis using go matches(1) find refused [OF ref] False
          by (subst equal_chunk.simps) (simp add: some_lane [OF a(2)] no0_w Let_def)
      next
        case it: True
        let ?v2 = "shift_out junk v2 ((t + 1) * ?w)"
        have hit: "?test (element a (?start + (i + t)))" using v2_lane [OF it] t(2) by blast
        have in_size: "?start + (i + t) < arr_size a" using it chunk(2) by simp
        have "?scan [?start + i..<?start + ?n] s = ?scan [?start + (i + t)..<?start + ?n] s"
          using it skip by (intro scan_hits_skip) simp_all
        also have "\<dots> = and_then (act (of_nat (?start + (i + t)) + base) (Some (element a (?start + (i + t)))) s)
            (?scan [?start + (i + t + 1)..<?start + ?n])"
          using it hit by (simp add: upt_conv_Cons scan_hits_Cons)
        finally have split: "?scan [?start + i..<?start + ?n] s = \<dots>" .
        have rest: "equal_chunk eq junk act pat a base ?start (i + t + 1) ?v2 s' =
            ?scan [?start + (i + t + 1)..<?start + ?n] s'" if "refuses s'" "inv s'" for s'
        proof (rule less.hyps)
          fix j assume j: "i + t + 1 < ?n" "j < ?n"
          have "(t + 1) * ?w < 64" using j(1) w by (metis add.commute add_lessD1 lane_index_less [OF a(2)] mult.commute trans_less_add2 add.assoc)
          then have "lane ?w j ?v2 = lane ?w (t + 1 + j) v2"
            using lane_drop [of ?w j "t + 1" v2] by (simp add: shift_out_def mult.commute)
          also have "\<dots> = (if i + t + 1 + j < ?n then lane ?w (i + t + 1 + j) (c XOR vm) else 0)"
          proof (cases "t + 1 + j < ?n")
            case True
            then show ?thesis using less.prems(4) [of "t + 1 + j"] j by (simp add: add.assoc)
          next
            case False
            then have "?w * ?n \<le> ?w * (t + 1 + j)" by (intro mult_le_mono2) simp
            then show ?thesis using False w lane_beyond [of ?w "t + 1 + j" v2] by simp
          qed
          finally show "lane ?w j ?v2 = (if i + t + 1 + j < ?n then lane ?w (i + t + 1 + j) (c XOR vm) else 0)" .
        qed (use it that in simp_all)
        show ?thesis
        proof (cases "act (of_nat (?start + (i + t)) + base) (Some (element a (?start + (i + t)))) s")
          case None
          then show ?thesis using go matches(1) find refused [OF ref] it split array_get_ok [OF a(1) in_size]
            by (subst equal_chunk.simps) (simp add: some_lane [OF a(2)] no0_w Let_def add.commute)
        next
          case (Some r)
          obtain b s' where r: "r = (b, s')" by (cases r)
          have s': "inv s'" "b \<Longrightarrow> refuses s'"
            using act_inv [OF less.prems(3), of _ _ b s'] refuses_on [OF ref less.prems(3), of _ _ s'] Some r
            by (blast, cases b) auto
          then show ?thesis
            using Some r rest go matches(1) find refused [OF ref] it split array_get_ok [OF a(1) in_size]
            by (subst equal_chunk.simps; cases b) (simp_all add: some_lane [OF a(2)] no0_w Let_def add.commute add.left_commute)
        qed
      qed
    qed
  qed
qed

end

section \<open>The lanes of less and greater\<close>

lemma low_element_lane:
  assumes "lane_width w" "w \<le> 16"
  shows "low_element w (drop_bit (w * t) c) = as_element w (lane w t c)"
proof -
  have small: "sint x = uint x" if "uint x < 2 ^ 16" for x :: "64 word"
    using that order_trans [OF _ uint_ge_0 [of x], of "- (2 ^ 63)"]
    by (simp add: sint_uint signed_take_bit_int_eq_self_iff)
  have mask: "sint (drop_bit (w * t) c AND width_mask w) = lane w t c"
  proof -
    have "lane w t c < 2 ^ 16"
      using lane_less [of w t c] assms(2) power_increasing [of w 16 "2 :: int"] by linarith
    then show ?thesis using lane_mask [OF assms(1), of t c] by (simp add: small)
  qed
  have cast: "signed_take_bit (w - 1) (uint (drop_bit (w * t) c)) = signed_take_bit (w - 1) (lane w t c)" if "8 \<le> w"
    using assms(1) that by (auto intro!: bit_eqI simp: bit_signed_take_bit_iff bit_lane bit_simps lane_width_def min_def)
  have lane: "take_bit w (lane w t c) = lane w t c" by (simp add: lane_def)
  show ?thesis
    using assms mask cast lane
    by (elim lane_width_cases)
      (simp_all add: low_element_def as_element_def width_mask_def signed_ucast_eq)
qed

lemma small_element: "0 \<le> x \<Longrightarrow> x < 2 ^ (w - 1) \<Longrightarrow> 0 < w \<Longrightarrow> as_element w x = x"
proof -
  assume x: "0 \<le> x" "x < 2 ^ (w - 1)" "0 < w"
  moreover have "x < 2 ^ w" using x(2) power_increasing [of "w - 1" w "2 :: int"] by linarith
  moreover have "- (2 ^ (w - 1)) \<le> x" using x(1) by (rule order_trans [rotated]) simp
  ultimately have "in_width w x" unfolding in_width_iff by simp
  then show ?thesis by (simp add: in_width_def)
qed

lemma mask_halves:
  assumes "lane_width w" "2 \<le> w" "w \<le> 16"
  shows "no0 (width_mask w) = width_mask w" "drop_bit 1 (width_mask w) + 1 = word_of_int (2 ^ (w - 1))"
    "drop_bit 1 (width_mask w) - word_of_int v = word_of_int (2 ^ (w - 1) - 1 - v)"
    "sint (drop_bit 1 (width_mask w) - 1) = 2 ^ (w - 1) - 2" "sint (drop_bit 1 (width_mask w)) = 2 ^ (w - 1) - 1"
  using assms by (elim lane_width_cases; simp add: no0_def width_masks drop_bit_eq_div)+

lemma use_fast_only_greater:
  assumes "use_fast gt w v" "lane_width w" "w \<le> 16"
  shows "gt \<and> 2 \<le> w \<and> 0 \<le> v \<and> v \<le> 2 ^ (w - 1) - 2"
proof -
  have w: "2 \<le> w" "0 \<le> v" using assms(1) by (simp_all add: use_fast_def)
  note halves = mask_halves [OF assms(2) w(1) assms(3)]
  have gt
  proof (rule ccontr)
    assume "\<not> gt"
    then have v: "v < 2 ^ (w - 1)" "v \<noteq> sint (find_gtlt_magic False w v AND width_mask w)"
      using assms(1) halves(5) by (simp_all add: use_fast_def)
    have "v < 2 ^ w" using v(1) power_increasing [of "w - 1" w "2 :: int"] by linarith
    then have "lane w 0 (spread w v) = v"
      using lane_spread [OF assms(2) w(2), of 0] lane_width_pos [OF assms(2)] by simp
    then have u: "uint (find_gtlt_magic False w v AND width_mask w) = v"
      using lane_mask [OF assms(2), of 0 "spread w v"]
      unfolding find_gtlt_magic_def Let_def if_False halves spread_mult [OF assms(2)] by simp
    have "(2 :: int) ^ (w - 1) \<le> 2 ^ 15" using assms(3) by (intro power_increasing) simp_all
    then have "v < 2 ^ 63" using v(1) by simp
    moreover have "- (2 ^ 63) \<le> v" using w(2) by simp
    ultimately have "signed_take_bit 63 v = v" unfolding signed_take_bit_int_eq_self_iff by simp
    then show False using v(2) u by (simp add: sint_uint)
  qed
  then show ?thesis using assms(1) w halves(4) by (simp add: use_fast_def)
qed

lemma and_exp: "x AND 2 ^ k = (if bit x k then 2 ^ k else 0)" for x :: int
  by (auto intro!: bit_eqI simp: bit_simps)

lemma gtlt_matches_lanes:
  assumes "lane_width w" "2 \<le> w" "w \<le> 16" "0 \<le> v" "v \<le> 2 ^ (w - 1) - 2"
    and small: "\<And>j. j < 64 div w \<Longrightarrow> lane w j c < 2 ^ (w - 1)" and j: "j < 64 div w"
  shows "lane w j (gtlt_matches True w c (find_gtlt_magic True w v)) = (if lane w j c > v then 2 ^ (w - 1) else 0)"
proof -
  note halves = mask_halves [OF assms(1-3)]
  have twice: "(2 :: int) ^ w = 2 ^ (w - 1) + 2 ^ (w - 1)"
    using assms(2) by (cases w) simp_all
  have magic: "lane w i (find_gtlt_magic True w v) = 2 ^ (w - 1) - 1 - v" if "i < 64 div w" for i
    using assms(4,5) twice that
    unfolding find_gtlt_magic_def Let_def if_True halves spread_mult [OF assms(1)]
    by (intro lane_spread [OF assms(1)]) linarith+
  have "lane w i c + lane w i (find_gtlt_magic True w v) < 2 ^ w" if "i < 64 div w" for i
    using small [OF that] magic [OF that] assms(4) twice by linarith
  then have sum: "lane w j (c + find_gtlt_magic True w v) = lane w j c + (2 ^ (w - 1) - 1 - v)"
    using lane_plus [OF assms(1) _ j] magic [OF j] by simp
  have top: "lane w j (spread w (2 ^ (w - 1))) = 2 ^ (w - 1)"
    using twice by (intro lane_spread [OF assms(1) _ _ j]) simp_all
  have "\<not> bit (lane w j c) (w - 1)"
    using top_bit [of "lane w j c" w] small [OF j] assms(2) lane_less [of w j c] by simp
  moreover have "bit (lane w j (c + find_gtlt_magic True w v)) (w - 1) \<longleftrightarrow> lane w j c > v"
  proof -
    have "bit (lane w j (c + find_gtlt_magic True w v)) (w - 1) \<longleftrightarrow> 2 ^ (w - 1) \<le> lane w j (c + find_gtlt_magic True w v)"
      using assms(2) by (intro top_bit lane_nonneg lane_less) simp
    then show ?thesis unfolding sum by linarith
  qed
  ultimately show ?thesis
    unfolding gtlt_matches_def Let_def if_True halves spread_mult [OF assms(1)] lane_and lane_or top and_exp bit_or_iff
    by simp
qed

lemma length_hits_block:
  "length (filter (\<lambda>j. test (element a (start + j))) [0..<n]) = length (hits test a base [start..<start + n])"
proof -
  have "[start..<start + n] = map (\<lambda>j. start + j) [0..<n]" by (simp add: map_add_upt add.commute)
  then show ?thesis by (simp only: hits_def length_map filter_map) (simp add: comp_def)
qed

lemma and_then_cong: "(\<And>s. r = Some (True, s) \<Longrightarrow> f s = g s) \<Longrightarrow> and_then r f = and_then r g"
  by (cases r) (auto simp: and_then_def)

context search_action
begin

lemma gtlt_each_scan:
  assumes "load 8 (arr_data a) (8 * q) = Some c" "arr_width a = w" "lane_width w" "w \<le> 16" "t + m \<le> 64 div w"
  shows "gtlt_each gt w v act (of_nat (q * (64 div w)) + base) t m (drop_bit (w * t) c) s =
    scan_hits act (\<lambda>x. if gt then x > v else x < v) a base [q * (64 div w) + t..<q * (64 div w) + t + m] s"
  using assms(5)
proof (induction m arbitrary: t s)
  case (Suc m)
  let ?i = "q * (64 div w) + t"
  have x: "low_element w (drop_bit (w * t) c) = element a ?i"
    using chunk_element [OF assms(1,3), of t] Suc.prems assms(2) by (simp add: low_element_lane [OF assms(3,4)])
  have range: "[?i..<?i + Suc m] = ?i # [q * (64 div w) + Suc t..<q * (64 div w) + Suc t + m]"
    by (simp add: upt_conv_Cons)
  have d: "drop_bit w (drop_bit (w * t) c) = drop_bit (w * Suc t) c" by (simp add: add.commute)
  have ix: "of_nat t + (of_nat (q * (64 div w)) + base) = of_nat ?i + base" by (simp add: ac_simps)
  note IH = Suc.IH [of "Suc t"]
  show ?case
    unfolding range gtlt_each.simps Let_def x d ix scan_hits_Cons
    using IH Suc.prems by (cases "act (of_nat ?i + base) (Some (element a ?i)) s") (auto simp: and_then_def)
qed simp

lemma find_gtlt_scan:
  assumes "load 8 (arr_data a) (8 * q) = Some c" "arr_width a = w" "lane_width w" "w \<le> 16"
  shows "find_gtlt gt w v c act (of_nat (q * (64 div w)) + base) s =
    scan_hits act (\<lambda>x. if gt then x > v else x < v) a base [q * (64 div w)..<(q + 1) * (64 div w)] s"
proof -
  have "find_gtlt gt w v c act (of_nat (q * (64 div w)) + base) s =
      gtlt_each gt w v act (of_nat (q * (64 div w)) + base) 0 (64 div w) c s"
    using assms(3,4) by (elim lane_width_cases) (simp_all add: find_gtlt_def)
  then show ?thesis using gtlt_each_scan [OF assms, of 0 "64 div w" gt v base s] by (simp add: add.commute)
qed

lemma gtlt_fast_loop_scan:
  assumes a: "array_ok a" "arr_width a = w" "lane_width w" "2 \<le> w" "w \<le> 16"
    and k: "\<And>m :: 64 word. m \<noteq> 0 \<Longrightarrow> bit m (first_set_bit64 k m) \<and> (\<forall>n<first_set_bit64 k m. \<not> bit m n)"
    and chunk: "load 8 (arr_data a) (8 * q) = Some c"
    and small: "\<And>j. j < 64 div w \<Longrightarrow> lane w j c < 2 ^ (w - 1)"
    and "p \<le> 64 div w" "refuses s \<or> p = 0" "inv s"
    and "\<And>j. j < 64 div w \<Longrightarrow> lane w j m =
      (if p + j < 64 div w \<and> element a (q * (64 div w) + (p + j)) > v then 2 ^ (w - 1) else 0)"
  shows "gtlt_fast_loop k w c act pat (of_nat (q * (64 div w)) + base) m p s =
    scan_hits act (\<lambda>x. x > v) a base [q * (64 div w) + p..<q * (64 div w) + 64 div w] s"
  using assms(9-12)
proof (induction "64 div w - p" arbitrary: p m s rule: less_induct)
  case less
  let ?n = "64 div w" let ?start = "q * (64 div w)" let ?test = "\<lambda>x. x > v"
  let ?scan = "scan_hits act ?test a base"
  note w = lane_width_pos [OF a(3)] lane_width_div [OF a(3)]
  have no0: "no0 w = w" using w by (simp add: no0_def)
  show ?case
  proof (cases "m = 0")
    case True
    have "?scan [?start + p..<?start + ?n] s = Some (True, s)"
    proof (rule scan_hits_none, intro ballI)
      fix i assume "i \<in> set [?start + p..<?start + ?n]"
      then have i: "i = ?start + (p + (i - ?start - p))" "p + (i - ?start - p) < ?n" by auto
      from i(2) have j: "i - ?start - p < ?n" by simp
      have "lane w (i - ?start - p) 0 = (if element a i > v then 2 ^ (w - 1) else 0)"
        using less.prems(4) [OF j] i True by simp
      then show "\<not> element a i > v" by (auto split: if_splits)
    qed
    then show ?thesis using True by (subst gtlt_fast_loop.simps) simp
  next
    case False
    show ?thesis
    proof (cases "refuses s")
      case no_ref: False
      then have p: "p = 0" using less.prems(2) by simp
      have flags: "lane_flags w (\<lambda>x. x \<noteq> 0) m (drop_bit (w - 1) m)"
        unfolding lane_flags_def
      proof (intro allI impI)
        fix j assume j: "j < ?n"
        have m: "lane w i m = 0 \<or> lane w i m = 2 ^ (w - 1)" if "i < ?n" for i using less.prems(4) [OF that] by simp
        show "lane w j (drop_bit (w - 1) m) = of_bool (lane w j m \<noteq> 0)"
        proof (rule bit_eqI)
          fix x
          have inner: "bit (lane w j m) (w - 1) \<longleftrightarrow> lane w j m \<noteq> 0" using m [OF j] by (auto simp: bit_simps)
          have outer: "\<not> bit m (w * j + (w - 1) + x)" if "0 < x" "x < w"
          proof
            assume b: "bit m (w * j + (w - 1) + x)"
            have eq: "w * j + (w - 1) + x = w * Suc j + (x - 1)" using that by simp
            have "bit (lane w (Suc j) m) (x - 1)" using b that unfolding eq bit_lane by simp
            moreover have "Suc j < ?n"
            proof (rule ccontr)
              assume "\<not> Suc j < ?n"
              then have "w * ?n \<le> w * Suc j" by (intro mult_le_mono2) simp
              then show False using w lane_beyond [of w "Suc j" m] \<open>bit (lane w (Suc j) m) (x - 1)\<close> by simp
            qed
            ultimately show False using m [of "Suc j"] that by (auto simp: bit_simps)
          qed
          show "bit (lane w j (drop_bit (w - 1) m)) x = bit (of_bool (lane w j m \<noteq> 0) :: int) x"
            using inner outer w by (cases "x = 0") (auto simp: bit_lane bit_drop_bit_eq ac_simps bit_simps)
        qed
      qed
      have "bit_count (drop_bit (w - 1) m) = length (filter (\<lambda>j. lane w j m \<noteq> 0) [0..<?n])"
        by (rule count_flags [OF a(3) flags])
      also have "\<dots> = length (filter (\<lambda>j. ?test (element a (?start + j))) [0..<?n])"
      proof (intro arg_cong [of _ _ length] filter_cong refl)
        fix j assume "j \<in> set [0..<?n]"
        then show "(lane w j m \<noteq> 0) = ?test (element a (?start + j))" using less.prems(4) [of j] p by simp
      qed
      also have "\<dots> = length (hits ?test a base [?start..<?start + ?n])" by (simp only: length_hits_block)
      finally show ?thesis
        using p False pattern_consumed [OF no_ref less.prems(3)] by (subst gtlt_fast_loop.simps) (simp add: no0)
    next
      case ref: True
      define b where "b = first_set_bit64 k m"
      define t where "t = b div w"
      have b: "bit m b" "\<And>n. n < b \<Longrightarrow> \<not> bit m n" using k [OF False] by (simp_all add: b_def)
      have b64: "b < 64" using b(1) bit_imp_le_length by fastforce
      have t: "t < ?n" using b64 w unfolding t_def by (simp add: less_mult_imp_div_less mult.commute)
      have "bit (lane w t m) (b mod w)" using b(1) w by (simp add: bit_lane t_def)
      then have "lane w t m \<noteq> 0" by auto
      then have it: "p + t < ?n" "?test (element a (?start + (p + t)))" using less.prems(4) [OF t] by (auto split: if_splits)
      have before: "\<not> ?test (element a (?start + (p + j)))" if "j < t" for j
      proof
        assume v: "?test (element a (?start + (p + j)))"
        have "bit (lane w j m) (w - 1)" using less.prems(4) [of j] that it(1) v by (simp add: bit_simps)
        then have "\<not> w * j + (w - 1) < b" using b(2) by (auto simp: bit_lane)
        moreover have "w * Suc j \<le> w * t" using that by (intro mult_le_mono2) simp
        moreover have "w * t \<le> b" by (simp add: t_def)
        moreover have "w * Suc j = w * j + w" by simp
        ultimately show False using w by linarith
      qed
      let ?i = "?start + (p + t)"
      let ?m = "if (t + 1) * w = 64 then 0 else drop_bit ((t + 1) * w) m"
      have in64: "(p + t) * w < 64" using lane_index_less [OF a(3) it(1)] by (simp add: mult.commute)
      have val: "sint (drop_bit ((p + t) * w) c AND width_mask w) = element a ?i"
      proof -
        have u: "uint (drop_bit ((p + t) * w) c AND width_mask w) = lane w (p + t) c"
          using lane_mask [OF a(3), of "p + t" c] by (simp add: mult.commute)
        have "lane w (p + t) c < 2 ^ (w - 1)" using small [OF it(1)] .
        moreover have "(2 :: int) ^ (w - 1) \<le> 2 ^ 15" using a(5) by (intro power_increasing) simp_all
        ultimately have l: "lane w (p + t) c < 2 ^ 63" by simp
        have "- (2 ^ 63) \<le> lane w (p + t) c" by (rule order_trans [OF _ lane_nonneg]) simp
        then have "sint (drop_bit ((p + t) * w) c AND width_mask w) = lane w (p + t) c"
          using u l by (simp add: sint_uint signed_take_bit_int_eq_self_iff)
        also have "\<dots> = as_element w (lane w (p + t) c)"
          using small [OF it(1)] w by (intro small_element [symmetric]) simp_all
        also have "\<dots> = element a ?i"
          using chunk_element [OF chunk a(3) it(1)] a(2) by simp
        finally show ?thesis .
      qed
      have rest_word: "(if (t + 1) * w = 64 then Some 0 else shr m ((t + 1) * w)) = Some ?m"
        using lane_index [OF a(3) t] by (auto simp: shr_def mult.commute)
      have skip: "?scan [?start + p..<?start + ?n] s = ?scan [?i..<?start + ?n] s"
      proof (rule scan_hits_skip)
        fix i assume i: "?start + p \<le> i" "i < ?i"
        then have "i = ?start + (p + (i - ?start - p))" "i - ?start - p < t" by auto
        then show "\<not> ?test (element a i)" using before [of "i - ?start - p"] by simp
      qed (use it in simp_all)
      have split: "?scan [?start + p..<?start + ?n] s =
          and_then (act (of_nat ?i + base) (Some (element a ?i)) s) (?scan [?start + (p + t + 1)..<?start + ?n])"
        unfolding skip using it by (simp add: upt_conv_Cons scan_hits_Cons)
      have rest: "gtlt_fast_loop k w c act pat (of_nat ?start + base) ?m (p + t + 1) s' =
          ?scan [?start + (p + t + 1)..<?start + ?n] s'" if "refuses s'" "inv s'" for s'
      proof (rule less.hyps)
        fix j assume j: "j < ?n"
        have "lane w j ?m = lane w (t + 1 + j) m"
        proof (cases "(t + 1) * w = 64")
          case True
          then have "64 \<le> w * (t + 1 + j)" by (simp add: algebra_simps)
          then show ?thesis using True lane_beyond by simp
        next
          case False
          then show ?thesis using lane_drop [of w j "t + 1" m] by (simp add: mult.commute)
        qed
        also have "\<dots> = (if p + t + 1 + j < ?n \<and> ?test (element a (?start + (p + t + 1 + j))) then 2 ^ (w - 1) else 0)"
        proof (cases "t + 1 + j < ?n")
          case True
          then show ?thesis using less.prems(4) [of "t + 1 + j"] by (simp add: add.assoc)
        next
          case False
          then have "w * ?n \<le> w * (t + 1 + j)" by (intro mult_le_mono2) simp
          then show ?thesis using False w lane_beyond [of w "t + 1 + j" m] by simp
        qed
        finally show "lane w j ?m = \<dots>" .
      qed (use it that in simp_all)
      have ix: "of_nat (p + t) + (of_nat ?start + base) = of_nat ?i + base" by (simp add: ac_simps)
      have unfold: "gtlt_fast_loop k w c act pat (of_nat ?start + base) m p s =
          act (of_nat ?i + base) (Some (element a ?i)) s \<bind>
            (\<lambda>(go, s). if \<not> go then Some (False, s) else
               gtlt_fast_loop k w c act pat (of_nat ?start + base) ?m (p + t + 1) s)"
        using False in64 rest_word
        by (subst gtlt_fast_loop.simps)
          (simp only: refused [OF ref] bind.simps no0 b_def [symmetric] t_def [symmetric] Let_def shr_def if_True
            if_False val ix not_False_eq_True simp_thms prod.case)
      show ?thesis
        unfolding unfold split and_then_bind
      proof (rule and_then_cong)
        fix s' assume s': "act (of_nat ?i + base) (Some (element a ?i)) s = Some (True, s')"
        show "gtlt_fast_loop k w c act pat (of_nat ?start + base) ?m (p + t + 1) s' =
            ?scan [?start + (p + t + 1)..<?start + ?n] s'"
          by (intro rest refuses_on [OF ref less.prems(3) s'] act_inv [OF less.prems(3) s'])
      qed
    qed
  qed
qed

lemma relation_chunk_scan:
  assumes a: "array_ok a" "arr_width a = w" "lane_width w" "w \<le> 16"
    and k: "\<And>m :: 64 word. m \<noteq> 0 \<Longrightarrow> bit m (first_set_bit64 k m) \<and> (\<forall>n<first_set_bit64 k m. \<not> bit m n)"
    and chunk: "load 8 (arr_data a) (8 * q) = Some c" and "inv s"
  shows "relation_chunk k (use_fast gt w v) gt w v act pat (of_nat (q * (64 div w)) + base) c s =
    scan_hits act (\<lambda>x. if gt then x > v else x < v) a base [q * (64 div w)..<(q + 1) * (64 div w)] s"
proof -
  note slow = find_gtlt_scan [OF chunk a(2-4), of gt v base s]
  show ?thesis
  proof (cases "use_fast gt w v")
    case True
    note fast = use_fast_only_greater [OF True a(3,4)]
    then have w: "2 \<le> w" "no0 w = w" "0 < w" by (auto simp: no0_def)
    let ?upper = "push_bit (no0 w - 1) (spread w 1) AND c"
    show ?thesis
    proof (cases "?upper = 0")
      case zero: True
      have small: "lane w j c < 2 ^ (w - 1)" if "j < 64 div w" for j
      proof -
        have "w * j + (w - 1) < 64" using lane_index [OF a(3) that] w by linarith
        moreover have "(w * j + (w - 1)) mod w = w - 1" unfolding mod_mult_self4 using w by simp
        then have "bit (2 ^ (w - 1) :: int) ((w * j + (w - 1)) mod w)" by (simp only: bit_exp_iff) simp
        ultimately have "bit (spread w (2 ^ (w - 1))) (w * j + (w - 1))"
          using w power_strict_increasing [of "w - 1" w "2 :: int"] by (subst bit_spread [OF a(3)]) simp_all
        moreover have "\<not> bit ?upper (w * j + (w - 1))" using zero by simp
        ultimately have "\<not> bit c (w * j + (w - 1))" unfolding w(2) spread_top [OF a(3)] by (simp add: bit_and_iff)
        then have "\<not> bit (lane w j c) (w - 1)" by (simp add: bit_lane)
        then show ?thesis using top_bit [of "lane w j c" w] lane_less [of w j c] w by simp
      qed
      have lanes: "lane w j (gtlt_matches True w c (find_gtlt_magic True w v)) =
          (if 0 + j < 64 div w \<and> element a (q * (64 div w) + (0 + j)) > v then 2 ^ (w - 1) else 0)" if "j < 64 div w" for j
      proof -
        have "element a (q * (64 div w) + j) = as_element w (lane w j c)"
          using chunk_element [OF chunk a(3) that] a(2) by simp
        also have "\<dots> = lane w j c" using small [OF that] w by (intro small_element) simp_all
        finally show ?thesis
          using gtlt_matches_lanes [OF a(3) w(1) a(4) _ _ small that, of v] fast that by simp
      qed
      have "gtlt_fast_loop k w c act pat (of_nat (q * (64 div w)) + base)
          (gtlt_matches True w c (find_gtlt_magic True w v)) 0 s =
        scan_hits act (\<lambda>x. x > v) a base [q * (64 div w) + 0..<q * (64 div w) + 64 div w] s"
        by (rule gtlt_fast_loop_scan [OF a(1-3) w(1) a(4) k chunk small _ _ \<open>inv s\<close> lanes]) simp_all
      then show ?thesis
        using True fast zero by (simp add: relation_chunk_def lower_bits_spread [OF a(3)] find_gtlt_fast_def add.commute)
    qed (use slow True in \<open>simp add: relation_chunk_def lower_bits_spread [OF a(3)]\<close>)
  qed (use slow in \<open>simp add: relation_chunk_def\<close>)
qed

text \<open>
  Both searches look at single elements up to a chunk boundary, and then at chunks.
\<close>

lemma search_in_parts:
  assumes a: "array_ok a" "lane_width (arr_width a)" "start \<le> stop" "stop \<le> arr_size a" "inv s"
    and r: "64 div arr_width a dvd r" "start \<le> r"
    and body: "\<And>q s. inv s \<Longrightarrow> q * (64 div arr_width a) \<le> stop \<Longrightarrow>
      body (q * (64 div arr_width a)) s = scan_hits act test a base [q * (64 div arr_width a)..<stop] s"
  shows "compare_each test act a start (if r > stop then stop else r) base s \<bind>
    (\<lambda>(go, s). let start = max start (if r > stop then stop else r) in
       if \<not> go then Some (False, s) else if start \<ge> stop then Some (True, s) else body start s) =
    scan_hits act test a base [start..<stop] s"
proof (cases "r < stop")
  case False
  then have "compare_each test act a start (if r > stop then stop else r) base s = scan_hits act test a base [start..<stop] s"
    using a by (auto simp: compare_each_scan)
  moreover have "(if r > stop then stop else r) = stop" using False by auto
  ultimately show ?thesis using a(3) by (cases "scan_hits act test a base [start..<stop] s") (auto simp: Let_def max_def)
next
  case True
  obtain q where q: "r = q * (64 div arr_width a)" using r(1) by (metis dvdE mult.commute)
  have "compare_each test act a start r base s = scan_hits act test a base [start..<r] s"
    using a True by (intro compare_each_scan) simp_all
  moreover have "max start r = r" using r(2) by simp
  ultimately have "compare_each test act a start (if r > stop then stop else r) base s \<bind>
      (\<lambda>(go, s). let start = max start (if r > stop then stop else r) in
         if \<not> go then Some (False, s) else if start \<ge> stop then Some (True, s) else body start s) =
      and_then (scan_hits act test a base [start..<r] s) (body r)"
    using True by (simp add: Let_def and_then_bind)
  also have "\<dots> = and_then (scan_hits act test a base [start..<r] s) (scan_hits act test a base [r..<stop])"
  proof (rule and_then_cong)
    fix s' assume "scan_hits act test a base [start..<r] s = Some (True, s')"
    then have "inv s'" by (rule scan_hits_inv [OF a(5)])
    then show "body r s' = scan_hits act test a base [r..<stop] s'" unfolding q using True q by (intro body) simp_all
  qed
  also have "\<dots> = scan_hits act test a base [start..<stop] s"
    using r(2) True by (intro scan_hits_split [symmetric]) simp_all
  finally show ?thesis .
qed

lemma compare_relation_scan:
  assumes "array_ok a" "lane_width (arr_width a)" "start \<le> stop" "stop \<le> arr_size a" "inv s" "core_ok k"
  shows "compare_relation k gt act pat a v start stop base s =
    scan_hits act (\<lambda>x. if gt then x > v else x < v) a base [start..<stop] s"
proof -
  let ?w = "arr_width a" let ?r = "round_up k start (64 div ?w)"
  let ?test = "\<lambda>x. if gt then x > v else x < v"
  let ?body = "\<lambda>start s. do {
         (go, start, s) \<leftarrow>
           (if ?w = 1 \<or> ?w = 2 \<or> ?w = 4 \<or> ?w = 8 \<or> ?w = 16 then do {
              (go, p, s) \<leftarrow> for_chunks (\<lambda>start. relation_chunk k (use_fast gt ?w v) gt ?w v act pat (of_nat start + base)) a
                (start * ?w div 8) (int (stop * ?w div 8) - 8) s;
              Some (go, p div 8 * 8 * 8 div no0 ?w, s) }
            else Some (True, start, s));
         if \<not> go then Some (False, s) else compare_each ?test act a start stop base s }"
  note w = lane_width_pos [OF assms(2)] lane_width_div [OF assms(2)]
  have no0: "no0 ?w = ?w" using w by (simp add: no0_def)
  have r: "64 div ?w dvd ?r" "start \<le> ?r" using assms(6) w by (auto simp: core_ok_def)
  have first: "\<And>m :: 64 word. m \<noteq> 0 \<Longrightarrow> bit m (first_set_bit64 k m) \<and> (\<forall>n<first_set_bit64 k m. \<not> bit m n)"
    using assms(6) by (simp add: core_ok_def)
  have body: "?body (q * (64 div ?w)) s = scan_hits act ?test a base [q * (64 div ?w)..<stop] s"
    if "inv s" "q * (64 div ?w) \<le> stop" for q s
  proof (cases "?w = 1 \<or> ?w = 2 \<or> ?w = 4 \<or> ?w = 8 \<or> ?w = 16")
    case True
    then have "?w \<le> 16" by auto
    have start: "q * (64 div ?w) * ?w div 8 = 8 * q" unfolding chunk_bits [OF assms(2)] by simp
    have "do { (go, p, s) \<leftarrow> for_chunks (\<lambda>start. relation_chunk k (use_fast gt ?w v) gt ?w v act pat (of_nat start + base)) a
          (8 * q) (int (stop * ?w div 8) - 8) s;
        if \<not> go then Some (False, s) else compare_each ?test act a (p div 8 * 8 * 8 div no0 ?w) stop base s } =
      scan_hits act ?test a base [q * (64 div ?w)..<stop] s"
      by (rule for_chunks_scan [where ok = inv, OF assms(1,2,4) _ scan_hits_inv that(2,1)])
        (intro relation_chunk_scan [OF assms(1) refl assms(2) \<open>?w \<le> 16\<close> first])
    then show ?thesis unfolding start using True by (simp add: case_prod_unfold if_distrib bind_assoc Let_def cong: if_cong)
  qed (simp add: compare_each_scan [OF assms(1,4)])
  have "compare_relation k gt act pat a v start stop base s = 
    compare_each ?test act a start (if ?r > stop then stop else ?r) base s \<bind>
    (\<lambda>(go, s). let start = max start (if ?r > stop then stop else ?r) in
       if \<not> go then Some (False, s) else if start \<ge> stop then Some (True, s) else ?body start s)"
  proof -
    have g: "(start \<le> arr_size a \<and> (stop \<le> arr_size a \<or> stop = npos) \<and> start \<le> stop) = True" using assms(3,4) by simp
    show ?thesis unfolding compare_relation_def g if_True Let_def no0 by (rule refl)
  qed
  also have "\<dots> = scan_hits act ?test a base [start..<stop] s"
    by (rule search_in_parts [OF assms(1-5) r body])
  finally show ?thesis .
qed

lemma compare_equality_scan:
  assumes "array_ok a" "lane_width (arr_width a)" "start \<le> stop" "stop \<le> arr_size a" "inv s" "core_ok k"
    "in_width (arr_width a) v"
  shows "compare_equality k eq junk act pat a v start stop base s =
    scan_hits act (\<lambda>x. if eq then x = v else x \<noteq> v) a base [start..<stop] s"
proof -
  let ?w = "arr_width a" let ?r = "round_up k start (64 div ?w)"
  let ?test = "\<lambda>x. if eq then x = v else x \<noteq> v"
  let ?vm = "NOT 0 div width_mask ?w * (word_of_int v AND width_mask ?w)"
  let ?body = "\<lambda>start s. do {
         (go, start, s) \<leftarrow>
           (if ?w \<noteq> 32 \<and> ?w \<noteq> 64 then do {
              (go, p, s) \<leftarrow> for_chunks (\<lambda>start chunk. equal_chunk eq junk act pat a base start 0 (chunk XOR ?vm)) a
                (start * ?w div 8) (int (stop * ?w div 8) - 8) s;
              Some (go, p div 8 * 8 * 8 div ?w, s) }
            else Some (True, start, s));
         if \<not> go then Some (False, s) else compare_each ?test act a start stop base s }"
  note w = lane_width_pos [OF assms(2)] lane_width_div [OF assms(2)]
  have no0: "no0 ?w = ?w" using w by (simp add: no0_def)
  have mask0: "no0 (width_mask ?w) = width_mask ?w"
    using assms(2) by (elim lane_width_cases; simp add: no0_def width_masks) (simp_all add: width_mask_def)
  have r: "64 div ?w dvd ?r" "start \<le> ?r" using assms(6) w by (auto simp: core_ok_def)
  have vm: "lane ?w j ?vm = take_bit ?w v" if "j < 64 div ?w" for j
  proof -
    have "word_of_int v AND width_mask ?w = (word_of_int (take_bit ?w v) :: 64 word)"
      using w by (auto intro!: bit_word_eqI simp: width_mask_eq bit_simps)
    then have "?vm = spread ?w (take_bit ?w v)" by (simp only: spread_mult [OF assms(2)])
    then show ?thesis using that by (simp only:) (intro lane_spread [OF assms(2)], simp_all)
  qed
  have body: "?body (q * (64 div ?w)) s = scan_hits act ?test a base [q * (64 div ?w)..<stop] s"
    if "inv s" "q * (64 div ?w) \<le> stop" for q s
  proof (cases "?w \<noteq> 32 \<and> ?w \<noteq> 64")
    case True
    have start: "q * (64 div ?w) * ?w div 8 = 8 * q" unfolding chunk_bits [OF assms(2)] by simp
    have "do { (go, p, s) \<leftarrow> for_chunks (\<lambda>start chunk. equal_chunk eq junk act pat a base start 0 (chunk XOR ?vm)) a
          (8 * q) (int (stop * ?w div 8) - 8) s;
        if \<not> go then Some (False, s) else compare_each ?test act a (p div 8 * 8 * 8 div no0 ?w) stop base s } =
      scan_hits act ?test a base [q * (64 div ?w)..<stop] s"
    proof (rule for_chunks_scan [where ok = inv, OF assms(1,2,4) _ scan_hits_inv that(2,1)])
      fix q s and chunk :: "64 word"
      assume c: "load 8 (arr_data a) (8 * q) = Some chunk" "(q + 1) * (64 div ?w) \<le> arr_size a" "inv s"
      then show "equal_chunk eq junk act pat a base (q * (64 div ?w)) 0 (chunk XOR ?vm) s =
          scan_hits act ?test a base [q * (64 div ?w)..<(q + 1) * (64 div ?w)] s"
        using equal_chunk_scan [OF assms(1,2,7) c(1) _ vm, of 0 s "chunk XOR ?vm" eq junk base] by (simp add: add.commute)
    qed
    then show ?thesis unfolding start using True no0 by (simp add: case_prod_unfold if_distrib bind_assoc Let_def cong: if_cong)
  qed (auto simp: compare_each_scan [OF assms(1,4)])
  have "compare_equality k eq junk act pat a v start stop base s = 
    compare_each ?test act a start (if ?r > stop then stop else ?r) base s \<bind>
    (\<lambda>(go, s). let start = max start (if ?r > stop then stop else ?r) in
       if \<not> go then Some (False, s) else if start \<ge> stop then Some (True, s) else ?body start s)"
  proof -
    have g: "(start \<le> arr_size a \<and> (stop \<le> arr_size a \<or> stop = npos) \<and> start \<le> stop) = True" using assms(3,4) by simp
    show ?thesis unfolding compare_equality_def g if_True Let_def no0 mask0 by (rule refl)
  qed
  also have "\<dots> = scan_hits act ?test a base [start..<stop] s"
    by (rule search_in_parts [OF assms(1-5) r body])
  finally show ?thesis .
qed

lemma compare_scan:
  assumes "array_ok a" "lane_width (arr_width a)" "start \<le> stop" "stop \<le> arr_size a" "inv s" "core_ok k"
    "c \<in> {Equal, NotEqual} \<Longrightarrow> in_width (arr_width a) v" "c \<notin> {None_cond, NotNull}"
  shows "compare k junk c act pat a v start stop base s =
    scan_hits act (\<lambda>x. cond_holds c x v) a base [start..<stop] s"
proof (cases c)
  case Equal
  then show ?thesis using compare_equality_scan [OF assms(1-6), of v True junk base] assms(7) by (simp add: compare_def)
next
  case NotEqual
  then show ?thesis using compare_equality_scan [OF assms(1-6), of v False junk base] assms(7) by (simp add: compare_def)
next
  case Greater
  then show ?thesis using compare_relation_scan [OF assms(1-6), of True v base] by (simp add: compare_def)
next
  case Less
  then show ?thesis using compare_relation_scan [OF assms(1-6), of False v base] by (simp add: compare_def)
qed (use assms(8) in simp_all)

end

end
