(* ===== verification/ArrayFind.thy ===== *)
theory ArrayFind
  imports ArrayCompare
begin

text \<open>
  The search of an array (\<open>find_optimized\<close> and \<open>find_first\<close> of \<open>include/core/realm/array.hpp\<close>), and the
  comparison of two arrays (\<open>compare_leafs\<close>). The theorems say that a search hands over the elements that
  match one by one, whatever shortcut it takes, and that the aggregates are those of the matching elements.
\<close>

section \<open>The search\<close>

text \<open>\<open>Array::get\<close> without a width asserts that the index is in range.\<close>

definition array_at :: "array \<Rightarrow> nat \<Rightarrow> int option" where
  "array_at a i = (if i < arr_size a then array_get a i else None)"

function nullable_each ::
  "cond \<Rightarrow> int \<Rightarrow> bool \<Rightarrow> int \<Rightarrow> 's act \<Rightarrow> array \<Rightarrow> nat \<Rightarrow> nat \<Rightarrow> 64 word \<Rightarrow> 's \<Rightarrow> (bool \<times> 's) option" where
  "nullable_each c v find_null null_value act a start stop base s =
    (if start < stop then do {
       x \<leftarrow> array_get a (start + 1);
       let is_null = (x = null_value);
       if holds_null c x v is_null find_null then do {
         (go, s) \<leftarrow> act (of_nat start + base) (if is_null then None else Some x) s;
         if \<not> go then Some (False, s) else nullable_each c v find_null null_value act a (Suc start) stop base s }
       else nullable_each c v find_null null_value act a (Suc start) stop base s }
     else Some (True, s))"
  by pat_completeness auto
termination
  by (relation "measure (\<lambda>(c, v, find_null, null_value, act, a, start, stop, base, s). stop - start)") auto

declare nullable_each.simps [simp del]

text \<open>One of the four tests at the beginning.\<close>

definition first_test :: "cond \<Rightarrow> int \<Rightarrow> 's act \<Rightarrow> array \<Rightarrow> nat \<Rightarrow> nat \<Rightarrow> 64 word \<Rightarrow> 's \<Rightarrow> (bool \<times> 's) option" where
  "first_test c v act a start stop base s =
    (if arr_size a > start then do {
       x \<leftarrow> array_get a start;
       if cond_holds c x v \<and> start < stop then act (of_nat start + base) (Some x) s else Some (True, s) }
     else Some (True, s))"

definition first_tests :: "cond \<Rightarrow> int \<Rightarrow> 's act \<Rightarrow> array \<Rightarrow> nat \<Rightarrow> nat \<Rightarrow> 64 word \<Rightarrow> 's \<Rightarrow> (bool \<times> 's) option" where
  "first_tests c v act a start stop base s = do {
     (go, s) \<leftarrow> first_test c v act a start stop base s;
     if \<not> go then Some (False, s) else do {
     (go, s) \<leftarrow> first_test c v act a (start + 1) stop base s;
     if \<not> go then Some (False, s) else do {
     (go, s) \<leftarrow> first_test c v act a (start + 2) stop base s;
     if \<not> go then Some (False, s) else
     first_test c v act a (start + 3) stop base s } } }"

text \<open>All elements match: aggregates are computed by the functions of the core.\<close>

definition find_all_match ::
  "core_functions \<Rightarrow> action \<Rightarrow> 'c callback \<Rightarrow> array \<Rightarrow> nat \<Rightarrow> nat \<Rightarrow> 64 word \<Rightarrow> 'c search_state \<Rightarrow>
     (bool \<times> 'c search_state) option" where
  "find_all_match k action cb a start stop base s = do {
     stop2 \<leftarrow>
       (if action = Act_CallbackIdx then Some stop
        else if qs_match_count (fst s) < qs_limit (fst s) then
          (let process = qs_limit (fst s) - qs_match_count (fst s) in
           Some (if stop - start > process then start + process else stop))
        else None);
     let xs = elements (arr_width a) (arr_data a) (arr_size a);
     let aggregate = (\<lambda>(res, res_ndx). do {
       (_, s) \<leftarrow> find_action action cb (of_nat res_ndx + base) (Some res) s;
       Some (True, (fst s)\<lparr>qs_match_count := qs_match_count (fst s) + (stop2 - start - 1)\<rparr>, snd s) });
     if action = Act_Sum then aggregate (array_sum k xs start stop2, 0)
     else if action = Act_Max then aggregate (array_maximum k xs start stop2)
     else if action = Act_Min then aggregate (array_minimum k xs start stop2)
     else if action = Act_Count then do {
       st \<leftarrow> int64 (qs_state (fst s) + int (stop2 - start));
       Some (True, (fst s)\<lparr>qs_state := st\<rparr>, snd s) }
     else compare_each (\<lambda>_. True) (find_action action cb) a start stop2 base s }"

text \<open>The search behind the first tests.\<close>

definition find_bulk ::
  "core_functions \<Rightarrow> 64 word \<Rightarrow> action \<Rightarrow> 'c callback \<Rightarrow> array \<Rightarrow> cond \<Rightarrow> int \<Rightarrow> nat \<Rightarrow> nat \<Rightarrow> 64 word \<Rightarrow>
     'c search_state \<Rightarrow> (bool \<times> 'c search_state) option" where
  "find_bulk k junk action cb a c v start stop base s =
    (if \<not> (arr_size a > start \<and> start < stop) then Some (True, s)
     else do {
       let stop = (if stop = npos then arr_size a else stop);
       if \<not> can_match c v (arr_lbound a) (arr_ubound a) then Some (True, s)
       else if will_match c v (arr_lbound a) (arr_ubound a) then find_all_match k action cb a start stop base s
       else if arr_width a = 0 then None
       else compare k junk c (find_action action cb) (find_action_pattern k action) a v start stop base s })"

definition find_rest ::
  "core_functions \<Rightarrow> 64 word \<Rightarrow> action \<Rightarrow> 'c callback \<Rightarrow> array \<Rightarrow> cond \<Rightarrow> int \<Rightarrow> nat \<Rightarrow> nat \<Rightarrow> 64 word \<Rightarrow>
     'c search_state \<Rightarrow> (bool \<times> 'c search_state) option" where
  "find_rest k junk action cb a c v start stop base s =
    (if start > 0 then do {
       (go, s) \<leftarrow> first_tests c v (find_action action cb) a start stop base s;
       if \<not> go then Some (False, s) else find_bulk k junk action cb a c v (start + 4) stop base s }
     else find_bulk k junk action cb a c v start stop base s)"

definition find_optimized ::
  "core_functions \<Rightarrow> 64 word \<Rightarrow> action \<Rightarrow> 'c callback \<Rightarrow> array \<Rightarrow> cond \<Rightarrow> int \<Rightarrow> nat \<Rightarrow> nat \<Rightarrow> 64 word \<Rightarrow>
     bool \<Rightarrow> bool \<Rightarrow> 'c search_state \<Rightarrow> (bool \<times> 'c search_state) option" where
  "find_optimized k junk action cb a c v start stop base nullable_array find_null s =
    (if (find_null \<and> \<not> nullable_array) \<or>
        \<not> (start \<le> arr_size a \<and> (stop \<le> arr_size a \<or> stop = npos) \<and> start \<le> stop) then None
     else do {
       let stop = (if stop = npos then
           (if nullable_array then (if arr_size a = 0 then npos else arr_size a - 1) else arr_size a) else stop);
       if nullable_array then
         if c = Equal then do {
           null_value \<leftarrow> array_at a 0;
           if find_null then find_rest k junk action cb a c null_value (start + 1) (stop + 1) (base - 1) s
           else if v = null_value then Some (True, s)
           else find_rest k junk action cb a c v (start + 1) (stop + 1) (base - 1) s }
         else do {
           null_value \<leftarrow> array_at a 0;
           nullable_each c v find_null null_value (find_action action cb) a start stop base s }
       else find_rest k junk action cb a c v start stop base s })"

text \<open>\<open>CallbackDummy()\<close> is a null function pointer; no action that is used with it calls it.\<close>

definition callback_dummy :: "unit callback" where
  "callback_dummy index c = (False, c)"

definition find_first ::
  "core_functions \<Rightarrow> 64 word \<Rightarrow> array \<Rightarrow> cond \<Rightarrow> int \<Rightarrow> nat \<Rightarrow> nat \<Rightarrow> nat option" where
  "find_first k junk a c v start stop =
    (if start \<le> arr_size a \<and> (stop \<le> arr_size a \<or> stop = npos) \<and> start \<le> stop then do {
       state \<leftarrow> query_state_new Act_ReturnFirst 0 1;
       (_, s) \<leftarrow> find_optimized k junk Act_ReturnFirst callback_dummy a c v start stop 0 False False (state, ());
       Some (to_size (qs_state (fst s))) }
     else None)"

section \<open>Comparing two arrays\<close>

function leafs_each ::
  "cond \<Rightarrow> 's act \<Rightarrow> array \<Rightarrow> array \<Rightarrow> nat \<Rightarrow> nat \<Rightarrow> 64 word \<Rightarrow> 's \<Rightarrow> (bool \<times> 's) option" where
  "leafs_each c act a foreign start stop base s =
    (if start < stop then do {
       v \<leftarrow> array_get a start;
       fv \<leftarrow> array_get foreign start;
       if cond_holds c v fv then do {
         (go, s) \<leftarrow> act (of_nat start + base) (Some v) s;
         if \<not> go then Some (False, s) else leafs_each c act a foreign (Suc start) stop base s }
       else leafs_each c act a foreign (Suc start) stop base s }
     else Some (True, s))"
  by pat_completeness auto
termination by (relation "measure (\<lambda>(c, act, a, foreign, start, stop, base, s). stop - start)") auto

declare leafs_each.simps [simp del]

definition leafs_one :: "cond \<Rightarrow> 's act \<Rightarrow> array \<Rightarrow> array \<Rightarrow> nat \<Rightarrow> 64 word \<Rightarrow> 's \<Rightarrow> (bool \<times> 's) option" where
  "leafs_one c act a foreign start base s = do {
     v \<leftarrow> array_at a start;
     fv \<leftarrow> array_at foreign start;
     if cond_holds c v fv then act (of_nat start + base) (Some v) s else Some (True, s) }"

function zeros_each :: "'s act \<Rightarrow> nat \<Rightarrow> nat \<Rightarrow> 64 word \<Rightarrow> 's \<Rightarrow> (bool \<times> 's) option" where
  "zeros_each act start stop base s =
    (if start < stop then do {
       (go, s) \<leftarrow> act (of_nat start + base) (Some 0) s;
       if \<not> go then Some (False, s) else zeros_each act (Suc start) stop base s }
     else Some (True, s))"
  by pat_completeness auto
termination by (relation "measure (\<lambda>(act, start, stop, base, s). stop - start)") auto

declare zeros_each.simps [simp del]

definition compare_leafs_4 ::
  "cond \<Rightarrow> 's act \<Rightarrow> array \<Rightarrow> array \<Rightarrow> nat \<Rightarrow> nat \<Rightarrow> 64 word \<Rightarrow> 's \<Rightarrow> (bool \<times> 's) option" where
  "compare_leafs_4 c act a foreign start stop base s =
    (if arr_width a = 0 \<and> arr_width foreign = 0 then
       if cond_holds c 0 0 then do {
         (go, s) \<leftarrow> zeros_each act start stop base s;
         if \<not> go then Some (False, s) else leafs_each c act a foreign (max start stop) stop base s }
       else Some (True, s)
     else leafs_each c act a foreign start stop base s)"

definition compare_leafs ::
  "cond \<Rightarrow> 's act \<Rightarrow> array \<Rightarrow> array \<Rightarrow> nat \<Rightarrow> nat \<Rightarrow> 64 word \<Rightarrow> 's \<Rightarrow> (bool \<times> 's) option" where
  "compare_leafs c act a foreign start stop base s =
    (if start > stop then None
     else if start = stop then Some (True, s)
     else do {
       (go, s) \<leftarrow> leafs_one c act a foreign start base s;
       if \<not> go then Some (False, s) else do {
       let start = start + 1;
       if start + 3 < stop then do {
         (go, s) \<leftarrow> leafs_one c act a foreign start base s;
         if \<not> go then Some (False, s) else do {
         (go, s) \<leftarrow> leafs_one c act a foreign (start + 1) base s;
         if \<not> go then Some (False, s) else do {
         (go, s) \<leftarrow> leafs_one c act a foreign (start + 2) base s;
         if \<not> go then Some (False, s) else
         compare_leafs_4 c act a foreign (start + 3) stop base s } } }
       else if start = stop then Some (True, s)
       else compare_leafs_4 c act a foreign start stop base s } })"



section \<open>A search is a scan\<close>

lemma array_at_ok: "array_ok a \<Longrightarrow> i < arr_size a \<Longrightarrow> array_at a i = Some (element a i)"
  by (simp add: array_at_def array_get_ok)

lemma array_ok_facts:
  assumes "array_ok a"
  shows "arr_lbound a \<le> v \<and> v \<le> arr_ubound a \<longleftrightarrow> in_width (arr_width a) v" "arr_size a \<noteq> npos"
    "arr_width a \<in> widths" "stop \<le> arr_size a \<Longrightarrow> stop \<noteq> npos"
  using assms unfolding array_ok_def holds_def by (blast | linarith)+

lemma element_in_bounds: "array_ok a \<Longrightarrow> arr_lbound a \<le> element a i \<and> element a i \<le> arr_ubound a"
  unfolding array_ok_facts(1) by (rule elem_in_width)

lemma first_test_scan:
  "array_ok a \<Longrightarrow> stop \<le> arr_size a \<Longrightarrow>
     first_test c v act a i stop base s = scan_hits act (\<lambda>x. cond_holds c x v) a base (filter (\<lambda>j. j < stop) [i]) s"
  by (auto simp: first_test_def array_get_ok scan_hits_Cons scan_hits_Nil [abs_def])

lemma filter_upt_below: "filter (\<lambda>j. j < n) [m..<p] = [m..<min p n]"
  by (induction p) (auto simp: min_def le_Suc_eq not_le less_Suc_eq)

lemma first_tests_scan:
  assumes "array_ok a" "stop \<le> arr_size a"
  shows "first_tests c v act a start stop base s =
    scan_hits act (\<lambda>x. cond_holds c x v) a base [start..<min (start + 4) stop] s"
proof -
  have four: "[start..<start + 4] = [start, start + 1, start + 2, start + 3]"
    by (simp add: upt_rec numeral_eq_Suc)
  have "[start..<min (start + 4) stop] = filter (\<lambda>j. j < stop) [start..<start + 4]"
    by (rule filter_upt_below [symmetric])
  also have "\<dots> = filter (\<lambda>j. j < stop) [start] @ filter (\<lambda>j. j < stop) [start + 1] @
      filter (\<lambda>j. j < stop) [start + 2] @ filter (\<lambda>j. j < stop) [start + 3]"
    by (simp add: four)
  finally show ?thesis
    by (simp only: first_tests_def first_test_scan [OF assms] scan_hits_append [abs_def] and_then_bind)
qed

text \<open>The actions of which every match is handed over, also when all elements match.\<close>

definition each_match :: "action \<Rightarrow> bool" where
  "each_match action \<longleftrightarrow> action \<in> {Act_ReturnFirst, Act_FindAll, Act_CallbackIdx}"

definition open_search :: "action \<Rightarrow> 'c search_state \<Rightarrow> bool" where
  "open_search action s \<longleftrightarrow> (action \<noteq> Act_CallbackIdx \<longrightarrow> qs_match_count (fst s) < qs_limit (fst s))"

lemma each_match_action:
  assumes "action \<in> {Act_ReturnFirst, Act_FindAll}"
  shows "\<exists>b s'. find_action action cb i (Some v) s = Some (b, s') \<and> qs_limit (fst s') = qs_limit (fst s) \<and>
    qs_match_count (fst s') = qs_match_count (fst s) + 1 \<and> (b \<longrightarrow> qs_match_count (fst s') < qs_limit (fst s))"
  using assms by (cases s) (auto simp: find_action_def match_optional_def match_value_def Let_def)

lemma open_search_on:
  "each_match action \<Longrightarrow> find_action action cb i (Some v) s = Some (True, s') \<Longrightarrow> open_search action s'"
proof -
  assume a: "each_match action" "find_action action cb i (Some v) s = Some (True, s')"
  show ?thesis
  proof (cases "action = Act_CallbackIdx")
    case False
    then have "action \<in> {Act_ReturnFirst, Act_FindAll}" using a(1) by (simp add: each_match_def)
    then obtain b s1 where "find_action action cb i (Some v) s = Some (b, s1)" "qs_limit (fst s1) = qs_limit (fst s)"
      "b \<longrightarrow> qs_match_count (fst s1) < qs_limit (fst s)"
      using each_match_action by blast
    then show ?thesis using a(2) by (simp add: open_search_def)
  qed (simp add: open_search_def)
qed

lemma open_scan_on:
  "each_match action \<Longrightarrow> open_search action s \<Longrightarrow>
     scan_hits (find_action action cb) test a base is s = Some (True, s') \<Longrightarrow> open_search action s'"
proof (induction "is" arbitrary: s)
  case (Cons i "is")
  show ?case
  proof (cases "test (element a i)")
    case True
    then obtain s1 where s1: "find_action action cb (of_nat i + base) (Some (element a i)) s = Some (True, s1)"
      "scan_hits (find_action action cb) test a base is s1 = Some (True, s')"
      using Cons.prems(3) by (auto simp: scan_hits_Cons and_then_def split: bind_splits if_splits)
    show ?thesis by (rule Cons.IH [OF Cons.prems(1) open_search_on [OF Cons.prems(1) s1(1)] s1(2)])
  qed (use Cons in \<open>simp add: scan_hits_Cons\<close>)
qed simp

lemma scan_stops:
  assumes "action \<in> {Act_ReturnFirst, Act_FindAll}"
  shows "qs_match_count (fst s) < qs_limit (fst s) \<Longrightarrow> qs_limit (fst s) - qs_match_count (fst s) \<le> length is \<Longrightarrow>
    scan_hits (find_action action cb) (\<lambda>_. True) a base is s \<noteq> Some (True, s')"
proof (induction "is" arbitrary: s)
  case (Cons i "is")
  obtain b s1 where s1: "find_action action cb (of_nat i + base) (Some (element a i)) s = Some (b, s1)"
    "qs_limit (fst s1) = qs_limit (fst s)" "qs_match_count (fst s1) = qs_match_count (fst s) + 1"
    "b \<longrightarrow> qs_match_count (fst s1) < qs_limit (fst s)"
    using each_match_action [OF assms] by blast
  have "scan_hits (find_action action cb) (\<lambda>_. True) a base is s1 \<noteq> Some (True, s')" if b
    by (rule Cons.IH) (use s1 that Cons.prems in simp_all)
  then show ?case using s1(1) by (cases b) (simp_all add: scan_hits_Cons)
qed simp

lemma and_then_stopped: "\<forall>s. r \<noteq> Some (True, s) \<Longrightarrow> and_then r f = r"
  by (cases r; cases "fst (the r)") (auto simp: and_then_def)

lemma scan_hits_cong:
  "(\<And>i. i \<in> set is \<Longrightarrow> test (element a i) = test' (element a i)) \<Longrightarrow>
     scan_hits act test a base is s = scan_hits act test' a base is s"
  unfolding scan_hits_def hits_def by (simp cong: filter_cong)

lemma find_all_match_scan:
  assumes "array_ok a" "stop \<le> arr_size a" "start < stop" "each_match action" "open_search action s"
  shows "find_all_match k action cb a start stop base s =
    scan_hits (find_action action cb) (\<lambda>_. True) a base [start..<stop] s"
proof (cases "action = Act_CallbackIdx")
  case True
  then show ?thesis using assms by (simp add: find_all_match_def compare_each_scan)
next
  case False
  then have action: "action \<in> {Act_ReturnFirst, Act_FindAll}" using assms(4) by (simp add: each_match_def)
  let ?process = "qs_limit (fst s) - qs_match_count (fst s)"
  let ?stop2 = "if stop - start > ?process then start + ?process else stop"
  have open_s: "qs_match_count (fst s) < qs_limit (fst s)" using assms(5) False by (simp add: open_search_def)
  then have "find_all_match k action cb a start stop base s =
      compare_each (\<lambda>_. True) (find_action action cb) a start ?stop2 base s"
    using action False by (auto simp: find_all_match_def Let_def)
  also have "\<dots> = scan_hits (find_action action cb) (\<lambda>_. True) a base [start..<?stop2] s"
    using assms by (intro compare_each_scan) auto
  also have "\<dots> = scan_hits (find_action action cb) (\<lambda>_. True) a base [start..<stop] s"
  proof (cases "stop - start > ?process")
    case True
    then have "scan_hits (find_action action cb) (\<lambda>_. True) a base [start..<?stop2] s \<noteq> Some (True, s')" for s'
      using scan_stops [OF action open_s, of "[start..<?stop2]" cb a base s'] by simp
    then show ?thesis
      using scan_hits_split [of start ?stop2 stop "find_action action cb" "\<lambda>_. True" a base s] True
      by (simp add: and_then_stopped)
  qed simp
  finally show ?thesis .
qed

text \<open>The bounds of an array decide the searches that need not look at it.\<close>

lemma width_zero_is_decided:
  assumes "array_ok a" "arr_width a = 0" "can_match c v (arr_lbound a) (arr_ubound a)"
  shows "will_match c v (arr_lbound a) (arr_ubound a)"
proof -
  have "arr_lbound a \<le> u \<and> u \<le> arr_ubound a \<longleftrightarrow> u = 0" for u
    unfolding array_ok_facts(1) [OF assms(1)] assms(2) in_width_iff by auto
  from this [of 0] this [of "arr_lbound a"] this [of "arr_ubound a"]
  have "arr_lbound a = 0" "arr_ubound a = 0" by auto
  then show ?thesis using assms(3) by (cases c) (auto simp: match_defs)
qed

lemma bounds_decide:
  assumes "array_ok a"
  shows "\<not> can_match c v (arr_lbound a) (arr_ubound a) \<Longrightarrow> \<not> cond_holds c (element a i) v"
    "will_match c v (arr_lbound a) (arr_ubound a) \<Longrightarrow> cond_holds c (element a i) v"
  using can_match_sound [of "arr_lbound a" "element a i" "arr_ubound a" c v]
    will_match_sound [of "arr_lbound a" "element a i" "arr_ubound a" c v] element_in_bounds [OF assms, of i] by blast+

lemma search_ok_on:
  "search_ok k action s \<Longrightarrow> scan_hits (find_action action cb) test a base is s = Some (b, s') \<Longrightarrow> search_ok k action s'"
  unfolding scan_hits_def by (rule query.scan_inv)

text \<open>The searches that are not decided by the bounds.\<close>

lemma undecided_scan:
  assumes "array_ok a" "start \<le> stop" "stop \<le> arr_size a" "core_ok k" "search_ok k action s"
    "can_match c v (arr_lbound a) (arr_ubound a)" "\<not> will_match c v (arr_lbound a) (arr_ubound a)"
  shows "arr_width a \<noteq> 0" "compare k junk c (find_action action cb) (find_action_pattern k action) a v start stop base s =
    scan_hits (find_action action cb) (\<lambda>x. cond_holds c x v) a base [start..<stop] s"
proof -
  show w: "arr_width a \<noteq> 0" using width_zero_is_decided [OF assms(1)] assms(6,7) by blast
  then have "lane_width (arr_width a)"
    using array_ok_facts(3) [OF assms(1)] by (simp add: widths_def lane_width_def)
  moreover have "in_width (arr_width a) v" if "c \<in> {Equal, NotEqual}"
    using that assms(6,7) unfolding array_ok_facts(1) [OF assms(1), symmetric] by (auto simp: match_defs)
  moreover have "c \<notin> {None_cond, NotNull}" using assms(7) by auto
  ultimately show "compare k junk c (find_action action cb) (find_action_pattern k action) a v start stop base s =
      scan_hits (find_action action cb) (\<lambda>x. cond_holds c x v) a base [start..<stop] s"
    using assms by (intro query.compare_scan)
qed

lemma find_bulk_scan:
  assumes "array_ok a" "stop \<le> arr_size a" "core_ok k" "search_ok k action s" "each_match action" "open_search action s"
  shows "find_bulk k junk action cb a c v start stop base s =
    scan_hits (find_action action cb) (\<lambda>x. cond_holds c x v) a base [start..<stop] s"
proof (cases "start < stop")
  case True
  let ?scan = "scan_hits (find_action action cb) (\<lambda>x. cond_holds c x v) a base [start..<stop] s"
  have npos: "stop \<noteq> npos" "start < arr_size a" using array_ok_facts(4) [OF assms(1,2)] assms(2) True by auto
  show ?thesis
  proof (cases "can_match c v (arr_lbound a) (arr_ubound a)")
    case can: True
    show ?thesis
    proof (cases "will_match c v (arr_lbound a) (arr_ubound a)")
      case will: True
      have "?scan = scan_hits (find_action action cb) (\<lambda>_. True) a base [start..<stop] s"
        using bounds_decide(2) [OF assms(1) will] by (intro scan_hits_cong) simp
      then show ?thesis
        using find_all_match_scan [OF assms(1,2) True assms(5,6), of k cb base] npos True can will
        by (simp add: find_bulk_def)
    next
      case False
      then show ?thesis
        using undecided_scan(1) [OF assms(1) less_imp_le [OF True] assms(2-4) can False]
          undecided_scan(2) [OF assms(1) less_imp_le [OF True] assms(2-4) can False, of junk cb base] npos True can
        by (simp add: find_bulk_def)
    qed
  next
    case False
    then have "?scan = Some (True, s)" using bounds_decide(1) [OF assms(1) False] by (intro scan_hits_none) simp
    then show ?thesis using npos True False by (simp add: find_bulk_def)
  qed
qed (simp add: find_bulk_def)

lemma find_rest_scan:
  assumes "array_ok a" "stop \<le> arr_size a" "core_ok k" "search_ok k action s" "each_match action" "open_search action s"
  shows "find_rest k junk action cb a c v start stop base s =
    scan_hits (find_action action cb) (\<lambda>x. cond_holds c x v) a base [start..<stop] s"
proof (cases "start > 0")
  case True
  let ?scan = "scan_hits (find_action action cb) (\<lambda>x. cond_holds c x v) a base"
  let ?mid = "min (start + 4) stop"
  have "find_rest k junk action cb a c v start stop base s =
      and_then (?scan [start..<?mid] s) (find_bulk k junk action cb a c v (start + 4) stop base)"
    using True by (simp add: find_rest_def first_tests_scan [OF assms(1,2)] and_then_bind)
  also have "\<dots> = and_then (?scan [start..<?mid] s) (?scan [start + 4..<stop])"
  proof (rule and_then_cong)
    fix s' assume s': "?scan [start..<?mid] s = Some (True, s')"
    show "find_bulk k junk action cb a c v (start + 4) stop base s' = ?scan [start + 4..<stop] s'"
      by (rule find_bulk_scan [OF assms(1-3) search_ok_on [OF assms(4) s'] assms(5) open_scan_on [OF assms(5,6) s']])
  qed
  also have "\<dots> = ?scan [start..<stop] s"
  proof (cases "start + 4 \<le> stop")
    case True
    then show ?thesis
      using scan_hits_split [of start "start + 4" stop "find_action action cb" "\<lambda>x. cond_holds c x v" a base s]
      by (simp add: min_def)
  qed (simp add: min_def scan_hits_Nil [abs_def])
  finally show ?thesis .
qed (simp add: find_rest_def find_bulk_scan [OF assms])

text \<open>
  What a search hands over: the index and the value of the elements that match. The first element of a
  nullable array stands for null and is not counted. (A search for equality hands over that value where
  the other conditions hand over null.)
\<close>

definition search_end :: "array \<Rightarrow> bool \<Rightarrow> nat \<Rightarrow> nat" where
  "search_end a nullable_array stop =
    (if stop = npos then (if nullable_array then arr_size a - 1 else arr_size a) else stop)"

definition matching :: "cond \<Rightarrow> int \<Rightarrow> array \<Rightarrow> bool \<Rightarrow> bool \<Rightarrow> nat \<Rightarrow> bool" where
  "matching c v a nullable_array find_null i =
    (if nullable_array then holds_null c (element a (i + 1)) v (element a (i + 1) = element a 0) find_null
     else cond_holds c (element a i) v)"

definition value_at :: "cond \<Rightarrow> array \<Rightarrow> bool \<Rightarrow> nat \<Rightarrow> int option" where
  "value_at c a nullable_array i =
    (if \<not> nullable_array then Some (element a i)
     else if c \<noteq> Equal \<and> element a (i + 1) = element a 0 then None
     else Some (element a (i + 1)))"

definition search_hits :: "cond \<Rightarrow> int \<Rightarrow> array \<Rightarrow> bool \<Rightarrow> bool \<Rightarrow> nat \<Rightarrow> nat \<Rightarrow> 64 word \<Rightarrow> (64 word \<times> int option) list" where
  "search_hits c v a nullable_array find_null start stop base =
    map (\<lambda>i. (of_nat i + base, value_at c a nullable_array i))
      (filter (matching c v a nullable_array find_null) [start..<stop])"

lemma plain_hits: "scan_hits act (\<lambda>x. cond_holds c x v) a base [start..<stop] s =
    scan act (search_hits c v a False find_null start stop base) s"
  by (simp add: scan_hits_def hits_def search_hits_def value_at_def matching_def [abs_def] comp_def)

lemma nullable_each_scan:
  assumes "array_ok a" "stop < arr_size a" "c \<noteq> Equal"
  shows "nullable_each c v find_null (element a 0) act a start stop base s =
    scan act (search_hits c v a True find_null start stop base) s"
proof (induction "stop - start" arbitrary: start s)
  case 0
  then show ?case by (simp add: nullable_each.simps search_hits_def)
next
  case (Suc n)
  then have s: "start < stop" "[start..<stop] = start # [Suc start..<stop]" by (simp_all add: upt_conv_Cons)
  moreover have IH: "nullable_each c v find_null (element a 0) act a (Suc start) stop base s' =
      scan act (search_hits c v a True find_null (Suc start) stop base) s'" for s'
    using Suc.hyps(1) [of "Suc start" s'] Suc.hyps(2) by simp
  have x: "array_get a (start + 1) = Some (element a (start + 1))" using assms s by (simp add: array_get_ok)
  let ?hit = "(of_nat start + base, value_at c a True start)"
  have hits: "search_hits c v a True find_null start stop base = (if matching c v a True find_null start
      then ?hit # search_hits c v a True find_null (Suc start) stop base
      else search_hits c v a True find_null (Suc start) stop base)"
    by (simp add: search_hits_def s)
  show ?case
    unfolding hits using s(1) x IH assms(3)
    by (subst nullable_each.simps) (simp add: Let_def matching_def value_at_def and_then_bind)
qed

lemma nullable_equal_hits:
  assumes "matching Equal v a True find_null = (\<lambda>i. element a (i + 1) = u)"
  shows "scan_hits act (\<lambda>x. cond_holds Equal x u) a (base - 1) [start + 1..<stop + 1] s =
    scan act (search_hits Equal v a True find_null start stop base) s"
proof -
  have upt: "[start + 1..<stop + 1] = map Suc [start..<stop]" by (simp add: map_Suc_upt)
  have ix: "of_nat (Suc i) + (base - 1) = of_nat i + base" for i by simp
  show ?thesis
    unfolding scan_hits_def hits_def search_hits_def assms upt
    by (simp add: filter_map comp_def value_at_def del: upt_Suc of_nat_Suc) (simp add: ix del: of_nat_Suc)
qed

text \<open>
  C33. A search of an array is exact. For the actions that take every match, \<open>find_optimized\<close> does what
  handing over the elements that satisfy the condition, one by one and in order until the action says stop,
  would do: the tests of the first four elements, the decisions by the bounds of the array, the loops over
  64 bit chunks with their bit tricks for equality and order, and the limit of the search make no
  difference, for every width, range and kind of array, with null or without. The search reads no
  element outside the array, and it ends.
\<close>

theorem find_optimized_is_a_scan:
  assumes "array_ok a" "core_ok k" "each_match action" "open_search action s"
    and "find_null \<longrightarrow> nullable_array" "start \<le> search_end a nullable_array stop"
    and "if nullable_array then search_end a nullable_array stop < arr_size a else search_end a nullable_array stop \<le> arr_size a"
  shows "find_optimized k junk action cb a c v start stop base nullable_array find_null s =
    scan (find_action action cb) (search_hits c v a nullable_array find_null start (search_end a nullable_array stop) base) s"
proof -
  let ?fin = "search_end a nullable_array stop"
  have ok: "search_ok k action s"
    using assms(2,3) by (auto simp: search_ok_def counting_def core_ok_def each_match_def)
  have asserts: "\<not> ((find_null \<and> \<not> nullable_array) \<or>
      \<not> (start \<le> arr_size a \<and> (stop \<le> arr_size a \<or> stop = npos) \<and> start \<le> stop))"
    using assms(5-7) array_ok_facts(4) [OF assms(1) order_refl] assms(1)
    by (auto simp: search_end_def array_ok_def split: if_splits)
  show ?thesis
  proof (cases nullable_array)
    case False
    have "find_rest k junk action cb a c v start ?fin base s =
        scan (find_action action cb) (search_hits c v a False find_null start ?fin base) s"
      unfolding plain_hits [symmetric]
      by (rule find_rest_scan [OF assms(1) _ assms(2) ok assms(3,4)]) (use assms(7) False in simp)
    then show ?thesis
      using asserts False by (cases "stop = npos") (simp_all add: find_optimized_def search_end_def Let_def)
  next
    case True
    then have size: "?fin < arr_size a" "0 < arr_size a" using assms(7) by auto
    then have null: "array_at a 0 = Some (element a 0)" by (intro array_at_ok [OF assms(1)])
    have stop: "(if stop = npos then (if arr_size a = 0 then npos else arr_size a - 1) else stop) = ?fin"
      using True size by (simp add: search_end_def)
    have unfold: "find_optimized k junk action cb a c v start stop base True find_null s =
      (if c = Equal
       then if find_null then find_rest k junk action cb a c (element a 0) (start + 1) (?fin + 1) (base - 1) s
         else if v = element a 0 then Some (True, s)
         else find_rest k junk action cb a c v (start + 1) (?fin + 1) (base - 1) s
       else nullable_each c v find_null (element a 0) (find_action action cb) a start ?fin base s)"
      using asserts True unfolding find_optimized_def Let_def if_True stop null by (simp only: bind.simps) simp
    have rest: "find_rest k junk action cb a Equal u (start + 1) (?fin + 1) (base - 1) s =
        scan (find_action action cb) (search_hits Equal v a True find_null start ?fin base) s"
      if "matching Equal v a True find_null = (\<lambda>i. element a (i + 1) = u)" for u
      unfolding nullable_equal_hits [OF that, symmetric]
      by (rule find_rest_scan [OF assms(1) _ assms(2) ok assms(3,4)]) (use size in simp)
    show ?thesis
    proof (cases "c = Equal")
      case equal: True
      consider "find_null" | "\<not> find_null" "v = element a 0" | "\<not> find_null" "v \<noteq> element a 0" by blast
      then show ?thesis
      proof cases
        case 1
        have "matching Equal v a True find_null = (\<lambda>i. element a (i + 1) = element a 0)"
          using 1 by (simp add: matching_def [abs_def] equal_holds_def)
        then show ?thesis using 1 True equal unfold rest [of "element a 0"] by simp
      next
        case 2
        then have "matching Equal v a True find_null = (\<lambda>i. False)"
          by (auto simp: matching_def [abs_def] equal_holds_def)
        then show ?thesis using 2 True equal unfold by (simp add: search_hits_def)
      next
        case 3
        then have "matching Equal v a True find_null = (\<lambda>i. element a (i + 1) = v)"
          by (auto simp: matching_def [abs_def] equal_holds_def)
        then show ?thesis using 3 True equal unfold rest [of v] by simp
      qed
    next
      case False
      then show ?thesis using True unfold nullable_each_scan [OF assms(1) size(1) False] by simp
    qed
  qed
qed

text \<open>A core that does what \<open>core_ok\<close> asks for.\<close>

definition first_index :: "(nat \<Rightarrow> bool) \<Rightarrow> nat \<Rightarrow> nat" where
  "first_index P n = (case find P [0..<n] of Some i \<Rightarrow> i | None \<Rightarrow> n)"

definition extreme :: "(int \<Rightarrow> int \<Rightarrow> bool) \<Rightarrow> int list \<Rightarrow> nat \<Rightarrow> nat \<Rightarrow> int \<times> nat" where
  "extreme better xs s e = foldl (\<lambda>(v, i) j. if better (xs ! j) v then (xs ! j, j) else (v, i)) (xs ! s, s) [s + 1..<e]"

definition reference_core :: core_functions where
  "reference_core = \<lparr>
     round_up = (\<lambda>p al. (p + al - 1) div al * al),
     fast_popcount64 = (\<lambda>v. int (length (filter (bit v) [0..<64]))),
     first_set_bit64 = (\<lambda>v. first_index (bit v) 64),
     array_sum = (\<lambda>xs s e. sum_list (take (e - s) (drop s xs))),
     array_maximum = extreme (>),
     array_minimum = extreme (<)\<rparr>"

lemma first_index_first: "P m \<Longrightarrow> m < n \<Longrightarrow> P (first_index P n) \<and> (\<forall>i<first_index P n. \<not> P i)"
proof -
  assume m: "P m" "m < n"
  then have "find P [0..<n] \<noteq> None" by (auto simp: find_None_iff)
  then obtain i where "find P [0..<n] = Some i" by blast
  moreover from this have "P i" "\<forall>j<i. \<not> P j" by (auto simp: find_Some_iff)
  ultimately show ?thesis by (simp add: first_index_def)
qed

lemma extreme_is_extreme:
  assumes "\<And>x y z. better x y \<Longrightarrow> \<not> better z y \<Longrightarrow> \<not> better z x" "\<And>x. \<not> better x x"
  shows "s < e \<Longrightarrow> (let (v, i) = extreme better xs s e in
    s \<le> i \<and> i < e \<and> v = xs ! i \<and> (\<forall>j\<in>{s..<e}. \<not> better (xs ! j) v))"
proof (induction e)
  case (Suc e)
  show ?case
  proof (cases "s = e")
    case True
    then show ?thesis by (simp add: extreme_def assms(2))
  next
    case False
    obtain v i where e: "extreme better xs s e = (v, i)" by fastforce
    have "s < e" using Suc.prems False by simp
    then have IH: "s \<le> i \<and> i < e \<and> v = xs ! i \<and> (\<forall>j\<in>{s..<e}. \<not> better (xs ! j) v)"
      using Suc.IH unfolding e Let_def prod.case by blast
    have next_eq: "extreme better xs s (Suc e) = (if better (xs ! e) v then (xs ! e, e) else (v, i))"
      using e Suc.prems False by (simp add: extreme_def)
    have "\<not> better (xs ! j) (xs ! e)" if "better (xs ! e) v" "s \<le> j" "j \<le> e" for j
    proof (cases "j = e")
      case False
      then have "\<not> better (xs ! j) v" using IH that by (metis atLeastLessThan_iff le_neq_implies_less)
      then show ?thesis by (rule assms(1) [OF that(1)])
    qed (simp add: assms(2))
    then show ?thesis using IH by (auto simp: next_eq less_Suc_eq)
  qed
qed simp

lemma reference_core_ok: "core_ok reference_core"
proof -
  have round: "al dvd (p + al - 1) div al * al \<and> p \<le> (p + al - 1) div al * al \<and> (p + al - 1) div al * al < p + al"
    if "0 < al" for p al :: nat
  proof -
    define d m where "d = (p + al - 1) div al * al" and "m = (p + al - 1) mod al"
    have "d + m = p + al - 1" unfolding d_def m_def by (rule div_mult_mod_eq)
    moreover have "m < al" using that by (simp add: m_def)
    ultimately have "p \<le> d \<and> d < p + al" using that by linarith
    then show ?thesis by (simp add: d_def)
  qed
  have first: "bit v (first_index (bit v) 64) \<and> (\<forall>n<first_index (bit v) 64. \<not> bit v n)" if "v \<noteq> 0" for v :: "64 word"
  proof -
    have "\<exists>n. bit v n" using that bit_word_eqI [of v 0] by auto
    then obtain n where "bit v n" by blast
    moreover from this have "n < 64" using bit_imp_le_length by fastforce
    ultimately show ?thesis by (rule first_index_first)
  qed
  have count: "length (filter (bit v) [0..<64]) = bit_count v" for v :: "64 word"
  proof -
    have "{n. bit v n} = {n. n < 64 \<and> bit v n}" using bit_imp_le_length [of v] by fastforce
    then show ?thesis by (simp add: bit_count_def length_filter_conv_card cong: conj_cong)
  qed
  have most: "let (v, i) = extreme (>) xs s e in s \<le> i \<and> i < e \<and> v = xs ! i \<and> (\<forall>j\<in>{s..<e}. xs ! j \<le> v)"
    if "s < e" for xs :: "int list" and s e
    using extreme_is_extreme [of "(>)" s e xs] that by (simp add: not_less)
  have least: "let (v, i) = extreme (<) xs s e in s \<le> i \<and> i < e \<and> v = xs ! i \<and> (\<forall>j\<in>{s..<e}. v \<le> xs ! j)"
    if "s < e" for xs :: "int list" and s e
    using extreme_is_extreme [of "(<)" s e xs] that by (simp add: not_less)
  show ?thesis
    unfolding core_ok_def reference_core_def core_functions.simps
    using round first count most least by simp
qed

section \<open>An example\<close>

definition sample_array :: array where
  "sample_array = \<lparr>arr_data = [5, 7, 5, 250, 1, 7, 100, 0, 9, 7, 3, 5], arr_size = 12, arr_width = 8,
     arr_lbound = - 128, arr_ubound = 127\<rparr>"

lemma sample_array_ok: "array_ok sample_array"
  by (simp add: array_ok_def sample_array_def holds_def widths_def npos_def in_width_iff) presburger

lemma sample_element: "i < 12 \<Longrightarrow> element sample_array i = sint (arr_data sample_array ! i)"
  using byte_element [of i "arr_data sample_array"] by (simp add: sample_array_def)

lemma sample_elements [simp]:
  "element sample_array 0 = 5" "element sample_array (Suc 0) = 7" "element sample_array 2 = 5" "element sample_array 3 = - 6"
  "element sample_array 4 = 1" "element sample_array 5 = 7" "element sample_array 6 = 100" "element sample_array 7 = 0"
  "element sample_array 8 = 9" "element sample_array 9 = 7" "element sample_array 10 = 3" "element sample_array 11 = 5"
  by (simp_all add: sample_element) (simp_all add: sample_array_def)

lemma sample_facts [simp]: "arr_size sample_array = 12" "search_end sample_array False npos = 12"
  "search_end sample_array True npos = 11"
  by (simp_all add: sample_array_def search_end_def)

lemma sample_ranges:
  "[0..<12] = [0, 1, 2, 3, 4, 5, 6, 7, 8, 9, 10, 11]" "[1..<12] = [1, 2, 3, 4, 5, 6, 7, 8, 9, 10, 11]"
  "[2..<12] = [2, 3, 4, 5, 6, 7, 8, 9, 10, 11]"
  by code_simp+

theorem find_optimized_is_a_scan_witness:
  "\<exists>q s. query_state_new Act_FindAll 0 3 = Some q \<and>
     find_optimized reference_core 0 Act_FindAll callback_dummy sample_array Greater 6 0 npos 100 False False (q, ()) =
       Some (False, s) \<and> qs_found (fst s) = [101, 105, 106]"
proof -
  obtain q where q: "query_state_new Act_FindAll 0 3 = Some q" "qs_match_count q = 0" "qs_limit q = 3" "qs_found q = []"
    "qs_key_values q = None"
    by (simp add: query_state_new_def)
  have hits: "search_hits Greater 6 sample_array False False 0 12 100 =
      [(101, Some 7), (105, Some 7), (106, Some 100), (108, Some 9), (109, Some 7)]"
    by (simp add: search_hits_def matching_def value_at_def sample_ranges)
  have "find_optimized reference_core 0 Act_FindAll callback_dummy sample_array Greater 6 0 npos 100 False False (q, ()) =
      scan (find_action Act_FindAll callback_dummy)
        (search_hits Greater 6 sample_array False False 0 (search_end sample_array False npos) 100) (q, ())"
    by (rule find_optimized_is_a_scan [OF sample_array_ok reference_core_ok]) (simp_all add: each_match_def open_search_def q)
  then show ?thesis
    using q by (simp add: hits find_action_def match_optional_def match_value_def match_index_def Let_def)
qed

section \<open>Finding the first element\<close>

lemma to_size_index: "i < 2 ^ 64 \<Longrightarrow> to_size (sint (of_nat i :: 64 word)) = i"
proof -
  assume i: "i < 2 ^ 64"
  have "sint (of_nat i :: 64 word) mod 2 ^ 64 = uint (of_nat i :: 64 word)"
    using uint_word_of_int_eq [of "sint (of_nat i :: 64 word)", where 'a = 64] by (simp add: take_bit_eq_mod)
  also have "\<dots> = int i" using i by (simp add: uint_nat unat_of_nat)
  finally show ?thesis by (simp add: to_size_def)
qed

lemma find_head: "find P xs = (case filter P xs of [] \<Rightarrow> None | x # _ \<Rightarrow> Some x)"
  by (induction xs) simp_all

text \<open>
  C34. \<open>find_first\<close> returns the least index of a range whose element satisfies the condition, or \<open>npos\<close>
  when there is none, for every width of the array.
\<close>

theorem find_first_is_least:
  assumes "array_ok a" "core_ok k" "start \<le> search_end a False stop" "search_end a False stop \<le> arr_size a"
  shows "find_first k junk a c v start stop =
    Some (case find (\<lambda>i. cond_holds c (element a i) v) [start..<search_end a False stop] of Some i \<Rightarrow> i | None \<Rightarrow> npos)"
proof -
  let ?fin = "search_end a False stop"
  obtain q where q: "query_state_new Act_ReturnFirst 0 1 = Some q" "qs_match_count q = 0" "qs_limit q = 1" "qs_state q = - 1"
    by (simp add: query_state_new_def not_found_def)
  have scan: "find_optimized k junk Act_ReturnFirst callback_dummy a c v start stop 0 False False (q, ()) =
      scan (find_action Act_ReturnFirst callback_dummy) (search_hits c v a False False start ?fin 0) (q, ())"
    using assms q by (intro find_optimized_is_a_scan) (simp_all add: each_match_def open_search_def)
  have asserts: "start \<le> arr_size a \<and> (stop \<le> arr_size a \<or> stop = npos) \<and> start \<le> stop"
    using assms(3,4) assms(1) by (auto simp: search_end_def array_ok_def split: if_splits)
  show ?thesis
  proof (cases "filter (\<lambda>i. cond_holds c (element a i) v) [start..<?fin]")
    case Nil
    then have "find_optimized k junk Act_ReturnFirst callback_dummy a c v start stop 0 False False (q, ()) = Some (True, q, ())"
      using scan by (simp add: search_hits_def matching_def [abs_def])
    then show ?thesis
      using asserts q Nil by (simp add: find_first_def find_head to_size_def npos_def)
  next
    case (Cons i rest)
    then have "i \<in> set (filter (\<lambda>i. cond_holds c (element a i) v) [start..<?fin])" by simp
    then have "i < 2 ^ 64" using assms(1,4) by (simp add: array_ok_def npos_def)
    moreover have "find_optimized k junk Act_ReturnFirst callback_dummy a c v start stop 0 False False (q, ()) =
        Some (False, q\<lparr>qs_match_count := 1, qs_state := sint (of_nat i :: 64 word)\<rparr>, ())"
      using scan Cons q by (simp add: search_hits_def matching_def [abs_def] value_at_def find_action_def
          match_optional_def match_value_def Let_def)
    ultimately show ?thesis using asserts q Cons by (simp add: find_first_def find_head to_size_index)
  qed
qed

theorem find_first_is_least_witness:
  "find_first reference_core 0 sample_array Equal 7 2 npos = Some 5 \<and>
   find_first reference_core 0 sample_array Less (- 6) 0 12 = Some npos"
proof -
  have e: "search_end sample_array False 12 = 12" by (simp add: search_end_def npos_def)
  have "find (\<lambda>i. cond_holds Equal (element sample_array i) 7) [2..<12] = Some 5"
    "find (\<lambda>i. cond_holds Less (element sample_array i) (- 6)) [0..<12] = None"
    by (simp_all add: sample_ranges)
  then show ?thesis
    using find_first_is_least [OF sample_array_ok reference_core_ok, of 2 npos 0 Equal 7]
      find_first_is_least [OF sample_array_ok reference_core_ok, of 0 12 0 Less "- 6"] by (simp add: e)
qed

section \<open>Aggregates\<close>

definition combine :: "action \<Rightarrow> int \<Rightarrow> int \<Rightarrow> int" where
  "combine action st x = (case action of Act_Sum \<Rightarrow> st + x | Act_Max \<Rightarrow> max st x | Act_Min \<Rightarrow> min st x | _ \<Rightarrow> st + 1)"

definition aggregate :: "action \<Rightarrow> int \<Rightarrow> int list \<Rightarrow> int" where
  "aggregate action st xs = (case action of Act_Sum \<Rightarrow> st + sum_list xs | Act_Max \<Rightarrow> foldl max st xs
     | Act_Min \<Rightarrow> foldl min st xs | _ \<Rightarrow> st + int (length xs))"

definition fits :: "action \<Rightarrow> int \<Rightarrow> int list \<Rightarrow> bool" where
  "fits action st xs \<longleftrightarrow> (case action of Act_Sum \<Rightarrow> \<bar>st\<bar> + sum_list (map abs xs) < 2 ^ 63
     | Act_Count \<Rightarrow> 0 \<le> st \<and> st + int (length xs) < 2 ^ 63 | _ \<Rightarrow> True)"

definition aggregates :: "action \<Rightarrow> bool" where
  "aggregates action \<longleftrightarrow> action \<in> {Act_Sum, Act_Max, Act_Min, Act_Count}"

lemma aggregate_simps [simp]:
  "aggregates action \<Longrightarrow> aggregate action st [] = st"
  "aggregates action \<Longrightarrow> aggregate action st (x # xs) = aggregate action (combine action st x) xs"
  "aggregates action \<Longrightarrow> aggregate action st (xs @ ys) = aggregate action (aggregate action st xs) ys"
  by (auto simp: aggregates_def aggregate_def combine_def)

lemma sum_list_abs_nonneg: "0 \<le> sum_list (map abs xs)" and sum_list_abs_le: "\<bar>sum_list xs\<bar> \<le> sum_list (map abs xs)"
  for xs :: "int list"
  by (induction xs) auto

lemma fits_step:
  "aggregates action \<Longrightarrow> fits action st (x # xs) \<Longrightarrow> fits action (combine action st x) xs"
  "aggregates action \<Longrightarrow> fits action st (xs @ ys) \<Longrightarrow> fits action st xs"
  using sum_list_abs_nonneg [of xs] sum_list_abs_nonneg [of ys]
  by (auto simp: aggregates_def fits_def combine_def)

lemma fits_append: "aggregates action \<Longrightarrow> fits action st (xs @ ys) \<Longrightarrow> fits action (aggregate action st xs) ys"
  by (induction xs arbitrary: st) (auto dest: fits_step(1))

text \<open>One match.\<close>

lemma aggregate_action:
  assumes "aggregates action" "counting action s" "fits action (qs_state (fst s)) [x]"
    "qs_match_count (fst s) + 1 < qs_limit (fst s)"
  shows "\<exists>s'. find_action action cb i (Some x) s = Some (True, s') \<and> qs_state (fst s') = combine action (qs_state (fst s)) x \<and>
    counting action s' \<and> qs_match_count (fst s') = qs_match_count (fst s) + 1 \<and> qs_limit (fst s') = qs_limit (fst s)"
proof (cases "action = Act_Count")
  case True
  then have "0 \<le> qs_state (fst s)" "qs_state (fst s) + 1 < 2 ^ 63" "qs_match_count (fst s) = nat (qs_state (fst s))"
    using assms(2,3) by (simp_all add: fits_def counting_def)
  then have "nat (qs_state (fst s) + 1) = qs_match_count (fst s) + 1" by (simp add: nat_add_distrib)
  then show ?thesis
    using assms count_one [of s cb i x] counting_counted [of s 1] True \<open>qs_state (fst s) + 1 < 2 ^ 63\<close>
    by (cases s) (auto simp: counted_def combine_def)
next
  case False
  have "int64 (qs_state (fst s) + x) = Some (qs_state (fst s) + x)" if "action = Act_Sum"
    using assms(3) that unfolding fits_def int64_def by (auto simp: abs_if split: if_splits)
  then have "case find_action action cb i (Some x) s of
      Some (b, s') \<Rightarrow> b \<and> qs_state (fst s') = combine action (qs_state (fst s)) x \<and>
        qs_match_count (fst s') = qs_match_count (fst s) + 1 \<and> qs_limit (fst s') = qs_limit (fst s)
    | None \<Rightarrow> False"
    using assms(1,4) False
    by (cases s) (auto simp: aggregates_def find_action_def match_optional_def match_value_def combine_def Let_def)
  then show ?thesis using False by (auto simp: counting_def split: option.splits)
qed

lemma aggregate_scan:
  assumes "aggregates action"
  shows "counting action s \<Longrightarrow> fits action (qs_state (fst s)) (map snd xs) \<Longrightarrow>
    qs_match_count (fst s) + length xs < qs_limit (fst s) \<Longrightarrow>
    \<exists>s'. scan (find_action action cb) (map (apsnd Some) xs) s = Some (True, s') \<and>
      qs_state (fst s') = aggregate action (qs_state (fst s)) (map snd xs) \<and> counting action s' \<and>
      qs_match_count (fst s') = qs_match_count (fst s) + length xs \<and> qs_limit (fst s') = qs_limit (fst s)"
proof (induction xs arbitrary: s)
  case (Cons x xs)
  have "fits action (qs_state (fst s)) [snd x]"
    using fits_step(2) [OF assms, of _ "[snd x]" "map snd xs"] Cons.prems(2) by simp
  then obtain s1 where s1: "find_action action cb (fst x) (Some (snd x)) s = Some (True, s1)"
    "qs_state (fst s1) = combine action (qs_state (fst s)) (snd x)" "counting action s1"
    "qs_match_count (fst s1) = qs_match_count (fst s) + 1" "qs_limit (fst s1) = qs_limit (fst s)"
    using aggregate_action [OF assms Cons.prems(1), of "snd x" cb "fst x"] Cons.prems(3) by auto
  have "fits action (qs_state (fst s1)) (map snd xs)"
    using fits_step(1) [OF assms] Cons.prems(2) s1(2) by simp
  then show ?case using Cons.IH [OF s1(3)] s1 Cons.prems(3) assms by auto
qed (use assms in simp)

text \<open>A search that ends with the aggregate of the matches.\<close>

definition search_gives :: "action \<Rightarrow> int list \<Rightarrow> 'c search_state \<Rightarrow> (bool \<times> 'c search_state) option \<Rightarrow> bool" where
  "search_gives action xs s r \<longleftrightarrow> (\<exists>s'. r = Some (True, s') \<and> qs_state (fst s') = aggregate action (qs_state (fst s)) xs)"

definition matching_values :: "cond \<Rightarrow> int \<Rightarrow> array \<Rightarrow> nat list \<Rightarrow> int list" where
  "matching_values c v a is = map (element a) (filter (\<lambda>i. cond_holds c (element a i) v) is)"

lemma matching_values_append:
  "m \<le> n \<Longrightarrow> n \<le> p \<Longrightarrow> matching_values c v a [m..<p] = matching_values c v a [m..<n] @ matching_values c v a [n..<p]"
  by (metis (no_types, lifting) filter_append le_Suc_ex map_append matching_values_def upt_add_eq_append)

lemma matching_values_length: "length (matching_values c v a [m..<n]) \<le> n - m"
  using length_filter_le [of "\<lambda>i. cond_holds c (element a i) v" "[m..<n]"] by (simp add: matching_values_def)

lemma aggregate_hits:
  assumes "aggregates action" "counting action s" "fits action (qs_state (fst s)) (matching_values c v a [m..<n])"
    "qs_match_count (fst s) + (n - m) < qs_limit (fst s)"
  shows "\<exists>s'. scan_hits (find_action action cb) (\<lambda>x. cond_holds c x v) a base [m..<n] s = Some (True, s') \<and>
    qs_state (fst s') = aggregate action (qs_state (fst s)) (matching_values c v a [m..<n]) \<and> counting action s' \<and>
    qs_match_count (fst s') \<le> qs_match_count (fst s) + (n - m) \<and> qs_limit (fst s') = qs_limit (fst s)"
proof -
  let ?hits = "hits (\<lambda>x. cond_holds c x v) a base [m..<n]"
  have vals: "map snd ?hits = matching_values c v a [m..<n]" by (simp add: hits_def matching_values_def)
  then have "length ?hits \<le> n - m" using matching_values_length [of c v a m n] by (metis length_map)
  then show ?thesis
    using aggregate_scan [OF assms(1,2), of ?hits cb] assms(3,4) unfolding vals scan_hits_def by fastforce
qed

lemma foldl_extreme:
  "\<forall>x\<in>set xs. x \<le> v \<Longrightarrow> v \<in> set xs \<or> v \<le> st \<Longrightarrow> foldl max st xs = max st v"
  "\<forall>x\<in>set xs. v \<le> x \<Longrightarrow> v \<in> set xs \<or> st \<le> v \<Longrightarrow> foldl min st xs = min st v"
  for v st :: int
  by (induction xs arbitrary: st) (auto simp: max_def min_def)

lemma core_extremes:
  assumes "core_ok k" "s < e" "e \<le> length xs"
  shows "array_maximum k xs s e = (m, i) \<Longrightarrow> s \<le> i \<and> i < e \<and> m = xs ! i \<and> (\<forall>j\<in>{s..<e}. xs ! j \<le> m)"
    "array_minimum k xs s e = (m, i) \<Longrightarrow> s \<le> i \<and> i < e \<and> m = xs ! i \<and> (\<forall>j\<in>{s..<e}. m \<le> xs ! j)"
proof -
  have m: "let (v, i) = array_maximum k xs s e in s \<le> i \<and> i < e \<and> v = xs ! i \<and> (\<forall>j\<in>{s..<e}. xs ! j \<le> v)"
    using assms unfolding core_ok_def by blast
  show "s \<le> i \<and> i < e \<and> m = xs ! i \<and> (\<forall>j\<in>{s..<e}. xs ! j \<le> m)" if "array_maximum k xs s e = (m, i)"
    using m unfolding that Let_def prod.case .
  have m: "let (v, i) = array_minimum k xs s e in s \<le> i \<and> i < e \<and> v = xs ! i \<and> (\<forall>j\<in>{s..<e}. v \<le> xs ! j)"
    using assms unfolding core_ok_def by blast
  show "s \<le> i \<and> i < e \<and> m = xs ! i \<and> (\<forall>j\<in>{s..<e}. m \<le> xs ! j)" if "array_minimum k xs s e = (m, i)"
    using m unfolding that Let_def prod.case .
qed

lemma find_all_match_gives:
  assumes "array_ok a" "core_ok k" "aggregates action" "counting action s" "start < stop" "stop \<le> arr_size a"
    "fits action (qs_state (fst s)) (map (element a) [start..<stop])"
    "qs_match_count (fst s) + (stop - start) < qs_limit (fst s)"
  shows "search_gives action (map (element a) [start..<stop]) s (find_all_match k action cb a start stop base s)"
proof -
  let ?xs = "elements (arr_width a) (arr_data a) (arr_size a)"
  let ?slice = "map (element a) [start..<stop]"
  have limit: "qs_match_count (fst s) < qs_limit (fst s)" "stop - start \<le> qs_limit (fst s) - qs_match_count (fst s)"
    using assms(5,8) by linarith+
  have slice: "take (stop - start) (drop start ?xs) = ?slice"
    using assms(5,6) by (simp add: elements_def take_map drop_map min_def)
  have nth: "?xs ! i = element a i" if "i < stop" for i using that assms(6) by simp
  have one: "\<exists>s'. find_action action cb i (Some x) s = Some (True, s') \<and> qs_state (fst s') = combine action (qs_state (fst s)) x"
    if "fits action (qs_state (fst s)) [x]" for i x
  proof -
    have "qs_match_count (fst s) + 1 < qs_limit (fst s)" using assms(5,8) by linarith
    then show ?thesis using aggregate_action [OF assms(3,4) that, of cb i] by blast
  qed
  consider "action = Act_Sum" | "action = Act_Max" | "action = Act_Min" | "action = Act_Count"
    using assms(3) by (auto simp: aggregates_def)
  then show ?thesis
  proof cases
    case 1
    have sum: "array_sum k ?xs start stop = sum_list ?slice"
      using assms(2,5,6) slice by (simp add: core_ok_def)
    have "fits action (qs_state (fst s)) [sum_list ?slice]"
      using assms(7) sum_list_abs_le [of ?slice] 1 by (simp add: fits_def)
    then obtain s' where "find_action action cb base (Some (sum_list ?slice)) s = Some (True, s')"
      "qs_state (fst s') = qs_state (fst s) + sum_list ?slice"
      using one [of "sum_list ?slice" base] 1 by (auto simp: combine_def)
    then show ?thesis
      using 1 limit sum by (simp add: find_all_match_def search_gives_def aggregate_def not_less Let_def)
  next
    case 2
    obtain m i where m: "array_maximum k ?xs start stop = (m, i)" by fastforce
    have "start \<le> i \<and> i < stop \<and> m = ?xs ! i \<and> (\<forall>j\<in>{start..<stop}. ?xs ! j \<le> m)"
      by (rule core_extremes(1) [OF assms(2,5) _ m]) (simp add: assms(6))
    then have i: "start \<le> i" "i < stop" "m = ?xs ! i" "\<forall>j\<in>{start..<stop}. ?xs ! j \<le> m"
      by blast+
    then have i: "start \<le> i" "i < stop" "m = element a i" "\<forall>j\<in>{start..<stop}. element a j \<le> m"
      using nth by (blast, blast, metis, metis atLeastLessThan_iff)
    have "foldl max (qs_state (fst s)) ?slice = max (qs_state (fst s)) m"
      using i by (intro foldl_extreme) auto
    moreover obtain s' where "find_action action cb (of_nat i + base) (Some m) s = Some (True, s')"
      "qs_state (fst s') = max (qs_state (fst s)) m"
      using one [of m "of_nat i + base"] 2 by (auto simp: combine_def fits_def)
    ultimately show ?thesis
      using 2 limit m by (simp add: find_all_match_def search_gives_def aggregate_def not_less Let_def)
  next
    case 3
    obtain m i where m: "array_minimum k ?xs start stop = (m, i)" by fastforce
    have "start \<le> i \<and> i < stop \<and> m = ?xs ! i \<and> (\<forall>j\<in>{start..<stop}. m \<le> ?xs ! j)"
      by (rule core_extremes(2) [OF assms(2,5) _ m]) (simp add: assms(6))
    then have i: "start \<le> i" "i < stop" "m = ?xs ! i" "\<forall>j\<in>{start..<stop}. m \<le> ?xs ! j"
      by blast+
    then have i: "start \<le> i" "i < stop" "m = element a i" "\<forall>j\<in>{start..<stop}. m \<le> element a j"
      using nth by (blast, blast, metis, metis atLeastLessThan_iff)
    have "foldl min (qs_state (fst s)) ?slice = min (qs_state (fst s)) m"
      using i by (intro foldl_extreme) auto
    moreover obtain s' where "find_action action cb (of_nat i + base) (Some m) s = Some (True, s')"
      "qs_state (fst s') = min (qs_state (fst s)) m"
      using one [of m "of_nat i + base"] 3 by (auto simp: combine_def fits_def)
    ultimately show ?thesis
      using 3 limit m by (simp add: find_all_match_def search_gives_def aggregate_def not_less Let_def)
  next
    case 4
    have "int64 (qs_state (fst s) + int (stop - start)) = Some (qs_state (fst s) + int (stop - start))"
      using assms(7) 4 by (simp add: fits_def int64_def)
    then show ?thesis
      using 4 limit by (simp add: find_all_match_def search_gives_def aggregate_def not_less Let_def)
  qed
qed

lemma find_bulk_gives:
  assumes "array_ok a" "core_ok k" "aggregates action" "counting action s" "stop \<le> arr_size a"
    "fits action (qs_state (fst s)) (matching_values c v a [start..<stop])"
    "qs_match_count (fst s) + (stop - start) < qs_limit (fst s)"
  shows "search_gives action (matching_values c v a [start..<stop]) s (find_bulk k junk action cb a c v start stop base s)"
proof (cases "start < stop")
  case True
  have npos: "stop \<noteq> npos" "start < arr_size a" using array_ok_facts(4) [OF assms(1,5)] assms(5) True by auto
  have ok: "search_ok k action s" using assms(2,4) by (simp add: search_ok_def core_ok_def)
  show ?thesis
  proof (cases "can_match c v (arr_lbound a) (arr_ubound a)")
    case can: True
    show ?thesis
    proof (cases "will_match c v (arr_lbound a) (arr_ubound a)")
      case will: True
      have "matching_values c v a [start..<stop] = map (element a) [start..<stop]"
        using bounds_decide(2) [OF assms(1) will] by (simp add: matching_values_def)
      then show ?thesis
        using find_all_match_gives [OF assms(1-4) True assms(5)] assms(6,7) npos True can will by (simp add: find_bulk_def)
    next
      case False
      then show ?thesis
        using undecided_scan(1) [OF assms(1) less_imp_le [OF True] assms(5,2) ok can False]
          undecided_scan(2) [OF assms(1) less_imp_le [OF True] assms(5,2) ok can False, of junk cb base]
          aggregate_hits [OF assms(3,4,6,7), of cb base] npos True can
        by (auto simp: find_bulk_def search_gives_def)
    qed
  next
    case False
    then have "matching_values c v a [start..<stop] = []"
      using bounds_decide(1) [OF assms(1) False] by (simp add: matching_values_def)
    then show ?thesis using npos True False assms(3) by (simp add: find_bulk_def search_gives_def)
  qed
qed (use assms(3) in \<open>simp add: find_bulk_def search_gives_def matching_values_def\<close>)



section \<open>Comparing two arrays is a scan\<close>

definition leaf_hits :: "cond \<Rightarrow> array \<Rightarrow> array \<Rightarrow> 64 word \<Rightarrow> nat list \<Rightarrow> (64 word \<times> int option) list" where
  "leaf_hits c a foreign base is =
    map (\<lambda>i. (of_nat i + base, Some (element a i))) (filter (\<lambda>i. cond_holds c (element a i) (element foreign i)) is)"

lemma leaf_scan_Cons:
  "scan act (leaf_hits c a foreign base (i # is)) s =
    (if cond_holds c (element a i) (element foreign i)
     then and_then (act (of_nat i + base) (Some (element a i)) s) (scan act (leaf_hits c a foreign base is))
     else scan act (leaf_hits c a foreign base is) s)"
  by (simp add: leaf_hits_def and_then_bind)

lemma leaf_scan_Nil [simp]: "scan act (leaf_hits c a foreign base []) = (\<lambda>s. Some (True, s))"
  by (simp add: leaf_hits_def fun_eq_iff)

lemma leafs_each_scan:
  "array_ok a \<Longrightarrow> array_ok foreign \<Longrightarrow> stop \<le> arr_size a \<Longrightarrow> stop \<le> arr_size foreign \<Longrightarrow>
     leafs_each c act a foreign start stop base s = scan act (leaf_hits c a foreign base [start..<stop]) s"
proof (induction "stop - start" arbitrary: start s)
  case 0
  then show ?case by (simp add: leafs_each.simps)
next
  case (Suc n)
  then have s: "start < stop" "[start..<stop] = start # [Suc start..<stop]" by (simp_all add: upt_conv_Cons)
  moreover have "leafs_each c act a foreign (Suc start) stop base s' = scan act (leaf_hits c a foreign base [Suc start..<stop]) s'" for s'
    using Suc by simp
  ultimately show ?case using Suc.prems
    by (subst leafs_each.simps) (simp add: array_get_ok leaf_scan_Cons and_then_bind)
qed

lemma zeros_each_scan:
  assumes "\<And>i. i < stop \<Longrightarrow> element a i = 0 \<and> element foreign i = 0" "cond_holds c 0 0"
  shows "zeros_each act start stop base s = scan act (leaf_hits c a foreign base [start..<stop]) s"
proof (induction "stop - start" arbitrary: start s)
  case 0
  then show ?case by (simp add: zeros_each.simps)
next
  case (Suc n)
  then have s: "start < stop" "[start..<stop] = start # [Suc start..<stop]" by (simp_all add: upt_conv_Cons)
  moreover have "zeros_each act (Suc start) stop base s' = scan act (leaf_hits c a foreign base [Suc start..<stop]) s'" for s'
    using Suc by simp
  ultimately show ?case using assms
    by (subst zeros_each.simps) (simp add: leaf_scan_Cons and_then_bind)
qed

lemma element_zero: "element \<lparr>arr_data = d, arr_size = n, arr_width = 0, arr_lbound = l, arr_ubound = u\<rparr> i = 0"
  and elem_width_zero: "elem 0 d i = 0"
  by (simp_all add: elem_def as_element_def)

lemma leafs_one_scan:
  "array_ok a \<Longrightarrow> array_ok foreign \<Longrightarrow> i < arr_size a \<Longrightarrow> i < arr_size foreign \<Longrightarrow>
     leafs_one c act a foreign i base s = scan act (leaf_hits c a foreign base [i]) s"
  by (simp add: leafs_one_def array_at_ok leaf_scan_Cons)

lemma leaf_scan_append:
  "scan act (leaf_hits c a foreign base (is @ js)) s =
     and_then (scan act (leaf_hits c a foreign base is) s) (scan act (leaf_hits c a foreign base js))"
  by (simp add: leaf_hits_def scan_append)

lemma compare_leafs_4_scan:
  assumes "array_ok a" "array_ok foreign" "stop \<le> arr_size a" "stop \<le> arr_size foreign"
  shows "compare_leafs_4 c act a foreign start stop base s = scan act (leaf_hits c a foreign base [start..<stop]) s"
proof (cases "arr_width a = 0 \<and> arr_width foreign = 0")
  case True
  then have zero: "element a i = 0 \<and> element foreign i = 0" for i by (simp add: elem_width_zero)
  have rest: "leafs_each c act a foreign (max start stop) stop base s' = Some (True, s')" for s'
    by (simp add: leafs_each.simps)
  have none: "leaf_hits c a foreign base [start..<stop] = []" if "\<not> cond_holds c 0 0"
    using that zero by (simp add: leaf_hits_def)
  show ?thesis
  proof (cases "cond_holds c 0 0")
    case hold: True
    show ?thesis
      using zeros_each_scan [of stop a foreign c act start base s] zero hold True
      by (simp add: compare_leafs_4_def rest and_then_bind)
  qed (use none True in \<open>simp add: compare_leafs_4_def\<close>)
qed (auto simp: compare_leafs_4_def leafs_each_scan [OF assms])

text \<open>
  Comparing two arrays element by element hands over exactly the elements of the first that satisfy the
  condition with their counterparts in the second, in order: the shortcut for two arrays of width zero and
  the tests before the width of the second array is looked up make no difference.
\<close>

theorem compare_leafs_is_a_scan:
  assumes "array_ok a" "array_ok foreign" "start \<le> stop" "stop \<le> arr_size a" "stop \<le> arr_size foreign"
  shows "compare_leafs c act a foreign start stop base s = scan act (leaf_hits c a foreign base [start..<stop]) s"
proof -
  let ?scan = "\<lambda>is. scan act (leaf_hits c a foreign base is)"
  note one = leafs_one_scan [OF assms(1,2)] and rest = compare_leafs_4_scan [OF assms(1,2,4,5)]
  consider "start = stop" | "start < stop" "start + 4 < stop" | "start < stop" "\<not> start + 4 < stop"
    using assms(3) by linarith
  then show ?thesis
  proof cases
    case 1
    then show ?thesis by (simp add: compare_leafs_def)
  next
    case 2
    have upt: "[start..<stop] = [start] @ [start + 1] @ [start + 2] @ [start + 3] @ [start + 4..<stop]"
      using 2 by (simp add: upt_conv_Cons numeral_eq_Suc)
    have "compare_leafs c act a foreign start stop base s =
        and_then (?scan [start] s) (\<lambda>s. and_then (?scan [start + 1] s) (\<lambda>s. and_then (?scan [start + 2] s)
          (\<lambda>s. and_then (?scan [start + 3] s) (?scan [start + 4..<stop]))))"
      using 2 assms by (simp add: compare_leafs_def one rest and_then_bind Let_def numeral_eq_Suc)
    then show ?thesis unfolding upt leaf_scan_append [abs_def] .
  next
    case 3
    have upt: "[start..<stop] = [start] @ [start + 1..<stop]" using 3 by (simp add: upt_conv_Cons)
    have "compare_leafs c act a foreign start stop base s = and_then (?scan [start] s) (?scan [start + 1..<stop])"
    proof -
      have "(\<lambda>s. if Suc start = stop then Some (True, s) else compare_leafs_4 c act a foreign (Suc start) stop base s) =
          ?scan [Suc start..<stop]"
        by (auto simp: rest fun_eq_iff)
      then show ?thesis using 3 assms by (simp add: compare_leafs_def one and_then_bind Let_def)
    qed
    then show ?thesis unfolding upt leaf_scan_append [abs_def] .
  qed
qed

theorem compare_leafs_is_a_scan_witness:
  "\<exists>q s. query_state_new Act_FindAll 0 9 = Some q \<and>
     compare_leafs Less (find_action Act_FindAll callback_dummy) sample_array
       (sample_array\<lparr>arr_data := [6, 7, 6, 0]\<rparr>\<lparr>arr_size := 4\<rparr>) 0 4 0 (q, ()) = Some (True, s) \<and> qs_found (fst s) = [0, 2, 3]"
proof -
  let ?other = "sample_array\<lparr>arr_data := [6, 7, 6, 0]\<rparr>\<lparr>arr_size := 4\<rparr>"
  obtain q where q: "query_state_new Act_FindAll 0 9 = Some q" "qs_match_count q = 0" "qs_limit q = 9" "qs_found q = []"
    "qs_key_values q = None"
    by (simp add: query_state_new_def)
  have ok: "array_ok ?other"
    using sample_array_ok unfolding array_ok_def by (simp add: sample_array_def holds_def widths_def npos_def)
  have other: "element ?other i = sint (([6, 7, 6, 0] :: byte list) ! i)" if "i < 4" for i
    using that byte_element [of i "[6, 7, 6, 0]"] by (simp add: sample_array_def)
  have four: "[0..<4] = [0, 1, 2, 3]" by code_simp
  have hits: "leaf_hits Less sample_array ?other 0 [0..<4] = [(0, Some 5), (2, Some 5), (3, Some (- 6))]"
    unfolding leaf_hits_def four using other [of 0] other [of 1] other [of 2] other [of 3] by simp
  have "compare_leafs Less (find_action Act_FindAll callback_dummy) sample_array ?other 0 4 0 (q, ()) =
      scan (find_action Act_FindAll callback_dummy) (leaf_hits Less sample_array ?other 0 [0..<4]) (q, ())"
    by (rule compare_leafs_is_a_scan [OF sample_array_ok ok]) simp_all
  then show ?thesis
    using q by (simp add: hits find_action_def match_optional_def match_value_def match_index_def Let_def)
qed

section \<open>Where the limit of a search is not kept\<close>

text \<open>
  When all elements of a range match, counting adds their number to the state but not to the number of
  matches that the limit is compared with; and a null that matches is not counted towards the limit.
\<close>

lemma full_count_leaves_match_count:
  "find_all_match k Act_Count cb a start stop base s = Some (True, s') \<Longrightarrow>
     qs_match_count (fst s') = qs_match_count (fst s)"
  by (cases s) (auto simp: find_all_match_def Let_def split: if_splits bind_splits)

lemma null_match_leaves_match_count:
  "find_action Act_FindAll cb i None s = Some (b, s') \<Longrightarrow> qs_match_count (fst s') = qs_match_count (fst s)"
  by (cases s) (auto simp: find_action_def match_optional_def Let_def)

text \<open>The bit tricks for order are compiled for both conditions, but the test before them refuses less.\<close>

lemma less_never_uses_bit_tricks: "lane_width w \<Longrightarrow> w \<le> 16 \<Longrightarrow> \<not> use_fast False w v"
  using use_fast_only_greater by blast

end
