(* ===== verification/Spec2Isabelle.thy ===== *)
theory Spec2Isabelle
  imports ChangeHistory ChangeDiff Notifier SchemaDecisions ArrayFind
begin

text \<open>
  A verification development for the Realm object store that is vendored under
  \<open>src/notVK/Pods/Realm\<close>. Paths below are relative to that directory: \<open>OS/\<close> stands for
  \<open>Realm/ObjectStore/src/\<close> and \<open>core/\<close> for \<open>include/core/realm/\<close>.

  \<^bold>\<open>The program.\<close> A Realm file holds tables of objects. A write transaction appends the
  instructions that describe it to a log. When another thread advances to the new version, the
  object store parses that log, turns it into change sets for the collections and tables it
  watches, merges the change sets of several versions, and hands them to the application as
  sets of deleted, inserted and modified indices. When a file is opened its schema is
  validated, compared with the schema in the file, and the difference is checked against the
  mode the file is opened in. The development follows these paths from the bytes up.

  \<^bold>\<open>Index sets and change sets.\<close>
  \<^item> \<open>RangeVector\<close>: \<open>ChunkedRangeVector\<close> and its iterators (\<open>include/index_set.hpp\<close>,
    \<open>OS/index_set.cpp\<close>); the locale \<open>range_cursor\<close> is the interface to its clients.
  \<^item> \<open>IndexSet\<close>, \<open>IndexSetRemove\<close>, \<open>IndexSetCount\<close>, \<open>IndexSetMerge\<close>: the operations of
    \<open>IndexSet\<close> (same files), each characterised by its effect on the set \<open>elems\<close> under the
    invariant \<open>is_ok\<close>. \<open>IndexSetOps\<close> collects what the change sets need as the locale
    \<open>index_set\<close>, with the model as its interpretation, and the correspondence of positions before
    and after deletions and insertions.
  \<^item> \<open>ChangeBuilder\<close>: \<open>CollectionChangeBuilder\<close> (\<open>OS/impl/collection_change_builder.cpp\<close>);
    \<open>ChangeMerge\<close> and \<open>ChangeHistory\<close> prove that recording and merging follow every row;
    \<open>ChangeCalculate\<close> and \<open>ChangeDiff\<close> are the diff of two versions by longest common
    subsequences and its correctness.
  \<^item> \<open>ObjectChanges\<close>: \<open>ObjectChangeSet\<close> (\<open>OS/object_changeset.cpp\<close>).

  \<^bold>\<open>The transaction log.\<close>
  \<^item> \<open>SafeInt\<close>: the overflow checking operations of \<open>core/util/safe_int_ops.hpp\<close>.
  \<^item> \<open>Buffer\<close>: \<open>core/util/buffer.hpp\<close>.
  \<^item> \<open>LogCodec\<close>: integers in the log and the streams of \<open>core/impl/input_stream.hpp\<close>; the locale
    \<open>input_stream\<close> is what the parser needs of a stream.
  \<^item> \<open>TransactLog\<close>, \<open>TransactRoundTrip\<close>: encoder and parser of \<open>core/impl/transact_log.hpp\<close>, and
    that parsing what was encoded calls the handler with the same instructions, in whatever
    blocks the bytes arrive. \<open>TransactReverse\<close>: the reverser. \<open>TransactEncoder\<close>: the encoder with
    its cache of the selected table and list.
  \<^item> \<open>ChangeObserver\<close>: \<open>OS/impl/transact_log_handler.cpp\<close>, the handlers that turn a log into
    the change sets above.

  \<^bold>\<open>Notifiers.\<close> \<open>OS/impl/collection_notifier.cpp\<close>.
  \<^item> \<open>DeepChange\<close>: whether an object that did not change links to one that did; \<open>world\<close> is what is read from the
    tables, and \<open>changed_within\<close> is the specification of the search with its memory and its cut.
  \<^item> \<open>Notifier\<close>: the callbacks of a collection, the changes that wait for them, and their delivery. The locale
    \<open>callback_body\<close> is the contract between the loop over the callbacks and what it does with one of them,
    \<open>callback_delivery\<close> adds whom it calls; both have the three loops of the code as interpretations.
    \<open>reachable\<close> are the states of a notifier between deliveries.

  \<^bold>\<open>Schemas.\<close>
  \<^item> \<open>StringData\<close>: \<open>core/string_data.hpp\<close> and the Boyer-Moore search of
    \<open>core/query_engine.hpp\<close>.
  \<^item> \<open>SchemaTypes\<close>, \<open>SchemaValidate\<close>: \<open>include/property.hpp\<close>, \<open>include/object_schema.hpp\<close>,
    \<open>OS/object_schema.cpp\<close>, \<open>OS/schema.cpp\<close>; \<open>SchemaTyping\<close> is an independent typing discipline and
    the theorem that validation decides it.
  \<^item> \<open>SchemaCompare\<close>: \<open>Schema::compare\<close> and \<open>copy_keys_from\<close>; \<open>SchemaApply\<close> gives the changes a
    meaning and shows that they lead to the target schema.
  \<^item> \<open>SchemaVerify\<close>: the verifiers of \<open>OS/object_store.cpp\<close> and the decision of
    \<open>OS/shared_realm.cpp\<close> about write transactions; \<open>SchemaDecisions\<close> says what they decide.

  \<^bold>\<open>Arrays.\<close> All data of a file is in arrays of integers that are packed with the least width of
  0, 1, 2, 4, 8, 16, 32 or 64 bits; queries search them.
  \<^item> \<open>NodeHeader\<close>: the eight bytes before every array (\<open>core/node_header.hpp\<close>) as a record of seven
    fields; the locale \<open>header_field\<close> is the contract of one field. \<open>PackedArray\<close>: reading, writing and
    filling packed elements and binary search (\<open>core/array_direct.hpp\<close>), and references and
    tagged integers (\<open>core/array.hpp\<close>); \<open>elem\<close> is the value of an element by its bits.
  \<^item> \<open>BitLanes\<close>: the tests on 64 bit chunks (\<open>core/array.hpp\<close>), of which \<open>lane w j c\<close> is the \<open>j\<close>th element.
    \<open>QueryState\<close>: the conditions of \<open>core/query_conditions.hpp\<close> and what is done with a match; the locale
    \<open>search_action\<close> is the contract between a search and its action.
  \<^item> \<open>ArrayCompare\<close>, \<open>ArrayFind\<close>: the search of an array, from \<open>find_first\<close> and \<open>find_optimized\<close> down to the
    loops over chunks, equal to handing over the matching elements one by one (\<open>scan\<close>).

  \<^bold>\<open>Conventions.\<close> A \<open>size_t\<close> that counts things in memory is a \<open>nat\<close>; where a width matters
  (the codec, the checked operations, property types, sizes of buffers) it is kept, as a word or as
  an integer in the range of its type. A failing \<open>REALM_ASSERT\<close>, \<open>REALM_UNREACHABLE\<close> and undefined
  behaviour are \<open>None\<close>; an exception is \<open>Inl\<close>. Loops over iterators are
  \<open>partial_function (option)\<close>, for which \<open>None\<close> also stands for not returning; the theorems that
  an operation returns \<open>Some\<close> are therefore also proofs of termination. No definition
  uses fuel. \<open>char\<close> is signed, as on the platforms the library is built for; \<open>std::sort\<close> of schemas
  is modelled by a stable sort, which matters only for schemas with duplicate names.

  \<^bold>\<open>Code that is not in the repository\<close> is a parameter: \<open>do_table\<close> and \<open>do_list\<close> (the functions
  of the core library that write a selection), with the hypothesis \<open>selectors_ok\<close>, and the
  selection functions of the plain encoder with \<open>selects_ok\<close>. Their witnesses instantiate them with
  the encoder's own instructions. The searches use functions of the core library (bit counting,
  rounding, and the aggregates of a range), the fields of \<open>core_functions\<close> with the hypothesis
  \<open>core_ok\<close>; \<open>reference_core\<close> is an instance. The bounds of an array are those of its width, which is part
  of \<open>array_ok\<close>. The tables whose links \<open>DeepChange\<close> follows are its parameter \<open>world\<close>, with the hypotheses that a
  column belongs to one table and that links lead to objects; what the user's callbacks do is the parameter \<open>react\<close> of
  \<open>Notifier\<close>.

  \<^bold>\<open>Not modelled.\<close> The core library comes as headers and a binary: tables, clusters, B+-trees,
  groups, the allocator and the transaction machinery are declared under \<open>core/\<close> but defined
  elsewhere, and so are the growth of arrays, insertion into them and the sync client. Of the searches,
  the form for processors with SSE and the conditions on strings and other types are left out. The functions of the object store that call them
  (\<open>OS/results.cpp\<close>, \<open>OS/list.cpp\<close>, \<open>OS/object.cpp\<close>, \<open>OS/shared_realm.cpp\<close>,
  \<open>OS/impl/realm_coordinator.cpp\<close>, and what the notifiers for results, lists and objects run) are sequences of calls into that code. The
  utilities for files, threads, networks and TLS are wrappers of system calls. The query expressions
  (\<open>core/query_expression.hpp\<close>) evaluate columns of the core's tables. The Objective-C and Swift
  layers and the application are not C++.
\<close>

section \<open>Index sets\<close>

definition sample_set :: chunks where
  "sample_set = [\<lparr>cdata = [(1, 3), (5, 6)], cbegin = 1, cend = 6, ccount = 3\<rparr>,
     \<lparr>cdata = [(8, 12)], cbegin = 8, cend = 12, ccount = 4\<rparr>]"

definition other_set :: chunks where
  "other_set = [\<lparr>cdata = [(0, 1), (4, 9)], cbegin = 0, cend = 9, ccount = 6\<rparr>]"

lemma sample_set_ok: "is_ok 4 sample_set" "is_ok 4 other_set"
  by (simp_all add: sample_set_def other_set_def is_ok_def chunk_ok_def range_size_def)

lemma sample_set_elems: "elems sample_set = {1, 2, 5, 8, 9, 10, 11}" "elems other_set = {0, 4, 5, 6, 7, 8}"
  by (auto simp: sample_set_def other_set_def elems_def)



text \<open>
  C2. The bulk operations return, and on the indices they mean: inserting positions moves every
  index behind the ones inserted before it, erasing positions is the inverse, and the indices
  that were erased are gone.
\<close>

theorem bulk_operations:
  assumes "is_ok mx s" "is_ok mx t"
  shows "map_option elems (insert_at_all mx s t) = Some (elems t \<union> placed (elems t) (elems s)) \<and>
    map_option elems (shift_for_insert_at_all mx s t) = Some (placed (elems t) (elems s)) \<and>
    map_option elems (erase_at_all mx s t) = Some (unshifted (elems t) ` (elems s - elems t)) \<and>
    map_option elems (shift_for_insert_at_all mx s t \<bind> (\<lambda>u. erase_at_all mx u t)) = Some (elems s)"
proof -
  obtain u where u: "shift_for_insert_at_all mx s t = Some u" "is_ok mx u" "elems u = placed (elems t) (elems s)"
    using shift_for_insert_at_all_ok [OF assms] by blast
  obtain v where v: "erase_at_all mx u t = Some v" "elems v = unshifted (elems t) ` (elems u - elems t)"
    using erase_at_all_ok [OF u(2) assms(2)] by blast
  have "elems v = elems s"
  proof (intro set_eqI iffI)
    fix x assume "x \<in> elems s"
    moreover obtain j where "j \<notin> elems t" "unshifted (elems t) j = x" using ex_shifted [of "elems t" x] by auto
    ultimately show "x \<in> elems v" unfolding v(2) u(3) placed_def by blast
  qed (auto simp: v(2) u(3) placed_def)
  then show ?thesis
    using u v insert_at_all_ok [OF assms] erase_at_all_ok [OF assms] by auto
qed

theorem bulk_operations_witness:
  "map_option elems (shift_for_insert_at_all 4 sample_set other_set \<bind> (\<lambda>u. erase_at_all 4 u other_set)) =
     Some {1, 2, 5, 8, 9, 10, 11}"
  using bulk_operations [OF sample_set_ok] by (simp add: sample_set_elems)

text \<open>
  \<open>shift\<close> and \<open>unshift\<close> are inverse to each other on the positions that are not in the set,
  \<open>shift\<close> is strictly monotonic, and it never returns a position of the set.
\<close>

theorem shift_unshift_inverse:
  assumes "is_ok mx s"
  shows "unshift_index s (shift_index s i) = Some i \<and> \<not> contains s (shift_index s i) \<and>
    (\<not> contains s j \<longrightarrow> map_option (shift_index s) (unshift_index s j) = Some j) \<and>
    (i < k \<longrightarrow> shift_index s i < shift_index s k)"
  using ixs.unshift_shift [OF assms] ixs.shift_unshift [OF assms] ixs.shift_mono [OF assms]
    ixs.shift_law [OF assms] by (auto simp: contains_elems [OF assms])

theorem shift_unshift_inverse_witness: "unshift_index sample_set (shift_index sample_set 4) = Some 4"
  using shift_unshift_inverse [OF sample_set_ok(1), of 4] by simp

text \<open>
  \<open>insert_at\<close> followed by \<open>erase_at\<close> at the same position gives back the same indices, and
  \<open>add_shifted\<close> adds the index \<open>shift\<close> computes.
\<close>

theorem insert_erase_round_trip:
  assumes "is_ok mx s"
  shows "(\<exists>s1 s2. insert_at mx s i 1 = Some s1 \<and> erase_at s1 i = Some s2 \<and> elems s2 = elems s) \<and>
    map_option (\<lambda>(u, j). (elems u, j)) (add_shifted mx s i) =
      Some (insert (shift_index s i) (elems s), shift_index s i)"
proof -
  obtain u j where u: "add_shifted mx s i = Some (u, j)" "elems u = insert j (elems s)" "j \<notin> elems s"
    "unshifted (elems s) j = i" using add_shifted_ok [OF assms] by metis
  moreover have "j = shift_index s i"
    using shift_index_ok [OF assms, of i] u unshifted_inj [of j "elems s" "shift_index s i"] by simp
  ultimately show ?thesis using ixs.insert_then_erase [OF assms] by simp
qed

theorem insert_erase_round_trip_witness:
  "\<exists>s1 s2. insert_at 4 sample_set 2 1 = Some s1 \<and> erase_at s1 2 = Some s2 \<and> elems s2 = elems sample_set"
  using insert_erase_round_trip [OF sample_set_ok(1), of 2] by blast

text \<open>
  C3. \<open>count\<close> counts the indices in a window that starts at zero, and in every window whose end
  is not inside the first range of a chunk that begins in the window.
\<close>

theorem count_counts:
  assumes "is_ok mx s" "a \<le> b" "a = 0 \<or> \<not> straddled s a b"
  shows "count_in s a b = Some (card (elems s \<inter> {a..<b}))"
  using count_in_ok [OF assms] by (simp add: between_def)

theorem count_counts_witness: "count_in sample_set 0 10 = Some 5"
proof -
  have "elems sample_set \<inter> {0..<10} = {1, 2, 5, 8, 9}" by (auto simp: sample_set_elems)
  then show ?thesis using count_counts [OF sample_set_ok(1), of 0 10] by simp
qed

text \<open>
  On the other windows it is wrong: a well-formed set with five indices in \<open>[1, 10)\<close> for
  which \<open>count(1, 10)\<close> returns three.
\<close>

theorem count_misses_indices:
  "\<exists>s. is_ok 4 s \<and> card (elems s \<inter> {1..<10}) = 5 \<and> count_in s 1 10 = Some 3"
  using straddle_example_ok [of 4] straddle_example_count straddle_example_between
  by (auto simp: between_def)

text \<open>
  The builder of \<open>add_shifted_by\<close> gives a chunk that starts with a range the size one: two
  well-formed sets (of chunks of two ranges) for which the result does not pass \<open>verify\<close>.
\<close>

theorem add_shifted_by_miscounts:
  "\<exists>s t u. is_ok 2 s \<and> is_ok 2 t \<and> add_shifted_by 2 s [] t = Some u \<and> \<not> verify u"
proof -
  have "\<not> verify [\<lparr>cdata = [(0, 1), (2, 3)], cbegin = 0, cend = 3, ccount = 2\<rparr>,
      \<lparr>cdata = [(5, 7)], cbegin = 5, cend = 7, ccount = 1\<rparr>]"
    by (simp add: verify_def verify_chunk_def)
  then show ?thesis using overflow_example_ok overflow_example_result by blast
qed

section \<open>Collection changes\<close>

text \<open>
  C4. Any sequence of valid insertions, erasures and moves can be recorded without an assertion
  firing, the recorded change set passes \<open>verify\<close>, and it is exact: it takes the row at \<open>r\<close> of
  the old collection to \<open>k\<close> just when the sequence does.
\<close>

theorem recorded_history_is_exact:
  assumes "even mx" "2 \<le> mx" "list_all valid_change xs"
  shows "\<exists>c. record_changes mx empty_builder xs = Some c \<and> verify_changes c \<and>
    (\<forall>r k. follows c r k \<longleftrightarrow> row_after_all xs r = Some k)"
  using record_changes_ok [OF empty_builder_ok [OF assms(1,2)] assms(3)] builder_ok_verify
  by (auto simp: empty_builder_follows)

theorem recorded_history_is_exact_witness:
  "\<exists>c. record_changes 4 empty_builder [Insert 2 3, Erase 0, Move 4 1] = Some c \<and> follows c 2 1"
proof -
  have "row_after_all [Insert 2 3, Erase 0, Move 4 1] 2 = Some 1" by (simp add: moved_def)
  moreover have "list_all valid_change [Insert 2 3, Erase 0, Move 4 1]" by (simp add: npos_def)
  ultimately show ?thesis using recorded_history_is_exact [of 4 "[Insert 2 3, Erase 0, Move 4 1]"] by auto
qed


definition sample_builder :: change_builder where
  "sample_builder = empty_builder\<lparr>deletions := [\<lparr>cdata = [(3, 4)], cbegin = 3, cend = 4, ccount = 1\<rparr>],
     insertions := [\<lparr>cdata = [(0, 2)], cbegin = 0, cend = 2, ccount = 2\<rparr>], moves := [\<lparr>mfrom = 3, mto = 0\<rparr>]\<rparr>"

lemma sample_builder_ok:
  "builder_ok 4 sample_builder" "elems (deletions sample_builder) = {3}" "elems (insertions sample_builder) = {0, 1}"
  by (auto simp: sample_builder_def empty_builder_def builder_ok_def sets_ok_def cols_ok_def moves_ok_def
      is_ok_def chunk_ok_def range_size_def elems_def)




text \<open>
  C7. The change set calculated for two versions of a query result turns the old rows into the
  new ones, deletes and inserts the rows only one of them has, and marks the changed rows; no
  assertion of the longest common subsequence calculator fires, and it terminates.
\<close>

theorem calculated_change_produces_new_rows:
  assumes "even mx" "2 \<le> mx" "distinct prev" "distinct nxt" "length prev \<le> npos"
    "in_table_order \<longrightarrow> filter (\<lambda>k. k \<in> set nxt) prev = filter (\<lambda>k. k \<in> set prev) nxt"
  shows "\<exists>c. calculate_keys mx prev nxt f in_table_order = Some c \<and> apply_changeset prev nxt c = nxt \<and>
    {i. i < length prev \<and> prev ! i \<notin> set nxt} \<subseteq> elems (deletions c) \<and>
    {j. j < length nxt \<and> nxt ! j \<notin> set prev} \<subseteq> elems (insertions c) \<and>
    elems (modifications c) = {j. j < length nxt \<and> nxt ! j \<in> set prev \<and> f (nxt ! j)}"
proof -
  obtain c where "calculate_keys mx prev nxt f in_table_order = Some c" "describes prev nxt c"
    "apply_changeset prev nxt c = nxt" "elems (modifications c) = changed_rows prev nxt f"
    using calculate_keys_ok [OF assms(1-5), of in_table_order f] assms(6) by blast
  then show ?thesis unfolding describes_def changed_rows_def by (intro exI [of _ c] conjI) simp_all
qed

theorem calculated_change_produces_new_rows_witness:
  "\<exists>c. calculate_keys 4 [10, 20, 30, 40] [40, 10, 50, 30] (\<lambda>k. k = 30) False = Some c \<and>
    apply_changeset [10::int, 20, 30, 40] [40, 10, 50, 30] c = [40, 10, 50, 30]"
  using calculated_change_produces_new_rows
    [of 4 "[10, 20, 30, 40]" "[40, 10, 50, 30]" False "\<lambda>k. k = 30"] by (auto simp: npos_def)

text \<open>The same for rows that are given as \<open>size_t\<close> indices.\<close>

theorem calculated_change_of_indices:
  assumes "even mx" "2 \<le> mx" "distinct prev" "distinct nxt" "length prev \<le> npos"
  shows "\<exists>c. calculate_indices mx prev nxt f = Some c \<and> apply_changeset prev nxt c = nxt \<and>
    elems (modifications c) = {j. j < length nxt \<and> nxt ! j \<in> set prev \<and> f (sint (nxt ! j))}"
proof -
  have "elems (modifications c) = {j. j < length nxt \<and> nxt ! j \<in> set prev \<and> f (sint (nxt ! j))}"
    if "elems (modifications c) = changed_rows (map sint prev) (map sint nxt) f" for c
  proof -
    have "map sint nxt ! j \<in> set (map sint prev) \<longleftrightarrow> nxt ! j \<in> set prev" if "j < length nxt" for j
      using that by (simp add: inj_image_mem_iff [OF inj_sint])
    then show ?thesis unfolding that changed_rows_def
      by (intro Collect_cong) (simp cong: conj_cong del: set_map)
  qed
  then show ?thesis using calculate_indices_ok [OF assms, of f] by blast
qed

theorem calculated_change_of_indices_witness:
  "\<exists>c. calculate_indices 4 [1, 2, 18446744073709551615] [18446744073709551615, 1] (\<lambda>k. k < 0) = Some c \<and>
    apply_changeset [1 :: 64 word, 2, 18446744073709551615] [18446744073709551615, 1] c = [18446744073709551615, 1]"
  using calculated_change_of_indices
    [of 4 "[1, 2, 18446744073709551615]" "[18446744073709551615, 1]" "\<lambda>k. k < 0"] by (auto simp: npos_def)

text \<open>
  Finalizing a change set reports as many modified rows in the old collection as in the
  new one, each the position before the change of a row that is modified and not inserted.
\<close>

theorem finalize_modifications:
  assumes "builder_ok mx c"
  shows "\<exists>f. finalize_changes mx c = Some f \<and>
    elems (modifications_new f) = elems (modifications c) - elems (insertions c) \<and>
    elems (modifications f) = {r. \<exists>j \<in> elems (modifications_new f). carried c r j} \<and>
    card (elems (modifications f)) = card (elems (modifications_new f))"
  using finalize_changes_ok [OF assms] by blast

theorem finalize_modifications_witness:
  "\<exists>f. finalize_changes 4 sample_builder = Some f \<and> elems (modifications_new f) = {}"
proof -
  have "elems (modifications sample_builder) = {}" by (simp add: sample_builder_def empty_builder_def)
  then show ?thesis using finalize_modifications [OF sample_builder_ok(1)] by auto
qed

text \<open>
  \<open>clear\<close> deletes every row of the old collection: its length is computed from the length
  of the new one and the sizes of the recorded deletions and insertions.
\<close>

theorem clear_deletes_everything:
  assumes "builder_ok mx c"
  shows "\<exists>c'. clear_rows mx c n = Some c' \<and> verify_changes c' \<and>
    elems (deletions c') = {0..<n + card (elems (deletions c)) - card (elems (insertions c))} \<and>
    elems (insertions c') = {} \<and> elems (modifications c') = {} \<and> moves c' = []"
  using clear_rows_ok [OF assms] builder_ok_verify by blast

theorem clear_deletes_everything_witness:
  "\<exists>c'. clear_rows 4 sample_builder 5 = Some c' \<and> elems (deletions c') = {0..<4}"
  using clear_deletes_everything [OF sample_builder_ok(1), of 5] by (auto simp: sample_builder_ok)

section \<open>The way of a change\<close>

text \<open>
  C18. From the write to the notification: whatever is done through the encoder, the observer that
  reads the log it wrote ends up, for each watched list, with a change builder that moves every
  row of the list as the operations on this list did.
\<close>

theorem written_list_changes_are_observed:
  assumes "selects_ok sel_table sel_list" "selectors_ok sel_table sel_list do_table do_list"
    "list_all (op_ok keys) ops" "63 * length ops \<le> size_max"
    "list_all (\<lambda>op. case op_instr op of None \<Rightarrow> True | Some (t, i) \<Rightarrow> positions_ok i \<and> schema_ok i) ops"
    "even mx" "2 \<le> mx" "infos_ok (ti_lists ti)" "li \<in> set (ti_lists ti)"
    "list_all (keeps_list li) (concat (map op_effects ops))"
  shows "\<exists>c ob. run_ops do_table do_list ops conv_new = Some (Inr c) \<and>
    parse simple_next_block (observer_handler mx) (written (ce_log c))
      (Some (Inr (observer_new ti (\<lambda>p. empty_builder)))) = Some (Inr (Some (Inr ob))) \<and>
    (\<forall>r k. follows (ob_builders ob (lc_changes li)) r k \<longleftrightarrow>
      row_after_all (list_history li (concat (map op_effects ops))) r = Some k)"
proof -
  let ?is = "fst (ops_log ops (sel_of conv_new))"
  have ok: "list_all instr_ok ?is" using ops_log_ok [OF assms(3)] by blast
  have "list_all (\<lambda>i. positions_ok i \<and> schema_ok i) ?is" by (rule ops_log_all [OF _ _ assms(5)]) simp_all
  then have "list_all positions_ok ?is" "list_all schema_ok ?is" by (auto simp: list_all_iff)
  moreover obtain t l where "run_handler track ?is (None, None, []) = Some (t, l, concat (map op_effects ops))"
    using ops_log_tracks [OF assms(3) agree_new, of "[]"] by auto
  ultimately obtain ob where ob: "run_observer mx ?is (observer_new ti (\<lambda>p. empty_builder)) = Some (Inr ob)"
    "\<forall>r k. follows (ob_builders ob (lc_changes li)) r k \<longleftrightarrow>
      row_after_all (list_history li (concat (map op_effects ops))) r = Some k"
    using run_observer_exact [OF assms(6-9) _ _ _ assms(10)] by blast
  obtain c where c: "run_ops do_table do_list ops conv_new = Some (Inr c)" "written (ce_log c) = bytes_of ?is"
    using run_ops_written [OF assms(1-4)] by blast
  then show ?thesis
    using ob simple.parse_encoded [OF ok c(2), of "observer_handler mx"] by (auto simp: run_handler_observer handled_def)
qed

theorem written_list_changes_are_observed_witness:
  "\<exists>c ob. run_ops plain_do_table plain_do_list sample_ops conv_new = Some (Inr c) \<and>
    parse simple_next_block (observer_handler 4) (written (ce_log c))
      (Some (Inr (observer_new \<lparr>ti_lists = [\<lparr>lc_table = 11, lc_row = 3, lc_col = 9, lc_changes = 0\<rparr>],
        ti_tables = Mapping.empty, ti_track_all = True, ti_schema_changed = False\<rparr> (\<lambda>p. empty_builder)))) =
      Some (Inr (Some (Inr ob))) \<and>
    follows (ob_builders ob 0) 5 5"
proof -
  let ?li = "\<lparr>lc_table = 11, lc_row = 3, lc_col = 9, lc_changes = 0\<rparr>"
  let ?info = "\<lparr>ti_lists = [?li], ti_tables = Mapping.empty, ti_track_all = True, ti_schema_changed = False\<rparr>"
  have p: "list_all (\<lambda>op. case op_instr op of None \<Rightarrow> True | Some (t, i) \<Rightarrow> positions_ok i \<and> schema_ok i) sample_ops"
    by (simp add: sample_ops_def sample_list_def npos_def)
  have i: "infos_ok (ti_lists ?info)" "?li \<in> set (ti_lists ?info)" by (simp_all add: infos_ok_def)
  have k: "list_all (keeps_list ?li) (concat (map op_effects sample_ops))" by (simp add: sample_ops_ok(3))
  have "row_after_all (list_history ?li (concat (map op_effects sample_ops))) 5 = Some 5"
    by (simp add: sample_ops_ok(3) list_history_def list_key_def)
  then show ?thesis
    using written_list_changes_are_observed [OF plain_selects_ok plain_selectors_ok sample_ops_ok(1,2) p _ _ i k, of 4] by auto
qed

end
